(* ===== verification/Prelude.thy ===== *)
theory Prelude
  imports Main "HOL-Library.Word" "HOL-Library.Code_Target_Nat"
begin

text \<open>
  Shared vocabulary of the development.

  \<^item> \<open>res\<close> is Rust's \<open>Result\<close> with a third constructor for a panic
    (\<open>assert!\<close>, \<open>expect\<close>, an out-of-range slice index), so that every early return and
    every assertion of the source is a branch of the model.
  \<^item> A method that takes \<open>&mut self\<close> or a \<open>&mut [T]\<close> returns its result paired with
    the updated state; \<open>and_then\<close> is the \<open>?\<close> operator on such pairs. The state
    reached at an error or a panic is kept: the lifecycle guard is observable after both.
  \<^item> \<open>nonzero\<close> is \<open>NonZeroUsize\<close>; its values are positive by construction.
  \<^item> \<open>usize\<close> is \<open>nat\<close>, with the checked operations at 64 bits written out. The
    unchecked additions of the source are on cursors into slices, which stay inside the
    slice (shown by the bounds lemmas of the components).
  \<^item> \<open>write_back\<close> states what the type \<open>&mut [T]\<close> guarantees of every callee, trusted
    or not: the callee may change the elements of the slice, never its length.
\<close>

section \<open>Results, panics and state\<close>

datatype ('e, 'a) res = Ok 'a | Err 'e | Panic

type_synonym ('e, 'a, 's) run = "('e, 'a) res \<times> 's"

named_theorems run_simps \<open>unfolding rules for and\_then and map\_err\<close>

fun map_err :: "('e \<Rightarrow> 'f) \<Rightarrow> ('e, 'a) res \<Rightarrow> ('f, 'a) res" where
  "map_err f (Ok x) = Ok x"
| "map_err f (Err e) = Err (f e)"
| "map_err f Panic = Panic"

fun map_ok :: "('a \<Rightarrow> 'b) \<Rightarrow> ('e, 'a) res \<Rightarrow> ('e, 'b) res" where
  "map_ok f (Ok x) = Ok (f x)"
| "map_ok f (Err e) = Err e"
| "map_ok f Panic = Panic"

fun bind_res :: "('e, 'a) res \<Rightarrow> ('a \<Rightarrow> ('e, 'b) res) \<Rightarrow> ('e, 'b) res" where
  "bind_res (Ok x) k = k x"
| "bind_res (Err e) k = Err e"
| "bind_res Panic k = Panic"

fun ok_or :: "'e \<Rightarrow> 'a option \<Rightarrow> ('e, 'a) res" where
  "ok_or e None = Err e"
| "ok_or e (Some x) = Ok x"

fun and_then :: "('e, 'a, 's) run \<Rightarrow> ('a \<Rightarrow> 's \<Rightarrow> ('e, 'b, 's) run) \<Rightarrow> ('e, 'b, 's) run" where
  "and_then (Ok x, s) k = k x s"
| "and_then (Err e, s) k = (Err e, s)"
| "and_then (Panic, s) k = (Panic, s)"

lemma and_then_case:
  "and_then r k =
    (case r of (Ok x, s) \<Rightarrow> k x s | (Err e, s) \<Rightarrow> (Err e, s) | (Panic, s) \<Rightarrow> (Panic, s))"
  by (cases "(r, k)" rule: and_then.cases) auto

lemma map_err_id: "(\<And>e. f e = e) \<Longrightarrow> map_err f r = r"
  by (cases r) auto

lemma map_err_map_err: "map_err f (map_err g r) = map_err (\<lambda>e. f (g e)) r"
  by (cases r) auto

lemma map_err_eq_Ok [simp]: "map_err f r = Ok x \<longleftrightarrow> r = Ok x"
  by (cases r) auto

lemma map_err_eq_Err [simp]: "map_err f r = Err e \<longleftrightarrow> (\<exists>e'. r = Err e' \<and> e = f e')"
  by (cases r) auto

lemma map_err_eq_Panic [simp]: "map_err f r = Panic \<longleftrightarrow> r = Panic"
  by (cases r) auto

lemma Ok_eq_map_err [simp]: "Ok x = map_err f r \<longleftrightarrow> r = Ok x"
  by (cases r) auto

lemma map_ok_eq: "map_ok f r = Ok y \<longleftrightarrow> (\<exists>x. r = Ok x \<and> y = f x)"
  by (cases r) auto

lemma map_ok_eq_Panic [simp]: "map_ok f r = Panic \<longleftrightarrow> r = Panic"
  by (cases r) auto

lemma map_ok_eq_Err [simp]: "map_ok f r = Err e \<longleftrightarrow> r = Err e"
  by (cases r) auto

lemma bind_res_eq_Ok: "bind_res r k = Ok y \<longleftrightarrow> (\<exists>x. r = Ok x \<and> k x = Ok y)"
  by (cases r) auto

lemma bind_res_eq_Panic: "bind_res r k = Panic \<longleftrightarrow> r = Panic \<or> (\<exists>x. r = Ok x \<and> k x = Panic)"
  by (cases r) auto

lemma bind_res_eq_Err: "bind_res r k = Err e \<longleftrightarrow> r = Err e \<or> (\<exists>x. r = Ok x \<and> k x = Err e)"
  by (cases r) auto

lemma ok_or_eq_Ok [simp]: "ok_or e x = Ok y \<longleftrightarrow> x = Some y"
  by (cases x) auto

lemma ok_or_not_Panic [simp]: "ok_or e x \<noteq> Panic"
  by (cases x) auto

lemma and_then_eq_Ok [run_simps]:
  "and_then r k = (Ok y, t) \<longleftrightarrow> (\<exists>x s. r = (Ok x, s) \<and> k x s = (Ok y, t))"
  by (cases "(r, k)" rule: and_then.cases) auto

lemma and_then_eq_Panic [run_simps]:
  "and_then r k = (Panic, t) \<longleftrightarrow> r = (Panic, t) \<or> (\<exists>x s. r = (Ok x, s) \<and> k x s = (Panic, t))"
  by (cases "(r, k)" rule: and_then.cases) auto

lemma and_then_eq_Err [run_simps]:
  "and_then r k = (Err e, t) \<longleftrightarrow> r = (Err e, t) \<or> (\<exists>x s. r = (Ok x, s) \<and> k x s = (Err e, t))"
  by (cases "(r, k)" rule: and_then.cases) auto

text \<open>A call on one component of the state, seen as a call on the pair.\<close>

lemma run_on_component [run_simps]:
  "(case x of (q, t) \<Rightarrow> (q, s, t)) = (r, s', t') \<longleftrightarrow> x = (r, t') \<and> s' = s"
  by (cases x) auto

lemma run_on_state [run_simps]:
  "(case x of (q, e, t) \<Rightarrow> (q, e, f t)) = (r, e', u) \<longleftrightarrow> (\<exists>t. x = (r, e', t) \<and> u = f t)"
  by (cases x) auto

section \<open>NonZeroUsize\<close>

text \<open>\<open>NZ n\<close> is the non-zero number \<open>n + 1\<close>; \<open>nz_get\<close> is \<open>NonZeroUsize::get\<close>,
  \<open>nz_new\<close> is \<open>NonZeroUsize::new\<close> and \<open>nz_min\<close> is \<open>NonZeroUsize::MIN\<close>.\<close>

datatype nonzero = NZ nat

fun nz_get :: "nonzero \<Rightarrow> nat" where
  "nz_get (NZ n) = Suc n"

fun nz_new :: "nat \<Rightarrow> nonzero option" where
  "nz_new 0 = None"
| "nz_new (Suc n) = Some (NZ n)"

definition nz_min :: nonzero where
  "nz_min = NZ 0"

text \<open>\<open>NonZeroUsize::new(n).expect(..)\<close>: panics on zero.\<close>

fun nz_expect :: "nat \<Rightarrow> ('e, nonzero) res" where
  "nz_expect 0 = Panic"
| "nz_expect (Suc n) = Ok (NZ n)"

lemma nz_get_pos [simp]: "0 < nz_get n" "nz_get n \<noteq> 0"
  by (cases n; simp)+

lemma nz_get_min [simp]: "nz_get nz_min = 1"
  by (simp add: nz_min_def)

lemma nz_get_inject [simp]: "nz_get a = nz_get b \<longleftrightarrow> a = b"
  by (cases a; cases b) auto

lemma nz_expect_eq_Ok [simp]: "nz_expect n = Ok z \<longleftrightarrow> n = nz_get z"
  by (cases n; cases z) auto

lemma nz_expect_eq_Panic [simp]: "nz_expect n = Panic \<longleftrightarrow> n = 0"
  by (cases n) auto

lemma nz_expect_not_Err [simp]: "nz_expect n \<noteq> Err e"
  by (cases n) auto

lemma nz_expect_nz_get [simp]: "nz_expect (nz_get z) = Ok z"
  by (cases z) simp

lemma nz_expect_pos: "0 < n \<Longrightarrow> nz_expect n = Ok (NZ (n - 1))"
  by (cases n) auto

lemma nz_new_eq_Some [simp]: "nz_new n = Some z \<longleftrightarrow> n = nz_get z"
  by (cases n; cases z) auto

lemma nz_sub_less: "nz_get n \<le> a - b \<Longrightarrow> a - (b + nz_get n) < a - b"
  by (cases n) auto

section \<open>usize arithmetic\<close>

definition usize_max :: nat where
  "usize_max = 2 ^ 64 - 1"

definition checked_add :: "nat \<Rightarrow> nat \<Rightarrow> nat option" where
  "checked_add a b = (if a + b \<le> usize_max then Some (a + b) else None)"

definition checked_mul :: "nat \<Rightarrow> nat \<Rightarrow> nat option" where
  "checked_mul a b = (if a * b \<le> usize_max then Some (a * b) else None)"

definition checked_sub :: "nat \<Rightarrow> nat \<Rightarrow> nat option" where
  "checked_sub a b = (if b \<le> a then Some (a - b) else None)"

text \<open>\<open>usize::saturating_sub\<close> is subtraction on \<open>nat\<close>.\<close>

definition saturating_sub :: "nat \<Rightarrow> nat \<Rightarrow> nat" where
  "saturating_sub a b = a - b"

text \<open>\<open>usize::div_ceil\<close>; the source divides by a bound it has shown non-zero.\<close>

definition div_ceil :: "nat \<Rightarrow> nat \<Rightarrow> nat" where
  "div_ceil a b = a div b + (if a mod b = 0 then 0 else 1)"

text \<open>The checked addition is the 64-bit machine addition that does not wrap.\<close>

lemma checked_add_word:
  assumes "a \<le> usize_max" "b \<le> usize_max"
  shows "checked_add a b =
    (let s = (word_of_nat a :: 64 word) + word_of_nat b
     in if unat s < a then None else Some (unat s))"
proof -
  have s: "unat ((word_of_nat a :: 64 word) + word_of_nat b) = (a + b) mod 2 ^ 64"
    by (simp add: unat_word_ariths unat_of_nat mod_add_eq)
  show ?thesis
  proof (cases "a + b < 2 ^ 64")
    case True
    then show ?thesis by (simp add: s checked_add_def usize_max_def Let_def)
  next
    case False
    with assms have "(a + b) mod 2 ^ 64 = a + b - 2 ^ 64"
      by (simp add: usize_max_def mod_nat_eqI)
    with False assms show ?thesis
      by (simp add: s checked_add_def usize_max_def Let_def)
  qed
qed

lemma checked_add_eq_Some: "checked_add a b = Some c \<longleftrightarrow> c = a + b \<and> a + b \<le> usize_max"
  by (auto simp: checked_add_def)

lemma checked_add_eq_None: "checked_add a b = None \<longleftrightarrow> usize_max < a + b"
  by (auto simp: checked_add_def)

lemma checked_mul_eq_Some: "checked_mul a b = Some c \<longleftrightarrow> c = a * b \<and> a * b \<le> usize_max"
  by (auto simp: checked_mul_def)

lemma div_ceil_bound:
  assumes "0 < b"
  shows "a \<le> div_ceil a b * b"
proof -
  have "a mod b \<le> (if a mod b = 0 then 0 else 1) * b"
    using mod_less_divisor [OF assms, of a] by simp
  then have "a div b * b + a mod b \<le> div_ceil a b * b"
    by (simp only: div_ceil_def distrib_right add_left_mono)
  then show ?thesis by (simp only: div_mult_mod_eq)
qed

section \<open>Slices\<close>

definition write_back :: "'x list \<Rightarrow> 'x list \<Rightarrow> 'x list" where
  "write_back old new = take (length old) (new @ drop (length new) old)"

lemma length_write_back [simp]: "length (write_back old new) = length old"
  by (simp add: write_back_def)

lemma write_back_same [simp]: "length new = length old \<Longrightarrow> write_back old new = new"
  by (simp add: write_back_def)

text \<open>A call that receives a slice: \<open>slice_call\<close> passes on the callee's result and state.\<close>

fun slice_call :: "'x list \<Rightarrow> 'r \<times> 's \<times> 'x list \<Rightarrow> 'r \<times> 's \<times> 'x list" where
  "slice_call old (r, s, new) = (r, s, write_back old new)"

lemma slice_call_length: "slice_call old x = (r, s, out) \<Longrightarrow> length out = length old"
  by (cases x) auto

text \<open>\<open>splice out i xs\<close> overwrites the elements of \<open>out\<close> from \<open>i\<close> on by \<open>xs\<close>.\<close>

definition splice_at :: "'x list \<Rightarrow> nat \<Rightarrow> 'x list \<Rightarrow> 'x list" where
  "splice_at out i xs = take i out @ xs @ drop (i + length xs) out"

lemma length_splice_at [simp]:
  "i + length xs \<le> length out \<Longrightarrow> length (splice_at out i xs) = length out"
  by (simp add: splice_at_def)

lemma splice_at_Nil [simp]: "splice_at out i [] = out"
  by (simp add: splice_at_def)

lemma splice_at_append:
  assumes "i + length xs \<le> length out"
  shows "splice_at (splice_at out i xs) (i + length xs) ys = splice_at out i (xs @ ys)"
  using assms by (simp add: splice_at_def add.assoc add.left_commute add.commute)

lemma splice_at_single: "i < length out \<Longrightarrow> splice_at out i [x] = out[i := x]"
  by (simp add: splice_at_def upd_conv_take_nth_drop)

lemma take_splice_at [simp]: "i \<le> length out \<Longrightarrow> take i (splice_at out i xs) = take i out"
  by (simp add: splice_at_def)

lemma drop_splice_at: "i \<le> length out \<Longrightarrow> drop i (splice_at out i xs) = xs @ drop (i + length xs) out"
  by (simp add: splice_at_def)

lemma splice_at_read: "i \<le> length out \<Longrightarrow> take (length xs) (drop i (splice_at out i xs)) = xs"
  by (simp add: drop_splice_at)

text \<open>A slice element read: \<open>input[i]\<close> panics out of range.\<close>

definition slice_get :: "'x list \<Rightarrow> nat \<Rightarrow> ('e, 'x) res" where
  "slice_get xs i = (if i < length xs then Ok (xs ! i) else Panic)"

lemma slice_get_drop: "slice_get xs i = (case drop i xs of [] \<Rightarrow> Panic | x # _ \<Rightarrow> Ok x)"
proof (cases "i < length xs")
  case True
  then show ?thesis by (simp add: slice_get_def Cons_nth_drop_Suc [symmetric])
qed (simp add: slice_get_def)

section \<open>Machine words\<close>

type_synonym u8 = "8 word"
type_synonym u16 = "16 word"
type_synonym u32 = "32 word"
type_synonym u64 = "64 word"

end
