(* ===== verification/Failure.thy ===== *)
theory Failure
  imports Prelude
begin

text \<open>
  The error types of the crate and the checks that produce framework errors:
  \<open>CapacityError\<close>, \<open>TranscodeContractError\<close>, \<open>TranscodeFailure\<close> with its
  \<open>ensure_*\<close> checks, \<open>TranscodeDomainError\<close>, and the error envelopes of the encode,
  decode and convert sides. The checks are characterised exactly: which inputs they accept
  and, where they refuse, which error of the documented order they report.
\<close>

section \<open>Framework errors\<close>

datatype capacity_error = CapacityOutputLengthOverflow

datatype contract_error =
    OverRead nat nat \<comment> \<open>read, available\<close>
  | OverWritten nat nat \<comment> \<open>written, available\<close>
  | ProgressIndexOverflow nat nat \<comment> \<open>index, advanced\<close>
  | SatisfiedNeed nat nat \<comment> \<open>required, available\<close>
  | CompleteWithRemainingInput nat nat \<comment> \<open>read, available\<close>

datatype transcode_failure =
    InvalidInputIndex nat nat \<comment> \<open>index, input length\<close>
  | InvalidOutputIndex nat nat \<comment> \<open>index, output length\<close>
  | InvalidOutputRange nat nat nat \<comment> \<open>output index, range length, output length\<close>
  | InsufficientOutput nat nat nat \<comment> \<open>output index, required, available\<close>
  | OutputLengthOverflow
  | AllocationFailed
  | IncompleteInput nat nat nat \<comment> \<open>input index, required, available\<close>
  | InvalidProgress contract_error
  | TrailingInput nat nat \<comment> \<open>consumed, remaining\<close>
  | UnsupportedDecodeLifecycleOutput nat nat \<comment> \<open>reset bound, finish bound\<close>
  | TranscodeAfterFinish
  | TranscodeBeforeReset
  | FinishAfterFinish
  | FinishBeforeReset
  | LifecyclePoisoned

text \<open>\<open>From<CapacityError> for TranscodeFailure\<close>.\<close>

fun failure_of_capacity :: "capacity_error \<Rightarrow> transcode_failure" where
  "failure_of_capacity CapacityOutputLengthOverflow = OutputLengthOverflow"

type_synonym 'a capacity = "(capacity_error, 'a) res"
type_synonym check = "(transcode_failure, unit) res"

section \<open>Index and capacity checks\<close>

definition ensure_input_index :: "nat \<Rightarrow> nat \<Rightarrow> check" where
  "ensure_input_index input_len input_index =
    (if input_index > input_len then Err (InvalidInputIndex input_index input_len) else Ok ())"

definition ensure_min_input :: "nat \<Rightarrow> nat \<Rightarrow> nat \<Rightarrow> check" where
  "ensure_min_input input_len input_index min_required =
    bind_res (ensure_input_index input_len input_index) (\<lambda>_.
      let available = input_len - input_index in
      if available < min_required
      then Err (IncompleteInput input_index min_required available) else Ok ())"

definition ensure_no_trailing_input :: "nat \<Rightarrow> nat \<Rightarrow> check" where
  "ensure_no_trailing_input consumed input_len =
    bind_res (ensure_input_index input_len consumed) (\<lambda>_.
      let remaining = input_len - consumed in
      if remaining \<noteq> 0 then Err (TrailingInput consumed remaining) else Ok ())"

definition ensure_output_index :: "nat \<Rightarrow> nat \<Rightarrow> check" where
  "ensure_output_index output_len output_index =
    (if output_index > output_len then Err (InvalidOutputIndex output_index output_len) else Ok ())"

definition ensure_transcode_indices :: "nat \<Rightarrow> nat \<Rightarrow> nat \<Rightarrow> nat \<Rightarrow> check" where
  "ensure_transcode_indices input_len input_index output_len output_index =
    bind_res (ensure_input_index input_len input_index)
      (\<lambda>_. ensure_output_index output_len output_index)"

definition ensure_output_capacity :: "nat \<Rightarrow> nat \<Rightarrow> nat \<Rightarrow> check" where
  "ensure_output_capacity output_len output_index required =
    bind_res (ensure_output_index output_len output_index) (\<lambda>_.
      let available = output_len - output_index in
      if available < required
      then Err (InsufficientOutput output_index required available) else Ok ())"

definition ensure_output_range :: "nat \<Rightarrow> nat \<Rightarrow> nat \<Rightarrow> nat \<Rightarrow> check" where
  "ensure_output_range output_len output_index range_len required =
    bind_res (ensure_output_index output_len output_index) (\<lambda>_.
      let available = output_len - output_index in
      if range_len > available then Err (InvalidOutputRange output_index range_len output_len)
      else if range_len < required then Err (InsufficientOutput output_index required range_len)
      else Ok ())"

named_theorems check_simps \<open>when the checks accept, and that they never panic\<close>

lemma ensure_input_index_Ok [check_simps]:
  "ensure_input_index n i = Ok u \<longleftrightarrow> i \<le> n"
  by (auto simp: ensure_input_index_def)

lemma ensure_input_index_no_panic [check_simps]: "ensure_input_index n i \<noteq> Panic"
  by (auto simp: ensure_input_index_def)

lemma ensure_output_index_Ok [check_simps]:
  "ensure_output_index n i = Ok u \<longleftrightarrow> i \<le> n"
  by (auto simp: ensure_output_index_def)

lemma ensure_output_index_no_panic [check_simps]: "ensure_output_index n i \<noteq> Panic"
  by (auto simp: ensure_output_index_def)

lemma ensure_min_input_Ok [check_simps]:
  "ensure_min_input n i r = Ok u \<longleftrightarrow> i \<le> n \<and> r \<le> n - i"
  by (auto simp: ensure_min_input_def bind_res_eq_Ok Let_def check_simps)

lemma ensure_min_input_no_panic [check_simps]: "ensure_min_input n i r \<noteq> Panic"
  by (auto simp: ensure_min_input_def bind_res_eq_Panic Let_def check_simps)

lemma ensure_no_trailing_input_Ok [check_simps]:
  "ensure_no_trailing_input c n = Ok u \<longleftrightarrow> c = n"
  by (auto simp: ensure_no_trailing_input_def bind_res_eq_Ok Let_def check_simps)

lemma ensure_no_trailing_input_no_panic [check_simps]: "ensure_no_trailing_input c n \<noteq> Panic"
  by (auto simp: ensure_no_trailing_input_def bind_res_eq_Panic Let_def check_simps)

lemma ensure_transcode_indices_Ok [check_simps]:
  "ensure_transcode_indices n i m j = Ok u \<longleftrightarrow> i \<le> n \<and> j \<le> m"
  by (auto simp: ensure_transcode_indices_def bind_res_eq_Ok check_simps)

lemma ensure_transcode_indices_no_panic [check_simps]: "ensure_transcode_indices n i m j \<noteq> Panic"
  by (auto simp: ensure_transcode_indices_def bind_res_eq_Panic check_simps)

lemma ensure_output_capacity_Ok [check_simps]:
  "ensure_output_capacity n i r = Ok u \<longleftrightarrow> i + r \<le> n"
  by (auto simp: ensure_output_capacity_def bind_res_eq_Ok Let_def check_simps)

lemma ensure_output_capacity_no_panic [check_simps]: "ensure_output_capacity n i r \<noteq> Panic"
  by (auto simp: ensure_output_capacity_def bind_res_eq_Panic Let_def check_simps)

lemma ensure_output_range_Ok [check_simps]:
  "ensure_output_range n i len r = Ok u \<longleftrightarrow> i + len \<le> n \<and> r \<le> len"
  by (auto simp: ensure_output_range_def bind_res_eq_Ok Let_def check_simps split: if_splits)

lemma ensure_output_range_no_panic [check_simps]: "ensure_output_range n i len r \<noteq> Panic"
  by (auto simp: ensure_output_range_def bind_res_eq_Panic Let_def check_simps split: if_splits)

section \<open>Domain errors\<close>

text \<open>\<open>TranscodeDomainError<E>\<close>: a codec error with the lifecycle phase it came from.\<close>

datatype 'e domain_error =
    DomainReset 'e
  | DomainMain 'e nat "nonzero option" \<comment> \<open>source, input index, consumed\<close>
  | DomainFinish 'e

fun domain_source :: "'e domain_error \<Rightarrow> 'e" where
  "domain_source (DomainReset e) = e"
| "domain_source (DomainMain e _ _) = e"
| "domain_source (DomainFinish e) = e"

fun domain_input_index :: "'e domain_error \<Rightarrow> nat option" where
  "domain_input_index (DomainMain _ i _) = Some i"
| "domain_input_index _ = None"

fun domain_input_consumed :: "'e domain_error \<Rightarrow> nonzero option" where
  "domain_input_consumed (DomainMain _ _ n) = n"
| "domain_input_consumed _ = None"

fun domain_map_source :: "('e \<Rightarrow> 't) \<Rightarrow> 'e domain_error \<Rightarrow> 't domain_error" where
  "domain_map_source f (DomainReset e) = DomainReset (f e)"
| "domain_map_source f (DomainMain e i n) = DomainMain (f e) i n"
| "domain_map_source f (DomainFinish e) = DomainFinish (f e)"

section \<open>Error envelopes\<close>

text \<open>\<open>TranscodeEncodeError<E, V>\<close>.\<close>

datatype ('e, 'v) encode_error =
    EncodeFailure transcode_failure
  | EncodeUnencodable nat "'v option" \<comment> \<open>input index, value\<close>
  | EncodeDomain "'e domain_error"

fun encode_failure_ref :: "('e, 'v) encode_error \<Rightarrow> transcode_failure option" where
  "encode_failure_ref (EncodeFailure f) = Some f"
| "encode_failure_ref _ = None"

fun encode_domain_ref :: "('e, 'v) encode_error \<Rightarrow> 'e option" where
  "encode_domain_ref (EncodeDomain d) = Some (domain_source d)"
| "encode_domain_ref _ = None"

fun encode_unencodable_ref :: "('e, 'v) encode_error \<Rightarrow> (nat \<times> 'v option) option" where
  "encode_unencodable_ref (EncodeUnencodable i v) = Some (i, v)"
| "encode_unencodable_ref _ = None"

fun encode_map_domain :: "('e \<Rightarrow> 't) \<Rightarrow> ('e, 'v) encode_error \<Rightarrow> ('t, 'v) encode_error" where
  "encode_map_domain f (EncodeFailure x) = EncodeFailure x"
| "encode_map_domain f (EncodeUnencodable i v) = EncodeUnencodable i v"
| "encode_map_domain f (EncodeDomain d) = EncodeDomain (domain_map_source f d)"

fun encode_map_value :: "('v \<Rightarrow> 'w) \<Rightarrow> ('e, 'v) encode_error \<Rightarrow> ('e, 'w) encode_error" where
  "encode_map_value f (EncodeFailure x) = EncodeFailure x"
| "encode_map_value f (EncodeUnencodable i v) = EncodeUnencodable i (map_option f v)"
| "encode_map_value f (EncodeDomain d) = EncodeDomain d"

definition encode_of_capacity :: "capacity_error \<Rightarrow> ('e, 'v) encode_error" where
  "encode_of_capacity e = EncodeFailure (failure_of_capacity e)"

text \<open>\<open>TranscodeDecodeError<E>\<close>.\<close>

datatype 'e decode_error =
    DecodeFailed transcode_failure
  | DecodeDomain "'e domain_error"

fun decode_failure_ref :: "'e decode_error \<Rightarrow> transcode_failure option" where
  "decode_failure_ref (DecodeFailed f) = Some f"
| "decode_failure_ref (DecodeDomain _) = None"

fun decode_domain_ref :: "'e decode_error \<Rightarrow> 'e option" where
  "decode_domain_ref (DecodeDomain d) = Some (domain_source d)"
| "decode_domain_ref (DecodeFailed _) = None"

fun decode_map_domain :: "('e \<Rightarrow> 't) \<Rightarrow> 'e decode_error \<Rightarrow> 't decode_error" where
  "decode_map_domain f (DecodeFailed x) = DecodeFailed x"
| "decode_map_domain f (DecodeDomain d) = DecodeDomain (domain_map_source f d)"

definition decode_of_capacity :: "capacity_error \<Rightarrow> 'e decode_error" where
  "decode_of_capacity e = DecodeFailed (failure_of_capacity e)"

text \<open>\<open>TranscodeConvertError<DE, EE, V>\<close>.\<close>

datatype ('de, 'ee, 'v) convert_error =
    ConvertFailure transcode_failure
  | ConvertDecodeDomain "'de domain_error"
  | ConvertEncodeDomain "'ee domain_error"
  | ConvertUnencodable nat "'v option" \<comment> \<open>input index, value\<close>

fun convert_of_decode :: "'de decode_error \<Rightarrow> ('de, 'ee, 'v) convert_error" where
  "convert_of_decode (DecodeFailed f) = ConvertFailure f"
| "convert_of_decode (DecodeDomain d) = ConvertDecodeDomain d"

fun convert_of_encode :: "('ee, 'v) encode_error \<Rightarrow> ('de, 'ee, 'v) convert_error" where
  "convert_of_encode (EncodeFailure f) = ConvertFailure f"
| "convert_of_encode (EncodeUnencodable i v) = ConvertUnencodable i v"
| "convert_of_encode (EncodeDomain d) = ConvertEncodeDomain d"

fun from_encode_error_with_value ::
  "('ee, 'v) encode_error \<Rightarrow> 'v \<Rightarrow> ('de, 'ee, 'v) convert_error" where
  "from_encode_error_with_value (EncodeUnencodable i None) fallback =
     ConvertUnencodable i (Some fallback)"
| "from_encode_error_with_value other fallback = convert_of_encode other"

definition convert_of_capacity :: "capacity_error \<Rightarrow> ('de, 'ee, 'v) convert_error" where
  "convert_of_capacity e = ConvertFailure (failure_of_capacity e)"

fun convert_failure_ref :: "('de, 'ee, 'v) convert_error \<Rightarrow> transcode_failure option" where
  "convert_failure_ref (ConvertFailure f) = Some f"
| "convert_failure_ref _ = None"

fun convert_unencodable_ref :: "('de, 'ee, 'v) convert_error \<Rightarrow> (nat \<times> 'v option) option" where
  "convert_unencodable_ref (ConvertUnencodable i v) = Some (i, v)"
| "convert_unencodable_ref _ = None"

fun convert_map_decode_domain ::
  "('de \<Rightarrow> 't) \<Rightarrow> ('de, 'ee, 'v) convert_error \<Rightarrow> ('t, 'ee, 'v) convert_error" where
  "convert_map_decode_domain f (ConvertFailure x) = ConvertFailure x"
| "convert_map_decode_domain f (ConvertDecodeDomain d) = ConvertDecodeDomain (domain_map_source f d)"
| "convert_map_decode_domain f (ConvertEncodeDomain d) = ConvertEncodeDomain d"
| "convert_map_decode_domain f (ConvertUnencodable i v) = ConvertUnencodable i v"

fun convert_map_encode_domain ::
  "('ee \<Rightarrow> 't) \<Rightarrow> ('de, 'ee, 'v) convert_error \<Rightarrow> ('de, 't, 'v) convert_error" where
  "convert_map_encode_domain f (ConvertFailure x) = ConvertFailure x"
| "convert_map_encode_domain f (ConvertDecodeDomain d) = ConvertDecodeDomain d"
| "convert_map_encode_domain f (ConvertEncodeDomain d) = ConvertEncodeDomain (domain_map_source f d)"
| "convert_map_encode_domain f (ConvertUnencodable i v) = ConvertUnencodable i v"

fun convert_map_value ::
  "('v \<Rightarrow> 'w) \<Rightarrow> ('de, 'ee, 'v) convert_error \<Rightarrow> ('de, 'ee, 'w) convert_error" where
  "convert_map_value f (ConvertFailure x) = ConvertFailure x"
| "convert_map_value f (ConvertDecodeDomain d) = ConvertDecodeDomain d"
| "convert_map_value f (ConvertEncodeDomain d) = ConvertEncodeDomain d"
| "convert_map_value f (ConvertUnencodable i v) = ConvertUnencodable i (map_option f v)"

lemma convert_of_encode_failure [simp]:
  "convert_failure_ref (from_encode_error_with_value e v) = encode_failure_ref e"
  by (cases "(e, v)" rule: from_encode_error_with_value.cases) auto

text \<open>An unencodable value reaches the caller of a converter with the value itself.\<close>

lemma from_encode_error_keeps_value:
  "convert_unencodable_ref (from_encode_error_with_value e v) =
    map_option (\<lambda>(i, w). (i, Some (case w of None \<Rightarrow> v | Some x \<Rightarrow> x))) (encode_unencodable_ref e)"
  by (cases "(e, v)" rule: from_encode_error_with_value.cases) auto

end
