(* ===== verification/Codec.thy ===== *)
theory Codec
  imports Failure
begin

text \<open>
  The \<open>Codec\<close> trait (\<open>src/codec/codec/codec.rs\<close>) and \<open>DecodeFailure\<close>. A trait
  is the record of its constants and methods over the implementor's state \<open>'c\<close>;
  implementors are outside the crate, so every definition of the development takes the
  record as an argument. Method results carry the state (and, for \<open>&mut [T]\<close>
  parameters, the slice) the method left behind. The provided methods of the trait are the
  definitions \<open>default_*\<close>.

  Queries that take \<open>&self\<close> (\<open>can_encode_value\<close>, \<open>encode_len\<close>) are total
  functions of the codec state; methods that take \<open>&mut self\<close> may return an error or
  panic.
\<close>

section \<open>DecodeFailure\<close>

datatype 'e decode_failure =
    Incomplete "'e option" nonzero \<comment> \<open>source, required total\<close>
  | Invalid 'e "nonzero option" \<comment> \<open>source, consumed\<close>

definition failure_incomplete :: "nonzero \<Rightarrow> 'e decode_failure" where
  "failure_incomplete required_total = Incomplete None required_total"

definition failure_incomplete_with_source :: "'e \<Rightarrow> nonzero \<Rightarrow> 'e decode_failure" where
  "failure_incomplete_with_source src required_total = Incomplete (Some src) required_total"

definition failure_invalid :: "'e \<Rightarrow> nonzero \<Rightarrow> 'e decode_failure" where
  "failure_invalid src consumed = Invalid src (Some consumed)"

definition failure_invalid_unknown :: "'e \<Rightarrow> 'e decode_failure" where
  "failure_invalid_unknown src = Invalid src None"

fun required_total :: "'e decode_failure \<Rightarrow> nonzero option" where
  "required_total (Incomplete _ n) = Some n"
| "required_total (Invalid _ _) = None"

fun incomplete_source :: "'e decode_failure \<Rightarrow> 'e option" where
  "incomplete_source (Incomplete e _) = e"
| "incomplete_source (Invalid _ _) = None"

fun invalid_source :: "'e decode_failure \<Rightarrow> 'e option" where
  "invalid_source (Invalid e _) = Some e"
| "invalid_source (Incomplete _ _) = None"

fun consumed_units :: "'e decode_failure \<Rightarrow> nonzero option" where
  "consumed_units (Invalid _ n) = n"
| "consumed_units (Incomplete _ _) = None"

lemmas failure_defs =
  failure_incomplete_def failure_incomplete_with_source_def failure_invalid_def
  failure_invalid_unknown_def

text \<open>\<open>TranscodeDecodeError::from_decode_failure\<close>.\<close>

fun from_decode_failure :: "'e decode_failure \<Rightarrow> nat \<Rightarrow> nat \<Rightarrow> 'e decode_error" where
  "from_decode_failure (Incomplete (Some src) _) input_index available =
     DecodeDomain (DomainMain src input_index None)"
| "from_decode_failure (Incomplete None required) input_index available =
     DecodeFailed (IncompleteInput input_index (nz_get required) available)"
| "from_decode_failure (Invalid src consumed) input_index available =
     DecodeDomain (DomainMain src input_index consumed)"

section \<open>The Codec trait\<close>

record ('c, 'v, 'u, 'de, 'ee) codec =
  min_units_per_value :: nat
  max_encode_units_per_value :: nat
  max_decode_units_per_value :: nat
  max_encode_reset_units :: nat
  max_encode_finish_units :: nat
  max_decode_reset_values :: nat
  max_decode_finish_values :: nat
  can_encode_value :: "'c \<Rightarrow> 'v \<Rightarrow> bool"
  encode_len :: "'c \<Rightarrow> 'v \<Rightarrow> nat"
  encode_reset :: "'c \<Rightarrow> 'u list \<Rightarrow> nat \<Rightarrow> ('ee, nat) res \<times> 'c \<times> 'u list"
  encode :: "'c \<Rightarrow> 'v \<Rightarrow> 'u list \<Rightarrow> nat \<Rightarrow> ('ee, nat) res \<times> 'c \<times> 'u list"
  encode_finish :: "'c \<Rightarrow> 'u list \<Rightarrow> nat \<Rightarrow> ('ee, nat) res \<times> 'c \<times> 'u list"
  decode_reset :: "'c \<Rightarrow> 'v list \<Rightarrow> nat \<Rightarrow> ('de, nat) res \<times> 'c \<times> 'v list"
  decode :: "'c \<Rightarrow> 'u list \<Rightarrow> nat \<Rightarrow> ('de decode_failure, 'v \<times> nonzero) res \<times> 'c"
  decode_eof :: "'c \<Rightarrow> 'u list \<Rightarrow> nat \<Rightarrow> ('de decode_failure, 'v \<times> nonzero) res \<times> 'c"
  decode_finish :: "'c \<Rightarrow> 'v list \<Rightarrow> nat \<Rightarrow> ('de, nat) res \<times> 'c \<times> 'v list"

text \<open>The provided methods and constants of the trait.\<close>

definition default_lifecycle_units :: nat where
  "default_lifecycle_units = 0"

definition default_can_encode_value :: "'c \<Rightarrow> 'v \<Rightarrow> bool" where
  "default_can_encode_value c v = True"

definition default_encode_len :: "nat \<Rightarrow> 'c \<Rightarrow> 'v \<Rightarrow> nat" where
  "default_encode_len max_units c v = max_units"

definition default_lifecycle_output :: "'c \<Rightarrow> 'x list \<Rightarrow> nat \<Rightarrow> ('e, nat) res \<times> 'c \<times> 'x list" where
  "default_lifecycle_output c out i = (Ok 0, c, out)"

definition default_decode_eof ::
  "('c \<Rightarrow> 'u list \<Rightarrow> nat \<Rightarrow> ('de decode_failure, 'v \<times> nonzero) res \<times> 'c) \<Rightarrow>
   'c \<Rightarrow> 'u list \<Rightarrow> nat \<Rightarrow> ('de decode_failure, 'v \<times> nonzero) res \<times> 'c" where
  "default_decode_eof dec c input input_index = dec c input input_index"

lemmas codec_default_defs =
  default_lifecycle_units_def default_can_encode_value_def default_encode_len_def
  default_lifecycle_output_def default_decode_eof_def

text \<open>The compile-time assertion \<open>assert_unit_bounds\<close> of \<open>src/codec/codec.rs\<close>; a
  failure stops compilation and is a panic here.\<close>

definition unit_bounds :: "('c, 'v, 'u, 'de, 'ee) codec \<Rightarrow> bool" where
  "unit_bounds C \<longleftrightarrow>
     0 < min_units_per_value C \<and> 0 < max_decode_units_per_value C \<and>
     min_units_per_value C \<le> max_decode_units_per_value C"

definition assert_unit_bounds :: "('c, 'v, 'u, 'de, 'ee) codec \<Rightarrow> ('e, unit) res" where
  "assert_unit_bounds C =
    (if \<not> 0 < min_units_per_value C then Panic
     else if \<not> 0 < max_decode_units_per_value C then Panic
     else if \<not> min_units_per_value C \<le> max_decode_units_per_value C then Panic
     else Ok ())"

lemma assert_unit_bounds_cases:
  "assert_unit_bounds C = (if unit_bounds C then Ok () else Panic)"
  by (auto simp: assert_unit_bounds_def unit_bounds_def)

text \<open>\<open>TranscodeFailure::ensure_no_decode_lifecycle_output\<close>.\<close>

definition ensure_no_decode_lifecycle_output :: "('c, 'v, 'u, 'de, 'ee) codec \<Rightarrow> check" where
  "ensure_no_decode_lifecycle_output C =
    bind_res (assert_unit_bounds C) (\<lambda>_.
      if max_decode_reset_values C \<noteq> 0 \<or> max_decode_finish_values C \<noteq> 0
      then Err (UnsupportedDecodeLifecycleOutput (max_decode_reset_values C)
                 (max_decode_finish_values C))
      else Ok ())"

section \<open>Checked calls\<close>

text \<open>Calls of the unsafe entry points on a \<open>&mut\<close> slice; Rust fixes the slice length.\<close>

definition call_encode_reset ::
  "('c, 'v, 'u, 'de, 'ee) codec \<Rightarrow> 'c \<Rightarrow> 'u list \<Rightarrow> nat \<Rightarrow> ('ee, nat) res \<times> 'c \<times> 'u list" where
  "call_encode_reset C c out i = slice_call out (encode_reset C c out i)"

definition call_encode ::
  "('c, 'v, 'u, 'de, 'ee) codec \<Rightarrow> 'c \<Rightarrow> 'v \<Rightarrow> 'u list \<Rightarrow> nat \<Rightarrow> ('ee, nat) res \<times> 'c \<times> 'u list" where
  "call_encode C c v out i = slice_call out (encode C c v out i)"

definition call_encode_finish ::
  "('c, 'v, 'u, 'de, 'ee) codec \<Rightarrow> 'c \<Rightarrow> 'u list \<Rightarrow> nat \<Rightarrow> ('ee, nat) res \<times> 'c \<times> 'u list" where
  "call_encode_finish C c out i = slice_call out (encode_finish C c out i)"

definition call_decode_reset ::
  "('c, 'v, 'u, 'de, 'ee) codec \<Rightarrow> 'c \<Rightarrow> 'v list \<Rightarrow> nat \<Rightarrow> ('de, nat) res \<times> 'c \<times> 'v list" where
  "call_decode_reset C c out i = slice_call out (decode_reset C c out i)"

definition call_decode_finish ::
  "('c, 'v, 'u, 'de, 'ee) codec \<Rightarrow> 'c \<Rightarrow> 'v list \<Rightarrow> nat \<Rightarrow> ('de, nat) res \<times> 'c \<times> 'v list" where
  "call_decode_finish C c out i = slice_call out (decode_finish C c out i)"

lemmas call_defs =
  call_encode_reset_def call_encode_def call_encode_finish_def call_decode_reset_def
  call_decode_finish_def

named_theorems slice_len \<open>calls keep the length of the slice they receive\<close>

lemma call_encode_reset_length [slice_len]:
  "call_encode_reset C c out i = (r, c', out') \<Longrightarrow> length out' = length out"
  by (auto simp: call_defs dest: slice_call_length)

lemma call_encode_length [slice_len]:
  "call_encode C c v out i = (r, c', out') \<Longrightarrow> length out' = length out"
  by (auto simp: call_defs dest: slice_call_length)

lemma call_encode_finish_length [slice_len]:
  "call_encode_finish C c out i = (r, c', out') \<Longrightarrow> length out' = length out"
  by (auto simp: call_defs dest: slice_call_length)

lemma call_decode_reset_length [slice_len]:
  "call_decode_reset C c out i = (r, c', out') \<Longrightarrow> length out' = length out"
  by (auto simp: call_defs dest: slice_call_length)

lemma call_decode_finish_length [slice_len]:
  "call_decode_finish C c out i = (r, c', out') \<Longrightarrow> length out' = length out"
  by (auto simp: call_defs dest: slice_call_length)

end
