(* ===== verification/Progress.thy ===== *)
theory Progress
  imports Failure
begin

text \<open>
  \<open>TranscodeStatus\<close> and \<open>TranscodeProgress\<close> with \<open>TranscodeProgress::validate\<close>,
  the runtime contract every caller of a transcoder checks. \<open>valid_progress\<close> states the
  contract declaratively; \<open>validate\<close> is shown to decide it, and its error is shown to
  be the first violated clause in the order of the source.
\<close>

datatype transcode_status = Complete | NeedInput nonzero | NeedOutput nonzero

record transcode_progress =
  tp_status :: transcode_status
  tp_read :: nat
  tp_written :: nat

definition progress_new :: "transcode_status \<Rightarrow> nat \<Rightarrow> nat \<Rightarrow> transcode_progress" where
  "progress_new status rd wr = \<lparr>tp_status = status, tp_read = rd, tp_written = wr\<rparr>"

definition progress_complete :: "nat \<Rightarrow> nat \<Rightarrow> transcode_progress" where
  "progress_complete rd wr = progress_new Complete rd wr"

definition progress_need_input :: "nonzero \<Rightarrow> nat \<Rightarrow> nat \<Rightarrow> transcode_progress" where
  "progress_need_input required rd wr = progress_new (NeedInput required) rd wr"

definition progress_need_output :: "nonzero \<Rightarrow> nat \<Rightarrow> nat \<Rightarrow> transcode_progress" where
  "progress_need_output required rd wr = progress_new (NeedOutput required) rd wr"

fun is_complete :: "transcode_progress \<Rightarrow> bool" where
  "is_complete p = (case tp_status p of Complete \<Rightarrow> True | _ \<Rightarrow> False)"

fun is_need_input :: "transcode_progress \<Rightarrow> bool" where
  "is_need_input p = (case tp_status p of NeedInput _ \<Rightarrow> True | _ \<Rightarrow> False)"

fun is_need_output :: "transcode_progress \<Rightarrow> bool" where
  "is_need_output p = (case tp_status p of NeedOutput _ \<Rightarrow> True | _ \<Rightarrow> False)"

lemmas progress_defs =
  progress_new_def progress_complete_def progress_need_input_def progress_need_output_def

text \<open>\<open>TranscodeProgress::validate\<close>.\<close>

definition validate ::
  "transcode_progress \<Rightarrow> nat \<Rightarrow> nat \<Rightarrow> nat \<Rightarrow> nat \<Rightarrow> (contract_error, unit) res" where
  "validate p input_index available_input output_index available_output =
    (if tp_read p > available_input then Err (OverRead (tp_read p) available_input)
     else if tp_written p > available_output then Err (OverWritten (tp_written p) available_output)
     else
       bind_res (ok_or (ProgressIndexOverflow input_index (tp_read p))
                   (checked_add input_index (tp_read p))) (\<lambda>_.
       bind_res (ok_or (ProgressIndexOverflow output_index (tp_written p))
                   (checked_add output_index (tp_written p))) (\<lambda>_.
       case tp_status p of
         Complete \<Rightarrow>
           if tp_read p \<noteq> available_input
           then Err (CompleteWithRemainingInput (tp_read p) available_input) else Ok ()
       | NeedInput required \<Rightarrow>
           let available = available_input - tp_read p in
           if nz_get required \<le> available
           then Err (SatisfiedNeed (nz_get required) available) else Ok ()
       | NeedOutput required \<Rightarrow>
           let available = available_output - tp_written p in
           if nz_get required \<le> available
           then Err (SatisfiedNeed (nz_get required) available) else Ok ())))"

text \<open>The contract, stated without the order of the checks.\<close>

fun status_holds :: "transcode_status \<Rightarrow> nat \<Rightarrow> nat \<Rightarrow> bool" where
  "status_holds Complete rest_input rest_output = (rest_input = 0)"
| "status_holds (NeedInput r) rest_input rest_output = (rest_input < nz_get r)"
| "status_holds (NeedOutput r) rest_input rest_output = (rest_output < nz_get r)"

definition valid_progress :: "transcode_progress \<Rightarrow> nat \<Rightarrow> nat \<Rightarrow> nat \<Rightarrow> nat \<Rightarrow> bool" where
  "valid_progress p input_index available_input output_index available_output \<longleftrightarrow>
     tp_read p \<le> available_input \<and> tp_written p \<le> available_output \<and>
     input_index + tp_read p \<le> usize_max \<and> output_index + tp_written p \<le> usize_max \<and>
     status_holds (tp_status p) (available_input - tp_read p) (available_output - tp_written p)"

lemma validate_Ok_iff: "validate p i ai j ao = Ok u \<longleftrightarrow> valid_progress p i ai j ao"
  by (cases "tp_status p")
    (auto simp: validate_def valid_progress_def bind_res_eq_Ok checked_add_def Let_def
      split: if_splits)

lemma validate_no_panic [simp]: "validate p i ai j ao \<noteq> Panic"
  by (cases "tp_status p")
    (auto simp: validate_def bind_res_eq_Panic checked_add_def Let_def split: if_splits)

text \<open>\<open>TranscodeProgress::validate\<close> accepts exactly the reports that satisfy the
  progress contract: counters within the visible input and output, absolute indices that fit
  \<open>usize\<close>, \<open>Complete\<close> only when all visible input was consumed, and a request for
  more input or output only when the remaining amount does not already satisfy it. It never
  panics.\<close>

theorem validate_decides_contract:
  "(validate p i ai j ao = Ok () \<longleftrightarrow> valid_progress p i ai j ao) \<and> validate p i ai j ao \<noteq> Panic"
  by (simp add: validate_Ok_iff)

end
