(* ===== verification/Cursor.thy ===== *)
theory Cursor
  imports Progress
begin

text \<open>
  The cursor state shared by the streaming engines (\<open>src/transcode/internal\<close>):
  \<open>TranscodeState\<close> and its three wrappers \<open>EncodeState\<close>, \<open>DecodeState\<close> and
  \<open>ConvertState\<close>, the per-value \<open>EncodeAttempt\<close>, the contexts passed to hooks, and
  the outcomes \<open>EncodeOutcome\<close> and \<open>DecodeOutcome\<close> that move the cursors. The
  invariant \<open>cursors_ok\<close> says that the cursors stay inside their slices; it is kept by
  every operation that returns normally, and the assertions of the source are exactly what
  keeps it. The \<open>debug_assert!\<close>s of the source are shown to hold (no model branch).
\<close>

section \<open>TranscodeState\<close>

record ('i, 'o) transcode_state =
  ts_input :: "'i list"
  ts_output :: "'o list"
  ts_input_start :: nat
  ts_output_start :: nat
  ts_input_cursor :: nat
  ts_output_cursor :: nat

definition ts_new :: "'i list \<Rightarrow> nat \<Rightarrow> 'o list \<Rightarrow> nat \<Rightarrow> ('i, 'o) transcode_state" where
  "ts_new input input_index output output_index =
    \<lparr>ts_input = input, ts_output = output,
     ts_input_start = input_index, ts_output_start = output_index,
     ts_input_cursor = input_index, ts_output_cursor = output_index\<rparr>"

definition ts_has_input :: "('i, 'o) transcode_state \<Rightarrow> bool" where
  "ts_has_input s \<longleftrightarrow> ts_input_cursor s < length (ts_input s)"

definition ts_needs_output :: "('i, 'o) transcode_state \<Rightarrow> bool" where
  "ts_needs_output s \<longleftrightarrow> ts_output_cursor s = length (ts_output s)"

definition ts_available_input :: "('i, 'o) transcode_state \<Rightarrow> nat" where
  "ts_available_input s = length (ts_input s) - ts_input_cursor s"

definition ts_available_output :: "('i, 'o) transcode_state \<Rightarrow> nat" where
  "ts_available_output s = saturating_sub (length (ts_output s)) (ts_output_cursor s)"

definition ts_read :: "('i, 'o) transcode_state \<Rightarrow> nat" where
  "ts_read s = ts_input_cursor s - ts_input_start s"

definition ts_written :: "('i, 'o) transcode_state \<Rightarrow> nat" where
  "ts_written s = ts_output_cursor s - ts_output_start s"

definition ts_complete_progress :: "('i, 'o) transcode_state \<Rightarrow> transcode_progress" where
  "ts_complete_progress s = progress_complete (ts_read s) (ts_written s)"

definition ts_need_input_progress :: "('i, 'o) transcode_state \<Rightarrow> nonzero \<Rightarrow> transcode_progress" where
  "ts_need_input_progress s required = progress_need_input required (ts_read s) (ts_written s)"

definition ts_need_output_progress :: "('i, 'o) transcode_state \<Rightarrow> nonzero \<Rightarrow> transcode_progress" where
  "ts_need_output_progress s required = progress_need_output required (ts_read s) (ts_written s)"

definition ts_advance_input :: "('i, 'o) transcode_state \<Rightarrow> nat \<Rightarrow> ('i, 'o) transcode_state" where
  "ts_advance_input s rd = s\<lparr>ts_input_cursor := ts_input_cursor s + rd\<rparr>"

definition ts_advance_output :: "('i, 'o) transcode_state \<Rightarrow> nat \<Rightarrow> ('i, 'o) transcode_state" where
  "ts_advance_output s wr = s\<lparr>ts_output_cursor := ts_output_cursor s + wr\<rparr>"

definition ts_advance :: "('i, 'o) transcode_state \<Rightarrow> nat \<Rightarrow> nat \<Rightarrow> ('i, 'o) transcode_state" where
  "ts_advance s rd wr = ts_advance_output (ts_advance_input s rd) wr"

text \<open>Writing through \<open>output_mut\<close>: the slice after the borrow ends.\<close>

definition ts_set_output :: "('i, 'o) transcode_state \<Rightarrow> 'o list \<Rightarrow> ('i, 'o) transcode_state" where
  "ts_set_output s out = s\<lparr>ts_output := out\<rparr>"

lemmas ts_defs =
  ts_new_def ts_has_input_def ts_needs_output_def ts_available_input_def
  ts_available_output_def ts_read_def ts_written_def ts_complete_progress_def
  ts_need_input_progress_def ts_need_output_progress_def ts_advance_input_def
  ts_advance_output_def ts_advance_def ts_set_output_def saturating_sub_def

text \<open>The invariant of the cursors of a call on slices of the given lengths.\<close>

definition cursors_ok :: "('i, 'o) transcode_state \<Rightarrow> bool" where
  "cursors_ok s \<longleftrightarrow>
     ts_input_start s \<le> ts_input_cursor s \<and> ts_input_cursor s \<le> length (ts_input s) \<and>
     ts_output_start s \<le> ts_output_cursor s \<and> ts_output_cursor s \<le> length (ts_output s)"

lemma cursors_ok_new [simp]:
  "cursors_ok (ts_new input i out j) \<longleftrightarrow> i \<le> length input \<and> j \<le> length out"
  by (auto simp: cursors_ok_def ts_defs)

text \<open>What a call on a state may change: the output elements and the two cursors.\<close>

definition same_frame :: "('i, 'o) transcode_state \<Rightarrow> ('i, 'o) transcode_state \<Rightarrow> bool" where
  "same_frame s t \<longleftrightarrow>
     ts_input t = ts_input s \<and> length (ts_output t) = length (ts_output s) \<and>
     ts_input_start t = ts_input_start s \<and> ts_output_start t = ts_output_start s"

lemma same_frame_refl [simp]: "same_frame s s"
  by (simp add: same_frame_def)

lemma same_frame_trans: "same_frame r s \<Longrightarrow> same_frame s t \<Longrightarrow> same_frame r t"
  by (simp add: same_frame_def)

lemma same_frame_set_output [simp]:
  "length out = length (ts_output s) \<Longrightarrow> same_frame s (ts_set_output s out)"
  by (simp add: same_frame_def ts_defs)

lemma cursors_ok_set_output [simp]:
  "length out = length (ts_output s) \<Longrightarrow> cursors_ok (ts_set_output s out) \<longleftrightarrow> cursors_ok s"
  by (simp add: cursors_ok_def ts_defs)

text \<open>A report built from a state with good cursors satisfies the progress contract.\<close>

lemma complete_progress_valid:
  assumes "cursors_ok s" "\<not> ts_has_input s"
    and "length (ts_input s) \<le> usize_max" "length (ts_output s) \<le> usize_max"
  shows "valid_progress (ts_complete_progress s) (ts_input_start s)
     (length (ts_input s) - ts_input_start s) (ts_output_start s)
     (length (ts_output s) - ts_output_start s)"
  using assms by (auto simp: valid_progress_def cursors_ok_def ts_defs progress_defs)

lemma need_input_progress_valid:
  assumes "cursors_ok s" "ts_available_input s < nz_get required"
    and "length (ts_input s) \<le> usize_max" "length (ts_output s) \<le> usize_max"
  shows "valid_progress (ts_need_input_progress s required) (ts_input_start s)
     (length (ts_input s) - ts_input_start s) (ts_output_start s)
     (length (ts_output s) - ts_output_start s)"
  using assms by (auto simp: valid_progress_def cursors_ok_def ts_defs progress_defs)

lemma need_output_progress_valid:
  assumes "cursors_ok s" "ts_available_output s < nz_get required"
    and "length (ts_input s) \<le> usize_max" "length (ts_output s) \<le> usize_max"
  shows "valid_progress (ts_need_output_progress s required) (ts_input_start s)
     (length (ts_input s) - ts_input_start s) (ts_output_start s)
     (length (ts_output s) - ts_output_start s)"
  using assms by (auto simp: valid_progress_def cursors_ok_def ts_defs progress_defs)

section \<open>Outcomes\<close>

datatype encode_outcome =
    Consumed nat \<comment> \<open>written\<close>
  | EncodeNeedOutput nonzero \<comment> \<open>required\<close>

datatype decode_outcome =
    Emitted nonzero nonzero \<comment> \<open>read, emitted\<close>
  | Skipped nonzero \<comment> \<open>read\<close>
  | DecodeNeedInput nonzero \<comment> \<open>required\<close>

section \<open>EncodeState and EncodeAttempt\<close>

record ('v, 'u) encode_state =
  es_state :: "('v, 'u) transcode_state"

definition es_new :: "'v list \<Rightarrow> nat \<Rightarrow> 'u list \<Rightarrow> nat \<Rightarrow> ('v, 'u) encode_state" where
  "es_new input input_index output output_index =
    \<lparr>es_state = ts_new input input_index output output_index\<rparr>"

definition es_has_input :: "('v, 'u) encode_state \<Rightarrow> bool" where
  "es_has_input s = ts_has_input (es_state s)"

record ('v, 'u) encode_attempt =
  ea_value :: 'v
  ea_input_index :: nat
  ea_output :: "'u list"
  ea_output_index :: nat

definition ea_new :: "'v \<Rightarrow> nat \<Rightarrow> 'u list \<Rightarrow> nat \<Rightarrow> ('v, 'u) encode_attempt" where
  "ea_new v input_index output output_index =
    \<lparr>ea_value = v, ea_input_index = input_index, ea_output = output,
     ea_output_index = output_index\<rparr>"

definition ea_available_output :: "('v, 'u) encode_attempt \<Rightarrow> nat" where
  "ea_available_output a = saturating_sub (length (ea_output a)) (ea_output_index a)"

text \<open>\<open>EncodeContext\<close>: what a policy hook sees of the unencodable value.\<close>

record 'v encode_context =
  ec_input_value :: 'v
  ec_input_index :: nat
  ec_output_index :: nat
  ec_available_output :: nat

definition ea_context :: "('v, 'u) encode_attempt \<Rightarrow> 'v encode_context" where
  "ea_context a =
    \<lparr>ec_input_value = ea_value a, ec_input_index = ea_input_index a,
     ec_output_index = ea_output_index a, ec_available_output = ea_available_output a\<rparr>"

text \<open>\<open>context_unchecked\<close> reads the input at the cursor; its caller has checked
  \<open>has_input\<close>.\<close>

definition es_context_unchecked :: "('v, 'u) encode_state \<Rightarrow> ('v, 'u) encode_attempt" where
  "es_context_unchecked s =
    (let input_index = ts_input_cursor (es_state s) in
     ea_new (ts_input (es_state s) ! input_index) input_index
       (ts_output (es_state s)) (ts_output_cursor (es_state s)))"

definition es_complete_progress :: "('v, 'u) encode_state \<Rightarrow> transcode_progress" where
  "es_complete_progress s = ts_complete_progress (es_state s)"

definition es_need_output_progress_with :: "('v, 'u) encode_state \<Rightarrow> nonzero \<Rightarrow> transcode_progress" where
  "es_need_output_progress_with s required = ts_need_output_progress (es_state s) required"

definition es_available_output :: "('v, 'u) encode_state \<Rightarrow> nat" where
  "es_available_output s = ts_available_output (es_state s)"

definition es_set_output :: "('v, 'u) encode_state \<Rightarrow> 'u list \<Rightarrow> ('v, 'u) encode_state" where
  "es_set_output s out = s\<lparr>es_state := ts_set_output (es_state s) out\<rparr>"

definition es_accept_written_value ::
  "('v, 'u) encode_state \<Rightarrow> nat \<Rightarrow> ('e, unit) res \<times> ('v, 'u) encode_state" where
  "es_accept_written_value s wr =
    (if \<not> wr \<le> es_available_output s then (Panic, s)
     else (Ok (), s\<lparr>es_state := ts_advance (es_state s) 1 wr\<rparr>))"

fun es_apply_encode_outcome ::
  "('v, 'u) encode_state \<Rightarrow> encode_outcome \<Rightarrow>
   ('e, transcode_progress option) res \<times> ('v, 'u) encode_state" where
  "es_apply_encode_outcome s (Consumed wr) =
     and_then (es_accept_written_value s wr) (\<lambda>_ s'. (Ok None, s'))"
| "es_apply_encode_outcome s (EncodeNeedOutput required) =
     (let available = es_available_output s in
      if \<not> nz_get required > available then (Panic, s)
      else (Ok (Some (es_need_output_progress_with s required)), s))"

lemmas es_defs =
  es_new_def es_has_input_def es_context_unchecked_def es_complete_progress_def
  es_need_output_progress_with_def es_available_output_def es_set_output_def
  es_accept_written_value_def ea_new_def ea_available_output_def ea_context_def

text \<open>An outcome that lets the loop continue has consumed exactly one value and moved the
  output cursor by the units written, within the slice.\<close>

lemma es_apply_continue:
  assumes "es_apply_encode_outcome s oc = (Ok None, s')"
  shows "\<exists>wr. oc = Consumed wr \<and> wr \<le> es_available_output s \<and>
    s' = s\<lparr>es_state := ts_advance (es_state s) 1 wr\<rparr>"
  using assms by (cases oc) (auto simp: es_defs Let_def split: if_splits)

lemma es_apply_progress:
  assumes "es_apply_encode_outcome (es_set_output s out) oc = (Ok None, s')" "es_has_input s"
  shows "length (ts_input (es_state s')) - ts_input_cursor (es_state s')
    < length (ts_input (es_state s)) - ts_input_cursor (es_state s)"
  using es_apply_continue [OF assms(1)] assms(2) by (auto simp: es_defs ts_defs)

lemma es_apply_stop:
  assumes "es_apply_encode_outcome s oc = (Ok (Some p), s')"
  shows "\<exists>r. oc = EncodeNeedOutput r \<and> es_available_output s < nz_get r \<and>
    p = es_need_output_progress_with s r \<and> s' = s"
  using assms by (cases oc) (auto simp: es_defs Let_def split: if_splits)

lemma es_apply_no_Err: "es_apply_encode_outcome s oc \<noteq> (Err e, s')"
  by (cases oc) (auto simp: es_defs Let_def)

section \<open>DecodeContext and DecodeState\<close>

record decode_context =
  dc_input_start :: nat
  dc_input_index :: nat
  dc_output_start :: nat
  dc_output_index :: nat
  dc_available :: nat

text \<open>\<open>DecodeContext::new\<close> asserts that the indices do not precede their starts.\<close>

definition dc_new :: "nat \<Rightarrow> nat \<Rightarrow> nat \<Rightarrow> nat \<Rightarrow> nat \<Rightarrow> ('e, decode_context) res" where
  "dc_new input_start input_index output_start output_index available =
    (if \<not> input_start \<le> input_index then Panic
     else if \<not> output_start \<le> output_index then Panic
     else Ok \<lparr>dc_input_start = input_start, dc_input_index = input_index,
              dc_output_start = output_start, dc_output_index = output_index,
              dc_available = available\<rparr>)"

definition dc_input_used :: "decode_context \<Rightarrow> nat" where
  "dc_input_used x = dc_input_index x - dc_input_start x"

definition dc_output_written :: "decode_context \<Rightarrow> nat" where
  "dc_output_written x = dc_output_index x - dc_output_start x"

record ('u, 'v) decode_state =
  ds_state :: "('u, 'v) transcode_state"

definition ds_new :: "'u list \<Rightarrow> nat \<Rightarrow> 'v list \<Rightarrow> nat \<Rightarrow> ('u, 'v) decode_state" where
  "ds_new input input_index output output_index =
    \<lparr>ds_state = ts_new input input_index output output_index\<rparr>"

definition ds_has_input :: "('u, 'v) decode_state \<Rightarrow> bool" where
  "ds_has_input s = ts_has_input (ds_state s)"

definition ds_needs_output :: "('u, 'v) decode_state \<Rightarrow> bool" where
  "ds_needs_output s = ts_needs_output (ds_state s)"

definition ds_available :: "('u, 'v) decode_state \<Rightarrow> nat" where
  "ds_available s = ts_available_input (ds_state s)"

definition ds_output_cursor :: "('u, 'v) decode_state \<Rightarrow> nat" where
  "ds_output_cursor s = ts_output_cursor (ds_state s)"

definition ds_context :: "('u, 'v) decode_state \<Rightarrow> ('e, decode_context) res" where
  "ds_context s =
    dc_new (ts_input_start (ds_state s)) (ts_input_cursor (ds_state s))
      (ts_output_start (ds_state s)) (ts_output_cursor (ds_state s)) (ds_available s)"

definition ds_complete_progress :: "('u, 'v) decode_state \<Rightarrow> transcode_progress" where
  "ds_complete_progress s = ts_complete_progress (ds_state s)"

definition ds_need_output_progress :: "('u, 'v) decode_state \<Rightarrow> transcode_progress" where
  "ds_need_output_progress s = ts_need_output_progress (ds_state s) nz_min"

definition ds_need_input_progress_with :: "('u, 'v) decode_state \<Rightarrow> nonzero \<Rightarrow> transcode_progress" where
  "ds_need_input_progress_with s required = ts_need_input_progress (ds_state s) required"

definition ds_set_output :: "('u, 'v) decode_state \<Rightarrow> 'v list \<Rightarrow> ('u, 'v) decode_state" where
  "ds_set_output s out = s\<lparr>ds_state := ts_set_output (ds_state s) out\<rparr>"

definition ds_skip :: "('u, 'v) decode_state \<Rightarrow> nonzero \<Rightarrow> ('e, unit) res \<times> ('u, 'v) decode_state" where
  "ds_skip s rd =
    (if \<not> nz_get rd \<le> ds_available s then (Panic, s)
     else (Ok (), s\<lparr>ds_state := ts_advance_input (ds_state s) (nz_get rd)\<rparr>))"

definition ds_accept_emitted ::
  "('u, 'v) decode_state \<Rightarrow> nonzero \<Rightarrow> nonzero \<Rightarrow> ('e, unit) res \<times> ('u, 'v) decode_state" where
  "ds_accept_emitted s rd emitted =
    (if \<not> nz_get rd \<le> ds_available s then (Panic, s)
     else if \<not> nz_get emitted \<le> ts_available_output (ds_state s) then (Panic, s)
     else (Ok (), s\<lparr>ds_state := ts_advance (ds_state s) (nz_get rd) (nz_get emitted)\<rparr>))"

fun ds_apply_decode_outcome ::
  "('u, 'v) decode_state \<Rightarrow> decode_outcome \<Rightarrow>
   ('e, transcode_progress option) res \<times> ('u, 'v) decode_state" where
  "ds_apply_decode_outcome s (Emitted rd emitted) =
     and_then (ds_accept_emitted s rd emitted) (\<lambda>_ s'. (Ok None, s'))"
| "ds_apply_decode_outcome s (Skipped rd) =
     and_then (ds_skip s rd) (\<lambda>_ s'. (Ok None, s'))"
| "ds_apply_decode_outcome s (DecodeNeedInput required) =
     (Ok (Some (ds_need_input_progress_with s required)), s)"

lemmas ds_defs =
  ds_new_def ds_has_input_def ds_needs_output_def ds_available_def ds_output_cursor_def
  ds_context_def ds_complete_progress_def ds_need_output_progress_def
  ds_need_input_progress_with_def ds_set_output_def ds_skip_def ds_accept_emitted_def

text \<open>The context a decode step sees, when the assertions of \<open>DecodeContext::new\<close> hold.\<close>

definition cursor_context :: "('i, 'o) transcode_state \<Rightarrow> decode_context" where
  "cursor_context s =
    \<lparr>dc_input_start = ts_input_start s, dc_input_index = ts_input_cursor s,
     dc_output_start = ts_output_start s, dc_output_index = ts_output_cursor s,
     dc_available = ts_available_input s\<rparr>"

lemma cursor_context_sel [simp]:
  "dc_available (cursor_context s) = ts_available_input s"
  "dc_input_index (cursor_context s) = ts_input_cursor s"
  by (simp_all add: cursor_context_def)

lemma ds_context_cases:
  "ds_context s =
    (if ts_input_start (ds_state s) \<le> ts_input_cursor (ds_state s) \<and>
        ts_output_start (ds_state s) \<le> ts_output_cursor (ds_state s)
     then Ok (cursor_context (ds_state s)) else Panic)"
  by (auto simp: ds_context_def dc_new_def cursor_context_def ds_available_def)

lemma ds_context_ok: "cursors_ok (ds_state s) \<Longrightarrow> ds_context s = Ok (cursor_context (ds_state s))"
  by (simp add: ds_context_cases cursors_ok_def)

lemma ds_apply_continue:
  assumes "ds_apply_decode_outcome s oc = (Ok None, s')"
  shows "\<exists>rd wr. (oc = Skipped rd \<and> wr = 0 \<or> (\<exists>n. oc = Emitted rd n \<and> wr = nz_get n)) \<and>
    nz_get rd \<le> ds_available s \<and> wr \<le> ts_available_output (ds_state s) \<and>
    s' = s\<lparr>ds_state := ts_advance (ds_state s) (nz_get rd) wr\<rparr>"
  using assms by (cases oc) (auto simp: ds_defs ts_defs split: if_splits)

lemma ds_set_output_input [simp]:
  "ds_available (ds_set_output s out) = ds_available s"
  "ds_has_input (ds_set_output s out) = ds_has_input s"
  by (simp_all add: ds_defs ts_defs)

lemma ds_apply_progress:
  assumes "ds_apply_decode_outcome s oc = (Ok None, s')" "ds_has_input s"
  shows "ds_available s' < ds_available s"
proof -
  from ds_apply_continue [OF assms(1)] obtain rd wr where
    "nz_get rd \<le> ds_available s" "s' = s\<lparr>ds_state := ts_advance (ds_state s) (nz_get rd) wr\<rparr>"
    by blast
  then have "ds_available s' = ds_available s - nz_get rd"
    by (simp add: ds_defs ts_defs)
  with \<open>nz_get rd \<le> ds_available s\<close> show ?thesis
    by (metis diff_less le_zero_eq nz_get_pos neq0_conv)
qed

lemma ds_apply_stop:
  assumes "ds_apply_decode_outcome s oc = (Ok (Some p), s')"
  shows "\<exists>r. oc = DecodeNeedInput r \<and> p = ds_need_input_progress_with s r \<and> s' = s"
  using assms by (cases oc) (auto simp: ds_defs split: if_splits)

lemma ds_apply_no_Err: "ds_apply_decode_outcome s oc \<noteq> (Err e, s')"
  by (cases oc) (auto simp: ds_defs)

section \<open>ConvertState\<close>

record ('i, 'o) convert_state =
  cs_state :: "('i, 'o) transcode_state"

definition cs_new :: "'i list \<Rightarrow> nat \<Rightarrow> 'o list \<Rightarrow> nat \<Rightarrow> ('i, 'o) convert_state" where
  "cs_new input input_index output output_index =
    \<lparr>cs_state = ts_new input input_index output output_index\<rparr>"

definition cs_has_input :: "('i, 'o) convert_state \<Rightarrow> bool" where
  "cs_has_input s = ts_has_input (cs_state s)"

definition cs_available_input :: "('i, 'o) convert_state \<Rightarrow> nat" where
  "cs_available_input s = ts_available_input (cs_state s)"

definition cs_available_output :: "('i, 'o) convert_state \<Rightarrow> nat" where
  "cs_available_output s = ts_available_output (cs_state s)"

definition cs_decode_context :: "('i, 'o) convert_state \<Rightarrow> ('e, decode_context) res" where
  "cs_decode_context s =
    dc_new (ts_input_start (cs_state s)) (ts_input_cursor (cs_state s))
      (ts_output_start (cs_state s)) (ts_output_cursor (cs_state s)) (cs_available_input s)"

definition cs_set_output :: "('i, 'o) convert_state \<Rightarrow> 'o list \<Rightarrow> ('i, 'o) convert_state" where
  "cs_set_output s out = s\<lparr>cs_state := ts_set_output (cs_state s) out\<rparr>"

definition cs_advance_input ::
  "('i, 'o) convert_state \<Rightarrow> nat \<Rightarrow> ('e, unit) res \<times> ('i, 'o) convert_state" where
  "cs_advance_input s rd =
    (if \<not> rd \<le> cs_available_input s then (Panic, s)
     else (Ok (), s\<lparr>cs_state := ts_advance_input (cs_state s) rd\<rparr>))"

definition cs_advance_output ::
  "('i, 'o) convert_state \<Rightarrow> nat \<Rightarrow> ('e, unit) res \<times> ('i, 'o) convert_state" where
  "cs_advance_output s wr =
    (if \<not> wr \<le> cs_available_output s then (Panic, s)
     else (Ok (), s\<lparr>cs_state := ts_advance_output (cs_state s) wr\<rparr>))"

text \<open>A converter keeps one pending value, so an emission of more than one is an assertion
  failure.\<close>

fun cs_apply_decode_outcome ::
  "('i, 'o) convert_state \<Rightarrow> decode_outcome \<Rightarrow>
   ('e, transcode_progress option) res \<times> ('i, 'o) convert_state" where
  "cs_apply_decode_outcome s (Emitted rd emitted) =
     (if emitted \<noteq> nz_min then (Panic, s)
      else and_then (cs_advance_input s (nz_get rd)) (\<lambda>_ s'. (Ok None, s')))"
| "cs_apply_decode_outcome s (Skipped rd) =
     and_then (cs_advance_input s (nz_get rd)) (\<lambda>_ s'. (Ok None, s'))"
| "cs_apply_decode_outcome s (DecodeNeedInput required) =
     (Ok (Some (ts_need_input_progress (cs_state s) required)), s)"

fun cs_apply_encode_outcome ::
  "('i, 'o) convert_state \<Rightarrow> encode_outcome \<Rightarrow>
   ('e, transcode_progress option) res \<times> ('i, 'o) convert_state" where
  "cs_apply_encode_outcome s (Consumed wr) =
     and_then (cs_advance_output s wr) (\<lambda>_ s'. (Ok None, s'))"
| "cs_apply_encode_outcome s (EncodeNeedOutput required) =
     (let available = cs_available_output s in
      if \<not> nz_get required > available then (Panic, s)
      else (Ok (Some (ts_need_output_progress (cs_state s) required)), s))"

lemmas cs_defs =
  cs_new_def cs_has_input_def cs_available_input_def cs_available_output_def
  cs_decode_context_def cs_set_output_def cs_advance_input_def cs_advance_output_def

lemma cs_decode_context_cases:
  "cs_decode_context s =
    (if ts_input_start (cs_state s) \<le> ts_input_cursor (cs_state s) \<and>
        ts_output_start (cs_state s) \<le> ts_output_cursor (cs_state s)
     then Ok (cursor_context (cs_state s)) else Panic)"
  by (auto simp: cs_decode_context_def dc_new_def cursor_context_def cs_available_input_def)

lemma cs_decode_context_ok:
  "cursors_ok (cs_state s) \<Longrightarrow> cs_decode_context s = Ok (cursor_context (cs_state s))"
  by (simp add: cs_decode_context_cases cursors_ok_def)

lemma cs_apply_decode_continue:
  assumes "cs_apply_decode_outcome s oc = (Ok None, s')"
  shows "\<exists>rd. (oc = Skipped rd \<or> oc = Emitted rd nz_min) \<and>
    nz_get rd \<le> cs_available_input s \<and>
    s' = s\<lparr>cs_state := ts_advance_input (cs_state s) (nz_get rd)\<rparr>"
  using assms by (cases oc) (auto simp: cs_defs split: if_splits)

lemma cs_apply_decode_stop:
  assumes "cs_apply_decode_outcome s oc = (Ok (Some p), s')"
  shows "\<exists>r. oc = DecodeNeedInput r \<and> p = ts_need_input_progress (cs_state s) r \<and> s' = s"
  using assms by (cases oc) (auto simp: cs_defs split: if_splits)

lemma cs_apply_decode_no_Err: "cs_apply_decode_outcome s oc \<noteq> (Err e, s')"
  by (cases oc) (auto simp: cs_defs)

lemma cs_apply_encode_continue:
  assumes "cs_apply_encode_outcome s oc = (Ok None, s')"
  shows "\<exists>wr. oc = Consumed wr \<and> wr \<le> cs_available_output s \<and>
    s' = s\<lparr>cs_state := ts_advance_output (cs_state s) wr\<rparr>"
  using assms by (cases oc) (auto simp: cs_defs Let_def split: if_splits)

lemma cs_apply_encode_stop:
  assumes "cs_apply_encode_outcome s oc = (Ok (Some p), s')"
  shows "\<exists>r. oc = EncodeNeedOutput r \<and> cs_available_output s < nz_get r \<and>
    p = ts_need_output_progress (cs_state s) r \<and> s' = s"
  using assms by (cases oc) (auto simp: cs_defs Let_def split: if_splits)

lemma cs_apply_encode_no_Err: "cs_apply_encode_outcome s oc \<noteq> (Err e, s')"
  by (cases oc) (auto simp: cs_defs Let_def)

section \<open>Engine loops\<close>

text \<open>
  The three engines run the same kind of loop: while input is left, a body handles some of it
  and either lets the loop continue or ends the call. The interface of a body to its loop is
  that a turn which continues leaves less input.
\<close>

locale engine_loop =
  fixes has_input :: "'s \<Rightarrow> bool"
    and step :: "'g \<Rightarrow> 's \<Rightarrow> ('e, 'p option) res \<times> 'g \<times> 's"
    and completed :: "'s \<Rightarrow> 'p"
    and loop :: "'g \<Rightarrow> 's \<Rightarrow> ('e, 'p) res \<times> 'g \<times> 's"
    and remaining :: "'s \<Rightarrow> nat"
  assumes loop_unfold: "loop g s =
      (if \<not> has_input s then (Ok (completed s), g, s)
       else case step g s of
         (Ok None, g', s') \<Rightarrow> loop g' s'
       | (Ok (Some p), g', s') \<Rightarrow> (Ok p, g', s')
       | (Err e, g', s') \<Rightarrow> (Err e, g', s')
       | (Panic, g', s') \<Rightarrow> (Panic, g', s'))"
    and step_consumes: "has_input s \<Longrightarrow> step g s = (Ok None, g', s') \<Longrightarrow> remaining s' < remaining s"
begin

text \<open>An invariant of the body holds at every exit of the loop.\<close>

lemma loop_rule:
  assumes "loop g s = (r, g', s')" "P g s"
    and step: "\<And>g s q g' s'. P g s \<Longrightarrow> has_input s \<Longrightarrow> step g s = (q, g', s') \<Longrightarrow> P g' s'"
  shows "P g' s'"
  using assms(1,2)
proof (induction "remaining s" arbitrary: g s rule: less_induct)
  case less
  show ?case
  proof (cases "has_input s")
    case False
    with less.prems loop_unfold [of g s] show ?thesis by simp
  next
    case True
    obtain q g1 s1 where st: "step g s = (q, g1, s1)" by (metis prod_cases3)
    have P1: "P g1 s1" by (rule step [OF less.prems(2) True st])
    show ?thesis
    proof (cases "q = Ok None")
      case cont: True
      with less.prems(1) loop_unfold [of g s] True st have "loop g1 s1 = (r, g', s')" by simp
      with less.hyps step_consumes [OF True] st cont P1 show ?thesis by blast
    next
      case False
      with less.prems(1) loop_unfold [of g s] True st P1 show ?thesis
        by (cases q) (auto split: option.splits)
    qed
  qed
qed

text \<open>A normal exit is the end of the input or a report of the body.\<close>

lemma loop_Ok:
  assumes "loop g s = (Ok p, g', s')" "P g s"
    and step: "\<And>g s g' s'. P g s \<Longrightarrow> has_input s \<Longrightarrow> step g s = (Ok None, g', s') \<Longrightarrow> P g' s'"
  shows "P g' s' \<and> \<not> has_input s' \<and> p = completed s' \<or>
    (\<exists>g1 s1. P g1 s1 \<and> has_input s1 \<and> step g1 s1 = (Ok (Some p), g', s'))"
  using assms(1,2)
proof (induction "remaining s" arbitrary: g s rule: less_induct)
  case less
  show ?case
  proof (cases "has_input s")
    case False
    with less.prems(1) loop_unfold [of g s] have "p = completed s" "g' = g" "s' = s" by auto
    with False less.prems(2) show ?thesis by blast
  next
    case True
    obtain q g1 s1 where st: "step g s = (q, g1, s1)" by (metis prod_cases3)
    show ?thesis
    proof (cases "q = Ok None")
      case cont: True
      have P1: "P g1 s1" by (rule step [OF less.prems(2) True st [unfolded cont]])
      from cont less.prems(1) loop_unfold [of g s] True st have "loop g1 s1 = (Ok p, g', s')" by simp
      with less.hyps step_consumes [OF True] st cont P1 show ?thesis by blast
    next
      case False
      with less.prems(1) loop_unfold [of g s] True st have "q = Ok (Some p)" "g1 = g'" "s1 = s'"
        by (cases q; auto split: option.splits)+
      with st True less.prems(2) show ?thesis by blast
    qed
  qed
qed

text \<open>The loop panics only where a turn does.\<close>

lemma loop_no_panic:
  assumes "P g s"
    and step: "\<And>g s g' s'. P g s \<Longrightarrow> has_input s \<Longrightarrow> step g s = (Ok None, g', s') \<Longrightarrow> P g' s'"
    and safe: "\<And>g s. P g s \<Longrightarrow> has_input s \<Longrightarrow> fst (step g s) \<noteq> Panic"
  shows "fst (loop g s) \<noteq> Panic"
  using assms(1)
proof (induction "remaining s" arbitrary: g s rule: less_induct)
  case less
  show ?case
  proof (cases "has_input s")
    case False
    with loop_unfold [of g s] show ?thesis by simp
  next
    case True
    obtain q g1 s1 where st: "step g s = (q, g1, s1)" by (metis prod_cases3)
    from safe [OF less.prems True] st have "q \<noteq> Panic" by simp
    with less step_consumes [OF True] step [OF less.prems True] loop_unfold [of g s] True st
    show ?thesis by (cases q) (auto split: option.splits)
  qed
qed

end

end
