(* ===== verification/Lifecycle.thy ===== *)
theory Lifecycle
  imports Failure
begin

text \<open>
  The lifecycle guard every engine owns (\<open>src/transcode/internal/lifecycle_guard.rs\<close>):
  its five phases, its methods, and the protocol they implement. The protocol is the
  relation \<open>phase_step\<close>, one rule per kind of public call; \<open>phase_run\<close> is a trace of
  calls. The trace lemma says that a stream is open exactly when the last reset succeeded and
  nothing has closed or poisoned the engine since, which is the documented order
  \<open>reset, transcode*, finish\<close>. The engines are shown to take only these steps.
\<close>

datatype lifecycle_phase = Uninitialized | Fresh | Streaming | Finished | Poisoned

record lifecycle_guard =
  guard_phase :: lifecycle_phase

definition guard_new :: lifecycle_guard where
  "guard_new = \<lparr>guard_phase = Uninitialized\<rparr>"

definition on_reset_start :: "lifecycle_guard \<Rightarrow> lifecycle_guard" where
  "on_reset_start g = g\<lparr>guard_phase := Poisoned\<rparr>"

definition on_reset_success :: "lifecycle_guard \<Rightarrow> lifecycle_guard" where
  "on_reset_success g = g\<lparr>guard_phase := Fresh\<rparr>"

fun on_transcode :: "lifecycle_guard \<Rightarrow> (transcode_failure, unit, lifecycle_guard) run" where
  "on_transcode g =
    (case guard_phase g of
       Uninitialized \<Rightarrow> (Err TranscodeBeforeReset, g)
     | Finished \<Rightarrow> (Err TranscodeAfterFinish, g)
     | Poisoned \<Rightarrow> (Err LifecyclePoisoned, g)
     | _ \<Rightarrow>
         if guard_phase g = Fresh then (Ok (), g\<lparr>guard_phase := Streaming\<rparr>) else (Ok (), g))"

fun on_finish_attempt :: "lifecycle_guard \<Rightarrow> check" where
  "on_finish_attempt g =
    (case guard_phase g of
       Uninitialized \<Rightarrow> Err FinishBeforeReset
     | Finished \<Rightarrow> Err FinishAfterFinish
     | Poisoned \<Rightarrow> Err LifecyclePoisoned
     | _ \<Rightarrow> Ok ())"

definition on_finish_start :: "lifecycle_guard \<Rightarrow> lifecycle_guard" where
  "on_finish_start g = g\<lparr>guard_phase := Poisoned\<rparr>"

definition on_finish_success :: "lifecycle_guard \<Rightarrow> lifecycle_guard" where
  "on_finish_success g = g\<lparr>guard_phase := Finished\<rparr>"

lemmas guard_defs =
  guard_new_def on_reset_start_def on_reset_success_def on_finish_start_def on_finish_success_def

declare on_transcode.simps [simp del] on_finish_attempt.simps [simp del]

definition stream_phase :: "lifecycle_phase \<Rightarrow> bool" where
  "stream_phase p \<longleftrightarrow> p = Fresh \<or> p = Streaming"

lemma on_transcode_Ok:
  "on_transcode g = (Ok u, g') \<longleftrightarrow>
    stream_phase (guard_phase g) \<and> g' = g\<lparr>guard_phase := Streaming\<rparr>"
  by (cases "guard_phase g") (auto simp: on_transcode.simps stream_phase_def)

lemma on_transcode_Err:
  "on_transcode g = (Err e, g') \<Longrightarrow> \<not> stream_phase (guard_phase g) \<and> g' = g"
  by (cases "guard_phase g") (auto simp: on_transcode.simps stream_phase_def)

lemma on_transcode_no_panic [simp]: "on_transcode g \<noteq> (Panic, g')"
  by (cases "guard_phase g") (auto simp: on_transcode.simps)

lemma on_transcode_cases:
  obtains (run) "stream_phase (guard_phase g)" "on_transcode g = (Ok (), g\<lparr>guard_phase := Streaming\<rparr>)"
  | (rejected) e where "\<not> stream_phase (guard_phase g)" "on_transcode g = (Err e, g)"
  by (cases "guard_phase g") (auto simp: on_transcode.simps stream_phase_def)

lemma on_finish_attempt_Ok: "on_finish_attempt g = Ok u \<longleftrightarrow> stream_phase (guard_phase g)"
  by (cases "guard_phase g") (auto simp: on_finish_attempt.simps stream_phase_def)

lemma on_finish_attempt_no_panic [simp]: "on_finish_attempt g \<noteq> Panic"
  by (cases "guard_phase g") (auto simp: on_finish_attempt.simps)

section \<open>The call protocol\<close>

text \<open>
  What a public call did: a reset or finish is rejected by its preflight checks, completes,
  or is aborted by an error or panic of the codec or the hooks; a transcode call is rejected
  by the guard or runs (successfully or not).
\<close>

datatype lifecycle_call =
    ResetRejected | ResetDone | ResetAborted
  | TranscodeRejected | TranscodeRun
  | FinishRejected | FinishDone | FinishAborted

inductive phase_step :: "lifecycle_phase \<Rightarrow> lifecycle_call \<Rightarrow> lifecycle_phase \<Rightarrow> bool" where
  reset_rejected: "phase_step p ResetRejected p"
| reset_done: "phase_step p ResetDone Fresh"
| reset_aborted: "phase_step p ResetAborted Poisoned"
| transcode_rejected: "\<not> stream_phase p \<Longrightarrow> phase_step p TranscodeRejected p"
| transcode_run: "stream_phase p \<Longrightarrow> phase_step p TranscodeRun Streaming"
| finish_rejected: "phase_step p FinishRejected p"
| finish_done: "stream_phase p \<Longrightarrow> phase_step p FinishDone Finished"
| finish_aborted: "stream_phase p \<Longrightarrow> phase_step p FinishAborted Poisoned"

inductive_simps phase_step_simps [simp]:
  "phase_step p ResetRejected q"
  "phase_step p ResetDone q"
  "phase_step p ResetAborted q"
  "phase_step p TranscodeRejected q"
  "phase_step p TranscodeRun q"
  "phase_step p FinishRejected q"
  "phase_step p FinishDone q"
  "phase_step p FinishAborted q"

inductive phase_run :: "lifecycle_phase \<Rightarrow> lifecycle_call list \<Rightarrow> lifecycle_phase \<Rightarrow> bool" where
  run_start: "phase_run p [] p"
| run_step: "phase_run p cs q \<Longrightarrow> phase_step q c r \<Longrightarrow> phase_run p (cs @ [c]) r"

text \<open>Whether a stream is open after a call, from the calls alone.\<close>

fun opens :: "bool \<Rightarrow> lifecycle_call \<Rightarrow> bool" where
  "opens b ResetDone = True"
| "opens b ResetAborted = False"
| "opens b FinishDone = False"
| "opens b FinishAborted = False"
| "opens b _ = b"

definition stream_open :: "lifecycle_call list \<Rightarrow> bool" where
  "stream_open cs = foldl opens False cs"

lemma stream_open_snoc [simp]: "stream_open (cs @ [c]) = opens (stream_open cs) c"
  by (simp add: stream_open_def)

lemma phase_step_open:
  "phase_step p c q \<Longrightarrow> stream_phase q = opens (stream_phase p) c"
  by (induction rule: phase_step.induct) (auto simp: stream_phase_def)

lemma phase_run_open:
  assumes "phase_run Uninitialized cs p"
  shows "stream_phase p = stream_open cs"
  using assms
proof (induction Uninitialized cs p rule: phase_run.induct)
  case run_start
  show ?case by (simp add: stream_open_def stream_phase_def)
next
  case (run_step cs q c r)
  then show ?case by (simp add: phase_step_open)
qed

lemma phase_run_append:
  "phase_run q ds r \<Longrightarrow> phase_run p cs q \<Longrightarrow> phase_run p (cs @ ds) r"
proof (induction q ds r rule: phase_run.induct)
  case (run_start q)
  then show ?case by simp
next
  case (run_step q ds s c r)
  then show ?case using phase_run.run_step [of p "cs @ ds" s c r] by simp
qed

text \<open>A call that used the stream found it open.\<close>

lemma phase_run_uses_open_stream:
  assumes "phase_run Uninitialized (cs @ [c]) p"
    and "c \<in> {TranscodeRun, FinishDone, FinishAborted}"
  shows "stream_open cs"
  using assms(1)
proof (cases rule: phase_run.cases)
  case (run_step cs' q c')
  then have "phase_run Uninitialized cs q" "phase_step q c p" by auto
  with assms(2) show ?thesis using phase_run_open by fastforce
qed simp

section \<open>Engines under the guard\<close>

text \<open>Traces of public calls on an engine, and the labels of the calls.\<close>

inductive call_trace ::
  "('s \<Rightarrow> bool) \<Rightarrow> ('s \<Rightarrow> lifecycle_call \<Rightarrow> 's \<Rightarrow> bool) \<Rightarrow> lifecycle_call list \<Rightarrow> 's \<Rightarrow> bool"
  for init call where
  trace_start: "init s \<Longrightarrow> call_trace init call [] s"
| trace_call: "call_trace init call cs s \<Longrightarrow> call s c t \<Longrightarrow> call_trace init call (cs @ [c]) t"

fun reset_label :: "bool \<Rightarrow> ('e, nat) res \<Rightarrow> lifecycle_call" where
  "reset_label accepted r =
    (if \<not> accepted then ResetRejected else case r of Ok _ \<Rightarrow> ResetDone | _ \<Rightarrow> ResetAborted)"

fun transcode_label :: "lifecycle_phase \<Rightarrow> lifecycle_call" where
  "transcode_label p = (if stream_phase p then TranscodeRun else TranscodeRejected)"

fun finish_label :: "bool \<Rightarrow> ('e, nat) res \<Rightarrow> lifecycle_call" where
  "finish_label accepted r =
    (if \<not> accepted then FinishRejected else case r of Ok _ \<Rightarrow> FinishDone | _ \<Rightarrow> FinishAborted)"

text \<open>The interface of an engine to its guard: a new engine is uninitialised and every public
  call is a step of the protocol.\<close>

locale guarded_engine =
  fixes init :: "'s \<Rightarrow> bool"
    and call :: "'s \<Rightarrow> lifecycle_call \<Rightarrow> 's \<Rightarrow> bool"
    and phase :: "'s \<Rightarrow> lifecycle_phase"
  assumes init_phase: "init s \<Longrightarrow> phase s = Uninitialized"
    and call_phase: "call s c t \<Longrightarrow> phase_step (phase s) c (phase t)"
begin

lemma trace_run:
  assumes "call_trace init call cs s"
  shows "phase_run Uninitialized cs (phase s)"
  using assms
proof (induction rule: call_trace.induct)
  case (trace_start s)
  then show ?case by (simp add: init_phase phase_run.run_start)
next
  case (trace_call cs s c t)
  then show ?case by (blast intro: phase_run.run_step call_phase)
qed

lemma trace_open:
  "call_trace init call cs s \<Longrightarrow> stream_phase (phase s) = stream_open cs"
  by (rule phase_run_open [OF trace_run])

lemma used_stream_was_open:
  assumes "call_trace init call (cs @ [c]) s" "c \<in> {TranscodeRun, FinishDone, FinishAborted}"
  shows "stream_open cs"
  by (rule phase_run_uses_open_stream [OF trace_run [OF assms(1)] assms(2)])

end

end
