(* ===== verification/Transcoder.thy ===== *)
theory Transcoder
  imports Progress
begin

text \<open>
  The \<open>Transcoder\<close> trait (\<open>src/transcode/transcoder.rs\<close>): the record of its
  required methods over the implementor's state, and its provided methods as definitions over
  the record: \<open>max_total_output_len\<close>, the default \<open>transcode_eof\<close>, and the one-shot
  \<open>transcode_complete_into\<close>. The lemmas of this theory hold for every implementor,
  conforming or not; the locale \<open>transcoder_contract\<close> collects what the trait documents
  of an implementor, and derives that the one-shot stream then never panics and stays within
  its bound.
\<close>

section \<open>The trait\<close>

record ('s, 'i, 'o, 'e) transcoder =
  from_failure :: "transcode_failure \<Rightarrow> 'e" \<comment> \<open>\<open>Error: From<TranscodeFailure>\<close>\<close>
  max_reset_output_len :: "'s \<Rightarrow> nat capacity"
  max_transcode_output_len :: "'s \<Rightarrow> nat \<Rightarrow> nat capacity"
  max_finish_output_len :: "'s \<Rightarrow> nat capacity"
  tr_reset :: "'s \<Rightarrow> 'o list \<Rightarrow> nat \<Rightarrow> ('e, nat) res \<times> 's \<times> 'o list"
  tr_transcode :: "'s \<Rightarrow> 'i list \<Rightarrow> nat \<Rightarrow> 'o list \<Rightarrow> nat \<Rightarrow>
    ('e, transcode_progress) res \<times> 's \<times> 'o list"
  tr_transcode_eof :: "'s \<Rightarrow> 'i list \<Rightarrow> nat \<Rightarrow> 'o list \<Rightarrow> nat \<Rightarrow>
    ('e, transcode_progress) res \<times> 's \<times> 'o list"
  tr_finish :: "'s \<Rightarrow> 'o list \<Rightarrow> nat \<Rightarrow> ('e, nat) res \<times> 's \<times> 'o list"

definition add_output_bounds :: "nat \<Rightarrow> nat \<Rightarrow> nat capacity" where
  "add_output_bounds x y = ok_or CapacityOutputLengthOverflow (checked_add x y)"

definition sum_output_bounds :: "nat \<Rightarrow> nat \<Rightarrow> nat \<Rightarrow> nat capacity" where
  "sum_output_bounds reset_len transcode_len finish_len =
    bind_res (add_output_bounds reset_len transcode_len)
      (\<lambda>before_finish. add_output_bounds before_finish finish_len)"

text \<open>\<open>max_reset_output_len\<close> and \<open>max_finish_output_len\<close> as the trait provides them.\<close>

definition default_max_output_len :: "'s \<Rightarrow> nat capacity" where
  "default_max_output_len s = Ok 0"

definition max_total_output_len :: "('s, 'i, 'o, 'e) transcoder \<Rightarrow> 's \<Rightarrow> nat \<Rightarrow> nat capacity" where
  "max_total_output_len T s input_len =
    bind_res (max_reset_output_len T s) (\<lambda>reset_len.
    bind_res (max_transcode_output_len T s input_len) (\<lambda>transcode_len.
    bind_res (max_finish_output_len T s) (\<lambda>finish_len.
      sum_output_bounds reset_len transcode_len finish_len)))"

text \<open>The default \<open>transcode_eof\<close>: an open-stream call whose request for more input is an
  incomplete-input error.\<close>

definition default_transcode_eof ::
  "(transcode_failure \<Rightarrow> 'e) \<Rightarrow>
   ('s \<Rightarrow> 'i list \<Rightarrow> nat \<Rightarrow> 'o list \<Rightarrow> nat \<Rightarrow> ('e, transcode_progress) res \<times> 's \<times> 'o list) \<Rightarrow>
   's \<Rightarrow> 'i list \<Rightarrow> nat \<Rightarrow> 'o list \<Rightarrow> nat \<Rightarrow> ('e, transcode_progress) res \<times> 's \<times> 'o list" where
  "default_transcode_eof from transcode_fn s input input_index out output_index =
    and_then (map_err from (ensure_transcode_indices (length input) input_index
                             (length out) output_index), s, out) (\<lambda>_ (s, out).
    let available_input = length input - input_index;
        available_output = length out - output_index in
    and_then (slice_call out (transcode_fn s input input_index out output_index)) (\<lambda>p (s, out).
    and_then (map_err (\<lambda>e. from (InvalidProgress e))
        (validate p input_index available_input output_index available_output), s, out)
      (\<lambda>_ (s, out).
      case tp_status p of
        NeedInput required \<Rightarrow>
          (Err (from (IncompleteInput (input_index + tp_read p) (nz_get required)
                 (available_input - tp_read p))), s, out)
      | _ \<Rightarrow> (Ok p, s, out))))"

text \<open>\<open>complete_progress_written\<close>: turns the report of a complete pass into its count.\<close>

definition complete_progress_written ::
  "transcode_progress \<Rightarrow> nat \<Rightarrow> nat \<Rightarrow> nat \<Rightarrow> (transcode_failure, nat) res" where
  "complete_progress_written p input_len output_index output_len =
    (if validate p 0 input_len output_index (saturating_sub output_len output_index) \<noteq> Ok ()
     then Panic
     else case tp_status p of
       Complete \<Rightarrow> Ok (tp_written p)
     | NeedOutput required \<Rightarrow>
         Err (InsufficientOutput (output_index + tp_written p) (nz_get required)
               (output_len - output_index - tp_written p))
     | NeedInput required \<Rightarrow>
         Err (IncompleteInput (tp_read p) (nz_get required) (input_len - tp_read p)))"

text \<open>The preflight part of \<open>transcode_complete_into\<close>: the reset and finish bounds, once
  the output is known to hold the complete upper bound.\<close>

definition complete_preflight ::
  "('s, 'i, 'o, 'e) transcoder \<Rightarrow> 's \<Rightarrow> nat \<Rightarrow> nat \<Rightarrow> (transcode_failure, nat \<times> nat) res" where
  "complete_preflight T s input_len output_len =
    bind_res (map_err failure_of_capacity (max_reset_output_len T s)) (\<lambda>reset_required.
    bind_res (map_err failure_of_capacity (max_transcode_output_len T s input_len))
      (\<lambda>transcode_required.
    bind_res (map_err failure_of_capacity (max_finish_output_len T s)) (\<lambda>finish_required.
    bind_res (map_err failure_of_capacity
        (sum_output_bounds reset_required transcode_required finish_required)) (\<lambda>total_required.
    bind_res (ensure_output_capacity output_len 0 total_required) (\<lambda>_.
      Ok (reset_required, finish_required))))))"

definition transcode_complete_into ::
  "('s, 'i, 'o, 'e) transcoder \<Rightarrow> 's \<Rightarrow> 'i list \<Rightarrow> 'o list \<Rightarrow> ('e, nat) res \<times> 's \<times> 'o list" where
  "transcode_complete_into T s input out =
    and_then (map_err (from_failure T) (complete_preflight T s (length input) (length out)), s, out)
      (\<lambda>(reset_required, finish_required) (s, out).
    and_then (slice_call out (tr_reset T s out 0)) (\<lambda>reset_written (s, out).
    if \<not> reset_written \<le> reset_required then (Panic, s, out)
    else if \<not> reset_written \<le> length out then (Panic, s, out)
    else
    and_then (slice_call out (tr_transcode_eof T s input 0 out reset_written)) (\<lambda>p (s, out).
    and_then (map_err (from_failure T)
        (complete_progress_written p (length input) reset_written (length out)), s, out)
      (\<lambda>transcode_written (s, out).
    case checked_add reset_written transcode_written of
      None \<Rightarrow> (Panic, s, out)
    | Some output_cursor \<Rightarrow>
        let finish_available = length out - output_cursor in
        and_then (slice_call out (tr_finish T s out output_cursor)) (\<lambda>finish_written (s, out).
        if \<not> finish_written \<le> finish_required then (Panic, s, out)
        else if \<not> finish_written \<le> finish_available then (Panic, s, out)
        else case checked_add output_cursor finish_written of
          None \<Rightarrow> (Panic, s, out)
        | Some total_written \<Rightarrow> (Ok total_written, s, out))))))"

section \<open>Facts about every implementor\<close>

lemma sum_output_bounds_Ok:
  "sum_output_bounds a b c = Ok n \<longleftrightarrow> n = a + b + c \<and> a + b + c \<le> usize_max"
  by (auto simp: sum_output_bounds_def add_output_bounds_def bind_res_eq_Ok checked_add_eq_Some)

lemma sum_output_bounds_no_panic [simp]: "sum_output_bounds a b c \<noteq> Panic"
  by (auto simp: sum_output_bounds_def add_output_bounds_def bind_res_eq_Panic)

lemma complete_preflight_Ok:
  "complete_preflight T s n m = Ok (a, c) \<longleftrightarrow>
    max_reset_output_len T s = Ok a \<and> max_finish_output_len T s = Ok c \<and>
    (\<exists>b. max_transcode_output_len T s n = Ok b \<and> a + b + c \<le> usize_max \<and> a + b + c \<le> m)"
  by (auto simp: complete_preflight_def bind_res_eq_Ok sum_output_bounds_Ok check_simps)

lemma complete_progress_written_Ok:
  "complete_progress_written p n j m = Ok w \<longleftrightarrow>
    valid_progress p 0 n j (m - j) \<and> tp_status p = Complete \<and> w = tp_written p"
  by (auto simp: complete_progress_written_def validate_Ok_iff saturating_sub_def
      split: transcode_status.splits)

lemma complete_progress_written_Panic:
  "complete_progress_written p n j m = Panic \<longleftrightarrow> \<not> valid_progress p 0 n j (m - j)"
  by (auto simp: complete_progress_written_def validate_Ok_iff saturating_sub_def
      split: transcode_status.splits)

lemma eof_report_Ok:
  "(case st of NeedInput r \<Rightarrow> (Err (f r), t) | _ \<Rightarrow> (Ok p, t)) = (Ok q, t') \<longleftrightarrow>
    (\<forall>r. st \<noteq> NeedInput r) \<and> p = q \<and> t = t'"
  by (cases st) auto

text \<open>The default \<open>transcode_eof\<close> reports only valid progress, never a request for more
  input, whatever the implementor's \<open>transcode\<close> reports.\<close>

lemma default_transcode_eof_Ok:
  assumes "default_transcode_eof from tr s input i out j = (Ok p, s', out')"
  shows "valid_progress p i (length input - i) j (length out - j) \<and> \<not> is_need_input p \<and>
    i \<le> length input \<and> j \<le> length out"
  using assms
  by (auto simp: default_transcode_eof_def run_simps check_simps validate_Ok_iff Let_def
      eof_report_Ok split: transcode_status.splits)

lemma transcode_complete_into_Ok:
  assumes "transcode_complete_into T s input out = (Ok n, s', out')"
  obtains a b c where
    "max_reset_output_len T s = Ok a" "max_transcode_output_len T s (length input) = Ok b"
    "max_finish_output_len T s = Ok c" "a + b + c \<le> length out" "n \<le> length out"
proof -
  from assms obtain a c b rw s1 o1 p s2 o2 s3 o3 fw where
    pre: "max_reset_output_len T s = Ok a" "max_finish_output_len T s = Ok c"
      "max_transcode_output_len T s (length input) = Ok b" "a + b + c \<le> length out"
    and o1: "slice_call out (tr_reset T s out 0) = (Ok rw, s1, o1)"
    and o2: "slice_call o1 (tr_transcode_eof T s1 input 0 o1 rw) = (Ok p, s2, o2)"
    and w: "valid_progress p 0 (length input) rw (length o2 - rw)" "rw \<le> length o1"
    and o3: "slice_call o2 (tr_finish T s2 o2 (rw + tp_written p)) = (Ok fw, s3, o3)"
    and fw: "fw \<le> c" "fw \<le> length o2 - (rw + tp_written p)" "n = rw + tp_written p + fw"
    by (auto simp: transcode_complete_into_def run_simps complete_preflight_Ok
        complete_progress_written_Ok checked_add_eq_Some Let_def
        split: prod.splits if_splits option.splits)
  have len: "length o1 = length out" "length o2 = length out"
    using slice_call_length [OF o1] slice_call_length [OF o2] by simp_all
  from w len have "rw + tp_written p \<le> length out"
    by (auto simp: valid_progress_def)
  with fw len show ?thesis
    by (intro that [OF pre(1) pre(3) pre(2) pre(4)]) auto
qed

text \<open>A preflight failure calls no lifecycle method and writes no output.\<close>

lemma transcode_complete_into_preflight:
  assumes "complete_preflight T s (length input) (length out) = Err e"
  shows "transcode_complete_into T s input out = (Err (from_failure T e), s, out)"
  using assms by (simp add: transcode_complete_into_def)

section \<open>The implementor's contract\<close>

text \<open>
  What the trait documents of an implementor, over the states its invariant \<open>inv\<close> holds
  of. \<open>opened\<close> are the states a successful reset reaches and a transcode call keeps.
  \<open>pass\<close> says which reports a call at end of input may make when the output holds the
  declared bound: valid progress that asks for nothing more. Slices hold at most
  \<open>usize_max\<close> elements, as in Rust.
\<close>

locale transcoder_contract =
  fixes T :: "('s, 'i, 'o, 'e) transcoder"
    and inv :: "'s \<Rightarrow> bool"
    and opened :: "'s \<Rightarrow> bool"
  assumes bounds_defined:
      "inv s \<Longrightarrow> max_reset_output_len T s \<noteq> Panic \<and> max_transcode_output_len T s n \<noteq> Panic \<and>
        max_finish_output_len T s \<noteq> Panic"
    and reset_law:
      "inv s \<Longrightarrow> max_reset_output_len T s = Ok m \<Longrightarrow> m \<le> length out \<Longrightarrow>
        length out \<le> usize_max \<Longrightarrow> tr_reset T s out 0 = (r, s', out') \<Longrightarrow>
        r \<noteq> Panic \<and> (\<forall>n. r = Ok n \<longrightarrow> n \<le> m \<and> inv s' \<and> opened s' \<and>
          max_transcode_output_len T s' = max_transcode_output_len T s \<and>
          max_finish_output_len T s' = max_finish_output_len T s)"
    and transcode_eof_law:
      "inv s \<Longrightarrow> opened s \<Longrightarrow> max_transcode_output_len T s (length input) = Ok m \<Longrightarrow>
        j + m \<le> length out \<Longrightarrow> length input \<le> usize_max \<Longrightarrow> length out \<le> usize_max \<Longrightarrow>
        tr_transcode_eof T s input 0 out j = (q, s', out') \<Longrightarrow>
        q \<noteq> Panic \<and> (\<forall>p. q = Ok p \<longrightarrow> inv s' \<and> opened s' \<and>
          valid_progress p 0 (length input) j (length out - j) \<and> tp_status p = Complete \<and>
          tp_written p \<le> m \<and> max_finish_output_len T s' = max_finish_output_len T s)"
    and finish_law:
      "inv s \<Longrightarrow> opened s \<Longrightarrow> max_finish_output_len T s = Ok m \<Longrightarrow> j + m \<le> length out \<Longrightarrow>
        length out \<le> usize_max \<Longrightarrow> tr_finish T s out j = (r, s', out') \<Longrightarrow>
        r \<noteq> Panic \<and> (\<forall>n. r = Ok n \<longrightarrow> n \<le> m)"
begin

lemma complete_into_total:
  assumes "inv s" "length input \<le> usize_max" "length out \<le> usize_max"
    and "transcode_complete_into T s input out = (r, s', out')"
  shows "r \<noteq> Panic"
proof
  assume panic: "r = Panic"
  have no_pre: "complete_preflight T s (length input) (length out) \<noteq> Panic"
    using bounds_defined [OF assms(1)]
    by (auto simp: complete_preflight_def bind_res_eq_Panic check_simps)
  show False
  proof (cases "complete_preflight T s (length input) (length out)")
    case (Err e)
    with assms(4) panic show False
      by (simp add: transcode_complete_into_preflight)
  next
    case Panic
    with no_pre show False by simp
  next
    case (Ok ac)
    then obtain a b c where ac: "ac = (a, c)"
      and b: "max_reset_output_len T s = Ok a" "max_transcode_output_len T s (length input) = Ok b"
        "max_finish_output_len T s = Ok c" "a + b + c \<le> length out"
      by (cases ac) (auto simp: complete_preflight_Ok)
    obtain r1 s1 o1 where 1: "tr_reset T s out 0 = (r1, s1, o1)"
      by (cases "tr_reset T s out 0") auto
    note law1 = reset_law [OF assms(1) b(1) _ assms(3) 1]
    from law1 b(4) panic assms(4) Ok ac 1 obtain rw where rw: "r1 = Ok rw" "rw \<le> a" "inv s1"
        "opened s1" "max_transcode_output_len T s1 = max_transcode_output_len T s"
        "max_finish_output_len T s1 = max_finish_output_len T s"
      by (cases r1) (auto simp: transcode_complete_into_def)
    define o1' where "o1' = write_back out o1"
    have l1: "length o1' = length out" by (simp add: o1'_def)
    obtain r2 s2 o2 where 2: "tr_transcode_eof T s1 input 0 o1' rw = (r2, s2, o2)"
      by (cases "tr_transcode_eof T s1 input 0 o1' rw") auto
    have law2: "r2 \<noteq> Panic \<and> (\<forall>p. r2 = Ok p \<longrightarrow> inv s2 \<and> opened s2 \<and>
        valid_progress p 0 (length input) rw (length o1' - rw) \<and> tp_status p = Complete \<and>
        tp_written p \<le> b \<and> max_finish_output_len T s2 = max_finish_output_len T s1)"
      using transcode_eof_law [OF rw(3,4) _ _ assms(2) _ 2] b rw l1 assms(3) by auto
    from law2 panic assms(4) Ok ac 1 rw(1,2) 2 b(4) obtain p where p: "r2 = Ok p"
      by (cases r2) (auto simp: transcode_complete_into_def o1'_def split: if_splits)
    define o2' where "o2' = write_back o1' o2"
    have l2: "length o2' = length out" by (simp add: o2'_def l1)
    from law2 p have v: "valid_progress p 0 (length input) rw (length o1' - rw)"
      "tp_status p = Complete" "tp_written p \<le> b" "inv s2" "opened s2"
      "max_finish_output_len T s2 = Ok c" using rw(6) b(3) by auto
    have sum: "rw + tp_written p + c \<le> length out" using v(3) rw(2) b(4) by simp
    then have add1: "checked_add rw (tp_written p) = Some (rw + tp_written p)"
      using assms(3) by (simp add: checked_add_def)
    have written: "complete_progress_written p (length input) rw (length o2') = Ok (tp_written p)"
      using v l1 l2 by (simp add: complete_progress_written_Ok)
    obtain r3 s3 o3 where 3: "tr_finish T s2 o2' (rw + tp_written p) = (r3, s3, o3)"
      by (cases "tr_finish T s2 o2' (rw + tp_written p)") auto
    have law3: "r3 \<noteq> Panic \<and> (\<forall>n. r3 = Ok n \<longrightarrow> n \<le> c)"
      using finish_law [OF v(4,5,6) _ _ 3] sum l2 assms(3) by auto
    then have add2: "checked_add (rw + tp_written p) n = Some (rw + tp_written p + n)"
      if "r3 = Ok n" for n
      using that sum assms(3) by (auto simp: checked_add_def)
    have fits: "rw \<le> length o1'" using sum l1 by simp
    from assms(4) Ok ac 1 rw(1,2) 2 p written add1 3 fits
    have "r = (case r3 of Ok n \<Rightarrow> if n \<le> c \<and> n \<le> length o2' - (rw + tp_written p)
         then Ok (rw + tp_written p + n) else Panic | Err e \<Rightarrow> Err e | Panic \<Rightarrow> Panic)"
      using add2
      by (cases r3) (auto simp: transcode_complete_into_def o1'_def [symmetric]
          o2'_def [symmetric] Let_def split: if_splits)
    with panic law3 sum l2 show False
      by (cases r3) (auto split: if_splits)
  qed
qed

end

end
