(* ===== verification/EncodeEngine.thy ===== *)
theory EncodeEngine
  imports Codec Cursor Lifecycle Transcoder
begin

text \<open>
  \<open>TranscodeEncodeEngine\<close> (\<open>src/transcode/engine/transcode_encode_engine.rs\<close>) and the
  trait of its policy hooks (\<open>transcode_encode_hooks.rs\<close>). The engine owns a codec, the
  hooks and a lifecycle guard; every definition takes the codec and hook dictionaries first.
  The lemmas of this theory hold for every codec and every hook, conforming or not: what the
  engine guarantees by its own checks.
\<close>

section \<open>Encode hooks\<close>

datatype 'v unencodable_action = RejectValue | SkipValue | ReplaceValue 'v

record ('h, 'c, 'v, 'u, 'ee) encode_hooks =
  eh_max_transcode_output_len :: "'h \<Rightarrow> 'c \<Rightarrow> nat \<Rightarrow> nat capacity"
  eh_max_finish_output_len :: "'h \<Rightarrow> 'c \<Rightarrow> nat"
  eh_handle_unencodable :: "'h \<Rightarrow> 'c \<Rightarrow> 'v encode_context \<Rightarrow>
    (('ee, 'v) encode_error, 'v unencodable_action) res \<times> 'h \<times> 'c"
  eh_reset_hooks :: "'h \<Rightarrow> 'c \<Rightarrow> unit option \<times> 'h \<times> 'c" \<comment> \<open>\<open>None\<close>: the hook panicked\<close>
  eh_finish_hooks :: "'h \<Rightarrow> 'c \<Rightarrow> 'u list \<Rightarrow> nat \<Rightarrow>
    (('ee, 'v) encode_error, nat) res \<times> ('h \<times> 'c) \<times> 'u list"

text \<open>The provided methods of the hooks trait.\<close>

definition default_eh_max_transcode ::
  "('c, 'v, 'u, 'de, 'ee) codec \<Rightarrow> 'h \<Rightarrow> 'c \<Rightarrow> nat \<Rightarrow> nat capacity" where
  "default_eh_max_transcode C h c input_len =
    ok_or CapacityOutputLengthOverflow (checked_mul input_len (max_encode_units_per_value C))"

definition default_max_finish :: "'h \<Rightarrow> 'c \<Rightarrow> nat" where
  "default_max_finish h c = 0"

definition default_reset_hooks :: "'h \<Rightarrow> 'c \<Rightarrow> unit option \<times> 'h \<times> 'c" where
  "default_reset_hooks h c = (Some (), h, c)"

definition default_finish_hooks ::
  "'h \<Rightarrow> 'c \<Rightarrow> 'x list \<Rightarrow> nat \<Rightarrow> ('e, nat) res \<times> ('h \<times> 'c) \<times> 'x list" where
  "default_finish_hooks h c out i = (Ok 0, (h, c), out)"

lemmas hook_default_defs =
  default_eh_max_transcode_def default_max_finish_def default_reset_hooks_def
  default_finish_hooks_def

section \<open>The engine\<close>

record ('c, 'h) encode_engine =
  ee_codec :: 'c
  ee_hooks :: 'h
  ee_lifecycle :: lifecycle_guard

definition ee_new ::
  "('c, 'v, 'u, 'de, 'ee) codec \<Rightarrow> 'c \<Rightarrow> 'h \<Rightarrow> ('e, ('c, 'h) encode_engine) res" where
  "ee_new C c h =
    bind_res (assert_unit_bounds C)
      (\<lambda>_. Ok \<lparr>ee_codec = c, ee_hooks = h, ee_lifecycle = guard_new\<rparr>)"

definition ee_max_transcode_output_len ::
  "('h, 'c, 'v, 'u, 'ee) encode_hooks \<Rightarrow> ('c, 'h) encode_engine \<Rightarrow> nat \<Rightarrow> nat capacity" where
  "ee_max_transcode_output_len H eng input_len =
    eh_max_transcode_output_len H (ee_hooks eng) (ee_codec eng) input_len"

definition ee_max_reset_output_len ::
  "('c, 'v, 'u, 'de, 'ee) codec \<Rightarrow> ('c, 'h) encode_engine \<Rightarrow> nat capacity" where
  "ee_max_reset_output_len C eng = Ok (max_encode_reset_units C)"

definition ee_max_finish_output_len ::
  "('c, 'v, 'u, 'de, 'ee) codec \<Rightarrow> ('h, 'c, 'v, 'u, 'ee) encode_hooks \<Rightarrow>
   ('c, 'h) encode_engine \<Rightarrow> nat capacity" where
  "ee_max_finish_output_len C H eng =
    ok_or CapacityOutputLengthOverflow
      (checked_add (max_encode_finish_units C)
        (eh_max_finish_output_len H (ee_hooks eng) (ee_codec eng)))"

definition ee_max_total_output_len ::
  "('c, 'v, 'u, 'de, 'ee) codec \<Rightarrow> ('h, 'c, 'v, 'u, 'ee) encode_hooks \<Rightarrow>
   ('c, 'h) encode_engine \<Rightarrow> nat \<Rightarrow> nat capacity" where
  "ee_max_total_output_len C H eng input_len =
    bind_res (ee_max_reset_output_len C eng) (\<lambda>reset_len.
    bind_res (ee_max_transcode_output_len H eng input_len) (\<lambda>transcode_len.
    bind_res (ee_max_finish_output_len C H eng) (\<lambda>finish_len.
      ok_or CapacityOutputLengthOverflow
        (Option.bind (checked_add reset_len transcode_len) (\<lambda>len. checked_add len finish_len)))))"

section \<open>Encoding one value\<close>

text \<open>\<open>encode_encodable_value\<close>: exact capacity, then the codec.\<close>

definition encode_encodable_value ::
  "('c, 'v, 'u, 'de, 'ee) codec \<Rightarrow> ('c, 'h) encode_engine \<Rightarrow> ('v, 'u) encode_attempt \<Rightarrow>
   (('ee, 'v) encode_error, encode_outcome) res \<times> ('c, 'h) encode_engine \<times> 'u list" where
  "encode_encodable_value C eng attempt =
    (let required = encode_len C (ee_codec eng) (ea_value attempt) in
     if \<not> required \<le> max_encode_units_per_value C then (Panic, eng, ea_output attempt)
     else if ea_available_output attempt < required
     then (map_ok EncodeNeedOutput (nz_expect required), eng, ea_output attempt)
     else
       case call_encode C (ee_codec eng) (ea_value attempt) (ea_output attempt)
              (ea_output_index attempt) of
         (r, c', out') \<Rightarrow>
           and_then
             (map_err (\<lambda>e. EncodeDomain (DomainMain e (ea_input_index attempt) None)) r,
              eng\<lparr>ee_codec := c'\<rparr>, out')
             (\<lambda>wr (eng, out).
               if wr \<noteq> required then (Panic, eng, out) else (Ok (Consumed wr), eng, out)))"

text \<open>\<open>encode_replacement_value\<close>: a replacement must itself be encodable.\<close>

definition encode_replacement_value ::
  "('c, 'v, 'u, 'de, 'ee) codec \<Rightarrow> ('c, 'h) encode_engine \<Rightarrow> 'v \<Rightarrow> ('v, 'u) encode_attempt \<Rightarrow>
   (('ee, 'v) encode_error, encode_outcome) res \<times> ('c, 'h) encode_engine \<times> 'u list" where
  "encode_replacement_value C eng v attempt =
    (if \<not> can_encode_value C (ee_codec eng) v then (Panic, eng, ea_output attempt)
     else
       let required = encode_len C (ee_codec eng) v in
       if \<not> required \<le> max_encode_units_per_value C then (Panic, eng, ea_output attempt)
       else if ea_available_output attempt < required
       then (map_ok EncodeNeedOutput (nz_expect required), eng, ea_output attempt)
       else
         case call_encode C (ee_codec eng) v (ea_output attempt) (ea_output_index attempt) of
           (r, c', out') \<Rightarrow>
             and_then
               (map_err (\<lambda>e. EncodeDomain (DomainMain e (ea_input_index attempt) None)) r,
                eng\<lparr>ee_codec := c'\<rparr>, out')
               (\<lambda>wr (eng, out).
                 if wr \<noteq> required then (Panic, eng, out) else (Ok (Consumed wr), eng, out)))"

fun apply_unencodable_action ::
  "('c, 'v, 'u, 'de, 'ee) codec \<Rightarrow> ('c, 'h) encode_engine \<Rightarrow> 'v unencodable_action \<Rightarrow>
   ('v, 'u) encode_attempt \<Rightarrow>
   (('ee, 'v) encode_error, encode_outcome) res \<times> ('c, 'h) encode_engine \<times> 'u list" where
  "apply_unencodable_action C eng RejectValue attempt =
     (Err (EncodeUnencodable (ea_input_index attempt) None), eng, ea_output attempt)"
| "apply_unencodable_action C eng SkipValue attempt = (Ok (Consumed 0), eng, ea_output attempt)"
| "apply_unencodable_action C eng (ReplaceValue v) attempt =
     encode_replacement_value C eng v attempt"

text \<open>\<open>encode_one\<close>: the encode step shared by the encoder and the converter.\<close>

definition encode_one ::
  "('c, 'v, 'u, 'de, 'ee) codec \<Rightarrow> ('h, 'c, 'v, 'u, 'ee) encode_hooks \<Rightarrow>
   ('c, 'h) encode_engine \<Rightarrow> ('v, 'u) encode_attempt \<Rightarrow>
   (('ee, 'v) encode_error, encode_outcome) res \<times> ('c, 'h) encode_engine \<times> 'u list" where
  "encode_one C H eng attempt =
    (if can_encode_value C (ee_codec eng) (ec_input_value (ea_context attempt))
     then encode_encodable_value C eng attempt
     else
       let required = max_encode_units_per_value C in
       if ea_available_output attempt < required
       then (map_ok EncodeNeedOutput (nz_expect required), eng, ea_output attempt)
       else
         case eh_handle_unencodable H (ee_hooks eng) (ee_codec eng) (ea_context attempt) of
           (r, h', c') \<Rightarrow>
             and_then (r, eng\<lparr>ee_codec := c', ee_hooks := h'\<rparr>, ea_output attempt)
               (\<lambda>action (eng, out). apply_unencodable_action C eng action attempt))"

section \<open>Lifecycle operations\<close>

definition ee_reset ::
  "('c, 'v, 'u, 'de, 'ee) codec \<Rightarrow> ('h, 'c, 'v, 'u, 'ee) encode_hooks \<Rightarrow>
   ('c, 'h) encode_engine \<Rightarrow> 'u list \<Rightarrow> nat \<Rightarrow>
   (('ee, 'v) encode_error, nat) res \<times> ('c, 'h) encode_engine \<times> 'u list" where
  "ee_reset C H eng out output_index =
    and_then (map_err encode_of_capacity (ee_max_reset_output_len C eng), eng, out)
      (\<lambda>required (eng, out).
    and_then (map_err EncodeFailure (ensure_output_capacity (length out) output_index required),
              eng, out) (\<lambda>_ (eng, out).
    let eng = eng\<lparr>ee_lifecycle := on_reset_start (ee_lifecycle eng)\<rparr> in
    case eh_reset_hooks H (ee_hooks eng) (ee_codec eng) of
      (None, h', c') \<Rightarrow> (Panic, eng\<lparr>ee_hooks := h', ee_codec := c'\<rparr>, out)
    | (Some _, h', c') \<Rightarrow>
        let eng = eng\<lparr>ee_hooks := h', ee_codec := c'\<rparr> in
        case call_encode_reset C (ee_codec eng) out output_index of
          (r, c', out') \<Rightarrow>
            and_then (map_err (\<lambda>e. EncodeDomain (DomainReset e)) r, eng\<lparr>ee_codec := c'\<rparr>, out')
              (\<lambda>wr (eng, out).
              if \<not> wr \<le> required then (Panic, eng, out)
              else (Ok wr, eng\<lparr>ee_lifecycle := on_reset_success (ee_lifecycle eng)\<rparr>, out))))"

text \<open>The body of the loop of \<open>transcode\<close>: one value, then the report, if any, with
  which the call returns.\<close>

definition ee_step ::
  "('c, 'v, 'u, 'de, 'ee) codec \<Rightarrow> ('h, 'c, 'v, 'u, 'ee) encode_hooks \<Rightarrow>
   ('c, 'h) encode_engine \<Rightarrow> ('v, 'u) encode_state \<Rightarrow>
   (('ee, 'v) encode_error, transcode_progress option) res \<times> ('c, 'h) encode_engine \<times>
   ('v, 'u) encode_state" where
  "ee_step C H eng s =
    (case encode_one C H eng (es_context_unchecked s) of (r, eng', out') \<Rightarrow>
      and_then (r, eng', es_set_output s out') (\<lambda>oc (eng, s).
        case es_apply_encode_outcome s oc of (q, s') \<Rightarrow> (q, eng, s')))"

lemma ee_step_progress:
  assumes "ee_step C H eng s = (Ok None, eng', s')" "es_has_input s"
  shows "length (ts_input (es_state s')) - ts_input_cursor (es_state s')
    < length (ts_input (es_state s)) - ts_input_cursor (es_state s)"
  using assms by (auto simp: ee_step_def run_simps intro: es_apply_progress split: prod.splits)

function ee_transcode_loop ::
  "('c, 'v, 'u, 'de, 'ee) codec \<Rightarrow> ('h, 'c, 'v, 'u, 'ee) encode_hooks \<Rightarrow>
   ('c, 'h) encode_engine \<Rightarrow> ('v, 'u) encode_state \<Rightarrow>
   (('ee, 'v) encode_error, transcode_progress) res \<times> ('c, 'h) encode_engine \<times>
   ('v, 'u) encode_state" where
  "ee_transcode_loop C H eng s =
    (if \<not> es_has_input s then (Ok (es_complete_progress s), eng, s)
     else
       case ee_step C H eng s of
         (Ok None, eng', s') \<Rightarrow> ee_transcode_loop C H eng' s'
       | (Ok (Some p), eng', s') \<Rightarrow> (Ok p, eng', s')
       | (Err e, eng', s') \<Rightarrow> (Err e, eng', s')
       | (Panic, eng', s') \<Rightarrow> (Panic, eng', s'))"
  by pat_completeness auto
termination
  by (relation "measure (\<lambda>(C, H, eng, s).
        length (ts_input (es_state s)) - ts_input_cursor (es_state s))")
    (auto intro: ee_step_progress [OF sym])

declare ee_transcode_loop.simps [simp del]

definition ee_transcode ::
  "('c, 'v, 'u, 'de, 'ee) codec \<Rightarrow> ('h, 'c, 'v, 'u, 'ee) encode_hooks \<Rightarrow>
   ('c, 'h) encode_engine \<Rightarrow> 'v list \<Rightarrow> nat \<Rightarrow> 'u list \<Rightarrow> nat \<Rightarrow>
   (('ee, 'v) encode_error, transcode_progress) res \<times> ('c, 'h) encode_engine \<times> 'u list" where
  "ee_transcode C H eng input input_index out output_index =
    (case on_transcode (ee_lifecycle eng) of (g, guard) \<Rightarrow>
      and_then (map_err EncodeFailure g, eng\<lparr>ee_lifecycle := guard\<rparr>, out) (\<lambda>_ (eng, out).
      and_then (map_err EncodeFailure
          (ensure_transcode_indices (length input) input_index (length out) output_index), eng, out)
        (\<lambda>_ (eng, out).
        case ee_transcode_loop C H eng (es_new input input_index out output_index) of
          (r, eng', s') \<Rightarrow> (r, eng', ts_output (es_state s')))))"

definition ee_finish ::
  "('c, 'v, 'u, 'de, 'ee) codec \<Rightarrow> ('h, 'c, 'v, 'u, 'ee) encode_hooks \<Rightarrow>
   ('c, 'h) encode_engine \<Rightarrow> 'u list \<Rightarrow> nat \<Rightarrow>
   (('ee, 'v) encode_error, nat) res \<times> ('c, 'h) encode_engine \<times> 'u list" where
  "ee_finish C H eng out output_index =
    and_then (map_err EncodeFailure (on_finish_attempt (ee_lifecycle eng)), eng, out)
      (\<lambda>_ (eng, out).
    let hook_required = eh_max_finish_output_len H (ee_hooks eng) (ee_codec eng) in
    and_then (map_err encode_of_capacity
        (ok_or CapacityOutputLengthOverflow
          (checked_add (max_encode_finish_units C) hook_required)), eng, out)
      (\<lambda>required (eng, out).
    and_then (map_err EncodeFailure (ensure_output_capacity (length out) output_index required),
              eng, out) (\<lambda>_ (eng, out).
    let eng = eng\<lparr>ee_lifecycle := on_finish_start (ee_lifecycle eng)\<rparr> in
    case call_encode_finish C (ee_codec eng) out output_index of
      (r, c', out') \<Rightarrow>
        and_then (map_err (\<lambda>e. EncodeDomain (DomainFinish e)) r, eng\<lparr>ee_codec := c'\<rparr>, out')
          (\<lambda>finished (eng, out).
          if \<not> finished \<le> max_encode_finish_units C then (Panic, eng, out)
          else
            case slice_call out
                   (eh_finish_hooks H (ee_hooks eng) (ee_codec eng) out (output_index + finished)) of
              (r, (h', c'), out') \<Rightarrow>
                and_then (r, eng\<lparr>ee_hooks := h', ee_codec := c'\<rparr>, out') (\<lambda>wr (eng, out).
                if \<not> wr \<le> hook_required then (Panic, eng, out)
                else (Ok (finished + wr),
                      eng\<lparr>ee_lifecycle := on_finish_success (ee_lifecycle eng)\<rparr>, out))))))"

text \<open>The engine as a \<open>Transcoder\<close>; \<open>transcode_eof\<close> is the provided method.\<close>

definition encode_transcoder ::
  "('c, 'v, 'u, 'de, 'ee) codec \<Rightarrow> ('h, 'c, 'v, 'u, 'ee) encode_hooks \<Rightarrow>
   (('c, 'h) encode_engine, 'v, 'u, ('ee, 'v) encode_error) transcoder" where
  "encode_transcoder C H =
    \<lparr>from_failure = EncodeFailure,
     max_reset_output_len = ee_max_reset_output_len C,
     max_transcode_output_len = ee_max_transcode_output_len H,
     max_finish_output_len = ee_max_finish_output_len C H,
     tr_reset = ee_reset C H,
     tr_transcode = ee_transcode C H,
     tr_transcode_eof = default_transcode_eof EncodeFailure (ee_transcode C H),
     tr_finish = ee_finish C H\<rparr>"

definition ee_transcode_complete_into ::
  "('c, 'v, 'u, 'de, 'ee) codec \<Rightarrow> ('h, 'c, 'v, 'u, 'ee) encode_hooks \<Rightarrow>
   ('c, 'h) encode_engine \<Rightarrow> 'v list \<Rightarrow> 'u list \<Rightarrow>
   (('ee, 'v) encode_error, nat) res \<times> ('c, 'h) encode_engine \<times> 'u list" where
  "ee_transcode_complete_into C H = transcode_complete_into (encode_transcoder C H)"

section \<open>What the engine guarantees for every codec and hook\<close>

lemma encode_encodable_value_frame:
  assumes "encode_encodable_value C eng a = (r, eng', out')"
  shows "length out' = length (ea_output a) \<and> ee_lifecycle eng' = ee_lifecycle eng \<and>
    ee_hooks eng' = ee_hooks eng"
  using assms
  by (auto simp: encode_encodable_value_def Let_def and_then_case dest: slice_len
      split: if_splits prod.splits res.splits)

lemma encode_replacement_value_frame:
  assumes "encode_replacement_value C eng v a = (r, eng', out')"
  shows "length out' = length (ea_output a) \<and> ee_lifecycle eng' = ee_lifecycle eng \<and>
    ee_hooks eng' = ee_hooks eng"
  using assms
  by (auto simp: encode_replacement_value_def Let_def and_then_case dest: slice_len
      split: if_splits prod.splits res.splits)

lemma apply_unencodable_action_frame:
  assumes "apply_unencodable_action C eng act a = (r, eng', out')"
  shows "length out' = length (ea_output a) \<and> ee_lifecycle eng' = ee_lifecycle eng \<and>
    ee_hooks eng' = ee_hooks eng"
  using assms by (cases act) (auto dest: encode_replacement_value_frame)

lemma encode_one_frame:
  assumes "encode_one C H eng a = (r, eng', out')"
  shows "length out' = length (ea_output a) \<and> ee_lifecycle eng' = ee_lifecycle eng"
  using assms
  by (auto simp: encode_one_def Let_def and_then_case
      dest: encode_encodable_value_frame apply_unencodable_action_frame
      split: if_splits prod.splits res.splits)

lemma encode_one_need_output:
  assumes "encode_one C H eng a = (Ok (EncodeNeedOutput q), eng', out')"
  shows "ea_available_output a < nz_get q \<and> nz_get q \<le> max_encode_units_per_value C"
proof -
  have 1: "ea_available_output a < nz_get q \<and> nz_get q \<le> max_encode_units_per_value C"
    if "encode_encodable_value C e a = (Ok (EncodeNeedOutput q), eng', out')" for e
    using that by (auto simp: encode_encodable_value_def Let_def run_simps map_ok_eq
        split: if_splits prod.splits)
  have 2: "ea_available_output a < nz_get q \<and> nz_get q \<le> max_encode_units_per_value C"
    if "apply_unencodable_action C e act a = (Ok (EncodeNeedOutput q), eng', out')" for e act
    using that by (cases act) (auto simp: encode_replacement_value_def Let_def run_simps map_ok_eq
        split: if_splits prod.splits)
  from assms show ?thesis
    by (auto simp: encode_one_def Let_def run_simps map_ok_eq dest: 1 2
        split: if_splits prod.splits)
qed

text \<open>Every run of the loop leaves the frame of the call alone, keeps the cursors in their
  slices, and stops with a report that satisfies the progress contract.\<close>

lemma es_set_output_frame [simp]:
  "length out' = length (ts_output (es_state s)) \<Longrightarrow>
    same_frame (es_state s) (es_state (es_set_output s out')) \<and>
    cursors_ok (es_state (es_set_output s out')) = cursors_ok (es_state s)"
  by (simp add: es_set_output_def)

lemma es_context_unchecked_output [simp]:
  "ea_output (es_context_unchecked s) = ts_output (es_state s)"
  by (simp add: es_defs Let_def)

interpretation ee_loop: engine_loop es_has_input "ee_step C H" es_complete_progress
  "ee_transcode_loop C H"
  "\<lambda>s. length (ts_input (es_state s)) - ts_input_cursor (es_state s)" for C H
  by unfold_locales (rule ee_transcode_loop.simps, rule ee_step_progress)

text \<open>The normal results of the body: the value was consumed, or more output is needed.\<close>

lemma ee_step_Ok:
  assumes "ee_step C H eng s = (Ok x, eng', s')"
  shows "\<exists>oc out1. encode_one C H eng (es_context_unchecked s) = (Ok oc, eng', out1) \<and>
    length out1 = length (ts_output (es_state s)) \<and>
    ((\<exists>wr. oc = Consumed wr \<and> x = None \<and> wr \<le> es_available_output s \<and>
       es_state s' = ts_advance (ts_set_output (es_state s) out1) 1 wr) \<or>
     (\<exists>req. oc = EncodeNeedOutput req \<and> x = Some (es_need_output_progress_with s req) \<and>
       es_available_output s < nz_get req \<and> nz_get req \<le> max_encode_units_per_value C \<and>
       es_state s' = ts_set_output (es_state s) out1))"
proof -
  obtain r eng1 out1 where one: "encode_one C H eng (es_context_unchecked s) = (r, eng1, out1)"
    by (cases "encode_one C H eng (es_context_unchecked s)") auto
  with assms obtain oc where oc: "r = Ok oc" by (cases r) (auto simp: ee_step_def)
  have len: "length out1 = length (ts_output (es_state s))"
    using encode_one_frame [OF one] by simp
  show ?thesis
  proof (cases oc)
    case (Consumed wr)
    with assms one oc len show ?thesis
      by (auto simp: ee_step_def es_defs ts_defs and_then_case split: if_splits)
  next
    case (EncodeNeedOutput req)
    with encode_one_need_output [OF one [unfolded oc EncodeNeedOutput]] assms one oc len
    show ?thesis
      by (auto simp: ee_step_def es_defs ts_defs Let_def split: if_splits)
  qed
qed

lemma ee_step_frame:
  assumes "ee_step C H eng s = (q, eng', s')"
  shows "same_frame (es_state s) (es_state s') \<and> ee_lifecycle eng' = ee_lifecycle eng"
proof -
  obtain r eng1 out1 where one: "encode_one C H eng (es_context_unchecked s) = (r, eng1, out1)"
    by (cases "encode_one C H eng (es_context_unchecked s)") auto
  from assms one encode_one_frame [OF one] show ?thesis
  proof (cases r)
    case (Ok oc)
    with assms one encode_one_frame [OF one] show ?thesis
      by (cases oc) (auto simp: ee_step_def es_defs ts_defs same_frame_def Let_def and_then_case
          split: if_splits)
  qed (auto simp: ee_step_def es_defs ts_defs same_frame_def Let_def)
qed

lemma ee_step_continue:
  assumes "ee_step C H eng s = (Ok None, eng', s')" "es_has_input s" "cursors_ok (es_state s)"
  shows "cursors_ok (es_state s')"
  using ee_step_Ok [OF assms(1)] assms(2,3)
  by (auto simp: es_defs ts_defs cursors_ok_def)

lemma ee_transcode_report:
  assumes "ee_transcode C H eng input i out j = (Ok p, eng', out')"
    and "length input \<le> usize_max" "length out \<le> usize_max"
  shows "valid_progress p i (length input - i) j (length out - j) \<and> \<not> is_need_input p \<and>
    length out' = length out"
proof -
  let ?s = "es_new input i out j"
  obtain eng1 s' where idx: "i \<le> length input" "j \<le> length out"
    and loop: "ee_transcode_loop C H eng1 ?s = (Ok p, eng', s')" "out' = ts_output (es_state s')"
    using assms(1) by (auto simp: ee_transcode_def run_simps check_simps split: prod.splits)
  let ?P = "\<lambda>_ s. same_frame (es_state ?s) (es_state s) \<and> cursors_ok (es_state s)"
  have start: "?P eng1 ?s" using idx by (simp add: es_new_def)
  have keep: "?P e' t'" if "?P e t" "es_has_input t" "ee_step C H e t = (Ok None, e', t')"
    for e t e' t'
    using that ee_step_frame [OF that(3)] ee_step_continue [OF that(3)]
    by (auto intro: same_frame_trans)
  have frame: "ts_input (es_state t) = input" "length (ts_output (es_state t)) = length out"
    "ts_input_start (es_state t) = i" "ts_output_start (es_state t) = j" "cursors_ok (es_state t)"
    if "?P e t" for e t
    using that by (auto simp: same_frame_def es_new_def ts_new_def)
  have "?P eng' s' \<and> \<not> es_has_input s' \<and> p = es_complete_progress s' \<or>
    (\<exists>e t. ?P e t \<and> es_has_input t \<and> ee_step C H e t = (Ok (Some p), eng', s'))"
    by (rule ee_loop.loop_Ok [where P = ?P, OF loop(1) start]) (rule keep)
  then show ?thesis
  proof (elim disjE conjE exE)
    assume "same_frame (es_state ?s) (es_state s')" "cursors_ok (es_state s')"
      and "\<not> es_has_input s'" "p = es_complete_progress s'"
    with frame [of s', OF conjI [OF this(1,2)]] complete_progress_valid [of "es_state s'"] assms(2,3) loop(2)
    show ?thesis by (simp add: es_defs) (simp add: ts_defs progress_defs)
  next
    fix e t
    assume t: "same_frame (es_state ?s) (es_state t)" "cursors_ok (es_state t)"
      and "ee_step C H e t = (Ok (Some p), eng', s')"
    from ee_step_Ok [OF this(3)] frame [of t, OF conjI [OF t]] obtain req out1 where
      "es_state s' = ts_set_output (es_state t) out1" "length out1 = length out"
      "p = es_need_output_progress_with t req" "es_available_output t < nz_get req"
      by auto
    with frame [of t, OF conjI [OF t]] need_output_progress_valid [of "es_state t" req] assms(2,3) loop(2)
    show ?thesis by (simp add: es_defs) (simp add: ts_defs progress_defs)
  qed
qed

text \<open>For every codec and every hook, conforming or not: a report that
  \<open>TranscodeEncodeEngine::transcode\<close> returns satisfies the progress contract for the
  slices and indices of the call, and is never a request for more input.\<close>

theorem encode_transcode_reports_valid:
  assumes "ee_transcode C H eng input i out j = (Ok p, eng', out')"
    and "length input \<le> usize_max" "length out \<le> usize_max"
  shows "valid_progress p i (length input - i) j (length out - j) \<and> \<not> is_need_input p \<and>
    length out' = length out"
  using assms by (rule ee_transcode_report)

lemma ee_transcode_length [slice_len]:
  assumes "ee_transcode C H eng input i out j = (r, eng', out')"
  shows "length out' = length out"
proof -
  have keep: "length (ts_output (es_state s')) = length out"
    if "ee_transcode_loop C H e (es_new input i out j) = (q, e', s')" for e q e' s'
    by (rule ee_loop.loop_rule [where P = "\<lambda>_ s. length (ts_output (es_state s)) = length out", OF that])
      (auto dest: ee_step_frame simp: same_frame_def es_new_def ts_new_def)
  from assms show ?thesis
    by (auto simp: ee_transcode_def and_then_case dest: keep split: prod.splits res.splits)
qed

section \<open>The lifecycle of an encode engine\<close>

abbreviation ee_phase :: "('c, 'h) encode_engine \<Rightarrow> lifecycle_phase" where
  "ee_phase eng \<equiv> guard_phase (ee_lifecycle eng)"

text \<open>Whether the preflight checks of \<open>reset\<close> and \<open>finish\<close> let the call start.\<close>

definition ee_reset_accepted ::
  "('c, 'v, 'u, 'de, 'ee) codec \<Rightarrow> 'u list \<Rightarrow> nat \<Rightarrow> bool" where
  "ee_reset_accepted C out j \<longleftrightarrow> j + max_encode_reset_units C \<le> length out"

definition ee_finish_accepted ::
  "('c, 'v, 'u, 'de, 'ee) codec \<Rightarrow> ('h, 'c, 'v, 'u, 'ee) encode_hooks \<Rightarrow>
   ('c, 'h) encode_engine \<Rightarrow> 'u list \<Rightarrow> nat \<Rightarrow> bool" where
  "ee_finish_accepted C H eng out j \<longleftrightarrow>
     stream_phase (ee_phase eng) \<and>
     (\<exists>m. ee_max_finish_output_len C H eng = Ok m \<and> j + m \<le> length out)"

lemma ee_reset_rejected:
  assumes "\<not> ee_reset_accepted C out j"
  shows "\<exists>e. ee_reset C H eng out j = (Err (EncodeFailure e), eng, out)"
proof -
  obtain e where "ensure_output_capacity (length out) j (max_encode_reset_units C) = Err e"
    using assms check_simps
    by (cases "ensure_output_capacity (length out) j (max_encode_reset_units C)")
      (auto simp: ee_reset_accepted_def)
  then show ?thesis by (auto simp: ee_reset_def ee_max_reset_output_len_def)
qed

lemma ee_finish_rejected:
  assumes "\<not> ee_finish_accepted C H eng out j"
  shows "\<exists>e. ee_finish C H eng out j = (Err (EncodeFailure e), eng, out)"
proof (cases "on_finish_attempt (ee_lifecycle eng)")
  case (Ok u)
  let ?r = "eh_max_finish_output_len H (ee_hooks eng) (ee_codec eng)"
  show ?thesis
  proof (cases "checked_add (max_encode_finish_units C) ?r")
    case None
    with Ok show ?thesis by (auto simp: ee_finish_def encode_of_capacity_def)
  next
    case (Some m)
    with Ok assms obtain e where "ensure_output_capacity (length out) j m = Err e"
      using check_simps by (cases "ensure_output_capacity (length out) j m")
        (auto simp: ee_finish_accepted_def ee_max_finish_output_len_def on_finish_attempt_Ok)
    with Ok Some show ?thesis by (auto simp: ee_finish_def)
  qed
qed (auto simp: ee_finish_def)

lemma ee_reset_length [slice_len]:
  assumes "ee_reset C H eng out j = (r, eng', out')"
  shows "length out' = length out"
  using assms
  by (auto simp: ee_reset_def and_then_case Let_def dest!: slice_len
      split: prod.splits option.splits res.splits if_splits)

lemma ee_finish_length [slice_len]:
  assumes "ee_finish C H eng out j = (r, eng', out')"
  shows "length out' = length out"
  using assms
  by (auto simp: ee_finish_def and_then_case Let_def dest!: slice_len slice_call_length
      split: prod.splits option.splits res.splits if_splits)

lemma ee_reset_phase:
  assumes "ee_reset C H eng out j = (r, eng', out')"
  shows "phase_step (ee_phase eng) (reset_label (ee_reset_accepted C out j) r) (ee_phase eng')"
proof (cases "ee_reset_accepted C out j")
  case False
  from ee_reset_rejected [OF this, of H eng] assms False show ?thesis by auto
next
  case True
  then have "ensure_output_capacity (length out) j (max_encode_reset_units C) = Ok ()"
    by (simp add: check_simps ee_reset_accepted_def)
  with assms True show ?thesis
    by (cases r) (auto simp: ee_reset_def ee_max_reset_output_len_def guard_defs Let_def
        and_then_case split: prod.splits option.splits res.splits if_splits)
qed

lemma ee_finish_phase:
  assumes "ee_finish C H eng out j = (r, eng', out')"
  shows "phase_step (ee_phase eng) (finish_label (ee_finish_accepted C H eng out j) r) (ee_phase eng')"
proof (cases "ee_finish_accepted C H eng out j")
  case False
  from ee_finish_rejected [OF this] assms False show ?thesis by auto
next
  case True
  then obtain m where m: "ee_max_finish_output_len C H eng = Ok m" "j + m \<le> length out"
    and ph: "stream_phase (ee_phase eng)" by (auto simp: ee_finish_accepted_def)
  then have 1: "checked_add (max_encode_finish_units C)
      (eh_max_finish_output_len H (ee_hooks eng) (ee_codec eng)) = Some m"
    "ensure_output_capacity (length out) j m = Ok ()"
    "on_finish_attempt (ee_lifecycle eng) = Ok ()"
    by (simp_all add: ee_max_finish_output_len_def check_simps on_finish_attempt_Ok)
  show ?thesis
    using assms True 1 ph
    by (cases r) (auto simp: ee_finish_def guard_defs Let_def
        and_then_case split: prod.splits option.splits res.splits if_splits)
qed

lemma ee_transcode_rejected:
  assumes "\<not> stream_phase (ee_phase eng)"
  shows "\<exists>e. ee_transcode C H eng input i out j = (Err (EncodeFailure e), eng, out)"
  using assms by (cases "ee_lifecycle eng" rule: on_transcode_cases) (auto simp: ee_transcode_def)

lemma ee_transcode_phase:
  assumes "ee_transcode C H eng input i out j = (r, eng', out')"
  shows "phase_step (ee_phase eng) (transcode_label (ee_phase eng)) (ee_phase eng')"
proof (cases "stream_phase (ee_phase eng)")
  case False
  from ee_transcode_rejected [OF this, of C H input i out j] assms False show ?thesis by auto
next
  case True
  obtain r1 eng1 s1 where loop: "ee_transcode_loop C H
      (eng\<lparr>ee_lifecycle := (ee_lifecycle eng)\<lparr>guard_phase := Streaming\<rparr>\<rparr>) (es_new input i out j)
      = (r1, eng1, s1)"
    by (metis prod_cases3)
  have "ee_lifecycle eng1 = (ee_lifecycle eng)\<lparr>guard_phase := Streaming\<rparr>"
    by (rule ee_loop.loop_rule [where P = "\<lambda>e s. ee_lifecycle e = (ee_lifecycle eng)\<lparr>guard_phase := Streaming\<rparr>",
          OF loop]) (auto dest: ee_step_frame)
  with assms True loop show ?thesis
    by (cases "ee_lifecycle eng" rule: on_transcode_cases)
      (auto simp: ee_transcode_def and_then_case split: prod.splits res.splits)
qed

text \<open>Public calls on an encode engine, with their labels. Reading and changing the codec or
  the hooks through their accessors leaves the guard alone.\<close>

inductive encode_call ::
  "('c, 'v, 'u, 'de, 'ee) codec \<Rightarrow> ('h, 'c, 'v, 'u, 'ee) encode_hooks \<Rightarrow>
   ('c, 'h) encode_engine \<Rightarrow> lifecycle_call \<Rightarrow> ('c, 'h) encode_engine \<Rightarrow> bool" for C H where
  call_reset: "ee_reset C H eng out j = (r, eng', out') \<Longrightarrow>
    encode_call C H eng (reset_label (ee_reset_accepted C out j) r) eng'"
| call_transcode: "ee_transcode C H eng input i out j = (r, eng', out') \<Longrightarrow>
    encode_call C H eng (transcode_label (ee_phase eng)) eng'"
| call_finish: "ee_finish C H eng out j = (r, eng', out') \<Longrightarrow>
    encode_call C H eng (finish_label (ee_finish_accepted C H eng out j) r) eng'"

definition encode_fresh :: "('c, 'v, 'u, 'de, 'ee) codec \<Rightarrow> ('c, 'h) encode_engine \<Rightarrow> bool" where
  "encode_fresh C eng \<longleftrightarrow> (ee_new C (ee_codec eng) (ee_hooks eng) :: (unit, _) res) = Ok eng"

interpretation enc: guarded_engine "encode_fresh C" "encode_call C H" ee_phase for C H
  by unfold_locales
    (auto simp: encode_fresh_def ee_new_def bind_res_eq_Ok guard_defs
      dest!: arg_cong [where f = ee_phase]
      elim!: encode_call.cases dest: ee_reset_phase ee_transcode_phase ee_finish_phase
      simp del: reset_label.simps transcode_label.simps finish_label.simps)

end
