(* ===== verification/DecodeEngine.thy ===== *)
theory DecodeEngine
  imports Codec Cursor Lifecycle Transcoder
begin

text \<open>
  \<open>TranscodeDecodeEngine\<close> (\<open>src/transcode/engine/transcode_decode_engine.rs\<close>) and the
  trait of its policy hooks (\<open>transcode_decode_hooks.rs\<close>). As for the encoder, the lemmas
  of this theory hold for every codec and every hook. The loop terminates for all of them
  because an outcome that lets it continue carries a \<open>NonZeroUsize\<close> of consumed units.

  The closure \<open>consume\<close> of \<open>decode_one\<close> is a function argument; the effect of the
  engine's closure, a write to the output slot at the cursor, is its result.
\<close>

section \<open>Decode hooks\<close>

datatype 'v invalid_action =
    InvalidReject | InvalidSkip nonzero | InvalidEmit 'v nonzero

datatype 'v incomplete_action = IncompleteReject | IncompleteSkip | IncompleteEmit 'v

record ('h, 'c, 'v, 'de) decode_hooks =
  dh_max_transcode_output_len :: "'h \<Rightarrow> 'c \<Rightarrow> nat \<Rightarrow> nat capacity"
  dh_max_finish_output_len :: "'h \<Rightarrow> 'c \<Rightarrow> nat"
  dh_handle_invalid :: "'h \<Rightarrow> 'c \<Rightarrow> 'de \<Rightarrow> nonzero option \<Rightarrow> decode_context \<Rightarrow>
    ('de decode_error, 'v invalid_action) res \<times> 'h \<times> 'c"
  dh_handle_incomplete :: "'h \<Rightarrow> 'c \<Rightarrow> 'de option \<Rightarrow> nonzero \<Rightarrow> decode_context \<Rightarrow>
    ('de decode_error, 'v incomplete_action) res \<times> 'h \<times> 'c"
  dh_reset_hooks :: "'h \<Rightarrow> 'c \<Rightarrow> unit option \<times> 'h \<times> 'c" \<comment> \<open>\<open>None\<close>: the hook panicked\<close>
  dh_finish_hooks :: "'h \<Rightarrow> 'c \<Rightarrow> 'v list \<Rightarrow> nat \<Rightarrow>
    ('de decode_error, nat) res \<times> ('h \<times> 'c) \<times> 'v list"

text \<open>The provided methods: one output value per input unit, and no EOF repair.\<close>

definition default_dh_max_transcode :: "'h \<Rightarrow> 'c \<Rightarrow> nat \<Rightarrow> nat capacity" where
  "default_dh_max_transcode h c input_len = Ok input_len"

definition default_handle_incomplete ::
  "'h \<Rightarrow> 'c \<Rightarrow> 'de option \<Rightarrow> nonzero \<Rightarrow> decode_context \<Rightarrow>
    ('de decode_error, 'v incomplete_action) res \<times> 'h \<times> 'c" where
  "default_handle_incomplete h c src required ctx = (Ok IncompleteReject, h, c)"

definition bound_consumed :: "nonzero \<Rightarrow> nat \<Rightarrow> ('e, nonzero) res" where
  "bound_consumed consumed available =
    (if \<not> available > 0 then Panic
     else if \<not> nz_get consumed \<le> available then Panic
     else Ok consumed)"

section \<open>The engine\<close>

record ('c, 'h) decode_engine =
  de_codec :: 'c
  de_hooks :: 'h
  de_lifecycle :: lifecycle_guard

definition add_decode_output_bounds :: "nat \<Rightarrow> nat \<Rightarrow> nat capacity" where
  "add_decode_output_bounds x y = ok_or CapacityOutputLengthOverflow (checked_add x y)"

definition sum_decode_output_bounds :: "nat \<Rightarrow> nat \<Rightarrow> nat \<Rightarrow> nat capacity" where
  "sum_decode_output_bounds reset_len transcode_len finish_len =
    bind_res (add_decode_output_bounds reset_len transcode_len)
      (\<lambda>before_finish. add_decode_output_bounds before_finish finish_len)"

definition de_new ::
  "('c, 'v, 'u, 'de, 'ee) codec \<Rightarrow> 'c \<Rightarrow> 'h \<Rightarrow> ('e, ('c, 'h) decode_engine) res" where
  "de_new C c h =
    bind_res (assert_unit_bounds C)
      (\<lambda>_. Ok \<lparr>de_codec = c, de_hooks = h, de_lifecycle = guard_new\<rparr>)"

definition de_max_transcode_output_len ::
  "('h, 'c, 'v, 'de) decode_hooks \<Rightarrow> ('c, 'h) decode_engine \<Rightarrow> nat \<Rightarrow> nat capacity" where
  "de_max_transcode_output_len H eng input_len =
    dh_max_transcode_output_len H (de_hooks eng) (de_codec eng) input_len"

definition de_max_finish_output_len ::
  "('c, 'v, 'u, 'de, 'ee) codec \<Rightarrow> ('h, 'c, 'v, 'de) decode_hooks \<Rightarrow>
   ('c, 'h) decode_engine \<Rightarrow> nat capacity" where
  "de_max_finish_output_len C H eng =
    add_decode_output_bounds (max_decode_finish_values C)
      (dh_max_finish_output_len H (de_hooks eng) (de_codec eng))"

definition de_max_reset_output_len ::
  "('c, 'v, 'u, 'de, 'ee) codec \<Rightarrow> ('c, 'h) decode_engine \<Rightarrow> nat capacity" where
  "de_max_reset_output_len C eng = Ok (max_decode_reset_values C)"

definition de_max_total_output_len ::
  "('c, 'v, 'u, 'de, 'ee) codec \<Rightarrow> ('h, 'c, 'v, 'de) decode_hooks \<Rightarrow>
   ('c, 'h) decode_engine \<Rightarrow> nat \<Rightarrow> nat capacity" where
  "de_max_total_output_len C H eng input_len =
    bind_res (de_max_transcode_output_len H eng input_len) (\<lambda>transcode_len.
    bind_res (de_max_finish_output_len C H eng) (\<lambda>finish_len.
      sum_decode_output_bounds (max_decode_reset_values C) transcode_len finish_len))"

definition de_reset ::
  "('c, 'v, 'u, 'de, 'ee) codec \<Rightarrow> ('h, 'c, 'v, 'de) decode_hooks \<Rightarrow>
   ('c, 'h) decode_engine \<Rightarrow> 'v list \<Rightarrow> nat \<Rightarrow>
   ('de decode_error, nat) res \<times> ('c, 'h) decode_engine \<times> 'v list" where
  "de_reset C H eng out output_index =
    (let required = max_decode_reset_values C in
    and_then (map_err DecodeFailed (ensure_output_capacity (length out) output_index required),
              eng, out) (\<lambda>_ (eng, out).
    let eng = eng\<lparr>de_lifecycle := on_reset_start (de_lifecycle eng)\<rparr> in
    case dh_reset_hooks H (de_hooks eng) (de_codec eng) of
      (None, h', c') \<Rightarrow> (Panic, eng\<lparr>de_hooks := h', de_codec := c'\<rparr>, out)
    | (Some _, h', c') \<Rightarrow>
        let eng = eng\<lparr>de_hooks := h', de_codec := c'\<rparr> in
        case call_decode_reset C (de_codec eng) out output_index of
          (r, c', out') \<Rightarrow>
            and_then (map_err (\<lambda>e. DecodeDomain (DomainReset e)) r, eng\<lparr>de_codec := c'\<rparr>, out')
              (\<lambda>wr (eng, out).
              if \<not> wr \<le> required then (Panic, eng, out)
              else (Ok wr, eng\<lparr>de_lifecycle := on_reset_success (de_lifecycle eng)\<rparr>, out))))"

section \<open>Decoding one value\<close>

text \<open>\<open>AppliedDecodeInvalidAction\<close>: the invalid-input actions that continue.\<close>

datatype 'v applied_invalid_action = AppliedSkip nonzero | AppliedEmit 'v nonzero

fun apply_invalid_decode_action ::
  "'v applied_invalid_action \<Rightarrow> decode_context \<Rightarrow> ('v \<Rightarrow> nat \<Rightarrow> 'r) \<Rightarrow>
   ('e, decode_outcome \<times> 'r option) res" where
  "apply_invalid_decode_action (AppliedSkip consumed) ctx consume =
     bind_res (bound_consumed consumed (dc_available ctx)) (\<lambda>rd. Ok (Skipped rd, None))"
| "apply_invalid_decode_action (AppliedEmit v consumed) ctx consume =
     bind_res (bound_consumed consumed (dc_available ctx))
       (\<lambda>rd. Ok (Emitted rd nz_min, Some (consume v (dc_input_index ctx))))"

definition apply_incomplete_decode ::
  "('h, 'c, 'v, 'de) decode_hooks \<Rightarrow> ('c, 'h) decode_engine \<Rightarrow> 'de option \<Rightarrow> nonzero \<Rightarrow>
   decode_context \<Rightarrow> ('v \<Rightarrow> nat \<Rightarrow> 'r) \<Rightarrow>
   ('de decode_error, decode_outcome \<times> 'r option) res \<times> ('c, 'h) decode_engine" where
  "apply_incomplete_decode H eng src required ctx consume =
    (case dh_handle_incomplete H (de_hooks eng) (de_codec eng) src required ctx of
      (r, h', c') \<Rightarrow>
        and_then (r, eng\<lparr>de_hooks := h', de_codec := c'\<rparr>) (\<lambda>action eng.
          case action of
            IncompleteReject \<Rightarrow>
              (case src of
                 Some e \<Rightarrow> (Err (DecodeDomain (DomainMain e (dc_input_index ctx) None)), eng)
               | None \<Rightarrow> (Err (DecodeFailed (IncompleteInput (dc_input_index ctx)
                           (nz_get required) (dc_available ctx))), eng))
          | IncompleteSkip \<Rightarrow>
              (bind_res (nz_expect (dc_available ctx)) (\<lambda>rd. Ok (Skipped rd, None)), eng)
          | IncompleteEmit v \<Rightarrow>
              (bind_res (nz_expect (dc_available ctx))
                (\<lambda>rd. Ok (Emitted rd nz_min, Some (consume v (dc_input_index ctx)))), eng)))"

text \<open>\<open>decode_one\<close>: the decode step shared by the decoder and the converter.\<close>

definition decode_one ::
  "('c, 'v, 'u, 'de, 'ee) codec \<Rightarrow> ('h, 'c, 'v, 'de) decode_hooks \<Rightarrow>
   ('c, 'h) decode_engine \<Rightarrow> 'u list \<Rightarrow> decode_context \<Rightarrow> bool \<Rightarrow> ('v \<Rightarrow> nat \<Rightarrow> 'r) \<Rightarrow>
   ('de decode_error, decode_outcome \<times> 'r option) res \<times> ('c, 'h) decode_engine" where
  "decode_one C H eng input ctx end_of_input consume =
    (if dc_available ctx < min_units_per_value C then
       and_then (nz_expect (min_units_per_value C), eng) (\<lambda>required eng.
         if \<not> end_of_input then (Ok (DecodeNeedInput required, None), eng)
         else apply_incomplete_decode H eng None required ctx consume)
     else
       case (if end_of_input then decode_eof C (de_codec eng) input (dc_input_index ctx)
             else decode C (de_codec eng) input (dc_input_index ctx)) of
         (r, c') \<Rightarrow>
           let eng = eng\<lparr>de_codec := c'\<rparr> in
           (case r of
              Ok (v, consumed) \<Rightarrow>
                if \<not> nz_get consumed \<le> dc_available ctx then (Panic, eng)
                else if \<not> nz_get consumed \<le> max_decode_units_per_value C then (Panic, eng)
                else (Ok (Emitted consumed nz_min, Some (consume v (dc_input_index ctx))), eng)
            | Err (Incomplete src required) \<Rightarrow>
                if \<not> nz_get required > dc_available ctx then (Panic, eng)
                else if \<not> nz_get required \<le> max_decode_units_per_value C then (Panic, eng)
                else if \<not> end_of_input then (Ok (DecodeNeedInput required, None), eng)
                else apply_incomplete_decode H eng src required ctx consume
            | Err (Invalid src consumed) \<Rightarrow>
                (case dh_handle_invalid H (de_hooks eng) (de_codec eng) src consumed ctx of
                   (r, h', c') \<Rightarrow>
                     and_then (r, eng\<lparr>de_hooks := h', de_codec := c'\<rparr>) (\<lambda>action eng.
                       case action of
                         InvalidReject \<Rightarrow>
                           (Err (DecodeDomain (DomainMain src (dc_input_index ctx) consumed)), eng)
                       | InvalidSkip n \<Rightarrow>
                           (apply_invalid_decode_action (AppliedSkip n) ctx consume, eng)
                       | InvalidEmit v n \<Rightarrow>
                           (apply_invalid_decode_action (AppliedEmit v n) ctx consume, eng)))
            | Panic \<Rightarrow> (Panic, eng)))"

section \<open>The decode loop\<close>

text \<open>One call of \<open>decode_one\<close> from the loop: its closure writes the output slot at the
  cursor, and its outcome moves the cursors.\<close>

definition de_decode_at ::
  "('c, 'v, 'u, 'de, 'ee) codec \<Rightarrow> ('h, 'c, 'v, 'de) decode_hooks \<Rightarrow>
   ('c, 'h) decode_engine \<Rightarrow> 'u list \<Rightarrow> decode_context \<Rightarrow> bool \<Rightarrow> ('u, 'v) decode_state \<Rightarrow>
   ('de decode_error, transcode_progress option) res \<times> ('c, 'h) decode_engine \<times>
   ('u, 'v) decode_state" where
  "de_decode_at C H eng input ctx end_of_input s =
    (case decode_one C H eng input ctx end_of_input
            (\<lambda>v _. (ts_output (ds_state s))[ds_output_cursor s := v]) of
       (r, eng') \<Rightarrow>
         and_then (r, eng', s) (\<lambda>(oc, slot) (eng, s).
           let s = (case slot of Some out \<Rightarrow> ds_set_output s out | None \<Rightarrow> s) in
           case ds_apply_decode_outcome s oc of (q, s') \<Rightarrow> (q, eng, s')))"

text \<open>The body of the loop of \<open>transcode_with_eof\<close>.\<close>

definition de_step ::
  "('c, 'v, 'u, 'de, 'ee) codec \<Rightarrow> ('h, 'c, 'v, 'de) decode_hooks \<Rightarrow> 'u list \<Rightarrow> bool \<Rightarrow>
   nonzero \<Rightarrow> ('c, 'h) decode_engine \<Rightarrow> ('u, 'v) decode_state \<Rightarrow>
   ('de decode_error, transcode_progress option) res \<times> ('c, 'h) decode_engine \<times>
   ('u, 'v) decode_state" where
  "de_step C H input end_of_input min_units eng s =
    and_then (ds_context s, eng, s) (\<lambda>ctx (eng, s).
      if dc_available ctx < nz_get min_units then
        if \<not> end_of_input then (Ok (Some (ds_need_input_progress_with s min_units)), eng, s)
        else if ds_needs_output s then (Ok (Some (ds_need_output_progress s)), eng, s)
        else de_decode_at C H eng input ctx True s
      else if ds_needs_output s then (Ok (Some (ds_need_output_progress s)), eng, s)
      else de_decode_at C H eng input ctx end_of_input s)"

lemma de_decode_at_progress:
  assumes "de_decode_at C H eng input ctx eof s = (Ok None, eng', s')" "ds_has_input s"
  shows "ds_available s' < ds_available s"
  using assms ds_apply_progress [of s] ds_apply_progress [of "ds_set_output s out" for out]
  by (fastforce simp: de_decode_at_def run_simps Let_def split: prod.splits option.splits)

lemma de_step_progress:
  assumes "de_step C H input eof m eng s = (Ok None, eng', s')" "ds_has_input s"
  shows "ds_available s' < ds_available s"
  using assms by (auto simp: de_step_def run_simps intro: de_decode_at_progress split: if_splits)

function de_transcode_loop ::
  "('c, 'v, 'u, 'de, 'ee) codec \<Rightarrow> ('h, 'c, 'v, 'de) decode_hooks \<Rightarrow> 'u list \<Rightarrow> bool \<Rightarrow>
   nonzero \<Rightarrow> ('c, 'h) decode_engine \<Rightarrow> ('u, 'v) decode_state \<Rightarrow>
   ('de decode_error, transcode_progress) res \<times> ('c, 'h) decode_engine \<times>
   ('u, 'v) decode_state" where
  "de_transcode_loop C H input eof min_units eng s =
    (if \<not> ds_has_input s then (Ok (ds_complete_progress s), eng, s)
     else
       case de_step C H input eof min_units eng s of
         (Ok None, eng', s') \<Rightarrow> de_transcode_loop C H input eof min_units eng' s'
       | (Ok (Some p), eng', s') \<Rightarrow> (Ok p, eng', s')
       | (Err e, eng', s') \<Rightarrow> (Err e, eng', s')
       | (Panic, eng', s') \<Rightarrow> (Panic, eng', s'))"
  by pat_completeness auto
termination
  by (relation "measure (\<lambda>(C, H, input, eof, m, eng, s). ds_available s)")
    (auto intro: de_step_progress [OF sym])

declare de_transcode_loop.simps [simp del]

definition de_transcode_with_eof ::
  "('c, 'v, 'u, 'de, 'ee) codec \<Rightarrow> ('h, 'c, 'v, 'de) decode_hooks \<Rightarrow>
   ('c, 'h) decode_engine \<Rightarrow> 'u list \<Rightarrow> nat \<Rightarrow> 'v list \<Rightarrow> nat \<Rightarrow> bool \<Rightarrow>
   ('de decode_error, transcode_progress) res \<times> ('c, 'h) decode_engine \<times> 'v list" where
  "de_transcode_with_eof C H eng input input_index out output_index end_of_input =
    (case on_transcode (de_lifecycle eng) of (g, guard) \<Rightarrow>
      and_then (map_err DecodeFailed g, eng\<lparr>de_lifecycle := guard\<rparr>, out) (\<lambda>_ (eng, out).
      and_then (map_err DecodeFailed
          (ensure_transcode_indices (length input) input_index (length out) output_index), eng, out)
        (\<lambda>_ (eng, out).
      and_then (nz_expect (min_units_per_value C), eng, out) (\<lambda>min_units (eng, out).
        case de_transcode_loop C H input end_of_input min_units eng
               (ds_new input input_index out output_index) of
          (r, eng', s') \<Rightarrow> (r, eng', ts_output (ds_state s'))))))"

definition de_transcode ::
  "('c, 'v, 'u, 'de, 'ee) codec \<Rightarrow> ('h, 'c, 'v, 'de) decode_hooks \<Rightarrow>
   ('c, 'h) decode_engine \<Rightarrow> 'u list \<Rightarrow> nat \<Rightarrow> 'v list \<Rightarrow> nat \<Rightarrow>
   ('de decode_error, transcode_progress) res \<times> ('c, 'h) decode_engine \<times> 'v list" where
  "de_transcode C H eng input input_index out output_index =
    de_transcode_with_eof C H eng input input_index out output_index False"

definition de_transcode_eof ::
  "('c, 'v, 'u, 'de, 'ee) codec \<Rightarrow> ('h, 'c, 'v, 'de) decode_hooks \<Rightarrow>
   ('c, 'h) decode_engine \<Rightarrow> 'u list \<Rightarrow> nat \<Rightarrow> 'v list \<Rightarrow> nat \<Rightarrow>
   ('de decode_error, transcode_progress) res \<times> ('c, 'h) decode_engine \<times> 'v list" where
  "de_transcode_eof C H eng input input_index out output_index =
    de_transcode_with_eof C H eng input input_index out output_index True"

definition de_finish ::
  "('c, 'v, 'u, 'de, 'ee) codec \<Rightarrow> ('h, 'c, 'v, 'de) decode_hooks \<Rightarrow>
   ('c, 'h) decode_engine \<Rightarrow> 'v list \<Rightarrow> nat \<Rightarrow>
   ('de decode_error, nat) res \<times> ('c, 'h) decode_engine \<times> 'v list" where
  "de_finish C H eng out output_index =
    and_then (map_err DecodeFailed (on_finish_attempt (de_lifecycle eng)), eng, out)
      (\<lambda>_ (eng, out).
    let hook_required = dh_max_finish_output_len H (de_hooks eng) (de_codec eng) in
    and_then (map_err decode_of_capacity
        (ok_or CapacityOutputLengthOverflow
          (checked_add (max_decode_finish_values C) hook_required)), eng, out)
      (\<lambda>required (eng, out).
    and_then (map_err DecodeFailed (ensure_output_capacity (length out) output_index required),
              eng, out) (\<lambda>_ (eng, out).
    let eng = eng\<lparr>de_lifecycle := on_finish_start (de_lifecycle eng)\<rparr> in
    case call_decode_finish C (de_codec eng) out output_index of
      (r, c', out') \<Rightarrow>
        and_then (map_err (\<lambda>e. DecodeDomain (DomainFinish e)) r, eng\<lparr>de_codec := c'\<rparr>, out')
          (\<lambda>finished (eng, out).
          if \<not> finished \<le> max_decode_finish_values C then (Panic, eng, out)
          else
            case slice_call out
                   (dh_finish_hooks H (de_hooks eng) (de_codec eng) out (output_index + finished)) of
              (r, (h', c'), out') \<Rightarrow>
                and_then (r, eng\<lparr>de_hooks := h', de_codec := c'\<rparr>, out') (\<lambda>wr (eng, out).
                if \<not> wr \<le> hook_required then (Panic, eng, out)
                else (Ok (finished + wr),
                      eng\<lparr>de_lifecycle := on_finish_success (de_lifecycle eng)\<rparr>, out))))))"

text \<open>The engine as a \<open>Transcoder\<close>, with its own \<open>transcode_eof\<close>.\<close>

definition decode_transcoder ::
  "('c, 'v, 'u, 'de, 'ee) codec \<Rightarrow> ('h, 'c, 'v, 'de) decode_hooks \<Rightarrow>
   (('c, 'h) decode_engine, 'u, 'v, 'de decode_error) transcoder" where
  "decode_transcoder C H =
    \<lparr>from_failure = DecodeFailed,
     max_reset_output_len = de_max_reset_output_len C,
     max_transcode_output_len = de_max_transcode_output_len H,
     max_finish_output_len = de_max_finish_output_len C H,
     tr_reset = de_reset C H,
     tr_transcode = de_transcode C H,
     tr_transcode_eof = de_transcode_eof C H,
     tr_finish = de_finish C H\<rparr>"

definition de_transcode_complete_into ::
  "('c, 'v, 'u, 'de, 'ee) codec \<Rightarrow> ('h, 'c, 'v, 'de) decode_hooks \<Rightarrow>
   ('c, 'h) decode_engine \<Rightarrow> 'u list \<Rightarrow> 'v list \<Rightarrow>
   ('de decode_error, nat) res \<times> ('c, 'h) decode_engine \<times> 'v list" where
  "de_transcode_complete_into C H = transcode_complete_into (decode_transcoder C H)"

section \<open>What the engine guarantees for every codec and hook\<close>

lemma bound_consumed_Ok: "bound_consumed n a = Ok m \<longleftrightarrow> m = n \<and> nz_get n \<le> a"
  using nz_get_pos [of n] by (auto simp: bound_consumed_def)

lemma apply_incomplete_decode_lifecycle:
  assumes "apply_incomplete_decode H eng src req ctx k = (r, eng')"
  shows "de_lifecycle eng' = de_lifecycle eng"
  using assms
  by (auto simp: apply_incomplete_decode_def and_then_case
      split: prod.splits res.splits incomplete_action.splits option.splits)

lemma decode_one_lifecycle:
  assumes "decode_one C H eng input ctx eof k = (r, eng')"
  shows "de_lifecycle eng' = de_lifecycle eng"
  using assms
  by (auto simp: decode_one_def Let_def and_then_case dest: apply_incomplete_decode_lifecycle
      split: prod.splits res.splits if_splits decode_failure.splits invalid_action.splits)

text \<open>The outcomes of a decode step: how much of the visible input it covers, and whether the
  closure ran. A request for more input is made on an open stream only.\<close>

definition decode_outcome_ok ::
  "bool \<Rightarrow> decode_context \<Rightarrow> ('v \<Rightarrow> nat \<Rightarrow> 'r) \<Rightarrow> decode_outcome \<Rightarrow> 'r option \<Rightarrow> bool" where
  "decode_outcome_ok eof ctx k oc x \<longleftrightarrow>
    (case oc of
       Emitted rd n \<Rightarrow> n = nz_min \<and> nz_get rd \<le> dc_available ctx \<and>
         (\<exists>v. x = Some (k v (dc_input_index ctx)))
     | Skipped rd \<Rightarrow> nz_get rd \<le> dc_available ctx \<and> x = None
     | DecodeNeedInput req \<Rightarrow> \<not> eof \<and> dc_available ctx < nz_get req \<and> x = None)"

lemma apply_incomplete_decode_Ok:
  assumes "apply_incomplete_decode H eng src req ctx k = (Ok (oc, x), eng')"
  shows "decode_outcome_ok True ctx k oc x"
proof -
  obtain r h' c' where h: "dh_handle_incomplete H (de_hooks eng) (de_codec eng) src req ctx = (r, h', c')"
    by (metis prod_cases3)
  with assms obtain act where act: "r = Ok act" by (cases r) (auto simp: apply_incomplete_decode_def)
  with assms h show ?thesis
    by (cases act; cases src)
      (auto simp: apply_incomplete_decode_def decode_outcome_ok_def bind_res_eq_Ok)
qed

lemma decode_outcome_ok_eof: "decode_outcome_ok True ctx k oc x \<Longrightarrow> decode_outcome_ok eof ctx k oc x"
  by (auto simp: decode_outcome_ok_def split: decode_outcome.splits)

lemma apply_invalid_decode_action_Ok:
  assumes "apply_invalid_decode_action act ctx k = Ok (oc, x)"
  shows "decode_outcome_ok eof ctx k oc x"
  using assms by (cases act) (auto simp: bind_res_eq_Ok bound_consumed_Ok decode_outcome_ok_def)

lemma decode_one_Ok:
  assumes "decode_one C H eng input ctx eof k = (Ok (oc, x), eng')"
  shows "decode_outcome_ok eof ctx k oc x"
proof (cases "dc_available ctx < min_units_per_value C")
  case True
  show ?thesis
  proof (cases eof)
    case True
    with assms \<open>dc_available ctx < _\<close> show ?thesis
      by (auto simp: decode_one_def run_simps intro: apply_incomplete_decode_Ok split: if_splits)
  next
    case False
    with assms \<open>dc_available ctx < _\<close> show ?thesis
      by (auto simp: decode_one_def run_simps decode_outcome_ok_def split: if_splits)
  qed
next
  case False
  obtain r c' where dec: "(if eof then decode_eof C (de_codec eng) input (dc_input_index ctx)
      else decode C (de_codec eng) input (dc_input_index ctx)) = (r, c')"
    by (metis surj_pair)
  show ?thesis
  proof (cases r)
    case (Ok vn)
    with assms False dec show ?thesis
      by (cases vn) (auto simp: decode_one_def Let_def decode_outcome_ok_def split: if_splits)
  next
    case (Err f)
    show ?thesis
    proof (cases f)
      case (Incomplete src req)
      show ?thesis
      proof (cases eof)
        case True
        with assms False dec Err Incomplete show ?thesis
          by (auto simp: decode_one_def Let_def intro: apply_incomplete_decode_Ok split: if_splits)
      next
        case open_stream: False
        with assms False dec Err Incomplete show ?thesis
          by (auto simp: decode_one_def Let_def decode_outcome_ok_def split: if_splits)
      qed
    next
      case (Invalid src n)
      obtain r2 h2 c2 where h: "dh_handle_invalid H (de_hooks eng) c' src n ctx = (r2, h2, c2)"
        by (metis prod_cases3)
      with assms False dec Err Invalid obtain act where act: "r2 = Ok act"
        by (cases r2) (auto simp: decode_one_def Let_def split: if_splits)
      with assms False dec Err Invalid h show ?thesis
        by (cases act) (auto simp: decode_one_def Let_def
            intro: apply_invalid_decode_action_Ok simp del: apply_invalid_decode_action.simps
            split: if_splits)
    qed
  next
    case Panic
    with assms False dec show ?thesis by (auto simp: decode_one_def Let_def split: if_splits)
  qed
qed

interpretation de_loop: engine_loop ds_has_input "de_step C H input eof m" ds_complete_progress
  "de_transcode_loop C H input eof m" ds_available for C H input eof m
  by unfold_locales (rule de_transcode_loop.simps, rule de_step_progress)

text \<open>The normal results of one turn of the loop.\<close>

definition de_turn ::
  "bool \<Rightarrow> ('u, 'v) decode_state \<Rightarrow> transcode_progress option \<Rightarrow> ('u, 'v) decode_state \<Rightarrow> bool" where
  "de_turn eof s x s' \<longleftrightarrow>
    (case x of
       None \<Rightarrow>
         \<not> ds_needs_output s \<and>
         (\<exists>rd. nz_get rd \<le> ds_available s \<and>
           (ds_state s' = ts_advance (ds_state s) (nz_get rd) 0 \<or>
            (\<exists>v. ds_state s' = ts_advance (ts_set_output (ds_state s)
                  ((ts_output (ds_state s))[ds_output_cursor s := v])) (nz_get rd) 1)))
     | Some p \<Rightarrow> s' = s \<and>
         (\<not> eof \<and> (\<exists>req. ds_available s < nz_get req \<and> p = ds_need_input_progress_with s req) \<or>
          ds_needs_output s \<and> p = ds_need_output_progress s))"

lemma de_turn_continue:
  assumes "\<not> ds_needs_output s" "nz_get rd \<le> ds_available s"
    and "ds_state s' = ts_advance (ds_state s) (nz_get rd) 0 \<or>
      (\<exists>v. ds_state s' = ts_advance (ts_set_output (ds_state s)
        ((ts_output (ds_state s))[ds_output_cursor s := v])) (nz_get rd) 1)"
  shows "de_turn eof s None s'"
  using assms by (auto simp: de_turn_def)

lemma de_decode_at_Ok:
  assumes "de_decode_at C H eng input ctx eof s = (Ok x, eng', s')"
    and "\<not> ds_needs_output s" "dc_available ctx = ds_available s"
  shows "de_turn eof s x s'"
proof -
  let ?k = "\<lambda>v _. (ts_output (ds_state s))[ds_output_cursor s := v]"
  obtain oc slot where one: "decode_one C H eng input ctx eof ?k = (Ok (oc, slot), eng')"
    using assms(1) by (auto simp: de_decode_at_def run_simps Let_def split: prod.splits)
  note ok = decode_one_Ok [OF one]
  show ?thesis
  proof (cases oc)
    case (Emitted rd n)
    with ok obtain v where slot: "slot = Some (?k v 0)" "n = nz_min"
      by (auto simp: decode_outcome_ok_def)
    let ?t = "ds_set_output s (?k v 0)"
    from assms(1) one slot Emitted have
      step: "nz_get rd \<le> ds_available ?t" "x = None"
        "ds_state s' = ts_advance (ds_state ?t) (nz_get rd) 1"
      by (auto simp: de_decode_at_def ds_accept_emitted_def and_then_case split: if_splits)
    have "ds_state ?t = ts_set_output (ds_state s) (?k v 0)" by (simp add: ds_set_output_def)
    with step(3) have "ds_state s' = ts_advance (ts_set_output (ds_state s)
        ((ts_output (ds_state s))[ds_output_cursor s := v])) (nz_get rd) 1" by simp
    with step(1,2) assms(2) show ?thesis
      by (metis de_turn_continue ds_set_output_input(1))
  next
    case (Skipped rd)
    with ok have slot: "slot = None" by (auto simp: decode_outcome_ok_def)
    from assms(1) one slot Skipped have
      step: "nz_get rd \<le> ds_available s" "x = None"
        "ds_state s' = ts_advance_input (ds_state s) (nz_get rd)"
      by (auto simp: de_decode_at_def ds_skip_def and_then_case split: if_splits)
    then have "ds_state s' = ts_advance (ds_state s) (nz_get rd) 0" by (simp add: ts_defs)
    with step assms(2) show ?thesis by (auto intro: de_turn_continue)
  next
    case (DecodeNeedInput req)
    with ok assms one show ?thesis
      by (auto simp: de_decode_at_def de_turn_def decode_outcome_ok_def Let_def)
  qed
qed

lemma de_step_Ok:
  assumes "de_step C H input eof m eng s = (Ok x, eng', s')"
  shows "de_turn eof s x s'"
proof -
  let ?ctx = "cursor_context (ds_state s)"
  have av: "dc_available ?ctx = ds_available s" by (simp add: ds_available_def)
  have eq: "(Ok x, eng', s') =
    (if ds_available s < nz_get m \<and> \<not> eof
     then (Ok (Some (ds_need_input_progress_with s m)), eng, s)
     else if ds_needs_output s then (Ok (Some (ds_need_output_progress s)), eng, s)
     else de_decode_at C H eng input ?ctx eof s)"
    using assms av by (cases eof) (auto simp: de_step_def ds_context_cases split: if_splits)
  show ?thesis
  proof (cases "ds_available s < nz_get m \<and> \<not> eof")
    case True
    with eq show ?thesis by (auto simp: de_turn_def)
  next
    case F: False
    show ?thesis
    proof (cases "ds_needs_output s")
      case True
      with eq F show ?thesis by (auto simp: de_turn_def)
    next
      case False
      with eq F have "de_decode_at C H eng input ?ctx eof s = (Ok x, eng', s')"
        by (simp only: if_False simp_thms)
      from de_decode_at_Ok [OF this False av] show ?thesis .
    qed
  qed
qed

lemma de_turn_frame:
  assumes "de_turn eof s x s'"
  shows "same_frame (ds_state s) (ds_state s')"
  using assms
  by (auto simp: de_turn_def same_frame_def ds_defs ts_defs split: option.splits)

lemma de_turn_cursors:
  assumes "de_turn eof s x s'" "cursors_ok (ds_state s)"
  shows "cursors_ok (ds_state s')"
  using assms
  by (auto simp: de_turn_def cursors_ok_def ds_defs ts_defs split: option.splits)

lemma de_decode_at_length:
  assumes "de_decode_at C H eng input ctx eof s = (q, eng', s')"
  shows "length (ts_output (ds_state s')) = length (ts_output (ds_state s))"
proof -
  let ?k = "\<lambda>v _. (ts_output (ds_state s))[ds_output_cursor s := v]"
  obtain r e where one: "decode_one C H eng input ctx eof ?k = (r, e)" by (metis surj_pair)
  show ?thesis
  proof (cases r)
    case (Ok ox)
    obtain oc x where "ox = (oc, x)" by (cases ox)
    with assms one Ok decode_one_Ok [of C H eng input ctx eof ?k oc x e] show ?thesis
      by (cases oc) (auto simp: de_decode_at_def decode_outcome_ok_def ds_defs ts_defs and_then_case Let_def
          split: if_splits option.splits)
  qed (use assms one in \<open>auto simp: de_decode_at_def\<close>)
qed

lemma de_step_length:
  assumes "de_step C H input eof m eng s = (q, eng', s')"
  shows "length (ts_output (ds_state s')) = length (ts_output (ds_state s))"
  using assms
  by (auto simp: de_step_def ds_context_cases dest: de_decode_at_length split: if_splits)

lemma de_step_lifecycle:
  assumes "de_step C H input eof m eng s = (q, eng', s')"
  shows "de_lifecycle eng' = de_lifecycle eng"
  using assms
  by (auto simp: de_step_def de_decode_at_def and_then_case Let_def dest: decode_one_lifecycle
      split: prod.splits res.splits if_splits)

lemma de_transcode_report:
  assumes "de_transcode_with_eof C H eng input i out j eof = (Ok p, eng', out')"
    and "length input \<le> usize_max" "length out \<le> usize_max"
  shows "valid_progress p i (length input - i) j (length out - j) \<and>
    (eof \<longrightarrow> \<not> is_need_input p) \<and> length out' = length out"
proof -
  let ?s = "ds_new input i out j"
  obtain eng1 s' m where idx: "i \<le> length input" "j \<le> length out"
    and loop: "de_transcode_loop C H input eof m eng1 ?s = (Ok p, eng', s')"
      "out' = ts_output (ds_state s')"
    using assms(1) by (auto simp: de_transcode_with_eof_def run_simps check_simps
        split: prod.splits simp del: split_paired_Ex)
  let ?P = "\<lambda>_ s. same_frame (ds_state ?s) (ds_state s) \<and> cursors_ok (ds_state s)"
  have start: "?P eng1 ?s" using idx by (simp add: ds_new_def)
  have keep: "?P e' t'" if "?P e t" "ds_has_input t"
      "de_step C H input eof m e t = (Ok None, e', t')" for e t e' t'
    using that de_step_Ok [OF that(3)] by (auto intro: same_frame_trans de_turn_frame de_turn_cursors)
  have frame: "ts_input (ds_state t) = input" "length (ts_output (ds_state t)) = length out"
    "ts_input_start (ds_state t) = i" "ts_output_start (ds_state t) = j" "cursors_ok (ds_state t)"
    if "?P e t" for e t
    using that by (auto simp: same_frame_def ds_new_def ts_new_def)
  have "?P eng' s' \<and> \<not> ds_has_input s' \<and> p = ds_complete_progress s' \<or>
    (\<exists>e t. ?P e t \<and> ds_has_input t \<and> de_step C H input eof m e t = (Ok (Some p), eng', s'))"
    by (rule de_loop.loop_Ok [where P = ?P, OF loop(1) start]) (rule keep)
  then show ?thesis
  proof (elim disjE conjE exE)
    assume "same_frame (ds_state ?s) (ds_state s')" "cursors_ok (ds_state s')"
      and "\<not> ds_has_input s'" "p = ds_complete_progress s'"
    with frame [of s', OF conjI [OF this(1,2)]] complete_progress_valid [of "ds_state s'"]
      assms(2,3) loop(2)
    show ?thesis by (simp add: ds_defs) (simp add: ts_defs progress_defs)
  next
    fix e t
    assume t: "same_frame (ds_state ?s) (ds_state t)" "cursors_ok (ds_state t)"
      and st: "de_step C H input eof m e t = (Ok (Some p), eng', s')"
    note f = frame [of t, OF conjI [OF t]]
    from de_step_Ok [OF st] have s': "s' = t"
      and "\<not> eof \<and> (\<exists>req. ds_available t < nz_get req \<and> p = ds_need_input_progress_with t req) \<or>
        ds_needs_output t \<and> p = ds_need_output_progress t"
      by (auto simp: de_turn_def)
    from this(2) show ?thesis
    proof (elim disjE conjE exE)
      fix req assume "\<not> eof" "ds_available t < nz_get req" "p = ds_need_input_progress_with t req"
      with need_input_progress_valid [of "ds_state t" req] f assms(2,3) loop(2) s'
      show ?thesis by (simp add: ds_defs)
    next
      assume "ds_needs_output t" "p = ds_need_output_progress t"
      with need_output_progress_valid [of "ds_state t" nz_min] f assms(2,3) loop(2) s'
      show ?thesis
        by (simp add: ds_defs ts_needs_output_def ts_available_output_def saturating_sub_def)
          (simp add: ts_defs progress_defs)
    qed
  qed
qed

text \<open>For every codec and every hook: a report that \<open>TranscodeDecodeEngine\<close> returns from
  \<open>transcode\<close> or \<open>transcode_eof\<close> satisfies the progress contract for the slices and
  indices of the call; a call at end of input never asks for more input, so an incomplete tail
  is always settled by the incomplete-input policy.\<close>

theorem decode_transcode_reports_valid:
  assumes "de_transcode_with_eof C H eng input i out j eof = (Ok p, eng', out')"
    and "length input \<le> usize_max" "length out \<le> usize_max"
  shows "valid_progress p i (length input - i) j (length out - j) \<and>
    (eof \<longrightarrow> \<not> is_need_input p) \<and> length out' = length out"
  using assms by (rule de_transcode_report)

lemma de_transcode_length [slice_len]:
  assumes "de_transcode_with_eof C H eng input i out j eof = (r, eng', out')"
  shows "length out' = length out"
proof -
  have keep: "length (ts_output (ds_state s')) = length out"
    if "de_transcode_loop C H input eof m e (ds_new input i out j) = (q, e', s')" for m e q e' s'
    by (rule de_loop.loop_rule [where P = "\<lambda>_ s. length (ts_output (ds_state s)) = length out", OF that])
      (auto dest: de_step_length simp: ds_new_def ts_new_def)
  from assms show ?thesis
    by (auto simp: de_transcode_with_eof_def and_then_case dest: keep split: prod.splits res.splits)
qed

section \<open>The lifecycle of a decode engine\<close>

abbreviation de_phase :: "('c, 'h) decode_engine \<Rightarrow> lifecycle_phase" where
  "de_phase eng \<equiv> guard_phase (de_lifecycle eng)"

text \<open>Whether the preflight checks of \<open>reset\<close> and \<open>finish\<close> let the call start.\<close>

definition de_reset_accepted ::
  "('c, 'v, 'u, 'de, 'ee) codec \<Rightarrow> 'v list \<Rightarrow> nat \<Rightarrow> bool" where
  "de_reset_accepted C out j \<longleftrightarrow> j + max_decode_reset_values C \<le> length out"

definition de_finish_accepted ::
  "('c, 'v, 'u, 'de, 'ee) codec \<Rightarrow> ('h, 'c, 'v, 'de) decode_hooks \<Rightarrow>
   ('c, 'h) decode_engine \<Rightarrow> 'v list \<Rightarrow> nat \<Rightarrow> bool" where
  "de_finish_accepted C H eng out j \<longleftrightarrow>
     stream_phase (de_phase eng) \<and>
     (\<exists>m. de_max_finish_output_len C H eng = Ok m \<and> j + m \<le> length out)"

lemma add_decode_output_bounds_Ok [simp]:
  "add_decode_output_bounds a b = Ok m \<longleftrightarrow> checked_add a b = Some m"
  by (simp add: add_decode_output_bounds_def)

lemma de_reset_rejected:
  assumes "\<not> de_reset_accepted C out j"
  shows "\<exists>e. de_reset C H eng out j = (Err (DecodeFailed e), eng, out)"
proof -
  obtain e where "ensure_output_capacity (length out) j (max_decode_reset_values C) = Err e"
    using assms check_simps
    by (cases "ensure_output_capacity (length out) j (max_decode_reset_values C)")
      (auto simp: de_reset_accepted_def)
  then show ?thesis by (auto simp: de_reset_def de_max_reset_output_len_def)
qed

lemma de_finish_rejected:
  assumes "\<not> de_finish_accepted C H eng out j"
  shows "\<exists>e. de_finish C H eng out j = (Err (DecodeFailed e), eng, out)"
proof (cases "on_finish_attempt (de_lifecycle eng)")
  case (Ok u)
  let ?r = "dh_max_finish_output_len H (de_hooks eng) (de_codec eng)"
  show ?thesis
  proof (cases "checked_add (max_decode_finish_values C) ?r")
    case None
    with Ok show ?thesis by (auto simp: de_finish_def decode_of_capacity_def)
  next
    case (Some m)
    with Ok assms obtain e where "ensure_output_capacity (length out) j m = Err e"
      using check_simps by (cases "ensure_output_capacity (length out) j m")
        (auto simp: de_finish_accepted_def de_max_finish_output_len_def on_finish_attempt_Ok)
    with Ok Some show ?thesis by (auto simp: de_finish_def)
  qed
qed (auto simp: de_finish_def)

lemma de_reset_length [slice_len]:
  assumes "de_reset C H eng out j = (r, eng', out')"
  shows "length out' = length out"
  using assms
  by (auto simp: de_reset_def and_then_case Let_def dest!: slice_len
      split: prod.splits option.splits res.splits if_splits)

lemma de_finish_length [slice_len]:
  assumes "de_finish C H eng out j = (r, eng', out')"
  shows "length out' = length out"
  using assms
  by (auto simp: de_finish_def and_then_case Let_def dest!: slice_len slice_call_length
      split: prod.splits option.splits res.splits if_splits)

lemma de_reset_phase:
  assumes "de_reset C H eng out j = (r, eng', out')"
  shows "phase_step (de_phase eng) (reset_label (de_reset_accepted C out j) r) (de_phase eng')"
proof (cases "de_reset_accepted C out j")
  case False
  from de_reset_rejected [OF this, of H eng] assms False show ?thesis by auto
next
  case True
  then have "ensure_output_capacity (length out) j (max_decode_reset_values C) = Ok ()"
    by (simp add: check_simps de_reset_accepted_def)
  with assms True show ?thesis
    by (cases r) (auto simp: de_reset_def de_max_reset_output_len_def guard_defs Let_def
        and_then_case split: prod.splits option.splits res.splits if_splits)
qed

lemma de_finish_phase:
  assumes "de_finish C H eng out j = (r, eng', out')"
  shows "phase_step (de_phase eng) (finish_label (de_finish_accepted C H eng out j) r) (de_phase eng')"
proof (cases "de_finish_accepted C H eng out j")
  case False
  from de_finish_rejected [OF this] assms False show ?thesis by auto
next
  case True
  then obtain m where m: "de_max_finish_output_len C H eng = Ok m" "j + m \<le> length out"
    and ph: "stream_phase (de_phase eng)" by (auto simp: de_finish_accepted_def)
  then have 1: "checked_add (max_decode_finish_values C)
      (dh_max_finish_output_len H (de_hooks eng) (de_codec eng)) = Some m"
    "ensure_output_capacity (length out) j m = Ok ()"
    "on_finish_attempt (de_lifecycle eng) = Ok ()"
    by (simp_all add: de_max_finish_output_len_def check_simps on_finish_attempt_Ok)
  show ?thesis
    using assms True 1 ph
    by (cases r) (auto simp: de_finish_def guard_defs Let_def
        and_then_case split: prod.splits option.splits res.splits if_splits)
qed

lemma de_transcode_rejected:
  assumes "\<not> stream_phase (de_phase eng)"
  shows "\<exists>e. de_transcode_with_eof C H eng input i out j eof = (Err (DecodeFailed e), eng, out)"
  using assms by (cases "de_lifecycle eng" rule: on_transcode_cases) (auto simp: de_transcode_with_eof_def)

lemma de_transcode_phase:
  assumes "de_transcode_with_eof C H eng input i out j eof = (r, eng', out')"
  shows "phase_step (de_phase eng) (transcode_label (de_phase eng)) (de_phase eng')"
proof (cases "stream_phase (de_phase eng)")
  case False
  from de_transcode_rejected [OF this, of C H input i out j eof] assms False show ?thesis by auto
next
  case True
  let ?g = "(de_lifecycle eng)\<lparr>guard_phase := Streaming\<rparr>"
  have keep: "de_lifecycle e' = ?g"
    if "de_transcode_loop C H input eof m (eng\<lparr>de_lifecycle := ?g\<rparr>) s = (q, e', s')" for m q e' s s'
    by (rule de_loop.loop_rule [where P = "\<lambda>e s. de_lifecycle e = ?g", OF that])
      (auto dest: de_step_lifecycle)
  from assms True keep show ?thesis
    by (cases "de_lifecycle eng" rule: on_transcode_cases)
      (auto simp: de_transcode_with_eof_def and_then_case split: prod.splits res.splits)
qed

text \<open>Public calls on a decode engine, with their labels. Reading and changing the codec or
  the hooks through their accessors leaves the guard alone.\<close>

inductive decode_call ::
  "('c, 'v, 'u, 'de, 'ee) codec \<Rightarrow> ('h, 'c, 'v, 'de) decode_hooks \<Rightarrow>
   ('c, 'h) decode_engine \<Rightarrow> lifecycle_call \<Rightarrow> ('c, 'h) decode_engine \<Rightarrow> bool" for C H where
  call_reset: "de_reset C H eng out j = (r, eng', out') \<Longrightarrow>
    decode_call C H eng (reset_label (de_reset_accepted C out j) r) eng'"
| call_transcode: "de_transcode C H eng input i out j = (r, eng', out') \<Longrightarrow>
    decode_call C H eng (transcode_label (de_phase eng)) eng'"
| call_transcode_eof: "de_transcode_eof C H eng input i out j = (r, eng', out') \<Longrightarrow>
    decode_call C H eng (transcode_label (de_phase eng)) eng'"
| call_finish: "de_finish C H eng out j = (r, eng', out') \<Longrightarrow>
    decode_call C H eng (finish_label (de_finish_accepted C H eng out j) r) eng'"

definition decode_fresh :: "('c, 'v, 'u, 'de, 'ee) codec \<Rightarrow> ('c, 'h) decode_engine \<Rightarrow> bool" where
  "decode_fresh C eng \<longleftrightarrow> (de_new C (de_codec eng) (de_hooks eng) :: (unit, _) res) = Ok eng"

interpretation dec: guarded_engine "decode_fresh C" "decode_call C H" de_phase for C H
  by unfold_locales
    (auto simp: decode_fresh_def de_new_def bind_res_eq_Ok guard_defs
      dest!: arg_cong [where f = de_phase]
      elim!: decode_call.cases dest: de_reset_phase de_finish_phase
      dest: de_transcode_phase [of C H _ _ _ _ _ False, folded de_transcode_def]
        de_transcode_phase [of C H _ _ _ _ _ True, folded de_transcode_eof_def]
      simp del: reset_label.simps transcode_label.simps finish_label.simps)

end
