(* ===== verification/ConvertEngine.thy ===== *)
theory ConvertEngine
  imports EncodeEngine DecodeEngine
begin

text \<open>
  \<open>TranscodeConvertEngine\<close> (\<open>src/transcode/engine/transcode_convert_engine.rs\<close>): a
  decoder and an encoder joined by a slot for at most one decoded value that found no room in
  the output (\<open>PendingValue\<close>, \<open>PendingValueSlot\<close>). The lemmas hold for every pair of
  codecs and hooks: termination of the loop, valid reports, and where a decoded value is when
  a call returns.

  The engine's type parameters are one record, \<open>converter_traits\<close>: the two codecs, the two
  hooks, \<open>D::Value::default\<close>, and \<open>try_reserve_vec\<close> of the crate \<open>qubit_utils\<close> as
  the predicate telling for which lengths an allocation succeeds.
\<close>

section \<open>Pending values\<close>

record 'v pending_value =
  pv_value :: 'v
  pv_input_index :: nat

definition pv_new :: "'v \<Rightarrow> nat \<Rightarrow> 'v pending_value" where
  "pv_new v input_index = \<lparr>pv_value = v, pv_input_index = input_index\<rparr>"

record 'v pending_value_slot =
  slot_value :: "'v pending_value option"

definition slot_empty :: "'v pending_value_slot" where
  "slot_empty = \<lparr>slot_value = None\<rparr>"

definition slot_current_output_len ::
  "('h, 'c, 'v, 'u, 'ee) encode_hooks \<Rightarrow> ('c, 'h) encode_engine \<Rightarrow> 'v pending_value_slot \<Rightarrow>
   nat capacity" where
  "slot_current_output_len H eng slot =
    (if slot_value slot \<noteq> None then ee_max_transcode_output_len H eng 1 else Ok 0)"

definition slot_put :: "'v pending_value_slot \<Rightarrow> 'v pending_value \<Rightarrow> 'v pending_value_slot" where
  "slot_put slot pending = slot\<lparr>slot_value := Some pending\<rparr>"

definition slot_take ::
  "'v pending_value_slot \<Rightarrow> 'v pending_value option \<times> 'v pending_value_slot" where
  "slot_take slot = (slot_value slot, slot\<lparr>slot_value := None\<rparr>)"

definition slot_clear :: "'v pending_value_slot \<Rightarrow> 'v pending_value_slot" where
  "slot_clear slot = slot\<lparr>slot_value := None\<rparr>"

lemmas slot_defs = pv_new_def slot_empty_def slot_put_def slot_take_def slot_clear_def

section \<open>The engine\<close>

record ('cd, 'hd, 'ce, 'he, 'v, 'i, 'o, 'de, 'x, 'y, 'ee) converter_traits =
  src_codec :: "('cd, 'v, 'i, 'de, 'x) codec"
  src_hooks :: "('hd, 'cd, 'v, 'de) decode_hooks"
  tgt_codec :: "('ce, 'v, 'o, 'y, 'ee) codec"
  tgt_hooks :: "('he, 'ce, 'v, 'o, 'ee) encode_hooks"
  value_default :: 'v
  try_reserve :: "nat \<Rightarrow> bool"

record ('cd, 'hd, 'ce, 'he, 'v) convert_engine =
  cv_decode_engine :: "('cd, 'hd) decode_engine"
  cv_encode_engine :: "('ce, 'he) encode_engine"
  cv_pending :: "'v pending_value_slot"
  cv_lifecycle :: lifecycle_guard

definition add_convert_output_bounds :: "nat \<Rightarrow> nat \<Rightarrow> nat capacity" where
  "add_convert_output_bounds x y = ok_or CapacityOutputLengthOverflow (checked_add x y)"

definition sum_convert_output_bounds :: "nat \<Rightarrow> nat \<Rightarrow> nat \<Rightarrow> nat capacity" where
  "sum_convert_output_bounds x y z =
    bind_res (add_convert_output_bounds x y) (\<lambda>partial. add_convert_output_bounds partial z)"

fun assert_reserved_output_drained :: "transcode_progress option \<Rightarrow> ('e, unit) res" where
  "assert_reserved_output_drained None = Ok ()"
| "assert_reserved_output_drained (Some _) = Panic"

definition cv_new ::
  "('cd, 'hd, 'ce, 'he, 'v, 'i, 'o, 'de, 'x, 'y, 'ee) converter_traits \<Rightarrow> 'cd \<Rightarrow> 'ce \<Rightarrow>
   'hd \<Rightarrow> 'he \<Rightarrow> ('e, ('cd, 'hd, 'ce, 'he, 'v) convert_engine) res" where
  "cv_new K decoder encoder decode_hooks encode_hooks =
    bind_res (assert_unit_bounds (src_codec K)) (\<lambda>_.
    bind_res (assert_unit_bounds (tgt_codec K)) (\<lambda>_.
    bind_res (de_new (src_codec K) decoder decode_hooks) (\<lambda>dec.
    bind_res (ee_new (tgt_codec K) encoder encode_hooks) (\<lambda>enc.
      Ok \<lparr>cv_decode_engine = dec, cv_encode_engine = enc, cv_pending = slot_empty,
          cv_lifecycle = guard_new\<rparr>))))"

definition cv_max_transcode_output_len ::
  "('cd, 'hd, 'ce, 'he, 'v, 'i, 'o, 'de, 'x, 'y, 'ee) converter_traits \<Rightarrow>
   ('cd, 'hd, 'ce, 'he, 'v) convert_engine \<Rightarrow> nat \<Rightarrow> nat capacity" where
  "cv_max_transcode_output_len K eng input_len =
    bind_res (ee_max_transcode_output_len (tgt_hooks K) (cv_encode_engine eng) 1)
      (\<lambda>pending_units.
    bind_res (de_max_transcode_output_len (src_hooks K) (cv_decode_engine eng) input_len)
      (\<lambda>decoded_values.
    bind_res (ee_max_transcode_output_len (tgt_hooks K) (cv_encode_engine eng) decoded_values)
      (\<lambda>converted_units. add_convert_output_bounds converted_units pending_units)))"

definition cv_max_reset_output_len ::
  "('cd, 'hd, 'ce, 'he, 'v, 'i, 'o, 'de, 'x, 'y, 'ee) converter_traits \<Rightarrow>
   ('cd, 'hd, 'ce, 'he, 'v) convert_engine \<Rightarrow> nat capacity" where
  "cv_max_reset_output_len K eng =
    bind_res (ee_max_transcode_output_len (tgt_hooks K) (cv_encode_engine eng)
        (max_decode_reset_values (src_codec K)))
      (\<lambda>decode_reset_units.
        add_convert_output_bounds decode_reset_units (max_encode_reset_units (tgt_codec K)))"

text \<open>The finish bound once the part for a pending value is given.\<close>

definition cv_finish_output_len ::
  "('cd, 'hd, 'ce, 'he, 'v, 'i, 'o, 'de, 'x, 'y, 'ee) converter_traits \<Rightarrow>
   ('cd, 'hd, 'ce, 'he, 'v) convert_engine \<Rightarrow> nat capacity \<Rightarrow> nat capacity" where
  "cv_finish_output_len K eng pending_part =
    bind_res pending_part (\<lambda>pending_units.
    bind_res (de_max_finish_output_len (src_codec K) (src_hooks K) (cv_decode_engine eng))
      (\<lambda>decoder_finish_values.
    bind_res (ee_max_transcode_output_len (tgt_hooks K) (cv_encode_engine eng)
        decoder_finish_values) (\<lambda>decoder_finish_units.
    bind_res (ee_max_finish_output_len (tgt_codec K) (tgt_hooks K) (cv_encode_engine eng))
      (\<lambda>encoder_finish_units.
        sum_convert_output_bounds pending_units decoder_finish_units encoder_finish_units))))"

definition cv_max_finish_output_len ::
  "('cd, 'hd, 'ce, 'he, 'v, 'i, 'o, 'de, 'x, 'y, 'ee) converter_traits \<Rightarrow>
   ('cd, 'hd, 'ce, 'he, 'v) convert_engine \<Rightarrow> nat capacity" where
  "cv_max_finish_output_len K eng =
    cv_finish_output_len K eng (ee_max_transcode_output_len (tgt_hooks K) (cv_encode_engine eng) 1)"

definition cv_current_finish_output_len ::
  "('cd, 'hd, 'ce, 'he, 'v, 'i, 'o, 'de, 'x, 'y, 'ee) converter_traits \<Rightarrow>
   ('cd, 'hd, 'ce, 'he, 'v) convert_engine \<Rightarrow> nat capacity" where
  "cv_current_finish_output_len K eng =
    cv_finish_output_len K eng
      (slot_current_output_len (tgt_hooks K) (cv_encode_engine eng) (cv_pending eng))"

definition cv_max_total_output_len ::
  "('cd, 'hd, 'ce, 'he, 'v, 'i, 'o, 'de, 'x, 'y, 'ee) converter_traits \<Rightarrow>
   ('cd, 'hd, 'ce, 'he, 'v) convert_engine \<Rightarrow> nat \<Rightarrow> nat capacity" where
  "cv_max_total_output_len K eng input_len =
    bind_res (cv_max_reset_output_len K eng) (\<lambda>reset_len.
    bind_res (cv_max_transcode_output_len K eng input_len) (\<lambda>transcode_len.
    bind_res (cv_max_finish_output_len K eng) (\<lambda>finish_len.
      sum_convert_output_bounds reset_len transcode_len finish_len)))"

section \<open>Moving values from the decoder to the encoder\<close>

text \<open>\<open>encode_pending\<close>: one value to the encoder; it returns to the slot when the output has
  no room for it, and travels in the error when it cannot be encoded.\<close>

definition cv_encode_pending ::
  "('cd, 'hd, 'ce, 'he, 'v, 'i, 'o, 'de, 'x, 'y, 'ee) converter_traits \<Rightarrow> 'v pending_value \<Rightarrow>
   ('cd, 'hd, 'ce, 'he, 'v) convert_engine \<Rightarrow> ('i, 'o) convert_state \<Rightarrow>
   (('de, 'ee, 'v) convert_error, transcode_progress option) res \<times>
   ('cd, 'hd, 'ce, 'he, 'v) convert_engine \<times> ('i, 'o) convert_state" where
  "cv_encode_pending K pending eng s =
    (let attempt = ea_new (pv_value pending) (pv_input_index pending)
                     (ts_output (cs_state s)) (ts_output_cursor (cs_state s)) in
     case encode_one (tgt_codec K) (tgt_hooks K) (cv_encode_engine eng) attempt of
       (r, enc', out') \<Rightarrow>
         let eng = eng\<lparr>cv_encode_engine := enc'\<rparr>; s = cs_set_output s out' in
         and_then (map_err (\<lambda>e. from_encode_error_with_value e (pv_value pending)) r, eng, s)
           (\<lambda>oc (eng, s).
           case cs_apply_encode_outcome s oc of (q, s') \<Rightarrow>
             and_then (q, eng, s') (\<lambda>progress (eng, s).
               if progress \<noteq> None
               then (Ok progress, eng\<lparr>cv_pending := slot_put (cv_pending eng) pending\<rparr>, s)
               else (Ok progress, eng, s))))"

definition cv_drain_pending ::
  "('cd, 'hd, 'ce, 'he, 'v, 'i, 'o, 'de, 'x, 'y, 'ee) converter_traits \<Rightarrow>
   ('cd, 'hd, 'ce, 'he, 'v) convert_engine \<Rightarrow> ('i, 'o) convert_state \<Rightarrow>
   (('de, 'ee, 'v) convert_error, transcode_progress option) res \<times>
   ('cd, 'hd, 'ce, 'he, 'v) convert_engine \<times> ('i, 'o) convert_state" where
  "cv_drain_pending K eng s =
    (case slot_take (cv_pending eng) of (p, slot) \<Rightarrow>
      let eng = eng\<lparr>cv_pending := slot\<rparr> in
      case p of
        None \<Rightarrow> (Ok None, eng, s)
      | Some pending \<Rightarrow> cv_encode_pending K pending eng s)"

definition cv_convert_next ::
  "('cd, 'hd, 'ce, 'he, 'v, 'i, 'o, 'de, 'x, 'y, 'ee) converter_traits \<Rightarrow> bool \<Rightarrow>
   ('cd, 'hd, 'ce, 'he, 'v) convert_engine \<Rightarrow> ('i, 'o) convert_state \<Rightarrow>
   (('de, 'ee, 'v) convert_error, transcode_progress option) res \<times>
   ('cd, 'hd, 'ce, 'he, 'v) convert_engine \<times> ('i, 'o) convert_state" where
  "cv_convert_next K end_of_input eng s =
    and_then (cs_decode_context s, eng, s) (\<lambda>ctx (eng, s).
    case decode_one (src_codec K) (src_hooks K) (cv_decode_engine eng) (ts_input (cs_state s)) ctx
           end_of_input pv_new of
      (r, dec') \<Rightarrow>
        and_then (map_err convert_of_decode r, eng\<lparr>cv_decode_engine := dec'\<rparr>, s)
          (\<lambda>(outcome, pending) (eng, s).
          let eng = (case pending of
                       Some p \<Rightarrow> eng\<lparr>cv_pending := slot_put (cv_pending eng) p\<rparr>
                     | None \<Rightarrow> eng) in
          case cs_apply_decode_outcome s outcome of (q, s') \<Rightarrow>
            and_then (q, eng, s') (\<lambda>progress (eng, s).
              case progress of
                Some p \<Rightarrow> (Ok (Some p), eng, s)
              | None \<Rightarrow> cv_drain_pending K eng s)))"

text \<open>The decoded values of a reset or finish, one after the other, into reserved output.\<close>

fun cv_encode_values ::
  "('cd, 'hd, 'ce, 'he, 'v, 'i, 'o, 'de, 'x, 'y, 'ee) converter_traits \<Rightarrow> 'v list \<Rightarrow>
   ('cd, 'hd, 'ce, 'he, 'v) convert_engine \<Rightarrow> ('i, 'o) convert_state \<Rightarrow>
   (('de, 'ee, 'v) convert_error, unit) res \<times>
   ('cd, 'hd, 'ce, 'he, 'v) convert_engine \<times> ('i, 'o) convert_state" where
  "cv_encode_values K [] eng s = (Ok (), eng, s)"
| "cv_encode_values K (v # vs) eng s =
    and_then (cv_encode_pending K (pv_new v 0) eng s) (\<lambda>progress (eng, s).
    and_then (assert_reserved_output_drained progress, eng, s) (\<lambda>_ (eng, s).
      cv_encode_values K vs eng s))"

definition cv_drain_decoder_reset ::
  "('cd, 'hd, 'ce, 'he, 'v, 'i, 'o, 'de, 'x, 'y, 'ee) converter_traits \<Rightarrow>
   ('cd, 'hd, 'ce, 'he, 'v) convert_engine \<Rightarrow> ('i, 'o) convert_state \<Rightarrow>
   (('de, 'ee, 'v) convert_error, unit) res \<times>
   ('cd, 'hd, 'ce, 'he, 'v) convert_engine \<times> ('i, 'o) convert_state" where
  "cv_drain_decoder_reset K eng s =
    (let value_count = max_decode_reset_values (src_codec K) in
     if value_count = 0 then
       (case de_reset (src_codec K) (src_hooks K) (cv_decode_engine eng) [] 0 of
          (r, dec', _) \<Rightarrow>
            and_then (map_err convert_of_decode r, eng\<lparr>cv_decode_engine := dec'\<rparr>, s)
              (\<lambda>_ (eng, s). (Ok (), eng, s)))
     else if \<not> try_reserve K value_count then (Err (ConvertFailure AllocationFailed), eng, s)
     else
       (case de_reset (src_codec K) (src_hooks K) (cv_decode_engine eng)
               (replicate value_count (value_default K)) 0 of
          (r, dec', reset_values) \<Rightarrow>
            and_then (map_err convert_of_decode r, eng\<lparr>cv_decode_engine := dec'\<rparr>, s)
              (\<lambda>wr (eng, s). cv_encode_values K (take wr reset_values) eng s)))"

definition cv_drain_decoder_finish ::
  "('cd, 'hd, 'ce, 'he, 'v, 'i, 'o, 'de, 'x, 'y, 'ee) converter_traits \<Rightarrow>
   ('cd, 'hd, 'ce, 'he, 'v) convert_engine \<Rightarrow> ('i, 'o) convert_state \<Rightarrow>
   (('de, 'ee, 'v) convert_error, unit) res \<times>
   ('cd, 'hd, 'ce, 'he, 'v) convert_engine \<times> ('i, 'o) convert_state" where
  "cv_drain_decoder_finish K eng s =
    and_then (map_err convert_of_capacity
        (de_max_finish_output_len (src_codec K) (src_hooks K) (cv_decode_engine eng)), eng, s)
      (\<lambda>value_count (eng, s).
     if value_count = 0 then
       (case de_finish (src_codec K) (src_hooks K) (cv_decode_engine eng) [] 0 of
          (r, dec', _) \<Rightarrow>
            and_then (map_err convert_of_decode r, eng\<lparr>cv_decode_engine := dec'\<rparr>, s)
              (\<lambda>_ (eng, s). (Ok (), eng, s)))
     else if \<not> try_reserve K value_count then (Err (ConvertFailure AllocationFailed), eng, s)
     else
       (case de_finish (src_codec K) (src_hooks K) (cv_decode_engine eng)
               (replicate value_count (value_default K)) 0 of
          (r, dec', decoded) \<Rightarrow>
            and_then (map_err convert_of_decode r, eng\<lparr>cv_decode_engine := dec'\<rparr>, s)
              (\<lambda>wr (eng, s). cv_encode_values K (take wr decoded) eng s)))"

section \<open>Lifecycle operations\<close>

text \<open>A nested call of the encoder on the output of the state: its result advances the output
  cursor.\<close>

definition cv_encoder_call ::
  "((('ee, 'v) encode_error, nat) res \<times> ('ce, 'he) encode_engine \<times> 'o list) \<Rightarrow>
   ('cd, 'hd, 'ce, 'he, 'v) convert_engine \<Rightarrow> ('i, 'o) convert_state \<Rightarrow>
   (('de, 'ee, 'v) convert_error, unit) res \<times>
   ('cd, 'hd, 'ce, 'he, 'v) convert_engine \<times> ('i, 'o) convert_state" where
  "cv_encoder_call call eng s =
    (case call of (r, enc', out') \<Rightarrow>
      and_then (map_err convert_of_encode r, eng\<lparr>cv_encode_engine := enc'\<rparr>, cs_set_output s out')
        (\<lambda>wr (eng, s). case cs_advance_output s wr of (q, s') \<Rightarrow> (q, eng, s')))"

definition cv_reset ::
  "('cd, 'hd, 'ce, 'he, 'v, 'i, 'o, 'de, 'x, 'y, 'ee) converter_traits \<Rightarrow>
   ('cd, 'hd, 'ce, 'he, 'v) convert_engine \<Rightarrow> 'o list \<Rightarrow> nat \<Rightarrow>
   (('de, 'ee, 'v) convert_error, nat) res \<times> ('cd, 'hd, 'ce, 'he, 'v) convert_engine \<times> 'o list" where
  "cv_reset K eng out output_index =
    and_then (map_err convert_of_capacity (cv_max_reset_output_len K eng), eng, out)
      (\<lambda>required (eng, out).
    and_then (map_err ConvertFailure (ensure_output_capacity (length out) output_index required),
              eng, out) (\<lambda>_ (eng, out).
    let eng = eng\<lparr>cv_lifecycle := on_reset_start (cv_lifecycle eng),
                  cv_pending := slot_clear (cv_pending eng)\<rparr>;
        s = cs_new [] 0 out output_index in
    case
      (and_then
        (cv_encoder_call
          (ee_reset (tgt_codec K) (tgt_hooks K) (cv_encode_engine eng) (ts_output (cs_state s))
            (ts_output_cursor (cs_state s))) eng s)
        (\<lambda>_ (eng, s).
      and_then (cv_drain_decoder_reset K eng s) (\<lambda>_ (eng, s).
        (Ok (ts_written (cs_state s)),
         eng\<lparr>cv_lifecycle := on_reset_success (cv_lifecycle eng)\<rparr>, s)))) of
      (r, eng', s') \<Rightarrow> (r, eng', ts_output (cs_state s'))))"

text \<open>The body of the loop of \<open>transcode_with_eof\<close>.\<close>

definition cv_step ::
  "('cd, 'hd, 'ce, 'he, 'v, 'i, 'o, 'de, 'x, 'y, 'ee) converter_traits \<Rightarrow> bool \<Rightarrow> nonzero \<Rightarrow>
   ('cd, 'hd, 'ce, 'he, 'v) convert_engine \<Rightarrow> ('i, 'o) convert_state \<Rightarrow>
   (('de, 'ee, 'v) convert_error, transcode_progress option) res \<times>
   ('cd, 'hd, 'ce, 'he, 'v) convert_engine \<times> ('i, 'o) convert_state" where
  "cv_step K end_of_input min_input_units eng s =
    (if cs_available_input s < nz_get min_input_units \<and> \<not> end_of_input
     then (Ok (Some (ts_need_input_progress (cs_state s) min_input_units)), eng, s)
     else cv_convert_next K end_of_input eng s)"

text \<open>What encoding a pending value changes: never the input, the decoder or the guard.\<close>

definition cv_same_source ::
  "('cd, 'hd, 'ce, 'he, 'v) convert_engine \<Rightarrow> ('i, 'o) convert_state \<Rightarrow>
   ('cd, 'hd, 'ce, 'he, 'v) convert_engine \<Rightarrow> ('i, 'o) convert_state \<Rightarrow> bool" where
  "cv_same_source eng s eng' s' \<longleftrightarrow>
     cv_decode_engine eng' = cv_decode_engine eng \<and> cv_lifecycle eng' = cv_lifecycle eng \<and>
     ee_lifecycle (cv_encode_engine eng') = ee_lifecycle (cv_encode_engine eng) \<and>
     same_frame (cs_state s) (cs_state s') \<and>
     ts_input_cursor (cs_state s') = ts_input_cursor (cs_state s) \<and>
     (cursors_ok (cs_state s) \<longrightarrow> cursors_ok (cs_state s'))"

lemma cv_encode_pending_frame:
  assumes "cv_encode_pending K p eng s = (r, eng', s')"
  shows "cv_same_source eng s eng' s'"
proof -
  let ?a = "ea_new (pv_value p) (pv_input_index p) (ts_output (cs_state s)) (ts_output_cursor (cs_state s))"
  obtain q enc out where one: "encode_one (tgt_codec K) (tgt_hooks K) (cv_encode_engine eng) ?a = (q, enc, out)"
    by (metis prod_cases3)
  have f: "length out = length (ts_output (cs_state s))" "ee_lifecycle enc = ee_lifecycle (cv_encode_engine eng)"
    using encode_one_frame [OF one] by (simp_all add: ea_new_def)
  show ?thesis
  proof (cases q)
    case (Ok oc)
    with assms one f show ?thesis
      by (cases oc) (auto simp: cv_encode_pending_def cv_same_source_def and_then_case Let_def
          cs_defs ts_defs same_frame_def cursors_ok_def split: if_splits)
  qed (use assms one f in \<open>auto simp: cv_encode_pending_def cv_same_source_def Let_def
        cs_defs ts_defs same_frame_def cursors_ok_def\<close>)
qed

lemma cv_drain_pending_frame:
  assumes "cv_drain_pending K eng s = (r, eng', s')"
  shows "cv_same_source eng s eng' s'"
  using assms
  by (cases "slot_value (cv_pending eng)")
    (auto simp: cv_drain_pending_def slot_defs cv_same_source_def Let_def
      dest!: cv_encode_pending_frame)

text \<open>The ways a turn of the converter goes: the decode step stops it, with an error or for lack
  of input; or it consumes input and the value in the slot, if any, goes to the encoder.\<close>

lemma cv_convert_next_cases:
  assumes "cv_convert_next K eof eng s = (r, eng', s')"
  obtains
    (stopped) dec where "\<nexists>x. r = Ok x" "s' = s" "eng' = eng\<lparr>cv_decode_engine := dec\<rparr>"
      "de_lifecycle dec = de_lifecycle (cv_decode_engine eng)"
  | (need_input) req dec where "\<not> eof" "cs_available_input s < nz_get req" "s' = s"
      "r = Ok (Some (ts_need_input_progress (cs_state s) req))" "eng' = eng\<lparr>cv_decode_engine := dec\<rparr>"
      "de_lifecycle dec = de_lifecycle (cv_decode_engine eng)"
  | (skipped) rd dec where "nz_get rd \<le> cs_available_input s"
      "cv_drain_pending K (eng\<lparr>cv_decode_engine := dec\<rparr>)
        (s\<lparr>cs_state := ts_advance_input (cs_state s) (nz_get rd)\<rparr>) = (r, eng', s')"
      "de_lifecycle dec = de_lifecycle (cv_decode_engine eng)"
  | (emitted) v rd dec where "nz_get rd \<le> cs_available_input s"
      "cv_drain_pending K (eng\<lparr>cv_decode_engine := dec,
          cv_pending := slot_put (cv_pending eng) (pv_new v (ts_input_cursor (cs_state s)))\<rparr>)
        (s\<lparr>cs_state := ts_advance_input (cs_state s) (nz_get rd)\<rparr>) = (r, eng', s')"
      "de_lifecycle dec = de_lifecycle (cv_decode_engine eng)"
proof (cases "ts_input_start (cs_state s) \<le> ts_input_cursor (cs_state s) \<and>
    ts_output_start (cs_state s) \<le> ts_output_cursor (cs_state s)")
  case False
  with assms stopped [of "cv_decode_engine eng"] show thesis
    by (auto simp: cv_convert_next_def cs_decode_context_cases)
next
  case True
  let ?ctx = "cursor_context (cs_state s)"
  obtain q dec where one: "decode_one (src_codec K) (src_hooks K) (cv_decode_engine eng)
      (ts_input (cs_state s)) ?ctx eof pv_new = (q, dec)"
    by (metis surj_pair)
  note life = decode_one_lifecycle [OF one]
  show thesis
  proof (cases q)
    case (Ok ox)
    obtain oc x where ox: "ox = (oc, x)" by (cases ox)
    note ok = decode_one_Ok [OF one [unfolded Ok ox]]
    have av: "dc_available ?ctx = cs_available_input s" by (simp add: cs_available_input_def)
    show thesis
    proof (cases oc)
      case (Emitted rd n)
      with ok have n: "n = nz_min" "nz_get rd \<le> cs_available_input s"
        and "\<exists>v. x = Some (pv_new v (ts_input_cursor (cs_state s)))"
        by (simp_all add: decode_outcome_ok_def cs_available_input_def)
      then obtain v where "x = Some (pv_new v (ts_input_cursor (cs_state s)))" by blast
      with n assms True one Ok ox Emitted life emitted [of rd v dec] show thesis
        by (auto simp: cv_convert_next_def cs_decode_context_cases cs_advance_input_def)
    next
      case (Skipped rd)
      with ok have "x = None" "nz_get rd \<le> cs_available_input s"
        by (simp_all add: decode_outcome_ok_def cs_available_input_def)
      with assms True one Ok ox Skipped life skipped [of rd dec] show thesis
        by (auto simp: cv_convert_next_def cs_decode_context_cases cs_advance_input_def)
    next
      case (DecodeNeedInput req)
      with ok have "x = None" "\<not> eof" "cs_available_input s < nz_get req"
        by (simp_all add: decode_outcome_ok_def cs_available_input_def)
      with assms True one Ok ox DecodeNeedInput life need_input [of req dec] show thesis
        by (auto simp: cv_convert_next_def cs_decode_context_cases)
    qed
  next
    case (Err e)
    with assms True one life stopped [of dec] show thesis
      by (auto simp: cv_convert_next_def cs_decode_context_cases)
  next
    case Panic
    with assms True one life stopped [of dec] show thesis
      by (auto simp: cv_convert_next_def cs_decode_context_cases)
  qed
qed

lemma cv_convert_next_progress:
  assumes "cv_convert_next K eof eng s = (Ok None, eng', s')" "cs_has_input s"
  shows "cs_available_input s' < cs_available_input s"
  using assms(1)
proof (cases rule: cv_convert_next_cases)
  case (skipped rd dec)
  from cv_drain_pending_frame [OF skipped(2)] skipped(1) show ?thesis
    by (auto simp: cv_same_source_def same_frame_def cs_defs ts_defs nz_sub_less)
next
  case (emitted v rd dec)
  from cv_drain_pending_frame [OF emitted(2)] emitted(1) show ?thesis
    by (auto simp: cv_same_source_def same_frame_def cs_defs ts_defs nz_sub_less)
qed simp_all

lemma cv_step_progress:
  assumes "cv_step K eof m eng s = (Ok None, eng', s')" "cs_has_input s"
  shows "cs_available_input s' < cs_available_input s"
  using assms by (auto simp: cv_step_def intro: cv_convert_next_progress split: if_splits)

function cv_transcode_loop ::
  "('cd, 'hd, 'ce, 'he, 'v, 'i, 'o, 'de, 'x, 'y, 'ee) converter_traits \<Rightarrow> bool \<Rightarrow> nonzero \<Rightarrow>
   ('cd, 'hd, 'ce, 'he, 'v) convert_engine \<Rightarrow> ('i, 'o) convert_state \<Rightarrow>
   (('de, 'ee, 'v) convert_error, transcode_progress) res \<times>
   ('cd, 'hd, 'ce, 'he, 'v) convert_engine \<times> ('i, 'o) convert_state" where
  "cv_transcode_loop K eof min_input_units eng s =
    (if \<not> cs_has_input s then (Ok (ts_complete_progress (cs_state s)), eng, s)
     else
       case cv_step K eof min_input_units eng s of
         (Ok None, eng', s') \<Rightarrow> cv_transcode_loop K eof min_input_units eng' s'
       | (Ok (Some p), eng', s') \<Rightarrow> (Ok p, eng', s')
       | (Err e, eng', s') \<Rightarrow> (Err e, eng', s')
       | (Panic, eng', s') \<Rightarrow> (Panic, eng', s'))"
  by pat_completeness auto
termination
  by (relation "measure (\<lambda>(K, eof, m, eng, s). cs_available_input s)")
    (auto intro: cv_step_progress [OF sym])

declare cv_transcode_loop.simps [simp del]

interpretation cv_loop: engine_loop cs_has_input "cv_step K eof m"
  "\<lambda>s. ts_complete_progress (cs_state s)" "cv_transcode_loop K eof m" cs_available_input
  for K eof m
  by unfold_locales (rule cv_transcode_loop.simps, rule cv_step_progress)

definition cv_transcode_with_eof ::
  "('cd, 'hd, 'ce, 'he, 'v, 'i, 'o, 'de, 'x, 'y, 'ee) converter_traits \<Rightarrow>
   ('cd, 'hd, 'ce, 'he, 'v) convert_engine \<Rightarrow> 'i list \<Rightarrow> nat \<Rightarrow> 'o list \<Rightarrow> nat \<Rightarrow> bool \<Rightarrow>
   (('de, 'ee, 'v) convert_error, transcode_progress) res \<times>
   ('cd, 'hd, 'ce, 'he, 'v) convert_engine \<times> 'o list" where
  "cv_transcode_with_eof K eng input input_index out output_index end_of_input =
    (case on_transcode (cv_lifecycle eng) of (g, guard) \<Rightarrow>
      and_then (map_err ConvertFailure g, eng\<lparr>cv_lifecycle := guard\<rparr>, out) (\<lambda>_ (eng, out).
      and_then (map_err ConvertFailure
          (ensure_transcode_indices (length input) input_index (length out) output_index), eng, out)
        (\<lambda>_ (eng, out).
      case
        (and_then (cv_drain_pending K eng (cs_new input input_index out output_index))
          (\<lambda>progress (eng, s).
          case progress of
            Some p \<Rightarrow> (Ok p, eng, s)
          | None \<Rightarrow>
              and_then (nz_expect (min_units_per_value (src_codec K)), eng, s)
                (\<lambda>min_input_units (eng, s).
                  cv_transcode_loop K end_of_input min_input_units eng s))) of
        (r, eng', s') \<Rightarrow> (r, eng', ts_output (cs_state s')))))"

definition cv_transcode ::
  "('cd, 'hd, 'ce, 'he, 'v, 'i, 'o, 'de, 'x, 'y, 'ee) converter_traits \<Rightarrow>
   ('cd, 'hd, 'ce, 'he, 'v) convert_engine \<Rightarrow> 'i list \<Rightarrow> nat \<Rightarrow> 'o list \<Rightarrow> nat \<Rightarrow>
   (('de, 'ee, 'v) convert_error, transcode_progress) res \<times>
   ('cd, 'hd, 'ce, 'he, 'v) convert_engine \<times> 'o list" where
  "cv_transcode K eng input input_index out output_index =
    cv_transcode_with_eof K eng input input_index out output_index False"

definition cv_transcode_eof ::
  "('cd, 'hd, 'ce, 'he, 'v, 'i, 'o, 'de, 'x, 'y, 'ee) converter_traits \<Rightarrow>
   ('cd, 'hd, 'ce, 'he, 'v) convert_engine \<Rightarrow> 'i list \<Rightarrow> nat \<Rightarrow> 'o list \<Rightarrow> nat \<Rightarrow>
   (('de, 'ee, 'v) convert_error, transcode_progress) res \<times>
   ('cd, 'hd, 'ce, 'he, 'v) convert_engine \<times> 'o list" where
  "cv_transcode_eof K eng input input_index out output_index =
    cv_transcode_with_eof K eng input input_index out output_index True"

definition cv_finish ::
  "('cd, 'hd, 'ce, 'he, 'v, 'i, 'o, 'de, 'x, 'y, 'ee) converter_traits \<Rightarrow>
   ('cd, 'hd, 'ce, 'he, 'v) convert_engine \<Rightarrow> 'o list \<Rightarrow> nat \<Rightarrow>
   (('de, 'ee, 'v) convert_error, nat) res \<times> ('cd, 'hd, 'ce, 'he, 'v) convert_engine \<times> 'o list" where
  "cv_finish K eng out output_index =
    and_then (map_err ConvertFailure (on_finish_attempt (cv_lifecycle eng)), eng, out)
      (\<lambda>_ (eng, out).
    and_then (map_err convert_of_capacity (cv_current_finish_output_len K eng), eng, out)
      (\<lambda>required (eng, out).
    and_then (map_err ConvertFailure (ensure_output_capacity (length out) output_index required),
              eng, out) (\<lambda>_ (eng, out).
    let eng = eng\<lparr>cv_lifecycle := on_finish_start (cv_lifecycle eng)\<rparr>;
        s = cs_new [] 0 out output_index in
    case
      (and_then (cv_drain_pending K eng s) (\<lambda>progress (eng, s).
      and_then (assert_reserved_output_drained progress, eng, s) (\<lambda>_ (eng, s).
      and_then (cv_drain_decoder_finish K eng s) (\<lambda>_ (eng, s).
      and_then
        (cv_encoder_call
          (ee_finish (tgt_codec K) (tgt_hooks K) (cv_encode_engine eng) (ts_output (cs_state s))
            (ts_output_cursor (cs_state s))) eng s)
        (\<lambda>_ (eng, s).
        (Ok (ts_written (cs_state s)),
         eng\<lparr>cv_lifecycle := on_finish_success (cv_lifecycle eng)\<rparr>, s)))))) of
      (r, eng', s') \<Rightarrow> (r, eng', ts_output (cs_state s')))))"

definition convert_transcoder ::
  "('cd, 'hd, 'ce, 'he, 'v, 'i, 'o, 'de, 'x, 'y, 'ee) converter_traits \<Rightarrow>
   (('cd, 'hd, 'ce, 'he, 'v) convert_engine, 'i, 'o, ('de, 'ee, 'v) convert_error) transcoder" where
  "convert_transcoder K =
    \<lparr>from_failure = ConvertFailure,
     max_reset_output_len = cv_max_reset_output_len K,
     max_transcode_output_len = cv_max_transcode_output_len K,
     max_finish_output_len = cv_max_finish_output_len K,
     tr_reset = cv_reset K,
     tr_transcode = cv_transcode K,
     tr_transcode_eof = cv_transcode_eof K,
     tr_finish = cv_finish K\<rparr>"

definition cv_transcode_complete_into ::
  "('cd, 'hd, 'ce, 'he, 'v, 'i, 'o, 'de, 'x, 'y, 'ee) converter_traits \<Rightarrow>
   ('cd, 'hd, 'ce, 'he, 'v) convert_engine \<Rightarrow> 'i list \<Rightarrow> 'o list \<Rightarrow>
   (('de, 'ee, 'v) convert_error, nat) res \<times> ('cd, 'hd, 'ce, 'he, 'v) convert_engine \<times> 'o list" where
  "cv_transcode_complete_into K = transcode_complete_into (convert_transcoder K)"

section \<open>What the engine guarantees for every pair of codecs and hooks\<close>

abbreviation cv_slot :: "('cd, 'hd, 'ce, 'he, 'v) convert_engine \<Rightarrow> 'v pending_value option" where
  "cv_slot eng \<equiv> slot_value (cv_pending eng)"

text \<open>A drained slot stays empty unless the encoder needs more output, in which case the value
  is back in it, unchanged.\<close>

lemma cv_encode_pending_Ok:
  assumes "cv_encode_pending K p eng s = (Ok x, eng', s')"
  shows "(x = None \<and> cv_slot eng' = cv_slot eng) \<or>
    (\<exists>req. x = Some (ts_need_output_progress (cs_state s') req) \<and> cv_slot eng' = Some p \<and>
      cs_available_output s' < nz_get req)"
proof -
  let ?a = "ea_new (pv_value p) (pv_input_index p) (ts_output (cs_state s)) (ts_output_cursor (cs_state s))"
  obtain q enc out where one: "encode_one (tgt_codec K) (tgt_hooks K) (cv_encode_engine eng) ?a = (q, enc, out)"
    by (metis prod_cases3)
  with assms obtain oc where oc: "q = Ok oc" by (cases q) (auto simp: cv_encode_pending_def)
  show ?thesis
  proof (cases oc)
    case (Consumed wr)
    with assms one oc show ?thesis
      by (auto simp: cv_encode_pending_def and_then_case Let_def cs_advance_output_def split: if_splits)
  next
    case (EncodeNeedOutput req)
    with assms one oc show ?thesis
      by (auto simp: cv_encode_pending_def Let_def slot_put_def split: if_splits)
  qed
qed

lemma cv_drain_pending_Ok:
  assumes "cv_drain_pending K eng s = (Ok x, eng', s')"
  shows "(x = None \<and> cv_slot eng' = None) \<or>
    (\<exists>req. x = Some (ts_need_output_progress (cs_state s') req) \<and> cv_slot eng' \<noteq> None \<and>
      cv_slot eng' = cv_slot eng \<and> cs_available_output s' < nz_get req)"
proof (cases "cv_slot eng")
  case None
  with assms show ?thesis by (auto simp: cv_drain_pending_def slot_take_def)
next
  case (Some p)
  with assms have "cv_encode_pending K p (eng\<lparr>cv_pending := (cv_pending eng)\<lparr>slot_value := None\<rparr>\<rparr>) s
      = (Ok x, eng', s')"
    by (simp add: cv_drain_pending_def slot_take_def)
  from cv_encode_pending_Ok [OF this] Some show ?thesis by auto
qed

text \<open>A report of a turn, and where the slot is then.\<close>

definition cv_report :: "bool \<Rightarrow> 'v pending_value option \<Rightarrow> ('i, 'o) convert_state \<Rightarrow> transcode_progress \<Rightarrow> bool" where
  "cv_report eof slot s p \<longleftrightarrow>
     slot = None \<and> \<not> eof \<and>
       (\<exists>req. cs_available_input s < nz_get req \<and> p = ts_need_input_progress (cs_state s) req) \<or>
     slot \<noteq> None \<and>
       (\<exists>req. cs_available_output s < nz_get req \<and> p = ts_need_output_progress (cs_state s) req)"

lemma cv_drain_pending_report:
  assumes "cv_drain_pending K eng s = (Ok (Some p), eng', s')"
  shows "cv_report eof (cv_slot eng') s' p"
  using cv_drain_pending_Ok [OF assms] by (auto simp: cv_report_def)

lemma cv_convert_next_report:
  assumes "cv_convert_next K eof eng s = (Ok x, eng', s')" "cv_slot eng = None"
  shows "(x = None \<and> cv_slot eng' = None) \<or> (\<exists>p. x = Some p \<and> cv_report eof (cv_slot eng') s' p)"
  using assms(1)
proof (cases rule: cv_convert_next_cases)
  case (need_input req dec)
  with assms(2) show ?thesis by (auto simp: cv_report_def)
next
  case (skipped rd dec)
  from cv_drain_pending_Ok [OF skipped(2)] show ?thesis by (auto simp: cv_report_def)
next
  case (emitted v rd dec)
  from cv_drain_pending_Ok [OF emitted(2)] show ?thesis by (auto simp: cv_report_def)
qed simp

lemma cv_step_report:
  assumes "cv_step K eof m eng s = (Ok x, eng', s')" "cv_slot eng = None"
  shows "(x = None \<and> cv_slot eng' = None) \<or> (\<exists>p. x = Some p \<and> cv_report eof (cv_slot eng') s' p)"
proof (cases "cs_available_input s < nz_get m \<and> \<not> eof")
  case True
  with assms show ?thesis by (auto simp: cv_step_def cv_report_def)
next
  case False
  with assms have "cv_convert_next K eof eng s = (Ok x, eng', s')"
    by (simp add: cv_step_def)
  from cv_convert_next_report [OF this assms(2)] show ?thesis .
qed

text \<open>What every turn keeps: the frame of the call, the guards, and the cursors.\<close>

definition cv_kept ::
  "('cd, 'hd, 'ce, 'he, 'v) convert_engine \<Rightarrow> ('i, 'o) convert_state \<Rightarrow>
   ('cd, 'hd, 'ce, 'he, 'v) convert_engine \<Rightarrow> ('i, 'o) convert_state \<Rightarrow> bool" where
  "cv_kept eng s eng' s' \<longleftrightarrow>
     cv_lifecycle eng' = cv_lifecycle eng \<and>
     de_lifecycle (cv_decode_engine eng') = de_lifecycle (cv_decode_engine eng) \<and>
     ee_lifecycle (cv_encode_engine eng') = ee_lifecycle (cv_encode_engine eng) \<and>
     same_frame (cs_state s) (cs_state s') \<and> (cursors_ok (cs_state s) \<longrightarrow> cursors_ok (cs_state s'))"

lemma cv_kept_refl [simp]: "cv_kept eng s eng s"
  by (simp add: cv_kept_def)

lemma cv_kept_trans: "cv_kept e s e' s' \<Longrightarrow> cv_kept e' s' e'' s'' \<Longrightarrow> cv_kept e s e'' s''"
  by (auto simp: cv_kept_def intro: same_frame_trans)

lemma cv_same_source_kept: "cv_same_source e s e' s' \<Longrightarrow> cv_kept e s e' s'"
  by (simp add: cv_same_source_def cv_kept_def)

lemma cv_kept_advance:
  assumes "nz_get rd \<le> cs_available_input s" "de_lifecycle dec = de_lifecycle (cv_decode_engine eng)"
  shows "cv_kept eng s (eng\<lparr>cv_decode_engine := dec, cv_pending := slot\<rparr>)
      (s\<lparr>cs_state := ts_advance_input (cs_state s) (nz_get rd)\<rparr>)"
    and "cv_kept eng s (eng\<lparr>cv_decode_engine := dec\<rparr>)
      (s\<lparr>cs_state := ts_advance_input (cs_state s) (nz_get rd)\<rparr>)"
  using assms by (auto simp: cv_kept_def same_frame_def cursors_ok_def cs_defs ts_defs)

lemma cv_convert_next_kept:
  assumes "cv_convert_next K eof eng s = (r, eng', s')"
  shows "cv_kept eng s eng' s'"
  using assms
proof (cases rule: cv_convert_next_cases)
  case (skipped rd dec)
  show ?thesis
    by (rule cv_kept_trans [OF cv_kept_advance(2) [OF skipped(1,3)]
          cv_same_source_kept [OF cv_drain_pending_frame [OF skipped(2)]]])
next
  case (emitted v rd dec)
  show ?thesis
    by (rule cv_kept_trans [OF cv_kept_advance(1) [OF emitted(1,3)]
          cv_same_source_kept [OF cv_drain_pending_frame [OF emitted(2)]]])
qed (auto simp: cv_kept_def)

lemma cv_step_kept:
  assumes "cv_step K eof m eng s = (r, eng', s')"
  shows "cv_kept eng s eng' s'"
  using assms by (auto simp: cv_step_def intro: cv_convert_next_kept split: if_splits)

lemma cv_report_valid:
  assumes "cv_report eof slot s p" "cursors_ok (cs_state s)"
    and "length (ts_input (cs_state s)) \<le> usize_max" "length (ts_output (cs_state s)) \<le> usize_max"
  shows "valid_progress p (ts_input_start (cs_state s))
      (length (ts_input (cs_state s)) - ts_input_start (cs_state s)) (ts_output_start (cs_state s))
      (length (ts_output (cs_state s)) - ts_output_start (cs_state s)) \<and>
    (eof \<longrightarrow> \<not> is_need_input p) \<and> (is_need_output p \<longleftrightarrow> slot \<noteq> None)"
  using assms(1) unfolding cv_report_def
proof (elim disjE conjE exE)
  fix req assume "\<not> eof" "slot = None" "cs_available_input s < nz_get req"
    "p = ts_need_input_progress (cs_state s) req"
  with need_input_progress_valid [of "cs_state s" req] assms(2-) show ?thesis
    by (simp add: cs_defs) (simp add: ts_defs progress_defs)
next
  fix req assume "slot \<noteq> None" "cs_available_output s < nz_get req"
    "p = ts_need_output_progress (cs_state s) req"
  with need_output_progress_valid [of "cs_state s" req] assms(2-) show ?thesis
    by (simp add: cs_defs) (simp add: ts_defs progress_defs)
qed

lemma cv_transcode_report:
  assumes "cv_transcode_with_eof K eng input i out j eof = (Ok p, eng', out')"
    and "length input \<le> usize_max" "length out \<le> usize_max"
  shows "valid_progress p i (length input - i) j (length out - j) \<and>
    (eof \<longrightarrow> \<not> is_need_input p) \<and> (is_need_output p \<longleftrightarrow> cv_slot eng' \<noteq> None) \<and>
    length out' = length out"
proof -
  let ?s = "cs_new input i out j"
  obtain eng0 x eng1 s1 s' where idx: "i \<le> length input" "j \<le> length out"
    and drain: "cv_drain_pending K eng0 ?s = (Ok x, eng1, s1)"
    and rest: "(case x of Some p \<Rightarrow> (Ok p, eng1, s1)
        | None \<Rightarrow> and_then (nz_expect (min_units_per_value (src_codec K)), eng1, s1)
            (\<lambda>m (eng, s). cv_transcode_loop K eof m eng s)) = (Ok p, eng', s')"
    and out': "out' = ts_output (cs_state s')"
    using assms(1)
    by (auto simp: cv_transcode_with_eof_def run_simps check_simps split: prod.splits
        simp del: split_paired_Ex)
  have frame: "ts_input (cs_state t) = input" "length (ts_output (cs_state t)) = length out"
    "ts_input_start (cs_state t) = i" "ts_output_start (cs_state t) = j" "cursors_ok (cs_state t)"
    if "cv_kept eng0 ?s e t" for e t
    using that idx by (auto simp: cv_kept_def same_frame_def cs_new_def ts_new_def cursors_ok_def)
  have kept1: "cv_kept eng0 ?s eng1 s1"
    by (rule cv_same_source_kept [OF cv_drain_pending_frame [OF drain]])
  have reported: ?thesis if "cv_report eof (cv_slot eng') s' p" "cv_kept eng0 ?s eng' s'"
    using cv_report_valid [OF that(1)] frame [OF that(2)] assms(2,3) out' by simp
  show ?thesis
  proof (cases x)
    case (Some q)
    with rest drain have "cv_drain_pending K eng0 ?s = (Ok (Some p), eng', s')" by simp
    with reported [OF cv_drain_pending_report] kept1 drain show ?thesis by simp
  next
    case None
    from rest None obtain m where loop: "cv_transcode_loop K eof m eng1 s1 = (Ok p, eng', s')"
      by (cases "nz_expect (min_units_per_value (src_codec K)) :: (_, nonzero) res") auto
    let ?P = "\<lambda>e t. cv_kept eng0 ?s e t \<and> cv_slot e = None"
    have start: "?P eng1 s1" using kept1 cv_drain_pending_Ok [OF drain] None by simp
    have keep: "?P e' t'" if "?P e t" "cs_has_input t" "cv_step K eof m e t = (Ok None, e', t')"
      for e t e' t'
      using that cv_step_report [OF that(3)] cv_step_kept [OF that(3)] by (auto intro: cv_kept_trans)
    have "?P eng' s' \<and> \<not> cs_has_input s' \<and> p = ts_complete_progress (cs_state s') \<or>
      (\<exists>e t. ?P e t \<and> cs_has_input t \<and> cv_step K eof m e t = (Ok (Some p), eng', s'))"
      by (rule cv_loop.loop_Ok [where P = ?P, OF loop start]) (rule keep)
    then show ?thesis
    proof (elim disjE conjE exE)
      assume "cv_kept eng0 ?s eng' s'" "cv_slot eng' = None" "\<not> cs_has_input s'"
        "p = ts_complete_progress (cs_state s')"
      with frame [OF this(1)] complete_progress_valid [of "cs_state s'"] assms(2,3) out'
      show ?thesis by (simp add: cs_defs) (simp add: ts_defs progress_defs)
    next
      fix e t assume "cv_kept eng0 ?s e t" "cv_slot e = None"
        and st: "cv_step K eof m e t = (Ok (Some p), eng', s')"
      then have "cv_report eof (cv_slot eng') s' p" "cv_kept eng0 ?s eng' s'"
        using cv_step_report [OF st] cv_kept_trans [OF _ cv_step_kept [OF st]] by auto
      then show ?thesis by (rule reported)
    qed
  qed
qed

text \<open>C20. For every pair of codecs and hooks: a report that \<open>TranscodeConvertEngine\<close> returns
  from \<open>transcode\<close> or \<open>transcode_eof\<close> satisfies the progress contract; a call at end
  of input never asks for more input; and a decoded value is left in the pending slot exactly
  when the report asks for more output, so every other report has delivered all values decoded
  so far.\<close>

theorem convert_transcode_reports_valid:
  assumes "cv_transcode_with_eof K eng input i out j eof = (Ok p, eng', out')"
    and "length input \<le> usize_max" "length out \<le> usize_max"
  shows "valid_progress p i (length input - i) j (length out - j) \<and>
    (eof \<longrightarrow> \<not> is_need_input p) \<and> (is_need_output p \<longleftrightarrow> cv_slot eng' \<noteq> None) \<and>
    length out' = length out"
  using assms by (rule cv_transcode_report)

section \<open>The lifecycle of a convert engine\<close>

abbreviation cv_phase :: "('cd, 'hd, 'ce, 'he, 'v) convert_engine \<Rightarrow> lifecycle_phase" where
  "cv_phase eng \<equiv> guard_phase (cv_lifecycle eng)"

text \<open>The inner engines are driven by the converter's guard: while the converter's stream is
  open, both are freshly reset, because \<open>encode_one\<close> and \<open>decode_one\<close> do not touch their
  guards. So the nested \<open>finish\<close> calls never fail for their lifecycle.\<close>

definition cv_inner_ready :: "('cd, 'hd, 'ce, 'he, 'v) convert_engine \<Rightarrow> bool" where
  "cv_inner_ready eng \<longleftrightarrow>
     ee_phase (cv_encode_engine eng) = Fresh \<and> de_phase (cv_decode_engine eng) = Fresh"

definition cv_reset_accepted ::
  "('cd, 'hd, 'ce, 'he, 'v, 'i, 'o, 'de, 'x, 'y, 'ee) converter_traits \<Rightarrow>
   ('cd, 'hd, 'ce, 'he, 'v) convert_engine \<Rightarrow> 'o list \<Rightarrow> nat \<Rightarrow> bool" where
  "cv_reset_accepted K eng out j \<longleftrightarrow>
     (\<exists>m. cv_max_reset_output_len K eng = Ok m \<and> j + m \<le> length out)"

definition cv_finish_accepted ::
  "('cd, 'hd, 'ce, 'he, 'v, 'i, 'o, 'de, 'x, 'y, 'ee) converter_traits \<Rightarrow>
   ('cd, 'hd, 'ce, 'he, 'v) convert_engine \<Rightarrow> 'o list \<Rightarrow> nat \<Rightarrow> bool" where
  "cv_finish_accepted K eng out j \<longleftrightarrow>
     stream_phase (cv_phase eng) \<and>
     (\<exists>m. cv_current_finish_output_len K eng = Ok m \<and> j + m \<le> length out)"

lemma cv_reset_rejected:
  assumes "\<not> cv_reset_accepted K eng out j"
  shows "\<exists>r. cv_reset K eng out j = (r, eng, out) \<and> (\<nexists>n. r = Ok n)"
proof (cases "cv_max_reset_output_len K eng")
  case (Ok m)
  with assms obtain e where "ensure_output_capacity (length out) j m = Err e"
    using check_simps by (cases "ensure_output_capacity (length out) j m")
      (auto simp: cv_reset_accepted_def)
  with Ok show ?thesis by (simp add: cv_reset_def)
qed (simp_all add: cv_reset_def)

lemma cv_finish_rejected:
  assumes "\<not> cv_finish_accepted K eng out j"
  shows "\<exists>r. cv_finish K eng out j = (r, eng, out) \<and> (\<nexists>n. r = Ok n)"
proof (cases "on_finish_attempt (cv_lifecycle eng)")
  case (Ok u)
  show ?thesis
  proof (cases "cv_current_finish_output_len K eng")
    case (Ok m)
    with assms \<open>on_finish_attempt _ = Ok u\<close> obtain e where
      "ensure_output_capacity (length out) j m = Err e"
      using check_simps by (cases "ensure_output_capacity (length out) j m")
        (auto simp: cv_finish_accepted_def on_finish_attempt_Ok)
    with Ok \<open>on_finish_attempt _ = Ok u\<close> show ?thesis by (simp add: cv_finish_def)
  qed (use Ok in \<open>simp_all add: cv_finish_def\<close>)
qed (simp_all add: cv_finish_def)

text \<open>The parts of a reset or finish, none of which touches the converter's guard.\<close>

lemma cv_encode_values_kept:
  assumes "cv_encode_values K vs eng s = (r, eng', s')"
  shows "cv_same_source eng s eng' s'"
  using assms
proof (induction K vs eng s rule: cv_encode_values.induct)
  case (1 K eng s)
  then show ?case by (simp add: cv_same_source_def)
next
  case (2 K v vs eng s)
  obtain q e t where one: "cv_encode_pending K (pv_new v 0) eng s = (q, e, t)" by (metis prod_cases3)
  note f = cv_encode_pending_frame [OF one]
  show ?case
  proof (cases "q = Ok None")
    case True
    with 2 one have "cv_same_source e t eng' s'" by auto
    with f show ?thesis by (auto simp: cv_same_source_def intro: same_frame_trans)
  next
    case False
    with 2(2) one f show ?thesis by (cases q) auto
  qed
qed

lemma cv_drain_decoder_reset_kept:
  assumes "cv_drain_decoder_reset K eng s = (r, eng', s')"
  shows "cv_lifecycle eng' = cv_lifecycle eng \<and>
    ee_lifecycle (cv_encode_engine eng') = ee_lifecycle (cv_encode_engine eng) \<and>
    same_frame (cs_state s) (cs_state s')"
  using assms
  by (auto simp: cv_drain_decoder_reset_def and_then_case Let_def cv_same_source_def
      dest!: cv_encode_values_kept split: prod.splits res.splits if_splits)

lemma cv_drain_decoder_finish_kept:
  assumes "cv_drain_decoder_finish K eng s = (r, eng', s')"
  shows "cv_lifecycle eng' = cv_lifecycle eng \<and>
    ee_lifecycle (cv_encode_engine eng') = ee_lifecycle (cv_encode_engine eng) \<and>
    same_frame (cs_state s) (cs_state s')"
  using assms
  by (auto simp: cv_drain_decoder_finish_def and_then_case Let_def cv_same_source_def
      dest!: cv_encode_values_kept split: prod.splits res.splits if_splits)

lemma cv_encoder_call_kept:
  assumes "cv_encoder_call call eng s = (r, eng', s')"
  shows "cv_lifecycle eng' = cv_lifecycle eng \<and> cv_decode_engine eng' = cv_decode_engine eng"
  using assms
  by (auto simp: cv_encoder_call_def cs_advance_output_def and_then_case split: prod.splits res.splits if_splits)

lemma cv_encoder_call_Ok:
  assumes "cv_encoder_call call eng s = (Ok u, eng', s')"
  shows "\<exists>wr enc out. call = (Ok wr, enc, out) \<and> wr \<le> cs_available_output (cs_set_output s out) \<and>
    eng' = eng\<lparr>cv_encode_engine := enc\<rparr> \<and>
    s' = (cs_set_output s out)\<lparr>cs_state := ts_advance_output (cs_state (cs_set_output s out)) wr\<rparr>"
proof -
  obtain r enc out where c: "call = (r, enc, out)" by (metis prod_cases3)
  with assms show ?thesis
    by (cases r) (auto simp: cv_encoder_call_def cs_advance_output_def split: if_splits)
qed

lemma cv_drain_decoder_reset_Ok:
  assumes "cv_drain_decoder_reset K eng s = (Ok u, eng', s')"
  shows "de_phase (cv_decode_engine eng') = Fresh"
proof -
  have fresh: "de_phase e' = Fresh" if "de_reset C H e out j = (Ok n, e', out')" for C H e out j n e' out'
    using de_reset_phase [OF that] de_reset_rejected [of C out j H e] that
    by (cases "de_reset_accepted C out j") auto
  show ?thesis
    using assms
    by (auto simp: cv_drain_decoder_reset_def run_simps Let_def cv_same_source_def fresh
        dest!: cv_encode_values_kept split: prod.splits if_splits dest: fresh)
qed

lemma ee_reset_Ok_fresh:
  assumes "ee_reset C H e out j = (Ok n, e', out')"
  shows "ee_phase e' = Fresh"
  using ee_reset_phase [OF assms] ee_reset_rejected [of C out j H e] assms
  by (cases "ee_reset_accepted C out j") auto

text \<open>Every successful reset opens the stream with both inner engines freshly reset.\<close>

lemma cv_reset_Ok:
  assumes "cv_reset K eng out j = (Ok n, eng', out')"
  shows "cv_phase eng' = Fresh \<and> cv_inner_ready eng' \<and> length out' = length out"
proof -
  let ?e0 = "eng\<lparr>cv_lifecycle := on_reset_start (cv_lifecycle eng),
    cv_pending := slot_clear (cv_pending eng)\<rparr>"
  from assms obtain e1 s1 e2 s2 wr en o1 where
    dec: "cv_drain_decoder_reset K e1 s1 = (Ok (), e2, s2)"
    and enc: "ee_reset (tgt_codec K) (tgt_hooks K) (cv_encode_engine eng) out j = (Ok wr, en, o1)"
      "cv_encode_engine e1 = en" "ts_output (cs_state s1) = o1"
    and e: "eng' = e2\<lparr>cv_lifecycle := on_reset_success (cv_lifecycle e2)\<rparr>"
      "out' = ts_output (cs_state s2)"
    by (auto simp: cv_reset_def run_simps Let_def cs_new_def ts_new_def split: prod.splits
        simp del: split_paired_Ex dest!: cv_encoder_call_Ok)
      (fastforce simp: cs_set_output_def ts_defs)
  have "length o1 = length out" using enc(1) by (auto dest: slice_len)
  with ee_reset_Ok_fresh [OF enc(1)] enc(2,3) cv_drain_decoder_reset_kept [OF dec]
    cv_drain_decoder_reset_Ok [OF dec] e
  show ?thesis by (simp add: cv_inner_ready_def guard_defs same_frame_def)
qed

lemma cv_reset_phase:
  assumes "cv_reset K eng out j = (r, eng', out')"
  shows "phase_step (cv_phase eng) (reset_label (cv_reset_accepted K eng out j) r) (cv_phase eng')"
proof (cases "cv_reset_accepted K eng out j")
  case False
  from cv_reset_rejected [OF this] assms False show ?thesis by auto
next
  case True
  then obtain m where m: "cv_max_reset_output_len K eng = Ok m" "j + m \<le> length out"
    by (auto simp: cv_reset_accepted_def)
  then have cap: "ensure_output_capacity (length out) j m = Ok ()" by (simp add: check_simps)
  show ?thesis
  proof (cases "\<exists>n. r = Ok n")
    case True
    with cv_reset_Ok assms \<open>cv_reset_accepted K eng out j\<close> show ?thesis by fastforce
  next
    case False
    with assms m(1) cap have "cv_phase eng' = Poisoned"
      by (auto simp: cv_reset_def and_then_case Let_def guard_defs
          dest!: cv_encoder_call_kept cv_drain_decoder_reset_kept
          split: prod.splits res.splits)
    with False True show ?thesis by (cases r) auto
  qed
qed

lemma cv_transcode_rejected:
  assumes "\<not> stream_phase (cv_phase eng)"
  shows "\<exists>e. cv_transcode_with_eof K eng input i out j eof = (Err (ConvertFailure e), eng, out)"
  using assms by (cases "cv_lifecycle eng" rule: on_transcode_cases) (auto simp: cv_transcode_with_eof_def)

text \<open>A call on an open stream keeps the inner guards and leaves the stream open.\<close>

lemma cv_loop_kept:
  assumes "cv_transcode_loop K eof m eng s = (r, eng', s')"
  shows "cv_kept eng s eng' s'"
  by (rule cv_loop.loop_rule [where P = "\<lambda>e t. cv_kept eng s e t", OF assms])
    (auto intro: cv_kept_trans cv_step_kept)

lemma cv_transcode_open:
  assumes "cv_transcode_with_eof K eng input i out j eof = (r, eng', out')" "stream_phase (cv_phase eng)"
  shows "cv_phase eng' = Streaming \<and> (cv_inner_ready eng \<longrightarrow> cv_inner_ready eng')"
proof -
  let ?e = "eng\<lparr>cv_lifecycle := (cv_lifecycle eng)\<lparr>guard_phase := Streaming\<rparr>\<rparr>"
  let ?s = "cs_new input i out j"
  have pre: "on_transcode (cv_lifecycle eng) = (Ok (), (cv_lifecycle eng)\<lparr>guard_phase := Streaming\<rparr>)"
    using assms(2) by (simp add: on_transcode_Ok)
  have "\<exists>t. cv_kept ?e ?s eng' t"
  proof (cases "ensure_transcode_indices (length input) i (length out) j")
    case (Ok u)
    obtain q e1 s1 where drain: "cv_drain_pending K ?e ?s = (q, e1, s1)" by (metis prod_cases3)
    note k = cv_same_source_kept [OF cv_drain_pending_frame [OF drain]]
    show ?thesis
    proof (cases "q = Ok None \<and> min_units_per_value (src_codec K) \<noteq> 0")
      case True
      then obtain m where "min_units_per_value (src_codec K) = nz_get m"
        by (metis nz_expect_eq_Ok nz_expect_pos neq0_conv)
      moreover obtain r2 e2 s2 where "cv_transcode_loop K eof m e1 s1 = (r2, e2, s2)"
        by (metis prod_cases3)
      ultimately show ?thesis
        using assms(1) pre Ok drain True cv_kept_trans [OF k cv_loop_kept [of K eof m e1 s1]]
        by (auto simp: cv_transcode_with_eof_def)
    next
      case False
      with assms(1) pre Ok drain k show ?thesis
        by (cases q) (auto simp: cv_transcode_with_eof_def split: option.splits)
    qed
  next
    case (Err e)
    with assms(1) pre show ?thesis by (auto simp: cv_transcode_with_eof_def intro!: exI [of _ ?s])
  next
    case Panic
    then show ?thesis by (simp add: check_simps)
  qed
  then show ?thesis by (auto simp: cv_kept_def cv_inner_ready_def)
qed

lemma cv_transcode_phase:
  assumes "cv_transcode_with_eof K eng input i out j eof = (r, eng', out')"
  shows "phase_step (cv_phase eng) (transcode_label (cv_phase eng)) (cv_phase eng')"
proof (cases "stream_phase (cv_phase eng)")
  case False
  from cv_transcode_rejected [OF this, of K input i out j eof] assms False show ?thesis by auto
next
  case True
  with cv_transcode_open [OF assms] show ?thesis by simp
qed

lemma cv_finish_phase:
  assumes "cv_finish K eng out j = (r, eng', out')"
  shows "phase_step (cv_phase eng) (finish_label (cv_finish_accepted K eng out j) r) (cv_phase eng')"
proof (cases "cv_finish_accepted K eng out j")
  case False
  from cv_finish_rejected [OF this] assms False show ?thesis by auto
next
  case True
  then obtain m where m: "cv_current_finish_output_len K eng = Ok m" "j + m \<le> length out"
    and ph: "stream_phase (cv_phase eng)" by (auto simp: cv_finish_accepted_def)
  then have pre: "ensure_output_capacity (length out) j m = Ok ()"
    "on_finish_attempt (cv_lifecycle eng) = Ok ()"
    by (simp_all add: check_simps on_finish_attempt_Ok)
  have "cv_phase eng' = (case r of Ok _ \<Rightarrow> Finished | _ \<Rightarrow> Poisoned)"
    using assms m(1) pre
    by (auto simp: cv_finish_def and_then_case Let_def guard_defs cv_same_source_def
        dest!: cv_encoder_call_kept cv_drain_decoder_finish_kept cv_drain_pending_frame
        split: prod.splits res.splits)
  with True ph show ?thesis by (cases r) auto
qed

inductive convert_call ::
  "('cd, 'hd, 'ce, 'he, 'v, 'i, 'o, 'de, 'x, 'y, 'ee) converter_traits \<Rightarrow>
   ('cd, 'hd, 'ce, 'he, 'v) convert_engine \<Rightarrow> lifecycle_call \<Rightarrow>
   ('cd, 'hd, 'ce, 'he, 'v) convert_engine \<Rightarrow> bool" for K where
  call_reset: "cv_reset K eng out j = (r, eng', out') \<Longrightarrow>
    convert_call K eng (reset_label (cv_reset_accepted K eng out j) r) eng'"
| call_transcode: "cv_transcode K eng input i out j = (r, eng', out') \<Longrightarrow>
    convert_call K eng (transcode_label (cv_phase eng)) eng'"
| call_transcode_eof: "cv_transcode_eof K eng input i out j = (r, eng', out') \<Longrightarrow>
    convert_call K eng (transcode_label (cv_phase eng)) eng'"
| call_finish: "cv_finish K eng out j = (r, eng', out') \<Longrightarrow>
    convert_call K eng (finish_label (cv_finish_accepted K eng out j) r) eng'"

definition convert_fresh ::
  "('cd, 'hd, 'ce, 'he, 'v, 'i, 'o, 'de, 'x, 'y, 'ee) converter_traits \<Rightarrow>
   ('cd, 'hd, 'ce, 'he, 'v) convert_engine \<Rightarrow> bool" where
  "convert_fresh K eng \<longleftrightarrow>
     (cv_new K (de_codec (cv_decode_engine eng)) (ee_codec (cv_encode_engine eng))
        (de_hooks (cv_decode_engine eng)) (ee_hooks (cv_encode_engine eng)) :: (unit, _) res) = Ok eng"

lemma convert_fresh_phase: "convert_fresh K eng \<Longrightarrow> cv_phase eng = Uninitialized"
  by (auto simp: convert_fresh_def cv_new_def bind_res_eq_Ok guard_defs dest!: arg_cong [where f = cv_phase])

lemma convert_call_phase:
  assumes "convert_call K eng c eng'"
  shows "phase_step (cv_phase eng) c (cv_phase eng')"
  using assms
proof (cases rule: convert_call.cases)
  case (call_reset out j r out')
  then show ?thesis using cv_reset_phase by blast
next
  case (call_transcode input i out j r out')
  then show ?thesis using cv_transcode_phase by (metis cv_transcode_def)
next
  case (call_transcode_eof input i out j r out')
  then show ?thesis using cv_transcode_phase by (metis cv_transcode_eof_def)
next
  case (call_finish out j r out')
  then show ?thesis using cv_finish_phase by blast
qed

interpretation cnv: guarded_engine "convert_fresh K" "convert_call K" cv_phase for K
  by unfold_locales (auto intro: convert_fresh_phase convert_call_phase)

lemma convert_call_ready:
  assumes "convert_call K eng c eng'" "stream_phase (cv_phase eng) \<longrightarrow> cv_inner_ready eng"
  shows "stream_phase (cv_phase eng') \<longrightarrow> cv_inner_ready eng'"
proof -
  have transcode: ?thesis
    if t: "cv_transcode_with_eof K eng input i out j eof = (r, eng', out')" for input i out j eof r out'
  proof (cases "stream_phase (cv_phase eng)")
    case True
    with cv_transcode_open [OF t] assms(2) show ?thesis by simp
  next
    case False
    with cv_transcode_rejected [OF False, of K input i out j eof] t show ?thesis by auto
  qed
  show ?thesis
    using assms(1)
  proof (cases rule: convert_call.cases)
    case (call_reset out j r out')
    show ?thesis
    proof (cases "cv_reset_accepted K eng out j \<and> (\<exists>n. r = Ok n)")
      case True
      with call_reset cv_reset_Ok show ?thesis by blast
    next
      case False
      with cv_reset_phase [OF call_reset(2)] cv_reset_rejected [of K eng out j] call_reset assms(2)
      show ?thesis
        by (cases r; cases "cv_reset_accepted K eng out j") (auto simp: stream_phase_def)
    qed
  next
    case (call_transcode input i out j r out')
    then show ?thesis using transcode by (simp add: cv_transcode_def)
  next
    case (call_transcode_eof input i out j r out')
    then show ?thesis using transcode by (simp add: cv_transcode_eof_def)
  next
    case (call_finish out j r out')
    with cv_finish_phase [OF call_finish(2)] cv_finish_rejected [of K eng out j] assms(2)
    show ?thesis
      by (cases r; cases "cv_finish_accepted K eng out j") (auto simp: stream_phase_def)
  qed
qed

lemma convert_trace_ready:
  assumes "call_trace (convert_fresh K) (convert_call K) cs eng"
  shows "stream_phase (cv_phase eng) \<longrightarrow> cv_inner_ready eng"
  using assms
proof (induction rule: call_trace.induct)
  case (trace_start eng)
  then show ?case by (simp add: convert_fresh_phase stream_phase_def)
next
  case (trace_call cs eng c eng')
  then show ?case using convert_call_ready by blast
qed

lemma cv_trace_inner_ready:
  assumes "call_trace (convert_fresh K) (convert_call K) cs eng"
  shows "stream_phase (cv_phase eng) = stream_open cs \<and>
    (stream_open cs \<longrightarrow>
      on_finish_attempt (ee_lifecycle (cv_encode_engine eng)) = Ok () \<and>
      on_finish_attempt (de_lifecycle (cv_decode_engine eng)) = Ok ())"
  using convert_trace_ready [OF assms] cnv.trace_open [OF assms]
  by (auto simp: on_finish_attempt_Ok cv_inner_ready_def stream_phase_def)

text \<open>C21. After any sequence of public calls on a new converter: its stream is open exactly when
  the last reset succeeded and nothing has finished or poisoned it since, and then both inner
  engines accept the nested \<open>finish\<close> calls, whatever their codecs and hooks did before.\<close>

theorem convert_trace_inner_engines_ready:
  assumes "call_trace (convert_fresh K) (convert_call K) cs eng"
  shows "stream_phase (cv_phase eng) = stream_open cs \<and>
    (stream_open cs \<longrightarrow>
      on_finish_attempt (ee_lifecycle (cv_encode_engine eng)) = Ok () \<and>
      on_finish_attempt (de_lifecycle (cv_decode_engine eng)) = Ok ())"
  using assms by (rule cv_trace_inner_ready)

end
