(* ===== verification/Adapters.thy ===== *)
theory Adapters
  imports ConvertEngine
begin

text \<open>
  The adapters of \<open>src/transcode/adapter\<close>: a codec used as a streaming encoder, decoder or
  converter under the strict policy (\<open>CodecTranscodeEncodeHooks\<close>,
  \<open>CodecTranscodeDecodeHooks\<close>), which has no state and rejects every invalid,
  incomplete or unencodable value. Each adapter owns an engine and passes every call on to it;
  \<open>through\<close> is such a call on a field.
\<close>

section \<open>Strict hooks\<close>

definition strict_handle_unencodable ::
  "unit \<Rightarrow> 'c \<Rightarrow> 'v encode_context \<Rightarrow>
   (('ee, 'v) encode_error, 'v unencodable_action) res \<times> unit \<times> 'c" where
  "strict_handle_unencodable h c ctx = (Ok RejectValue, h, c)"

definition codec_transcode_encode_hooks ::
  "('c, 'v, 'u, 'de, 'ee) codec \<Rightarrow> (unit, 'c, 'v, 'u, 'ee) encode_hooks" where
  "codec_transcode_encode_hooks C =
    \<lparr>eh_max_transcode_output_len = default_eh_max_transcode C,
     eh_max_finish_output_len = default_max_finish,
     eh_handle_unencodable = strict_handle_unencodable,
     eh_reset_hooks = default_reset_hooks,
     eh_finish_hooks = default_finish_hooks\<rparr>"

definition strict_dh_max_transcode ::
  "('c, 'v, 'u, 'de, 'ee) codec \<Rightarrow> unit \<Rightarrow> 'c \<Rightarrow> nat \<Rightarrow> nat capacity" where
  "strict_dh_max_transcode C h c input_len = Ok (div_ceil input_len (min_units_per_value C))"

definition strict_handle_invalid ::
  "unit \<Rightarrow> 'c \<Rightarrow> 'de \<Rightarrow> nonzero option \<Rightarrow> decode_context \<Rightarrow>
   ('de decode_error, 'v invalid_action) res \<times> unit \<times> 'c" where
  "strict_handle_invalid h c e consumed ctx = (Ok InvalidReject, h, c)"

definition codec_transcode_decode_hooks ::
  "('c, 'v, 'u, 'de, 'ee) codec \<Rightarrow> (unit, 'c, 'v, 'de) decode_hooks" where
  "codec_transcode_decode_hooks C =
    \<lparr>dh_max_transcode_output_len = strict_dh_max_transcode C,
     dh_max_finish_output_len = default_max_finish,
     dh_handle_invalid = strict_handle_invalid,
     dh_handle_incomplete = default_handle_incomplete,
     dh_reset_hooks = default_reset_hooks,
     dh_finish_hooks = default_finish_hooks\<rparr>"

section \<open>CodecTranscodeEncoder\<close>

text \<open>A call on the engine field of an adapter.\<close>

definition through :: "('g \<Rightarrow> 's) \<Rightarrow> 'r \<times> 'g \<times> 'x list \<Rightarrow> 'r \<times> 's \<times> 'x list" where
  "through wrap call = (case call of (r, g, out) \<Rightarrow> (r, wrap g, out))"

lemma through_eq [simp]: "through wrap (r, g, out) = (r, wrap g, out)"
  by (simp add: through_def)

datatype 'c codec_transcode_encoder =
  CodecTranscodeEncoder (encoder_engine: "('c, unit) encode_engine")

definition encoder_new ::
  "('c, 'v, 'u, 'de, 'ee) codec \<Rightarrow> 'c \<Rightarrow> ('e, 'c codec_transcode_encoder) res" where
  "encoder_new C c = map_ok CodecTranscodeEncoder (ee_new C c ())"

definition codec_transcode_encoder ::
  "('c, 'v, 'u, 'de, 'ee) codec \<Rightarrow>
   ('c codec_transcode_encoder, 'v, 'u, ('ee, 'v) encode_error) transcoder" where
  "codec_transcode_encoder C =
    (let H = codec_transcode_encode_hooks C;
         transcode_fn = (\<lambda>s input i out j.
           through CodecTranscodeEncoder (ee_transcode C H (encoder_engine s) input i out j)) in
     \<lparr>from_failure = EncodeFailure,
      max_reset_output_len = (\<lambda>s. ee_max_reset_output_len C (encoder_engine s)),
      max_transcode_output_len = (\<lambda>s n. ee_max_transcode_output_len H (encoder_engine s) n),
      max_finish_output_len = (\<lambda>s. ee_max_finish_output_len C H (encoder_engine s)),
      tr_reset = (\<lambda>s out j. through CodecTranscodeEncoder (ee_reset C H (encoder_engine s) out j)),
      tr_transcode = transcode_fn,
      tr_transcode_eof = default_transcode_eof EncodeFailure transcode_fn,
      tr_finish = (\<lambda>s out j. through CodecTranscodeEncoder (ee_finish C H (encoder_engine s) out j))\<rparr>)"

section \<open>CodecTranscodeDecoder\<close>

datatype 'c codec_transcode_decoder =
  CodecTranscodeDecoder (decoder_engine: "('c, unit) decode_engine")

definition decoder_new ::
  "('c, 'v, 'u, 'de, 'ee) codec \<Rightarrow> 'c \<Rightarrow> ('e, 'c codec_transcode_decoder) res" where
  "decoder_new C c = map_ok CodecTranscodeDecoder (de_new C c ())"

definition codec_transcode_decoder ::
  "('c, 'v, 'u, 'de, 'ee) codec \<Rightarrow>
   ('c codec_transcode_decoder, 'u, 'v, 'de decode_error) transcoder" where
  "codec_transcode_decoder C =
    (let H = codec_transcode_decode_hooks C in
     \<lparr>from_failure = DecodeFailed,
      max_reset_output_len = (\<lambda>s. de_max_reset_output_len C (decoder_engine s)),
      max_transcode_output_len = (\<lambda>s n. de_max_transcode_output_len H (decoder_engine s) n),
      max_finish_output_len = (\<lambda>s. de_max_finish_output_len C H (decoder_engine s)),
      tr_reset = (\<lambda>s out j. through CodecTranscodeDecoder (de_reset C H (decoder_engine s) out j)),
      tr_transcode = (\<lambda>s input i out j.
        through CodecTranscodeDecoder (de_transcode C H (decoder_engine s) input i out j)),
      tr_transcode_eof = (\<lambda>s input i out j.
        through CodecTranscodeDecoder (de_transcode_eof C H (decoder_engine s) input i out j)),
      tr_finish = (\<lambda>s out j. through CodecTranscodeDecoder (de_finish C H (decoder_engine s) out j))\<rparr>)"

section \<open>CodecTranscodeConverter\<close>

datatype ('cd, 'ce, 'v) codec_transcode_converter =
  CodecTranscodeConverter (converter_engine: "('cd, unit, 'ce, unit, 'v) convert_engine")

definition strict_traits ::
  "('cd, 'v, 'i, 'de, 'x) codec \<Rightarrow> ('ce, 'v, 'o, 'y, 'ee) codec \<Rightarrow> 'v \<Rightarrow> (nat \<Rightarrow> bool) \<Rightarrow>
   ('cd, unit, 'ce, unit, 'v, 'i, 'o, 'de, 'x, 'y, 'ee) converter_traits" where
  "strict_traits D E default_value reserve =
    \<lparr>src_codec = D, src_hooks = codec_transcode_decode_hooks D,
     tgt_codec = E, tgt_hooks = codec_transcode_encode_hooks E,
     value_default = default_value, try_reserve = reserve\<rparr>"

definition converter_new ::
  "('cd, unit, 'ce, unit, 'v, 'i, 'o, 'de, 'x, 'y, 'ee) converter_traits \<Rightarrow> 'cd \<Rightarrow> 'ce \<Rightarrow>
   ('e, ('cd, 'ce, 'v) codec_transcode_converter) res" where
  "converter_new K d e = map_ok CodecTranscodeConverter (cv_new K d e () ())"

definition codec_transcode_converter ::
  "('cd, unit, 'ce, unit, 'v, 'i, 'o, 'de, 'x, 'y, 'ee) converter_traits \<Rightarrow>
   (('cd, 'ce, 'v) codec_transcode_converter, 'i, 'o, ('de, 'ee, 'v) convert_error) transcoder" where
  "codec_transcode_converter K =
     \<lparr>from_failure = ConvertFailure,
      max_reset_output_len = (\<lambda>s. cv_max_reset_output_len K (converter_engine s)),
      max_transcode_output_len = (\<lambda>s n. cv_max_transcode_output_len K (converter_engine s) n),
      max_finish_output_len = (\<lambda>s. cv_max_finish_output_len K (converter_engine s)),
      tr_reset = (\<lambda>s out j.
        through CodecTranscodeConverter (cv_reset K (converter_engine s) out j)),
      tr_transcode = (\<lambda>s input i out j.
        through CodecTranscodeConverter (cv_transcode K (converter_engine s) input i out j)),
      tr_transcode_eof = (\<lambda>s input i out j.
        through CodecTranscodeConverter (cv_transcode_eof K (converter_engine s) input i out j)),
      tr_finish = (\<lambda>s out j.
        through CodecTranscodeConverter (cv_finish K (converter_engine s) out j))\<rparr>"

end
