(* ===== verification/EncodeContract.thy ===== *)
theory EncodeContract
  imports EncodeEngine
begin

text \<open>
  What the encode engine computes when the codec and the hooks keep the contract their traits
  document. The specification works on lists: \<open>encode_stream\<close> consumes values and produces
  units while there is room, with no slices, indices or cursors. The locale
  \<open>encoder_codec\<close> states the contract; inside it the engine's loop is shown to refine the
  specification, and the specification to be independent of how the output is cut into windows.
\<close>

section \<open>Specification\<close>

text \<open>A value to write: the units for it, or why there are none.\<close>

datatype ('e, 'u, 'c) encode_turn =
    TurnNeedOutput nonzero
  | TurnReject 'e 'c
  | TurnWrite "'u list" 'c

type_synonym ('c, 'v, 'u, 'ee) emitter = "'c \<Rightarrow> 'v \<Rightarrow> ('ee + 'u list) \<times> 'c"

definition emit_turn ::
  "('c, 'v, 'u, 'de, 'ee) codec \<Rightarrow> ('c, 'v, 'u, 'ee) emitter \<Rightarrow> nat \<Rightarrow> 'c \<Rightarrow> 'v \<Rightarrow> nat \<Rightarrow>
   (('ee, 'v) encode_error, 'u, 'c) encode_turn" where
  "emit_turn C emit i c v room =
    (if room < encode_len C c v then TurnNeedOutput (NZ (encode_len C c v - 1))
     else case emit c v of
       (Inl e, c') \<Rightarrow> TurnReject (EncodeDomain (DomainMain e i None)) c'
     | (Inr us, c') \<Rightarrow> TurnWrite us c')"

definition encode_turn ::
  "('c, 'v, 'u, 'de, 'ee) codec \<Rightarrow> ('c, 'v, 'u, 'ee) emitter \<Rightarrow> ('v \<Rightarrow> 'v unencodable_action) \<Rightarrow>
   nat \<Rightarrow> 'c \<Rightarrow> 'v \<Rightarrow> nat \<Rightarrow> (('ee, 'v) encode_error, 'u, 'c) encode_turn" where
  "encode_turn C emit act i c v room =
    (if can_encode_value C c v then emit_turn C emit i c v room
     else if room < max_encode_units_per_value C
     then TurnNeedOutput (NZ (max_encode_units_per_value C - 1))
     else case act v of
       RejectValue \<Rightarrow> TurnReject (EncodeUnencodable i None) c
     | SkipValue \<Rightarrow> TurnWrite [] c
     | ReplaceValue w \<Rightarrow> emit_turn C emit i c w room)"

text \<open>The values handled, the units written, and the codec state reached, with how it ended:
  \<open>None\<close> when no value is left, \<open>Some n\<close> when the next one needs \<open>n\<close> units of room.\<close>

fun encode_stream ::
  "('c, 'v, 'u, 'de, 'ee) codec \<Rightarrow> ('c, 'v, 'u, 'ee) emitter \<Rightarrow> ('v \<Rightarrow> 'v unencodable_action) \<Rightarrow>
   nat \<Rightarrow> 'c \<Rightarrow> 'v list \<Rightarrow> nat \<Rightarrow>
   (('ee, 'v) encode_error, nonzero option) res \<times> nat \<times> 'u list \<times> 'c" where
  "encode_stream C emit act i c [] room = (Ok None, 0, [], c)"
| "encode_stream C emit act i c (v # vs) room =
    (case encode_turn C emit act i c v room of
       TurnNeedOutput req \<Rightarrow> (Ok (Some req), 0, [], c)
     | TurnReject e c' \<Rightarrow> (Err e, 0, [], c')
     | TurnWrite us c' \<Rightarrow>
         (case encode_stream C emit act (i + 1) c' vs (room - length us) of
            (q, n, ws, c'') \<Rightarrow> (q, n + 1, us @ ws, c'')))"

section \<open>Readings of the specification\<close>

text \<open>\<open>encode_turn_result\<close> reads a turn of the specification as a result of
  \<open>encode_one\<close>.\<close>

definition encode_turn_result ::
  "('c, 'h) encode_engine \<Rightarrow> ('v, 'u) encode_attempt \<Rightarrow> (('ee, 'v) encode_error, 'u, 'c) encode_turn \<Rightarrow>
   (('ee, 'v) encode_error, encode_outcome) res \<times> ('c, 'h) encode_engine \<times> 'u list \<Rightarrow> bool" where
  "encode_turn_result eng a t x \<longleftrightarrow>
    (case t of
       TurnNeedOutput req \<Rightarrow> x = (Ok (EncodeNeedOutput req), eng, ea_output a)
     | TurnReject e c' \<Rightarrow> (\<exists>out. x = (Err e, eng\<lparr>ee_codec := c'\<rparr>, out) \<and>
         length out = length (ea_output a) \<and>
         take (ea_output_index a) out = take (ea_output_index a) (ea_output a))
     | TurnWrite us c' \<Rightarrow> x = (Ok (Consumed (length us)), eng\<lparr>ee_codec := c'\<rparr>,
         splice_at (ea_output a) (ea_output_index a) us))"

text \<open>The reports of the loop and of a whole call that starts at the cursors.\<close>

definition encode_stream_progress ::
  "('v, 'u) encode_state \<Rightarrow> nat \<Rightarrow> 'u list \<Rightarrow> nonzero option \<Rightarrow> transcode_progress" where
  "encode_stream_progress s n us need =
    progress_new (case need of None \<Rightarrow> Complete | Some req \<Rightarrow> NeedOutput req)
      (ts_input_cursor (es_state s) + n - ts_input_start (es_state s))
      (ts_output_cursor (es_state s) + length us - ts_output_start (es_state s))"

definition encode_stream_report :: "nat \<Rightarrow> 'u list \<Rightarrow> nonzero option \<Rightarrow> transcode_progress" where
  "encode_stream_report n us need =
    progress_new (case need of None \<Rightarrow> Complete | Some req \<Rightarrow> NeedOutput req) n (length us)"

lemma encode_stream_report_sel [simp]:
  "tp_read (encode_stream_report n us x) = n" "tp_written (encode_stream_report n us x) = length us"
  by (simp_all add: encode_stream_report_def progress_defs)

lemma encode_stream_report_status:
  "tp_status (encode_stream_report n us x) = (case x of None \<Rightarrow> Complete | Some req \<Rightarrow> NeedOutput req)"
  by (simp add: encode_stream_report_def progress_defs)

section \<open>The contract\<close>

text \<open>
  \<open>good\<close> is the codec's invariant. A value the codec accepts is written by \<open>encode\<close> at the
  index it is given, taking exactly \<open>encode_len\<close> units; \<open>emit\<close> names those units and the
  codec state afterwards.
\<close>

locale emitting_codec =
  fixes C :: "('c, 'v, 'u, 'de, 'ee) codec"
    and good :: "'c \<Rightarrow> bool"
    and emit :: "('c, 'v, 'u, 'ee) emitter"
  assumes encode_len_bound:
      "good c \<Longrightarrow> can_encode_value C c v \<Longrightarrow> encode_len C c v \<le> max_encode_units_per_value C"
    and encode_law:
      "good c \<Longrightarrow> can_encode_value C c v \<Longrightarrow> i + encode_len C c v \<le> length out \<Longrightarrow>
        emit c v = (Inr us, c') \<Longrightarrow> encode C c v out i = (Ok (length us), c', splice_at out i us)"
    and encode_error_law:
      "good c \<Longrightarrow> can_encode_value C c v \<Longrightarrow> i + encode_len C c v \<le> length out \<Longrightarrow>
        emit c v = (Inl e, c') \<Longrightarrow> \<exists>out'. encode C c v out i = (Err e, c', out') \<and>
          length out' = length out \<and> take i out' = take i out"
    and emit_len: "good c \<Longrightarrow> can_encode_value C c v \<Longrightarrow> emit c v = (Inr us, c') \<Longrightarrow>
        length us = encode_len C c v"
    and emit_good: "good c \<Longrightarrow> can_encode_value C c v \<Longrightarrow> good (snd (emit c v))"

text \<open>The engine's contract adds the hooks: their policy depends on the value only, changes no
  state, and replaces a value by an encodable one.\<close>

locale encoder_codec = emitting_codec C good emit
  for C :: "('c, 'v, 'u, 'de, 'ee) codec"
    and H :: "('h, 'c, 'v, 'u, 'ee) encode_hooks"
    and good :: "'c \<Rightarrow> bool"
    and emit :: "('c, 'v, 'u, 'ee) emitter"
    and act :: "'h \<Rightarrow> 'v \<Rightarrow> 'v unencodable_action" +
  assumes policy_law: "eh_handle_unencodable H h c ctx = (Ok (act h (ec_input_value ctx)), h, c)"
    and replacement_encodable: "good c \<Longrightarrow> act h v = ReplaceValue w \<Longrightarrow> can_encode_value C c w"
begin

lemma emit_turn_writes:
  assumes "good c" "can_encode_value C c w" "emit_turn C emit i c w room = TurnWrite us c'"
  shows "length us \<le> room \<and> length us \<le> max_encode_units_per_value C \<and> good c'"
  using assms emit_len [OF assms(1,2)] emit_good [OF assms(1,2)] encode_len_bound [OF assms(1,2)]
  by (auto simp: emit_turn_def split: if_splits prod.splits sum.splits)

lemma encode_turn_writes:
  assumes "good c" "encode_turn C emit (act h) i c v room = TurnWrite us c'"
  shows "length us \<le> room \<and> length us \<le> max_encode_units_per_value C \<and> good c'"
  using assms
  by (auto simp: encode_turn_def dest!: emit_turn_writes [OF assms(1), rotated]
      intro: replacement_encodable split: if_splits unencodable_action.splits)

lemma encode_turn_need:
  assumes "encode_turn C emit (act h) i c v room = TurnNeedOutput req" "good c"
  shows "room < nz_get req \<and> nz_get req \<le> max_encode_units_per_value C"
  using assms(1) encode_len_bound [OF assms(2)] replacement_encodable [OF assms(2)]
  by (auto simp: encode_turn_def emit_turn_def split: if_splits unencodable_action.splits
      prod.splits sum.splits)

text \<open>With the declared bound as room, no turn asks for more, and the units fit the bound.\<close>

lemma stream_bound:
  assumes "good c" "encode_stream C emit (act h) i c vs room = (q, n, us, c')"
  shows "n \<le> length vs \<and> length us \<le> n * max_encode_units_per_value C \<and> length us \<le> room \<and>
    (length vs * max_encode_units_per_value C \<le> room \<longrightarrow> (\<forall>req. q \<noteq> Ok (Some req))) \<and>
    (\<forall>req. q = Ok (Some req) \<longrightarrow> room - length us < nz_get req)"
  using assms
proof (induction vs arbitrary: i c room q n us c')
  case Nil
  then have "q = Ok None" "us = []" "n = 0" by auto
  then show ?case by simp
next
  case (Cons v vs)
  let ?m = "max_encode_units_per_value C"
  show ?case
  proof (cases "encode_turn C emit (act h) i c v room")
    case (TurnNeedOutput req)
    from encode_turn_need [OF this Cons.prems(1)] have "room < nz_get req" "nz_get req \<le> ?m" by auto
    with TurnNeedOutput Cons.prems(2) show ?thesis by auto
  next
    case (TurnReject e c1)
    with Cons.prems(2) show ?thesis by auto
  next
    case (TurnWrite u c1)
    obtain q2 n2 us2 c2 where
      rec: "encode_stream C emit (act h) (i + 1) c1 vs (room - length u) = (q2, n2, us2, c2)"
      by (metis prod_cases4)
    with TurnWrite Cons.prems(2) have eq: "q = q2" "n = n2 + 1" "us = u @ us2" by auto
    note w = encode_turn_writes [OF Cons.prems(1) TurnWrite]
    then have IH: "n2 \<le> length vs" "length us2 \<le> n2 * ?m" "length us2 \<le> room - length u"
      "length vs * ?m \<le> room - length u \<Longrightarrow> q2 \<noteq> Ok (Some req)"
      "q2 = Ok (Some req) \<Longrightarrow> room - length u - length us2 < nz_get req" for req
      using Cons.IH [OF _ rec] by simp_all
    have "length vs * ?m \<le> room - length u" if "length (v # vs) * ?m \<le> room"
      using that w by (simp add: le_diff_conv2)
    then have "length (v # vs) * ?m \<le> room \<Longrightarrow> q \<noteq> Ok (Some req)" for req
      using IH(4) eq(1) by simp
    then show ?thesis using IH(1,2,3,5) w eq by (simp add: add_mono) linarith
  qed
qed

lemma encode_stream_Ok_cases:
  assumes "encode_stream C emit (act h) i c (v # vs) room = (Ok x, n, us, c')"
  obtains (stop) req where "x = Some req" "n = 0" "us = []" "c' = c"
      "encode_turn C emit (act h) i c v room = TurnNeedOutput req"
  | (go) u c1 m us1 where "encode_turn C emit (act h) i c v room = TurnWrite u c1"
      "encode_stream C emit (act h) (i + 1) c1 vs (room - length u) = (Ok x, m, us1, c')"
      "n = m + 1" "us = u @ us1"
  using assms by (auto split: encode_turn.splits prod.splits)

lemma stream_complete:
  assumes "encode_stream C emit (act h) i c vs room = (Ok None, n, us, c')"
  shows "n = length vs"
  using assms
proof (induction vs arbitrary: i c room n us)
  case (Cons v vs)
  from Cons.prems show ?case
  proof (cases rule: encode_stream_Ok_cases)
    case (go u c1 m us1)
    with Cons.IH show ?thesis by simp
  qed simp
qed simp

lemma stream_no_panic: "fst (encode_stream C emit (act h) i c vs room) \<noteq> Panic"
proof (induction vs arbitrary: i c room)
  case (Cons v vs)
  show ?case
  proof (cases "encode_turn C emit (act h) i c v room")
    case (TurnWrite us c1)
    with Cons [of "i + 1" c1 "room - length us"] show ?thesis by (auto split: prod.splits)
  qed simp_all
qed simp

lemma stream_good:
  assumes "good c" "encode_stream C emit (act h) i c vs room = (Ok x, n, us, c')"
  shows "good c'"
  using assms
proof (induction vs arbitrary: i c room n us)
  case (Cons v vs)
  from Cons.prems(2) show ?case
  proof (cases rule: encode_stream_Ok_cases)
    case (go u c1 m us1)
    with encode_turn_writes [OF Cons.prems(1) go(1)] Cons.IH show ?thesis by blast
  qed (use Cons.prems in simp)
qed simp

text \<open>Windows: stopping for lack of room and going on in a window at least as large as the room
  left over is the same as not stopping.\<close>

lemma encode_turn_more_room:
  assumes "encode_turn C emit (act h) i c v room = TurnWrite us c'" "room \<le> room'"
  shows "encode_turn C emit (act h) i c v room' = TurnWrite us c'"
  using assms by (auto simp: encode_turn_def emit_turn_def split: if_splits unencodable_action.splits
      prod.splits sum.splits)

lemma stream_resume:
  assumes "good c" "encode_stream C emit (act h) i c vs room = (Ok x, n, us, c')"
    and "encode_stream C emit (act h) (i + n) c' (drop n vs) room2 = (q, n2, us2, c2)"
    and "room \<le> length us + room2"
  shows "encode_stream C emit (act h) i c vs (length us + room2) = (q, n + n2, us @ us2, c2)"
  using assms
proof (induction vs arbitrary: i c room n us)
  case Nil
  then show ?case by auto
next
  case (Cons v vs)
  from Cons.prems(2) show ?case
  proof (cases rule: encode_stream_Ok_cases)
    case (stop req)
    with Cons.prems(3) show ?thesis by simp
  next
    case (go u c1 m us1)
    note w = encode_turn_writes [OF Cons.prems(1) go(1)]
    have "encode_stream C emit (act h) (i + 1) c1 vs (length us1 + room2) = (q, m + n2, us1 @ us2, c2)"
      using Cons.prems(3,4) go(3,4) w by (intro Cons.IH [OF _ go(2)]) auto
    with encode_turn_more_room [OF go(1) Cons.prems(4)] go(3,4) show ?thesis by simp
  qed
qed

section \<open>The engine refines the specification\<close>

text \<open>One value.\<close>

lemma encode_value_refines:
  assumes "good (ee_codec eng)" "can_encode_value C (ee_codec eng) w"
    and "ea_output_index a \<le> length (ea_output a)" "a' = a\<lparr>ea_value := w\<rparr>"
    and "emit_turn C emit (ea_input_index a) (ee_codec eng) w (ea_available_output a) = t"
  shows "(\<forall>req. t = TurnNeedOutput req \<longrightarrow>
      encode_encodable_value C eng a' = (Ok (EncodeNeedOutput req), eng, ea_output a)) \<and>
    (\<forall>e c'. t = TurnReject e c' \<longrightarrow> (\<exists>out. encode_encodable_value C eng a' =
      (Err e, eng\<lparr>ee_codec := c'\<rparr>, out) \<and> length out = length (ea_output a) \<and>
      take (ea_output_index a) out = take (ea_output_index a) (ea_output a))) \<and>
    (\<forall>us c'. t = TurnWrite us c' \<longrightarrow> encode_encodable_value C eng a' =
      (Ok (Consumed (length us)), eng\<lparr>ee_codec := c'\<rparr>,
       splice_at (ea_output a) (ea_output_index a) us))"
proof -
  let ?c = "ee_codec eng" and ?i = "ea_output_index a" and ?out = "ea_output a"
  have a': "ea_value a' = w" "ea_output a' = ?out" "ea_output_index a' = ?i"
    "ea_input_index a' = ea_input_index a" "ea_available_output a' = ea_available_output a"
    using assms(4) by (simp_all add: ea_available_output_def)
  note bound = encode_len_bound [OF assms(1,2)]
  show ?thesis
  proof (cases "ea_available_output a < encode_len C ?c w")
    case True
    with assms(5) bound a' show ?thesis
      by (auto simp: emit_turn_def encode_encodable_value_def nz_expect_pos)
  next
    case room: False
    then have fits: "?i + encode_len C ?c w \<le> length ?out"
      using assms(3) by (simp add: ea_available_output_def saturating_sub_def)
    obtain x c1 where em: "emit ?c w = (x, c1)" by (metis surj_pair)
    show ?thesis
    proof (cases x)
      case (Inl e)
      with encode_error_law [OF assms(1,2) fits] em obtain out where
        "encode C ?c w ?out ?i = (Err e, c1, out)" "length out = length ?out" "take ?i out = take ?i ?out"
        by blast
      with room bound a' assms(5) em Inl show ?thesis
        by (auto simp: emit_turn_def encode_encodable_value_def call_encode_def)
    next
      case (Inr us)
      have "encode C ?c w ?out ?i = (Ok (length us), c1, splice_at ?out ?i us)"
        using encode_law [OF assms(1,2) fits] em Inr by simp
      moreover have "length us = encode_len C ?c w" using emit_len [OF assms(1,2)] em Inr by simp
      ultimately show ?thesis
        using room bound fits a' assms(5) em Inr
        by (auto simp: emit_turn_def encode_encodable_value_def call_encode_def)
    qed
  qed
qed

lemma encode_replacement_eq:
  "can_encode_value C (ee_codec eng) w \<Longrightarrow>
    encode_replacement_value C eng w a = encode_encodable_value C eng (a\<lparr>ea_value := w\<rparr>)"
  by (simp add: encode_replacement_value_def encode_encodable_value_def ea_available_output_def Let_def)

text \<open>One turn of the loop, and the whole loop.\<close>

lemma encode_value_turn:
  assumes "good (ee_codec eng)" "can_encode_value C (ee_codec eng) w"
    and "ea_output_index a \<le> length (ea_output a)"
  shows "encode_turn_result eng a
      (emit_turn C emit (ea_input_index a) (ee_codec eng) w (ea_available_output a))
      (encode_encodable_value C eng (a\<lparr>ea_value := w\<rparr>))"
  using encode_value_refines [OF assms refl refl]
  by (cases "emit_turn C emit (ea_input_index a) (ee_codec eng) w (ea_available_output a)")
    (simp_all add: encode_turn_result_def)

lemma encode_one_turn:
  assumes "good (ee_codec eng)" "ea_output_index a \<le> length (ea_output a)"
  shows "encode_turn_result eng a
      (encode_turn C emit (act (ee_hooks eng)) (ea_input_index a) (ee_codec eng) (ea_value a)
        (ea_available_output a))
      (encode_one C H eng a)"
proof -
  have ctx: "ec_input_value (ea_context a) = ea_value a" by (simp add: ea_context_def)
  note value_turn = encode_value_turn [OF assms(1) _ assms(2)]
  show ?thesis
  proof (cases "can_encode_value C (ee_codec eng) (ea_value a)")
    case True
    with value_turn [OF True] ctx show ?thesis by (simp add: encode_turn_def encode_one_def)
  next
    case False
    show ?thesis
    proof (cases "ea_available_output a < max_encode_units_per_value C")
      case True
      with False ctx show ?thesis
        by (simp add: encode_turn_def encode_one_def encode_turn_result_def nz_expect_pos)
    next
      case room: False
      note simps = False room ctx policy_law [of "ee_hooks eng" "ee_codec eng" "ea_context a"]
      show ?thesis
      proof (cases "act (ee_hooks eng) (ea_value a)")
        case RejectValue
        with simps show ?thesis by (simp add: encode_turn_def encode_one_def encode_turn_result_def)
      next
        case SkipValue
        with simps show ?thesis by (simp add: encode_turn_def encode_one_def encode_turn_result_def)
      next
        case (ReplaceValue w)
        note w = replacement_encodable [OF assms(1) ReplaceValue]
        from value_turn [OF w] simps ReplaceValue show ?thesis
          by (simp add: encode_turn_def encode_one_def encode_replacement_eq [OF w])
      qed
    qed
  qed
qed

lemma loop_refines:
  assumes "good (ee_codec eng)" "cursors_ok (es_state s)"
    and "encode_stream C emit (act (ee_hooks eng)) (ts_input_cursor (es_state s)) (ee_codec eng)
      (drop (ts_input_cursor (es_state s)) (ts_input (es_state s))) (es_available_output s)
      = (q, n, us, c')"
    and "ee_transcode_loop C H eng s = (r, eng', s')"
  shows "r = map_ok (encode_stream_progress s n us) q \<and> eng' = eng\<lparr>ee_codec := c'\<rparr> \<and>
    length (ts_output (es_state s')) = length (ts_output (es_state s)) \<and>
    take (ts_output_cursor (es_state s) + length us) (ts_output (es_state s')) =
      take (ts_output_cursor (es_state s)) (ts_output (es_state s)) @ us \<and>
    (\<forall>x. q = Ok x \<longrightarrow> ts_output (es_state s') =
      splice_at (ts_output (es_state s)) (ts_output_cursor (es_state s)) us)"
  using assms
proof (induction "length (ts_input (es_state s)) - ts_input_cursor (es_state s)"
    arbitrary: eng s q n us c' rule: less_induct)
  case less
  let ?i = "ts_input_cursor (es_state s)" and ?j = "ts_output_cursor (es_state s)"
  let ?out = "ts_output (es_state s)" and ?a = "es_context_unchecked s"
  have ij: "?i \<le> length (ts_input (es_state s))" "?j \<le> length ?out"
    using less.prems(2) by (simp_all add: cursors_ok_def)
  show ?case
  proof (cases "es_has_input s")
    case False
    then have "drop ?i (ts_input (es_state s)) = []" by (simp add: es_defs ts_defs)
    with less.prems(3,4) False ij show ?thesis
      by (auto simp: ee_transcode_loop.simps [of C H eng s] encode_stream_progress_def es_defs ts_defs
          progress_defs)
  next
    case True
    then have i: "?i < length (ts_input (es_state s))" by (simp add: es_defs ts_defs)
    let ?v = "ts_input (es_state s) ! ?i" and ?vs = "drop (Suc ?i) (ts_input (es_state s))"
    have dr: "drop ?i (ts_input (es_state s)) = ?v # ?vs" using i by (simp add: Cons_nth_drop_Suc)
    have a: "ea_value ?a = ?v" "ea_input_index ?a = ?i" "ea_output ?a = ?out" "ea_output_index ?a = ?j"
      "ea_available_output ?a = es_available_output s"
      by (simp_all add: es_defs ts_defs Let_def)
    obtain t where t: "encode_turn C emit (act (ee_hooks eng)) ?i (ee_codec eng) ?v (es_available_output s) = t"
      by blast
    have one: "encode_turn_result eng ?a t (encode_one C H eng ?a)"
      using encode_one_turn [OF less.prems(1), of ?a] a ij(2) t by simp
    note unfold = ee_transcode_loop.simps [of C H eng s]
    show ?thesis
    proof (cases t)
      case (TurnNeedOutput req)
      with one a(3) have one': "encode_one C H eng ?a = (Ok (EncodeNeedOutput req), eng, ?out)"
        by (simp add: encode_turn_result_def)
      have same: "es_set_output s ?out = s" by (simp add: es_defs ts_defs)
      have need: "es_available_output s < nz_get req"
        using encode_turn_need [OF t [unfolded TurnNeedOutput] less.prems(1)] by simp
      from less.prems(3) dr t TurnNeedOutput have q: "q = Ok (Some req)" "n = 0" "us = []" "c' = ee_codec eng"
        by simp_all
      from one' same need True unfold less.prems(4) have
        "r = Ok (es_need_output_progress_with s req)" "eng' = eng" "s' = s"
        by (simp_all add: ee_step_def)
      with q show ?thesis
        by (simp add: encode_stream_progress_def es_need_output_progress_with_def ts_defs progress_defs)
    next
      case (TurnReject e c1)
      with one a obtain out1 where one': "encode_one C H eng ?a = (Err e, eng\<lparr>ee_codec := c1\<rparr>, out1)"
        and out1: "length out1 = length ?out" "take ?j out1 = take ?j ?out"
        by (auto simp: encode_turn_result_def)
      from less.prems(3) dr t TurnReject have q: "q = Err e" "n = 0" "us = []" "c' = c1" by simp_all
      from one' True unfold less.prems(4) have
        "r = Err e" "eng' = eng\<lparr>ee_codec := c1\<rparr>" "s' = es_set_output s out1"
        by (simp_all add: ee_step_def)
      with q out1 show ?thesis by (simp add: es_defs ts_defs)
    next
      case (TurnWrite u c1)
      with one a have one': "encode_one C H eng ?a =
          (Ok (Consumed (length u)), eng\<lparr>ee_codec := c1\<rparr>, splice_at ?out ?j u)"
        by (simp add: encode_turn_result_def)
      note w = encode_turn_writes [OF less.prems(1) t [unfolded TurnWrite]]
      define s1 where "s1 = s\<lparr>es_state := ts_advance (ts_set_output (es_state s) (splice_at ?out ?j u)) 1 (length u)\<rparr>"
      have fits: "?j + length u \<le> length ?out"
        using w ij(2) by (simp add: es_defs ts_defs le_diff_conv2 add.commute)
      have step: "ee_step C H eng s = (Ok None, eng\<lparr>ee_codec := c1\<rparr>, s1)"
        using one' w fits by (simp add: ee_step_def s1_def es_defs ts_defs)
      have s1: "ts_input (es_state s1) = ts_input (es_state s)" "ts_input_cursor (es_state s1) = ?i + 1"
        "ts_output_cursor (es_state s1) = ?j + length u" "ts_output (es_state s1) = splice_at ?out ?j u"
        "ts_input_start (es_state s1) = ts_input_start (es_state s)"
        "ts_output_start (es_state s1) = ts_output_start (es_state s)"
        by (simp_all add: s1_def ts_defs)
      have av1: "es_available_output s1 = es_available_output s - length u"
        using s1 fits by (simp add: es_defs ts_defs)
      have cur1: "cursors_ok (es_state s1)"
        using less.prems(2) i s1 fits by (simp add: cursors_ok_def)
      obtain m us1 where
        rec: "encode_stream C emit (act (ee_hooks eng)) (?i + 1) c1 ?vs (es_available_output s - length u)
          = (q, m, us1, c')" and q: "n = m + 1" "us = u @ us1"
        using less.prems(3) dr t TurnWrite by (auto split: prod.splits)
      have loop: "ee_transcode_loop C H (eng\<lparr>ee_codec := c1\<rparr>) s1 = (r, eng', s')"
        using less.prems(4) unfold True step by simp
      have IH: "r = map_ok (encode_stream_progress s1 m us1) q \<and> eng' = eng\<lparr>ee_codec := c'\<rparr> \<and>
        length (ts_output (es_state s')) = length ?out \<and>
        take (?j + length u + length us1) (ts_output (es_state s')) =
          take (?j + length u) (splice_at ?out ?j u) @ us1 \<and>
        (\<forall>x. q = Ok x \<longrightarrow> ts_output (es_state s') =
          splice_at (splice_at ?out ?j u) (?j + length u) us1)"
        using less.hyps [OF _ _ cur1 _ loop, of q m us1 c'] rec w i s1 av1 fits by simp
      have "encode_stream_progress s1 m us1 = encode_stream_progress s n us"
        using s1 q by (simp add: encode_stream_progress_def fun_eq_iff add.commute add.left_commute)
      with IH q fits ij(2) show ?thesis
        by (simp add: splice_at_append splice_at_def ac_simps)
    qed
  qed
qed

text \<open>A whole call on an open stream.\<close>

lemma transcode_refines:
  assumes "good (ee_codec eng)" "stream_phase (ee_phase eng)" "i \<le> length input" "j \<le> length out"
    and spec: "encode_stream C emit (act (ee_hooks eng)) i (ee_codec eng) (drop i input) (length out - j)
      = (q, n, us, c')"
    and call: "ee_transcode C H eng input i out j = (r, eng', out')"
  shows "r = map_ok (encode_stream_report n us) q \<and> ee_codec eng' = c' \<and> ee_hooks eng' = ee_hooks eng \<and>
    ee_phase eng' = Streaming \<and> length out' = length out \<and> take (j + length us) out' = take j out @ us \<and>
    (\<forall>x. q = Ok x \<longrightarrow> out' = splice_at out j us)"
proof -
  let ?eng = "eng\<lparr>ee_lifecycle := (ee_lifecycle eng)\<lparr>guard_phase := Streaming\<rparr>\<rparr>"
  let ?s = "es_new input i out j"
  obtain r1 e1 s1 where loop: "ee_transcode_loop C H ?eng ?s = (r1, e1, s1)" by (metis prod_cases3)
  have guard: "on_transcode (ee_lifecycle eng) = (Ok (), (ee_lifecycle eng)\<lparr>guard_phase := Streaming\<rparr>)"
    using assms(2) by (simp add: on_transcode_Ok)
  have idx: "ensure_transcode_indices (length input) i (length out) j = Ok ()"
    using assms(3,4) by (simp add: check_simps)
  have res: "r = r1" "eng' = e1" "out' = ts_output (es_state s1)"
    using call guard idx loop by (simp_all add: ee_transcode_def)
  have s: "cursors_ok (es_state ?s)" "ts_input_cursor (es_state ?s) = i" "ts_input (es_state ?s) = input"
    "ts_output_cursor (es_state ?s) = j" "ts_output (es_state ?s) = out" "es_available_output ?s = length out - j"
    using assms(3,4) by (simp_all add: es_defs ts_defs cursors_ok_def)
  have rep: "encode_stream_progress ?s n us = encode_stream_report n us"
    by (simp add: fun_eq_iff encode_stream_progress_def encode_stream_report_def es_defs ts_defs)
  have "good (ee_codec ?eng)" using assms(1) by simp
  from loop_refines [OF this s(1) _ loop, of q n us c'] spec s rep res show ?thesis by simp
qed

end

section \<open>One-shot encoding\<close>

text \<open>
  The lifecycle part of the contract: resets and finishes do not panic and stay within their
  declared bounds, the hooks' declared transcode bound does not depend on the state and covers
  the codec's worst case per value. Together with \<open>encoder_codec\<close> it makes the engine a
  conforming \<open>Transcoder\<close>.
\<close>

locale encoder_lifecycle = encoder_codec +
  fixes bound :: "nat \<Rightarrow> nat capacity" and hook_finish :: nat
  assumes encode_reset_law: "good c \<Longrightarrow> j + max_encode_reset_units C \<le> length out \<Longrightarrow>
      encode_reset C c out j = (r, c', out') \<Longrightarrow>
      r \<noteq> Panic \<and> (\<forall>n. r = Ok n \<longrightarrow> n \<le> max_encode_reset_units C \<and> good c')"
    and encode_finish_law: "good c \<Longrightarrow> j + max_encode_finish_units C \<le> length out \<Longrightarrow>
      encode_finish C c out j = (r, c', out') \<Longrightarrow>
      r \<noteq> Panic \<and> (\<forall>n. r = Ok n \<longrightarrow> n \<le> max_encode_finish_units C \<and> good c')"
    and hook_reset_law: "good c \<Longrightarrow> \<exists>h' c'. eh_reset_hooks H h c = (Some (), h', c') \<and> good c'"
    and hook_bound_law: "eh_max_transcode_output_len H h c n = bound n"
    and bound_covers: "bound n \<noteq> Panic \<and> (\<forall>m. bound n = Ok m \<longrightarrow> n * max_encode_units_per_value C \<le> m)"
    and hook_finish_bound: "eh_max_finish_output_len H h c = hook_finish"
    and hook_finish_law: "good c \<Longrightarrow> j + hook_finish \<le> length out \<Longrightarrow>
      eh_finish_hooks H h c out j = (x, hc, out') \<Longrightarrow>
      x \<noteq> Panic \<and> (\<forall>n. x = Ok n \<longrightarrow> n \<le> hook_finish)"
begin

lemma ee_reset_conforms:
  assumes "good (ee_codec eng)" "j + max_encode_reset_units C \<le> length out"
    and "ee_reset C H eng out j = (r, eng', out')"
  shows "r \<noteq> Panic \<and> (\<forall>n. r = Ok n \<longrightarrow> n \<le> max_encode_reset_units C \<and>
    good (ee_codec eng') \<and> ee_phase eng' = Fresh)"
proof -
  obtain h1 c1 where h: "eh_reset_hooks H (ee_hooks eng) (ee_codec eng) = (Some (), h1, c1)" "good c1"
    using hook_reset_law [OF assms(1)] by blast
  obtain q c2 o2 where e: "encode_reset C c1 out j = (q, c2, o2)" by (metis prod_cases3)
  have cap: "ensure_output_capacity (length out) j (max_encode_reset_units C) = Ok ()"
    using assms(2) by (simp add: check_simps)
  from encode_reset_law [OF h(2) assms(2) e] h e cap assms(3) show ?thesis
    by (cases q) (auto simp: ee_reset_def ee_max_reset_output_len_def call_encode_reset_def Let_def guard_defs)
qed

lemma ee_finish_conforms:
  assumes "good (ee_codec eng)" "stream_phase (ee_phase eng)"
    and "max_encode_finish_units C + hook_finish \<le> usize_max"
    and "j + (max_encode_finish_units C + hook_finish) \<le> length out"
    and "ee_finish C H eng out j = (r, eng', out')"
  shows "r \<noteq> Panic \<and> (\<forall>n. r = Ok n \<longrightarrow> n \<le> max_encode_finish_units C + hook_finish)"
proof -
  obtain q c1 o1 where f: "encode_finish C (ee_codec eng) out j = (q, c1, o1)" by (metis prod_cases3)
  have "j + max_encode_finish_units C \<le> length out" using assms(4) by simp
  note law = encode_finish_law [OF assms(1) this f]
  let ?o = "write_back out o1"
  have pre: "on_finish_attempt (ee_lifecycle eng) = Ok ()"
    "checked_add (max_encode_finish_units C) hook_finish = Some (max_encode_finish_units C + hook_finish)"
    "ensure_output_capacity (length out) j (max_encode_finish_units C + hook_finish) = Ok ()"
    using assms by (simp_all add: on_finish_attempt_Ok checked_add_def check_simps)
  show ?thesis
  proof (cases q)
    case (Ok n)
    obtain r2 hc2 o2 where h: "eh_finish_hooks H (ee_hooks eng) c1 ?o (j + n) = (r2, hc2, o2)"
      by (metis prod_cases3)
    have "j + n + hook_finish \<le> length ?o" using law Ok assms(4) by auto
    from hook_finish_law [OF _ this h] law Ok f h pre assms(5) show ?thesis
      by (cases r2) (auto simp: ee_finish_def hook_finish_bound call_encode_finish_def Let_def
          split: prod.splits)
  qed (use law f pre assms(5) in \<open>auto simp: ee_finish_def hook_finish_bound call_encode_finish_def Let_def\<close>)
qed

lemma ee_bounds:
  "ee_max_reset_output_len C eng = Ok (max_encode_reset_units C)"
  "ee_max_transcode_output_len H eng n = bound n"
  "ee_max_finish_output_len C H eng =
    ok_or CapacityOutputLengthOverflow (checked_add (max_encode_finish_units C) hook_finish)"
  by (simp_all add: ee_max_reset_output_len_def ee_max_transcode_output_len_def hook_bound_law
      ee_max_finish_output_len_def hook_finish_bound)

lemma ee_transcode_eof_conforms:
  assumes "good (ee_codec eng)" "stream_phase (ee_phase eng)" "bound (length input) = Ok m"
    and "j + m \<le> length out" "length input \<le> usize_max" "length out \<le> usize_max"
    and call: "default_transcode_eof EncodeFailure (ee_transcode C H) eng input 0 out j = (r, eng', out')"
  shows "r \<noteq> Panic \<and> (\<forall>p. r = Ok p \<longrightarrow> good (ee_codec eng') \<and> stream_phase (ee_phase eng') \<and>
    valid_progress p 0 (length input) j (length out - j) \<and> tp_status p = Complete \<and> tp_written p \<le> m)"
proof -
  obtain q n us c' where
    spec: "encode_stream C emit (act (ee_hooks eng)) 0 (ee_codec eng) (drop 0 input) (length out - j) = (q, n, us, c')"
    by (metis prod_cases4)
  obtain r1 e1 o1 where tr: "ee_transcode C H eng input 0 out j = (r1, e1, o1)" by (metis prod_cases3)
  have idx: "0 \<le> length input" "j \<le> length out" using assms(4) by simp_all
  note ref = transcode_refines [OF assms(1,2) idx spec tr]
  note sb = stream_bound [OF assms(1) spec]
  have room: "length input * max_encode_units_per_value C \<le> m" "m \<le> length out - j"
    using bound_covers assms(3,4) by auto
  have chk: "ensure_transcode_indices (length input) 0 (length out) j = Ok ()"
    using idx by (simp add: check_simps)
  have len: "write_back out o1 = o1" using ref by simp
  show ?thesis
  proof (cases q)
    case (Ok x)
    with sb room have x: "x = None" by (cases x) auto
    then have n: "n = length input" using stream_complete spec Ok by simp
    have "length us \<le> m" using sb n room(1) by (meson le_trans)
    with n have v: "valid_progress (encode_stream_report n us None) 0 (length input) j (length out - j)"
      using assms(4,5,6) by (auto simp: valid_progress_def encode_stream_report_def progress_defs)
    then have val: "validate (encode_stream_report n us None) 0 (length input) j (length out - j) = Ok ()"
      by (simp add: validate_Ok_iff)
    have st: "tp_status (encode_stream_report n us None) = Complete" by (simp add: encode_stream_report_def progress_defs)
    have "r = Ok (encode_stream_report n us None)" "eng' = e1"
      using call tr ref Ok x chk len val st by (simp_all add: default_transcode_eof_def Let_def)
    with v ref \<open>length us \<le> m\<close> stream_good [OF assms(1) spec [unfolded Ok]] show ?thesis
      by (auto simp: encode_stream_report_def progress_defs stream_phase_def)
  next
    case (Err e)
    with call tr ref chk len show ?thesis by (auto simp: default_transcode_eof_def Let_def)
  next
    case Panic
    with stream_no_panic spec show ?thesis by (metis fst_conv)
  qed
qed

end

text \<open>A conforming codec with conforming hooks makes the engine a conforming \<open>Transcoder\<close>.\<close>

sublocale encoder_lifecycle \<subseteq> encode_stream: transcoder_contract "encode_transcoder C H"
  "\<lambda>eng. good (ee_codec eng)" "\<lambda>eng. stream_phase (ee_phase eng)"
proof
  fix eng n
  show "max_reset_output_len (encode_transcoder C H) eng \<noteq> Panic \<and>
      max_transcode_output_len (encode_transcoder C H) eng n \<noteq> Panic \<and>
      max_finish_output_len (encode_transcoder C H) eng \<noteq> Panic"
    using bound_covers by (simp add: encode_transcoder_def ee_bounds)
next
  fix eng m out r eng' out'
  assume good: "good (ee_codec eng)" and m: "max_reset_output_len (encode_transcoder C H) eng = Ok m"
    "m \<le> length out" and call: "tr_reset (encode_transcoder C H) eng out 0 = (r, eng', out')"
  from m call have "0 + max_encode_reset_units C \<le> length out" "ee_reset C H eng out 0 = (r, eng', out')"
    by (simp_all add: encode_transcoder_def ee_bounds)
  from ee_reset_conforms [OF good this] m
  show "r \<noteq> Panic \<and> (\<forall>n. r = Ok n \<longrightarrow> n \<le> m \<and> good (ee_codec eng') \<and> stream_phase (ee_phase eng') \<and>
      max_transcode_output_len (encode_transcoder C H) eng' = max_transcode_output_len (encode_transcoder C H) eng \<and>
      max_finish_output_len (encode_transcoder C H) eng' = max_finish_output_len (encode_transcoder C H) eng)"
    by (auto simp: encode_transcoder_def ee_bounds stream_phase_def fun_eq_iff)
next
  fix eng input m j out q eng' out'
  assume good: "good (ee_codec eng)" and ph: "stream_phase (ee_phase eng)"
    and m: "max_transcode_output_len (encode_transcoder C H) eng (length input) = Ok m"
    and len: "j + m \<le> length out" "length input \<le> usize_max" "length out \<le> usize_max"
    and call: "tr_transcode_eof (encode_transcoder C H) eng input 0 out j = (q, eng', out')"
  have "bound (length input) = Ok m" using m by (simp add: encode_transcoder_def ee_bounds)
  from ee_transcode_eof_conforms [OF good ph this len, of q eng' out'] call
  show "q \<noteq> Panic \<and> (\<forall>p. q = Ok p \<longrightarrow> good (ee_codec eng') \<and> stream_phase (ee_phase eng') \<and>
      valid_progress p 0 (length input) j (length out - j) \<and> tp_status p = Complete \<and> tp_written p \<le> m \<and>
      max_finish_output_len (encode_transcoder C H) eng' = max_finish_output_len (encode_transcoder C H) eng)"
    by (simp add: encode_transcoder_def ee_bounds)
next
  fix eng m j out r eng' out'
  assume good: "good (ee_codec eng)" and ph: "stream_phase (ee_phase eng)"
    and m: "max_finish_output_len (encode_transcoder C H) eng = Ok m"
    and len: "j + m \<le> length out" and call: "tr_finish (encode_transcoder C H) eng out j = (r, eng', out')"
  have fin: "m = max_encode_finish_units C + hook_finish" "m \<le> usize_max"
    using m by (simp_all add: encode_transcoder_def ee_bounds checked_add_eq_Some)
  from ee_finish_conforms [OF good ph, of j out r eng' out'] fin len call
  show "r \<noteq> Panic \<and> (\<forall>n. r = Ok n \<longrightarrow> n \<le> m)" by (simp add: encode_transcoder_def)
qed

context encoder_lifecycle
begin

lemma one_shot_total:
  assumes "good (ee_codec eng)" "length input \<le> usize_max" "length out \<le> usize_max"
    and "ee_transcode_complete_into C H eng input out = (r, eng', out')"
  shows "r \<noteq> Panic"
  using encode_stream.complete_into_total [OF assms(1-3)] assms(4)
  by (simp add: ee_transcode_complete_into_def)

end

end
