(* ===== verification/DecodeContract.thy ===== *)
theory DecodeContract
  imports DecodeEngine
begin

text \<open>
  What the decode engine computes when the codec and the hooks keep the contract their traits
  document. The specification \<open>decode_stream\<close> works on lists: it consumes units and
  produces values while there is room, with no slices, indices or cursors. The locale
  \<open>decoder_codec\<close> states the contract and shows that the engine's loop refines the
  specification; \<open>incremental_decoder\<close> adds that a codec's verdict on a value does not
  change when more input follows it, and derives that the decoded values do not depend on how
  input and output are cut into chunks.
\<close>

section \<open>Specification\<close>

datatype ('e, 'v, 'c) decode_turn =
    TurnMore nonzero 'c
  | TurnReject 'e 'c
  | TurnTake nonzero "'v option" 'c

type_synonym ('c, 'v, 'u, 'de) parser =
  "'c \<Rightarrow> bool \<Rightarrow> 'u list \<Rightarrow> ('de decode_failure + 'v \<times> nonzero) \<times> 'c"

text \<open>The incomplete-input policy at the end of the input: the tail is rejected, or consumed
  whole.\<close>

fun settle_incomplete ::
  "('de option \<Rightarrow> nonzero \<Rightarrow> 'v incomplete_action) \<Rightarrow> nat \<Rightarrow> nat \<Rightarrow> 'de option \<Rightarrow> nonzero \<Rightarrow> 'c \<Rightarrow>
   ('de decode_error, 'v, 'c) decode_turn" where
  "settle_incomplete on_incomplete i available src req c =
    (case on_incomplete src req of
       IncompleteReject \<Rightarrow>
         TurnReject (case src of
             Some e \<Rightarrow> DecodeDomain (DomainMain e i None)
           | None \<Rightarrow> DecodeFailed (IncompleteInput i (nz_get req) available)) c
     | IncompleteSkip \<Rightarrow> TurnTake (NZ (available - 1)) None c
     | IncompleteEmit v \<Rightarrow> TurnTake (NZ (available - 1)) (Some v) c)"

definition decode_turn ::
  "('c, 'v, 'u, 'de, 'ee) codec \<Rightarrow> ('c, 'v, 'u, 'de) parser \<Rightarrow>
   ('de \<Rightarrow> nonzero option \<Rightarrow> 'v invalid_action) \<Rightarrow> ('de option \<Rightarrow> nonzero \<Rightarrow> 'v incomplete_action) \<Rightarrow>
   bool \<Rightarrow> nat \<Rightarrow> 'c \<Rightarrow> 'u list \<Rightarrow> ('de decode_error, 'v, 'c) decode_turn" where
  "decode_turn C parse on_invalid on_incomplete eof i c xs =
    (if length xs < min_units_per_value C then
       if \<not> eof then TurnMore (NZ (min_units_per_value C - 1)) c
       else settle_incomplete on_incomplete i (length xs) None (NZ (min_units_per_value C - 1)) c
     else case parse c eof xs of
       (Inr (v, n), c') \<Rightarrow> TurnTake n (Some v) c'
     | (Inl (Incomplete src req), c') \<Rightarrow>
         if \<not> eof then TurnMore req c'
         else settle_incomplete on_incomplete i (length xs) src req c'
     | (Inl (Invalid e n), c') \<Rightarrow>
         (case on_invalid e n of
            InvalidReject \<Rightarrow> TurnReject (DecodeDomain (DomainMain e i n)) c'
          | InvalidSkip m \<Rightarrow> TurnTake m None c'
          | InvalidEmit v m \<Rightarrow> TurnTake m (Some v) c'))"

fun option_list :: "'v option \<Rightarrow> 'v list" where
  "option_list None = []"
| "option_list (Some v) = [v]"

text \<open>The units consumed, the values produced and the codec state reached, with the status the
  stream stopped at.\<close>

function decode_stream ::
  "('c, 'v, 'u, 'de, 'ee) codec \<Rightarrow> ('c, 'v, 'u, 'de) parser \<Rightarrow>
   ('de \<Rightarrow> nonzero option \<Rightarrow> 'v invalid_action) \<Rightarrow> ('de option \<Rightarrow> nonzero \<Rightarrow> 'v incomplete_action) \<Rightarrow>
   bool \<Rightarrow> nat \<Rightarrow> 'c \<Rightarrow> 'u list \<Rightarrow> nat \<Rightarrow>
   ('de decode_error, transcode_status) res \<times> nat \<times> 'v list \<times> 'c" where
  "decode_stream C parse on_invalid on_incomplete eof i c xs room =
    (if xs = [] then (Ok Complete, 0, [], c)
     else if length xs < min_units_per_value C \<and> \<not> eof
     then (Ok (NeedInput (NZ (min_units_per_value C - 1))), 0, [], c)
     else if room = 0 then (Ok (NeedOutput nz_min), 0, [], c)
     else case decode_turn C parse on_invalid on_incomplete eof i c xs of
       TurnMore req c' \<Rightarrow> (Ok (NeedInput req), 0, [], c')
     | TurnReject e c' \<Rightarrow> (Err e, 0, [], c')
     | TurnTake n v c' \<Rightarrow>
         (case decode_stream C parse on_invalid on_incomplete eof (i + nz_get n) c'
                 (drop (nz_get n) xs) (room - length (option_list v)) of
            (q, m, vs, c'') \<Rightarrow> (q, nz_get n + m, option_list v @ vs, c'')))"
  by pat_completeness auto
termination
  by (relation "measure (\<lambda>(C, p, f, g, eof, i, c, xs, room). length xs)") auto

declare decode_stream.simps [simp del]

text \<open>The four ways a stream goes on, as equations.\<close>

lemma decode_stream_Nil [simp]: "decode_stream C p f g eof i c [] room = (Ok Complete, 0, [], c)"
  by (simp add: decode_stream.simps)

lemma decode_stream_short:
  "xs \<noteq> [] \<Longrightarrow> length xs < min_units_per_value C \<Longrightarrow> \<not> eof \<Longrightarrow>
    decode_stream C p f g eof i c xs room = (Ok (NeedInput (NZ (min_units_per_value C - 1))), 0, [], c)"
  by (simp add: decode_stream.simps)

lemma decode_stream_full:
  "xs \<noteq> [] \<Longrightarrow> \<not> (length xs < min_units_per_value C \<and> \<not> eof) \<Longrightarrow>
    decode_stream C p f g eof i c xs 0 = (Ok (NeedOutput nz_min), 0, [], c)"
  by (simp add: decode_stream.simps)

lemma decode_stream_turn:
  "xs \<noteq> [] \<Longrightarrow> \<not> (length xs < min_units_per_value C \<and> \<not> eof) \<Longrightarrow> 0 < room \<Longrightarrow>
    decode_stream C p f g eof i c xs room =
      (case decode_turn C p f g eof i c xs of
         TurnMore req c' \<Rightarrow> (Ok (NeedInput req), 0, [], c')
       | TurnReject e c' \<Rightarrow> (Err e, 0, [], c')
       | TurnTake n v c' \<Rightarrow>
           (case decode_stream C p f g eof (i + nz_get n) c' (drop (nz_get n) xs)
               (room - length (option_list v)) of
              (q, m, vs, c'') \<Rightarrow> (q, nz_get n + m, option_list v @ vs, c'')))"
  by (subst decode_stream.simps) auto

text \<open>A turn of the specification as a result of \<open>decode_one\<close>.\<close>

fun decode_turn_outcome ::
  "('c, 'h) decode_engine \<Rightarrow> ('v \<Rightarrow> 'r) \<Rightarrow> ('de decode_error, 'v, 'c) decode_turn \<Rightarrow>
   ('de decode_error, decode_outcome \<times> 'r option) res \<times> ('c, 'h) decode_engine" where
  "decode_turn_outcome eng k (TurnMore req c') = (Ok (DecodeNeedInput req, None), eng\<lparr>de_codec := c'\<rparr>)"
| "decode_turn_outcome eng k (TurnReject e c') = (Err e, eng\<lparr>de_codec := c'\<rparr>)"
| "decode_turn_outcome eng k (TurnTake n None c') = (Ok (Skipped n, None), eng\<lparr>de_codec := c'\<rparr>)"
| "decode_turn_outcome eng k (TurnTake n (Some v) c') =
     (Ok (Emitted n nz_min, Some (k v)), eng\<lparr>de_codec := c'\<rparr>)"

text \<open>The report of a loop that starts at the cursors of \<open>s\<close>.\<close>

definition decode_stream_progress :: "('u, 'v) decode_state \<Rightarrow> nat \<Rightarrow> 'v list \<Rightarrow> transcode_status \<Rightarrow> transcode_progress" where
  "decode_stream_progress s n vs st =
    progress_new st (ts_input_cursor (ds_state s) + n - ts_input_start (ds_state s))
      (ts_output_cursor (ds_state s) + length vs - ts_output_start (ds_state s))"

section \<open>The contract\<close>

fun sum_res :: "'e + 'a \<Rightarrow> ('e, 'a) res" where
  "sum_res (Inl e) = Err e"
| "sum_res (Inr x) = Ok x"

text \<open>
  \<open>good\<close> is the codec's invariant; \<open>parse\<close> gives the codec's verdict on the input from
  the index it is called with, on an open stream or at end of input. A value or a failure
  respects the counts the trait documents.
\<close>

locale parsing_codec =
  fixes C :: "('c, 'v, 'u, 'de, 'ee) codec"
    and good :: "'c \<Rightarrow> bool"
    and parse :: "('c, 'v, 'u, 'de) parser"
  assumes codec_bounds: "unit_bounds C"
    and decode_law: "good c \<Longrightarrow> min_units_per_value C \<le> length input - i \<Longrightarrow>
        decode C c input i = apfst sum_res (parse c False (drop i input))"
    and decode_eof_law: "good c \<Longrightarrow> min_units_per_value C \<le> length input - i \<Longrightarrow>
        decode_eof C c input i = apfst sum_res (parse c True (drop i input))"
    and parse_good: "good c \<Longrightarrow> min_units_per_value C \<le> length xs \<Longrightarrow> good (snd (parse c e xs))"
    and parse_value: "good c \<Longrightarrow> min_units_per_value C \<le> length xs \<Longrightarrow>
        parse c e xs = (Inr (v, n), c') \<Longrightarrow>
        min_units_per_value C \<le> nz_get n \<and> nz_get n \<le> length xs \<and>
        nz_get n \<le> max_decode_units_per_value C"
    and parse_incomplete: "good c \<Longrightarrow> min_units_per_value C \<le> length xs \<Longrightarrow>
        parse c e xs = (Inl (Incomplete src req), c') \<Longrightarrow>
        length xs < nz_get req \<and> nz_get req \<le> max_decode_units_per_value C"
begin

lemma min_units_pos: "0 < min_units_per_value C"
  using codec_bounds by (simp add: unit_bounds_def)

end

text \<open>The verdict on a value or on an invalid input is final: more input after it, or the end of
  the input, does not change it. Asking for more input changes no state.\<close>

locale incremental_codec = parsing_codec +
  assumes value_final: "good c \<Longrightarrow> min_units_per_value C \<le> length xs \<Longrightarrow>
      parse c False xs = (Inr vn, c') \<Longrightarrow> parse c e (xs @ ys) = (Inr vn, c')"
    and invalid_final: "good c \<Longrightarrow> min_units_per_value C \<le> length xs \<Longrightarrow>
      parse c False xs = (Inl (Invalid err n), c') \<Longrightarrow> parse c e (xs @ ys) = (Inl (Invalid err n), c')"
    and incomplete_keeps: "good c \<Longrightarrow> min_units_per_value C \<le> length xs \<Longrightarrow>
      parse c False xs = (Inl (Incomplete src req), c') \<Longrightarrow> c' = c"

text \<open>The engine's contract adds the hooks: their policies depend on the failure only and change
  no state, and skip or replace within the visible input.\<close>

locale decoder_codec = parsing_codec C good parse
  for C :: "('c, 'v, 'u, 'de, 'ee) codec"
    and H :: "('h, 'c, 'v, 'de) decode_hooks"
    and good :: "'c \<Rightarrow> bool"
    and parse :: "('c, 'v, 'u, 'de) parser"
    and on_invalid :: "'h \<Rightarrow> 'de \<Rightarrow> nonzero option \<Rightarrow> 'v invalid_action"
    and on_incomplete :: "'h \<Rightarrow> 'de option \<Rightarrow> nonzero \<Rightarrow> 'v incomplete_action" +
  assumes invalid_policy: "good c \<Longrightarrow> min_units_per_value C \<le> length xs \<Longrightarrow>
        parse c e xs = (Inl (Invalid err consumed), c') \<Longrightarrow>
        dh_handle_invalid H h c' err consumed ctx = (Ok (on_invalid h err consumed), h, c') \<and>
        (\<forall>m v. on_invalid h err consumed = InvalidSkip m \<or>
            on_invalid h err consumed = InvalidEmit v m \<longrightarrow>
          nz_get m \<le> length xs)"
    and incomplete_policy: "good c \<Longrightarrow> min_units_per_value C \<le> length xs \<Longrightarrow>
        parse c True xs = (Inl (Incomplete src req), c') \<Longrightarrow>
        dh_handle_incomplete H h c' src req ctx = (Ok (on_incomplete h src req), h, c')"
    and tail_policy: "good c \<Longrightarrow> 0 < k \<Longrightarrow> k < min_units_per_value C \<Longrightarrow> dc_available ctx = k \<Longrightarrow>
        dh_handle_incomplete H h c None (NZ (min_units_per_value C - 1)) ctx =
          (Ok (on_incomplete h None (NZ (min_units_per_value C - 1))), h, c)"
begin

abbreviation turn :: "'h \<Rightarrow> bool \<Rightarrow> nat \<Rightarrow> 'c \<Rightarrow> 'u list \<Rightarrow> ('de decode_error, 'v, 'c) decode_turn" where
  "turn h \<equiv> decode_turn C parse (on_invalid h) (on_incomplete h)"

abbreviation stream :: "'h \<Rightarrow> bool \<Rightarrow> nat \<Rightarrow> 'c \<Rightarrow> 'u list \<Rightarrow> nat \<Rightarrow>
    ('de decode_error, transcode_status) res \<times> nat \<times> 'v list \<times> 'c" where
  "stream h \<equiv> decode_stream C parse (on_invalid h) (on_incomplete h)"

lemma min_pos: "0 < min_units_per_value C"
  using codec_bounds by (simp add: unit_bounds_def)

text \<open>What a turn may do.\<close>

lemma settle_take:
  assumes "settle_incomplete f i k src req c = TurnTake n v c'" "0 < k"
  shows "nz_get n = k \<and> c' = c"
  using assms by (auto split: incomplete_action.splits)

lemma turn_take:
  assumes "good c" "xs \<noteq> []" "turn h eof i c xs = TurnTake n v c'"
  shows "nz_get n \<le> length xs \<and> good c'"
proof (cases "length xs < min_units_per_value C")
  case True
  with assms settle_take [of "on_incomplete h" i "length xs" None _ c n v c'] show ?thesis
    by (auto simp: decode_turn_def simp del: settle_incomplete.simps split: if_splits)
next
  case False
  obtain r c1 where p: "parse c eof xs = (r, c1)" by (metis surj_pair)
  have g: "good c1" using parse_good [OF assms(1), of xs eof] False p by simp
  show ?thesis
  proof (cases r)
    case (Inr vn)
    with p False assms g parse_value [OF assms(1), of xs eof] show ?thesis
      by (cases vn) (auto simp: decode_turn_def)
  next
    case (Inl f)
    show ?thesis
    proof (cases f)
      case (Incomplete src req)
      with p Inl False assms g settle_take [of "on_incomplete h" i "length xs" src req c1 n v c']
      show ?thesis
        by (auto simp: decode_turn_def simp del: settle_incomplete.simps split: if_splits)
    next
      case (Invalid e k)
      with p Inl False assms g invalid_policy [OF assms(1), of xs eof e k c1 h] show ?thesis
        by (auto simp: decode_turn_def split: invalid_action.splits)
    qed
  qed
qed

lemma turn_more:
  assumes "good c" "turn h eof i c xs = TurnMore req c'"
  shows "\<not> eof \<and> length xs < nz_get req \<and> nz_get req \<le> max_decode_units_per_value C \<and> good c'"
  using assms parse_good [OF assms(1), of xs eof] parse_incomplete [OF assms(1), of xs eof]
    codec_bounds min_pos
  by (auto simp: decode_turn_def unit_bounds_def split: if_splits sum.splits prod.splits decode_failure.splits
      incomplete_action.splits invalid_action.splits)

section \<open>The engine refines the specification\<close>

lemma engine_same [simp]: "eng\<lparr>de_hooks := de_hooks eng, de_codec := c\<rparr> = eng\<lparr>de_codec := c\<rparr>"
  "eng\<lparr>de_codec := b, de_hooks := de_hooks eng, de_codec := c\<rparr> = eng\<lparr>de_codec := c\<rparr>"
  "eng\<lparr>de_codec := de_codec eng\<rparr> = eng"
  by (cases eng; simp)+

lemma nz_expect_length: "0 < n \<Longrightarrow> nz_expect n = Ok (NZ (n - 1))"
  by (rule nz_expect_pos)

lemma decode_turn_outcome_codec: "decode_turn_outcome (eng\<lparr>de_codec := c\<rparr>) k t = decode_turn_outcome eng k t"
  by (cases "(eng, k, t)" rule: decode_turn_outcome.cases) auto

lemma apply_incomplete_turn:
  assumes "dh_handle_incomplete H (de_hooks eng) (de_codec eng) src req ctx =
      (Ok (on_incomplete (de_hooks eng) src req), de_hooks eng, de_codec eng)"
    and "0 < dc_available ctx"
  shows "apply_incomplete_decode H eng src req ctx k =
    decode_turn_outcome eng (\<lambda>v. k v (dc_input_index ctx))
      (settle_incomplete (on_incomplete (de_hooks eng)) (dc_input_index ctx) (dc_available ctx) src req
        (de_codec eng))"
  using assms
  by (cases src) (auto simp: apply_incomplete_decode_def nz_expect_pos split: incomplete_action.splits)

lemma decode_one_turn:
  assumes "good (de_codec eng)" "xs = drop (dc_input_index ctx) input" "xs \<noteq> []"
    and av: "dc_available ctx = length xs"
  shows "decode_one C H eng input ctx eof k =
    decode_turn_outcome eng (\<lambda>v. k v (dc_input_index ctx))
      (turn (de_hooks eng) eof (dc_input_index ctx) (de_codec eng) xs)"
proof -
  let ?i = "dc_input_index ctx" and ?c = "de_codec eng" and ?h = "de_hooks eng"
  have pos: "0 < dc_available ctx" using assms(3) av by simp
  show ?thesis
  proof (cases "length xs < min_units_per_value C")
    case True
    with av pos tail_policy [OF assms(1) _ True] apply_incomplete_turn [of eng None _ ctx k] min_pos
    show ?thesis
      by (auto simp: decode_one_def decode_turn_def nz_expect_pos simp del: settle_incomplete.simps)
  next
    case False
    then have min: "min_units_per_value C \<le> length xs" "min_units_per_value C \<le> length input - ?i"
      using assms(2) by simp_all
    obtain r c' where p: "parse ?c eof xs = (r, c')" by (metis surj_pair)
    have dec: "(if eof then decode_eof C ?c input ?i else decode C ?c input ?i) = (sum_res r, c')"
      using decode_law [OF assms(1) min(2)] decode_eof_law [OF assms(1) min(2)] p assms(2) by auto
    note unfold = decode_one_def decode_turn_def Let_def
    show ?thesis
    proof (cases r)
      case (Inr vn)
      obtain v n where vn: "vn = (v, n)" by (cases vn)
      from parse_value [OF assms(1) min(1) p [unfolded Inr vn]] False av dec p Inr vn show ?thesis
        by (simp add: unfold)
    next
      case (Inl f)
      show ?thesis
      proof (cases f)
        case (Incomplete src req)
        note pi = p [unfolded Inl Incomplete]
        let ?eng = "eng\<lparr>de_codec := c'\<rparr>"
        show ?thesis
        proof (cases eof)
          case True
          have "dh_handle_incomplete H (de_hooks ?eng) (de_codec ?eng) src req ctx =
              (Ok (on_incomplete (de_hooks ?eng) src req), de_hooks ?eng, de_codec ?eng)"
            using incomplete_policy [OF assms(1) min(1)] pi True by simp
          from apply_incomplete_turn [OF this pos, of k]
            parse_incomplete [OF assms(1) min(1) pi] False av dec p Inl Incomplete True
          show ?thesis by (simp add: unfold decode_turn_outcome_codec del: settle_incomplete.simps)
        next
          case open_stream: False
          with parse_incomplete [OF assms(1) min(1) pi] False av dec p Inl Incomplete show ?thesis
            by (simp add: unfold)
        qed
      next
        case (Invalid e m)
        note pi = p [unfolded Inl Invalid]
        note pol = invalid_policy [OF assms(1) min(1) pi, of ?h ctx]
        show ?thesis
        proof (cases "on_invalid ?h e m")
          case InvalidReject
          with pol False av dec p Inl Invalid show ?thesis by (simp add: unfold)
        next
          case (InvalidSkip n)
          with pol False av dec p Inl Invalid pos show ?thesis by (simp add: unfold bound_consumed_def)
        next
          case (InvalidEmit v n)
          with pol False av dec p Inl Invalid pos show ?thesis by (simp add: unfold bound_consumed_def)
        qed
      qed
    qed
  qed
qed

lemma step_refines:
  assumes "good (de_codec eng)" "cursors_ok (ds_state s)" "ts_input (ds_state s) = input"
    and "ds_has_input s" "nz_get m = min_units_per_value C" "xs = drop (ts_input_cursor (ds_state s)) input"
    and "\<not> (length xs < min_units_per_value C \<and> \<not> eof)" "\<not> ds_needs_output s"
  shows "de_step C H input eof m eng s =
    (case turn (de_hooks eng) eof (ts_input_cursor (ds_state s)) (de_codec eng) xs of
       TurnMore req c' \<Rightarrow>
         (Ok (Some (ds_need_input_progress_with s req)), eng\<lparr>de_codec := c'\<rparr>, s)
     | TurnReject e c' \<Rightarrow> (Err e, eng\<lparr>de_codec := c'\<rparr>, s)
     | TurnTake n v c' \<Rightarrow> (Ok None, eng\<lparr>de_codec := c'\<rparr>,
         s\<lparr>ds_state := ts_advance (ts_set_output (ds_state s)
             (splice_at (ts_output (ds_state s)) (ts_output_cursor (ds_state s)) (option_list v)))
           (nz_get n) (length (option_list v))\<rparr>))"
proof -
  let ?ctx = "cursor_context (ds_state s)" and ?i = "ts_input_cursor (ds_state s)"
  let ?j = "ts_output_cursor (ds_state s)" and ?out = "ts_output (ds_state s)"
  have xs: "xs \<noteq> []" "length xs = ds_available s" "dc_available ?ctx = length xs"
    using assms(3,4,6) by (auto simp: ds_defs ts_defs)
  have j: "?j < length ?out"
    using assms(2,8) by (auto simp: ds_defs ts_defs cursors_ok_def)
  have at: "de_step C H input eof m eng s = de_decode_at C H eng input ?ctx eof s"
    using assms(5,7,8) xs
    by (cases eof) (auto simp: de_step_def ds_context_ok [OF assms(2)])
  have one: "decode_one C H eng input ?ctx eof (\<lambda>v _. ?out[?j := v]) =
      decode_turn_outcome eng (\<lambda>v. ?out[?j := v]) (turn (de_hooks eng) eof ?i (de_codec eng) xs)"
    using decode_one_turn [OF assms(1) _ xs(1,3), where input = input and k = "\<lambda>v _. ?out[?j := v]"
        and eof = eof] assms(6) by simp
  show ?thesis
  proof (cases "turn (de_hooks eng) eof ?i (de_codec eng) xs")
    case (TurnMore req c')
    with at one show ?thesis by (simp add: de_decode_at_def ds_output_cursor_def)
  next
    case (TurnReject e c')
    with at one show ?thesis by (simp add: de_decode_at_def ds_output_cursor_def)
  next
    case (TurnTake n v c')
    from turn_take [OF assms(1) xs(1) this] have n: "nz_get n \<le> ds_available s" using xs by simp
    show ?thesis
    proof (cases v)
      case None
      with at one TurnTake n show ?thesis
        by (simp add: de_decode_at_def ds_output_cursor_def ds_skip_def ts_defs)
    next
      case (Some w)
      have "nz_get nz_min \<le> ts_available_output (ds_state (ds_set_output s (?out[?j := w])))"
        using j by (simp add: ds_defs ts_defs)
      with at one TurnTake n Some j show ?thesis
        by (simp add: de_decode_at_def ds_output_cursor_def ds_accept_emitted_def splice_at_single)
          (simp add: ds_set_output_def)
    qed
  qed
qed

lemma loop_refines:
  assumes "good (de_codec eng)" "cursors_ok (ds_state s)" "ts_input (ds_state s) = input"
    and "nz_get m = min_units_per_value C"
    and "stream (de_hooks eng) eof (ts_input_cursor (ds_state s)) (de_codec eng)
      (drop (ts_input_cursor (ds_state s)) input) (length (ts_output (ds_state s)) - ts_output_cursor (ds_state s))
      = (q, n, vs, c')"
    and "de_transcode_loop C H input eof m eng s = (r, eng', s')"
  shows "r = map_ok (decode_stream_progress s n vs) q \<and> eng' = eng\<lparr>de_codec := c'\<rparr> \<and>
    ts_output (ds_state s') = splice_at (ts_output (ds_state s)) (ts_output_cursor (ds_state s)) vs"
  using assms
proof (induction "ds_available s" arbitrary: eng s q n vs c' rule: less_induct)
  case less
  let ?i = "ts_input_cursor (ds_state s)" and ?j = "ts_output_cursor (ds_state s)"
  let ?out = "ts_output (ds_state s)" and ?h = "de_hooks eng" and ?c = "de_codec eng"
  let ?xs = "drop ?i input"
  note ctx = ds_context_ok [OF less.prems(2)]
  have ij: "?i \<le> length input" "?j \<le> length ?out"
    using less.prems(2,3) by (simp_all add: cursors_ok_def)
  have av: "ds_available s = length ?xs" using less.prems(3) by (simp add: ds_defs ts_defs)
  note unfold = de_transcode_loop.simps [of C H input eof m eng s]
  note spec = less.prems(5)
  show ?case
  proof (cases "ds_has_input s")
    case False
    then have "?xs = []" using less.prems(3) by (simp add: ds_defs ts_defs)
    with spec less.prems(6) False unfold show ?thesis
      by (auto simp: decode_stream_progress_def ds_defs ts_defs progress_defs)
  next
    case True
    then have ne: "?xs \<noteq> []" using less.prems(3) by (simp add: ds_defs ts_defs)
    show ?thesis
    proof (cases "length ?xs < min_units_per_value C \<and> \<not> eof")
      case short: True
      with less.prems(4) av have
        step: "de_step C H input eof m eng s = (Ok (Some (ds_need_input_progress_with s m)), eng, s)"
        by (simp add: de_step_def ctx ds_available_def)
      have "NZ (min_units_per_value C - 1) = m" using less.prems(4) by (cases m) auto
      with spec decode_stream_short [OF ne, of C eof] short have "q = Ok (NeedInput m)" "n = 0" "vs = []" "c' = ?c" by simp_all
      moreover have "r = Ok (ds_need_input_progress_with s m)" "eng' = eng" "s' = s"
        using step True less.prems(6) unfold by auto
      ultimately show ?thesis
        by (simp add: decode_stream_progress_def ds_defs ts_defs progress_defs)
    next
      case long: False
      show ?thesis
      proof (cases "ds_needs_output s")
        case full: True
        with long less.prems(4) av have
          step: "de_step C H input eof m eng s = (Ok (Some (ds_need_output_progress s)), eng, s)"
          by (auto simp: de_step_def ctx ds_available_def)
        have "length ?out - ?j = 0" using full by (simp add: ds_defs ts_defs)
        with spec decode_stream_full [OF ne long] have "q = Ok (NeedOutput nz_min)" "n = 0" "vs = []" "c' = ?c" by simp_all
        moreover have "r = Ok (ds_need_output_progress s)" "eng' = eng" "s' = s"
          using step True less.prems(6) unfold by auto
        ultimately show ?thesis
          by (simp add: decode_stream_progress_def ds_defs ts_defs progress_defs)
      next
        case room: False
        then have jl: "?j < length ?out" using ij(2) by (simp add: ds_defs ts_defs)
        note step = step_refines [OF less.prems(1-3) True less.prems(4) refl long room]
        show ?thesis
        proof (cases "turn ?h eof ?i ?c ?xs")
          case (TurnMore req c1)
          with spec decode_stream_turn [OF ne long] jl have "q = Ok (NeedInput req)" "n = 0" "vs = []" "c' = c1" by simp_all
          moreover have "r = Ok (ds_need_input_progress_with s req)" "eng' = eng\<lparr>de_codec := c1\<rparr>" "s' = s"
            using step TurnMore True less.prems(6) unfold by auto
          ultimately show ?thesis
            by (simp add: decode_stream_progress_def ds_defs ts_defs progress_defs)
        next
          case (TurnReject e c1)
          with spec decode_stream_turn [OF ne long] jl have "q = Err e" "n = 0" "vs = []" "c' = c1" by simp_all
          with step TurnReject True less.prems(6) unfold show ?thesis by simp
        next
          case (TurnTake k v c1)
          note take = turn_take [OF less.prems(1) ne TurnTake]
          let ?w = "option_list v"
          have w: "length ?w \<le> 1" by (cases v) auto
          obtain k2 vs2 where
            rec: "stream ?h eof (?i + nz_get k) c1 (drop (nz_get k) ?xs) (length ?out - ?j - length ?w)
              = (q, k2, vs2, c')" and q: "n = nz_get k + k2" "vs = ?w @ vs2"
            using spec decode_stream_turn [OF ne long] jl TurnTake by (auto split: prod.splits)
          define s1 where "s1 = s\<lparr>ds_state := ts_advance (ts_set_output (ds_state s) (splice_at ?out ?j ?w))
            (nz_get k) (length ?w)\<rparr>"
          have s1: "ts_input (ds_state s1) = input" "ts_input_cursor (ds_state s1) = ?i + nz_get k"
            "ts_output_cursor (ds_state s1) = ?j + length ?w" "ts_output (ds_state s1) = splice_at ?out ?j ?w"
            "ts_input_start (ds_state s1) = ts_input_start (ds_state s)"
            "ts_output_start (ds_state s1) = ts_output_start (ds_state s)"
            using less.prems(3) by (simp_all add: s1_def ts_defs)
          have fits: "?j + length ?w \<le> length ?out" using w jl by simp
          have cur1: "cursors_ok (ds_state s1)"
            using less.prems(2,3) take s1 fits by (auto simp: cursors_ok_def)
          have smaller: "ds_available s1 < ds_available s"
            using s1 less.prems(3) take nz_sub_less [of k "length input" ?i] by (simp add: ds_defs ts_defs)
          have loop: "de_transcode_loop C H input eof m (eng\<lparr>de_codec := c1\<rparr>) s1 = (r, eng', s')"
            using less.prems(6) unfold True step TurnTake by (simp add: s1_def)
          have IH: "r = map_ok (decode_stream_progress s1 k2 vs2) q \<and> eng' = eng\<lparr>de_codec := c'\<rparr> \<and>
              ts_output (ds_state s') = splice_at (splice_at ?out ?j ?w) (?j + length ?w) vs2"
            using less.hyps [OF smaller _ cur1 s1(1) less.prems(4) _ loop, of q k2 vs2 c'] rec take s1 fits
            by (simp add: add.commute)
          have "decode_stream_progress s1 k2 vs2 = decode_stream_progress s n vs"
            using s1 q by (simp add: decode_stream_progress_def fun_eq_iff ac_simps)
          with IH q fits show ?thesis by (simp add: splice_at_append)
        qed
      qed
    qed
  qed
qed

text \<open>A whole call on an open stream.\<close>

lemma transcode_refines:
  assumes "good (de_codec eng)" "stream_phase (de_phase eng)" "i \<le> length input" "j \<le> length out"
    and spec: "stream (de_hooks eng) eof i (de_codec eng) (drop i input) (length out - j) = (q, n, vs, c')"
    and call: "de_transcode_with_eof C H eng input i out j eof = (r, eng', out')"
  shows "r = map_ok (\<lambda>st. progress_new st n (length vs)) q \<and> de_codec eng' = c' \<and>
    de_hooks eng' = de_hooks eng \<and> de_phase eng' = Streaming \<and> out' = splice_at out j vs"
proof -
  let ?eng = "eng\<lparr>de_lifecycle := (de_lifecycle eng)\<lparr>guard_phase := Streaming\<rparr>\<rparr>"
  let ?s = "ds_new input i out j" and ?m = "NZ (min_units_per_value C - 1)"
  obtain r1 e1 s1 where loop: "de_transcode_loop C H input eof ?m ?eng ?s = (r1, e1, s1)" by (metis prod_cases3)
  have guard: "on_transcode (de_lifecycle eng) = (Ok (), (de_lifecycle eng)\<lparr>guard_phase := Streaming\<rparr>)"
    using assms(2) by (simp add: on_transcode_Ok)
  have idx: "ensure_transcode_indices (length input) i (length out) j = Ok ()"
    using assms(3,4) by (simp add: check_simps)
  have m: "nz_get ?m = min_units_per_value C" using min_pos by simp
  have res: "r = r1" "eng' = e1" "out' = ts_output (ds_state s1)"
    using call guard idx loop min_pos by (simp_all add: de_transcode_with_eof_def nz_expect_pos)
  have s: "cursors_ok (ds_state ?s)" "ts_input (ds_state ?s) = input" "ts_input_cursor (ds_state ?s) = i"
    "ts_output_cursor (ds_state ?s) = j" "ts_output (ds_state ?s) = out"
    using assms(3,4) by (simp_all add: ds_defs ts_defs cursors_ok_def)
  have rep: "decode_stream_progress ?s n vs = (\<lambda>st. progress_new st n (length vs))"
    by (simp add: fun_eq_iff decode_stream_progress_def ds_defs ts_defs)
  have "good (de_codec ?eng)" using assms(1) by simp
  from loop_refines [OF this s(1,2) m _ loop, of q n vs c'] spec s rep res show ?thesis by simp
qed

section \<open>Bounds\<close>

lemma stream_cases:
  assumes "stream h eof i c xs room = (q, n, vs, c')" "good c"
  obtains
    (ended) "xs = []" "q = Ok Complete" "n = 0" "vs = []" "c' = c"
  | (short) "xs \<noteq> []" "\<not> eof" "length xs < min_units_per_value C"
      "q = Ok (NeedInput (NZ (min_units_per_value C - 1)))" "n = 0" "vs = []" "c' = c"
  | (full) "xs \<noteq> []" "room = 0" "q = Ok (NeedOutput nz_min)" "n = 0" "vs = []" "c' = c"
  | (more) req where "xs \<noteq> []" "\<not> eof" "0 < room" "turn h eof i c xs = TurnMore req c'"
      "q = Ok (NeedInput req)" "n = 0" "vs = []"
  | (reject) e where "xs \<noteq> []" "turn h eof i c xs = TurnReject e c'" "q = Err e" "n = 0" "vs = []"
  | (take) k v c1 m ws where "xs \<noteq> []" "0 < room"
      "\<not> (length xs < min_units_per_value C \<and> \<not> eof)" "turn h eof i c xs = TurnTake k v c1"
      "nz_get k \<le> length xs" "good c1" "n = nz_get k + m" "vs = option_list v @ ws"
      "stream h eof (i + nz_get k) c1 (drop (nz_get k) xs) (room - length (option_list v)) = (q, m, ws, c')"
proof (cases "xs = []")
  case True
  with assms ended show ?thesis by auto
next
  case ne: False
  show ?thesis
  proof (cases "length xs < min_units_per_value C \<and> \<not> eof")
    case True
    with assms ne short show ?thesis by (auto simp: decode_stream_short)
  next
    case long: False
    show ?thesis
    proof (cases "room = 0")
      case True
      with assms ne long full show ?thesis by (auto simp: decode_stream_full)
    next
      case False
      then have pos: "0 < room" by simp
      note eq = decode_stream_turn [OF ne long pos, of parse "on_invalid h" "on_incomplete h" i c]
      show ?thesis
      proof (cases "turn h eof i c xs")
        case (TurnMore req c1)
        from turn_more [OF assms(2) this] assms(1) eq TurnMore more [OF ne _ pos] show ?thesis by auto
      next
        case (TurnReject e c1)
        with assms(1) eq reject [OF ne] show ?thesis by auto
      next
        case (TurnTake k v c1)
        note t = turn_take [OF assms(2) ne TurnTake]
        obtain q2 m ws c2 where rec: "stream h eof (i + nz_get k) c1 (drop (nz_get k) xs)
            (room - length (option_list v)) = (q2, m, ws, c2)" by (metis prod_cases4)
        have "q2 = q" "n = nz_get k + m" "vs = option_list v @ ws" "c2 = c'"
          using assms(1) eq TurnTake rec by simp_all
        with take [OF ne pos long TurnTake] t rec show ?thesis by blast
      qed
    qed
  qed
qed

lemma option_list_length: "length (option_list v) \<le> 1"
  by (cases v) auto

lemma stream_bounds:
  assumes "good c" "stream h eof i c xs room = (q, n, vs, c')"
  shows "n \<le> length xs \<and> length vs \<le> room \<and> q \<noteq> Panic \<and> (q = Ok Complete \<longrightarrow> n = length xs) \<and>
    (eof \<longrightarrow> (\<forall>req. q \<noteq> Ok (NeedInput req))) \<and>
    (\<forall>req. q = Ok (NeedOutput req) \<longrightarrow> length vs = room \<and> n < length xs) \<and>
    ((\<exists>x. q = Ok x) \<longrightarrow> good c')"
  using assms
proof (induction "length xs" arbitrary: i c xs room q n vs rule: less_induct)
  case less
  from less.prems(2,1) show ?case
  proof (cases rule: stream_cases)
    case (more req)
    with turn_more [OF less.prems(1) more(4)] show ?thesis by simp
  next
    case (take k v c1 m ws)
    have smaller: "length (drop (nz_get k) xs) < length xs" using take(1) by (cases xs) auto
    from less.hyps [OF smaller take(6,9)] take option_list_length [of v]
    show ?thesis by auto
  qed (use less.prems in auto)
qed

text \<open>A rate of consumption bounds the number of values.\<close>

lemma stream_rate:
  assumes "good c" "stream h eof i c xs room = (q, n, vs, c')"
    and rate: "\<And>i c xs m v c'. good c \<Longrightarrow> xs \<noteq> [] \<Longrightarrow> turn h eof i c xs = TurnTake m v c' \<Longrightarrow> k \<le> nz_get m"
  shows "length vs * k \<le> n"
  using assms(1,2)
proof (induction "length xs" arbitrary: i c xs room q n vs rule: less_induct)
  case less
  from less.prems(2,1) show ?case
  proof (cases rule: stream_cases)
    case (take m v c1 n1 ws)
    have smaller: "length (drop (nz_get m) xs) < length xs" using take(1) by (cases xs) auto
    from less.hyps [OF smaller take(6,9)] take rate [OF less.prems(1) take(1,4)] show ?thesis
      by (cases v) auto
  qed simp_all
qed

lemma stream_enough_room:
  assumes "good c" "stream h eof i c xs room = (q, n, vs, c')" "length xs \<le> room * k"
    and rate: "\<And>i c xs m v c'. good c \<Longrightarrow> xs \<noteq> [] \<Longrightarrow> turn h eof i c xs = TurnTake m v c' \<Longrightarrow> k \<le> nz_get m"
  shows "q \<noteq> Ok (NeedOutput req)"
proof
  assume "q = Ok (NeedOutput req)"
  with stream_bounds [OF assms(1,2)] have "length vs = room" "n < length xs" by auto
  with stream_rate [OF assms(1,2) rate] assms(3) show False by simp
qed

end

section \<open>Incremental decoding\<close>

locale incremental_decoder = decoder_codec + incremental_codec
begin

lemma turn_final:
  assumes "good c" "turn h False i c xs = TurnTake n v c'"
  shows "turn h e i c (xs @ ys) = TurnTake n v c'"
proof -
  have len: "\<not> length xs < min_units_per_value C" using assms(2) by (auto simp: decode_turn_def)
  obtain r c1 where p: "parse c False xs = (r, c1)" by (metis surj_pair)
  show ?thesis
  proof (cases r)
    case (Inr vn)
    with p len assms value_final [OF assms(1), of xs vn c1 e ys] show ?thesis
      by (simp add: decode_turn_def)
  next
    case (Inl f)
    with p len assms(2) obtain err k where f: "f = Invalid err k"
      by (cases f) (auto simp: decode_turn_def)
    with p len assms Inl invalid_final [OF assms(1), of xs err k c1 e ys] show ?thesis
      by (simp add: decode_turn_def)
  qed
qed

lemma turn_reject_final:
  assumes "good c" "turn h False i c xs = TurnReject err c'"
  shows "turn h e i c (xs @ ys) = TurnReject err c'"
proof -
  have len: "\<not> length xs < min_units_per_value C" using assms(2) by (auto simp: decode_turn_def)
  obtain r c1 where p: "parse c False xs = (r, c1)" by (metis surj_pair)
  with assms(2) len obtain er k where r: "r = Inl (Invalid er k)"
    by (auto simp: decode_turn_def split: sum.splits decode_failure.splits)
  with p len assms invalid_final [OF assms(1), of xs er k c1 e ys] show ?thesis
    by (simp add: decode_turn_def)
qed

lemma turn_more_keeps:
  assumes "good c" "turn h False i c xs = TurnMore req c'"
  shows "c' = c"
  using assms incomplete_keeps [OF assms(1), of xs]
  by (auto simp: decode_turn_def split: if_splits prod.splits sum.splits decode_failure.splits
      invalid_action.splits)

text \<open>Stopping on an open stream, for lack of input or room, and going on later, with what is
  left of the input and more of it, is the same as not stopping.\<close>

lemma stream_resume:
  assumes "good c" "stream h False i c xs room = (Ok st, n, vs, c')"
    and "stream h e (i + n) c' (drop n xs @ ys) room2 = (q, n2, vs2, c2)"
    and "room \<le> length vs + room2"
  shows "stream h e i c (xs @ ys) (length vs + room2) = (q, n + n2, vs @ vs2, c2)"
  using assms
proof (induction "length xs" arbitrary: i c xs room n vs rule: less_induct)
  case less
  from less.prems(2,1) show ?case
  proof (cases rule: stream_cases)
    case (more req)
    with turn_more_keeps [OF less.prems(1) more(4)] less.prems(3) show ?thesis by simp
  next
    case (take k v c1 m ws)
    have smaller: "length (drop (nz_get k) xs) < length xs" using take(1) by (cases xs) auto
    have "stream h e (i + nz_get k) c1 (drop (nz_get k) xs @ ys) (length ws + room2) = (q, m + n2, ws @ vs2, c2)"
    proof (rule less.hyps [OF smaller take(6,9)])
      show "stream h e (i + nz_get k + m) c' (drop m (drop (nz_get k) xs) @ ys) room2 = (q, n2, vs2, c2)"
        using less.prems(3) take(7) by (simp add: ac_simps)
      show "room - length (option_list v) \<le> length ws + room2"
        using less.prems(4) take(8) by simp
    qed
    moreover have "\<not> (length (xs @ ys) < min_units_per_value C \<and> \<not> e)" "0 < length vs + room2"
      using take(2,3) less.prems(4) by auto
    ultimately show ?thesis
      using take(1,5,7,8) turn_final [OF less.prems(1) take(4), of e ys] decode_stream_turn [of "xs @ ys" C e]
      by simp
  qed (use less.prems in auto)
qed

end

section \<open>One-shot decoding\<close>

text \<open>
  The lifecycle part of the contract, as for the encoder. \<open>rate\<close> is the least number of
  units a turn of the loop consumes; the hooks' declared bound on values covers it. With it the
  engine is a conforming \<open>Transcoder\<close>.
\<close>

locale decoder_lifecycle = decoder_codec +
  fixes bound :: "nat \<Rightarrow> nat capacity" and hook_finish :: nat and rate :: nat
  assumes decode_reset_law: "good c \<Longrightarrow> j + max_decode_reset_values C \<le> length out \<Longrightarrow>
      decode_reset C c out j = (r, c', out') \<Longrightarrow>
      r \<noteq> Panic \<and> (\<forall>n. r = Ok n \<longrightarrow> n \<le> max_decode_reset_values C \<and> good c')"
    and decode_finish_law: "good c \<Longrightarrow> j + max_decode_finish_values C \<le> length out \<Longrightarrow>
      decode_finish C c out j = (r, c', out') \<Longrightarrow>
      r \<noteq> Panic \<and> (\<forall>n. r = Ok n \<longrightarrow> n \<le> max_decode_finish_values C \<and> good c')"
    and hook_reset_law: "good c \<Longrightarrow> \<exists>h' c'. dh_reset_hooks H h c = (Some (), h', c') \<and> good c'"
    and hook_bound_law: "dh_max_transcode_output_len H h c n = bound n"
    and bound_covers: "bound n \<noteq> Panic \<and> (\<forall>m. bound n = Ok m \<longrightarrow> n \<le> m * rate)"
    and rate_pos: "0 < rate"
    and rate_law: "good c \<Longrightarrow> xs \<noteq> [] \<Longrightarrow>
      decode_turn C parse (on_invalid h) (on_incomplete h) True i c xs = TurnTake k v c' \<Longrightarrow> rate \<le> nz_get k"
    and hook_finish_bound: "dh_max_finish_output_len H h c = hook_finish"
    and hook_finish_law: "good c \<Longrightarrow> j + hook_finish \<le> length out \<Longrightarrow>
      dh_finish_hooks H h c out j = (x, hc, out') \<Longrightarrow>
      x \<noteq> Panic \<and> (\<forall>n. x = Ok n \<longrightarrow> n \<le> hook_finish)"
begin

lemma de_reset_conforms:
  assumes "good (de_codec eng)" "j + max_decode_reset_values C \<le> length out"
    and "de_reset C H eng out j = (r, eng', out')"
  shows "r \<noteq> Panic \<and> (\<forall>n. r = Ok n \<longrightarrow> n \<le> max_decode_reset_values C \<and>
    good (de_codec eng') \<and> de_phase eng' = Fresh)"
proof -
  obtain h1 c1 where h: "dh_reset_hooks H (de_hooks eng) (de_codec eng) = (Some (), h1, c1)" "good c1"
    using hook_reset_law [OF assms(1)] by blast
  obtain q c2 o2 where e: "decode_reset C c1 out j = (q, c2, o2)" by (metis prod_cases3)
  have cap: "ensure_output_capacity (length out) j (max_decode_reset_values C) = Ok ()"
    using assms(2) by (simp add: check_simps)
  from decode_reset_law [OF h(2) assms(2) e] h e cap assms(3) show ?thesis
    by (cases q) (auto simp: de_reset_def call_decode_reset_def Let_def guard_defs)
qed

lemma de_finish_conforms:
  assumes "good (de_codec eng)" "stream_phase (de_phase eng)"
    and "max_decode_finish_values C + hook_finish \<le> usize_max"
    and "j + (max_decode_finish_values C + hook_finish) \<le> length out"
    and "de_finish C H eng out j = (r, eng', out')"
  shows "r \<noteq> Panic \<and> (\<forall>n. r = Ok n \<longrightarrow> n \<le> max_decode_finish_values C + hook_finish)"
proof -
  obtain q c1 o1 where f: "decode_finish C (de_codec eng) out j = (q, c1, o1)" by (metis prod_cases3)
  have "j + max_decode_finish_values C \<le> length out" using assms(4) by simp
  note law = decode_finish_law [OF assms(1) this f]
  let ?o = "write_back out o1"
  have pre: "on_finish_attempt (de_lifecycle eng) = Ok ()"
    "checked_add (max_decode_finish_values C) hook_finish = Some (max_decode_finish_values C + hook_finish)"
    "ensure_output_capacity (length out) j (max_decode_finish_values C + hook_finish) = Ok ()"
    using assms by (simp_all add: on_finish_attempt_Ok checked_add_def check_simps)
  show ?thesis
  proof (cases q)
    case (Ok n)
    obtain r2 hc2 o2 where h: "dh_finish_hooks H (de_hooks eng) c1 ?o (j + n) = (r2, hc2, o2)"
      by (metis prod_cases3)
    have "j + n + hook_finish \<le> length ?o" using law Ok assms(4) by auto
    from hook_finish_law [OF _ this h] law Ok f h pre assms(5) show ?thesis
      by (cases r2) (auto simp: de_finish_def hook_finish_bound call_decode_finish_def Let_def
          split: prod.splits)
  qed (use law f pre assms(5) in \<open>auto simp: de_finish_def hook_finish_bound call_decode_finish_def Let_def\<close>)
qed

lemma de_transcode_eof_conforms:
  assumes "good (de_codec eng)" "stream_phase (de_phase eng)" "bound (length input) = Ok m"
    and "j + m \<le> length out" "length input \<le> usize_max" "length out \<le> usize_max"
    and call: "de_transcode_eof C H eng input 0 out j = (r, eng', out')"
  shows "r \<noteq> Panic \<and> (\<forall>p. r = Ok p \<longrightarrow> good (de_codec eng') \<and> stream_phase (de_phase eng') \<and>
    valid_progress p 0 (length input) j (length out - j) \<and> tp_status p = Complete \<and> tp_written p \<le> m)"
proof -
  define room where "room = length out - j"
  obtain q n vs c' where
    spec: "stream (de_hooks eng) True 0 (de_codec eng) (drop 0 input) room = (q, n, vs, c')"
    by (metis prod_cases4)
  have idx: "0 \<le> length input" "j \<le> length out" using assms(4) by simp_all
  note ref = transcode_refines [OF assms(1,2) idx spec [unfolded room_def] call [unfolded de_transcode_eof_def]]
  note sb = stream_bounds [OF assms(1) spec]
  have m: "length input \<le> m * rate" using bound_covers assms(3) by blast
  have "m \<le> room" using assms(4) by (simp add: room_def)
  then have "m * rate \<le> room * rate" by (rule mult_le_mono1)
  with m have room: "length (drop 0 input) \<le> room * rate" by (metis drop0 le_trans)
  show ?thesis
  proof (cases q)
    case (Ok st)
    have "q \<noteq> Ok (NeedOutput req)" for req
      by (rule stream_enough_room [OF assms(1) spec room]) (rule rate_law)
    with Ok sb have st: "st = Complete" by (cases st) auto
    then have n: "n = length input" using sb Ok by simp
    have written: "length vs \<le> m"
    proof (rule ccontr)
      assume "\<not> length vs \<le> m"
      then have "Suc m * rate \<le> length vs * rate" by (intro mult_le_mono1) simp
      also have "\<dots> \<le> n" by (rule stream_rate [OF assms(1) spec]) (rule rate_law)
      finally have "rate + m * rate \<le> m * rate" using n m by simp
      with rate_pos show False by simp
    qed
    then have "valid_progress (progress_new Complete n (length vs)) 0 (length input) j (length out - j)"
      using n assms(4,5,6) by (auto simp: valid_progress_def progress_defs)
    with ref Ok st written sb show ?thesis
      by (auto simp: progress_defs stream_phase_def)
  next
    case (Err e)
    with ref show ?thesis by simp
  next
    case Panic
    with sb show ?thesis by simp
  qed
qed

lemma de_bounds:
  "de_max_reset_output_len C eng = Ok (max_decode_reset_values C)"
  "de_max_transcode_output_len H eng n = bound n"
  "de_max_finish_output_len C H eng = add_decode_output_bounds (max_decode_finish_values C) hook_finish"
  by (simp_all add: de_max_reset_output_len_def de_max_transcode_output_len_def hook_bound_law
      de_max_finish_output_len_def hook_finish_bound)

end

text \<open>A conforming codec with conforming hooks makes the engine a conforming \<open>Transcoder\<close>.\<close>

sublocale decoder_lifecycle \<subseteq> decode_stream: transcoder_contract "decode_transcoder C H"
  "\<lambda>eng. good (de_codec eng)" "\<lambda>eng. stream_phase (de_phase eng)"
proof
  fix eng n
  show "max_reset_output_len (decode_transcoder C H) eng \<noteq> Panic \<and>
      max_transcode_output_len (decode_transcoder C H) eng n \<noteq> Panic \<and>
      max_finish_output_len (decode_transcoder C H) eng \<noteq> Panic"
    using bound_covers by (simp add: decode_transcoder_def de_bounds add_decode_output_bounds_def)
next
  fix eng m out r eng' out'
  assume good: "good (de_codec eng)" and m: "max_reset_output_len (decode_transcoder C H) eng = Ok m"
    "m \<le> length out" and call: "tr_reset (decode_transcoder C H) eng out 0 = (r, eng', out')"
  from m call have "0 + max_decode_reset_values C \<le> length out" "de_reset C H eng out 0 = (r, eng', out')"
    by (simp_all add: decode_transcoder_def de_bounds)
  from de_reset_conforms [OF good this] m
  show "r \<noteq> Panic \<and> (\<forall>n. r = Ok n \<longrightarrow> n \<le> m \<and> good (de_codec eng') \<and> stream_phase (de_phase eng') \<and>
      max_transcode_output_len (decode_transcoder C H) eng' = max_transcode_output_len (decode_transcoder C H) eng \<and>
      max_finish_output_len (decode_transcoder C H) eng' = max_finish_output_len (decode_transcoder C H) eng)"
    by (auto simp: decode_transcoder_def de_bounds stream_phase_def fun_eq_iff)
next
  fix eng input m j out q eng' out'
  assume good: "good (de_codec eng)" and ph: "stream_phase (de_phase eng)"
    and m: "max_transcode_output_len (decode_transcoder C H) eng (length input) = Ok m"
    and len: "j + m \<le> length out" "length input \<le> usize_max" "length out \<le> usize_max"
    and call: "tr_transcode_eof (decode_transcoder C H) eng input 0 out j = (q, eng', out')"
  have "bound (length input) = Ok m" using m by (simp add: decode_transcoder_def de_bounds)
  from de_transcode_eof_conforms [OF good ph this len, of q eng' out'] call
  show "q \<noteq> Panic \<and> (\<forall>p. q = Ok p \<longrightarrow> good (de_codec eng') \<and> stream_phase (de_phase eng') \<and>
      valid_progress p 0 (length input) j (length out - j) \<and> tp_status p = Complete \<and> tp_written p \<le> m \<and>
      max_finish_output_len (decode_transcoder C H) eng' = max_finish_output_len (decode_transcoder C H) eng)"
    by (simp add: decode_transcoder_def de_bounds)
next
  fix eng m j out r eng' out'
  assume good: "good (de_codec eng)" and ph: "stream_phase (de_phase eng)"
    and m: "max_finish_output_len (decode_transcoder C H) eng = Ok m"
    and len: "j + m \<le> length out" and call: "tr_finish (decode_transcoder C H) eng out j = (r, eng', out')"
  have fin: "m = max_decode_finish_values C + hook_finish" "m \<le> usize_max"
    using m by (simp_all add: decode_transcoder_def de_bounds checked_add_eq_Some)
  from de_finish_conforms [OF good ph, of j out r eng' out'] fin len call
  show "r \<noteq> Panic \<and> (\<forall>n. r = Ok n \<longrightarrow> n \<le> m)" by (simp add: decode_transcoder_def)
qed

context decoder_lifecycle
begin

lemma one_shot_total:
  assumes "good (de_codec eng)" "length input \<le> usize_max" "length out \<le> usize_max"
    and "de_transcode_complete_into C H eng input out = (r, eng', out')"
  shows "r \<noteq> Panic"
  using decode_stream.complete_into_total [OF assms(1-3)] assms(4)
  by (simp add: de_transcode_complete_into_def)

end

end
