(* ===== verification/SampleCodecs.thy ===== *)
theory SampleCodecs
  imports Adapters EncodeContract DecodeContract
begin

text \<open>
  The codecs the repository itself implements against the trait: \<open>U16BeCodec\<close>
  (\<open>examples/io_transcode_step.rs\<close>), \<open>MarkerCodec\<close> (\<open>examples/decode_lifecycle.rs\<close>), and
  \<open>ProtocolCodec\<close> with its policy hooks and its oracle \<open>reference\<close>
  (\<open>fuzz/fuzz_targets/transcode_decode_engine.rs\<close>). They are the instances on which the
  contracts of the development are interpreted and on which its theorems are run.
  \<open>u8\<close> and \<open>u16\<close> are words; \<open>Infallible\<close> is \<open>unit\<close>, whose error is never built.
\<close>

unbundle bit_operations_syntax

type_synonym infallible = unit

text \<open>A slice element write, for \<open>output[i] = x; Ok(1)\<close>.\<close>

definition write_one :: "'c \<Rightarrow> 'x list \<Rightarrow> nat \<Rightarrow> 'x \<Rightarrow> ('e, nat) res \<times> 'c \<times> 'x list" where
  "write_one c out i x = (if i < length out then (Ok 1, c, out[i := x]) else (Panic, c, out))"

section \<open>U16BeCodec\<close>

definition u16_from_be_bytes :: "u8 \<Rightarrow> u8 \<Rightarrow> u16" where
  "u16_from_be_bytes a b = (push_bit 8 (ucast a)) OR ucast b"

definition u16_to_be_bytes :: "u16 \<Rightarrow> u8 list" where
  "u16_to_be_bytes v = [ucast (drop_bit 8 v), ucast v]"

definition u16be_decode ::
  "unit \<Rightarrow> u8 list \<Rightarrow> nat \<Rightarrow> (infallible decode_failure, u16 \<times> nonzero) res \<times> unit" where
  "u16be_decode c input i =
    (bind_res (slice_get input i) (\<lambda>a.
     bind_res (slice_get input (i + 1)) (\<lambda>b. Ok (u16_from_be_bytes a b, NZ 1))), c)"

definition u16be_encode ::
  "unit \<Rightarrow> u16 \<Rightarrow> u8 list \<Rightarrow> nat \<Rightarrow> (infallible, nat) res \<times> unit \<times> u8 list" where
  "u16be_encode c v out i =
    (if i + 2 \<le> length out then (Ok 2, c, splice_at out i (u16_to_be_bytes v)) else (Panic, c, out))"

definition u16be_codec :: "(unit, u16, u8, infallible, infallible) codec" where
  "u16be_codec =
    \<lparr>min_units_per_value = 2, max_encode_units_per_value = 2, max_decode_units_per_value = 2,
     max_encode_reset_units = default_lifecycle_units,
     max_encode_finish_units = default_lifecycle_units,
     max_decode_reset_values = default_lifecycle_units,
     max_decode_finish_values = default_lifecycle_units,
     can_encode_value = default_can_encode_value, encode_len = default_encode_len 2,
     encode_reset = default_lifecycle_output, encode = u16be_encode,
     encode_finish = default_lifecycle_output, decode_reset = default_lifecycle_output,
     decode = u16be_decode, decode_eof = default_decode_eof u16be_decode,
     decode_finish = default_lifecycle_output\<rparr>"

text \<open>The byte order is right: decoding the two bytes of a value gives it back.\<close>

lemma u16_bytes_roundtrip:
  "u16_from_be_bytes (ucast (drop_bit 8 v)) (ucast v) = v"
  unfolding u16_from_be_bytes_def
  by (rule bit_word_eqI) (auto simp: bit_simps)

section \<open>MarkerCodec\<close>

definition reset_marker :: u8 where "reset_marker = 0xfe"
definition finish_marker :: u8 where "finish_marker = 0xff"

definition marker_decode ::
  "unit \<Rightarrow> u8 list \<Rightarrow> nat \<Rightarrow> (infallible decode_failure, u8 \<times> nonzero) res \<times> unit" where
  "marker_decode c input i = (bind_res (slice_get input i) (\<lambda>a. Ok (a, nz_min)), c)"

definition marker_encode ::
  "unit \<Rightarrow> u8 \<Rightarrow> u8 list \<Rightarrow> nat \<Rightarrow> (infallible, nat) res \<times> unit \<times> u8 list" where
  "marker_encode c v out i = write_one c out i v"

definition marker_decode_reset ::
  "unit \<Rightarrow> u8 list \<Rightarrow> nat \<Rightarrow> (infallible, nat) res \<times> unit \<times> u8 list" where
  "marker_decode_reset c out i = write_one c out i reset_marker"

definition marker_decode_finish ::
  "unit \<Rightarrow> u8 list \<Rightarrow> nat \<Rightarrow> (infallible, nat) res \<times> unit \<times> u8 list" where
  "marker_decode_finish c out i = write_one c out i finish_marker"

definition marker_codec :: "(unit, u8, u8, infallible, infallible) codec" where
  "marker_codec =
    \<lparr>min_units_per_value = 1, max_encode_units_per_value = 1, max_decode_units_per_value = 1,
     max_encode_reset_units = default_lifecycle_units,
     max_encode_finish_units = default_lifecycle_units,
     max_decode_reset_values = 1, max_decode_finish_values = 1,
     can_encode_value = default_can_encode_value, encode_len = default_encode_len 1,
     encode_reset = default_lifecycle_output, encode = marker_encode,
     encode_finish = default_lifecycle_output, decode_reset = marker_decode_reset,
     decode = marker_decode, decode_eof = default_decode_eof marker_decode,
     decode_finish = marker_decode_finish\<rparr>"

section \<open>ProtocolCodec\<close>

datatype protocol_error = ProtocolInvalid | ProtocolIncomplete

datatype policy = PolicyReject | PolicySkip | PolicyEmit

definition policy_from_byte :: "u8 \<Rightarrow> policy" where
  "policy_from_byte b =
    (if b mod 3 = 0 then PolicyReject else if b mod 3 = 1 then PolicySkip else PolicyEmit)"

definition protocol_decode ::
  "unit \<Rightarrow> u8 list \<Rightarrow> nat \<Rightarrow> (protocol_error decode_failure, u8 \<times> nonzero) res \<times> unit" where
  "protocol_decode c input i =
    (bind_res (slice_get input i) (\<lambda>b.
      if b = 0xff then Err (failure_invalid ProtocolInvalid nz_min)
      else if b = 0xfe \<and> length input - i = 1
      then Err (failure_incomplete_with_source ProtocolIncomplete (NZ 1))
      else Ok (b, nz_min)), c)"

definition protocol_encode ::
  "unit \<Rightarrow> u8 \<Rightarrow> u8 list \<Rightarrow> nat \<Rightarrow> (infallible, nat) res \<times> unit \<times> u8 list" where
  "protocol_encode c v out i = write_one c out i v"

definition protocol_codec :: "(unit, u8, u8, protocol_error, infallible) codec" where
  "protocol_codec =
    \<lparr>min_units_per_value = 1, max_encode_units_per_value = 1, max_decode_units_per_value = 2,
     max_encode_reset_units = default_lifecycle_units,
     max_encode_finish_units = default_lifecycle_units,
     max_decode_reset_values = default_lifecycle_units,
     max_decode_finish_values = default_lifecycle_units,
     can_encode_value = default_can_encode_value, encode_len = default_encode_len 1,
     encode_reset = default_lifecycle_output, encode = protocol_encode,
     encode_finish = default_lifecycle_output, decode_reset = default_lifecycle_output,
     decode = protocol_decode, decode_eof = protocol_decode,
     decode_finish = default_lifecycle_output\<rparr>"

record protocol_hooks =
  ph_invalid :: policy
  ph_incomplete :: policy

definition question_mark :: u8 where "question_mark = 0x3f"

definition protocol_handle_invalid ::
  "protocol_hooks \<Rightarrow> unit \<Rightarrow> protocol_error \<Rightarrow> nonzero option \<Rightarrow> decode_context \<Rightarrow>
   (protocol_error decode_error, u8 invalid_action) res \<times> protocol_hooks \<times> unit" where
  "protocol_handle_invalid h c e consumed ctx =
    (if e \<noteq> ProtocolInvalid then Panic
     else case consumed of
       None \<Rightarrow> Panic
     | Some n \<Rightarrow>
         Ok (case ph_invalid h of
               PolicyReject \<Rightarrow> InvalidReject
             | PolicySkip \<Rightarrow> InvalidSkip n
             | PolicyEmit \<Rightarrow> InvalidEmit question_mark n), h, c)"

definition protocol_handle_incomplete ::
  "protocol_hooks \<Rightarrow> unit \<Rightarrow> protocol_error option \<Rightarrow> nonzero \<Rightarrow> decode_context \<Rightarrow>
   (protocol_error decode_error, u8 incomplete_action) res \<times> protocol_hooks \<times> unit" where
  "protocol_handle_incomplete h c src required ctx =
    (if src \<noteq> Some ProtocolIncomplete then Panic
     else if nz_get required \<noteq> 2 then Panic
     else Ok (case ph_incomplete h of
               PolicyReject \<Rightarrow> IncompleteReject
             | PolicySkip \<Rightarrow> IncompleteSkip
             | PolicyEmit \<Rightarrow> IncompleteEmit question_mark), h, c)"

definition protocol_decode_hooks :: "(protocol_hooks, unit, u8, protocol_error) decode_hooks" where
  "protocol_decode_hooks =
    \<lparr>dh_max_transcode_output_len = default_dh_max_transcode,
     dh_max_finish_output_len = default_max_finish,
     dh_handle_invalid = protocol_handle_invalid,
     dh_handle_incomplete = protocol_handle_incomplete,
     dh_reset_hooks = default_reset_hooks,
     dh_finish_hooks = default_finish_hooks\<rparr>"

subsection \<open>The fuzz oracle\<close>

datatype oracle_result =
    OracleComplete "u8 list"
  | OracleRejected nat "u8 list" bool \<comment> \<open>position, prefix, incomplete\<close>

fun reference_from :: "policy \<Rightarrow> policy \<Rightarrow> nat \<Rightarrow> u8 list \<Rightarrow> u8 list \<Rightarrow> oracle_result" where
  "reference_from invalid incomplete position out [] = OracleComplete out"
| "reference_from invalid incomplete position out (byte # rest) =
    (if byte = 0xff then
       (case invalid of
          PolicyReject \<Rightarrow> OracleRejected position out False
        | PolicySkip \<Rightarrow> reference_from invalid incomplete (position + 1) out rest
        | PolicyEmit \<Rightarrow>
            reference_from invalid incomplete (position + 1) (out @ [question_mark]) rest)
     else if byte = 0xfe \<and> rest = [] then
       (case incomplete of
          PolicyReject \<Rightarrow> OracleRejected position out True
        | PolicySkip \<Rightarrow> reference_from invalid incomplete (position + 1) out rest
        | PolicyEmit \<Rightarrow>
            reference_from invalid incomplete (position + 1) (out @ [question_mark]) rest)
     else reference_from invalid incomplete (position + 1) (out @ [byte]) rest)"

definition reference :: "u8 list \<Rightarrow> policy \<Rightarrow> policy \<Rightarrow> oracle_result" where
  "reference payload invalid incomplete = reference_from invalid incomplete 0 [] payload"

section \<open>The codecs keep the contracts\<close>

text \<open>The strict policies.\<close>

definition strict_unencodable :: "unit \<Rightarrow> 'v \<Rightarrow> 'v unencodable_action" where
  "strict_unencodable h v = RejectValue"

definition strict_invalid :: "unit \<Rightarrow> 'de \<Rightarrow> nonzero option \<Rightarrow> 'v invalid_action" where
  "strict_invalid h e n = InvalidReject"

definition strict_incomplete :: "unit \<Rightarrow> 'de option \<Rightarrow> nonzero \<Rightarrow> 'v incomplete_action" where
  "strict_incomplete h src req = IncompleteReject"

lemmas strict_policy_defs = strict_unencodable_def strict_invalid_def strict_incomplete_def

lemmas strict_hook_defs =
  codec_transcode_encode_hooks_def codec_transcode_decode_hooks_def strict_handle_unencodable_def
  strict_handle_invalid_def default_handle_incomplete_def strict_dh_max_transcode_def

text \<open>Under the strict policies a turn consumes input only for a value the codec decoded.\<close>

lemma strict_turn_take:
  assumes "decode_turn C parse (strict_invalid h) (strict_incomplete h) eof i c xs = TurnTake n v c'"
  shows "min_units_per_value C \<le> length xs \<and> (\<exists>w. v = Some w \<and> parse c eof xs = (Inr (w, n), c'))"
  using assms
  by (auto simp: decode_turn_def strict_policy_defs
      split: if_splits prod.splits sum.splits decode_failure.splits)

text \<open>The bounds the strict hooks declare.\<close>

definition strict_encode_bound :: "('c, 'v, 'u, 'de, 'ee) codec \<Rightarrow> nat \<Rightarrow> nat capacity" where
  "strict_encode_bound C n = ok_or CapacityOutputLengthOverflow (checked_mul n (max_encode_units_per_value C))"

definition strict_decode_bound :: "('c, 'v, 'u, 'de, 'ee) codec \<Rightarrow> nat \<Rightarrow> nat capacity" where
  "strict_decode_bound C n = Ok (div_ceil n (min_units_per_value C))"

lemma strict_encode_bound_covers:
  "strict_encode_bound C n \<noteq> Panic \<and>
    (\<forall>m. strict_encode_bound C n = Ok m \<longrightarrow> n * max_encode_units_per_value C \<le> m)"
  by (auto simp: strict_encode_bound_def checked_mul_eq_Some)

lemma strict_decode_bound_covers:
  "0 < min_units_per_value C \<Longrightarrow> strict_decode_bound C n \<noteq> Panic \<and>
    (\<forall>m. strict_decode_bound C n = Ok m \<longrightarrow> n \<le> m * min_units_per_value C)"
  by (auto simp: strict_decode_bound_def intro: div_ceil_bound)

definition any_state :: "unit \<Rightarrow> bool" where
  "any_state c = True"

subsection \<open>U16BeCodec\<close>

definition u16be_emit :: "(unit, u16, u8, infallible) emitter" where
  "u16be_emit c v = (Inr (u16_to_be_bytes v), c)"

fun u16be_parse :: "(unit, u16, u8, infallible) parser" where
  "u16be_parse c e (a # b # xs) = (Inr (u16_from_be_bytes a b, NZ 1), c)"
| "u16be_parse c e xs = (Inl (Incomplete None (NZ 1)), c)"

lemma two_units: "2 \<le> length xs \<Longrightarrow> \<exists>a b ys. xs = a # b # ys"
  by (auto simp: Suc_le_length_iff numeral_2_eq_2)

lemma u16be_decode_parse:
  assumes "2 \<le> length input - i"
  shows "u16be_decode c input i = apfst sum_res (u16be_parse c e (drop i input))"
proof -
  obtain a b ys where d: "drop i input = a # b # ys" using two_units [of "drop i input"] assms by auto
  then have "drop (i + 1) input = b # ys" by (metis drop_Suc_Cons drop0 drop_drop One_nat_def add.commute)
  with d show ?thesis by (simp add: u16be_decode_def slice_get_drop)
qed

interpretation u16be_enc: encoder_lifecycle u16be_codec "codec_transcode_encode_hooks u16be_codec"
  any_state u16be_emit strict_unencodable "strict_encode_bound u16be_codec" 0
  using strict_encode_bound_covers [of u16be_codec]
  by unfold_locales
    (auto simp: u16be_codec_def codec_default_defs strict_hook_defs hook_default_defs strict_policy_defs
      u16be_emit_def u16be_encode_def u16_to_be_bytes_def any_state_def strict_encode_bound_def)

interpretation u16be_dec: decoder_lifecycle u16be_codec "codec_transcode_decode_hooks u16be_codec"
  any_state u16be_parse strict_invalid strict_incomplete "strict_decode_bound u16be_codec" 0 2
  using strict_decode_bound_covers [of u16be_codec]
  by unfold_locales
    (auto simp: u16be_codec_def codec_default_defs strict_hook_defs hook_default_defs strict_policy_defs
      unit_bounds_def any_state_def strict_decode_bound_def u16be_decode_parse
      dest!: two_units strict_turn_take)

interpretation u16be_inc: incremental_decoder u16be_codec "codec_transcode_decode_hooks u16be_codec"
  any_state u16be_parse strict_invalid strict_incomplete
  by unfold_locales (auto simp: u16be_codec_def dest!: two_units)

subsection \<open>MarkerCodec\<close>

definition marker_emit :: "(unit, u8, u8, infallible) emitter" where
  "marker_emit c v = (Inr [v], c)"

fun marker_parse :: "(unit, u8, u8, infallible) parser" where
  "marker_parse c e (a # xs) = (Inr (a, nz_min), c)"
| "marker_parse c e [] = (Inl (Incomplete None nz_min), c)"

lemma one_unit: "Suc 0 \<le> length xs \<Longrightarrow> \<exists>a ys. xs = a # ys"
  by (auto simp: Suc_le_length_iff)

lemma marker_decode_parse:
  assumes "1 \<le> length input - i"
  shows "marker_decode c input i = apfst sum_res (marker_parse c e (drop i input))"
proof -
  obtain a ys where "drop i input = a # ys" using one_unit [of "drop i input"] assms by auto
  then show ?thesis by (simp add: marker_decode_def slice_get_drop)
qed

interpretation marker_enc: encoder_lifecycle marker_codec "codec_transcode_encode_hooks marker_codec"
  any_state marker_emit strict_unencodable "strict_encode_bound marker_codec" 0
  using strict_encode_bound_covers [of marker_codec]
  by unfold_locales
    (auto simp: marker_codec_def codec_default_defs strict_hook_defs hook_default_defs strict_policy_defs
      marker_emit_def marker_encode_def write_one_def splice_at_single any_state_def strict_encode_bound_def)

interpretation marker_dec: decoder_lifecycle marker_codec "codec_transcode_decode_hooks marker_codec"
  any_state marker_parse strict_invalid strict_incomplete "strict_decode_bound marker_codec" 0 1
  using strict_decode_bound_covers [of marker_codec]
  by unfold_locales
    (auto simp: marker_codec_def codec_default_defs strict_hook_defs hook_default_defs strict_policy_defs
      unit_bounds_def any_state_def strict_decode_bound_def marker_decode_parse marker_decode_reset_def
      marker_decode_finish_def write_one_def
      dest!: one_unit strict_turn_take)

interpretation marker_inc: incremental_decoder marker_codec "codec_transcode_decode_hooks marker_codec"
  any_state marker_parse strict_invalid strict_incomplete
  by unfold_locales (auto simp: marker_codec_def dest!: one_unit)

subsection \<open>ProtocolCodec\<close>

definition protocol_emit :: "(unit, u8, u8, infallible) emitter" where
  "protocol_emit c v = (Inr [v], c)"

fun protocol_parse :: "(unit, u8, u8, protocol_error) parser" where
  "protocol_parse c e (b # xs) =
     (if b = 0xff then Inl (failure_invalid ProtocolInvalid nz_min)
      else if b = 0xfe \<and> xs = [] then Inl (failure_incomplete_with_source ProtocolIncomplete (NZ 1))
      else Inr (b, nz_min), c)"
| "protocol_parse c e [] = (Inl (Incomplete None nz_min), c)"

fun protocol_on_invalid :: "protocol_hooks \<Rightarrow> protocol_error \<Rightarrow> nonzero option \<Rightarrow> u8 invalid_action" where
  "protocol_on_invalid h e None = InvalidReject"
| "protocol_on_invalid h e (Some n) =
     (case ph_invalid h of
        PolicyReject \<Rightarrow> InvalidReject
      | PolicySkip \<Rightarrow> InvalidSkip n
      | PolicyEmit \<Rightarrow> InvalidEmit question_mark n)"

definition protocol_on_incomplete ::
  "protocol_hooks \<Rightarrow> protocol_error option \<Rightarrow> nonzero \<Rightarrow> u8 incomplete_action" where
  "protocol_on_incomplete h src req =
     (case ph_incomplete h of
        PolicyReject \<Rightarrow> IncompleteReject
      | PolicySkip \<Rightarrow> IncompleteSkip
      | PolicyEmit \<Rightarrow> IncompleteEmit question_mark)"

lemma protocol_decode_parse:
  assumes "1 \<le> length input - i"
  shows "protocol_decode c input i = apfst sum_res (protocol_parse c e (drop i input))"
proof -
  obtain a ys where d: "drop i input = a # ys" using one_unit [of "drop i input"] assms by auto
  moreover from d have "length input - i = Suc (length ys)" by (metis length_Cons length_drop)
  ultimately show ?thesis by (simp add: protocol_decode_def slice_get_drop)
qed

interpretation protocol_dec: decoder_lifecycle protocol_codec protocol_decode_hooks any_state
  protocol_parse protocol_on_invalid protocol_on_incomplete Ok 0 1
  by unfold_locales
    (auto simp: protocol_codec_def codec_default_defs protocol_decode_hooks_def hook_default_defs
      default_dh_max_transcode_def unit_bounds_def any_state_def protocol_decode_parse failure_defs
      protocol_handle_invalid_def protocol_handle_incomplete_def protocol_on_incomplete_def
      Suc_le_eq
      dest!: neq_Nil_conv [THEN iffD1] split: if_splits policy.splits)

interpretation protocol_inc: incremental_decoder protocol_codec protocol_decode_hooks any_state
  protocol_parse protocol_on_invalid protocol_on_incomplete
  by unfold_locales (auto simp: protocol_codec_def failure_defs dest!: one_unit split: if_splits)

end
