(* ===== verification/Streams.thy ===== *)
theory Streams
  imports SampleCodecs
begin

text \<open>
  What the engines promise to their callers when codec and hooks keep their contracts: each
  public call computes the list specification, calls can be cut and joined at any point, the
  declared bounds suffice, and the one-shot passes never panic. The witnesses run the engines on
  the repository's own codecs.
\<close>

abbreviation fresh_encoder :: "'c \<Rightarrow> 'h \<Rightarrow> ('c, 'h) encode_engine" where
  "fresh_encoder c h \<equiv> \<lparr>ee_codec = c, ee_hooks = h, ee_lifecycle = \<lparr>guard_phase = Fresh\<rparr>\<rparr>"

abbreviation open_encoder :: "'c \<Rightarrow> 'h \<Rightarrow> ('c, 'h) encode_engine" where
  "open_encoder c h \<equiv> \<lparr>ee_codec = c, ee_hooks = h, ee_lifecycle = \<lparr>guard_phase = Streaming\<rparr>\<rparr>"

abbreviation fresh_decoder :: "'c \<Rightarrow> 'h \<Rightarrow> ('c, 'h) decode_engine" where
  "fresh_decoder c h \<equiv> \<lparr>de_codec = c, de_hooks = h, de_lifecycle = \<lparr>guard_phase = Fresh\<rparr>\<rparr>"

abbreviation open_decoder :: "'c \<Rightarrow> 'h \<Rightarrow> ('c, 'h) decode_engine" where
  "open_decoder c h \<equiv> \<lparr>de_codec = c, de_hooks = h, de_lifecycle = \<lparr>guard_phase = Streaming\<rparr>\<rparr>"

section \<open>Encoding\<close>

text \<open>C2. One \<open>transcode\<close> call of an encode engine computes the list specification on the
  values from its input index and the room behind its output index: the status, both counters,
  the codec state, and the output slice, which is untouched outside the written range.\<close>

theorem encode_call_refines_stream:
  assumes "encoder_codec C H good emit act" "good (ee_codec eng)" "stream_phase (ee_phase eng)"
    and "i \<le> length input" "j \<le> length out"
    and "encode_stream C emit (act (ee_hooks eng)) i (ee_codec eng) (drop i input) (length out - j)
      = (q, n, us, c')"
    and "ee_transcode C H eng input i out j = (r, eng', out')"
  shows "r = map_ok (encode_stream_report n us) q \<and> ee_codec eng' = c' \<and> ee_hooks eng' = ee_hooks eng \<and>
    ee_phase eng' = Streaming \<and> length out' = length out \<and> take (j + length us) out' = take j out @ us \<and>
    (\<forall>x. q = Ok x \<longrightarrow> out' = splice_at out j us)"
  by (rule encoder_codec.transcode_refines [OF assms])

text \<open>A call that returns a report, in terms of the specification.\<close>

lemma encode_call_report:
  assumes "encoder_codec C H good emit act" "good (ee_codec eng)" "stream_phase (ee_phase eng)"
    and "i \<le> length input" "ee_transcode C H eng input i out 0 = (Ok p, eng', out')"
  obtains x us where
    "encode_stream C emit (act (ee_hooks eng)) i (ee_codec eng) (drop i input) (length out)
      = (Ok x, tp_read p, us, ee_codec eng')"
    "p = encode_stream_report (tp_read p) us x" "tp_written p = length us"
    "ee_hooks eng' = ee_hooks eng" "stream_phase (ee_phase eng')"
    "take (tp_written p) out' = us" "good (ee_codec eng')"
proof -
  obtain q n us c' where
    spec: "encode_stream C emit (act (ee_hooks eng)) i (ee_codec eng) (drop i input) (length out - 0)
      = (q, n, us, c')" by (metis prod_cases4)
  note ref = encoder_codec.transcode_refines [OF assms(1-4) le0 spec assms(5)]
  then obtain x where q: "q = Ok x" "p = encode_stream_report n us x" by (cases q) auto
  from encoder_codec.stream_good [OF assms(1,2) spec [unfolded q(1)]] ref q spec show thesis
    by (intro that [of x us]) (auto simp: stream_phase_def)
qed

text \<open>C4. Output windows: a call that stopped, for any reason that is not an error, followed by
  a second call from where it stopped into another buffer, delivers the same units, counters,
  final status and codec state as one call with an output as large as what the first wrote plus
  the second buffer.\<close>

theorem encode_windows_join:
  assumes "encoder_codec C H good emit act" "good (ee_codec eng)" "stream_phase (ee_phase eng)"
    and "ee_transcode C H eng input 0 out1 0 = (Ok p1, eng1, out1')"
    and "ee_transcode C H eng1 input (tp_read p1) out2 0 = (Ok p2, eng2, out2')"
    and "ee_transcode C H eng input 0 out 0 = (r, eng', out')"
    and "length out = tp_written p1 + length out2" "length out1 \<le> length out"
  shows "r = Ok (progress_new (tp_status p2) (tp_read p1 + tp_read p2) (tp_written p1 + tp_written p2)) \<and>
    take (tp_written p1 + tp_written p2) out' = take (tp_written p1) out1' @ take (tp_written p2) out2' \<and>
    ee_codec eng' = ee_codec eng2"
proof -
  let ?n1 = "tp_read p1" and ?n2 = "tp_read p2"
  from encode_call_report [OF assms(1-3) le0 assms(4)] obtain x1 us1 where
    s1: "encode_stream C emit (act (ee_hooks eng)) 0 (ee_codec eng) (drop 0 input) (length out1)
      = (Ok x1, ?n1, us1, ee_codec eng1)"
    and 1: "tp_written p1 = length us1" "ee_hooks eng1 = ee_hooks eng" "stream_phase (ee_phase eng1)"
      "take (tp_written p1) out1' = us1" "good (ee_codec eng1)"
    by metis
  have "?n1 \<le> length input"
    using encoder_codec.stream_bound [OF assms(1,2) s1] by simp
  from encode_call_report [OF assms(1) 1(5,3) this assms(5)] 1(2) obtain x2 us2 where
    s2: "encode_stream C emit (act (ee_hooks eng)) (0 + ?n1) (ee_codec eng1) (drop ?n1 (drop 0 input)) (length out2)
      = (Ok x2, ?n2, us2, ee_codec eng2)"
    and 2: "p2 = encode_stream_report ?n2 us2 x2" "tp_written p2 = length us2" "take (tp_written p2) out2' = us2"
    by (metis add_0 drop0)
  have room: "length out1 \<le> length us1 + length out2" using assms(7,8) 1(1) by simp
  have spec: "encode_stream C emit (act (ee_hooks eng)) 0 (ee_codec eng) (drop 0 input) (length out - 0)
      = (Ok x2, ?n1 + ?n2, us1 @ us2, ee_codec eng2)"
    using encoder_codec.stream_resume [OF assms(1,2) s1 s2 room] assms(7) 1(1) by simp
  note ref = encoder_codec.transcode_refines [OF assms(1-3) le0 le0 spec assms(6)]
  have "encode_stream_report (?n1 + ?n2) (us1 @ us2) x2 =
      progress_new (tp_status p2) (?n1 + ?n2) (length us1 + length us2)"
    using 2(1) by (metis (no_types, lifting) encode_stream_report_def encode_stream_report_status length_append)
  moreover have "take (0 + length (us1 @ us2)) out' = take 0 out @ us1 @ us2"
    "r = map_ok (encode_stream_report (?n1 + ?n2) (us1 @ us2)) (Ok x2)" "ee_codec eng' = ee_codec eng2"
    using ref by blast+
  ultimately show ?thesis using 1 2 by simp
qed

text \<open>Capacity: hooks that keep the default \<open>max_transcode_output_len\<close> make the
  engine declare a bound that suffices. With that much output a call never asks for more, and it
  reads every value.\<close>

theorem encode_bound_sufficient:
  assumes "encoder_codec C H good emit act" "good (ee_codec eng)" "stream_phase (ee_phase eng)"
    and "eh_max_transcode_output_len H = default_eh_max_transcode C"
    and "ee_max_transcode_output_len H eng (length input) = Ok m" "m \<le> length out"
    and "ee_transcode C H eng input 0 out 0 = (Ok p, eng', out')"
  shows "tp_status p = Complete \<and> tp_read p = length input \<and> tp_written p \<le> m"
proof -
  from encode_call_report [OF assms(1-3) le0 assms(7)] obtain x us where
    s: "encode_stream C emit (act (ee_hooks eng)) 0 (ee_codec eng) (drop 0 input) (length out)
      = (Ok x, tp_read p, us, ee_codec eng')"
    and p: "p = encode_stream_report (tp_read p) us x" "tp_written p = length us" by metis
  note b = encoder_codec.stream_bound [OF assms(1,2) s]
  have m: "m = length input * max_encode_units_per_value C"
    using assms(4,5) by (auto simp: ee_max_transcode_output_len_def default_eh_max_transcode_def checked_mul_eq_Some)
  with b assms(6) have x: "x = None" by (cases x) auto
  with s have read: "tp_read p = length input"
    using encoder_codec.stream_complete [OF assms(1), of "ee_hooks eng" 0 "ee_codec eng" input "length out"] by simp
  have "tp_status p = Complete" using p(1) x by (metis encode_stream_report_status option.simps(4))
  with read b m p(2) show ?thesis by simp
qed

text \<open>C19. The one-shot encode of a conforming codec never panics: every assertion of
  \<open>transcode_complete_into\<close> and of the calls it makes holds.\<close>

theorem encode_complete_into_no_panic:
  assumes "encoder_lifecycle C H good emit act bound hook_finish" "good (ee_codec eng)"
    and "length input \<le> usize_max" "length out \<le> usize_max"
    and "ee_transcode_complete_into C H eng input out = (r, eng', out')"
  shows "r \<noteq> Panic"
  by (rule encoder_lifecycle.one_shot_total [OF assms])

section \<open>Decoding\<close>

text \<open>C1. One \<open>transcode\<close> or \<open>transcode_eof\<close> call of a decode engine computes the list
  specification on the units from its input index and the room behind its output index.\<close>

theorem decode_call_refines_stream:
  assumes "decoder_codec C H good parse on_invalid on_incomplete"
    and "good (de_codec eng)" "stream_phase (de_phase eng)" "i \<le> length input" "j \<le> length out"
    and "decode_stream C parse (on_invalid (de_hooks eng)) (on_incomplete (de_hooks eng)) eof i
      (de_codec eng) (drop i input) (length out - j) = (q, n, vs, c')"
    and "de_transcode_with_eof C H eng input i out j eof = (r, eng', out')"
  shows "r = map_ok (\<lambda>st. progress_new st n (length vs)) q \<and> de_codec eng' = c' \<and>
    de_hooks eng' = de_hooks eng \<and> de_phase eng' = Streaming \<and> out' = splice_at out j vs"
  by (rule decoder_codec.transcode_refines [OF assms])

text \<open>C3. Chunks: a call on a prefix of the input with the stream left open, followed by a second
  call that sees more input and possibly its end, is one call: same values, same counters, same
  status, and on failure the same error at the same position. This holds wherever the input is
  cut and whatever the two output windows, as long as the joined window is not smaller than the
  first.\<close>

theorem decode_chunks_join:
  assumes "incremental_decoder C H good parse on_invalid on_incomplete"
    and "good (de_codec eng)" "stream_phase (de_phase eng)"
    and "de_transcode C H eng xs 0 out1 0 = (Ok p1, eng1, out1')"
    and "de_transcode_with_eof C H eng1 (xs @ ys) (tp_read p1) out2 0 eof = (r2, eng2, out2')"
    and "de_transcode_with_eof C H eng (xs @ ys) 0 out 0 eof = (r, eng', out')"
    and "length out = tp_written p1 + length out2" "length out1 \<le> length out"
  shows "r = map_ok (\<lambda>p2. progress_new (tp_status p2) (tp_read p1 + tp_read p2)
      (tp_written p1 + tp_written p2)) r2 \<and>
    (\<forall>p2. r2 = Ok p2 \<longrightarrow> take (tp_written p1 + tp_written p2) out' =
      take (tp_written p1) out1' @ take (tp_written p2) out2') \<and>
    de_codec eng' = de_codec eng2"
proof -
  let ?f = "on_invalid (de_hooks eng)" and ?g = "on_incomplete (de_hooks eng)"
  have dc: "decoder_codec C H good parse on_invalid on_incomplete"
    using assms(1) by (rule incremental_decoder.axioms(1))
  note refines = decoder_codec.transcode_refines [OF dc]
  obtain q1 n1 vs1 c1 where
    s1: "decode_stream C parse ?f ?g False 0 (de_codec eng) (drop 0 xs) (length out1 - 0) = (q1, n1, vs1, c1)"
    by (metis prod_cases4)
  note r1 = refines [OF assms(2,3) le0 le0 s1 assms(4) [unfolded de_transcode_def]]
  then obtain st where q1: "q1 = Ok st" and p1: "tp_read p1 = n1" "tp_written p1 = length vs1"
    by (cases q1) (auto simp: progress_defs)
  note b1 = decoder_codec.stream_bounds [OF dc assms(2) s1]
  have g1: "good (de_codec eng1)" "stream_phase (de_phase eng1)" "de_hooks eng1 = de_hooks eng"
    using r1 b1 q1 by (auto simp: stream_phase_def)
  have n1: "n1 \<le> length (xs @ ys)" "drop n1 (xs @ ys) = drop n1 xs @ ys" using b1 by auto
  obtain q2 n2 vs2 c2 where
    s2: "decode_stream C parse ?f ?g eof (0 + n1) c1 (drop n1 (drop 0 xs) @ ys) (length out2) = (q2, n2, vs2, c2)"
    by (metis prod_cases4)
  have r2: "r2 = map_ok (\<lambda>st. progress_new st n2 (length vs2)) q2 \<and> de_codec eng2 = c2 \<and>
      out2' = splice_at out2 0 vs2"
    using refines [OF g1(1,2) n1(1) le0 _ assms(5) [unfolded p1], of q2 n2 vs2 c2] s2 n1(2) g1(3) r1 by simp
  have room: "length out1 \<le> length vs1 + length out2" using assms(7,8) p1 by simp
  have s: "decode_stream C parse ?f ?g eof 0 (de_codec eng) (drop 0 (xs @ ys)) (length out - 0) =
      (q2, n1 + n2, vs1 @ vs2, c2)"
    using incremental_decoder.stream_resume [OF assms(1,2) s1 [unfolded q1] s2] room assms(7) p1 by simp
  note r = refines [OF assms(2,3) le0 le0 s assms(6)]
  have "r = map_ok (\<lambda>p2. progress_new (tp_status p2) (tp_read p1 + tp_read p2)
      (tp_written p1 + tp_written p2)) r2"
    using r r2 p1 by (cases q2) (auto simp: progress_defs)
  moreover have "take (tp_written p1 + tp_written p2) out' = take (tp_written p1) out1' @ take (tp_written p2) out2'"
    if "r2 = Ok p2" for p2
  proof -
    from that r2 have "tp_written p2 = length vs2" by (cases q2) (auto simp: progress_defs)
    with r r1 r2 p1 show ?thesis by (simp add: splice_at_def)
  qed
  ultimately show ?thesis using r r2 by simp
qed

lemma strict_rate:
  assumes "decoder_codec C H good parse strict_invalid strict_incomplete" "good c"
    and "decode_turn C parse (strict_invalid h) (strict_incomplete h) eof i c xs = TurnTake n v c'"
  shows "min_units_per_value C \<le> nz_get n"
  using strict_turn_take [OF assms(3)] parsing_codec.parse_value [OF decoder_codec.axioms(1) [OF assms(1)] assms(2)] by blast

text \<open>Capacity: with the bound the strict decoder declares, one value per
  \<open>MIN_UNITS_PER_VALUE\<close> units rounded up, a call at end of input never asks for more output,
  and every report is complete.\<close>

theorem decode_bound_sufficient:
  assumes "decoder_codec C (codec_transcode_decode_hooks C) good parse strict_invalid strict_incomplete"
    and "good (de_codec eng)" "stream_phase (de_phase eng)"
    and "de_max_transcode_output_len (codec_transcode_decode_hooks C) eng (length input) = Ok m" "m \<le> length out"
    and "de_transcode_eof C (codec_transcode_decode_hooks C) eng input 0 out 0 = (Ok p, eng', out')"
  shows "tp_status p = Complete \<and> tp_read p = length input \<and>
    tp_written p * min_units_per_value C \<le> length input"
proof -
  let ?f = "strict_invalid (de_hooks eng)" and ?g = "strict_incomplete (de_hooks eng)"
  obtain q n vs c' where
    s: "decode_stream C parse ?f ?g True 0 (de_codec eng) (drop 0 input) (length out - 0) = (q, n, vs, c')"
    by (metis prod_cases4)
  note ref = decoder_codec.transcode_refines [OF assms(1-3) le0 le0 s assms(6) [unfolded de_transcode_eof_def]]
  then obtain st where q: "q = Ok st" "p = progress_new st n (length vs)" by (cases q) auto
  note b = decoder_codec.stream_bounds [OF assms(1,2) s]
  have "length input \<le> m * min_units_per_value C"
    using strict_decode_bound_covers [OF decoder_codec.min_pos [OF assms(1)]] assms(4)
    by (auto simp: de_max_transcode_output_len_def strict_hook_defs strict_decode_bound_def)
  also have "\<dots> \<le> length out * min_units_per_value C" using assms(5) by (rule mult_le_mono1)
  finally have room: "length (drop 0 input) \<le> (length out - 0) * min_units_per_value C" by simp
  have "q \<noteq> Ok (NeedOutput req)" for req
    by (rule decoder_codec.stream_enough_room [OF assms(1,2) s room]) (rule strict_rate [OF assms(1)])
  with q b have st: "st = Complete" by (cases st) auto
  have "length vs * min_units_per_value C \<le> n"
    by (rule decoder_codec.stream_rate [OF assms(1,2) s]) (rule strict_rate [OF assms(1)])
  with q st b show ?thesis by (simp add: progress_defs)
qed

text \<open>C18. The one-shot decode of a conforming codec never panics.\<close>

theorem decode_complete_into_no_panic:
  assumes "decoder_lifecycle C H good parse on_invalid on_incomplete bound hook_finish rate"
    and "good (de_codec eng)" "length input \<le> usize_max" "length out \<le> usize_max"
    and "de_transcode_complete_into C H eng input out = (r, eng', out')"
  shows "r \<noteq> Panic"
  by (rule decoder_lifecycle.one_shot_total [OF assms])

section \<open>Round trip\<close>

text \<open>A codec decodes what it encodes: \<open>synced\<close> relates the state of an encoder to the state of
  a decoder that has read what the encoder has written.\<close>

locale codec_roundtrip =
  enc: encoder_codec C HE good_e emit act + dec: decoder_codec C HD good_d parse on_invalid on_incomplete
  for C :: "('c, 'v, 'u, 'de, 'ee) codec"
    and HE :: "('g, 'c, 'v, 'u, 'ee) encode_hooks" and good_e emit act
    and HD :: "('h, 'c, 'v, 'de) decode_hooks" and good_d parse on_invalid on_incomplete +
  fixes synced :: "'c \<Rightarrow> 'c \<Rightarrow> bool"
  assumes parse_emit: "good_e c \<Longrightarrow> good_d d \<Longrightarrow> synced c d \<Longrightarrow> can_encode_value C c v \<Longrightarrow>
      emit c v = (Inr us, c') \<Longrightarrow>
      \<exists>n d'. parse d e (us @ ys) = (Inr (v, n), d') \<and> nz_get n = length us \<and> synced c' d' \<and>
        min_units_per_value C \<le> length us"
begin

lemma stream_roundtrip:
  assumes "good_e c" "good_d d" "synced c d" "\<And>v. act h v = RejectValue"
    and "encode_stream C emit (act h) i c vs room = (Ok None, n, us, c')" "length vs \<le> room2"
  shows "\<exists>d'. decode_stream C parse (on_invalid h2) (on_incomplete h2) eof k d us room2 =
    (Ok Complete, length us, vs, d')"
  using assms(1-3,5,6)
proof (induction vs arbitrary: c d i k room n us room2)
  case Nil
  then show ?case by simp
next
  case (Cons v vs)
  from Cons.prems(4) show ?case
  proof (cases rule: enc.encode_stream_Ok_cases)
    case (go u c1 m us1)
    from go(1) assms(4) have can: "can_encode_value C c v" and em: "emit c v = (Inr u, c1)"
      by (auto simp: encode_turn_def emit_turn_def split: if_splits prod.splits sum.splits)
    obtain k1 d1 where p: "parse d eof (u @ us1) = (Inr (v, k1), d1)" "nz_get k1 = length u" "synced c1 d1"
      "min_units_per_value C \<le> length u"
      using parse_emit [OF Cons.prems(1-3) can em] by metis
    have good: "good_e c1" "good_d d1"
      using enc.encode_turn_writes [OF Cons.prems(1) go(1)] dec.parse_good [OF Cons.prems(2), of "u @ us1" eof] p
      by simp_all
    have ne: "u @ us1 \<noteq> []" using p(2) by (metis append_is_Nil_conv length_0_conv nz_get_pos(2))
    have long: "\<not> (length (u @ us1) < min_units_per_value C \<and> \<not> eof)" using p(4) by simp
    have turn: "decode_turn C parse (on_invalid h2) (on_incomplete h2) eof k d (u @ us1) = TurnTake k1 (Some v) d1"
      using p by (simp add: decode_turn_def)
    have room2: "length vs \<le> room2 - 1" using Cons.prems(5) by simp
    from Cons.IH [OF good p(3) go(2) room2, of "k + nz_get k1"] obtain d2 where
      "decode_stream C parse (on_invalid h2) (on_incomplete h2) eof (k + nz_get k1) d1 us1 (room2 - 1) =
        (Ok Complete, length us1, vs, d2)" by auto
    with decode_stream_turn [OF ne long, of room2 parse "on_invalid h2" "on_incomplete h2" k d] turn go(4) p(2)
      Cons.prems(5)
    show ?thesis by auto
  qed simp
qed

end

text \<open>C5. Round trip through the engines: what a complete encode call wrote, a decode call reads
  back to the same values, on an open stream or at end of input.\<close>

theorem engine_roundtrip:
  assumes "codec_roundtrip C HE good_e emit act HD good_d parse on_invalid on_incomplete synced"
    and "good_e (ee_codec enc)" "good_d (de_codec dec)" "synced (ee_codec enc) (de_codec dec)"
    and "\<And>v. act (ee_hooks enc) v = RejectValue"
    and "stream_phase (ee_phase enc)" "stream_phase (de_phase dec)"
    and "ee_transcode C HE enc input 0 out 0 = (Ok p, enc', out')" "tp_status p = Complete"
    and "length input \<le> length values"
    and "de_transcode_with_eof C HD dec (take (tp_written p) out') 0 values 0 eof = (r, dec', values')"
  shows "r = Ok (progress_complete (tp_written p) (length input)) \<and> take (length input) values' = input"
proof -
  have ec: "encoder_codec C HE good_e emit act"
    and dc: "decoder_codec C HD good_d parse on_invalid on_incomplete"
    using assms(1) by (simp_all add: codec_roundtrip_def)
  from encode_call_report [OF ec assms(2,6) le0 assms(8)] obtain x us where
    s: "encode_stream C emit (act (ee_hooks enc)) 0 (ee_codec enc) (drop 0 input) (length out)
      = (Ok x, tp_read p, us, ee_codec enc')"
    and p: "p = encode_stream_report (tp_read p) us x" "tp_written p = length us" "take (tp_written p) out' = us"
    by metis
  have "x = None" using p(1) assms(9)
    by (metis encode_stream_report_status option.exhaust option.simps(5) transcode_status.distinct(3))
  with s have s': "encode_stream C emit (act (ee_hooks enc)) 0 (ee_codec enc) input (length out)
      = (Ok None, tp_read p, us, ee_codec enc')" by simp
  obtain d' where "decode_stream C parse (on_invalid (de_hooks dec)) (on_incomplete (de_hooks dec)) eof 0
      (de_codec dec) (drop 0 us) (length values - 0) = (Ok Complete, length us, input, d')"
    using codec_roundtrip.stream_roundtrip [OF assms(1-5) s', of "length values" "de_hooks dec" eof 0]
      assms(10) by auto
  from decoder_codec.transcode_refines [OF dc assms(3,7) le0 le0 this, of r dec' values'] assms(11) p(2,3)
  show ?thesis by (simp add: progress_complete_def splice_at_def)
qed

interpretation u16be_trip: codec_roundtrip u16be_codec "codec_transcode_encode_hooks u16be_codec"
  any_state u16be_emit strict_unencodable "codec_transcode_decode_hooks u16be_codec" any_state
  u16be_parse strict_invalid strict_incomplete "\<lambda>c d. True"
  by unfold_locales
    (auto simp: u16be_emit_def u16_to_be_bytes_def u16_bytes_roundtrip u16be_codec_def)

interpretation marker_trip: codec_roundtrip marker_codec "codec_transcode_encode_hooks marker_codec"
  any_state marker_emit strict_unencodable "codec_transcode_decode_hooks marker_codec" any_state
  marker_parse strict_invalid strict_incomplete "\<lambda>c d. True"
  by unfold_locales (auto simp: marker_emit_def marker_codec_def)

section \<open>The fuzz oracle\<close>

abbreviation protocol_stream where
  "protocol_stream h \<equiv> decode_stream protocol_codec protocol_parse (protocol_on_invalid h) (protocol_on_incomplete h)"

text \<open>The error of the oracle's rejection.\<close>

definition protocol_reject :: "nat \<Rightarrow> bool \<Rightarrow> protocol_error decode_error" where
  "protocol_reject position incomplete = DecodeDomain (if incomplete then DomainMain ProtocolIncomplete position None
     else DomainMain ProtocolInvalid position (Some nz_min))"

lemma protocol_min: "min_units_per_value protocol_codec = 1"
  by (simp add: protocol_codec_def)

text \<open>A turn on a unit and the oracle's step on it; \<open>ys\<close> is the input still to come.\<close>

lemma protocol_turn:
  assumes "eof \<Longrightarrow> ys = []"
  obtains
    (take) v where "decode_turn protocol_codec protocol_parse (protocol_on_invalid h) (protocol_on_incomplete h) eof pos c (b # xs)
        = TurnTake nz_min v c"
      "\<And>acc. reference_from (ph_invalid h) (ph_incomplete h) pos acc (b # xs @ ys) =
        reference_from (ph_invalid h) (ph_incomplete h) (Suc pos) (acc @ option_list v) (xs @ ys)"
  | (reject) incomplete where "decode_turn protocol_codec protocol_parse (protocol_on_invalid h) (protocol_on_incomplete h) eof pos c (b # xs)
        = decode_turn.TurnReject (protocol_reject pos incomplete) c"
      "\<And>acc. reference_from (ph_invalid h) (ph_incomplete h) pos acc (b # xs @ ys) = OracleRejected pos acc incomplete"
  | (more) req where "decode_turn protocol_codec protocol_parse (protocol_on_invalid h) (protocol_on_incomplete h) eof pos c (b # xs)
        = TurnMore req c"
proof -
  note defs = decode_turn_def protocol_min failure_defs protocol_on_incomplete_def protocol_reject_def nz_min_def
  consider "b = 0xff" | "b = 0xfe" "xs = []" "\<not> eof" | "b = 0xfe" "xs = []" "eof" | "b \<noteq> 0xff" "b = 0xfe \<Longrightarrow> xs \<noteq> []" by blast
  then show thesis
  proof cases
    case 1
    show thesis
    proof (cases "ph_invalid h")
      case PolicyReject
      with 1 show ?thesis by (intro reject [where incomplete = False]) (simp_all add: defs)
    next
      case PolicySkip
      with 1 show ?thesis by (intro take [where v = None]) (simp_all add: defs)
    next
      case PolicyEmit
      with 1 show ?thesis by (intro take [where v = "Some question_mark"]) (simp_all add: defs)
    qed
  next
    case 2
    then show ?thesis by (intro more [where req = "NZ 1"]) (simp add: defs)
  next
    case 3
    show thesis
    proof (cases "ph_incomplete h")
      case PolicyReject
      with 3 assms show ?thesis by (intro reject [where incomplete = True]) (simp_all add: defs)
    next
      case PolicySkip
      with 3 assms show ?thesis by (intro take [where v = None]) (simp_all add: defs)
    next
      case PolicyEmit
      with 3 assms show ?thesis by (intro take [where v = "Some question_mark"]) (simp_all add: defs)
    qed
  next
    case 4
    then show ?thesis by (intro take [where v = "Some b"]) (auto simp: defs)
  qed
qed

text \<open>The oracle goes along with a run of the stream, complete or not: after a report it continues where
  the run stopped, and a failure of the run is its rejection.\<close>

lemma reference_call:
  assumes "protocol_stream h eof pos c xs room = (q, n, vs, c')" "eof \<Longrightarrow> ys = []"
  shows "case q of
      Ok st \<Rightarrow> reference_from (ph_invalid h) (ph_incomplete h) pos acc (xs @ ys) =
        reference_from (ph_invalid h) (ph_incomplete h) (pos + n) (acc @ vs) (drop n xs @ ys)
    | Err e \<Rightarrow> length vs < room \<and> (\<exists>position incomplete. e = protocol_reject position incomplete \<and>
        reference_from (ph_invalid h) (ph_incomplete h) pos acc (xs @ ys) = OracleRejected position (acc @ vs) incomplete)
    | Panic \<Rightarrow> False"
  using assms(1)
proof (induction xs arbitrary: pos c room n vs acc)
  case Nil
  then show ?case by auto
next
  case (Cons b xs)
  note full = decode_stream_full [of "b # xs" protocol_codec eof protocol_parse "protocol_on_invalid h" "protocol_on_incomplete h" pos c]
  note turn = decode_stream_turn [of "b # xs" protocol_codec eof room protocol_parse
      "protocol_on_invalid h" "protocol_on_incomplete h" pos c]
  let ?turn = "decode_turn protocol_codec protocol_parse (protocol_on_invalid h) (protocol_on_incomplete h) eof pos c (b # xs)"
    and ?ref = "reference_from (ph_invalid h) (ph_incomplete h)"
  show ?case
  proof (cases "room = 0")
    case True
    with full Cons.prems show ?thesis by (auto simp: protocol_min)
  next
    case room: False
    show ?thesis
    proof (rule protocol_turn [of eof ys h pos c b xs, OF assms(2)])
      fix v
      assume take: "?turn = TurnTake nz_min v c"
        "\<And>acc. ?ref pos acc (b # xs @ ys) = ?ref (Suc pos) (acc @ option_list v) (xs @ ys)"
      obtain q2 n2 vs2 c2 where rec: "protocol_stream h eof (Suc pos) c xs (room - length (option_list v)) = (q2, n2, vs2, c2)"
        by (metis prod_cases4)
      with turn take(1) room Cons.prems have "q2 = q" "c2 = c'" "n = Suc n2" "vs = option_list v @ vs2" by (auto simp: protocol_min nz_min_def)
      with Cons.IH [OF rec [unfolded this(1,2)], of "acc @ option_list v"] take(2) [of acc] \<open>n = Suc n2\<close> \<open>vs = option_list v @ vs2\<close>
      show ?thesis by (cases q) (auto simp del: reference_from.simps)
    next
      fix incomplete
      assume "?turn = decode_turn.TurnReject (protocol_reject pos incomplete) c"
        "\<And>acc. ?ref pos acc (b # xs @ ys) = OracleRejected pos acc incomplete"
      with turn room Cons.prems show ?thesis by (auto simp: protocol_min simp del: reference_from.simps)
    next
      fix req
      assume "?turn = TurnMore req c"
      with turn room Cons.prems show ?thesis by (auto simp: protocol_min)
    qed
  qed
qed

text \<open>The result the oracle predicts, for a call on the whole payload.\<close>

fun oracle_result ::
  "oracle_result \<Rightarrow> nat \<Rightarrow> (protocol_error decode_error, transcode_progress) res \<times> u8 list" where
  "oracle_result (OracleComplete vs) len = (Ok (progress_complete len (length vs)), vs)"
| "oracle_result (OracleRejected position pre incomplete) len = (Err (protocol_reject position incomplete), pre)"

lemma protocol_rate: "protocol_stream h eof pos c xs room = (q, n, vs, c') \<Longrightarrow> length vs \<le> n"
  using protocol_dec.stream_rate [of c h eof pos xs room q n vs c' 1] by (simp add: any_state_def Suc_leI)

text \<open>The decode engine on the fuzz target's protocol is its oracle: for every payload and
  every pair of policies, one call at end of input delivers the values the oracle lists and
  completes, or fails at the oracle's position with the oracle's kind of failure after the
  oracle's prefix.\<close>

theorem protocol_engine_is_oracle:
  assumes "stream_phase (de_phase eng)" "length payload \<le> length out"
    and "de_transcode_eof protocol_codec protocol_decode_hooks eng payload 0 out 0 = (r, eng', out')"
    and "oracle_result (reference payload (ph_invalid (de_hooks eng)) (ph_incomplete (de_hooks eng)))
      (length payload) = (expected, values)"
  shows "r = expected \<and> out' = splice_at out 0 values"
proof -
  let ?h = "de_hooks eng"
  obtain q n vs c' where
    s: "decode_stream protocol_codec protocol_parse (protocol_on_invalid ?h) (protocol_on_incomplete ?h)
      True 0 (de_codec eng) (drop 0 payload) (length out - 0) = (q, n, vs, c')"
    by (metis prod_cases4)
  have good: "any_state (de_codec eng)" by (simp add: any_state_def)
  note ref = protocol_dec.transcode_refines [OF good assms(1) le0 le0 s assms(3) [unfolded de_transcode_eof_def]]
  note model = reference_call [OF s, of "[]" "[]"] and bounds = protocol_dec.stream_bounds [OF good s]
  have "st = Complete" if "q = Ok st" for st
    using that bounds protocol_rate [OF s] assms(2) by (cases st) auto
  with bounds model ref assms(4) show ?thesis
    by (cases q) (auto simp: reference_def progress_complete_def)
qed

end
