(* ===== verification/ValueCodec.thy ===== *)
theory ValueCodec
  imports SampleCodecs
begin

text \<open>
  Whole values in owned buffers: \<open>src/value/codec_value_lifecycle.rs\<close>,
  \<open>codec_value_encoder.rs\<close>, \<open>codec_value_decoder.rs\<close> and the two result types. An
  adapter is its codec, so its state is the codec's state; a vector is a list. The unit or value
  that \<open>Default\<close> gives and the success of \<open>try_reserve_vec\<close> of the crate \<open>qubit_utils\<close>
  are arguments. The specification is a \<open>frame\<close>: the reset units, the units of the value and
  the finish units.
\<close>

section \<open>One complete value\<close>

definition max_complete_encode_units :: "('c, 'v, 'u, 'de, 'ee) codec \<Rightarrow> nat capacity" where
  "max_complete_encode_units C =
    bind_res (assert_unit_bounds C) (\<lambda>_.
      ok_or CapacityOutputLengthOverflow
        (Option.bind (checked_add (max_encode_reset_units C) (max_encode_units_per_value C))
          (\<lambda>units. checked_add units (max_encode_finish_units C))))"

text \<open>The part of \<open>encode_complete_value_into_reserved\<close> behind the reset units: the value, then
  the finish units.\<close>

definition encode_value_and_finish ::
  "('c, 'v, 'u, 'de, 'ee) codec \<Rightarrow> 'c \<Rightarrow> 'v \<Rightarrow> 'u list \<Rightarrow> nat \<Rightarrow> nat \<Rightarrow>
   (('ee, 'v) encode_error, nat) res \<times> 'c \<times> 'u list" where
  "encode_value_and_finish C c v out output_index reset_written =
    (if \<not> can_encode_value C c v then (Err (EncodeUnencodable 0 None), c, out)
     else
       let value_units = encode_len C c v in
       if \<not> value_units \<le> max_encode_units_per_value C then (Panic, c, out)
       else
       and_then (map_err encode_of_capacity
           (ok_or CapacityOutputLengthOverflow (checked_add value_units (max_encode_finish_units C))),
           c, out) (\<lambda>value_and_finish (c, out).
       let value_index = output_index + reset_written in
       and_then (map_err EncodeFailure
           (ensure_output_capacity (length out) value_index value_and_finish), c, out) (\<lambda>_ (c, out).
       case call_encode C c v out value_index of (r, c, out) \<Rightarrow>
       and_then (map_err (\<lambda>e. EncodeDomain (DomainMain e 0 None)) r, c, out) (\<lambda>value_written (c, out).
       if value_written \<noteq> value_units then (Panic, c, out)
       else
         let finish_index = value_index + value_written in
         case call_encode_finish C c out finish_index of (r, c, out) \<Rightarrow>
         and_then (map_err (\<lambda>e. EncodeDomain (DomainFinish e)) r, c, out) (\<lambda>finish_written (c, out).
         if \<not> finish_written \<le> max_encode_finish_units C then (Panic, c, out)
         else (Ok (reset_written + value_written + finish_written), c, out))))))"

definition encode_complete_value_into_reserved ::
  "('c, 'v, 'u, 'de, 'ee) codec \<Rightarrow> 'c \<Rightarrow> 'v \<Rightarrow> 'u list \<Rightarrow> nat \<Rightarrow> nat \<Rightarrow>
   (('ee, 'v) encode_error, nat) res \<times> 'c \<times> 'u list" where
  "encode_complete_value_into_reserved C c v out output_index reserved =
    (if \<not> (case checked_sub (length out) output_index of
              Some available \<Rightarrow> reserved \<le> available | None \<Rightarrow> False)
     then (Panic, c, out)
     else case call_encode_reset C c out output_index of (r, c, out) \<Rightarrow>
     and_then (map_err (\<lambda>e. EncodeDomain (DomainReset e)) r, c, out) (\<lambda>reset_written (c, out).
     if \<not> reset_written \<le> max_encode_reset_units C then (Panic, c, out)
     else encode_value_and_finish C c v out output_index reset_written))"

definition decode_exact_complete_value ::
  "('c, 'v, 'u, 'de, 'ee) codec \<Rightarrow> 'c \<Rightarrow> 'u list \<Rightarrow> 'v list \<Rightarrow> 'v list \<Rightarrow>
   ('de decode_error, 'v \<times> nat \<times> nat) res \<times> 'c \<times> 'v list \<times> 'v list" where
  "decode_exact_complete_value C c input reset_output finish_output =
    and_then (assert_unit_bounds C, c, reset_output, finish_output)
      (\<lambda>_ (c, reset_output, finish_output).
    and_then (map_err DecodeFailed
        (ensure_output_capacity (length reset_output) 0 (max_decode_reset_values C)),
        c, reset_output, finish_output) (\<lambda>_ (c, reset_output, finish_output).
    and_then (map_err DecodeFailed
        (ensure_output_capacity (length finish_output) 0 (max_decode_finish_values C)),
        c, reset_output, finish_output) (\<lambda>_ (c, reset_output, finish_output).
    case call_decode_reset C c reset_output 0 of (r, c, reset_output) \<Rightarrow>
    and_then (map_err (\<lambda>e. DecodeDomain (DomainReset e)) r, c, reset_output, finish_output)
      (\<lambda>reset_written (c, reset_output, finish_output).
    if \<not> reset_written \<le> max_decode_reset_values C then (Panic, c, reset_output, finish_output)
    else
    and_then (map_err DecodeFailed (ensure_min_input (length input) 0 (min_units_per_value C)),
        c, reset_output, finish_output) (\<lambda>_ (c, reset_output, finish_output).
    case decode_eof C c input 0 of (r, c) \<Rightarrow>
    and_then (map_err (\<lambda>failure. from_decode_failure failure 0 (length input)) r,
        c, reset_output, finish_output) (\<lambda>(v, consumed) (c, reset_output, finish_output).
    if \<not> nz_get consumed \<le> length input then (Panic, c, reset_output, finish_output)
    else if \<not> nz_get consumed \<le> max_decode_units_per_value C
    then (Panic, c, reset_output, finish_output)
    else
    and_then (map_err DecodeFailed (ensure_no_trailing_input (nz_get consumed) (length input)),
        c, reset_output, finish_output) (\<lambda>_ (c, reset_output, finish_output).
    case call_decode_finish C c finish_output 0 of (r, c, finish_output) \<Rightarrow>
    and_then (map_err (\<lambda>e. DecodeDomain (DomainFinish e)) r, c, reset_output, finish_output)
      (\<lambda>finish_written (c, reset_output, finish_output).
    if \<not> finish_written \<le> max_decode_finish_values C then (Panic, c, reset_output, finish_output)
    else (Ok (v, reset_written, finish_written), c, reset_output, finish_output)))))))))"

section \<open>CodecValueEncoder\<close>

definition codec_value_encoder_new ::
  "('c, 'v, 'u, 'de, 'ee) codec \<Rightarrow> 'c \<Rightarrow> ('e, 'c) res" where
  "codec_value_encoder_new C codec = bind_res (assert_unit_bounds C) (\<lambda>_. Ok codec)"

text \<open>\<open>encode_into\<close>: the vector grows by the bound, the value is written behind its old end,
  and the vector is cut back to what was written, or to its old length.\<close>

definition encode_into ::
  "('c, 'v, 'u, 'de, 'ee) codec \<Rightarrow> (nat \<Rightarrow> bool) \<Rightarrow> 'u \<Rightarrow> 'c \<Rightarrow> 'v \<Rightarrow> 'u list \<Rightarrow>
   (('ee, 'v) encode_error, nat) res \<times> 'c \<times> 'u list" where
  "encode_into C reserve_vec default_unit c input output =
    and_then (map_err encode_of_capacity (max_complete_encode_units C), c, output)
      (\<lambda>units (c, output).
    let original_len = length output in
    and_then (map_err encode_of_capacity
        (ok_or CapacityOutputLengthOverflow (checked_add original_len units)), c, output)
      (\<lambda>target_len (c, output).
    if \<not> reserve_vec units then (Err (EncodeFailure AllocationFailed), c, output)
    else
      let output = output @ replicate (target_len - original_len) default_unit in
      case encode_complete_value_into_reserved C c input output original_len units of
        (Ok written, c, output) \<Rightarrow> (Ok written, c, take (original_len + written) output)
      | (Err e, c, output) \<Rightarrow> (Err e, c, take original_len output)
      | (Panic, c, output) \<Rightarrow> (Panic, c, output)))"

definition codec_value_encode ::
  "('c, 'v, 'u, 'de, 'ee) codec \<Rightarrow> (nat \<Rightarrow> bool) \<Rightarrow> 'u \<Rightarrow> 'c \<Rightarrow> 'v \<Rightarrow>
   (('ee, 'v) encode_error, 'u list) res \<times> 'c" where
  "codec_value_encode C reserve_vec default_unit c input =
    (case encode_into C reserve_vec default_unit c input [] of
       (r, c, output) \<Rightarrow> (map_ok (\<lambda>_. output) r, c))"

section \<open>CodecValueDecoder\<close>

record 'v decode_lifecycle_output =
  dlo_reset :: "'v list"
  dlo_value :: 'v
  dlo_finish :: "'v list"

record 'v decode_lifecycle_progress =
  dlp_value :: 'v
  dlp_reset_written :: nat
  dlp_finish_written :: nat

definition codec_value_decoder_new ::
  "('c, 'v, 'u, 'de, 'ee) codec \<Rightarrow> 'c \<Rightarrow> ('e, 'c) res" where
  "codec_value_decoder_new C codec = bind_res (assert_unit_bounds C) (\<lambda>_. Ok codec)"

definition codec_value_decode ::
  "('c, 'v, 'u, 'de, 'ee) codec \<Rightarrow> 'c \<Rightarrow> 'u list \<Rightarrow> ('de decode_error, 'v) res \<times> 'c" where
  "codec_value_decode C c input =
    and_then (map_err DecodeFailed (ensure_no_decode_lifecycle_output C), c) (\<lambda>_ c.
      case decode_exact_complete_value C c input [] [] of (r, c, reset_output, finish_output) \<Rightarrow>
      and_then (r, c) (\<lambda>(v, reset_written, finish_written) c.
        if reset_written \<noteq> 0 then (Panic, c)
        else if finish_written \<noteq> 0 then (Panic, c)
        else (Ok v, c)))"

definition decode_lifecycle_with_scratch ::
  "('c, 'v, 'u, 'de, 'ee) codec \<Rightarrow> 'c \<Rightarrow> 'u list \<Rightarrow> 'v list \<Rightarrow> 'v list \<Rightarrow>
   ('de decode_error, 'v decode_lifecycle_progress) res \<times> 'c \<times> 'v list \<times> 'v list" where
  "decode_lifecycle_with_scratch C c input reset_output finish_output =
    (case decode_exact_complete_value C c input reset_output finish_output of
       (r, c, reset_output, finish_output) \<Rightarrow>
         (map_ok (\<lambda>(v, reset_written, finish_written).
            \<lparr>dlp_value = v, dlp_reset_written = reset_written, dlp_finish_written = finish_written\<rparr>) r,
          c, reset_output, finish_output))"

definition decode_lifecycle ::
  "('c, 'v, 'u, 'de, 'ee) codec \<Rightarrow> (nat \<Rightarrow> bool) \<Rightarrow> 'v \<Rightarrow> 'c \<Rightarrow> 'u list \<Rightarrow>
   ('de decode_error, 'v decode_lifecycle_output) res \<times> 'c" where
  "decode_lifecycle C reserve_vec default_value c input =
    (if \<not> reserve_vec (max_decode_reset_values C) then (Err (DecodeFailed AllocationFailed), c)
     else
       let reset = replicate (max_decode_reset_values C) default_value in
       if \<not> reserve_vec (max_decode_finish_values C) then (Err (DecodeFailed AllocationFailed), c)
       else
         let finish = replicate (max_decode_finish_values C) default_value in
         case decode_lifecycle_with_scratch C c input reset finish of (r, c, reset, finish) \<Rightarrow>
           (map_ok (\<lambda>p. \<lparr>dlo_reset = take (dlp_reset_written p) reset, dlo_value = dlp_value p,
              dlo_finish = take (dlp_finish_written p) finish\<rparr>) r, c))"

section \<open>Facts about every codec\<close>

lemma max_complete_encode_units_Ok:
  "max_complete_encode_units C = Ok n \<longleftrightarrow> unit_bounds C \<and>
    n = max_encode_reset_units C + max_encode_units_per_value C + max_encode_finish_units C \<and> n \<le> usize_max"
  by (auto simp: max_complete_encode_units_def assert_unit_bounds_cases bind_res_eq_Ok bind_eq_Some_conv
      checked_add_eq_Some split: if_splits)

text \<open>A codec that leaves what stands in front of the index alone, in each of the three calls that write.\<close>

definition writes_behind :: "('c, 'v, 'u, 'de, 'ee) codec \<Rightarrow> bool" where
  "writes_behind C \<longleftrightarrow> (\<forall>c v out i.
     take i (snd (snd (call_encode_reset C c out i))) = take i out \<and>
     take i (snd (snd (call_encode C c v out i))) = take i out \<and>
     take i (snd (snd (call_encode_finish C c out i))) = take i out)"

lemma writes_behindD:
  assumes "writes_behind C" "k \<le> i"
  shows "call_encode_reset C c out i = (r, c', out') \<Longrightarrow> take k out' = take k out"
    and "call_encode C c v out i = (r, c', out') \<Longrightarrow> take k out' = take k out"
    and "call_encode_finish C c out i = (r, c', out') \<Longrightarrow> take k out' = take k out"
  using assms unfolding writes_behind_def by (metis min.absorb1 snd_conv take_take)+

lemma complete_value_any:
  assumes "encode_complete_value_into_reserved C c v out i reserved = (r, c', out')"
  shows "length out' = length out \<and>
    (\<forall>n. r = Ok n \<longrightarrow>
      n \<le> max_encode_reset_units C + max_encode_units_per_value C + max_encode_finish_units C) \<and>
    (writes_behind C \<longrightarrow> take i out' = take i out)"
proof -
  note def = encode_complete_value_into_reserved_def encode_value_and_finish_def
  obtain r1 c1 o1 where 1: "call_encode_reset C c out i = (r1, c1, o1)" by (metis prod_cases3)
  note l1 = call_encode_reset_length [OF 1] and b1 = writes_behindD(1) [OF _ order_refl 1]
  show ?thesis
  proof (cases r1)
    case (Ok w1)
    obtain r2 c2 o2 where 2: "call_encode C c1 v o1 (i + w1) = (r2, c2, o2)" by (metis prod_cases3)
    note l2 = call_encode_length [OF 2] and b2 = writes_behindD(2) [OF _ le_add1 2]
    show ?thesis
    proof (cases r2)
      case Ok2: (Ok w2)
      obtain r3 c3 o3 where 3: "call_encode_finish C c2 o2 (i + w1 + w2) = (r3, c3, o3)" by (metis prod_cases3)
      note l3 = call_encode_finish_length [OF 3]
      have b3: "take i o3 = take i o2" if "writes_behind C" by (rule writes_behindD(3) [OF that _ 3]) simp
      from assms 1 Ok 2 Ok2 3 l1 l2 l3 b1 b2 b3 show ?thesis
        by (auto simp: def and_then_case Let_def split: if_splits res.splits option.splits)
    qed (use assms 1 Ok 2 l1 l2 b1 b2 in \<open>auto simp: def and_then_case Let_def split: if_splits res.splits option.splits\<close>)
  qed (use assms 1 l1 b1 in \<open>auto simp: def split: if_splits option.splits\<close>)
qed

lemmas complete_value_length [slice_len] = complete_value_any [THEN conjunct1]

text \<open>Whatever the codec does, the vector ends at what was reported or at its old length; a codec that
  writes behind the index keeps what the vector held.\<close>

lemma encode_into_any:
  assumes "encode_into C reserve_vec d c v vec = (r, c', vec')"
  shows "(\<forall>n. r = Ok n \<longrightarrow> length vec' = length vec + n \<and> (writes_behind C \<longrightarrow> take (length vec) vec' = vec)) \<and>
    (\<forall>e. r = Err e \<longrightarrow> length vec' = length vec \<and> (writes_behind C \<longrightarrow> vec' = vec))"
proof (cases "max_complete_encode_units C :: nat capacity")
  case (Ok units)
  let ?grown = "vec @ replicate units d"
  obtain q c1 o1 where
    call: "encode_complete_value_into_reserved C c v ?grown (length vec) units = (q, c1, o1)"
    by (metis prod_cases3)
  from Ok complete_value_any [OF call] have "length o1 = length vec + units" "\<forall>n. q = Ok n \<longrightarrow> n \<le> units"
    "writes_behind C \<longrightarrow> take (length vec) o1 = vec"
    by (auto simp: max_complete_encode_units_Ok)
  with assms Ok call show ?thesis
    by (auto simp: encode_into_def and_then_case checked_add_def Let_def split: if_splits res.splits)
qed (use assms in \<open>auto simp: encode_into_def\<close>)

section \<open>The frame of a value\<close>

text \<open>The units of one complete value, or the first error on the way to them.\<close>

type_synonym ('c, 'u, 'ee) lifecycle_emitter = "'c \<Rightarrow> ('ee + 'u list) \<times> 'c"

definition value_tail ::
  "('c, 'v, 'u, 'de, 'ee) codec \<Rightarrow> ('c, 'v, 'u, 'ee) emitter \<Rightarrow> ('c, 'u, 'ee) lifecycle_emitter \<Rightarrow>
   'c \<Rightarrow> 'v \<Rightarrow> (('ee, 'v) encode_error + 'u list) \<times> 'c" where
  "value_tail C emit finish_emit c v =
    (if \<not> can_encode_value C c v then (Inl (EncodeUnencodable 0 None), c)
     else case emit c v of
       (Inl e, c') \<Rightarrow> (Inl (EncodeDomain (DomainMain e 0 None)), c')
     | (Inr us, c') \<Rightarrow>
         (case finish_emit c' of
            (Inl e, c'') \<Rightarrow> (Inl (EncodeDomain (DomainFinish e)), c'')
          | (Inr fs, c'') \<Rightarrow> (Inr (us @ fs), c'')))"

definition value_frame ::
  "('c, 'v, 'u, 'de, 'ee) codec \<Rightarrow> ('c, 'u, 'ee) lifecycle_emitter \<Rightarrow> ('c, 'v, 'u, 'ee) emitter \<Rightarrow>
   ('c, 'u, 'ee) lifecycle_emitter \<Rightarrow> 'c \<Rightarrow> 'v \<Rightarrow> (('ee, 'v) encode_error + 'u list) \<times> 'c" where
  "value_frame C reset_emit emit finish_emit c v =
    (case reset_emit c of
       (Inl e, c') \<Rightarrow> (Inl (EncodeDomain (DomainReset e)), c')
     | (Inr rs, c') \<Rightarrow> apfst (map_sum id ((@) rs)) (value_tail C emit finish_emit c' v))"

text \<open>A call that writes at an index: the units are spliced in there, or nothing before the
  index is touched.\<close>

definition wrote_at ::
  "'u list \<Rightarrow> nat \<Rightarrow> ('e + 'u list) \<times> 'c \<Rightarrow> ('e, nat) res \<times> 'c \<times> 'u list \<Rightarrow> bool" where
  "wrote_at out i spec call \<longleftrightarrow>
    (case spec of
       (Inr us, c') \<Rightarrow> call = (Ok (length us), c', splice_at out i us)
     | (Inl e, c') \<Rightarrow> \<exists>out'. call = (Err e, c', out') \<and> length out' = length out \<and> take i out' = take i out)"

lemma wrote_atE:
  assumes "wrote_at out i (x, c') call"
  obtains us where "x = Inr us" "call = (Ok (length us), c', splice_at out i us)"
  | e out' where "x = Inl e" "call = (Err e, c', out')" "length out' = length out" "take i out' = take i out"
  using assms by (cases x) (auto simp: wrote_at_def)

text \<open>What is left alone behind a written part is left alone behind the index it starts at.\<close>

lemma splice_then_untouched:
  assumes "take (i + length us) out' = take (i + length us) (splice_at out i us)" "i + length us \<le> length out"
  shows "take i out' = take i out"
proof -
  have "take i out' = take i (take (i + length us) out')" by simp
  also have "\<dots> = take i (splice_at out i us)" by (simp add: assms(1))
  finally show ?thesis using assms(2) by simp
qed

locale framing_codec = emitting_codec C good emit
  for C :: "('c, 'v, 'u, 'de, 'ee) codec" and good and emit +
  fixes reset_emit :: "('c, 'u, 'ee) lifecycle_emitter"
    and finish_emit :: "('c, 'u, 'ee) lifecycle_emitter"
  assumes bounds: "unit_bounds C"
    and reset_law: "good c \<Longrightarrow> i + max_encode_reset_units C \<le> length out \<Longrightarrow>
        wrote_at out i (reset_emit c) (encode_reset C c out i)"
    and reset_len: "good c \<Longrightarrow> reset_emit c = (Inr us, c') \<Longrightarrow>
        length us \<le> max_encode_reset_units C \<and> good c'"
    and finish_law: "good c \<Longrightarrow> i + max_encode_finish_units C \<le> length out \<Longrightarrow>
        wrote_at out i (finish_emit c) (encode_finish C c out i)"
    and finish_len: "good c \<Longrightarrow> finish_emit c = (Inr us, c') \<Longrightarrow>
        length us \<le> max_encode_finish_units C \<and> good c'"
begin

lemma encode_wrote:
  assumes "good c" "can_encode_value C c v" "i + encode_len C c v \<le> length out"
  shows "wrote_at out i (emit c v) (encode C c v out i)"
  using encode_law [OF assms] encode_error_law [OF assms]
  by (cases "emit c v"; cases "fst (emit c v)") (auto simp: wrote_at_def)

abbreviation tail :: "'c \<Rightarrow> 'v \<Rightarrow> (('ee, 'v) encode_error + 'u list) \<times> 'c" where
  "tail \<equiv> value_tail C emit finish_emit"

abbreviation frame :: "'c \<Rightarrow> 'v \<Rightarrow> (('ee, 'v) encode_error + 'u list) \<times> 'c" where
  "frame \<equiv> value_frame C reset_emit emit finish_emit"

lemma tail_good: "good c \<Longrightarrow> tail c v = (Inr us, c') \<Longrightarrow>
    length us \<le> max_encode_units_per_value C + max_encode_finish_units C \<and> good c'"
  using emit_good [of c v] emit_len [of c v] encode_len_bound [of c v] finish_len
  by (fastforce simp: value_tail_def split: if_splits prod.splits sum.splits)

lemma frame_good:
  assumes "good c" "frame c v = (Inr us, c')" "max_complete_encode_units C = Ok units"
  shows "length us \<le> units \<and> good c'"
proof -
  from assms(2) obtain rs c1 ws where r: "reset_emit c = (Inr rs, c1)"
    and t: "tail c1 v = (Inr ws, c')" "us = rs @ ws"
    by (cases "reset_emit c"; cases "fst (reset_emit c)"; cases "tail (snd (reset_emit c)) v";
        cases "fst (tail (snd (reset_emit c)) v)") (auto simp: value_frame_def)
  from reset_len [OF assms(1) r] tail_good [OF _ t(1)] t(2) assms(3) show ?thesis
    by (simp add: max_complete_encode_units_Ok)
qed

lemma value_and_finish_refines:
  assumes "good c" "i + k + (max_encode_units_per_value C + max_encode_finish_units C) \<le> length out"
    and "max_encode_units_per_value C + max_encode_finish_units C \<le> usize_max"
  shows "case tail c v of
      (Inr us, c') \<Rightarrow> encode_value_and_finish C c v out i k = (Ok (k + length us), c', splice_at out (i + k) us)
    | (Inl e, c') \<Rightarrow> \<exists>out'. encode_value_and_finish C c v out i k = (Err e, c', out') \<and>
        length out' = length out \<and> take (i + k) out' = take (i + k) out"
proof (cases "can_encode_value C c v")
  case False
  then show ?thesis by (simp add: value_tail_def encode_value_and_finish_def)
next
  case can: True
  note def = encode_value_and_finish_def value_tail_def call_defs
  note len = encode_len_bound [OF assms(1) can]
  have fit: "i + k + encode_len C c v \<le> length out" using assms(2) len by simp
  have pre: "checked_add (encode_len C c v) (max_encode_finish_units C) =
      Some (encode_len C c v + max_encode_finish_units C)"
    "ensure_output_capacity (length out) (i + k) (encode_len C c v + max_encode_finish_units C) = Ok ()"
    using len assms(2,3) by (simp_all add: checked_add_def check_simps)
  obtain x c1 where m: "emit c v = (x, c1)" by (metis surj_pair)
  from encode_wrote [OF assms(1) can fit, unfolded m] show ?thesis
  proof (cases rule: wrote_atE)
    case (2 e out')
    with can len pre m show ?thesis by (simp add: def)
  next
    case (1 us)
    let ?out = "splice_at out (i + k) us"
    have us: "length us = encode_len C c v" "good c1"
      using emit_len [OF assms(1) can] emit_good [OF assms(1) can] m 1 by simp_all
    have room: "i + k + length us + max_encode_finish_units C \<le> length ?out" using assms(2) us len by simp
    obtain y c2 where f: "finish_emit c1 = (y, c2)" by (metis surj_pair)
    from finish_law [OF us(2) room, unfolded f] show ?thesis
    proof (cases rule: wrote_atE)
      case f2: (2 e out')
      with splice_then_untouched [of "i + k" us out' out] can len pre m 1 us fit f show ?thesis by (simp add: def)
    next
      case f1: (1 fs)
      have "length fs \<le> max_encode_finish_units C" using finish_len [OF us(2)] f f1 by auto
      with f1 can len pre m 1 us fit f splice_at_append [of "i + k" us out fs] assms(2) show ?thesis
        by (simp add: def)
    qed
  qed
qed

text \<open>The three writes of the source are one write of the frame.\<close>

lemma complete_value_refines:
  assumes "good c" "max_complete_encode_units C = Ok reserved" "i + reserved \<le> length out"
  shows "wrote_at out i (frame c v) (encode_complete_value_into_reserved C c v out i reserved)"
proof -
  note def = encode_complete_value_into_reserved_def value_frame_def call_defs
  have sizes: "i + max_encode_reset_units C + (max_encode_units_per_value C + max_encode_finish_units C) \<le> length out"
      "max_encode_units_per_value C + max_encode_finish_units C \<le> usize_max"
    using assms(2,3) by (auto simp: max_complete_encode_units_Ok)
  have room: "checked_sub (length out) i = Some (length out - i)" "reserved \<le> length out - i"
    using assms(3) by (simp_all add: checked_sub_def)
  obtain x c1 where r: "reset_emit c = (x, c1)" by (metis surj_pair)
  have reset: "wrote_at out i (x, c1) (encode_reset C c out i)"
    using reset_law [OF assms(1), of i out] sizes r by simp
  from reset show ?thesis
  proof (cases rule: wrote_atE)
    case (2 e out')
    with r room show ?thesis by (simp add: def wrote_at_def)
  next
    case (1 rs)
    let ?o = "splice_at out i rs"
    have rs: "length rs \<le> max_encode_reset_units C" "good c1" using reset_len [OF assms(1)] r 1 by auto
    then have l: "length ?o = length out" using sizes by simp
    with rs have fit: "i + length rs + (max_encode_units_per_value C + max_encode_finish_units C) \<le> length ?o"
      using sizes by simp
    obtain y c2 where t: "tail c1 v = (y, c2)" by (metis surj_pair)
    note tail = value_and_finish_refines [OF rs(2) fit sizes(2), of v, unfolded t]
    have spec: "frame c v = (map_sum id ((@) rs) y, c2)" using r 1 t by (simp add: value_frame_def)
    have call: "encode_complete_value_into_reserved C c v out i reserved =
        encode_value_and_finish C c1 v ?o i (length rs)"
      using r 1 room rs l by (simp add: encode_complete_value_into_reserved_def call_defs)
    show ?thesis
    proof (cases y)
      case (Inl e)
      with tail obtain out' where t: "encode_value_and_finish C c1 v ?o i (length rs) = (Err e, c2, out')"
        "length out' = length ?o" "take (i + length rs) out' = take (i + length rs) ?o" by auto
      from splice_then_untouched [OF t(3)] t(1,2) l fit Inl show ?thesis
        by (simp add: call spec wrote_at_def)
    next
      case (Inr us)
      with tail splice_at_append [of i rs out us] fit l show ?thesis
        by (simp add: call spec wrote_at_def)
    qed
  qed
qed

lemma encode_into_refines:
  assumes "good c" "max_complete_encode_units C = Ok units" "length vec + units \<le> usize_max" "reserve_vec units"
  shows "encode_into C reserve_vec d c v vec =
    (case frame c v of
       (Inr us, c') \<Rightarrow> (Ok (length us), c', vec @ us)
     | (Inl e, c') \<Rightarrow> (Err e, c', vec))"
proof -
  have units: "max_complete_encode_units C = Ok units" using assms(2)
    by (simp add: max_complete_encode_units_Ok)
  let ?grown = "vec @ replicate units d"
  have call: "wrote_at ?grown (length vec) (frame c v)
      (encode_complete_value_into_reserved C c v ?grown (length vec) units)"
    by (rule complete_value_refines [OF assms(1,2)]) simp
  obtain x c1 where f: "frame c v = (x, c1)" by (metis surj_pair)
  from call [unfolded f] show ?thesis
  proof (cases rule: wrote_atE)
    case (1 us)
    with assms(3,4) f show ?thesis
      by (simp add: encode_into_def units checked_add_def splice_at_def)
  next
    case (2 e out')
    with assms(3,4) f show ?thesis
      by (simp add: encode_into_def units checked_add_def)
  qed
qed

end

section \<open>Exact decoding\<close>

text \<open>What a decode of exactly one value makes of its whole input: the reset values, the value and
  the finish values, or the first error.\<close>

type_synonym ('c, 'v, 'de) lifecycle_values = "'c \<Rightarrow> ('de + 'v list) \<times> 'c"

definition exact_value ::
  "('c, 'v, 'u, 'de, 'ee) codec \<Rightarrow> ('c, 'v, 'de) lifecycle_values \<Rightarrow> ('c, 'v, 'u, 'de) parser \<Rightarrow>
   ('c, 'v, 'de) lifecycle_values \<Rightarrow> 'c \<Rightarrow> 'u list \<Rightarrow>
   ('de decode_error + 'v decode_lifecycle_output) \<times> 'c" where
  "exact_value C reset_values parse finish_values c xs =
    (case reset_values c of
       (Inl e, c1) \<Rightarrow> (Inl (DecodeDomain (DomainReset e)), c1)
     | (Inr rs, c1) \<Rightarrow>
         if length xs < min_units_per_value C
         then (Inl (DecodeFailed (IncompleteInput 0 (min_units_per_value C) (length xs))), c1)
         else case parse c1 True xs of
           (Inl f, c2) \<Rightarrow> (Inl (from_decode_failure f 0 (length xs)), c2)
         | (Inr (v, n), c2) \<Rightarrow>
             if nz_get n < length xs
             then (Inl (DecodeFailed (TrailingInput (nz_get n) (length xs - nz_get n))), c2)
             else case finish_values c2 of
               (Inl e, c3) \<Rightarrow> (Inl (DecodeDomain (DomainFinish e)), c3)
             | (Inr fs, c3) \<Rightarrow> (Inr \<lparr>dlo_reset = rs, dlo_value = v, dlo_finish = fs\<rparr>, c3))"

locale exact_codec = parsing_codec C good parse
  for C :: "('c, 'v, 'u, 'de, 'ee) codec" and good and parse +
  fixes reset_values :: "('c, 'v, 'de) lifecycle_values"
    and finish_values :: "('c, 'v, 'de) lifecycle_values"
  assumes reset_law: "good c \<Longrightarrow> max_decode_reset_values C \<le> length out \<Longrightarrow>
        wrote_at out 0 (reset_values c) (decode_reset C c out 0)"
    and reset_len: "good c \<Longrightarrow> reset_values c = (Inr vs, c') \<Longrightarrow>
        length vs \<le> max_decode_reset_values C \<and> good c'"
    and finish_law: "good c \<Longrightarrow> max_decode_finish_values C \<le> length out \<Longrightarrow>
        wrote_at out 0 (finish_values c) (decode_finish C c out 0)"
    and finish_len: "good c \<Longrightarrow> finish_values c = (Inr vs, c') \<Longrightarrow>
        length vs \<le> max_decode_finish_values C \<and> good c'"
begin

abbreviation exact :: "'c \<Rightarrow> 'u list \<Rightarrow> ('de decode_error + 'v decode_lifecycle_output) \<times> 'c" where
  "exact \<equiv> exact_value C reset_values parse finish_values"

lemma exact_refines:
  assumes "good c" "max_decode_reset_values C \<le> length ro" "max_decode_finish_values C \<le> length fo"
  shows "case exact c xs of
      (Inr out, c') \<Rightarrow> decode_exact_complete_value C c xs ro fo =
        (Ok (dlo_value out, length (dlo_reset out), length (dlo_finish out)), c',
         splice_at ro 0 (dlo_reset out), splice_at fo 0 (dlo_finish out)) \<and>
        length (dlo_reset out) \<le> max_decode_reset_values C \<and>
        length (dlo_finish out) \<le> max_decode_finish_values C
    | (Inl e, c') \<Rightarrow> \<exists>ro' fo'. decode_exact_complete_value C c xs ro fo = (Err e, c', ro', fo')"
proof -
  note def = decode_exact_complete_value_def exact_value_def call_defs assert_unit_bounds_cases
    ensure_min_input_def ensure_no_trailing_input_def ensure_input_index_def
  have caps: "ensure_output_capacity (length ro) 0 (max_decode_reset_values C) = Ok ()"
    "ensure_output_capacity (length fo) 0 (max_decode_finish_values C) = Ok ()"
    using assms(2,3) by (simp_all add: check_simps)
  obtain x c1 where r: "reset_values c = (x, c1)" by (metis surj_pair)
  from reset_law [OF assms(1,2), unfolded r] show ?thesis
  proof (cases rule: wrote_atE)
    case (2 e out')
    with r caps codec_bounds show ?thesis by (simp add: def)
  next
    case (1 rs)
    let ?ro = "splice_at ro 0 rs"
    have rs: "length rs \<le> max_decode_reset_values C" "good c1" using reset_len [OF assms(1)] r 1 by auto
    then have l: "length ?ro = length ro" using assms(2) by simp
    show ?thesis
    proof (cases "length xs < min_units_per_value C")
      case True
      with r 1 rs l caps codec_bounds show ?thesis by (simp add: def)
    next
      case False
      then have min: "min_units_per_value C \<le> length xs - 0" by simp
      obtain y c2 where p: "parse c1 True xs = (y, c2)" by (metis surj_pair)
      have dec: "decode_eof C c1 xs 0 = (sum_res y, c2)" using decode_eof_law [OF rs(2) min] p by simp
      have g2: "good c2" using parse_good [OF rs(2), of xs True] min p by simp
      show ?thesis
      proof (cases y)
        case (Inl f)
        with r 1 rs l caps codec_bounds False p dec show ?thesis by (simp add: def)
      next
        case y: (Inr vn)
        obtain v n where vn: "vn = (v, n)" by (cases vn)
        have n: "nz_get n \<le> length xs" "nz_get n \<le> max_decode_units_per_value C"
          using parse_value [OF rs(2) _ p [unfolded y vn]] min by simp_all
        note so_far = r 1 rs l caps codec_bounds False p dec y vn n
        obtain z c3 where f: "finish_values c2 = (z, c3)" by (metis surj_pair)
        from finish_law [OF g2 assms(3), unfolded f] show ?thesis
        proof (cases rule: wrote_atE)
          case (2 e out')
          with so_far f show ?thesis by (auto simp: def Let_def)
        next
          case f1: (1 fs)
          have "length fs \<le> max_decode_finish_values C" using finish_len [OF g2] f f1 by auto
          with so_far f f1 assms(3) show ?thesis by (auto simp: def Let_def)
        qed
      qed
    qed
  qed
qed

lemma decode_lifecycle_refines:
  assumes "good c" "reserve_vec (max_decode_reset_values C)" "reserve_vec (max_decode_finish_values C)"
  shows "decode_lifecycle C reserve_vec d c xs =
    (case exact c xs of (Inr out, c') \<Rightarrow> (Ok out, c') | (Inl e, c') \<Rightarrow> (Err e, c'))"
proof -
  let ?ro = "replicate (max_decode_reset_values C) d" and ?fo = "replicate (max_decode_finish_values C) d"
  obtain y c1 where e: "exact c xs = (y, c1)" by (metis surj_pair)
  note ref = exact_refines [OF assms(1), of ?ro ?fo xs, unfolded e]
  show ?thesis
  proof (cases y)
    case (Inl err)
    with ref e assms(2,3) show ?thesis
      by (auto simp: decode_lifecycle_def decode_lifecycle_with_scratch_def)
  next
    case (Inr out)
    with ref e assms(2,3) show ?thesis
      by (simp add: decode_lifecycle_def decode_lifecycle_with_scratch_def splice_at_def)
  qed
qed

lemma decode_refines:
  assumes "good c"
  shows "codec_value_decode C c xs =
    (if max_decode_reset_values C \<noteq> 0 \<or> max_decode_finish_values C \<noteq> 0
     then (Err (DecodeFailed (UnsupportedDecodeLifecycleOutput (max_decode_reset_values C)
                 (max_decode_finish_values C))), c)
     else case exact c xs of (Inr out, c') \<Rightarrow> (Ok (dlo_value out), c') | (Inl e, c') \<Rightarrow> (Err e, c'))"
proof (cases "max_decode_reset_values C \<noteq> 0 \<or> max_decode_finish_values C \<noteq> 0")
  case True
  with codec_bounds show ?thesis
    by (simp add: codec_value_decode_def ensure_no_decode_lifecycle_output_def assert_unit_bounds_cases)
next
  case False
  obtain y c1 where e: "exact c xs = (y, c1)" by (metis surj_pair)
  from exact_refines [OF assms, of "[]" "[]" xs, unfolded e] e False codec_bounds show ?thesis
    by (cases y) (auto simp: codec_value_decode_def ensure_no_decode_lifecycle_output_def assert_unit_bounds_cases)
qed

end

section \<open>Round trip\<close>

text \<open>A codec whose encoder and decoder agree value by value: the two resets, whatever was done before
  them, leave the two sides in step, and in step the decoder parses what one call of the encoder wrote.
  The encoder puts no lifecycle units around a value, for the decoder takes its whole input as the value.
  Nothing is assumed of a frame or of the owned buffers.\<close>

locale value_codec =
  enc: framing_codec C good_e emit reset_emit finish_emit +
  dec: exact_codec C good_d parse reset_values finish_values
  for C :: "('c, 'v, 'u, 'de, 'ee) codec" and good_e emit reset_emit finish_emit good_d parse
    reset_values finish_values +
  fixes synced :: "'c \<Rightarrow> 'c \<Rightarrow> bool"
  assumes resets_sync: "good_e c \<Longrightarrow> good_d d \<Longrightarrow> reset_emit c = (Inr us, c') \<Longrightarrow>
      us = [] \<and> (\<exists>vs d'. reset_values d = (Inr vs, d') \<and> synced c' d')"
    and parse_emit: "good_e c \<Longrightarrow> good_d d \<Longrightarrow> synced c d \<Longrightarrow> can_encode_value C c v \<Longrightarrow>
      emit c v = (Inr us, c') \<Longrightarrow>
      \<exists>n d'. parse d True us = (Inr (v, n), d') \<and> nz_get n = length us \<and> synced c' d' \<and>
        min_units_per_value C \<le> length us"
    and finishes: "good_e c \<Longrightarrow> good_d d \<Longrightarrow> synced c d \<Longrightarrow> finish_emit c = (Inr us, c') \<Longrightarrow>
      us = [] \<and> (\<exists>vs d'. finish_values d = (Inr vs, d'))"
begin

text \<open>So the frame of a value decodes as exactly that value.\<close>

lemma frame_exact:
  assumes "good_e c" "good_d d" "value_frame C reset_emit emit finish_emit c v = (Inr us, c')"
  shows "\<exists>rs fs d'. exact_value C reset_values parse finish_values d us =
    (Inr \<lparr>dlo_reset = rs, dlo_value = v, dlo_finish = fs\<rparr>, d')"
proof -
  from assms(3) obtain ru c1 vu c2 fu where reset: "reset_emit c = (Inr ru, c1)" and can: "can_encode_value C c1 v"
    and emit: "emit c1 v = (Inr vu, c2)" and finish: "finish_emit c2 = (Inr fu, c')" and us: "us = ru @ vu @ fu"
    by (auto simp: value_frame_def value_tail_def split: sum.splits prod.splits if_splits)
  from resets_sync [OF assms(1,2) reset] obtain rs d1 where
    d1: "ru = []" "reset_values d = (Inr rs, d1)" "synced c1 d1" by blast
  have good1: "good_e c1" "good_d d1"
    using enc.reset_len [OF assms(1) reset] dec.reset_len [OF assms(2) d1(2)] by simp_all
  from parse_emit [OF good1 d1(3) can emit] obtain n d2 where
    d2: "parse d1 True vu = (Inr (v, n), d2)" "nz_get n = length vu" "synced c2 d2" "min_units_per_value C \<le> length vu"
    by blast
  have good2: "good_e c2" "good_d d2"
    using enc.emit_good [OF good1(1) can] emit dec.parse_good [OF good1(2) d2(4), of True] d2(1) by simp_all
  from finishes [OF good2 d2(3) finish] obtain fs d3 where "fu = []" "finish_values d2 = (Inr fs, d3)" by blast
  with d1 d2 us show ?thesis by (simp add: exact_value_def)
qed

lemma encode_then_decode:
  assumes "good_e c" "good_d d"
    and "max_complete_encode_units C = Ok units" "reserve_vec units"
    and "reserve_vec (max_decode_reset_values C)" "reserve_vec (max_decode_finish_values C)"
    and "codec_value_encode C reserve_vec du c v = (Ok us, c')"
  shows "\<exists>rs fs d'. decode_lifecycle C reserve_vec dv d us =
      (Ok \<lparr>dlo_reset = rs, dlo_value = v, dlo_finish = fs\<rparr>, d') \<and>
    codec_value_decode C d us =
      (if max_decode_reset_values C = 0 \<and> max_decode_finish_values C = 0 then (Ok v, d')
       else (Err (DecodeFailed (UnsupportedDecodeLifecycleOutput (max_decode_reset_values C)
               (max_decode_finish_values C))), d))"
proof -
  have "length ([] :: 'u list) + units \<le> usize_max" using assms(3) by (simp add: max_complete_encode_units_Ok)
  note enc = enc.encode_into_refines [where reserve_vec = reserve_vec and vec = "[]" and d = du and v = v,
      OF assms(1,3) this assms(4)]
  have "value_frame C reset_emit emit finish_emit c v = (Inr us, c')"
    using assms(7) enc
    by (auto simp: codec_value_encode_def map_ok_eq split: prod.splits sum.splits)
  from frame_exact [OF assms(1,2) this] dec.decode_lifecycle_refines [OF assms(2,5,6), of dv us]
    dec.decode_refines [OF assms(2), of us]
  show ?thesis by auto
qed

end

section \<open>The codecs of the repository\<close>

definition emit_nothing :: "'c \<Rightarrow> ('e + 'x list) \<times> 'c" where
  "emit_nothing c = (Inr [], c)"

lemma emit_nothing_wrote [simp]: "wrote_at out i (emit_nothing c) (default_lifecycle_output c out i)"
  by (simp add: wrote_at_def emit_nothing_def default_lifecycle_output_def)

definition emit_one :: "'x \<Rightarrow> 'c \<Rightarrow> ('e + 'x list) \<times> 'c" where
  "emit_one x c = (Inr [x], c)"

interpretation u16be_value: value_codec u16be_codec any_state u16be_emit emit_nothing emit_nothing
  any_state u16be_parse emit_nothing emit_nothing "\<lambda>c d. True"
  by unfold_locales
    (auto simp: u16be_codec_def codec_default_defs emit_nothing_def unit_bounds_def wrote_at_def any_state_def
      u16be_emit_def u16_to_be_bytes_def u16_bytes_roundtrip)

interpretation marker_value: value_codec marker_codec any_state marker_emit emit_nothing emit_nothing
  any_state marker_parse "emit_one reset_marker" "emit_one finish_marker" "\<lambda>c d. True"
  by unfold_locales
    (auto simp: marker_codec_def codec_default_defs emit_nothing_def emit_one_def unit_bounds_def wrote_at_def
      any_state_def marker_emit_def marker_decode_reset_def
      marker_decode_finish_def write_one_def splice_at_single)

section \<open>Properties\<close>

text \<open>C32. \<open>encode_into\<close> of a conforming codec appends the frame of the value to the vector and
  reports its length; an error, at whatever stage, leaves the vector as it was.\<close>

theorem encode_into_appends_frame:
  assumes "framing_codec C good emit reset_emit finish_emit" "good c"
    and "max_complete_encode_units C = Ok units" "length vec + units \<le> usize_max" "reserve_vec units"
  shows "encode_into C reserve_vec d c v vec =
    (case value_frame C reset_emit emit finish_emit c v of
       (Inr us, c') \<Rightarrow> (Ok (length us), c', vec @ us)
     | (Inl e, c') \<Rightarrow> (Err e, c', vec))"
  by (rule framing_codec.encode_into_refines [where reserve_vec = reserve_vec, OF assms])

text \<open>C33. For every codec, conforming or not: after \<open>encode_into\<close> the vector is longer by what
  was reported, or, after an error, as long as before. If moreover the codec leaves the units in front
  of the index it is given alone, also when it fails and whatever it reports, then the old units
  stand in front of the new ones, and after an error the vector is what it was.\<close>

theorem encode_into_restores_vector:
  "case encode_into C reserve_vec d c v vec of
     (Ok n, c', vec') \<Rightarrow> length vec' = length vec + n \<and> (writes_behind C \<longrightarrow> take (length vec) vec' = vec)
   | (Err e, c', vec') \<Rightarrow> length vec' = length vec \<and> (writes_behind C \<longrightarrow> vec' = vec)
   | (Panic, c', vec') \<Rightarrow> True"
  using encode_into_any [of C reserve_vec d c v vec] by (auto split: prod.splits res.splits)

text \<open>C35. \<open>decode_lifecycle\<close> of a conforming codec decodes exactly one value: too little input,
  a failure of the codec and trailing input are errors with their counts, and the reset and
  finish values are cut to what the codec produced.\<close>

theorem decode_lifecycle_is_exact:
  assumes "exact_codec C good parse reset_values finish_values" "good c"
    and "reserve_vec (max_decode_reset_values C)" "reserve_vec (max_decode_finish_values C)"
  shows "decode_lifecycle C reserve_vec d c xs =
    (case exact_value C reset_values parse finish_values c xs of
       (Inr out, c') \<Rightarrow> (Ok out, c') | (Inl e, c') \<Rightarrow> (Err e, c'))"
  by (rule exact_codec.decode_lifecycle_refines [OF assms])

text \<open>The strict \<open>decode\<close> refuses, before it touches the codec, a codec that may produce
  reset or finish values; on any other it returns the value of the exact decode.\<close>

theorem strict_decode_refuses_lifecycle_output:
  assumes "exact_codec C good parse reset_values finish_values" "good c"
  shows "codec_value_decode C c xs =
    (if max_decode_reset_values C \<noteq> 0 \<or> max_decode_finish_values C \<noteq> 0
     then (Err (DecodeFailed (UnsupportedDecodeLifecycleOutput (max_decode_reset_values C)
                 (max_decode_finish_values C))), c)
     else case exact_value C reset_values parse finish_values c xs of
       (Inr out, c') \<Rightarrow> (Ok (dlo_value out), c') | (Inl e, c') \<Rightarrow> (Err e, c'))"
  by (rule exact_codec.decode_refines [OF assms])

text \<open>C34. What the value encoder produces for a value, the value decoder accepts as exactly that
  value, whatever was encoded or decoded before, for codecs that agree value by value and put no units
  of their own around a value. \<open>decode_lifecycle\<close> returns the value between the decoder's reset and
  finish values; the strict \<open>decode\<close> returns the value alone when the codec declares no such
  values, and refuses the codec otherwise.\<close>

theorem value_roundtrip:
  assumes "value_codec C good_e emit reset_emit finish_emit good_d parse reset_values finish_values synced"
    and "good_e c" "good_d d"
    and "max_complete_encode_units C = Ok units" "reserve_vec units"
    and "reserve_vec (max_decode_reset_values C)" "reserve_vec (max_decode_finish_values C)"
    and "codec_value_encode C reserve_vec du c v = (Ok us, c')"
  shows "\<exists>rs fs d'. decode_lifecycle C reserve_vec dv d us =
      (Ok \<lparr>dlo_reset = rs, dlo_value = v, dlo_finish = fs\<rparr>, d') \<and>
    codec_value_decode C d us =
      (if max_decode_reset_values C = 0 \<and> max_decode_finish_values C = 0 then (Ok v, d')
       else (Err (DecodeFailed (UnsupportedDecodeLifecycleOutput (max_decode_reset_values C)
               (max_decode_finish_values C))), d))"
  by (rule value_codec.encode_then_decode [OF assms])

end
