(* ===== verification/Registry.thy ===== *)
theory Registry
  imports Prelude "HOL-Library.Multiset" "HOL-Library.List_Lexorder" "HOL-Library.Product_Lexorder"
begin

text \<open>
  Stable identifiers of value codecs (\<open>src/value/value_codec_id.rs\<close>), registration sources
  (\<open>value_codec_registration_source.rs\<close>), registrations (\<open>value_codec_registration.rs\<close>) and
  the immutable registry built from them (\<open>value_codec_registry.rs\<close>) with the process-wide
  registries of \<open>value_codec_registry/\<close>. A \<open>&str\<close> is the list of its bytes, which is what
  the validator reads and what the order of strings compares.
\<close>

type_synonym str = "u8 list"

section \<open>Identifiers\<close>

datatype value_codec_id_error = IdEmpty | IdEmptySegment | IdInvalidSegment

definition is_ascii_alphabetic :: "u8 \<Rightarrow> bool" where
  "is_ascii_alphabetic b \<longleftrightarrow> 65 \<le> b \<and> b \<le> 90 \<or> 97 \<le> b \<and> b \<le> 122"

definition is_ascii_alphanumeric :: "u8 \<Rightarrow> bool" where
  "is_ascii_alphanumeric b \<longleftrightarrow> is_ascii_alphabetic b \<or> 48 \<le> b \<and> b \<le> 57"

definition dot :: u8 where "dot = 46"
definition underscore :: u8 where "underscore = 95"

function validate_segment_from :: "u8 list \<Rightarrow> nat \<Rightarrow> nat \<Rightarrow> (value_codec_id_error, unit) res" where
  "validate_segment_from bytes index stop =
    (if index < stop then
       bind_res (slice_get bytes index) (\<lambda>byte.
         if \<not> (is_ascii_alphanumeric byte \<or> byte = underscore) then Err IdInvalidSegment
         else validate_segment_from bytes (index + 1) stop)
     else Ok ())"
  by pat_completeness auto
termination
  by (relation "measure (\<lambda>(bytes, index, stop). stop - index)") auto

definition validate_segment :: "u8 list \<Rightarrow> nat \<Rightarrow> nat \<Rightarrow> (value_codec_id_error, unit) res" where
  "validate_segment bytes start stop =
    (if start = stop then Err IdInvalidSegment
     else bind_res (slice_get bytes start) (\<lambda>first.
       if \<not> is_ascii_alphabetic first then Err IdInvalidSegment
       else validate_segment_from bytes (start + 1) stop))"

function validate_id_from :: "u8 list \<Rightarrow> nat \<Rightarrow> nat \<Rightarrow> (value_codec_id_error, unit) res" where
  "validate_id_from bytes start index =
    (if index < length bytes then
       if bytes ! index = dot then
         if start = index \<or> index + 1 = length bytes then Err IdEmptySegment
         else bind_res (validate_segment bytes start index)
           (\<lambda>_. validate_id_from bytes (index + 1) (index + 1))
       else validate_id_from bytes start (index + 1)
     else validate_segment bytes start (length bytes))"
  by pat_completeness auto
termination
  by (relation "measure (\<lambda>(bytes, start, index). length bytes - index)") auto

declare validate_segment_from.simps [simp del] validate_id_from.simps [simp del]

definition validate_id :: "str \<Rightarrow> (value_codec_id_error, unit) res" where
  "validate_id value = (if value = [] then Err IdEmpty else validate_id_from value 0 0)"

datatype value_codec_id = ValueCodecId (id_str: str)

definition id_try_new :: "str \<Rightarrow> (value_codec_id_error, value_codec_id) res" where
  "id_try_new value = bind_res (validate_id value) (\<lambda>_. Ok (ValueCodecId value))"

definition id_new :: "str \<Rightarrow> ('e, value_codec_id) res" where
  "id_new value = (case id_try_new value of Ok i \<Rightarrow> Ok i | _ \<Rightarrow> Panic)"

text \<open>The derived order of identifiers is the order of their strings.\<close>

instantiation value_codec_id :: linorder
begin

definition less_eq_value_codec_id :: "value_codec_id \<Rightarrow> value_codec_id \<Rightarrow> bool" where
  "less_eq_value_codec_id a b \<longleftrightarrow> id_str a \<le> id_str b"

definition less_value_codec_id :: "value_codec_id \<Rightarrow> value_codec_id \<Rightarrow> bool" where
  "less_value_codec_id a b \<longleftrightarrow> id_str a < id_str b"

instance
  by standard (auto simp: less_eq_value_codec_id_def less_value_codec_id_def value_codec_id.expand)

end

section \<open>Registrations\<close>

datatype registration_source =
  RegistrationSource (crate_name: str) (module_path: str) (source_file: str) (source_line: u32)

text \<open>The derived order compares the fields in the order they are declared.\<close>

definition source_key :: "registration_source \<Rightarrow> str \<times> str \<times> str \<times> u32" where
  "source_key s = (crate_name s, module_path s, source_file s, source_line s)"

lemma source_key_inject: "source_key a = source_key b \<longleftrightarrow> a = b"
  by (cases a; cases b) (simp add: source_key_def)

instantiation registration_source :: linorder
begin

definition less_eq_registration_source :: "registration_source \<Rightarrow> registration_source \<Rightarrow> bool" where
  "less_eq_registration_source a b \<longleftrightarrow> source_key a \<le> source_key b"

definition less_registration_source :: "registration_source \<Rightarrow> registration_source \<Rightarrow> bool" where
  "less_registration_source a b \<longleftrightarrow> source_key a < source_key b"

instance
  by standard
    (auto simp: less_eq_registration_source_def less_registration_source_def source_key_inject [symmetric])

end

record 'd registration =
  reg_id :: value_codec_id
  reg_descriptor :: 'd
  reg_source :: registration_source

section \<open>The registry\<close>

record 'd registry =
  rg_registrations :: "'d registration list"
  rg_indices :: "value_codec_id \<Rightarrow> nat option"

datatype registry_error = DuplicateId str "registration_source list"

text \<open>The loop over \<open>windows(2)\<close>: the index of the first pair with one identifier.\<close>

fun find_duplicate :: "'d registration list \<Rightarrow> nat \<Rightarrow> nat option" where
  "find_duplicate (a # b # rs) index =
     (if reg_id a = reg_id b then Some index else find_duplicate (b # rs) (index + 1))"
| "find_duplicate rs index = None"

definition collect_indices :: "'d registration list \<Rightarrow> value_codec_id \<Rightarrow> nat option" where
  "collect_indices rs = fold (\<lambda>(index, r) m. m(reg_id r \<mapsto> index)) (enumerate 0 rs) Map.empty"

definition registry_empty :: "'d registry" where
  "registry_empty = \<lparr>rg_registrations = [], rg_indices = Map.empty\<rparr>"

definition registry_build :: "'d registration list \<Rightarrow> (registry_error, 'd registry) res" where
  "registry_build registrations =
    (let registrations = sort_key reg_id registrations in
     case find_duplicate registrations 0 of
       Some index \<Rightarrow>
         bind_res (slice_get registrations index) (\<lambda>r.
           let i = reg_id r;
               sources = map reg_source (takeWhile (\<lambda>r. reg_id r = i) (drop index registrations))
           in Err (DuplicateId (id_str i) (sort sources)))
     | None \<Rightarrow>
         Ok \<lparr>rg_registrations = registrations, rg_indices = collect_indices registrations\<rparr>)"

definition from_registrations :: "'d registration list \<Rightarrow> (registry_error, 'd registry) res" where
  "from_registrations registrations = registry_build registrations"

definition registry_get :: "'d registry \<Rightarrow> str \<Rightarrow> 'd registration option" where
  "registry_get g i =
    Option.bind (rg_indices g (ValueCodecId i))
      (\<lambda>index. if index < length (rg_registrations g) then Some (rg_registrations g ! index) else None)"

text \<open>The process-wide registry: a cell that the first call fills from the collected factories.\<close>

definition try_global ::
  "(unit \<Rightarrow> 'd registration) list \<Rightarrow> (registry_error, 'd registry) res option \<Rightarrow>
   (registry_error, 'd registry) res \<times> (registry_error, 'd registry) res option" where
  "try_global factories cell =
    (case cell of
       Some r \<Rightarrow> (r, cell)
     | None \<Rightarrow> let r = registry_build (map (\<lambda>factory. factory ()) factories) in (r, Some r))"

definition global_registry ::
  "(unit \<Rightarrow> 'd registration) list \<Rightarrow> (registry_error, 'd registry) res option \<Rightarrow>
   ('e, 'd registry) res \<times> (registry_error, 'd registry) res option" where
  "global_registry factories cell =
    (case try_global factories cell of
       (Ok g, cell) \<Rightarrow> (Ok g, cell) | (_, cell) \<Rightarrow> (Panic, cell))"

section \<open>The identifier grammar\<close>

text \<open>The grammar over the list of dot-separated segments, without indices: each segment is a
  letter followed by letters, digits and underscores.\<close>

fun split_dots :: "u8 list \<Rightarrow> u8 list list" where
  "split_dots [] = [[]]"
| "split_dots (b # bs) = (if b = dot then [] # split_dots bs else (b # hd (split_dots bs)) # tl (split_dots bs))"

definition continuation :: "u8 \<Rightarrow> bool" where
  "continuation b \<longleftrightarrow> is_ascii_alphanumeric b \<or> b = underscore"

fun segment_ok :: "u8 list \<Rightarrow> bool" where
  "segment_ok [] = False"
| "segment_ok (b # bs) = (is_ascii_alphabetic b \<and> list_all continuation bs)"

fun segments_verdict :: "u8 list list \<Rightarrow> (value_codec_id_error, unit) res" where
  "segments_verdict [] = Ok ()"
| "segments_verdict [s] = (if segment_ok s then Ok () else Err IdInvalidSegment)"
| "segments_verdict (s # ss) =
     (if s = [] \<or> ss = [[]] then Err IdEmptySegment
      else if segment_ok s then segments_verdict ss else Err IdInvalidSegment)"

lemma split_dots_neq [simp]: "split_dots bs \<noteq> []"
  by (induction bs) auto

lemma split_dots_segment: "dot \<notin> set s \<Longrightarrow> split_dots s = [s]"
  by (induction s) auto

lemma split_dots_append: "dot \<notin> set s \<Longrightarrow> split_dots (s @ dot # bs) = s # split_dots bs"
  by (induction s) auto

lemma split_dots_single_empty [simp]: "split_dots bs = [[]] \<longleftrightarrow> bs = []"
  by (cases bs) auto

lemma segments_verdict_Cons:
  "ss \<noteq> [] \<Longrightarrow> segments_verdict (s # ss) =
    (if s = [] \<or> ss = [[]] then Err IdEmptySegment
     else if segment_ok s then segments_verdict ss else Err IdInvalidSegment)"
  by (cases ss) auto

lemma segments_verdict_Ok: "ss \<noteq> [] \<Longrightarrow> segments_verdict ss = Ok () \<longleftrightarrow> list_all segment_ok ss"
  by (induction ss rule: segments_verdict.induct) auto

text \<open>The two defects, told by the segments in front of the one in which they are found.\<close>

lemma segments_verdict_not: "segments_verdict ss \<noteq> Err IdEmpty" "segments_verdict ss \<noteq> Panic"
  by (induction ss rule: segments_verdict.induct) auto

lemma found_in_Cons:
  "(\<exists>pre t post. s # ss = pre @ t # post \<and> list_all segment_ok pre \<and> Q t post) \<longleftrightarrow>
    Q s ss \<or> segment_ok s \<and> (\<exists>pre t post. ss = pre @ t # post \<and> list_all segment_ok pre \<and> Q t post)"
proof
  assume "\<exists>pre t post. s # ss = pre @ t # post \<and> list_all segment_ok pre \<and> Q t post"
  then show "Q s ss \<or> segment_ok s \<and> (\<exists>pre t post. ss = pre @ t # post \<and> list_all segment_ok pre \<and> Q t post)"
    by (auto simp: Cons_eq_append_conv) blast
next
  assume "Q s ss \<or> segment_ok s \<and> (\<exists>pre t post. ss = pre @ t # post \<and> list_all segment_ok pre \<and> Q t post)"
  then consider "Q s ss" | pre t post where "segment_ok s" "ss = pre @ t # post" "list_all segment_ok pre" "Q t post"
    by blast
  then show "\<exists>pre t post. s # ss = pre @ t # post \<and> list_all segment_ok pre \<and> Q t post"
  proof cases
    case 1
    then show ?thesis by (intro exI [of _ "[]"] exI [of _ s] exI [of _ ss]) simp
  next
    case (2 pre t post)
    then show ?thesis by (intro exI [of _ "s # pre"] exI [of _ t] exI [of _ post]) simp
  qed
qed

lemma segments_verdict_iffs:
  assumes "ss \<noteq> [[]]"
  shows "segments_verdict ss = Err IdEmptySegment \<longleftrightarrow>
      (\<exists>pre t post. ss = pre @ t # post \<and> list_all segment_ok pre \<and> post \<noteq> [] \<and> (t = [] \<or> post = [[]]))"
    and "segments_verdict ss = Err IdInvalidSegment \<longleftrightarrow>
      (\<exists>pre t post. ss = pre @ t # post \<and> list_all segment_ok pre \<and> t \<noteq> [] \<and> post \<noteq> [[]] \<and> \<not> segment_ok t)"
  using assms
proof (induction ss rule: segments_verdict.induct)
  case (3 s s2 ss)
  {
    case 1
    with 3 show ?case unfolding found_in_Cons [where Q = "\<lambda>t post. post \<noteq> [] \<and> (t = [] \<or> post = [[]])"]
      by auto
  next
    case 2
    with 3 show ?case unfolding found_in_Cons [where Q = "\<lambda>t post. t \<noteq> [] \<and> post \<noteq> [[]] \<and> \<not> segment_ok t"]
      by auto
  }
qed (auto simp: Cons_eq_append_conv)

text \<open>A part of a list, \<open>bytes[i..j]\<close>.\<close>

definition part :: "'x list \<Rightarrow> nat \<Rightarrow> nat \<Rightarrow> 'x list" where
  "part xs i j = take (j - i) (drop i xs)"

lemma part_Cons: "i < j \<Longrightarrow> j \<le> length xs \<Longrightarrow> part xs i j = xs ! i # part xs (i + 1) j"
  by (simp add: part_def Cons_nth_drop_Suc [symmetric] take_Cons' less_le_trans)

lemma part_snoc: "i \<le> j \<Longrightarrow> j < length xs \<Longrightarrow> part xs i (j + 1) = part xs i j @ [xs ! j]"
  by (simp add: part_def Suc_diff_le take_Suc_conv_app_nth)

lemma part_empty [simp]: "part xs i i = []" "i \<le> j \<Longrightarrow> j \<le> length xs \<Longrightarrow> part xs i j = [] \<longleftrightarrow> i = j"
  by (auto simp: part_def)

lemma drop_part: "i \<le> j \<Longrightarrow> j \<le> length xs \<Longrightarrow> drop i xs = part xs i j @ drop j xs"
  by (metis append_take_drop_id drop_drop le_add_diff_inverse2 part_def)

lemma validate_segment_from_part:
  assumes "stop \<le> length bytes"
  shows "validate_segment_from bytes index stop =
    (if list_all continuation (part bytes index stop) then Ok () else Err IdInvalidSegment)"
  using assms
proof (induction bytes index stop rule: validate_segment_from.induct)
  case (1 bytes index stop)
  show ?case
  proof (cases "index < stop")
    case True
    with 1 part_Cons [OF True "1.prems"] show ?thesis
      by (subst validate_segment_from.simps) (simp add: slice_get_def continuation_def [symmetric])
  qed (simp add: validate_segment_from.simps part_def)
qed

lemma validate_segment_part:
  assumes "start \<le> stop" "stop \<le> length bytes"
  shows "validate_segment bytes start stop =
    (if segment_ok (part bytes start stop) then Ok () else Err IdInvalidSegment)"
proof (cases "start = stop")
  case False
  with assms part_Cons [of start stop bytes] show ?thesis
    by (auto simp: validate_segment_def slice_get_def validate_segment_from_part)
qed (simp add: validate_segment_def)

lemma validate_id_from_verdict:
  assumes "start \<le> index" "index \<le> length bytes" "dot \<notin> set (part bytes start index)"
  shows "validate_id_from bytes start index = segments_verdict (split_dots (drop start bytes))"
  using assms
proof (induction bytes start index rule: validate_id_from.induct)
  case (1 bytes start index)
  let ?s = "part bytes start index"
  note split = drop_part [OF "1.prems"(1,2)]
  show ?case
  proof (cases "index < length bytes")
    case False
    with 1 split validate_segment_part [of start index bytes] show ?thesis
      by (simp add: validate_id_from.simps split_dots_segment)
  next
    case less: True
    then have rest: "drop index bytes = bytes ! index # drop (index + 1) bytes"
      by (simp add: Cons_nth_drop_Suc)
    show ?thesis
    proof (cases "bytes ! index = dot")
      case False
      with 1 less part_snoc [of start index bytes] show ?thesis
        by (subst validate_id_from.simps) simp
    next
      case True
      have dots: "split_dots (drop start bytes) = ?s # split_dots (drop (index + 1) bytes)"
        using split rest True split_dots_append [OF "1.prems"(3)] by simp
      have empty: "drop (index + 1) bytes = [] \<longleftrightarrow> index + 1 = length bytes" using less by auto
      note parts = "1.IH"(1) [OF less True]
      show ?thesis
        unfolding dots
        using 1 less True empty part_empty(2) [of start index bytes] validate_segment_part [of start index bytes]
        by (subst validate_id_from.simps) (simp add: segments_verdict_Cons)
    qed
  qed
qed

lemma validate_id_verdict:
  "validate_id s = (if s = [] then Err IdEmpty else segments_verdict (split_dots s))"
  by (simp add: validate_id_def validate_id_from_verdict)

section \<open>Building and looking up\<close>

lemma find_duplicate_None:
  assumes "sorted (map reg_id rs)" "find_duplicate rs k = None"
  shows "sorted_wrt (<) (map reg_id rs)"
  using assms
proof (induction rs k rule: find_duplicate.induct)
  case (1 a b rs k)
  then have "sorted_wrt (<) (map reg_id (b # rs))" "reg_id a < reg_id b"
    by (auto split: if_splits)
  then show ?case by auto
qed auto

lemma find_duplicate_Some:
  assumes "sorted (map reg_id rs)" "find_duplicate rs k = Some i"
  obtains pre r r' post where "rs = pre @ r # r' # post" "i = k + length pre" "reg_id r = reg_id r'"
    "sorted_wrt (<) (map reg_id (pre @ [r]))"
proof -
  have "\<exists>pre r r' post. rs = pre @ r # r' # post \<and> i = k + length pre \<and> reg_id r = reg_id r' \<and>
      sorted_wrt (<) (map reg_id (pre @ [r]))"
    using assms
  proof (induction rs k rule: find_duplicate.induct)
    case (1 a b rs k)
    show ?case
    proof (cases "reg_id a = reg_id b")
      case True
      with "1.prems"(2) show ?thesis by (intro exI [of _ "[]"]) auto
    next
      case False
      with 1 obtain pre r r' post where ih: "b # rs = pre @ r # r' # post" "i = k + 1 + length pre"
        "reg_id r = reg_id r'" "sorted_wrt (<) (map reg_id (pre @ [r]))" by auto
      have "reg_id a < reg_id b" using False "1.prems"(1) by (simp add: less_le)
      moreover have "\<forall>x \<in> set (pre @ [r]). reg_id b \<le> reg_id x"
        using ih(1) "1.prems"(1) by (cases pre) auto
      ultimately have "\<forall>x \<in> set (pre @ [r]). reg_id a < reg_id x" by (meson less_le_trans)
      with ih show ?thesis by (intro exI [of _ "a # pre"]) auto
    qed
  qed auto
  with that show ?thesis by blast
qed

lemma takeWhile_least:
  "sorted (map f xs) \<Longrightarrow> list_all (\<lambda>x. k \<le> f x) xs \<Longrightarrow>
    takeWhile (\<lambda>x. f x = k) xs = filter (\<lambda>x. f x = k) xs"
proof (induction xs)
  case (Cons x xs)
  show ?case
  proof (cases "f x = k")
    case False
    with Cons.prems have "k < f x" by auto
    with Cons.prems(1) have "\<forall>y \<in> set xs. f y \<noteq> k" by auto
    with False show ?thesis by (simp add: filter_empty_conv)
  qed (use Cons in auto)
qed simp

lemma collect_from:
  assumes "distinct (map reg_id rs)"
  shows "fold (\<lambda>(index, r) m. m(reg_id r \<mapsto> index)) (enumerate n rs) m i = Some j \<longleftrightarrow>
    (\<exists>k < length rs. j = n + k \<and> reg_id (rs ! k) = i) \<or> i \<notin> reg_id ` set rs \<and> m i = Some j"
  using assms
proof (induction rs arbitrary: n m)
  case (Cons r rs)
  have split: "(\<exists>k < length (r # rs). j = n + k \<and> reg_id ((r # rs) ! k) = i) \<longleftrightarrow>
      j = n \<and> reg_id r = i \<or> (\<exists>k < length rs. j = Suc n + k \<and> reg_id (rs ! k) = i)"
    by (auto simp: less_Suc_eq_0_disj)
  let ?rest = "\<exists>k < length rs. j = Suc n + k \<and> reg_id (rs ! k) = i"
  have step: "fold (\<lambda>(index, r) m. m(reg_id r \<mapsto> index)) (enumerate n (r # rs)) m i = Some j \<longleftrightarrow>
      ?rest \<or> i \<notin> reg_id ` set rs \<and> (m(reg_id r \<mapsto> n)) i = Some j"
    using Cons.IH [of "Suc n" "m(reg_id r \<mapsto> n)"] Cons.prems by (simp del: fun_upd_apply)
  show ?case
  proof (cases "reg_id r = i")
    case True
    then have no: "i \<notin> reg_id ` set rs" using Cons.prems by auto
    then have "\<not> ?rest" by (metis image_eqI nth_mem)
    with True no show ?thesis unfolding step split by auto
  next
    case False
    then show ?thesis unfolding step split by auto
  qed
qed simp

lemma registry_get_iff:
  assumes "distinct (map reg_id rs)"
  shows "registry_get \<lparr>rg_registrations = rs, rg_indices = collect_indices rs\<rparr> s = Some r \<longleftrightarrow>
    r \<in> set rs \<and> id_str (reg_id r) = s"
proof -
  have eq: "i = ValueCodecId s \<longleftrightarrow> id_str i = s" for i by (cases i) auto
  have "registry_get \<lparr>rg_registrations = rs, rg_indices = collect_indices rs\<rparr> s = Some r \<longleftrightarrow>
      (\<exists>k < length rs. reg_id (rs ! k) = ValueCodecId s \<and> rs ! k = r)"
    using collect_from [OF assms, of 0 Map.empty "ValueCodecId s"]
    by (auto simp: registry_get_def collect_indices_def bind_eq_Some_conv)
  also have "\<dots> \<longleftrightarrow> r \<in> set rs \<and> id_str (reg_id r) = s"
    by (auto simp: eq in_set_conv_nth)
  finally show ?thesis .
qed

lemma constant_distinct_short: "distinct (map f xs) \<Longrightarrow> list_all (\<lambda>x. f x = k) xs \<Longrightarrow> length xs \<le> 1"
  by (cases xs; cases "tl xs") auto

lemma registry_build_cases:
  obtains (dup) i where "registry_build rs = Err (DuplicateId (id_str i)
      (sort (map reg_source (filter (\<lambda>r. reg_id r = i) rs))))"
    "2 \<le> length (filter (\<lambda>r. reg_id r = i) rs)"
    "\<And>i'. i' < i \<Longrightarrow> length (filter (\<lambda>r. reg_id r = i') rs) \<le> 1"
  | (built) "registry_build rs = Ok \<lparr>rg_registrations = sort_key reg_id rs,
      rg_indices = collect_indices (sort_key reg_id rs)\<rparr>"
    "sorted_wrt (<) (map reg_id (sort_key reg_id rs))"
proof (cases "find_duplicate (sort_key reg_id rs) 0")
  case None
  then show ?thesis
    by (intro built find_duplicate_None) (simp_all add: registry_build_def Let_def)
next
  case (Some index)
  let ?rs = "sort_key reg_id rs"
  obtain pre r r' post where
    split: "?rs = pre @ r # r' # post" "index = 0 + length pre" "reg_id r = reg_id r'"
    and pre: "sorted_wrt (<) (map reg_id (pre @ [r]))"
    by (rule find_duplicate_Some [OF sorted_sort_key Some])
  let ?i = "reg_id r"
  have after: "sorted (map reg_id (r # r' # post))" "\<forall>x \<in> set (r' # post). ?i \<le> reg_id x"
    using sorted_sort_key [of reg_id rs] split(1) by (simp_all add: sorted_append)
  have before: "\<forall>x \<in> set pre. reg_id x < ?i" using pre by (simp add: sorted_wrt_append)
  have "takeWhile (\<lambda>x. reg_id x = ?i) (drop index ?rs) = filter (\<lambda>x. reg_id x = ?i) (r # r' # post)"
    using takeWhile_least [OF after(1), of ?i] after(2) split by (simp add: list_all_iff)
  also have "\<dots> = filter (\<lambda>x. reg_id x = ?i) ?rs" using before split(1) by (auto simp: filter_empty_conv)
  also have "\<dots> = filter (\<lambda>x. reg_id x = ?i) rs" by (rule sort_key_stable)
  finally have eq: "takeWhile (\<lambda>x. reg_id x = ?i) (drop index ?rs) = filter (\<lambda>x. reg_id x = ?i) rs" .
  have nth: "?rs ! index = r" "index < length ?rs" using split by (simp_all add: nth_append)
  show ?thesis
  proof (rule dup [of ?i])
    show "registry_build rs = Err (DuplicateId (id_str ?i)
        (sort (map reg_source (filter (\<lambda>r. reg_id r = ?i) rs))))"
      using Some eq nth by (simp add: registry_build_def slice_get_def Let_def)
    show "2 \<le> length (filter (\<lambda>x. reg_id x = ?i) rs)"
      unfolding eq [symmetric] using split by simp
    fix i'
    assume "i' < ?i"
    then have "filter (\<lambda>x. reg_id x = i') ?rs = filter (\<lambda>x. reg_id x = i') pre"
      using after(2) split(1,3) by (auto simp: filter_empty_conv)
    moreover have "length (filter (\<lambda>x. reg_id x = i') pre) \<le> 1"
    proof -
      have "distinct (map reg_id (filter (\<lambda>x. reg_id x = i') pre))"
        using pre by (intro distinct_map_filter) (simp add: sorted_wrt_append strict_sorted_iff)
      then show ?thesis by (rule constant_distinct_short [where k = i']) (simp add: list_all_iff)
    qed
    ultimately show "length (filter (\<lambda>x. reg_id x = i') rs) \<le> 1"
      using sort_key_stable [of reg_id i' rs] by simp
  qed
qed

lemma id_try_new_Ok: "id_try_new s = Ok i \<longleftrightarrow> validate_id s = Ok () \<and> i = ValueCodecId s"
  by (auto simp: id_try_new_def bind_res_eq_Ok)

lemma distinct_ids_mset: "distinct (map reg_id (sort_key reg_id rs)) \<longleftrightarrow> distinct (map reg_id rs)"
  by (rule mset_eq_imp_distinct_iff) simp

lemma duplicate_not_distinct:
  assumes "2 \<le> length (filter (\<lambda>r. reg_id r = i) rs)"
  shows "\<not> distinct (map reg_id rs)"
proof
  assume "distinct (map reg_id rs)"
  then have "distinct (map reg_id (filter (\<lambda>r. reg_id r = i) rs))" by (rule distinct_map_filter)
  then have "length (filter (\<lambda>r. reg_id r = i) rs) \<le> 1"
    by (rule constant_distinct_short [where k = i]) (simp add: list_all_iff)
  with assms show False by simp
qed

section \<open>Properties\<close>

text \<open>C36. The index-based validator decides the identifier grammar, and each error has its cause. The
  segments are looked at from left to right, each at the dot that ends it. \<open>EmptySegment\<close>: behind
  well-formed segments comes an empty one, or one whose dot is the last byte; the trailing dot is
  looked at before the segment it ends, so \<open>1a.\<close> is an \<open>EmptySegment\<close> although \<open>1a\<close> is no
  segment. \<open>InvalidSegment\<close>: behind well-formed segments comes one that is neither empty nor followed
  by a trailing dot, and not a letter followed by letters, digits and underscores. The validator
  never reads out of range, and an identifier is made exactly of an accepted string.\<close>

theorem identifier_grammar:
  "(validate_id s = Ok () \<longleftrightarrow> s \<noteq> [] \<and> list_all segment_ok (split_dots s)) \<and>
   (validate_id s = Err IdEmpty \<longleftrightarrow> s = []) \<and>
   (validate_id s = Err IdEmptySegment \<longleftrightarrow>
      (\<exists>pre t post. split_dots s = pre @ t # post \<and> list_all segment_ok pre \<and> post \<noteq> [] \<and> (t = [] \<or> post = [[]]))) \<and>
   (validate_id s = Err IdInvalidSegment \<longleftrightarrow>
      (\<exists>pre t post. split_dots s = pre @ t # post \<and> list_all segment_ok pre \<and> t \<noteq> [] \<and> post \<noteq> [[]] \<and> \<not> segment_ok t)) \<and>
   validate_id s \<noteq> Panic \<and> id_try_new s = map_ok (\<lambda>_. ValueCodecId s) (validate_id s)"
proof -
  have made: "id_try_new s = map_ok (\<lambda>_. ValueCodecId s) (validate_id s)"
    by (cases "validate_id s") (simp_all add: id_try_new_def)
  show ?thesis
  proof (cases "s = []")
    case True
    with made show ?thesis by (auto simp: validate_id_def Cons_eq_append_conv)
  next
    case False
    then have "split_dots s \<noteq> [[]]" by simp
    note iffs = segments_verdict_iffs [OF this]
    from made False show ?thesis
      by (simp add: validate_id_verdict segments_verdict_Ok segments_verdict_not iffs)
  qed
qed

text \<open>C37. A registry is built exactly from registrations with distinct identifiers. It holds
  those registrations, strictly sorted by identifier, and \<open>get\<close> finds a registration under its
  identifier and under no other string.\<close>

theorem registry_build_is_lookup:
  "case registry_build rs of
     Ok g \<Rightarrow> distinct (map reg_id rs) \<and> mset (rg_registrations g) = mset rs \<and>
       sorted_wrt (<) (map reg_id (rg_registrations g)) \<and>
       (\<forall>s r. registry_get g s = Some r \<longleftrightarrow> r \<in> set rs \<and> id_str (reg_id r) = s)
   | Err e \<Rightarrow> \<not> distinct (map reg_id rs)
   | Panic \<Rightarrow> False"
proof (cases rule: registry_build_cases [of rs])
  case (dup i)
  with duplicate_not_distinct [OF dup(2)] show ?thesis by simp
next
  case built
  then have "distinct (map reg_id (sort_key reg_id rs))" by (simp add: strict_sorted_iff)
  with built registry_get_iff [OF this] show ?thesis by (simp add: distinct_ids_mset del: distinct_map)
qed

text \<open>When identifiers repeat, the error names the least repeated identifier and lists, in
  order, the sources of all its registrations and of no other.\<close>

theorem registry_duplicate_report:
  "case registry_build rs of
     Err (DuplicateId s sources) \<Rightarrow>
       ValueCodecId s = Min {i. 2 \<le> length (filter (\<lambda>r. reg_id r = i) rs)} \<and>
       sources = sort (map reg_source (filter (\<lambda>r. id_str (reg_id r) = s) rs)) \<and> 2 \<le> length sources
   | _ \<Rightarrow> distinct (map reg_id rs)"
proof (cases rule: registry_build_cases [of rs])
  case (dup i)
  let ?D = "{i. 2 \<le> length (filter (\<lambda>r. reg_id r = i) rs)}"
  have "?D \<subseteq> reg_id ` set rs"
  proof
    fix i assume "i \<in> ?D"
    then have "filter (\<lambda>r. reg_id r = i) rs \<noteq> []" by auto
    then show "i \<in> reg_id ` set rs" by (auto simp: filter_empty_conv)
  qed
  then have fin: "finite ?D" by (rule finite_subset) simp
  have "Min ?D = i"
  proof (rule Min_eqI [OF fin])
    fix i' assume "i' \<in> ?D"
    then have "\<not> length (filter (\<lambda>r. reg_id r = i') rs) \<le> 1" by simp
    with dup(3) [of i'] show "i \<le> i'" by (meson not_le)
  qed (use dup(2) in simp)
  moreover have "id_str (reg_id r) = id_str i \<longleftrightarrow> reg_id r = i" for r :: "'a registration"
    using value_codec_id.expand by blast
  ultimately show ?thesis using dup(1,2) by simp
next
  case built
  then have "distinct (map reg_id (sort_key reg_id rs))" by (simp add: strict_sorted_iff)
  with built show ?thesis by (simp add: distinct_ids_mset del: distinct_map)
qed

end
