(* ===== verification/Descriptor.thy ===== *)
theory Descriptor
  imports Registry ValueCodec
begin

text \<open>
  Type-erased codecs: \<open>src/value/value_bytes_codec_descriptor.rs\<close>,
  \<open>value_string_codec_descriptor.rs\<close> and \<open>value_codec_execution_error.rs\<close>. A \<open>dyn Any\<close> is a
  value of a universe \<open>'x\<close>; a Rust type is its \<open>TypeId\<close>, its name, the boxing of its values
  into the universe and \<open>downcast_ref\<close>. The locale \<open>any_type\<close> is what \<open>core::any\<close> documents.
  The source of an execution error is kept unboxed.
\<close>

type_synonym type_id = nat

record ('v, 'x) rust_type =
  rt_type_id :: type_id
  rt_type_name :: str
  rt_box :: "'v \<Rightarrow> 'x"
  rt_downcast_ref :: "'x \<Rightarrow> 'v option"

text \<open>A codec type with its \<open>ValueEncoder\<close> and \<open>ValueDecoder\<close> implementations and its
  \<open>Default\<close>; it encodes from \<open>'i\<close> to \<open>'o\<close> and decodes from \<open>'w\<close> to \<open>'v\<close>.\<close>

record ('c, 'v, 'i, 'o, 'w, 'ee, 'de) value_codec_type =
  vt_type_id :: type_id
  vt_type_name :: str
  vt_default :: 'c
  vt_encode :: "'c \<Rightarrow> 'i \<Rightarrow> ('ee, 'o) res \<times> 'c"
  vt_decode :: "'c \<Rightarrow> 'w \<Rightarrow> ('de, 'v) res \<times> 'c"

datatype ('ee, 'de) execution_error =
    TypeMismatch str type_id \<comment> \<open>expected type name, actual type\<close>
  | EncodeFailed str 'ee \<comment> \<open>codec type name, source\<close>
  | DecodeFailure str 'de

record ('x, 'o, 'w, 'ee, 'de) descriptor =
  ds_codec_type_id :: type_id
  ds_codec_type_name :: str
  ds_value_type_id :: type_id
  ds_value_type_name :: str
  ds_encode :: "'x \<Rightarrow> (('ee, 'de) execution_error, 'o) res"
  ds_decode :: "'w \<Rightarrow> (('ee, 'de) execution_error, 'x) res"

section \<open>Bytes descriptors\<close>

definition bytes_encode ::
  "('x \<Rightarrow> type_id) \<Rightarrow> ('c, 'v, 'v, 'o, 'w, 'ee, 'de) value_codec_type \<Rightarrow> ('v, 'x) rust_type \<Rightarrow>
   'x \<Rightarrow> (('ee, 'de) execution_error, 'o) res" where
  "bytes_encode type_id_of C V x =
    bind_res (ok_or (TypeMismatch (rt_type_name V) (type_id_of x)) (rt_downcast_ref V x)) (\<lambda>v.
      map_err (EncodeFailed (vt_type_name C)) (fst (vt_encode C (vt_default C) v)))"

definition bytes_decode ::
  "('c, 'v, 'v, 'o, 'w, 'ee, 'de) value_codec_type \<Rightarrow> ('v, 'x) rust_type \<Rightarrow>
   'w \<Rightarrow> (('ee, 'de) execution_error, 'x) res" where
  "bytes_decode C V input =
    map_err (DecodeFailure (vt_type_name C)) (map_ok (rt_box V) (fst (vt_decode C (vt_default C) input)))"

definition bytes_descriptor_of ::
  "('x \<Rightarrow> type_id) \<Rightarrow> ('c, 'v, 'v, 'o, 'w, 'ee, 'de) value_codec_type \<Rightarrow> ('v, 'x) rust_type \<Rightarrow>
   ('x, 'o, 'w, 'ee, 'de) descriptor" where
  "bytes_descriptor_of type_id_of C V =
    \<lparr>ds_codec_type_id = vt_type_id C, ds_codec_type_name = vt_type_name C,
     ds_value_type_id = rt_type_id V, ds_value_type_name = rt_type_name V,
     ds_encode = bytes_encode type_id_of C V, ds_decode = bytes_decode C V\<rparr>"

section \<open>String descriptors\<close>

text \<open>A string codec may encode from a borrowed form of the value, \<open>V: Borrow<I>\<close>.\<close>

definition string_encode ::
  "('x \<Rightarrow> type_id) \<Rightarrow> ('c, 'v, 'i, 'o, 'w, 'ee, 'de) value_codec_type \<Rightarrow> ('v, 'x) rust_type \<Rightarrow>
   ('v \<Rightarrow> 'i) \<Rightarrow> 'x \<Rightarrow> (('ee, 'de) execution_error, 'o) res" where
  "string_encode type_id_of C V borrow x =
    bind_res (ok_or (TypeMismatch (rt_type_name V) (type_id_of x)) (rt_downcast_ref V x)) (\<lambda>v.
      map_err (EncodeFailed (vt_type_name C)) (fst (vt_encode C (vt_default C) (borrow v))))"

definition string_decode ::
  "('c, 'v, 'i, 'o, 'w, 'ee, 'de) value_codec_type \<Rightarrow> ('v, 'x) rust_type \<Rightarrow>
   'w \<Rightarrow> (('ee, 'de) execution_error, 'x) res" where
  "string_decode C V input =
    map_err (DecodeFailure (vt_type_name C)) (map_ok (rt_box V) (fst (vt_decode C (vt_default C) input)))"

definition string_descriptor_of_borrowed ::
  "('x \<Rightarrow> type_id) \<Rightarrow> ('c, 'v, 'i, 'o, 'w, 'ee, 'de) value_codec_type \<Rightarrow> ('v, 'x) rust_type \<Rightarrow>
   ('v \<Rightarrow> 'i) \<Rightarrow> ('x, 'o, 'w, 'ee, 'de) descriptor" where
  "string_descriptor_of_borrowed type_id_of C V borrow =
    \<lparr>ds_codec_type_id = vt_type_id C, ds_codec_type_name = vt_type_name C,
     ds_value_type_id = rt_type_id V, ds_value_type_name = rt_type_name V,
     ds_encode = string_encode type_id_of C V borrow, ds_decode = string_decode C V\<rparr>"

definition string_descriptor_of ::
  "('x \<Rightarrow> type_id) \<Rightarrow> ('c, 'v, 'v, 'o, 'w, 'ee, 'de) value_codec_type \<Rightarrow> ('v, 'x) rust_type \<Rightarrow>
   ('x, 'o, 'w, 'ee, 'de) descriptor" where
  "string_descriptor_of type_id_of C V = string_descriptor_of_borrowed type_id_of C V (\<lambda>v. v)"

lemma bytes_as_string: "bytes_descriptor_of type_id_of C V = string_descriptor_of type_id_of C V"
  by (simp add: bytes_descriptor_of_def string_descriptor_of_def string_descriptor_of_borrowed_def
      bytes_encode_def [abs_def] bytes_decode_def [abs_def] string_encode_def [abs_def] string_decode_def [abs_def])

section \<open>Any\<close>

locale any_type =
  fixes type_id_of :: "'x \<Rightarrow> type_id" and V :: "('v, 'x) rust_type"
  assumes downcast_box: "rt_downcast_ref V (rt_box V v) = Some v"
    and downcast_only: "rt_downcast_ref V x = Some v \<Longrightarrow> x = rt_box V v"
    and type_id_iff: "type_id_of x = rt_type_id V \<longleftrightarrow> (\<exists>v. rt_downcast_ref V x = Some v)"
begin

lemma descriptor_encode_box:
  "ds_encode (string_descriptor_of_borrowed type_id_of C V borrow) (rt_box V v) =
    map_err (EncodeFailed (vt_type_name C)) (fst (vt_encode C (vt_default C) (borrow v)))"
  by (simp add: string_descriptor_of_borrowed_def string_encode_def downcast_box)

lemma descriptor_encode_other:
  "type_id_of x \<noteq> rt_type_id V \<Longrightarrow> ds_encode (string_descriptor_of_borrowed type_id_of C V borrow) x =
    Err (TypeMismatch (rt_type_name V) (type_id_of x))"
  by (cases "rt_downcast_ref V x") (simp_all add: string_descriptor_of_borrowed_def string_encode_def type_id_iff)

lemma descriptor_trip:
  assumes "vt_encode C (vt_default C) (borrow v) = (Ok o', c1)" "vt_decode C (vt_default C) w = (Ok v, c2)"
  shows "ds_encode (string_descriptor_of_borrowed type_id_of C V borrow) (rt_box V v) = Ok o' \<and>
    ds_decode (string_descriptor_of_borrowed type_id_of C V borrow) w = Ok (rt_box V v)"
  using assms by (simp add: descriptor_encode_box) (simp add: string_descriptor_of_borrowed_def string_decode_def)

lemma descriptor_decode_typed:
  "ds_decode (string_descriptor_of_borrowed type_id_of C V borrow) w = Ok y \<Longrightarrow>
    \<exists>v. y = rt_box V v \<and> type_id_of y = rt_type_id V"
  by (auto simp: string_descriptor_of_borrowed_def string_decode_def map_ok_eq type_id_iff downcast_box)


end

text \<open>A universe with the values the codecs of the repository carry, and \<open>u16\<close> in it.\<close>

datatype sample_any = AnyU8 u8 | AnyU16 u16 | AnyString str

fun sample_type_id :: "sample_any \<Rightarrow> type_id" where
  "sample_type_id (AnyU8 _) = 0"
| "sample_type_id (AnyU16 _) = 1"
| "sample_type_id (AnyString _) = 2"

definition u16_type :: "(u16, sample_any) rust_type" where
  "u16_type = \<lparr>rt_type_id = 1, rt_type_name = [0x75, 0x31, 0x36], rt_box = AnyU16,
    rt_downcast_ref = (\<lambda>x. case x of AnyU16 v \<Rightarrow> Some v | _ \<Rightarrow> None)\<rparr>"

interpretation any_u16: any_type sample_type_id u16_type
  by unfold_locales (auto simp: u16_type_def split: sample_any.splits)

text \<open>\<open>CodecValueEncoder\<close> and \<open>CodecValueDecoder\<close> of \<open>U16BeCodec\<close> as one codec type.\<close>

definition u16be_value_type ::
  "(unit, u16, u16, u8 list, u8 list, (infallible, u16) encode_error, infallible decode_error) value_codec_type" where
  "u16be_value_type = \<lparr>vt_type_id = 7, vt_type_name = [0x42, 0x65], vt_default = (),
    vt_encode = codec_value_encode u16be_codec (\<lambda>_. True) 0, vt_decode = codec_value_decode u16be_codec\<rparr>"

text \<open>What was registered is found.\<close>

lemma registry_found:
  assumes "registry_build rs = Ok g" "r \<in> set rs"
  shows "registry_get g (id_str (reg_id r)) = Some r"
proof -
  have "distinct (map reg_id rs)" "g = \<lparr>rg_registrations = sort_key reg_id rs,
      rg_indices = collect_indices (sort_key reg_id rs)\<rparr>"
    using assms(1) registry_build_cases [of rs] by (metis distinct_ids_mset res.inject(1) res.distinct(1)
        strict_sorted_iff)+
  then show ?thesis
    using registry_get_iff [of "sort_key reg_id rs"] assms(2) by (simp add: distinct_ids_mset del: distinct_map)
qed

section \<open>Properties\<close>

text \<open>A codec found in a registry under its identifier is the registered one, behind a type
  check: a value of its type goes through the codec and back, and a value of any other type is
  refused with the expected and the actual type, whatever the codec.\<close>

theorem registered_codec_roundtrip:
  assumes "any_type type_id_of V" "registry_build rs = Ok g" "r \<in> set rs"
    and "reg_descriptor r = string_descriptor_of_borrowed type_id_of C V borrow"
    and "vt_encode C (vt_default C) (borrow v) = (Ok coded, c1)" "vt_decode C (vt_default C) w = (Ok v, c2)"
    and "type_id_of x \<noteq> rt_type_id V"
  shows "\<exists>r'. registry_get g (id_str (reg_id r)) = Some r' \<and>
    ds_encode (reg_descriptor r') (rt_box V v) = Ok coded \<and>
    ds_decode (reg_descriptor r') w = Ok (rt_box V v) \<and>
    ds_encode (reg_descriptor r') x = Err (TypeMismatch (rt_type_name V) (type_id_of x))"
proof -
  have "registry_get g (id_str (reg_id r)) = Some r" by (rule registry_found [OF assms(2,3)])
  with any_type.descriptor_trip [where borrow = borrow and v = v and C = C, OF assms(1,5,6)] any_type.descriptor_encode_other [OF assms(1,7), of C borrow] assms(4)
  show ?thesis by simp
qed

text \<open>C38. Type soundness of the erased codecs: what a descriptor decodes is boxed under the type
  the descriptor declares, so any other descriptor of that type, whatever its codec, takes it past
  its type check: it encodes it or fails as its own codec does. And a descriptor answers with a
  type mismatch exactly when the type of the value is not the declared one.\<close>

theorem erased_codec_type_sound:
  assumes "any_type type_id_of V"
    and "D = string_descriptor_of_borrowed type_id_of C V borrow" "D' = string_descriptor_of_borrowed type_id_of C' V borrow'"
    and "ds_decode D w = Ok y"
  shows "type_id_of y = ds_value_type_id D' \<and>
    (\<exists>v. fst (vt_decode C (vt_default C) w) = Ok v \<and>
      ds_encode D' y = map_err (EncodeFailed (vt_type_name C')) (fst (vt_encode C' (vt_default C') (borrow' v)))) \<and>
    (\<forall>x. (\<exists>n t. ds_encode D' x = Err (TypeMismatch n t)) \<longleftrightarrow> type_id_of x \<noteq> ds_value_type_id D')"
proof -
  have id: "ds_value_type_id D' = rt_type_id V" by (simp add: assms(3) string_descriptor_of_borrowed_def)
  obtain v where v: "fst (vt_decode C (vt_default C) w) = Ok v" "y = rt_box V v"
    using assms(2,4) by (auto simp: string_descriptor_of_borrowed_def string_decode_def map_ok_eq)
  have "(\<exists>n t. ds_encode D' x = Err (TypeMismatch n t)) \<longleftrightarrow> type_id_of x \<noteq> rt_type_id V" for x
    using any_type.descriptor_encode_other [OF assms(1), of x C' borrow'] any_type.type_id_iff [OF assms(1), of x]
      any_type.downcast_only [OF assms(1), of x] any_type.descriptor_encode_box [OF assms(1), of C' borrow']
    by (cases "type_id_of x = rt_type_id V") (auto simp: assms(3))
  moreover from any_type.descriptor_decode_typed [OF assms(1), of C borrow w y] assms(2,4)
  have "type_id_of y = rt_type_id V" by blast
  moreover from any_type.descriptor_encode_box [OF assms(1), of C' borrow' v] v(2) assms(3)
  have "ds_encode D' y = map_err (EncodeFailed (vt_type_name C')) (fst (vt_encode C' (vt_default C') (borrow' v)))" by simp
  ultimately show ?thesis unfolding id using v(1) by blast
qed

end
