(* ===== verification/Witnesses.thy ===== *)
theory Witnesses
  imports Streams ValueCodec Descriptor
begin

text \<open>
  Concrete runs: each theorem of the engines with hypotheses is applied here to one of the
  repository's codecs, with inputs that exercise a partial result where there is one.
\<close>

abbreviation u16be_eh :: "(unit, unit, u16, u8, infallible) encode_hooks" where
  "u16be_eh \<equiv> codec_transcode_encode_hooks u16be_codec"

abbreviation u16be_dh :: "(unit, unit, u16, infallible) decode_hooks" where
  "u16be_dh \<equiv> codec_transcode_decode_hooks u16be_codec"

abbreviation emit_skip :: protocol_hooks where
  "emit_skip \<equiv> \<lparr>ph_invalid = PolicyEmit, ph_incomplete = PolicySkip\<rparr>"

lemma sample_states [simp]:
  "any_state c" "stream_phase (ee_phase (fresh_encoder c h))" "stream_phase (ee_phase (open_encoder c h))"
  "stream_phase (de_phase (fresh_decoder c2 h2))" "stream_phase (de_phase (open_decoder c2 h2))"
  by (simp_all add: any_state_def stream_phase_def)

lemma small_length: "length xs \<le> 1000 \<Longrightarrow> length xs \<le> usize_max"
  by (simp add: usize_max_def)

theorem encode_transcode_reports_valid_witness:
  "\<exists>p eng' out'. ee_transcode u16be_codec u16be_eh (fresh_encoder () ()) [0x1234, 0xabcd] 0 [0, 0, 0] 0
      = (Ok p, eng', out') \<and> p = progress_need_output (NZ 1) 1 2 \<and> valid_progress p 0 2 0 3 \<and>
    \<not> is_need_input p"
proof -
  have run: "ee_transcode u16be_codec u16be_eh (fresh_encoder () ()) [0x1234, 0xabcd] 0 [0, 0, 0] 0 =
      (Ok (progress_need_output (NZ 1) 1 2), open_encoder () (), [0x12, 0x34, 0])"
    by code_simp
  from encode_transcode_reports_valid [OF run small_length small_length] run show ?thesis
    by (simp add: eval_nat_numeral)
qed

theorem decode_transcode_reports_valid_witness:
  "\<exists>p eng' out'. de_transcode_with_eof u16be_codec u16be_dh (fresh_decoder () ()) [1, 2, 3] 0 [0, 0] 0 False
      = (Ok p, eng', out') \<and> p = progress_need_input (NZ 1) 2 1 \<and> valid_progress p 0 3 0 2"
proof -
  have run: "de_transcode_with_eof u16be_codec u16be_dh (fresh_decoder () ()) [1, 2, 3] 0 [0, 0] 0 False =
      (Ok (progress_need_input (NZ 1) 2 1), open_decoder () (), [0x102, 0])"
    by code_simp
  from decode_transcode_reports_valid [OF run small_length small_length] run show ?thesis
    by (simp add: eval_nat_numeral)
qed

theorem encode_call_refines_stream_witness:
  "\<exists>eng'. ee_transcode u16be_codec u16be_eh (fresh_encoder () ()) [7, 0x1234, 0xabcd] 1 [9, 0, 0, 9] 1
      = (Ok (progress_need_output (NZ 1) 1 2), eng', [9, 0x12, 0x34, 9])"
proof -
  obtain r eng' out' where
    call: "ee_transcode u16be_codec u16be_eh (fresh_encoder () ()) [7, 0x1234, 0xabcd] 1 [9, 0, 0, 9] 1
      = (r, eng', out')" by (metis prod_cases3)
  have spec: "encode_stream u16be_codec u16be_emit (strict_unencodable (ee_hooks (fresh_encoder () ()))) 1
      (ee_codec (fresh_encoder () ())) (drop 1 [7, 0x1234, 0xabcd]) (length [9, 0, 0, 9 :: u8] - 1)
      = (Ok (Some (NZ 1)), 1, [0x12, 0x34], ())"
    by code_simp
  have idx: "1 \<le> length [7, 0x1234, 0xabcd :: u16]" "1 \<le> length [9, 0, 0, 9 :: u8]" by simp_all
  from encode_call_refines_stream [OF u16be_enc.encoder_codec_axioms sample_states(1,2) idx spec call] call
  show ?thesis by (simp add: encode_stream_report_def progress_defs splice_at_def)
qed

theorem encode_windows_join_witness:
  "\<exists>eng'. ee_transcode u16be_codec u16be_eh (fresh_encoder () ()) [0x1234, 0xabcd] 0 [0, 0, 0, 0] 0
      = (Ok (progress_complete 2 4), eng', [0x12, 0x34, 0xab, 0xcd])"
proof -
  let ?p1 = "progress_need_output (NZ 1) 1 2"
  have 1: "ee_transcode u16be_codec u16be_eh (fresh_encoder () ()) [0x1234, 0xabcd] 0 [0, 0, 0] 0 =
      (Ok ?p1, open_encoder () (), [0x12, 0x34, 0])"
    by code_simp
  have 2: "ee_transcode u16be_codec u16be_eh (open_encoder () ()) [0x1234, 0xabcd] (tp_read ?p1) [0, 0] 0 =
      (Ok (progress_complete 1 2), open_encoder () (), [0xab, 0xcd])"
    by code_simp
  obtain r eng' out' where
    3: "ee_transcode u16be_codec u16be_eh (fresh_encoder () ()) [0x1234, 0xabcd] 0 [0, 0, 0, 0] 0 = (r, eng', out')"
    by (metis prod_cases3)
  have sizes: "length [0, 0, 0, 0 :: u8] = tp_written ?p1 + length [0, 0 :: u8]"
    "length [0, 0, 0 :: u8] \<le> length [0, 0, 0, 0 :: u8]" by (simp_all add: progress_defs)
  have "length out' = 4" using ee_transcode_length [OF 3] by simp
  with encode_windows_join [OF u16be_enc.encoder_codec_axioms sample_states(1,2) 1 2 3 sizes] 3 show ?thesis
    by (simp add: progress_defs)
qed

theorem encode_bound_sufficient_witness:
  "\<exists>p eng' out'. ee_transcode u16be_codec u16be_eh (fresh_encoder () ()) [0x1234, 0xabcd] 0 [0, 0, 0, 0, 0] 0
      = (Ok p, eng', out') \<and> tp_status p = Complete \<and> tp_read p = 2 \<and> tp_written p \<le> 4"
proof -
  have run: "ee_transcode u16be_codec u16be_eh (fresh_encoder () ()) [0x1234, 0xabcd] 0 [0, 0, 0, 0, 0] 0 =
      (Ok (progress_complete 2 4), open_encoder () (), [0x12, 0x34, 0xab, 0xcd, 0])"
    by code_simp
  have default: "eh_max_transcode_output_len u16be_eh = default_eh_max_transcode u16be_codec"
    by (simp add: codec_transcode_encode_hooks_def)
  have bound: "ee_max_transcode_output_len u16be_eh (fresh_encoder () ()) (length [0x1234, 0xabcd :: u16]) = Ok 4"
    "4 \<le> length [0, 0, 0, 0, 0 :: u8]"
    by (code_simp, simp)
  from encode_bound_sufficient [OF u16be_enc.encoder_codec_axioms sample_states(1,2) default bound run] run
  show ?thesis by (simp add: eval_nat_numeral)
qed

theorem encode_complete_into_no_panic_witness:
  "\<exists>r eng' out'. ee_transcode_complete_into u16be_codec u16be_eh (fresh_encoder () ()) [0x1234] [0, 0, 0]
      = (r, eng', out') \<and> r = Ok 2 \<and> r \<noteq> Panic"
proof -
  have run: "ee_transcode_complete_into u16be_codec u16be_eh (fresh_encoder () ()) [0x1234] [0, 0, 0] =
      (Ok 2, \<lparr>ee_codec = (), ee_hooks = (), ee_lifecycle = \<lparr>guard_phase = Finished\<rparr>\<rparr>, [0x12, 0x34, 0])"
    by code_simp
  from encode_complete_into_no_panic [OF u16be_enc.encoder_lifecycle_axioms sample_states(1)
      small_length small_length run] run
  show ?thesis by simp
qed

theorem decode_call_refines_stream_witness:
  "\<exists>eng'. de_transcode_with_eof protocol_codec protocol_decode_hooks (fresh_decoder () emit_skip)
      [7, 0xff, 0xfe] 1 [9, 0, 0] 1 True = (Ok (progress_complete 2 1), eng', [9, 0x3f, 0])"
proof -
  obtain r eng' out' where
    call: "de_transcode_with_eof protocol_codec protocol_decode_hooks (fresh_decoder () emit_skip)
      [7, 0xff, 0xfe] 1 [9, 0, 0] 1 True = (r, eng', out')" by (metis prod_cases3)
  have spec: "decode_stream protocol_codec protocol_parse
      (protocol_on_invalid (de_hooks (fresh_decoder () emit_skip)))
      (protocol_on_incomplete (de_hooks (fresh_decoder () emit_skip))) True 1
      (de_codec (fresh_decoder () emit_skip)) (drop 1 [7, 0xff, 0xfe]) (length [9, 0, 0 :: u8] - 1)
      = (Ok Complete, 2, [0x3f], ())"
    by code_simp
  have idx: "1 \<le> length [7, 0xff, 0xfe :: u8]" "1 \<le> length [9, 0, 0 :: u8]" by simp_all
  from decode_call_refines_stream [OF protocol_dec.decoder_codec_axioms sample_states(1,4) idx spec call] call
  show ?thesis by (simp add: progress_complete_def splice_at_def)
qed

theorem decode_chunks_join_witness:
  "\<exists>eng'. de_transcode_with_eof u16be_codec u16be_dh (fresh_decoder () ()) ([1, 2, 3] @ [4]) 0 [0, 0] 0 True
      = (Ok (progress_complete 4 2), eng', [0x102, 0x304])"
proof -
  let ?p1 = "progress_need_input (NZ 1) 2 1"
  have 1: "de_transcode u16be_codec u16be_dh (fresh_decoder () ()) [1, 2, 3] 0 [0] 0 =
      (Ok ?p1, open_decoder () (), [0x102])"
    by code_simp
  have 2: "de_transcode_with_eof u16be_codec u16be_dh (open_decoder () ()) ([1, 2, 3] @ [4]) (tp_read ?p1) [0] 0 True =
      (Ok (progress_complete 2 1), open_decoder () (), [0x304])"
    by code_simp
  obtain r eng' out' where
    3: "de_transcode_with_eof u16be_codec u16be_dh (fresh_decoder () ()) ([1, 2, 3] @ [4]) 0 [0, 0] 0 True
      = (r, eng', out')" by (metis prod_cases3)
  have sizes: "length [0, 0 :: u16] = tp_written ?p1 + length [0 :: u16]"
    "length [0 :: u16] \<le> length [0, 0 :: u16]" by (simp_all add: progress_defs)
  have "length out' = 2" using de_transcode_length [OF 3] by simp
  with decode_chunks_join [OF u16be_inc.incremental_decoder_axioms sample_states(1,4) 1 2 3 sizes] 3
  show ?thesis by (simp add: progress_defs)
qed

theorem decode_bound_sufficient_witness:
  "\<exists>p eng' out'. de_transcode_eof u16be_codec u16be_dh (fresh_decoder () ()) [1, 2, 3, 4] 0 [0, 0] 0
      = (Ok p, eng', out') \<and> tp_status p = Complete \<and> tp_read p = 4 \<and> tp_written p * 2 \<le> 4"
proof -
  have run: "de_transcode_eof u16be_codec u16be_dh (fresh_decoder () ()) [1, 2, 3, 4] 0 [0, 0] 0 =
      (Ok (progress_complete 4 2), open_decoder () (), [0x102, 0x304])"
    by code_simp
  have bound: "de_max_transcode_output_len u16be_dh (fresh_decoder () ()) (length [1, 2, 3, 4 :: u8]) = Ok 2" "2 \<le> length [0, 0 :: u16]"
    by (code_simp, simp)
  from decode_bound_sufficient [OF u16be_dec.decoder_codec_axioms sample_states(1,4) bound run] run
  show ?thesis by (simp add: u16be_codec_def progress_defs)
qed

theorem decode_complete_into_no_panic_witness:
  "\<exists>r eng' out'. de_transcode_complete_into marker_codec (codec_transcode_decode_hooks marker_codec)
      (fresh_decoder () ()) [0x42] [0, 0, 0, 0] = (r, eng', out') \<and> r = Ok 3 \<and> r \<noteq> Panic"
proof -
  have run: "de_transcode_complete_into marker_codec (codec_transcode_decode_hooks marker_codec)
      (fresh_decoder () ()) [0x42] [0, 0, 0, 0] =
      (Ok 3, \<lparr>de_codec = (), de_hooks = (), de_lifecycle = \<lparr>guard_phase = Finished\<rparr>\<rparr>, [0xfe, 0x42, 0xff, 0])"
    by code_simp
  from decode_complete_into_no_panic [OF marker_dec.decoder_lifecycle_axioms sample_states(1)
      small_length small_length run] run
  show ?thesis by simp
qed

theorem engine_roundtrip_witness:
  "\<exists>p enc' out' r dec' values'.
    ee_transcode u16be_codec u16be_eh (fresh_encoder () ()) [0x1234, 0xabcd] 0 [0, 0, 0, 0, 0] 0 = (Ok p, enc', out') \<and>
    de_transcode_with_eof u16be_codec u16be_dh (fresh_decoder () ()) (take (tp_written p) out') 0 [0, 0] 0 False
      = (r, dec', values') \<and>
    r = Ok (progress_complete 4 2) \<and> values' = [0x1234, 0xabcd]"
proof -
  let ?p = "progress_complete 2 4" and ?out = "[0x12, 0x34, 0xab, 0xcd, 0] :: u8 list"
  have run: "ee_transcode u16be_codec u16be_eh (fresh_encoder () ()) [0x1234, 0xabcd] 0 [0, 0, 0, 0, 0] 0 =
      (Ok ?p, open_encoder () (), ?out)"
    by code_simp
  obtain r dec' values' where
    call2: "de_transcode_with_eof u16be_codec u16be_dh (fresh_decoder () ()) (take (tp_written ?p) ?out) 0 [0, 0] 0 False
      = (r, dec', values')" by (metis prod_cases3)
  have st: "tp_status ?p = Complete" "tp_written ?p = 4" by (simp_all add: progress_defs)
  have len: "length [0x1234, 0xabcd :: u16] \<le> length [0, 0 :: u16]" by simp
  have reject: "strict_unencodable (ee_hooks (fresh_encoder () ())) v = RejectValue" for v :: u16
    by (simp add: strict_unencodable_def)
  have "length values' = 2" using de_transcode_length [OF call2] by simp
  with engine_roundtrip [OF u16be_trip.codec_roundtrip_axioms sample_states(1,1) TrueI reject
      sample_states(2,4) run st(1) len call2] st(2)
  have "r = Ok (progress_complete 4 2)" "values' = [0x1234, 0xabcd]"
    by (simp_all add: eval_nat_numeral)
  with run call2 show ?thesis by blast
qed

theorem protocol_engine_is_oracle_witness:
  "\<exists>eng'. de_transcode_eof protocol_codec protocol_decode_hooks (fresh_decoder () emit_skip) [1, 0xff, 0xfe] 0
      [0, 0, 0] 0 = (Ok (progress_complete 3 2), eng', [1, 0x3f, 0])"
proof -
  obtain r eng' out' where
    call: "de_transcode_eof protocol_codec protocol_decode_hooks (fresh_decoder () emit_skip) [1, 0xff, 0xfe] 0
      [0, 0, 0] 0 = (r, eng', out')" by (metis prod_cases3)
  have len: "length [1, 0xff, 0xfe :: u8] \<le> length [0, 0, 0 :: u8]" by simp
  have expected: "oracle_result (reference [1, 0xff, 0xfe] (ph_invalid (de_hooks (fresh_decoder () emit_skip)))
      (ph_incomplete (de_hooks (fresh_decoder () emit_skip)))) (length [1, 0xff, 0xfe :: u8])
      = (Ok (progress_complete 3 2), [1, 0x3f])"
    by code_simp
  from protocol_engine_is_oracle [OF sample_states(4) len call expected] call show ?thesis
    by (simp add: splice_at_def)
qed

section \<open>A converter\<close>

text \<open>\<open>MarkerCodec\<close> on both sides: its decode side emits a value when it is reset and when it
  finishes.\<close>

abbreviation marker_traits ::
  "(unit, unit, unit, unit, u8, u8, u8, infallible, infallible, infallible, infallible) converter_traits" where
  "marker_traits \<equiv> strict_traits marker_codec marker_codec 0 (\<lambda>n. n \<le> 16)"

abbreviation marker_converter :: "lifecycle_phase \<Rightarrow> lifecycle_phase \<Rightarrow> u8 pending_value option \<Rightarrow>
    (unit, unit, unit, unit, u8) convert_engine" where
  "marker_converter inner outer slot \<equiv>
    \<lparr>cv_decode_engine = \<lparr>de_codec = (), de_hooks = (), de_lifecycle = \<lparr>guard_phase = inner\<rparr>\<rparr>,
     cv_encode_engine = \<lparr>ee_codec = (), ee_hooks = (), ee_lifecycle = \<lparr>guard_phase = inner\<rparr>\<rparr>,
     cv_pending = \<lparr>slot_value = slot\<rparr>, cv_lifecycle = \<lparr>guard_phase = outer\<rparr>\<rparr>"

lemma marker_reset:
  "cv_reset marker_traits (marker_converter Uninitialized Uninitialized None) [0, 0] 0 =
    (Ok 1, marker_converter Fresh Fresh None, [0xfe, 0])"
  by code_simp

lemma marker_transcode:
  "cv_transcode_with_eof marker_traits (marker_converter Fresh Fresh None) [1, 2] 0 [0] 0 False =
    (Ok (progress_need_output (NZ 0) 2 1),
     marker_converter Fresh Streaming (Some \<lparr>pv_value = 2, pv_input_index = 1\<rparr>), [1])"
  by code_simp

theorem convert_transcode_reports_valid_witness:
  "\<exists>p eng' out'. cv_transcode_with_eof marker_traits (marker_converter Fresh Fresh None) [1, 2] 0 [0] 0 False
      = (Ok p, eng', out') \<and> valid_progress p 0 2 0 1 \<and> is_need_output p \<and>
    cv_slot eng' = Some \<lparr>pv_value = 2, pv_input_index = 1\<rparr>"
proof -
  from convert_transcode_reports_valid [OF marker_transcode small_length small_length] marker_transcode
  show ?thesis by (simp add: eval_nat_numeral progress_defs)
qed

theorem convert_trace_inner_engines_ready_witness:
  "\<exists>eng. call_trace (convert_fresh marker_traits) (convert_call marker_traits) [ResetDone, TranscodeRun] eng \<and>
    stream_phase (cv_phase eng) \<and> on_finish_attempt (ee_lifecycle (cv_encode_engine eng)) = Ok () \<and>
    on_finish_attempt (de_lifecycle (cv_decode_engine eng)) = Ok ()"
proof -
  let ?e0 = "marker_converter Uninitialized Uninitialized None" and ?e1 = "marker_converter Fresh Fresh None"
  let ?e2 = "marker_converter Fresh Streaming (Some \<lparr>pv_value = 2, pv_input_index = 1\<rparr>)"
  have new: "convert_fresh marker_traits ?e0"
    by (simp add: convert_fresh_def cv_new_def de_new_def ee_new_def assert_unit_bounds_def strict_traits_def
        marker_codec_def guard_new_def slot_empty_def)
  have acc: "cv_reset_accepted marker_traits ?e0 [0, 0] 0"
  proof -
    have "cv_max_reset_output_len marker_traits ?e0 = Ok 1" by code_simp
    then show ?thesis by (simp add: cv_reset_accepted_def)
  qed
  have 1: "convert_call marker_traits ?e0 ResetDone ?e1"
    using convert_call.call_reset [OF marker_reset] acc by simp
  have 2: "convert_call marker_traits ?e1 TranscodeRun ?e2"
    using convert_call.call_transcode [OF marker_transcode [folded cv_transcode_def]]
    by (simp add: stream_phase_def)
  have t: "call_trace (convert_fresh marker_traits) (convert_call marker_traits) (([] @ [ResetDone]) @ [TranscodeRun]) ?e2"
    by (rule call_trace.trace_call, rule call_trace.trace_call, rule call_trace.trace_start)
      (rule new, rule 1, rule 2)
  from convert_trace_inner_engines_ready [OF t] have
    "stream_phase (cv_phase ?e2) = stream_open (([] @ [ResetDone]) @ [TranscodeRun])"
    "stream_open (([] @ [ResetDone]) @ [TranscodeRun]) \<longrightarrow>
      on_finish_attempt (ee_lifecycle (cv_encode_engine ?e2)) = Ok () \<and>
      on_finish_attempt (de_lifecycle (cv_decode_engine ?e2)) = Ok ()" by blast+
  with t show ?thesis by (intro exI [of _ ?e2]) (simp add: stream_open_def)
qed

section \<open>Value codecs\<close>

theorem encode_into_appends_frame_witness:
  "encode_into u16be_codec (\<lambda>_. True) 0 () 0x1234 [7] = (Ok 2, (), [7, 0x12, 0x34])"
proof -
  have bounds: "max_complete_encode_units u16be_codec = Ok 2" by code_simp
  have fits: "length [7 :: u8] + 2 \<le> usize_max" by (simp add: usize_max_def)
  have frame: "value_frame u16be_codec emit_nothing u16be_emit emit_nothing () 0x1234 = (Inr [0x12, 0x34], ())"
    by code_simp
  from encode_into_appends_frame [where reserve_vec = "\<lambda>_. True" and d = 0 and v = "0x1234",
      OF u16be_value.enc.framing_codec_axioms sample_states(1) bounds fits TrueI] frame
  show ?thesis by (simp add: eval_nat_numeral)
qed

text \<open>A codec that fails after it has written a unit.\<close>

definition failing_codec :: "(unit, u16, u8, infallible, infallible) codec" where
  "failing_codec = u16be_codec\<lparr>encode := (\<lambda>c v out i. (Err (), c, splice_at out i [0xff]))\<rparr>"

theorem encode_into_restores_vector_witness:
  "\<exists>vec. encode_into failing_codec (\<lambda>_. True) 0 () 0x1234 [7] = (Err (EncodeDomain (DomainMain () 0 None)), (), vec) \<and>
    writes_behind failing_codec \<and> vec = [7]"
proof -
  have behind: "writes_behind failing_codec"
    by (auto simp: writes_behind_def failing_codec_def u16be_codec_def codec_default_defs call_defs splice_at_def write_back_def
        min_def)
  have run: "fst (encode_into failing_codec (\<lambda>_. True) 0 () 0x1234 [7]) = Err (EncodeDomain (DomainMain () 0 None))"
    by code_simp
  obtain vec where vec: "encode_into failing_codec (\<lambda>_. True) 0 () 0x1234 [7] =
      (Err (EncodeDomain (DomainMain () 0 None)), (), vec)"
    using run by (cases "encode_into failing_codec (\<lambda>_. True) 0 () 0x1234 [7]") auto
  with encode_into_restores_vector [where C = failing_codec and reserve_vec = "\<lambda>_. True" and d = 0 and c = "()" and v = "0x1234" and vec = "[7]"] behind show ?thesis by simp
qed

theorem decode_lifecycle_is_exact_witness:
  "decode_lifecycle marker_codec (\<lambda>_. True) 0 () [5] =
    (Ok \<lparr>dlo_reset = [0xfe], dlo_value = 5, dlo_finish = [0xff]\<rparr>, ())"
proof -
  have spec: "exact_value marker_codec (emit_one reset_marker) marker_parse (emit_one finish_marker) () [5] =
      (Inr \<lparr>dlo_reset = [0xfe], dlo_value = 5, dlo_finish = [0xff]\<rparr>, ())"
    by code_simp
  from decode_lifecycle_is_exact [where reserve_vec = "\<lambda>_. True" and d = 0 and xs = "[5]",
      OF marker_value.dec.exact_codec_axioms sample_states(1) TrueI TrueI] spec
  show ?thesis by simp
qed

theorem strict_decode_refuses_lifecycle_output_witness:
  "codec_value_decode marker_codec () [5] = (Err (DecodeFailed (UnsupportedDecodeLifecycleOutput 1 1)), ()) \<and>
   codec_value_decode u16be_codec () [1, 2, 3] = (Err (DecodeFailed (TrailingInput 2 1)), ())"
proof -
  have spec: "exact_value u16be_codec emit_nothing u16be_parse emit_nothing () [1, 2, 3] =
      (Inl (DecodeFailed (TrailingInput 2 1)), ())"
    by code_simp
  from strict_decode_refuses_lifecycle_output [where xs = "[5]", OF marker_value.dec.exact_codec_axioms sample_states(1)]
    strict_decode_refuses_lifecycle_output [where xs = "[1, 2, 3]", OF u16be_value.dec.exact_codec_axioms
      sample_states(1)] spec
  show ?thesis by (simp add: marker_codec_def u16be_codec_def codec_default_defs)
qed

theorem value_roundtrip_witness:
  "\<exists>us. codec_value_encode marker_codec (\<lambda>_. True) 0 () 5 = (Ok us, ()) \<and>
    (\<exists>rs fs d'. decode_lifecycle marker_codec (\<lambda>_. True) 0 () us =
      (Ok \<lparr>dlo_reset = rs, dlo_value = 5, dlo_finish = fs\<rparr>, d')) \<and>
    codec_value_decode marker_codec () us = (Err (DecodeFailed (UnsupportedDecodeLifecycleOutput 1 1)), ())"
proof -
  have bounds: "max_complete_encode_units marker_codec = Ok 1" by code_simp
  have enc: "codec_value_encode marker_codec (\<lambda>_. True) 0 () 5 = (Ok [5], ())" by code_simp
  from value_roundtrip [where reserve_vec = "\<lambda>_. True" and dv = 0, OF marker_value.value_codec_axioms
      sample_states(1) sample_states(1) bounds TrueI TrueI TrueI enc] enc
  show ?thesis by (auto simp: marker_codec_def)
qed

section \<open>Registry\<close>

definition sample_source :: registration_source where
  "sample_source = RegistrationSource [0x61] [0x61] [0x62] 7"

definition sample_registration ::
  "(sample_any, u8 list, u8 list, (infallible, u16) encode_error, infallible decode_error) descriptor registration" where
  "sample_registration = \<lparr>reg_id = ValueCodecId [0x61, 0x2e, 0x62],
    reg_descriptor = string_descriptor_of_borrowed sample_type_id u16be_value_type u16_type (\<lambda>v. v),
    reg_source = sample_source\<rparr>"

theorem registered_codec_roundtrip_witness:
  "\<exists>g r'. registry_build [sample_registration] = Ok g \<and> registry_get g [0x61, 0x2e, 0x62] = Some r' \<and>
    ds_encode (reg_descriptor r') (AnyU16 0x1234) = Ok [0x12, 0x34] \<and>
    ds_decode (reg_descriptor r') [0x12, 0x34] = Ok (AnyU16 0x1234) \<and>
    ds_encode (reg_descriptor r') (AnyU8 1) = Err (TypeMismatch [0x75, 0x31, 0x36] 0)"
proof -
  let ?g = "\<lparr>rg_registrations = [sample_registration], rg_indices = collect_indices [sample_registration]\<rparr>"
  have build: "registry_build [sample_registration] = Ok ?g" by (simp add: registry_build_def Let_def)
  have enc: "vt_encode u16be_value_type (vt_default u16be_value_type) 0x1234 = (Ok [0x12, 0x34], ())"
    by code_simp
  have dec: "vt_decode u16be_value_type (vt_default u16be_value_type) [0x12, 0x34] = (Ok 0x1234, ())"
    by code_simp
  have other: "sample_type_id (AnyU8 1) \<noteq> rt_type_id u16_type" by (simp add: u16_type_def)
  have desc: "reg_descriptor sample_registration =
      string_descriptor_of_borrowed sample_type_id u16be_value_type u16_type (\<lambda>v. v)"
    by (simp add: sample_registration_def)
  from registered_codec_roundtrip [where borrow = "\<lambda>v. v" and v = "0x1234" and C = u16be_value_type,
      OF any_u16.any_type_axioms build list.set_intros(1) desc enc dec other] build
  show ?thesis by (auto simp: u16_type_def sample_registration_def)
qed

theorem erased_codec_type_sound_witness:
  "ds_decode (bytes_descriptor_of sample_type_id u16be_value_type u16_type) [0x12, 0x34] = Ok (AnyU16 0x1234) \<and>
    sample_type_id (AnyU16 0x1234) = ds_value_type_id (bytes_descriptor_of sample_type_id u16be_value_type u16_type) \<and>
    (\<exists>n t. ds_encode (bytes_descriptor_of sample_type_id u16be_value_type u16_type) (AnyString []) = Err (TypeMismatch n t))"
proof -
  have dec: "ds_decode (bytes_descriptor_of sample_type_id u16be_value_type u16_type) [0x12, 0x34] = Ok (AnyU16 0x1234)"
    by code_simp
  note desc = bytes_as_string [unfolded string_descriptor_of_def, of sample_type_id u16be_value_type u16_type]
  have "sample_type_id (AnyString []) \<noteq> ds_value_type_id (bytes_descriptor_of sample_type_id u16be_value_type u16_type)"
    by (simp add: bytes_descriptor_of_def u16_type_def)
  with erased_codec_type_sound [OF any_u16.any_type_axioms desc desc dec] dec show ?thesis by blast
qed

end
