(* ===== verification/IoBase.thy ===== *)
theory IoBase
  imports ValueCodec
begin

text \<open>
  The vocabulary of the I/O bridge (\<open>src/transcode/io\<close>): I/O errors, the report validation of
  \<open>internal/transcode_progress_validation.rs\<close>, the error mapping of
  \<open>internal/encode_output_error.rs\<close>, and the interfaces of the crates \<open>qubit_io\<close> and
  \<open>qubit_utils\<close>. Those crates are not part of the repository: \<open>BufferedInput\<close> and
  \<open>BufferedOutput\<close> are records of functions over their state, arguments of every definition
  that uses them, and the locales \<open>buffered_source\<close> and \<open>buffered_sink\<close> state the documented
  behaviour that the bridge relies on.
\<close>

section \<open>I/O errors\<close>

datatype error_kind =
    UnexpectedEof | InvalidData | InvalidInput | Unsupported | Interrupted | WriteZero | OutOfMemory
  | OtherKind nat

text \<open>\<open>std::io::Error\<close> with the payload it carries. \<open>IoOther\<close> is an error made outside the
  crate: by the wrapped input or output, or by the caller's \<open>map_error\<close>.\<close>

datatype io_error =
    IoMessage error_kind string
  | IoCapacity error_kind capacity_error
  | IoContract error_kind contract_error
  | IoFailure error_kind transcode_failure
  | IoDomain error_kind "io_error domain_error"
  | IoOther error_kind nat

fun io_kind :: "io_error \<Rightarrow> error_kind" where
  "io_kind (IoMessage k _) = k"
| "io_kind (IoCapacity k _) = k"
| "io_kind (IoContract k _) = k"
| "io_kind (IoFailure k _) = k"
| "io_kind (IoDomain k _) = k"
| "io_kind (IoOther k _) = k"

text \<open>A codec error with its context, mapped by the caller's function: the kind is the mapped
  error's.\<close>

definition contextual_error :: "('e \<Rightarrow> io_error) \<Rightarrow> 'e domain_error \<Rightarrow> io_error" where
  "contextual_error map_error e =
    (let contextual = domain_map_source map_error e
     in IoDomain (io_kind (domain_source contextual)) contextual)"

definition capacity_error_to_invalid_data :: "capacity_error \<Rightarrow> io_error" where
  "capacity_error_to_invalid_data e = IoCapacity InvalidData e"

fun map_encode_value_error :: "('e, 'v) encode_error \<Rightarrow> ('e \<Rightarrow> io_error) \<Rightarrow> io_error" where
  "map_encode_value_error (EncodeDomain e) map_error = contextual_error map_error e"
| "map_encode_value_error (EncodeUnencodable i v) map_error =
     IoMessage InvalidInput ''codec cannot encode value''"
| "map_encode_value_error (EncodeFailure f) map_error =
     IoMessage InvalidInput ''codec output bound overflow''"

definition map_encode_value_result ::
  "(('e, 'v) encode_error, 'a) res \<Rightarrow> ('e \<Rightarrow> io_error) \<Rightarrow> (io_error, 'a) res" where
  "map_encode_value_result result map_error = map_err (\<lambda>e. map_encode_value_error e map_error) result"

section \<open>Validated reports\<close>

definition validate_decode_progress ::
  "transcode_progress \<Rightarrow> nat \<Rightarrow> nat \<Rightarrow> nat \<Rightarrow> nat \<Rightarrow> (io_error, transcode_progress) res" where
  "validate_decode_progress p input_index available_input output_index available_output =
    bind_res (map_err (IoContract InvalidData)
        (validate p input_index available_input output_index available_output)) (\<lambda>_. Ok p)"

definition validate_eof_decode_progress ::
  "transcode_progress \<Rightarrow> nat \<Rightarrow> nat \<Rightarrow> nat \<Rightarrow> nat \<Rightarrow> (io_error, transcode_progress) res" where
  "validate_eof_decode_progress p input_index available_input output_index available_output =
    bind_res (validate_decode_progress p input_index available_input output_index available_output)
      (\<lambda>p. if is_need_input p
           then Err (IoMessage InvalidData ''decoder violated the EOF contract by requesting more input'')
           else Ok p)"

definition validate_encode_progress ::
  "transcode_progress \<Rightarrow> nat \<Rightarrow> nat \<Rightarrow> nat \<Rightarrow> nat \<Rightarrow> (io_error, transcode_progress) res" where
  "validate_encode_progress p input_index available_input output_index available_output =
    bind_res (map_err (IoContract InvalidData)
        (validate p input_index available_input output_index available_output)) (\<lambda>_.
      if is_need_input p
      then Err (IoMessage InvalidData
        ''encoder violated the TranscodeEncoder contract by requesting more input'')
      else Ok p)"

named_theorems io_valid \<open>when a report passes its validation\<close>

lemma validate_decode_progress_Ok [io_valid]:
  "validate_decode_progress p i ai j ao = Ok q \<longleftrightarrow> valid_progress p i ai j ao \<and> q = p"
  by (auto simp: validate_decode_progress_def bind_res_eq_Ok validate_Ok_iff)

lemma validate_decode_progress_no_panic [io_valid]: "validate_decode_progress p i ai j ao \<noteq> Panic"
  by (simp add: validate_decode_progress_def bind_res_eq_Panic)

lemma validate_eof_decode_progress_Ok [io_valid]:
  "validate_eof_decode_progress p i ai j ao = Ok q \<longleftrightarrow>
    valid_progress p i ai j ao \<and> \<not> is_need_input p \<and> q = p"
  by (auto simp: validate_eof_decode_progress_def bind_res_eq_Ok io_valid split: if_splits)

lemma validate_eof_decode_progress_no_panic [io_valid]: "validate_eof_decode_progress p i ai j ao \<noteq> Panic"
  by (auto simp: validate_eof_decode_progress_def bind_res_eq_Panic io_valid split: if_splits)

lemma validate_encode_progress_Ok [io_valid]:
  "validate_encode_progress p i ai j ao = Ok q \<longleftrightarrow>
    valid_progress p i ai j ao \<and> \<not> is_need_input p \<and> q = p"
  by (auto simp: validate_encode_progress_def bind_res_eq_Ok validate_Ok_iff split: if_splits)

lemma validate_encode_progress_no_panic [io_valid]: "validate_encode_progress p i ai j ao \<noteq> Panic"
  by (auto simp: validate_encode_progress_def bind_res_eq_Panic split: if_splits)

section \<open>The surrounding crates\<close>

type_synonym reserve_error = nat

text \<open>From \<open>qubit_utils\<close>: \<open>SliceRange::checked_range_end\<close>, \<open>allocation_error\<close> and
  \<open>try_reserve_vec\<close>.\<close>

record io_env =
  env_range_end :: "nat \<Rightarrow> nat \<Rightarrow> nat \<Rightarrow> string \<Rightarrow> (io_error, nat) res"
  env_allocation_error :: "reserve_error \<Rightarrow> io_error"
  env_reserve_vec :: "nat \<Rightarrow> (reserve_error, unit) res"

text \<open>\<open>BufferedInput\<close> over its state \<open>'b\<close>.\<close>

datatype seek_from = SeekStart u64 | SeekEnd "64 word" | SeekCurrent "64 word"

record ('b, 'u) buffered_input =
  bi_unread :: "'b \<Rightarrow> 'u list"
  bi_capacity :: "'b \<Rightarrow> nat"
  bi_try_reserve_capacity :: "'b \<Rightarrow> nat \<Rightarrow> (reserve_error, unit) res \<times> 'b"
  bi_fill_until :: "'b \<Rightarrow> nat \<Rightarrow> (io_error, bool) res \<times> 'b"
  bi_fill_more :: "'b \<Rightarrow> (io_error, bool) res \<times> 'b"
  bi_consume :: "'b \<Rightarrow> nat \<Rightarrow> 'b"
  bi_read_unchecked :: "'b \<Rightarrow> 'u list \<Rightarrow> nat \<Rightarrow> nat \<Rightarrow> (io_error, nat) res \<times> 'b \<times> 'u list"
  bi_seek_to :: "'b \<Rightarrow> seek_from \<Rightarrow> (io_error, u64) res \<times> 'b"

text \<open>
  What the bridge relies on. \<open>rest\<close> is the stream still to come, the unread units first.
  Filling appends to the unread units what it takes from the stream; it reports \<open>false\<close> only at
  the end of the stream, where all of it is unread. \<open>fault\<close> are the errors of the wrapped input
  and of the allocator; they lose nothing.
\<close>

locale buffered_source =
  fixes BI :: "('b, 'u) buffered_input" and E :: io_env
    and rest :: "'b \<Rightarrow> 'u list" and ok :: "'b \<Rightarrow> bool" and fault :: "io_error \<Rightarrow> bool"
  assumes unread_prefix: "ok b \<Longrightarrow> \<exists>ys. rest b = bi_unread BI b @ ys"
    and unread_fits: "ok b \<Longrightarrow> length (bi_unread BI b) \<le> usize_max"
    and consume_law: "ok b \<Longrightarrow> n \<le> length (bi_unread BI b) \<Longrightarrow>
        ok (bi_consume BI b n) \<and> bi_unread BI (bi_consume BI b n) = drop n (bi_unread BI b) \<and>
        rest (bi_consume BI b n) = drop n (rest b)"
    and reserve_law: "ok b \<Longrightarrow> bi_try_reserve_capacity BI b n = (q, b') \<Longrightarrow>
        q \<noteq> Panic \<and> ok b' \<and> bi_unread BI b' = bi_unread BI b \<and> rest b' = rest b \<and>
        (q = Ok () \<longrightarrow> n \<le> bi_capacity BI b') \<and>
        (\<forall>w. q = Err w \<longrightarrow> fault (env_allocation_error E w))"
    and fill_until_law: "ok b \<Longrightarrow> n \<le> bi_capacity BI b \<Longrightarrow> bi_fill_until BI b n = (r, b') \<Longrightarrow>
        r \<noteq> Panic \<and> ok b' \<and> rest b' = rest b \<and> (\<exists>more. bi_unread BI b' = bi_unread BI b @ more) \<and>
        (r = Ok True \<longrightarrow> n \<le> length (bi_unread BI b')) \<and>
        (r = Ok False \<longrightarrow> bi_unread BI b' = rest b \<and> length (rest b) < n) \<and>
        (\<forall>e. r = Err e \<longrightarrow> fault e)"
    and fill_more_law: "ok b \<Longrightarrow> bi_fill_more BI b = (r, b') \<Longrightarrow>
        r \<noteq> Panic \<and> ok b' \<and> rest b' = rest b \<and> (\<exists>more. bi_unread BI b' = bi_unread BI b @ more) \<and>
        (r = Ok True \<longrightarrow> length (bi_unread BI b) < length (bi_unread BI b')) \<and>
        (r = Ok False \<longrightarrow> bi_unread BI b' = rest b) \<and>
        (\<forall>e. r = Err e \<longrightarrow> fault e)"

section \<open>An in-memory source\<close>

text \<open>A buffered input over a script of chunks and faults, each served by one read of the wrapped
  input: every way in which a stream can arrive in pieces, with transient errors.\<close>

datatype 'u script_item = Chunk "'u list" | Fault io_error

record 'u scripted =
  sc_unread :: "'u list"
  sc_script :: "'u script_item list"
  sc_capacity :: nat

fun script_units :: "'u script_item list \<Rightarrow> 'u list" where
  "script_units [] = []"
| "script_units (Chunk c # is) = c @ script_units is"
| "script_units (Fault e # is) = script_units is"

fun script_faults :: "'u script_item list \<Rightarrow> io_error set" where
  "script_faults [] = {}"
| "script_faults (Chunk c # is) = script_faults is"
| "script_faults (Fault e # is) = insert e (script_faults is)"

fun script_more :: "'u list \<Rightarrow> 'u script_item list \<Rightarrow> (io_error, bool) res \<times> 'u list \<times> 'u script_item list" where
  "script_more us [] = (Ok False, us, [])"
| "script_more us (Chunk c # is) = (if c = [] then script_more us is else (Ok True, us @ c, is))"
| "script_more us (Fault e # is) = (Err e, us, is)"

fun script_until ::
  "nat \<Rightarrow> 'u list \<Rightarrow> 'u script_item list \<Rightarrow> (io_error, bool) res \<times> 'u list \<times> 'u script_item list" where
  "script_until n us [] = (Ok (n \<le> length us), us, [])"
| "script_until n us (Chunk c # is) =
     (if n \<le> length us then (Ok True, us, Chunk c # is) else script_until n (us @ c) is)"
| "script_until n us (Fault e # is) =
     (if n \<le> length us then (Ok True, us, Fault e # is) else (Err e, us, is))"

definition scripted_update ::
  "'u scripted \<Rightarrow> 'r \<times> 'u list \<times> 'u script_item list \<Rightarrow> 'r \<times> 'u scripted" where
  "scripted_update b x = (case x of (r, us, is) \<Rightarrow> (r, b\<lparr>sc_unread := us, sc_script := is\<rparr>))"

definition scripted_read :: "'u scripted \<Rightarrow> 'u list \<Rightarrow> nat \<Rightarrow> nat \<Rightarrow> (io_error, nat) res \<times> 'u scripted \<times> 'u list" where
  "scripted_read b out i count =
    (case (if sc_unread b = [] then scripted_update b (script_more [] (sc_script b)) else (Ok True, b)) of
       (Ok _, b) \<Rightarrow>
         let n = min count (length (sc_unread b)) in
         (Ok n, b\<lparr>sc_unread := drop n (sc_unread b)\<rparr>, splice_at out i (take n (sc_unread b)))
     | (Err e, b) \<Rightarrow> (Err e, b, out)
     | (Panic, b) \<Rightarrow> (Panic, b, out))"

definition scripted_input :: "('u scripted, 'u) buffered_input" where
  "scripted_input =
    \<lparr>bi_unread = sc_unread, bi_capacity = sc_capacity,
     bi_try_reserve_capacity = (\<lambda>b n. (Ok (), b\<lparr>sc_capacity := max (sc_capacity b) n\<rparr>)),
     bi_fill_until = (\<lambda>b n. scripted_update b (script_until n (sc_unread b) (sc_script b))),
     bi_fill_more = (\<lambda>b. scripted_update b (script_more (sc_unread b) (sc_script b))),
     bi_consume = (\<lambda>b n. b\<lparr>sc_unread := drop n (sc_unread b)\<rparr>),
     bi_read_unchecked = scripted_read,
     bi_seek_to = (\<lambda>b p. (Err (IoMessage Unsupported ''seek''), b))\<rparr>"

definition sample_env :: io_env where
  "sample_env = \<lparr>env_range_end = (\<lambda>len i n msg. if i + n \<le> len then Ok (i + n) else Err (IoMessage InvalidInput msg)),
    env_allocation_error = (\<lambda>e. IoOther OutOfMemory e), env_reserve_vec = (\<lambda>n. Ok ())\<rparr>"

definition scripted_rest :: "'u scripted \<Rightarrow> 'u list" where
  "scripted_rest b = sc_unread b @ script_units (sc_script b)"

definition scripted_ok :: "(io_error \<Rightarrow> bool) \<Rightarrow> 'u scripted \<Rightarrow> bool" where
  "scripted_ok fault b \<longleftrightarrow> length (scripted_rest b) \<le> usize_max \<and> (\<forall>e \<in> script_faults (sc_script b). fault e)"

lemma script_more_law:
  assumes "script_more us is = (r, us', is')"
  shows "r \<noteq> Panic \<and> us' @ script_units is' = us @ script_units is \<and> (\<exists>more. us' = us @ more) \<and>
    script_faults is' \<subseteq> script_faults is \<and> (r = Ok True \<longrightarrow> length us < length us') \<and>
    (r = Ok False \<longrightarrow> script_units is' = []) \<and> (\<forall>e. r = Err e \<longrightarrow> e \<in> script_faults is)"
  using assms by (induction us "is" rule: script_more.induct) (auto split: if_splits)

lemma script_until_law:
  assumes "script_until n us is = (r, us', is')"
  shows "r \<noteq> Panic \<and> us' @ script_units is' = us @ script_units is \<and> (\<exists>more. us' = us @ more) \<and>
    script_faults is' \<subseteq> script_faults is \<and> (r = Ok True \<longrightarrow> n \<le> length us') \<and>
    (r = Ok False \<longrightarrow> script_units is' = [] \<and> length us' < n) \<and> (\<forall>e. r = Err e \<longrightarrow> e \<in> script_faults is)"
  using assms by (induction n us "is" rule: script_until.induct) (auto split: if_splits)

lemma scripted_update_eq:
  "scripted_update b x = (r, b') \<longleftrightarrow> (\<exists>us is. x = (r, us, is) \<and> b' = b\<lparr>sc_unread := us, sc_script := is\<rparr>)"
  by (cases x) (auto simp: scripted_update_def)

interpretation scripted: buffered_source scripted_input sample_env scripted_rest "scripted_ok fault" fault
  for fault
proof
  fix b b' :: "'a scripted" and n r
  assume ok: "scripted_ok fault b" "bi_fill_until scripted_input b n = (r, b')"
  then obtain us "is" where step: "script_until n (sc_unread b) (sc_script b) = (r, us, is)"
    "b' = b\<lparr>sc_unread := us, sc_script := is\<rparr>"
    by (auto simp: scripted_input_def scripted_update_eq)
  from script_until_law [OF step(1)] step(2) ok(1)
  show "r \<noteq> Panic \<and> scripted_ok fault b' \<and> scripted_rest b' = scripted_rest b \<and>
      (\<exists>more. bi_unread scripted_input b' = bi_unread scripted_input b @ more) \<and>
      (r = Ok True \<longrightarrow> n \<le> length (bi_unread scripted_input b')) \<and>
      (r = Ok False \<longrightarrow> bi_unread scripted_input b' = scripted_rest b \<and> length (scripted_rest b) < n) \<and>
      (\<forall>e. r = Err e \<longrightarrow> fault e)"
    by (auto simp: scripted_input_def scripted_ok_def scripted_rest_def)
next
  fix b b' :: "'a scripted" and r
  assume ok: "scripted_ok fault b" "bi_fill_more scripted_input b = (r, b')"
  then obtain us "is" where step: "script_more (sc_unread b) (sc_script b) = (r, us, is)"
    "b' = b\<lparr>sc_unread := us, sc_script := is\<rparr>"
    by (auto simp: scripted_input_def scripted_update_eq)
  from script_more_law [OF step(1)] step(2) ok(1)
  show "r \<noteq> Panic \<and> scripted_ok fault b' \<and> scripted_rest b' = scripted_rest b \<and>
      (\<exists>more. bi_unread scripted_input b' = bi_unread scripted_input b @ more) \<and>
      (r = Ok True \<longrightarrow> length (bi_unread scripted_input b) < length (bi_unread scripted_input b')) \<and>
      (r = Ok False \<longrightarrow> bi_unread scripted_input b' = scripted_rest b) \<and> (\<forall>e. r = Err e \<longrightarrow> fault e)"
    by (auto simp: scripted_input_def scripted_ok_def scripted_rest_def)
qed (auto simp: scripted_input_def scripted_ok_def scripted_rest_def)

end
