(* ===== verification/DecodeDriver.thy ===== *)
theory DecodeDriver
  imports IoBase
begin

text \<open>
  Reading one value from a buffered input: \<open>src/transcode/io/internal/codec_decode_driver.rs\<close>.
  The driver decodes from the unread window and reads more only when the codec asks for it. The
  loop of \<open>read_one\<close> ends because the input does; as the input is outside the crate the loop is a
  partial function, and that it returns is proved from the contract of the input. A closure
  \<open>map_error\<close> is a function of the codec error; the source calls it at most once.
\<close>

section \<open>The driver\<close>

definition decode_window ::
  "('c, 'v, 'u, 'de, 'ee) codec \<Rightarrow> 'c \<Rightarrow> 'u list \<Rightarrow> bool \<Rightarrow>
   ('de decode_failure, 'v \<times> nonzero) res \<times> 'c" where
  "decode_window C c units end_of_input =
    (if end_of_input then decode_eof C c units 0 else decode C c units 0)"

definition prepare_buffered_window ::
  "('b, 'u) buffered_input \<Rightarrow> nat \<Rightarrow> nat \<Rightarrow> 'b \<Rightarrow> (io_error, nat \<times> bool) res \<times> 'b" where
  "prepare_buffered_window BI min_units max_units b =
    and_then
      (if length (bi_unread BI b) < min_units then
         and_then (bi_fill_until BI b min_units) (\<lambda>filled b. (Ok (\<not> filled), b))
       else (Ok False, b)) (\<lambda>end_of_input b.
    if length (bi_unread BI b) < min_units then
      let b = bi_consume BI b (length (bi_unread BI b)) in
      (Err (IoMessage UnexpectedEof ''failed to decode complete value''), b)
    else (Ok (min (length (bi_unread BI b)) max_units, end_of_input), b))"

definition driver_accept ::
  "('b, 'u) buffered_input \<Rightarrow> 'v \<Rightarrow> nonzero \<Rightarrow> nat \<Rightarrow> 'b \<Rightarrow> (io_error, 'v) res \<times> 'b" where
  "driver_accept BI v consumed available b =
    (if nz_get consumed > available
     then (Err (IoMessage InvalidData ''codec consumed units exceed unread window''), b)
     else (Ok v, bi_consume BI b (nz_get consumed)))"

definition refill_after_incomplete ::
  "('b, 'u) buffered_input \<Rightarrow> io_env \<Rightarrow> nonzero \<Rightarrow> nat \<Rightarrow> 'b \<Rightarrow> (io_error, bool) res \<times> 'b" where
  "refill_after_incomplete BI E required available b =
    (if available \<ge> nz_get required
     then (Err (IoMessage InvalidData ''codec reported incomplete input within available window''), b)
     else case bi_try_reserve_capacity BI b (nz_get required) of (r, b) \<Rightarrow>
       and_then (map_err (env_allocation_error E) r, b)
         (\<lambda>_ b. bi_fill_until BI b (nz_get required)))"

definition handle_eof_incomplete ::
  "('c, 'v, 'u, 'de, 'ee) codec \<Rightarrow> ('b, 'u) buffered_input \<Rightarrow> ('de \<Rightarrow> io_error) \<Rightarrow>
   'de option \<Rightarrow> nonzero \<Rightarrow> 'b \<Rightarrow> (io_error, 'v) res \<times> 'b" where
  "handle_eof_incomplete C BI map_error src required b =
    (if \<not> nz_get required \<le> max_decode_units_per_value C then (Panic, b)
     else
       let available = length (bi_unread BI b) in
       if nz_get required \<le> available
       then (Err (IoMessage InvalidData ''codec reported incomplete input within available window''), b)
       else
         let b = bi_consume BI b available in
         (case src of
            Some e \<Rightarrow> (Err (map_error e), b)
          | None \<Rightarrow> (Err (IoMessage UnexpectedEof ''failed to decode complete value''), b)))"

definition driver_reject ::
  "('b, 'u) buffered_input \<Rightarrow> ('de \<Rightarrow> io_error) \<Rightarrow> 'de \<Rightarrow> nonzero option \<Rightarrow> nat \<Rightarrow> 'b \<Rightarrow>
   (io_error, 'v) res \<times> 'b" where
  "driver_reject BI map_error src consumed available b =
    (case consumed of
       Some n \<Rightarrow>
         if nz_get n > available
         then (Err (IoMessage InvalidData ''decode error consumed units exceed unread window''), b)
         else (Err (map_error src), bi_consume BI b (nz_get n))
     | None \<Rightarrow> (Err (map_error src), b))"

definition retry_decode_at_eof ::
  "('c, 'v, 'u, 'de, 'ee) codec \<Rightarrow> ('b, 'u) buffered_input \<Rightarrow> ('de \<Rightarrow> io_error) \<Rightarrow>
   'c \<Rightarrow> 'b \<Rightarrow> (io_error, 'v) res \<times> 'c \<times> 'b" where
  "retry_decode_at_eof C BI map_error c b =
    (let available = length (bi_unread BI b) in
     case decode_eof C c (take available (bi_unread BI b)) 0 of (r, c) \<Rightarrow>
       (case r of
          Ok (v, consumed) \<Rightarrow>
            (case driver_accept BI v consumed available b of (q, b) \<Rightarrow> (q, c, b))
        | Err (Invalid src consumed) \<Rightarrow>
            (case driver_reject BI map_error src consumed available b of (q, b) \<Rightarrow> (q, c, b))
        | Err (Incomplete src required) \<Rightarrow>
            (case handle_eof_incomplete C BI map_error src required b of (q, b) \<Rightarrow> (q, c, b))
        | Panic \<Rightarrow> (Panic, c, b)))"

text \<open>One turn of the loop of \<open>read_one\<close>: the value it returns, or \<open>None\<close> to go on.\<close>

definition read_one_turn ::
  "('c, 'v, 'u, 'de, 'ee) codec \<Rightarrow> ('b, 'u) buffered_input \<Rightarrow> io_env \<Rightarrow> ('de \<Rightarrow> io_error) \<Rightarrow>
   'c \<Rightarrow> 'b \<Rightarrow> (io_error, 'v option) res \<times> 'c \<times> 'b" where
  "read_one_turn C BI E map_error c b =
    (let min_units = min_units_per_value C;
         max_units = max (max_decode_units_per_value C) (min_units_per_value C) in
     case prepare_buffered_window BI min_units max_units b of (w, b) \<Rightarrow>
     and_then (w, c, b) (\<lambda>(available, end_of_input) (c, b).
     let units = take available (bi_unread BI b) in
     if \<not> length units \<ge> min_units then (Panic, c, b)
     else case decode_window C c units end_of_input of (r, c) \<Rightarrow>
       (case r of
          Ok (v, consumed) \<Rightarrow>
            (case driver_accept BI v consumed available b of (q, b) \<Rightarrow> (map_ok Some q, c, b))
        | Err (Incomplete src required) \<Rightarrow>
            if \<not> nz_get required \<le> max_decode_units_per_value C then (Panic, c, b)
            else if end_of_input then
              (case handle_eof_incomplete C BI map_error src required b of
                 (q, b) \<Rightarrow> (map_ok Some q, c, b))
            else
              (case refill_after_incomplete BI E required available b of (q, b) \<Rightarrow>
                 and_then (q, c, b) (\<lambda>filled (c, b).
                   if \<not> filled then
                     (case retry_decode_at_eof C BI map_error c b of (q, c, b) \<Rightarrow> (map_ok Some q, c, b))
                   else (Ok None, c, b)))
        | Err (Invalid src consumed) \<Rightarrow>
            (case driver_reject BI map_error src consumed available b of (q, b) \<Rightarrow> (map_ok Some q, c, b))
        | Panic \<Rightarrow> (Panic, c, b))))"

partial_function (option) read_one_loop ::
  "('c, 'v, 'u, 'de, 'ee) codec \<Rightarrow> ('b, 'u) buffered_input \<Rightarrow> io_env \<Rightarrow> ('de \<Rightarrow> io_error) \<Rightarrow>
   'c \<Rightarrow> 'b \<Rightarrow> ((io_error, 'v) res \<times> 'c \<times> 'b) option" where
  "read_one_loop C BI E map_error c b =
    (case read_one_turn C BI E map_error c b of
       (Ok None, c, b) \<Rightarrow> read_one_loop C BI E map_error c b
     | (Ok (Some v), c, b) \<Rightarrow> Some (Ok v, c, b)
     | (Err e, c, b) \<Rightarrow> Some (Err e, c, b)
     | (Panic, c, b) \<Rightarrow> Some (Panic, c, b))"

declare read_one_loop.simps [code]

definition read_one ::
  "('c, 'v, 'u, 'de, 'ee) codec \<Rightarrow> ('b, 'u) buffered_input \<Rightarrow> io_env \<Rightarrow> ('de \<Rightarrow> io_error) \<Rightarrow>
   'c \<Rightarrow> 'b \<Rightarrow> ((io_error, 'v) res \<times> 'c \<times> 'b) option" where
  "read_one C BI E map_error c b =
    (case bi_try_reserve_capacity BI b (min_units_per_value C) of (r, b) \<Rightarrow>
      (case map_err (env_allocation_error E) r of
         Ok _ \<Rightarrow> read_one_loop C BI E map_error c b
       | Err e \<Rightarrow> Some (Err e, c, b)
       | Panic \<Rightarrow> Some (Panic, c, b)))"

section \<open>The specification\<close>

text \<open>The first value of a stream that is known to its end, with the units it takes.\<close>

definition head_value ::
  "('c, 'v, 'u, 'de, 'ee) codec \<Rightarrow> ('c, 'v, 'u, 'de) parser \<Rightarrow> ('de \<Rightarrow> io_error) \<Rightarrow> 'c \<Rightarrow> 'u list \<Rightarrow>
   (io_error, 'v) res \<times> nat \<times> 'c" where
  "head_value C parse map_error c xs =
    (if length xs < min_units_per_value C
     then (Err (IoMessage UnexpectedEof ''failed to decode complete value''), length xs, c)
     else case parse c True xs of
       (Inr (v, n), c') \<Rightarrow> (Ok v, nz_get n, c')
     | (Inl (Invalid e n), c') \<Rightarrow> (Err (map_error e), (case n of Some k \<Rightarrow> nz_get k | None \<Rightarrow> 0), c')
     | (Inl (Incomplete (Some e) _), c') \<Rightarrow> (Err (map_error e), length xs, c')
     | (Inl (Incomplete None _), c') \<Rightarrow>
         (Err (IoMessage UnexpectedEof ''failed to decode complete value''), length xs, c'))"

section \<open>The driver reads the first value of the stream\<close>

text \<open>A result of the driver: an error of the source, which loses nothing, or the value of the
  specification, with its units taken from the stream.\<close>

definition read_result ::
  "('c, 'v, 'u, 'de, 'ee) codec \<Rightarrow> ('c, 'v, 'u, 'de) parser \<Rightarrow> ('c \<Rightarrow> bool) \<Rightarrow>
   ('b \<Rightarrow> 'u list) \<Rightarrow> ('b \<Rightarrow> bool) \<Rightarrow> (io_error \<Rightarrow> bool) \<Rightarrow>
   ('de \<Rightarrow> io_error) \<Rightarrow> 'c \<Rightarrow> 'u list \<Rightarrow> (io_error, 'v) res \<Rightarrow> 'c \<Rightarrow> 'b \<Rightarrow> bool" where
  "read_result C parse good rest ok fault map_error c xs r c' b' \<longleftrightarrow>
    ok b' \<and> good c' \<and>
    ((\<exists>e. fault e \<and> r = Err e \<and> c' = c \<and> rest b' = xs) \<or>
     (\<exists>n. head_value C parse map_error c xs = (r, n, c') \<and> rest b' = drop n xs))"

locale stream_reading =
  incremental_codec C good parse + buffered_source BI E rest ok fault
  for C :: "('c, 'v, 'u, 'de, 'ee) codec" and good and parse
    and BI :: "('b, 'u) buffered_input" and E and rest and ok and fault +
  assumes invalid_within: "good c \<Longrightarrow> min_units_per_value C \<le> length xs \<Longrightarrow>
      parse c e xs = (Inl (Invalid err (Some n)), c') \<Longrightarrow> nz_get n \<le> length xs"
begin

abbreviation result ::
  "('de \<Rightarrow> io_error) \<Rightarrow> 'c \<Rightarrow> 'u list \<Rightarrow> (io_error, 'v) res \<Rightarrow> 'c \<Rightarrow> 'b \<Rightarrow> bool" where
  "result \<equiv> read_result C parse good rest ok fault"

lemma read_result_cases:
  assumes "result f c xs q c' b'"
  shows "case map_ok Some q of
      Ok None \<Rightarrow> False
    | Ok (Some v) \<Rightarrow> result f c xs (Ok v) c' b'
    | Err e \<Rightarrow> result f c xs (Err e :: (io_error, 'v) res) c' b'
    | Panic \<Rightarrow> False"
proof (cases q)
  case Panic
  with assms show ?thesis
    by (auto simp: read_result_def head_value_def split: if_splits prod.splits sum.splits
        decode_failure.splits option.splits)
qed (use assms in simp_all)

lemma window_of_rest:
  assumes "ok b" "k \<le> length (bi_unread BI b)"
  obtains ys where "rest b = take k (bi_unread BI b) @ ys" "drop k (rest b) = ys"
proof -
  obtain zs where "rest b = bi_unread BI b @ zs" using unread_prefix [OF assms(1)] by blast
  then have r: "rest b = take k (bi_unread BI b) @ drop k (bi_unread BI b) @ zs" by simp
  with assms(2) show thesis by (intro that [OF r]) simp
qed

text \<open>A verdict that is final on a window is the verdict on the whole stream.\<close>

lemma accept_window:
  assumes "ok b" "good c" "k \<le> length (bi_unread BI b)" "w = take k (bi_unread BI b)" "min_units_per_value C \<le> k"
    and "parse c e w = (Inr (v, n), c')" "e \<longrightarrow> w = rest b"
    and "driver_accept BI v n k b = (q, b')"
  shows "result f c (rest b) q c' b'"
proof -
  have len: "length w = k" using assms(3,4) by simp
  obtain ys where xs: "rest b = w @ ys" using window_of_rest [OF assms(1,3)] assms(4) by metis
  have min: "min_units_per_value C \<le> length w" using assms(5) len by simp
  note val = parse_value [OF assms(2) min assms(6)]
  have "parse c True (rest b) = (Inr (v, n), c')"
  proof (cases e)
    case True
    with assms(6,7) show ?thesis by metis
  next
    case False
    with assms(6) value_final [OF assms(2) min, of "(v, n)" c' True ys] show ?thesis unfolding xs by simp
  qed
  moreover have "good c'" using parse_good [OF assms(2) min, of e] assms(6) by simp
  ultimately show ?thesis
    using assms(3,8) val min xs len consume_law [OF assms(1), of "nz_get n"]
    by (auto simp: read_result_def head_value_def driver_accept_def)
qed

lemma reject_window:
  assumes "ok b" "good c" "k \<le> length (bi_unread BI b)" "w = take k (bi_unread BI b)" "min_units_per_value C \<le> k"
    and "parse c e w = (Inl (Invalid err n), c')" "e \<longrightarrow> w = rest b"
    and "driver_reject BI f err n k b = (q, b')"
  shows "result f c (rest b) q c' b'"
proof -
  have len: "length w = k" using assms(3,4) by simp
  obtain ys where xs: "rest b = w @ ys" using window_of_rest [OF assms(1,3)] assms(4) by metis
  have min: "min_units_per_value C \<le> length w" using assms(5) len by simp
  have within: "n = Some m \<Longrightarrow> nz_get m \<le> k" for m using invalid_within [OF assms(2) min] assms(6) len by blast
  have "parse c True (rest b) = (Inl (Invalid err n), c')"
  proof (cases e)
    case True
    with assms(6,7) show ?thesis by metis
  next
    case False
    with assms(6) invalid_final [OF assms(2) min, of err n c' True ys] show ?thesis unfolding xs by simp
  qed
  moreover have "good c'" using parse_good [OF assms(2) min, of e] assms(6) by simp
  ultimately show ?thesis
    using assms(1,3,8) within min xs len consume_law [OF assms(1)]
    by (auto simp: read_result_def head_value_def driver_reject_def split: option.splits if_splits)
qed

lemma retry_result:
  assumes "ok b" "good c" "bi_unread BI b = rest b" "min_units_per_value C \<le> length (rest b)"
    and "retry_decode_at_eof C BI f c b = (q, c', b')"
  shows "result f c (rest b) q c' b'"
proof -
  let ?xs = "rest b"
  obtain r c1 where p: "parse c True ?xs = (r, c1)" by (metis surj_pair)
  have dec: "decode_eof C c ?xs 0 = (sum_res r, c1)"
    using decode_eof_law [OF assms(2), of ?xs 0] assms(4) p by simp
  have good: "good c1" using parse_good [OF assms(2,4), of True] p by simp
  note def = retry_decode_at_eof_def Let_def
  show ?thesis
  proof (cases r)
    case (Inr vn)
    with dec assms(3,5) p show ?thesis
      by (auto simp: def split: prod.splits intro!: accept_window [OF assms(1,2) _ _ assms(4)])
  next
    case (Inl f)
    show ?thesis
    proof (cases f)
      case (Invalid e n)
      with dec assms(3,5) p Inl show ?thesis
        by (auto simp: def split: prod.splits intro!: reject_window [OF assms(1,2) _ _ assms(4)])
    next
      case (Incomplete src req)
      from parse_incomplete [OF assms(2,4) p [unfolded Inl Incomplete]] consume_law [OF assms(1), of "length ?xs"]
        Incomplete dec assms(3,4,5) p Inl good
      show ?thesis
        by (cases src) (auto simp: def handle_eof_incomplete_def read_result_def head_value_def)
    qed
  qed
qed

text \<open>The window: at least the minimum, or the stream is too short for a value.\<close>

lemma prepare_window:
  assumes "ok b" "min_units_per_value C \<le> bi_capacity BI b \<or> min_units_per_value C \<le> length (bi_unread BI b)"
    and "prepare_buffered_window BI (min_units_per_value C) m b = (w, b')"
  shows "w \<noteq> Panic \<and> ok b' \<and>
    (\<forall>k t. w = Ok (k, t) \<longrightarrow> \<not> t \<and> rest b' = rest b \<and> length (bi_unread BI b) \<le> length (bi_unread BI b') \<and>
      min_units_per_value C \<le> length (bi_unread BI b') \<and> k = min (length (bi_unread BI b')) m) \<and>
    (\<forall>e. w = Err e \<longrightarrow> fault e \<and> rest b' = rest b \<or>
      e = IoMessage UnexpectedEof ''failed to decode complete value'' \<and>
      length (rest b) < min_units_per_value C \<and> rest b' = [])"
proof (cases "length (bi_unread BI b) < min_units_per_value C")
  case False
  with assms(1,3) show ?thesis by (auto simp: prepare_buffered_window_def)
next
  case True
  obtain r b1 where f: "bi_fill_until BI b (min_units_per_value C) = (r, b1)" by (metis surj_pair)
  have cap: "min_units_per_value C \<le> bi_capacity BI b" using assms(2) True by simp
  note law = fill_until_law [OF assms(1) cap f]
  show ?thesis
  proof (cases r)
    case (Ok filled)
    with assms(3) True f law consume_law [of b1 "length (bi_unread BI b1)"] show ?thesis
      by (cases filled) (auto simp: prepare_buffered_window_def Let_def)
  next
    case (Err e)
    with assms(3) True f law show ?thesis by (auto simp: prepare_buffered_window_def)
  next
    case Panic
    with law show ?thesis by simp
  qed
qed

text \<open>Asking for more: the stream gave more units than the window held, or it has ended.\<close>

lemma refill_window:
  assumes "ok b" "k = min (length (bi_unread BI b)) (max (max_decode_units_per_value C) (min_units_per_value C))"
    and "k < nz_get req" "nz_get req \<le> max_decode_units_per_value C"
    and "refill_after_incomplete BI E req k b = (q, b')"
  shows "q \<noteq> Panic \<and> ok b' \<and> rest b' = rest b \<and>
    (q = Ok True \<longrightarrow> length (bi_unread BI b) < length (bi_unread BI b')) \<and>
    (q = Ok False \<longrightarrow> bi_unread BI b' = rest b) \<and> (\<forall>e. q = Err e \<longrightarrow> fault e)"
proof -
  have all: "k = length (bi_unread BI b)" using assms(2-4) by (simp add: min_def max_def split: if_splits)
  obtain r b1 where r: "bi_try_reserve_capacity BI b (nz_get req) = (r, b1)" by (metis surj_pair)
  note law1 = reserve_law [OF assms(1) r]
  show ?thesis
  proof (cases r)
    case (Ok u)
    then have cap: "nz_get req \<le> bi_capacity BI b1" "ok b1" using law1 by auto
    obtain r2 b2 where f: "bi_fill_until BI b1 (nz_get req) = (r2, b2)" by (metis surj_pair)
    from fill_until_law [OF cap(2,1) f] assms(3,5) all law1 r f Ok show ?thesis
      by (auto simp: refill_after_incomplete_def)
  qed (use assms(3,5) law1 r in \<open>auto simp: refill_after_incomplete_def\<close>)
qed

lemma turn_result:
  assumes "ok b" "good c"
    and "min_units_per_value C \<le> bi_capacity BI b \<or> min_units_per_value C \<le> length (bi_unread BI b)"
    and "read_one_turn C BI E f c b = (r, c', b')"
  shows "case r of
      Ok None \<Rightarrow> c' = c \<and> ok b' \<and> rest b' = rest b \<and> length (bi_unread BI b) < length (bi_unread BI b') \<and>
        min_units_per_value C \<le> length (bi_unread BI b')
    | Ok (Some v) \<Rightarrow> result f c (rest b) (Ok v) c' b'
    | Err e \<Rightarrow> result f c (rest b) (Err e :: (io_error, 'v) res) c' b'
    | Panic \<Rightarrow> False"
proof -
  let ?m = "max (max_decode_units_per_value C) (min_units_per_value C)"
  note def = read_one_turn_def Let_def
  obtain w b1 where w: "prepare_buffered_window BI (min_units_per_value C) ?m b = (w, b1)" by (metis surj_pair)
  note prep = prepare_window [OF assms(1,3) w]
  show ?thesis
  proof (cases w)
    case Panic
    with prep show ?thesis by simp
  next
    case (Err e)
    with prep assms(1,2,4) w show ?thesis
      by (auto simp: def read_result_def head_value_def)
  next
    case (Ok kt)
    define k where "k = min (length (bi_unread BI b1)) ?m"
    define win where "win = take k (bi_unread BI b1)"
    from Ok prep have b1: "kt = (k, False)" "ok b1" "rest b1 = rest b"
      "length (bi_unread BI b) \<le> length (bi_unread BI b1)" "min_units_per_value C \<le> length (bi_unread BI b1)"
      by (cases kt; auto simp: k_def)+
    have win: "k \<le> length (bi_unread BI b1)" "min_units_per_value C \<le> k" "length win = k"
      using b1(5) by (simp_all add: k_def win_def)
    obtain x c1 where p: "parse c False win = (x, c1)" by (metis surj_pair)
    have dec: "decode_window C c win False = (sum_res x, c1)"
      using decode_law [OF assms(2), of win 0] win(2,3) p by (simp add: decode_window_def)
    note so_far = w Ok b1(1,5) win(2,3) dec win_def [symmetric]
    have finish: ?thesis if "read_one_turn C BI E f c b = (map_ok Some q, c2, b2)"
      "result f c (rest b) q c2 b2" for q c2 b2
      using read_result_cases [OF that(2)] that(1) assms(4) by (cases q) auto
    show ?thesis
    proof (cases x)
      case (Inr vn)
      obtain v n where vn: "vn = (v, n)" by (cases vn)
      obtain q b2 where a: "driver_accept BI v n k b1 = (q, b2)" by (metis surj_pair)
      from accept_window [OF b1(2) assms(2) win(1) win_def win(2) p [unfolded Inr vn] _ a, of f] b1(3)
      have "result f c (rest b) q c1 b2" by simp
      moreover have "read_one_turn C BI E f c b = (map_ok Some q, c1, b2)"
        using so_far Inr vn a by (simp add: def)
      ultimately show ?thesis using finish by simp
    next
      case (Inl fail)
      show ?thesis
      proof (cases fail)
        case (Invalid e n)
        obtain q :: "(io_error, 'v) res" and b2 where a: "driver_reject BI f e n k b1 = (q, b2)" by (metis surj_pair)
        from reject_window [OF b1(2) assms(2) win(1) win_def win(2) p [unfolded Inl Invalid] _ a] b1(3)
        have "result f c (rest b) q c1 b2" by simp
        moreover have "read_one_turn C BI E f c b = (map_ok Some q, c1, b2)"
          using so_far Inl Invalid a by (simp add: def)
        ultimately show ?thesis using finish by simp
      next
        case (Incomplete src req)
        have min: "min_units_per_value C \<le> length win" using win by simp
        note pi = p [unfolded Inl Incomplete]
        note inc = parse_incomplete [OF assms(2) min pi]
        have c1: "c1 = c" using incomplete_keeps [OF assms(2) min pi] .
        obtain q b2 where r: "refill_after_incomplete BI E req k b1 = (q, b2)" by (metis surj_pair)
        have "k < nz_get req" "nz_get req \<le> max_decode_units_per_value C" using inc win(3) by simp_all
        note fill = refill_window [OF b1(2) k_def this r]
        show ?thesis
        proof (cases q)
          case Okq: (Ok filled)
          show ?thesis
          proof (cases filled)
            case True
            with so_far assms(4) Inl Incomplete inc r Okq fill b1(3-5) c1 show ?thesis by (auto simp: def)
          next
            case False
            obtain q3 :: "(io_error, 'v) res" and c3 b3 where t: "retry_decode_at_eof C BI f c b2 = (q3, c3, b3)"
              by (metis prod_cases3)
            have "bi_unread BI b2 = rest b2" "min_units_per_value C \<le> length (rest b2)" "ok b2" "rest b2 = rest b"
              using fill Okq False b1(2,3,5) unread_prefix [OF b1(2)] by auto
            with retry_result [OF _ assms(2) _ _ t] have "result f c (rest b) q3 c3 b3" by simp
            moreover have "read_one_turn C BI E f c b = (map_ok Some q3, c3, b3)"
              using so_far Inl Incomplete inc r Okq False t c1 by (simp add: def)
            ultimately show ?thesis using finish by simp
          qed
        qed (use so_far assms(4) Inl Incomplete inc r fill b1(3) c1 assms(2) in \<open>auto simp: def read_result_def\<close>)
      qed
    qed
  qed
qed

text \<open>Each turn that goes on has unread more of the stream, so the loop ends.\<close>

lemma loop_result:
  assumes "ok b" "good c"
    and "min_units_per_value C \<le> bi_capacity BI b \<or> min_units_per_value C \<le> length (bi_unread BI b)"
  shows "\<exists>r c' b'. read_one_loop C BI E f c b = Some (r, c', b') \<and> result f c (rest b) r c' b'"
  using assms
proof (induction "length (rest b) - length (bi_unread BI b)" arbitrary: b rule: less_induct)
  case less
  obtain r c1 b1 where t: "read_one_turn C BI E f c b = (r, c1, b1)" by (metis prod_cases3)
  note turn = turn_result [OF less.prems t]
  note loop = read_one_loop.simps [of C BI E f c b]
  show ?case
  proof (cases r)
    case (Ok v)
    show ?thesis
    proof (cases v)
      case None
      with turn Ok have b1: "ok b1" "rest b1 = rest b" "c1 = c"
        "length (bi_unread BI b) < length (bi_unread BI b1)" "min_units_per_value C \<le> length (bi_unread BI b1)"
        by simp_all
      moreover have "length (bi_unread BI b1) \<le> length (rest b1)"
        using unread_prefix [OF b1(1)] by auto
      ultimately have "length (rest b1) - length (bi_unread BI b1) < length (rest b) - length (bi_unread BI b)"
        by simp
      from less.hyps [OF this b1(1) less.prems(2)] b1 loop t Ok None show ?thesis by simp
    qed (use turn loop t Ok in simp)
  qed (use turn loop t in simp_all)
qed

lemma read_one_result:
  assumes "ok b" "good c"
  shows "\<exists>r c' b'. read_one C BI E f c b = Some (r, c', b') \<and> result f c (rest b) r c' b'"
proof -
  obtain r b1 where r: "bi_try_reserve_capacity BI b (min_units_per_value C) = (r, b1)" by (metis surj_pair)
  note law = reserve_law [OF assms(1) r]
  show ?thesis
  proof (cases r)
    case (Ok u)
    with law have "ok b1" "min_units_per_value C \<le> bi_capacity BI b1" "rest b1 = rest b" by auto
    with loop_result [of b1 c f] assms(2) r Ok show ?thesis by (simp add: read_one_def)
  qed (use law assms(2) r in \<open>auto simp: read_one_def read_result_def\<close>)
qed

end

end
