(* ===== verification/DecodeInput.thy ===== *)
theory DecodeInput
  imports DecodeDriver
begin

text \<open>
  \<open>TranscodeDecodeInput\<close> (\<open>src/transcode/io/transcode_decode_input.rs\<close>): a buffered input with
  the mark that a call at end of input stopped for lack of output and is to be resumed. Decoders
  and error mappers are arguments of the calls. The operations on the raw units pass through to the
  buffered input and keep the mark true to the stream.
\<close>

record 'b decode_input =
  di_input :: 'b
  di_eof_retry_pending :: bool

definition decode_input_new :: "'b \<Rightarrow> 'b decode_input" where
  "decode_input_new b = \<lparr>di_input = b, di_eof_retry_pending = False\<rparr>"

section \<open>Buffer operations\<close>

abbreviation di_unread :: "('b, 'u) buffered_input \<Rightarrow> 'b decode_input \<Rightarrow> 'u list" where
  "di_unread BI d \<equiv> bi_unread BI (di_input d)"

definition di_unread_len :: "('b, 'u) buffered_input \<Rightarrow> 'b decode_input \<Rightarrow> nat" where
  "di_unread_len BI d = length (di_unread BI d)"

definition di_fill_until ::
  "('b, 'u) buffered_input \<Rightarrow> io_env \<Rightarrow> nat \<Rightarrow> 'b decode_input \<Rightarrow> (io_error, bool) res \<times> 'b decode_input" where
  "di_fill_until BI E count d =
    and_then
      (if count > bi_capacity BI (di_input d) then
         (case bi_try_reserve_capacity BI (di_input d) count of (r, b) \<Rightarrow>
            (map_err (env_allocation_error E) r, d\<lparr>di_input := b\<rparr>))
       else (Ok (), d)) (\<lambda>_ d.
    let previous_unread = di_unread_len BI d in
    case bi_fill_until BI (di_input d) count of (r, b) \<Rightarrow>
      let d = d\<lparr>di_input := b\<rparr> in
      if di_unread_len BI d > previous_unread then (r, d\<lparr>di_eof_retry_pending := False\<rparr>) else (r, d))"

definition di_fill_more ::
  "('b, 'u) buffered_input \<Rightarrow> 'b decode_input \<Rightarrow> (io_error, bool) res \<times> 'b decode_input" where
  "di_fill_more BI d =
    (case bi_fill_more BI (di_input d) of (r, b) \<Rightarrow>
      let d = d\<lparr>di_input := b\<rparr> in
      if r = Ok True then (r, d\<lparr>di_eof_retry_pending := False\<rparr>) else (r, d))"

definition di_consume ::
  "('b, 'u) buffered_input \<Rightarrow> nat \<Rightarrow> 'b decode_input \<Rightarrow> (io_error, unit) res \<times> 'b decode_input" where
  "di_consume BI count d =
    (if \<not> count \<le> di_unread_len BI d then (Panic, d)
     else (Ok (), d\<lparr>di_input := bi_consume BI (di_input d) count\<rparr>))"

definition di_read_unchecked ::
  "('b, 'u) buffered_input \<Rightarrow> 'u list \<Rightarrow> nat \<Rightarrow> nat \<Rightarrow> 'b decode_input \<Rightarrow>
   (io_error, nat) res \<times> 'b decode_input \<times> 'u list" where
  "di_read_unchecked BI out output_index count d =
    (if \<not> output_index + count \<le> length out then (Panic, d, out)
     else if count = 0 then (Ok 0, d, out)
     else
       let d = d\<lparr>di_eof_retry_pending := False\<rparr> in
       case bi_read_unchecked BI (di_input d) out output_index count of (r, b, out') \<Rightarrow>
         (r, d\<lparr>di_input := b\<rparr>, write_back out out'))"

definition di_seek ::
  "('b, 'u) buffered_input \<Rightarrow> seek_from \<Rightarrow> 'b decode_input \<Rightarrow> (io_error, u64) res \<times> 'b decode_input" where
  "di_seek BI position d =
    (case bi_seek_to BI (di_input d) position of (r, b) \<Rightarrow>
      and_then (r, d\<lparr>di_input := b\<rparr>) (\<lambda>position d. (Ok position, d\<lparr>di_eof_retry_pending := False\<rparr>)))"

section \<open>Steps of a streaming decoder\<close>

text \<open>A call that gets \<open>&mut output[..output_end]\<close>.\<close>

definition prefix_call :: "'o list \<Rightarrow> nat \<Rightarrow> 'r \<times> 's \<times> 'o list \<Rightarrow> 'r \<times> 's \<times> 'o list" where
  "prefix_call out stop call =
    (case call of (r, s, out') \<Rightarrow> (r, s, write_back (take stop out) out' @ drop stop out))"

definition di_transcode_step ::
  "('s, 'u, 'o, 'e) transcoder \<Rightarrow> ('b, 'u) buffered_input \<Rightarrow> io_env \<Rightarrow> ('e \<Rightarrow> io_error) \<Rightarrow>
   's \<Rightarrow> 'b decode_input \<Rightarrow> 'o list \<Rightarrow> nat \<Rightarrow> nat \<Rightarrow>
   (io_error, transcode_progress option) res \<times> 's \<times> 'b decode_input \<times> 'o list" where
  "di_transcode_step T BI E map_error s d out output_index count =
    and_then (env_range_end E (length out) output_index count
        ''decoded output range exceeds destination buffer'', s, d, out) (\<lambda>output_end (s, d, out).
    if count = 0 then (Ok (Some (progress_complete 0 0)), s, d, out)
    else
    and_then (if di_unread_len BI d = 0
        then (case di_fill_more BI d of (r, d) \<Rightarrow> (r, s, d, out)) else (Ok True, s, d, out))
      (\<lambda>more (s, d, out).
    if \<not> more then (Ok None, s, d, out)
    else
      let available_input = di_unread_len BI d in
      case prefix_call out output_end
          (tr_transcode T s (di_unread BI d) 0 (take output_end out) output_index) of (r, s, out) \<Rightarrow>
      and_then (bind_res (map_err map_error r) (\<lambda>p.
          validate_decode_progress p 0 available_input output_index count), s, d, out)
        (\<lambda>p (s, d, out).
      case di_consume BI (tp_read p) d of (r, d) \<Rightarrow>
        and_then (r, s, d, out) (\<lambda>_ (s, d, out). (Ok (Some p), s, d, out)))))"

definition di_transcode_eof_step ::
  "('s, 'u, 'o, 'e) transcoder \<Rightarrow> ('b, 'u) buffered_input \<Rightarrow> io_env \<Rightarrow> ('e \<Rightarrow> io_error) \<Rightarrow>
   's \<Rightarrow> 'b decode_input \<Rightarrow> 'o list \<Rightarrow> nat \<Rightarrow> nat \<Rightarrow>
   (io_error, transcode_progress) res \<times> 's \<times> 'b decode_input \<times> 'o list" where
  "di_transcode_eof_step T BI E map_error s d out output_index count =
    and_then (env_range_end E (length out) output_index count
        ''decoded EOF output range exceeds destination buffer'', s, d, out) (\<lambda>output_end (s, d, out).
    if count = 0 then (Ok (progress_complete 0 0), s, d, out)
    else
      let available_input = di_unread_len BI d in
      case prefix_call out output_end
          (tr_transcode_eof T s (di_unread BI d) 0 (take output_end out) output_index) of (r, s, out) \<Rightarrow>
      and_then (bind_res (map_err map_error r) (\<lambda>p.
          validate_eof_decode_progress p 0 available_input output_index count), s, d, out)
        (\<lambda>p (s, d, out).
      case di_consume BI (tp_read p) d of (r, d) \<Rightarrow>
        and_then (r, s, d, out) (\<lambda>_ (s, d, out).
          (Ok p, s, d\<lparr>di_eof_retry_pending := is_need_output p\<rparr>, out))))"

section \<open>The batch call\<close>

text \<open>One turn of the loop of \<open>transcode\<close>, over the output slice up to the end of its range: the
  count the call returns with, or the values written so far.\<close>

datatype batch_flow = BatchMore nat | BatchDone nat

definition di_finish_batch ::
  "('s, 'u, 'o, 'e) transcoder \<Rightarrow> ('b, 'u) buffered_input \<Rightarrow> io_env \<Rightarrow> ('e \<Rightarrow> io_error) \<Rightarrow>
   nat \<Rightarrow> nat \<Rightarrow> nat \<Rightarrow> 's \<Rightarrow> 'b decode_input \<Rightarrow> 'o list \<Rightarrow>
   (io_error, batch_flow) res \<times> 's \<times> 'b decode_input \<times> 'o list" where
  "di_finish_batch T BI E map_error output_index count written_total s d out =
    (let remaining_output = count - written_total in
     case di_transcode_eof_step T BI E map_error s d out (output_index + written_total) remaining_output of
       (r, s, d, out) \<Rightarrow> (map_ok (\<lambda>p. BatchDone (written_total + tp_written p)) r, s, d, out))"

text \<open>What follows a call of the decoder, by its status; and the call on the unread window.\<close>

definition di_batch_status ::
  "('s, 'u, 'o, 'e) transcoder \<Rightarrow> ('b, 'u) buffered_input \<Rightarrow> io_env \<Rightarrow> ('e \<Rightarrow> io_error) \<Rightarrow>
   nat \<Rightarrow> nat \<Rightarrow> nat \<Rightarrow> transcode_status \<Rightarrow> 's \<Rightarrow> 'b decode_input \<Rightarrow> 'o list \<Rightarrow>
   (io_error, batch_flow) res \<times> 's \<times> 'b decode_input \<times> 'o list" where
  "di_batch_status T BI E map_error output_index count written_total status s d out =
    (if written_total = count then (Ok (BatchDone written_total), s, d, out)
     else case status of
       Complete \<Rightarrow> (Ok (BatchMore written_total), s, d, out)
     | NeedOutput _ \<Rightarrow> (Ok (BatchDone written_total), s, d, out)
     | NeedInput required \<Rightarrow>
         (case di_fill_until BI E (nz_get required) d of (r, d) \<Rightarrow>
          and_then (r, s, d, out) (\<lambda>filled (s, d, out).
            if filled then (Ok (BatchMore written_total), s, d, out)
            else di_finish_batch T BI E map_error output_index count written_total s d out)))"

definition di_batch_window ::
  "('s, 'u, 'o, 'e) transcoder \<Rightarrow> ('b, 'u) buffered_input \<Rightarrow> io_env \<Rightarrow> ('e \<Rightarrow> io_error) \<Rightarrow>
   nat \<Rightarrow> nat \<Rightarrow> nat \<Rightarrow> 's \<Rightarrow> 'b decode_input \<Rightarrow> 'o list \<Rightarrow>
   (io_error, batch_flow) res \<times> 's \<times> 'b decode_input \<times> 'o list" where
  "di_batch_window T BI E map_error output_index count written_total s d out =
    (let available_input = di_unread_len BI d;
         remaining_output = count - written_total in
     case slice_call out (tr_transcode T s (di_unread BI d) 0 out (output_index + written_total)) of
       (r, s, out) \<Rightarrow>
     and_then (bind_res (map_err map_error r) (\<lambda>p.
         validate_decode_progress p 0 available_input (output_index + written_total) remaining_output),
         s, d, out) (\<lambda>p (s, d, out).
     case di_consume BI (tp_read p) d of (r, d) \<Rightarrow>
     and_then (r, s, d, out) (\<lambda>_ (s, d, out).
       di_batch_status T BI E map_error output_index count (written_total + tp_written p) (tp_status p) s d out)))"

definition di_batch_turn ::
  "('s, 'u, 'o, 'e) transcoder \<Rightarrow> ('b, 'u) buffered_input \<Rightarrow> io_env \<Rightarrow> ('e \<Rightarrow> io_error) \<Rightarrow>
   nat \<Rightarrow> nat \<Rightarrow> nat \<Rightarrow> 's \<Rightarrow> 'b decode_input \<Rightarrow> 'o list \<Rightarrow>
   (io_error, batch_flow) res \<times> 's \<times> 'b decode_input \<times> 'o list" where
  "di_batch_turn T BI E map_error output_index count written_total s d out =
    (case (if di_unread_len BI d = 0 then di_fill_more BI d else (Ok True, d)) of (r, d) \<Rightarrow>
     and_then (r, s, d, out) (\<lambda>more (s, d, out).
       if more then di_batch_window T BI E map_error output_index count written_total s d out
       else di_finish_batch T BI E map_error output_index count written_total s d out))"

partial_function (option) di_batch_loop ::
  "('s, 'u, 'o, 'e) transcoder \<Rightarrow> ('b, 'u) buffered_input \<Rightarrow> io_env \<Rightarrow> ('e \<Rightarrow> io_error) \<Rightarrow>
   nat \<Rightarrow> nat \<Rightarrow> nat \<Rightarrow> 's \<Rightarrow> 'b decode_input \<Rightarrow> 'o list \<Rightarrow>
   ((io_error, nat) res \<times> 's \<times> 'b decode_input \<times> 'o list) option" where
  "di_batch_loop T BI E map_error output_index count written_total s d out =
    (case di_batch_turn T BI E map_error output_index count written_total s d out of
       (Ok (BatchMore w), s, d, out) \<Rightarrow> di_batch_loop T BI E map_error output_index count w s d out
     | (Ok (BatchDone w), s, d, out) \<Rightarrow> Some (Ok w, s, d, out)
     | (Err e, s, d, out) \<Rightarrow> Some (Err e, s, d, out)
     | (Panic, s, d, out) \<Rightarrow> Some (Panic, s, d, out))"

declare di_batch_loop.simps [code]

definition di_transcode ::
  "('s, 'u, 'o, 'e) transcoder \<Rightarrow> ('b, 'u) buffered_input \<Rightarrow> io_env \<Rightarrow> ('e \<Rightarrow> io_error) \<Rightarrow>
   's \<Rightarrow> 'b decode_input \<Rightarrow> 'o list \<Rightarrow> nat \<Rightarrow> nat \<Rightarrow>
   ((io_error, nat) res \<times> 's \<times> 'b decode_input \<times> 'o list) option" where
  "di_transcode T BI E map_error s d out output_index count =
    (case env_range_end E (length out) output_index count
         ''decoded output range exceeds destination buffer'' of
       Err e \<Rightarrow> Some (Err e, s, d, out)
     | Panic \<Rightarrow> Some (Panic, s, d, out)
     | Ok output_end \<Rightarrow>
         if count = 0 then Some (Ok 0, s, d, out)
         else if di_eof_retry_pending d then
           (case di_transcode_eof_step T BI E map_error s d out output_index count of
              (r, s, d, out) \<Rightarrow> Some (map_ok tp_written r, s, d, out))
         else
           (case di_batch_loop T BI E map_error output_index count 0 s d (take output_end out) of
              None \<Rightarrow> None
            | Some (r, s, d, out') \<Rightarrow> Some (r, s, d, out' @ drop output_end out)))"

section \<open>Lifecycle calls\<close>

definition di_reset ::
  "('s, 'u, 'o, 'e) transcoder \<Rightarrow> io_env \<Rightarrow> ('e \<Rightarrow> io_error) \<Rightarrow> 's \<Rightarrow> 'o list \<Rightarrow> nat \<Rightarrow> nat \<Rightarrow>
   (io_error, nat) res \<times> 's \<times> 'o list" where
  "di_reset T E map_error s out output_index count =
    and_then (map_err capacity_error_to_invalid_data (max_reset_output_len T s), s, out) (\<lambda>required (s, out).
    and_then (env_range_end E (length out) output_index count
        ''reset output range exceeds destination buffer'', s, out) (\<lambda>output_end (s, out).
    if count < required
    then (Err (IoMessage InvalidData ''insufficient output for decoder reset bound''), s, out)
    else
      case prefix_call out output_end (tr_reset T s (take output_end out) output_index) of (r, s, out) \<Rightarrow>
      and_then (map_err map_error r, s, out) (\<lambda>written (s, out).
        if \<not> written \<le> required then (Panic, s, out) else (Ok written, s, out))))"

definition di_finish ::
  "('s, 'u, 'o, 'e) transcoder \<Rightarrow> io_env \<Rightarrow> ('e \<Rightarrow> io_error) \<Rightarrow> 's \<Rightarrow> 'o list \<Rightarrow> nat \<Rightarrow> nat \<Rightarrow>
   (io_error, nat) res \<times> 's \<times> 'o list" where
  "di_finish T E map_error s out output_index count =
    and_then (map_err capacity_error_to_invalid_data (max_finish_output_len T s), s, out) (\<lambda>required (s, out).
    and_then (env_range_end E (length out) output_index count
        ''finish output range exceeds destination buffer'', s, out) (\<lambda>output_end (s, out).
    if count < required
    then (Err (IoMessage InvalidData ''insufficient output for decoder finish bound''), s, out)
    else
      case prefix_call out output_end (tr_finish T s (take output_end out) output_index) of (r, s, out) \<Rightarrow>
      and_then (map_err map_error r, s, out) (\<lambda>written (s, out).
        if \<not> written \<le> required then (Panic, s, out) else (Ok written, s, out))))"

end
