(* ===== verification/DecodeReading.thy ===== *)
theory DecodeReading
  imports DecodeInput
begin

text \<open>
  Reading one complete lifecycle from a \<open>TranscodeDecodeInput\<close>: \<open>read_decoded_with\<close>,
  \<open>read_decoded_lifecycle_with\<close> and \<open>read_decoded_lifecycle_with_scratch\<close> of
  \<open>src/transcode/io/transcode_decode_input.rs\<close>. The specification reads the first value of the
  stream between the reset values and the finish values of the codec.
\<close>

section \<open>The operations\<close>

text \<open>The part before the value is read: the checks, then the codec's reset.\<close>

definition di_read_prepare ::
  "('c, 'v, 'u, 'de, 'ee) codec \<Rightarrow> ('de \<Rightarrow> io_error) \<Rightarrow> 'c \<Rightarrow> 'b decode_input \<Rightarrow> 'v list \<Rightarrow> nat \<Rightarrow>
   (io_error, nat) res \<times> 'c \<times> 'b decode_input \<times> 'v list" where
  "di_read_prepare C map_error c d reset_output finish_len =
    and_then (assert_unit_bounds C, c, d, reset_output) (\<lambda>_ (c, d, reset_output).
    if length reset_output < max_decode_reset_values C
    then (Err (IoMessage InvalidInput ''decode reset output is shorter than the codec reset bound''),
          c, d, reset_output)
    else if finish_len < max_decode_finish_values C
    then (Err (IoMessage InvalidInput ''decode finish output is shorter than the codec finish bound''),
          c, d, reset_output)
    else
      let d = d\<lparr>di_eof_retry_pending := False\<rparr> in
      case call_decode_reset C c reset_output 0 of (r, c, reset_output) \<Rightarrow>
      and_then (map_err (\<lambda>e. contextual_error map_error (DomainReset e)) r, c, d, reset_output)
        (\<lambda>reset_written (c, d, reset_output).
      if \<not> reset_written \<le> max_decode_reset_values C then (Panic, c, d, reset_output)
      else (Ok reset_written, c, d, reset_output)))"

text \<open>The part behind the value: the codec's finish.\<close>

definition di_read_finish ::
  "('c, 'v, 'u, 'de, 'ee) codec \<Rightarrow> ('de \<Rightarrow> io_error) \<Rightarrow> 'v \<Rightarrow> nat \<Rightarrow> 'c \<Rightarrow> 'v list \<Rightarrow>
   (io_error, 'v decode_lifecycle_progress) res \<times> 'c \<times> 'v list" where
  "di_read_finish C map_error v reset_written c finish_output =
    (case call_decode_finish C c finish_output 0 of (r, c, finish_output) \<Rightarrow>
      and_then (map_err (\<lambda>e. contextual_error map_error (DomainFinish e)) r, c, finish_output)
        (\<lambda>finish_written (c, finish_output).
      if \<not> finish_written \<le> max_decode_finish_values C then (Panic, c, finish_output)
      else (Ok \<lparr>dlp_value = v, dlp_reset_written = reset_written, dlp_finish_written = finish_written\<rparr>,
            c, finish_output)))"

definition read_decoded_lifecycle_with_scratch ::
  "('c, 'v, 'u, 'de, 'ee) codec \<Rightarrow> ('b, 'u) buffered_input \<Rightarrow> io_env \<Rightarrow> ('de \<Rightarrow> io_error) \<Rightarrow>
   'c \<Rightarrow> 'b decode_input \<Rightarrow> 'v list \<Rightarrow> 'v list \<Rightarrow>
   ((io_error, 'v decode_lifecycle_progress) res \<times> 'c \<times> 'b decode_input \<times> 'v list \<times> 'v list) option" where
  "read_decoded_lifecycle_with_scratch C BI E map_error c d reset_output finish_output =
    (case di_read_prepare C map_error c d reset_output (length finish_output) of
       (Err e, c, d, reset_output) \<Rightarrow> Some (Err e, c, d, reset_output, finish_output)
     | (Panic, c, d, reset_output) \<Rightarrow> Some (Panic, c, d, reset_output, finish_output)
     | (Ok reset_written, c, d, reset_output) \<Rightarrow>
         (case read_one C BI E (\<lambda>e. contextual_error map_error (DomainMain e 0 None)) c (di_input d) of
            None \<Rightarrow> None
          | Some (r, c, b) \<Rightarrow>
              let d = d\<lparr>di_input := b\<rparr> in
              (case r of
                 Ok v \<Rightarrow>
                   (case di_read_finish C map_error v reset_written c finish_output of
                      (r, c, finish_output) \<Rightarrow> Some (r, c, d, reset_output, finish_output))
               | Err e \<Rightarrow> Some (Err e, c, d, reset_output, finish_output)
               | Panic \<Rightarrow> Some (Panic, c, d, reset_output, finish_output))))"

definition read_decoded_with ::
  "('c, 'v, 'u, 'de, 'ee) codec \<Rightarrow> ('b, 'u) buffered_input \<Rightarrow> io_env \<Rightarrow> ('de \<Rightarrow> io_error) \<Rightarrow>
   'c \<Rightarrow> 'b decode_input \<Rightarrow> ((io_error, 'v) res \<times> 'c \<times> 'b decode_input) option" where
  "read_decoded_with C BI E map_error c d =
    (case ensure_no_decode_lifecycle_output C of
       Err e \<Rightarrow> Some (Err (IoFailure Unsupported e), c, d)
     | Panic \<Rightarrow> Some (Panic, c, d)
     | Ok _ \<Rightarrow>
         (case read_decoded_lifecycle_with_scratch C BI E map_error c d [] [] of
            None \<Rightarrow> None
          | Some (r, c, d, _, _) \<Rightarrow>
              Some (bind_res r (\<lambda>p.
                if dlp_reset_written p \<noteq> 0 \<or> dlp_finish_written p \<noteq> 0 then Panic
                else Ok (dlp_value p)), c, d)))"

definition read_decoded_lifecycle_with ::
  "('c, 'v, 'u, 'de, 'ee) codec \<Rightarrow> ('b, 'u) buffered_input \<Rightarrow> io_env \<Rightarrow> ('de \<Rightarrow> io_error) \<Rightarrow> 'v \<Rightarrow>
   'c \<Rightarrow> 'b decode_input \<Rightarrow> ((io_error, 'v decode_lifecycle_output) res \<times> 'c \<times> 'b decode_input) option" where
  "read_decoded_lifecycle_with C BI E map_error default_value c d =
    (case bind_res (assert_unit_bounds C) (\<lambda>_.
        bind_res (map_err (env_allocation_error E) (env_reserve_vec E (max_decode_reset_values C))) (\<lambda>_.
          map_err (env_allocation_error E) (env_reserve_vec E (max_decode_finish_values C)))) of
       Err e \<Rightarrow> Some (Err e, c, d)
     | Panic \<Rightarrow> Some (Panic, c, d)
     | Ok _ \<Rightarrow>
         (case read_decoded_lifecycle_with_scratch C BI E map_error c d
             (replicate (max_decode_reset_values C) default_value)
             (replicate (max_decode_finish_values C) default_value) of
            None \<Rightarrow> None
          | Some (r, c, d, reset_output, finish_output) \<Rightarrow>
              Some (map_ok (\<lambda>p. \<lparr>dlo_reset = take (dlp_reset_written p) reset_output,
                dlo_value = dlp_value p, dlo_finish = take (dlp_finish_written p) finish_output\<rparr>) r, c, d)))"

section \<open>The specification\<close>

text \<open>The reset values, the first value of the stream and the finish values, or the first error;
  with the number of units taken.\<close>

definition head_lifecycle ::
  "('c, 'v, 'u, 'de, 'ee) codec \<Rightarrow> ('c, 'v, 'de) lifecycle_values \<Rightarrow> ('c, 'v, 'u, 'de) parser \<Rightarrow>
   ('c, 'v, 'de) lifecycle_values \<Rightarrow> ('de \<Rightarrow> io_error) \<Rightarrow> 'c \<Rightarrow> 'u list \<Rightarrow>
   (io_error, 'v decode_lifecycle_output) res \<times> nat \<times> 'c" where
  "head_lifecycle C reset_values parse finish_values map_error c xs =
    (case reset_values c of
       (Inl e, c1) \<Rightarrow> (Err (contextual_error map_error (DomainReset e)), 0, c1)
     | (Inr rs, c1) \<Rightarrow>
         (case head_value C parse (\<lambda>e. contextual_error map_error (DomainMain e 0 None)) c1 xs of
            (Err e, n, c2) \<Rightarrow> (Err e, n, c2)
          | (Panic, n, c2) \<Rightarrow> (Panic, n, c2)
          | (Ok v, n, c2) \<Rightarrow>
              (case finish_values c2 of
                 (Inl e, c3) \<Rightarrow> (Err (contextual_error map_error (DomainFinish e)), n, c3)
               | (Inr fs, c3) \<Rightarrow> (Ok \<lparr>dlo_reset = rs, dlo_value = v, dlo_finish = fs\<rparr>, n, c3))))"

text \<open>A result of the read: a fault of the source, with nothing taken from it, or the first
  lifecycle of the stream.\<close>

definition lifecycle_result ::
  "('c, 'v, 'u, 'de, 'ee) codec \<Rightarrow> ('c, 'v, 'de) lifecycle_values \<Rightarrow> ('c, 'v, 'u, 'de) parser \<Rightarrow>
   ('c, 'v, 'de) lifecycle_values \<Rightarrow> ('b \<Rightarrow> 'u list) \<Rightarrow> ('b \<Rightarrow> bool) \<Rightarrow> (io_error \<Rightarrow> bool) \<Rightarrow>
   ('de \<Rightarrow> io_error) \<Rightarrow> 'c \<Rightarrow> 'u list \<Rightarrow> (io_error, 'v decode_lifecycle_output) res \<Rightarrow> 'c \<Rightarrow>
   'b decode_input \<Rightarrow> bool" where
  "lifecycle_result C reset_values parse finish_values rest ok fault map_error c xs r c' d' \<longleftrightarrow>
    ok (di_input d') \<and> \<not> di_eof_retry_pending d' \<and>
    ((\<exists>e. fault e \<and> r = Err e \<and> c' = snd (reset_values c) \<and> rest (di_input d') = xs) \<or>
     (\<exists>n. head_lifecycle C reset_values parse finish_values map_error c xs = (r, n, c') \<and>
        rest (di_input d') = drop n xs))"

locale lifecycle_reading =
  stream_reading C good parse BI E rest ok fault + exact_codec C good parse reset_values finish_values
  for C :: "('c, 'v, 'u, 'de, 'ee) codec" and good and parse
    and BI :: "('b, 'u) buffered_input" and E and rest and ok and fault
    and reset_values and finish_values
begin

abbreviation reads :: "('de \<Rightarrow> io_error) \<Rightarrow> 'c \<Rightarrow> 'u list \<Rightarrow>
    (io_error, 'v decode_lifecycle_output) res \<Rightarrow> 'c \<Rightarrow> 'b decode_input \<Rightarrow> bool" where
  "reads \<equiv> lifecycle_result C reset_values parse finish_values rest ok fault"

text \<open>The report of the scratch variant, as the values it stands for.\<close>

abbreviation written :: "'v list \<Rightarrow> 'v list \<Rightarrow> 'v decode_lifecycle_progress \<Rightarrow> 'v decode_lifecycle_output" where
  "written ro fo p \<equiv> \<lparr>dlo_reset = take (dlp_reset_written p) ro, dlo_value = dlp_value p,
     dlo_finish = take (dlp_finish_written p) fo\<rparr>"

lemma scratch_reads:
  assumes "ok (di_input d)" "good c" "max_decode_reset_values C \<le> length ro" "max_decode_finish_values C \<le> length fo"
  shows "\<exists>r c' d' ro' fo'.
    read_decoded_lifecycle_with_scratch C BI E f c d ro fo = Some (r, c', d', ro', fo') \<and>
    reads f c (rest (di_input d)) (map_ok (written ro' fo') r) c' d' \<and>
    (\<forall>p. r = Ok p \<longrightarrow> dlp_reset_written p \<le> max_decode_reset_values C \<and>
      dlp_finish_written p \<le> max_decode_finish_values C)"
proof -
  note prep_def = di_read_prepare_def call_defs assert_unit_bounds_cases Let_def
  let ?g = "\<lambda>e. contextual_error f (DomainMain e 0 None)" and ?d = "d\<lparr>di_eof_retry_pending := False\<rparr>"
  note def = read_decoded_lifecycle_with_scratch_def lifecycle_result_def head_lifecycle_def
  obtain x c1 where r: "reset_values c = (x, c1)" by (metis surj_pair)
  from reset_law [OF assms(2,3), unfolded r] show ?thesis
  proof (cases rule: wrote_atE)
    case (2 e out')
    with r assms(1,3,4) codec_bounds show ?thesis by (auto simp: def prep_def)
  next
    case (1 rs)
    let ?ro = "splice_at ro 0 rs"
    have rs: "length rs \<le> max_decode_reset_values C" "good c1" using reset_len [OF assms(2)] r 1 by auto
    then have prep: "di_read_prepare C f c d ro (length fo) = (Ok (length rs), c1, ?d, ?ro)"
      using 1 assms(3,4) codec_bounds by (simp add: prep_def)
    have take_rs: "take (length rs) ?ro = rs" by (simp add: splice_at_def)
    from read_one_result [OF assms(1) rs(2), of ?g] obtain q c2 b
      where one: "read_one C BI E ?g c1 (di_input d) = Some (q, c2, b)" "result ?g c1 (rest (di_input d)) q c2 b"
      by blast
    show ?thesis
    proof (cases q)
      case (Ok v)
      with one(2) have v: "ok b" "good c2" "\<exists>n. head_value C parse ?g c1 (rest (di_input d)) = (Ok v, n, c2) \<and>
          rest b = drop n (rest (di_input d))" by (auto simp: read_result_def)
      obtain y c3 where y: "finish_values c2 = (y, c3)" by (metis surj_pair)
      from finish_law [OF v(2) assms(4), unfolded y] show ?thesis
      proof (cases rule: wrote_atE)
        case (2 e out')
        with prep one(1) r 1 Ok v y show ?thesis by (auto simp: def di_read_finish_def call_defs)
      next
        case fs: (1 fs)
        have "length fs \<le> max_decode_finish_values C" using finish_len [OF v(2)] y fs by auto
        with prep one(1) r 1 Ok v y fs rs take_rs assms(4) show ?thesis
          by (auto simp: def di_read_finish_def call_defs splice_at_def)
      qed
    qed (use one prep r 1 in \<open>auto simp: def read_result_def\<close>)
  qed
qed

lemma lifecycle_reads:
  assumes "ok (di_input d)" "good c" "env_reserve_vec E (max_decode_reset_values C) = Ok ()"
    and "env_reserve_vec E (max_decode_finish_values C) = Ok ()"
  shows "\<exists>r c' d'. read_decoded_lifecycle_with C BI E f default_value c d = Some (r, c', d') \<and>
    reads f c (rest (di_input d)) r c' d'"
proof -
  from scratch_reads [OF assms(1,2), of "replicate (max_decode_reset_values C) default_value"
      "replicate (max_decode_finish_values C) default_value" f] assms(3,4) codec_bounds
  show ?thesis by (auto simp: read_decoded_lifecycle_with_def assert_unit_bounds_cases)
qed

lemma strict_reads:
  assumes "ok (di_input d)" "good c" "max_decode_reset_values C = 0" "max_decode_finish_values C = 0"
  shows "\<exists>r c' d'. read_decoded_with C BI E f c d = Some (r, c', d') \<and>
    reads f c (rest (di_input d)) (map_ok (\<lambda>v. \<lparr>dlo_reset = [], dlo_value = v, dlo_finish = []\<rparr>) r) c' d'"
proof -
  from scratch_reads [OF assms(1,2), of "[]" "[]" f] assms(3,4) obtain r c' d' ro fo where
    s: "read_decoded_lifecycle_with_scratch C BI E f c d [] [] = Some (r, c', d', ro, fo)"
    "reads f c (rest (di_input d)) (map_ok (written ro fo) r) c' d'"
    "\<forall>p. r = Ok p \<longrightarrow> dlp_reset_written p = 0 \<and> dlp_finish_written p = 0" by auto
  have "ensure_no_decode_lifecycle_output C = Ok ()"
    using assms(3,4) codec_bounds by (simp add: ensure_no_decode_lifecycle_output_def assert_unit_bounds_cases)
  with s show ?thesis by (cases r) (auto simp: read_decoded_with_def)
qed

end

text \<open>A stored value read back from a stream that goes on behind it: the codec accepts a value at the
  end of an open stream if it accepts it at the end of the input.\<close>

locale stored_values =
  read: lifecycle_reading C good_d parse BI E rest ok fault reset_values finish_values +
  stored: value_codec C good_e emit reset_emit finish_emit good_d parse reset_values finish_values synced
  for C :: "('c, 'v, 'u, 'de, 'ee) codec" and good_d and parse
    and BI :: "('b, 'u) buffered_input" and E and rest and ok and fault
    and reset_values and finish_values and good_e and emit and reset_emit and finish_emit and synced +
  assumes delimited: "good_d c \<Longrightarrow> parse c True xs = (Inr vn, c') \<Longrightarrow> parse c False xs = (Inr vn, c')"
begin

lemma head_of_frame:
  assumes "good_d d" "exact_value C reset_values parse finish_values d us = (Inr out, d')"
  shows "head_lifecycle C reset_values parse finish_values f d (us @ ys) = (Ok out, length us, d')"
proof -
  obtain x c1 where r: "reset_values d = (x, c1)" by (metis surj_pair)
  obtain y c2 where p: "parse c1 True us = (y, c2)" by (metis surj_pair)
  from assms(2) r p obtain rs v n where x: "x = Inr rs" and y: "y = Inr (v, n)" and n: "\<not> nz_get n < length us"
    and min: "min_units_per_value C \<le> length us"
    by (auto simp: exact_value_def split: sum.splits if_splits)
  have good: "good_d c1" using read.reset_len [OF assms(1)] r x by auto
  have len: "nz_get n = length us"
    using read.parse_value [OF good min p [unfolded y]] n by simp
  from read.value_final [OF good min delimited [OF good p [unfolded y]], of True ys]
  have "parse c1 True (us @ ys) = (Inr (v, n), c2)" .
  with assms(2) r x p y len min show ?thesis
    by (auto simp: exact_value_def head_lifecycle_def head_value_def split: sum.splits prod.splits)
qed

lemma stored_reads:
  assumes "good_e c" "good_d d"
    and "max_complete_encode_units C = Ok units" "reserve_vec units" "codec_value_encode C reserve_vec du c v = (Ok us, c')"
    and "env_reserve_vec E (max_decode_reset_values C) = Ok ()" "env_reserve_vec E (max_decode_finish_values C) = Ok ()"
    and "ok (di_input b)" "rest (di_input b) = us @ ys"
  shows "\<exists>r d' b'. read_decoded_lifecycle_with C BI E f dv d b = Some (r, d', b') \<and> ok (di_input b') \<and>
    ((\<exists>e. fault e \<and> r = Err e \<and> rest (di_input b') = us @ ys) \<or>
     (\<exists>rs fs. r = Ok \<lparr>dlo_reset = rs, dlo_value = v, dlo_finish = fs\<rparr> \<and> rest (di_input b') = ys))"
proof -
  have "length ([] :: 'u list) + units \<le> usize_max" using assms(3) by (simp add: max_complete_encode_units_Ok)
  from stored.enc.encode_into_refines [where reserve_vec = reserve_vec and vec = "[]" and d = du and v = v,
      OF assms(1,3) this assms(4)] assms(5)
  have "value_frame C reset_emit emit finish_emit c v = (Inr us, c')"
    by (auto simp: codec_value_encode_def map_ok_eq split: prod.splits sum.splits)
  from stored.frame_exact [OF assms(1,2) this] obtain rs fs d1 where
    "exact_value C reset_values parse finish_values d us = (Inr \<lparr>dlo_reset = rs, dlo_value = v, dlo_finish = fs\<rparr>, d1)"
    by blast
  note head = head_of_frame [OF assms(2) this, of f ys]
  from read.lifecycle_reads [OF assms(8,2,6,7), of f dv] obtain r d2 b2 where
    "read_decoded_lifecycle_with C BI E f dv d b = Some (r, d2, b2)" "read.reads f d (us @ ys) r d2 b2"
    using assms(9) by auto
  with head show ?thesis by (auto simp: lifecycle_result_def)
qed

end

section \<open>The codecs of the repository on the in-memory source\<close>

interpretation u16be_stored: stored_values u16be_codec any_state u16be_parse scripted_input sample_env
  scripted_rest "scripted_ok fault" fault emit_nothing emit_nothing any_state u16be_emit emit_nothing
  emit_nothing "\<lambda>c d. True"
  for fault
  by unfold_locales (auto simp: u16be_codec_def elim: u16be_parse.elims)

interpretation marker_stored: stored_values marker_codec any_state marker_parse scripted_input sample_env
  scripted_rest "scripted_ok fault" fault "emit_one reset_marker" "emit_one finish_marker" any_state
  marker_emit emit_nothing emit_nothing "\<lambda>c d. True"
  for fault
  by unfold_locales (auto simp: marker_codec_def elim: marker_parse.elims)

section \<open>Properties\<close>

text \<open>C22. \<open>read_one\<close> returns on every input, however it is cut into reads: the codec's verdict on
  the stream as known to its end, with exactly the units it stands for taken from the stream; a
  truncated value takes all that is left. A fault of the input changes neither stream nor codec.\<close>

theorem read_one_reads_head:
  assumes "stream_reading C good parse BI E rest ok fault" "ok b" "good c"
  shows "\<exists>r c' b'. read_one C BI E map_error c b = Some (r, c', b') \<and>
    read_result C parse good rest ok fault map_error c (rest b) r c' b'"
  by (rule stream_reading.read_one_result [OF assms])

text \<open>C24. \<open>read_decoded_lifecycle_with\<close> returns the reset values, the first value of the stream and
  the finish values, or the error of the first phase that fails with the phase it failed in. It
  forgets a pending end-of-input retry.\<close>

theorem read_lifecycle_reads_head:
  assumes "lifecycle_reading C good parse BI E rest ok fault reset_values finish_values"
    and "ok (di_input d)" "good c" "env_reserve_vec E (max_decode_reset_values C) = Ok ()"
    and "env_reserve_vec E (max_decode_finish_values C) = Ok ()"
  shows "\<exists>r c' d'. read_decoded_lifecycle_with C BI E map_error default_value c d = Some (r, c', d') \<and>
    lifecycle_result C reset_values parse finish_values rest ok fault map_error c (rest (di_input d)) r c' d'"
  by (rule lifecycle_reading.lifecycle_reads [OF assms])

text \<open>What the owned-value encoder stored at the front of a stream, the input reads back as that
  value, leaving the rest of the stream, however the stream arrives; a fault of the input on the
  way takes nothing from the stream.\<close>

theorem stored_value_reads_back:
  assumes "stored_values C good_d parse BI E rest ok fault reset_values finish_values good_e emit reset_emit
      finish_emit synced"
    and "good_e c" "good_d d"
    and "max_complete_encode_units C = Ok units" "reserve_vec units" "codec_value_encode C reserve_vec du c v = (Ok us, c')"
    and "env_reserve_vec E (max_decode_reset_values C) = Ok ()" "env_reserve_vec E (max_decode_finish_values C) = Ok ()"
    and "ok (di_input b)" "rest (di_input b) = us @ ys"
  shows "\<exists>r d' b'. read_decoded_lifecycle_with C BI E map_error dv d b = Some (r, d', b') \<and> ok (di_input b') \<and>
    ((\<exists>e. fault e \<and> r = Err e \<and> rest (di_input b') = us @ ys) \<or>
     (\<exists>rs fs. r = Ok \<lparr>dlo_reset = rs, dlo_value = v, dlo_finish = fs\<rparr> \<and> rest (di_input b') = ys))"
  by (rule stored_values.stored_reads [where reserve_vec = reserve_vec, OF assms])

end
