(* ===== verification/DecodeBatch.thy ===== *)
theory DecodeBatch
  imports DecodeReading
begin

text \<open>
  \<open>TranscodeDecodeInput::transcode\<close>, the batch call over a streaming decoder. The locale
  \<open>stream_decoder\<close> states what the bridge relies on of a decoder: a run over lists that the
  calls compute, that can stop on an open stream and go on later, and whose other stops are
  final. The specification of the batch call is one run over the stream as known to its end,
  however the input arrives in pieces.
\<close>

section \<open>The contract of a streaming decoder\<close>

abbreviation decoder_call ::
  "('s, 'u, 'o, 'e) transcoder \<Rightarrow> bool \<Rightarrow> 's \<Rightarrow> 'u list \<Rightarrow> nat \<Rightarrow> 'o list \<Rightarrow> nat \<Rightarrow>
   ('e, transcode_progress) res \<times> 's \<times> 'o list" where
  "decoder_call T eof \<equiv> (if eof then tr_transcode_eof T else tr_transcode T)"

type_synonym ('c, 'u, 'o, 'e) stream_run =
  "'c \<Rightarrow> bool \<Rightarrow> 'u list \<Rightarrow> nat \<Rightarrow> ('e, transcode_status) res \<times> nat \<times> 'o list \<times> 'c"

fun open_stop :: "('e, transcode_status) res \<Rightarrow> bool" where
  "open_stop (Ok Complete) = True"
| "open_stop (Ok (NeedInput _)) = True"
| "open_stop _ = False"

text \<open>\<open>view\<close> is the part of the decoder's state that decides its output; \<open>shift n\<close> moves the
  position in an error by \<open>n\<close> units.\<close>

locale stream_decoder =
  fixes T :: "('s, 'u, 'o, 'e) transcoder" and live :: "'s \<Rightarrow> bool" and view :: "'s \<Rightarrow> 'c"
    and valid :: "'c \<Rightarrow> bool" and run :: "('c, 'u, 'o, 'e) stream_run" and shift :: "nat \<Rightarrow> 'e \<Rightarrow> 'e"
  assumes live_valid: "live s \<Longrightarrow> valid (view s)"
    and call_law: "live s \<Longrightarrow> j \<le> length out \<Longrightarrow> run (view s) eof xs (length out - j) = (q, n, vs, c') \<Longrightarrow>
        decoder_call T eof s xs 0 out j = (r, s', out') \<Longrightarrow>
        r = map_ok (\<lambda>st. progress_new st n (length vs)) q \<and> out' = splice_at out j vs \<and> view s' = c' \<and>
        ((\<exists>st. q = Ok st) \<longrightarrow> live s')"
    and run_bounds: "valid c \<Longrightarrow> run c eof xs room = (q, n, vs, c') \<Longrightarrow>
        q \<noteq> Panic \<and> n \<le> length xs \<and> length vs \<le> room \<and> ((\<exists>st. q = Ok st) \<longrightarrow> valid c') \<and>
        (\<forall>st. q = Ok st \<longrightarrow> status_holds st (length xs - n) (room - length vs)) \<and>
        (eof \<longrightarrow> (\<forall>req. q \<noteq> Ok (NeedInput req)))"
    and run_full: "valid c \<Longrightarrow> \<exists>st. run c eof xs 0 = (Ok st, 0, [], c)"
    and run_final: "valid c \<Longrightarrow> run c False xs room = (q, n, vs, c') \<Longrightarrow> \<not> open_stop q \<Longrightarrow>
        run c eof (xs @ ys) room = (q, n, vs, c')"
    and run_resume: "valid c \<Longrightarrow> run c False xs room = (Ok st, n, vs, c') \<Longrightarrow>
        run c' eof (drop n xs @ ys) room2 = (q, n2, vs2, c2) \<Longrightarrow> room \<le> length vs + room2 \<Longrightarrow>
        run c eof (xs @ ys) (length vs + room2) = (map_err (shift n) q, n + n2, vs @ vs2, c2)"
    and shift_0 [simp]: "shift 0 e = e"
    and shift_add: "shift m (shift n e) = shift (m + n) e"

section \<open>The specification\<close>

text \<open>Stopping after \<open>n\<close> units and the values \<open>vs\<close> loses nothing: a run that goes on from there
  to the end of the stream completes the run from the start.\<close>

definition paused ::
  "('c, 'u, 'o, 'e) stream_run \<Rightarrow> (nat \<Rightarrow> 'e \<Rightarrow> 'e) \<Rightarrow> nat \<Rightarrow> 'c \<Rightarrow> 'u list \<Rightarrow> nat \<Rightarrow> 'o list \<Rightarrow> 'c \<Rightarrow> bool" where
  "paused run shift count c xs n vs c' \<longleftrightarrow> n \<le> length xs \<and> length vs \<le> count \<and>
    (\<forall>room q m ws c''. run c' True (drop n xs) room = (q, m, ws, c'') \<longrightarrow> count \<le> length vs + room \<longrightarrow>
      run c True xs (length vs + room) = (map_err (shift n) q, n + m, vs @ ws, c''))"

text \<open>The mark of a decode input promises that the whole stream is in the buffer.\<close>

definition di_sound ::
  "('b, 'u) buffered_input \<Rightarrow> ('b \<Rightarrow> 'u list) \<Rightarrow> ('b \<Rightarrow> bool) \<Rightarrow> 'b decode_input \<Rightarrow> bool" where
  "di_sound BI rest ok d \<longleftrightarrow> ok (di_input d) \<and>
    (di_eof_retry_pending d \<longrightarrow> bi_unread BI (di_input d) = rest (di_input d))"

text \<open>A result of the batch call with \<open>base\<close> values delivered before it: the count of one run over
  the whole stream; a fault of the source, with the decoder paused; or the decoder's error, at
  its position in the stream, with no unit of the failed window consumed.\<close>

definition batch_result ::
  "('c, 'u, 'o, 'e) stream_run \<Rightarrow> (nat \<Rightarrow> 'e \<Rightarrow> 'e) \<Rightarrow> ('s \<Rightarrow> 'c) \<Rightarrow> ('s \<Rightarrow> bool) \<Rightarrow>
   ('b, 'u) buffered_input \<Rightarrow> ('b \<Rightarrow> 'u list) \<Rightarrow> ('b \<Rightarrow> bool) \<Rightarrow> (io_error \<Rightarrow> bool) \<Rightarrow> ('e \<Rightarrow> io_error) \<Rightarrow>
   'c \<Rightarrow> 'u list \<Rightarrow> 'o list \<Rightarrow> nat \<Rightarrow> nat \<Rightarrow> nat \<Rightarrow>
   (io_error, nat) res \<Rightarrow> 's \<Rightarrow> 'b decode_input \<Rightarrow> 'o list \<Rightarrow> bool" where
  "batch_result run shift view live BI rest ok fault map_error c xs out j count base r s' d' out' \<longleftrightarrow>
    di_sound BI rest ok d' \<and>
    (\<exists>n vs. n \<le> length xs \<and> length vs \<le> count \<and> out' = splice_at out j vs \<and> rest (di_input d') = drop n xs \<and>
      (case r of
         Ok w \<Rightarrow> w = base + length vs \<and> live s' \<and> (\<exists>st. run c True xs count = (Ok st, n, vs, view s'))
       | Err e \<Rightarrow> fault e \<and> live s' \<and> paused run shift count c xs n vs (view s') \<or>
           (\<exists>e' m. e = map_error e' \<and> n \<le> m \<and> run c True xs count = (Err (shift n e'), m, vs, view s'))
       | Panic \<Rightarrow> False))"

section \<open>Calls keep the promise of the mark\<close>

context buffered_source
begin

abbreviation sound :: "'b decode_input \<Rightarrow> bool" where
  "sound \<equiv> di_sound BI rest ok"

text \<open>Filling keeps the stream and the promise of the mark.\<close>

lemma fill_more_sound:
  assumes "sound d" "di_fill_more BI d = (r, d')"
  shows "r \<noteq> Panic \<and> sound d' \<and> rest (di_input d') = rest (di_input d) \<and>
    (r = Ok True \<longrightarrow> length (di_unread BI d) < length (di_unread BI d')) \<and>
    (r = Ok False \<longrightarrow> di_unread BI d' = rest (di_input d)) \<and> (\<forall>e. r = Err e \<longrightarrow> fault e) \<and>
    (di_eof_retry_pending d' \<longrightarrow> di_eof_retry_pending d)"
proof -
  obtain r1 b1 where f: "bi_fill_more BI (di_input d) = (r1, b1)" by (metis surj_pair)
  have ok: "ok (di_input d)" using assms(1) by (simp add: di_sound_def)
  note law = fill_more_law [OF ok f]
  obtain ys where "rest b1 = bi_unread BI b1 @ ys" using unread_prefix [of b1] law by blast
  moreover obtain zs where "rest (di_input d) = bi_unread BI (di_input d) @ zs" using unread_prefix [OF ok] by blast
  ultimately show ?thesis
    using assms law f by (auto simp: di_fill_more_def Let_def di_sound_def split: if_splits)
qed

lemma fill_until_sound:
  assumes "sound d" "di_fill_until BI E k d = (r, d')"
  shows "r \<noteq> Panic \<and> sound d' \<and> rest (di_input d') = rest (di_input d) \<and>
    (r = Ok True \<longrightarrow> k \<le> length (di_unread BI d')) \<and>
    (r = Ok False \<longrightarrow> di_unread BI d' = rest (di_input d)) \<and> (\<forall>e. r = Err e \<longrightarrow> fault e) \<and>
    (di_eof_retry_pending d' \<longrightarrow> di_eof_retry_pending d)"
proof -
  have ok: "ok (di_input d)" using assms(1) by (simp add: di_sound_def)
  define grow where "grow =
    (if k > bi_capacity BI (di_input d) then bi_try_reserve_capacity BI (di_input d) k else (Ok (), di_input d))"
  obtain q b where g: "grow = (q, b)" by (metis surj_pair)
  have b: "q \<noteq> Panic" "ok b" "bi_unread BI b = bi_unread BI (di_input d)" "rest b = rest (di_input d)"
    "q = Ok () \<longrightarrow> k \<le> bi_capacity BI b" "\<forall>w. q = Err w \<longrightarrow> fault (env_allocation_error E w)"
    using g ok reserve_law [OF ok, of k q b] by (auto simp: grow_def split: if_splits)
  show ?thesis
  proof (cases q)
    case (Ok u)
    obtain r1 b1 where f: "bi_fill_until BI b k = (r1, b1)" by (metis surj_pair)
    have "k \<le> bi_capacity BI b" using b Ok by simp
    note law = fill_until_law [OF b(2) this f]
    have res: "r = r1" "di_input d' = b1" "di_eof_retry_pending d' \<longleftrightarrow> di_eof_retry_pending d \<and>
        \<not> length (bi_unread BI b1) > length (bi_unread BI b)"
      using assms(2) g Ok f by (auto simp: di_fill_until_def grow_def Let_def di_unread_len_def split: if_splits)
    obtain ys where "rest b1 = bi_unread BI b1 @ ys" using unread_prefix [of b1] law by blast
    with law b res assms(1) show ?thesis by (auto simp: di_sound_def)
  next
    case (Err e)
    with assms b g show ?thesis
      by (auto simp: di_fill_until_def grow_def di_sound_def split: if_splits)
  qed (use b in simp)
qed

lemma consume_sound:
  assumes "sound d" "di_consume BI k d = (r, d')"
  shows "sound d' \<and> (di_unread BI d = rest (di_input d) \<longrightarrow> di_unread BI d' = rest (di_input d'))"
  using assms consume_law [of "di_input d" k]
  by (auto simp: di_sound_def di_consume_def di_unread_len_def split: if_splits)

end

section \<open>The batch call computes one run\<close>

lemma splice_at_prefix:
  assumes "j + length vs \<le> k" "k \<le> length out"
  shows "splice_at (take k out) j vs @ drop k out = splice_at out j vs"
proof -
  have "drop (j + length vs) (take k out) @ drop k out = drop (j + length vs) (take k out @ drop k out)"
    using assms by (simp del: append_take_drop_id)
  with assms show ?thesis by (simp add: splice_at_def min_def)
qed

section \<open>Runs that are joined\<close>

context stream_decoder
begin

abbreviation stops :: "nat \<Rightarrow> 'c \<Rightarrow> 'u list \<Rightarrow> nat \<Rightarrow> 'o list \<Rightarrow> 'c \<Rightarrow> bool" where
  "stops \<equiv> paused run shift"

lemma stops_refl: "stops count c xs 0 [] c"
  by (auto simp: paused_def map_err_id)

lemma stops_trans:
  assumes "stops count c xs n vs c1" "stops (count - length vs) c1 (drop n xs) m ws c2"
  shows "stops count c xs (n + m) (vs @ ws) c2"
  unfolding paused_def
proof (intro conjI allI impI)
  show "n + m \<le> length xs" "length (vs @ ws) \<le> count" using assms by (auto simp: paused_def)
  fix room q k us c3
  assume r: "run c2 True (drop (n + m) xs) room = (q, k, us, c3)" "count \<le> length (vs @ ws) + room"
  have "run c1 True (drop n xs) (length ws + room) = (map_err (shift m) q, m + k, ws @ us, c3)"
    using assms(2) r by (simp add: paused_def add.commute)
  with assms(1) r(2) have "run c True xs (length vs + (length ws + room)) =
      (map_err (shift n) (map_err (shift m) q), n + (m + k), vs @ ws @ us, c3)"
    by (simp add: paused_def)
  then show "run c True xs (length (vs @ ws) + room) = (map_err (shift (n + m)) q, n + m + k, (vs @ ws) @ us, c3)"
    by (simp add: map_err_map_err shift_add add.assoc)
qed

text \<open>One call of the decoder on a window of the stream, at the end of the input or before it.\<close>

lemma run_call:
  assumes "live s" "j + count \<le> length out" "length out \<le> usize_max" "length us \<le> usize_max"
    and "run (view s) eof us count = (q, n, vs, c')"
    and "prefix_call out (j + count) (decoder_call T eof s us 0 (take (j + count) out) j) = (r, s', out')"
  shows "view s' = c' \<and> out' = splice_at out j vs \<and> n \<le> length us \<and> length vs \<le> count \<and>
    (case q of
       Ok st \<Rightarrow> live s' \<and> bind_res (map_err f r) (\<lambda>p. validate_decode_progress p 0 (length us) j count)
           = Ok (progress_new st n (length vs)) \<and>
         (eof \<longrightarrow> bind_res (map_err f r) (\<lambda>p. validate_eof_decode_progress p 0 (length us) j count)
           = Ok (progress_new st n (length vs)))
     | Err e \<Rightarrow> r = Err e
     | Panic \<Rightarrow> False)"
proof -
  let ?o = "take (j + count) out"
  obtain r1 s1 o1 where call: "decoder_call T eof s us 0 ?o j = (r1, s1, o1)" by (metis prod_cases3)
  have len: "length ?o = j + count" using assms(2) by simp
  note b = run_bounds [OF live_valid [OF assms(1)] assms(5)]
  have run: "run (view s) eof us (length ?o - j) = (q, n, vs, c')" using assms(5) len by simp
  from call_law [OF assms(1) _ run call] len
  have c: "r1 = map_ok (\<lambda>st. progress_new st n (length vs)) q" "o1 = splice_at ?o j vs" "view s1 = c'"
    "(\<exists>st. q = Ok st) \<longrightarrow> live s1" by auto
  have "length o1 = length ?o" using c(2) b len by simp
  then have res: "r = r1" "s' = s1" "out' = o1 @ drop (j + count) out"
    using assms(6) call by (simp_all add: prefix_call_def)
  have "out' = splice_at out j vs" using b assms(2) by (simp add: res(3) c(2) splice_at_prefix)
  moreover have "valid_progress (progress_new st n (length vs)) 0 (length us) j count" if "q = Ok st" for st
    using b that assms(2-4) by (auto simp: valid_progress_def progress_defs)
  ultimately show ?thesis
    using b c res by (cases q) (auto simp: io_valid progress_defs split: transcode_status.splits)
qed

end

locale decode_bridge =
  stream_decoder T live view valid run shift + buffered_source BI E rest ok fault
  for T :: "('s, 'u, 'o, 'e) transcoder" and live and view :: "'s \<Rightarrow> 'c" and valid and run and shift
    and BI :: "('b, 'u) buffered_input" and E and rest and ok and fault +
  assumes range_law: "i + n \<le> len \<Longrightarrow> len \<le> usize_max \<Longrightarrow> env_range_end E len i n msg = Ok (i + n)"
begin

abbreviation batch :: "('e \<Rightarrow> io_error) \<Rightarrow> 'c \<Rightarrow> 'u list \<Rightarrow> 'o list \<Rightarrow> nat \<Rightarrow> nat \<Rightarrow> nat \<Rightarrow>
    (io_error, nat) res \<Rightarrow> 's \<Rightarrow> 'b decode_input \<Rightarrow> 'o list \<Rightarrow> bool" where
  "batch \<equiv> batch_result run shift view live BI rest ok fault"

lemma batch_no_panic: "\<not> batch f c xs out j count base Panic s' d' out'"
  by (simp add: batch_result_def)

lemma batch_fault:
  assumes "sound d" "live s" "fault e" "stops count c xs n vs (view s)" "rest (di_input d) = drop n xs"
  shows "batch f c xs out j count base (Err e) s d (splice_at out j vs)"
  using assms by (auto simp: batch_result_def paused_def)

lemma batch_resume:
  assumes "stops count c xs n vs c1" "j + count \<le> length out"
    and "batch f c1 (drop n xs) (splice_at out j vs) (j + length vs) (count - length vs) (base + length vs) r s' d' out'"
  shows "batch f c xs out j count base r s' d' out'"
proof -
  obtain m ws where w: "m \<le> length (drop n xs)" "length ws \<le> count - length vs"
    "out' = splice_at (splice_at out j vs) (j + length vs) ws" "rest (di_input d') = drop m (drop n xs)"
    and r: "case r of
         Ok w \<Rightarrow> w = base + length vs + length ws \<and> live s' \<and>
           (\<exists>st. run c1 True (drop n xs) (count - length vs) = (Ok st, m, ws, view s'))
       | Err e \<Rightarrow> fault e \<and> live s' \<and> stops (count - length vs) c1 (drop n xs) m ws (view s') \<or>
           (\<exists>e' k. e = f e' \<and> m \<le> k \<and>
             run c1 True (drop n xs) (count - length vs) = (Err (shift m e'), k, ws, view s'))
       | Panic \<Rightarrow> False"
    using assms(3) by (auto simp: batch_result_def)
  have vs: "n \<le> length xs" "length vs \<le> count" using assms(1) by (simp_all add: paused_def)
  have go: "run c1 True (drop n xs) (count - length vs) = (q, k, ws, c2) \<Longrightarrow>
      run c True xs count = (map_err (shift n) q, n + k, vs @ ws, c2)" for q k c2
    using assms(1) vs(2) unfolding paused_def by (metis le_add_diff_inverse order_refl)
  have "n + m \<le> length xs" "length (vs @ ws) \<le> count" "out' = splice_at out j (vs @ ws)"
    "rest (di_input d') = drop (n + m) xs"
    using w vs assms(2) by (auto simp: splice_at_append add.commute)
  moreover have "case r of
         Ok w \<Rightarrow> w = base + length (vs @ ws) \<and> live s' \<and> (\<exists>st. run c True xs count = (Ok st, n + m, vs @ ws, view s'))
       | Err e \<Rightarrow> fault e \<and> live s' \<and> stops count c xs (n + m) (vs @ ws) (view s') \<or>
           (\<exists>e' k. e = f e' \<and> n + m \<le> k \<and> run c True xs count = (Err (shift (n + m) e'), k, vs @ ws, view s'))
       | Panic \<Rightarrow> False"
  proof (cases r)
    case (Err e)
    with r consider "fault e" "live s'" "stops (count - length vs) c1 (drop n xs) m ws (view s')"
      | e' k where "e = f e'" "m \<le> k" "run c1 True (drop n xs) (count - length vs) = (Err (shift m e'), k, ws, view s')"
      by auto
    then show ?thesis
    proof cases
      case 1
      with stops_trans [OF assms(1)] Err show ?thesis by simp
    next
      case 2
      have "run c True xs count = (Err (shift (n + m) e'), n + k, vs @ ws, view s')"
        using go [OF 2(3)] by (simp add: shift_add)
      with 2 Err show ?thesis by (auto intro!: exI [of _ e'])
    qed
  qed (use r go in auto)
  ultimately show ?thesis using assms(3) unfolding batch_result_def by blast
qed

lemma window_call:
  assumes "sound d" "live s" "j + count \<le> length out" "length out \<le> usize_max"
    and "run (view s) eof (di_unread BI d) count = (q, n, vs, c')"
    and "prefix_call out (j + count) (decoder_call T eof s (di_unread BI d) 0 (take (j + count) out) j) = (r, s', out')"
  shows "view s' = c' \<and> out' = splice_at out j vs \<and> n \<le> length (di_unread BI d) \<and> length vs \<le> count \<and>
    (case q of
       Ok st \<Rightarrow> live s' \<and> bind_res (map_err f r) (\<lambda>p.
           validate_decode_progress p 0 (length (di_unread BI d)) j count) = Ok (progress_new st n (length vs)) \<and>
         (eof \<longrightarrow> bind_res (map_err f r) (\<lambda>p.
           validate_eof_decode_progress p 0 (length (di_unread BI d)) j count) = Ok (progress_new st n (length vs)))
     | Err e \<Rightarrow> r = Err e
     | Panic \<Rightarrow> False)"
  using run_call [OF assms(2-4) _ assms(5,6)] assms(1) unread_fits [of "di_input d"] by (simp add: di_sound_def)

lemma eof_step_result:
  assumes "sound d" "live s" "j + count \<le> length out" "length out \<le> usize_max" "0 < count"
    and "di_unread BI d = rest (di_input d)"
    and "di_transcode_eof_step T BI E f s d out j count = (r, s', d', out')"
  shows "batch f (view s) (rest (di_input d)) out j count base (map_ok (\<lambda>p. base + tp_written p) r) s' d' out'"
proof -
  let ?xs = "rest (di_input d)"
  note def = di_transcode_eof_step_def Let_def
  obtain q n vs c' where run: "run (view s) True (di_unread BI d) count = (q, n, vs, c')" by (metis prod_cases4)
  obtain r1 s1 o1 where call: "prefix_call out (j + count)
      (decoder_call T True s (di_unread BI d) 0 (take (j + count) out) j) = (r1, s1, o1)" by (metis prod_cases3)
  note w = window_call [OF assms(1-4) run call, of f]
  have range: "env_range_end E (length out) j count msg = Ok (j + count)" for msg
    using range_law assms(3,4) by simp
  have ok: "ok (di_input d)" using assms(1) by (simp add: di_sound_def)
  note so_far = call range assms(5) di_unread_len_def [of BI d]
  show ?thesis
  proof (cases q)
    case (Ok st)
    have n: "n \<le> length (di_unread BI d)" using w by simp
    note consume = consume_law [OF ok n]
    let ?d = "d\<lparr>di_input := bi_consume BI (di_input d) n, di_eof_retry_pending := is_need_output (progress_new st n (length vs))\<rparr>"
    have "r = Ok (progress_new st n (length vs))" "s' = s1" "d' = ?d" "out' = o1"
      using assms(7) w Ok so_far n by (simp_all add: def di_consume_def di_unread_len_def progress_defs)
    with w Ok consume assms(6) run n show ?thesis
      by (auto simp: batch_result_def di_sound_def progress_defs intro!: exI [of _ n] exI [of _ vs])
  next
    case (Err e)
    then have "r = Err (f e)" "s' = s1" "d' = d" "out' = o1"
      using assms(7) w so_far by (simp_all add: def)
    with w Err assms(1,6) run show ?thesis
      by (auto simp: batch_result_def intro!: exI [of _ vs] exI [of _ 0] exI [of _ e])
  qed (use w in simp)
qed

text \<open>One turn of the loop, relative to where it starts.\<close>

lemma finish_batch_result:
  assumes "sound d" "live s" "length out = j + count" "w < count" "length out \<le> usize_max"
    and "di_unread BI d = rest (di_input d)"
    and "di_finish_batch T BI E f j count w s d out = (r, s', d', out')"
  shows "case r of
      Ok (BatchDone m) \<Rightarrow> batch f (view s) (rest (di_input d)) out (j + w) (count - w) w (Ok m) s' d' out'
    | Ok (BatchMore m) \<Rightarrow> False
    | Err e \<Rightarrow> batch f (view s) (rest (di_input d)) out (j + w) (count - w) w (Err e) s' d' out'
    | Panic \<Rightarrow> False"
proof -
  obtain q s1 d1 o1 where step: "di_transcode_eof_step T BI E f s d out (j + w) (count - w) = (q, s1, d1, o1)"
    by (metis prod_cases4)
  have "j + w + (count - w) \<le> length out" "0 < count - w" using assms(3,4) by simp_all
  from eof_step_result [OF assms(1,2) this(1) assms(5) this(2) assms(6) step, of w] assms(7) step
  show ?thesis
    by (cases q) (auto simp: di_finish_batch_def batch_no_panic)
qed

abbreviation flows :: "('e \<Rightarrow> io_error) \<Rightarrow> nat \<Rightarrow> 'c \<Rightarrow> 'u list \<Rightarrow> 'o list \<Rightarrow> nat \<Rightarrow> nat \<Rightarrow> nat \<Rightarrow>
    (io_error, batch_flow) res \<Rightarrow> 's \<Rightarrow> 'b decode_input \<Rightarrow> 'o list \<Rightarrow> bool" where
  "flows f bound c xs out j count w r s' d' out' \<equiv>
    (case r of
      Ok (BatchMore m) \<Rightarrow> \<exists>n vs. stops count c xs n vs (view s') \<and> m = w + length vs \<and> length vs < count \<and>
        rest (di_input d') = drop n xs \<and> out' = splice_at out j vs \<and> sound d' \<and> live s' \<and>
        \<not> di_eof_retry_pending d' \<and> 2 * length (rest (di_input d')) - length (di_unread BI d') < bound
    | Ok (BatchDone m) \<Rightarrow> batch f c xs out j count w (Ok m) s' d' out'
    | Err e \<Rightarrow> batch f c xs out j count w (Err e) s' d' out'
    | Panic \<Rightarrow> False)"

lemma flows_mono:
  assumes "flows f b1 c xs out j count w r s' d' out'" "b1 \<le> b2"
  shows "flows f b2 c xs out j count w r s' d' out'"
  using assms by (auto split: res.splits batch_flow.splits dest: less_le_trans)

text \<open>Going on with the decoder's status, \<open>vs\<close> being the values of its call.\<close>

lemma batch_status_result:
  assumes "sound d" "live s" "\<not> di_eof_retry_pending d" "length out = j + count" "w + length vs \<le> count"
    and "length out \<le> usize_max" "di_unread BI d = drop n x" "rest (di_input d) = drop n (x @ ys)"
    and "valid c" "x \<noteq> []" "n \<le> length x"
    and run: "run c False x (count - w) = (Ok st, n, vs, view s)"
    and "di_batch_status T BI E f j count (w + length vs) st s d (splice_at out (j + w) vs) = (r, s', d', out')"
  shows "flows f (2 * length (x @ ys) - length x) c (x @ ys) out (j + w) (count - w) w r s' d' out'"
proof -
  have stop: "stops (count - w) c (x @ ys) n vs (view s)"
    using run_resume [OF assms(9) run, of True ys] run_bounds [OF assms(9) run] assms(5,11)
    by (auto simp: paused_def)
  note def = di_batch_status_def
  let ?room = "count - w" and ?out = "splice_at out (j + w) vs"
  have fits: "length vs \<le> ?room" "j + w + ?room \<le> length out" using assms(4,5) by simp_all
  show ?thesis
  proof (cases "w + length vs = count")
    case True
    obtain st2 where "run (view s) True (drop n (x @ ys)) 0 = (Ok st2, 0, [], view s)"
      using run_full [OF live_valid [OF assms(2)]] by blast
    then have "run c True (x @ ys) (length vs + 0) = (map_err (shift n) (Ok st2), n + 0, vs @ [], view s)"
      using stop True unfolding paused_def by (metis add_diff_cancel_left' add_0_right order_refl)
    with True assms show ?thesis by (auto simp: def batch_result_def intro!: exI [of _ n] exI [of _ vs])
  next
    case more: False
    show ?thesis
    proof (cases st)
      case Complete
      then have "n = length x" using run_bounds [OF assms(9) run] assms(11) by simp
      with Complete more assms stop show ?thesis
        by (auto simp: def intro!: exI [of _ n] exI [of _ vs])
    next
      case (NeedOutput req)
      with run_final [OF assms(9) run, of True ys] more assms show ?thesis
        by (auto simp: def batch_result_def intro!: exI [of _ n] exI [of _ vs])
    next
      case (NeedInput req)
      then have need: "length x - n < nz_get req" using run_bounds [OF assms(9) run] by simp
      obtain fr d1 where fill: "di_fill_until BI E (nz_get req) d = (fr, d1)" by (metis surj_pair)
      note law = fill_until_sound [OF assms(1) fill]
      have "length (di_unread BI d1) \<le> length (rest (di_input d1))"
        using unread_prefix [of "di_input d1"] law by (auto simp: di_sound_def)
      with law assms(8) have len: "length (di_unread BI d1) \<le> length (drop n (x @ ys))" by simp
      show ?thesis
      proof (cases fr)
        case (Err e)
        with batch_fault [OF _ assms(2) _ stop, of d1 e] fill more NeedInput assms(8,13) law show ?thesis
          by (auto simp: def)
      next
        case (Ok filled)
        show ?thesis
        proof (cases filled)
          case True
          with Ok fill more NeedInput assms law stop need len show ?thesis
            by (auto simp: def intro!: exI [of _ n] exI [of _ vs])
        next
          case False
          obtain fb s2 d2 o2 where b: "di_finish_batch T BI E f j count (w + length vs) s d1 ?out = (fb, s2, d2, o2)"
            by (metis prod_cases4)
          have sizes: "length ?out = j + count" "w + length vs < count" "length ?out \<le> usize_max"
            using fits assms(4,5,6) more by simp_all
          have d1: "sound d1" "di_unread BI d1 = rest (di_input d1)" "rest (di_input d1) = drop n (x @ ys)"
            using law Ok False assms(8) by simp_all
          have idx: "j + (w + length vs) = j + w + length vs" "count - (w + length vs) = ?room - length vs" by simp_all
          have res: "case fb of
              Ok (BatchDone m) \<Rightarrow> batch f (view s) (drop n (x @ ys)) ?out (j + w + length vs) (?room - length vs) (w + length vs) (Ok m) s2 d2 o2
            | Ok (BatchMore m) \<Rightarrow> False
            | Err e \<Rightarrow> batch f (view s) (drop n (x @ ys)) ?out (j + w + length vs) (?room - length vs) (w + length vs) (Err e) s2 d2 o2
            | Panic \<Rightarrow> False"
            using finish_batch_result [OF d1(1) assms(2) sizes d1(2) b] unfolding d1(3) idx .
          have "r = fb" "s' = s2" "d' = d2" "out' = o2"
            using assms(13) more NeedInput fill Ok False b by (simp_all add: def)
          with res batch_resume [OF stop fits(2)] show ?thesis
            by (auto split: res.splits batch_flow.splits)
        qed
      qed (use law in simp)
    qed
  qed
qed

lemma batch_window_result:
  assumes "sound d" "live s" "\<not> di_eof_retry_pending d" "length out = j + count" "w < count"
    and "length out \<le> usize_max" "di_unread BI d \<noteq> []"
    and "di_batch_window T BI E f j count w s d out = (r, s', d', out')"
  shows "flows f (2 * length (rest (di_input d)) - length (di_unread BI d)) (view s) (rest (di_input d)) out
    (j + w) (count - w) w r s' d' out'"
proof -
  let ?x = "di_unread BI d" and ?c = "view s"
  have ok: "ok (di_input d)" using assms(1) by (simp add: di_sound_def)
  obtain ys where xs: "rest (di_input d) = ?x @ ys" using unread_prefix [OF ok] by blast
  note valid = live_valid [OF assms(2)]
  obtain q n vs c' where run: "run ?c False ?x (count - w) = (q, n, vs, c')" by (metis prod_cases4)
  obtain r1 s1 o1 where call: "slice_call out (tr_transcode T s ?x 0 out (j + w)) = (r1, s1, o1)" by (metis prod_cases3)
  have all: "j + w + (count - w) = length out" using assms(4,5) by simp
  have pre: "prefix_call out (j + w + (count - w))
      (decoder_call T False s ?x 0 (take (j + w + (count - w)) out) (j + w)) = (r1, s1, o1)"
    using call unfolding all by (auto simp: prefix_call_def split: prod.splits)
  have fits: "j + w + (count - w) \<le> length out" using all by simp
  note win = window_call [OF assms(1,2) fits assms(6) run pre, of f]
  note def = di_batch_window_def Let_def
  show ?thesis
  proof (cases q)
    case (Ok st)
    have n: "n \<le> length ?x" using win by simp
    note consume = consume_law [OF ok n]
    let ?d = "d\<lparr>di_input := bi_consume BI (di_input d) n\<rparr>"
    have d: "sound ?d" "di_unread BI ?d = drop n ?x" "rest (di_input ?d) = drop n (?x @ ys)" "\<not> di_eof_retry_pending ?d"
      using consume assms(3) xs by (simp_all add: di_sound_def)
    have go: "run ?c False ?x (count - w) = (Ok st, n, vs, view s1)" "live s1" "w + length vs \<le> count"
      using win Ok run assms(5) by auto
    have "di_batch_status T BI E f j count (w + length vs) st s1 ?d (splice_at out (j + w) vs) = (r, s', d', out')"
      using assms(8) call win Ok n by (simp add: def di_consume_def di_unread_len_def progress_defs)
    from batch_status_result [OF d(1) go(2) d(4) assms(4) go(3) assms(6) d(2,3) valid assms(7) n go(1) this]
    show ?thesis unfolding xs .
  next
    case (Err e)
    have "run ?c True (?x @ ys) (count - w) = (Err e, n, vs, c')" using run_final [OF valid run] Err by simp
    moreover have "r = Err (f e)" "s' = s1" "d' = d" "out' = o1"
      using assms(8) call win Err by (simp_all add: def)
    ultimately show ?thesis using win assms(1) xs
      by (auto simp: batch_result_def intro!: exI [of _ vs] exI [of _ 0] exI [of _ e])
  qed (use win in simp)
qed

lemma batch_turn_result:
  assumes "sound d" "live s" "\<not> di_eof_retry_pending d" "length out = j + count" "w < count" "length out \<le> usize_max"
    and "di_batch_turn T BI E f j count w s d out = (r, s', d', out')"
  shows "flows f (2 * length (rest (di_input d)) - length (di_unread BI d)) (view s) (rest (di_input d)) out
    (j + w) (count - w) w r s' d' out'"
proof -
  obtain more d1 where en: "(if di_unread_len BI d = 0 then di_fill_more BI d else (Ok True, d)) = (more, d1)"
    by (metis surj_pair)
  then have d1: "more \<noteq> Panic" "sound d1" "rest (di_input d1) = rest (di_input d)" "more = Ok True \<longrightarrow> di_unread BI d1 \<noteq> []"
    "more = Ok False \<longrightarrow> di_unread BI d1 = rest (di_input d1)" "\<forall>e. more = Err e \<longrightarrow> fault e" "\<not> di_eof_retry_pending d1"
    "length (di_unread BI d) \<le> length (di_unread BI d1)"
    using fill_more_sound [OF assms(1), of more d1] assms(1,3)
    by (auto simp: di_unread_len_def split: if_splits)
  note def = di_batch_turn_def en
  show ?thesis
  proof (cases more)
    case (Ok m)
    show ?thesis
    proof (cases m)
      case True
      with assms(7) Ok have "di_batch_window T BI E f j count w s d1 out = (r, s', d', out')" by (simp add: def)
      note window = batch_window_result [OF d1(2) assms(2) d1(7) assms(4-6) _ this, unfolded d1(3)]
      have "di_unread BI d1 \<noteq> []" using d1(4) Ok True by simp
      from flows_mono [OF window [OF this]] show ?thesis using d1(8) by simp
    next
      case False
      with assms(7) Ok have "di_finish_batch T BI E f j count w s d1 out = (r, s', d', out')" by (simp add: def)
      from finish_batch_result [OF d1(2) assms(2,4-6) _ this] d1 Ok False
      show ?thesis by (auto split: res.splits batch_flow.splits)
    qed
  next
    case (Err e)
    with batch_fault [OF d1(2) assms(2) _ stops_refl, of e] d1 assms(7) show ?thesis by (auto simp: def)
  qed (use d1 in simp)
qed

text \<open>Every turn that goes on takes units or has unread more of them, so the loop ends.\<close>

lemma batch_loop_result:
  assumes "sound d" "live s" "\<not> di_eof_retry_pending d" "length out = j + count" "w < count" "length out \<le> usize_max"
  shows "\<exists>r s' d' out'. di_batch_loop T BI E f j count w s d out = Some (r, s', d', out') \<and>
    batch f (view s) (rest (di_input d)) out (j + w) (count - w) w r s' d' out'"
  using assms
proof (induction "2 * length (rest (di_input d)) - length (di_unread BI d)" arbitrary: s d out w rule: less_induct)
  case less
  obtain r s1 d1 o1 where t: "di_batch_turn T BI E f j count w s d out = (r, s1, d1, o1)" by (metis prod_cases4)
  note turn = batch_turn_result [OF less.prems t]
  note loop = di_batch_loop.simps [of T BI E f j count w s d out]
  show ?case
  proof (cases r)
    case (Ok b)
    show ?thesis
    proof (cases b)
      case (BatchMore m)
      with turn Ok obtain n vs where m: "stops (count - w) (view s) (rest (di_input d)) n vs (view s1)"
        "m = w + length vs" "length vs < count - w" "rest (di_input d1) = drop n (rest (di_input d))"
        "o1 = splice_at out (j + w) vs" "sound d1" "live s1" "\<not> di_eof_retry_pending d1"
        "2 * length (rest (di_input d1)) - length (di_unread BI d1) <
          2 * length (rest (di_input d)) - length (di_unread BI d)" by auto
      have len: "length o1 = j + count" "m < count" "length o1 \<le> usize_max" "j + w + (count - w) \<le> length out"
        using m less.prems(4-6) by simp_all
      from less.hyps [OF m(9,6,7,8) len(1-3)] obtain r2 s2 d2 o2 where
        rec: "di_batch_loop T BI E f j count m s1 d1 o1 = Some (r2, s2, d2, o2)"
        "batch f (view s1) (rest (di_input d1)) o1 (j + m) (count - m) m r2 s2 d2 o2" by blast
      have idx: "j + (w + length vs) = j + w + length vs" "count - (w + length vs) = count - w - length vs" by simp_all
      from batch_resume [OF m(1) len(4) rec(2) [unfolded m(2,4,5) idx]] rec(1) loop t Ok BatchMore
      show ?thesis by simp
    qed (use turn loop t Ok in simp)
  qed (use turn loop t in simp_all)
qed

lemma batch_prefix:
  assumes "batch f c xs (take (j + count) out) j count base r s' d' o'" "j + count \<le> length out"
  shows "batch f c xs out j count base r s' d' (o' @ drop (j + count) out)"
  using assms splice_at_prefix [of j _ "j + count" out] by (fastforce simp: batch_result_def)

lemma transcode_result:
  assumes "sound d" "live s" "j + count \<le> length out" "length out \<le> usize_max"
  shows "\<exists>r s' d' out'. di_transcode T BI E f s d out j count = Some (r, s', d', out') \<and>
    batch f (view s) (rest (di_input d)) out j count 0 r s' d' out'"
proof -
  have range: "env_range_end E (length out) j count msg = Ok (j + count)" for msg
    using range_law assms(3,4) by simp
  note def = di_transcode_def range
  consider "count = 0" | "0 < count" "di_eof_retry_pending d" | "0 < count" "\<not> di_eof_retry_pending d" by blast
  then show ?thesis
  proof cases
    case 1
    have "env_range_end E (length out) j 0 msg = Ok j" for msg
      using range_law [of j 0 "length out"] assms(3,4) by simp
    with 1 have "di_transcode T BI E f s d out j count = Some (Ok 0, s, d, out)" by (simp add: di_transcode_def)
    with 1 run_full [OF live_valid [OF assms(2)], of True "rest (di_input d)"] assms(1,2)
    show ?thesis by (auto simp: batch_result_def intro!: exI [of _ 0])
  next
    case 2
    obtain r s1 d1 o1 where step: "di_transcode_eof_step T BI E f s d out j count = (r, s1, d1, o1)"
      by (metis prod_cases4)
    have "di_unread BI d = rest (di_input d)" using 2 assms(1) by (simp add: di_sound_def)
    from eof_step_result [OF assms(1-4) 2(1) this step, of 0] 2 step show ?thesis
      by (simp add: def)
  next
    case 3
    have "length (take (j + count) out) = j + count" "length (take (j + count) out) \<le> usize_max"
      using assms(3,4) by simp_all
    from batch_loop_result [OF assms(1,2) 3(2) this(1) 3(1) this(2), of f] batch_prefix [OF _ assms(3)] 3
    show ?thesis by (fastforce simp: def)
  qed
qed

end

end
