(* ===== verification/Polls.thy ===== *)
theory Polls
  imports IoBase
begin

text \<open>
  Polls and awaiting. A poll returns an answer or nothing yet, and the state it leaves behind; the
  task context only registers wake-ups and is not modelled. An \<open>async fn\<close> is what its polls do:
  \<open>await\<close> polls until the answer is ready, and dropping a future between two polls leaves the
  state of the last poll.
\<close>

section \<open>Polls\<close>

datatype 'r poll = Ready 'r | NotReady

partial_function (option) await :: "('st \<Rightarrow> 'r poll \<times> 'st) \<Rightarrow> 'st \<Rightarrow> ('r \<times> 'st) option" where
  "await poll st =
    (case poll st of
       (Ready r, st) \<Rightarrow> Some (r, st)
     | (NotReady, st) \<Rightarrow> await poll st)"

declare await.simps [code]

text \<open>Awaiting ends when every poll that is not ready uses up something.\<close>

lemma await_returns:
  assumes "I st"
    and "\<And>st st'. I st \<Longrightarrow> poll st = (NotReady, st') \<Longrightarrow> I st' \<and> f st' < (f st :: nat)"
    and "\<And>st r st'. I st \<Longrightarrow> poll st = (Ready r, st') \<Longrightarrow> P r st'"
  shows "\<exists>r st'. await poll st = Some (r, st') \<and> P r st'"
  using assms(1)
proof (induction "f st" arbitrary: st rule: less_induct)
  case less
  obtain p st' where p: "poll st = (p, st')" by (metis surj_pair)
  show ?case
  proof (cases p)
    case (Ready r)
    with p assms(3) [OF less.prems] show ?thesis by (auto simp: await.simps [of poll st])
  next
    case NotReady
    with p assms(2) [OF less.prems] less.hyps [of st'] show ?thesis by (auto simp: await.simps [of poll st])
  qed
qed

end
