(* ===== verification/AsyncInput.thy ===== *)
theory AsyncInput
  imports DecodeBatch Polls
begin

text \<open>
  \<open>AsyncTranscodeDecodeInput\<close> (\<open>src/transcode/io/async_transcode_decode_input.rs\<close>) and
  \<open>AsyncTranscodeDecodeStep\<close>. \<open>AsyncBufferedInput\<close> belongs to the crate \<open>qubit_io\<close> and is a parameter.
\<close>

section \<open>The buffered input\<close>

text \<open>\<open>ai_poll_fill_until\<close> is one poll of the future \<open>fill_until_async\<close>.\<close>

record ('b, 'u) async_buffered_input =
  ai_unread :: "'b \<Rightarrow> 'u list"
  ai_capacity :: "'b \<Rightarrow> nat"
  ai_try_reserve_capacity :: "'b \<Rightarrow> nat \<Rightarrow> (reserve_error, unit) res \<times> 'b"
  ai_poll_fill_more :: "'b \<Rightarrow> (io_error, bool) res poll \<times> 'b"
  ai_poll_fill_until :: "nat \<Rightarrow> 'b \<Rightarrow> (io_error, bool) res poll \<times> 'b"
  ai_consume :: "'b \<Rightarrow> nat \<Rightarrow> 'b"
  ai_poll_read_unchecked :: "'b \<Rightarrow> 'u list \<Rightarrow> nat \<Rightarrow> nat \<Rightarrow> (io_error, nat) res poll \<times> 'b \<times> 'u list"

section \<open>Operations\<close>

datatype async_decode_step = EndOfInput | StepProgress transcode_progress

definition adi_consume ::
  "('b, 'u) async_buffered_input \<Rightarrow> nat \<Rightarrow> 'b \<Rightarrow> (io_error, unit) res \<times> 'b" where
  "adi_consume AI count b =
    (if \<not> count \<le> length (ai_unread AI b) then (Panic, b) else (Ok (), ai_consume AI b count))"

definition adi_fill_more_async ::
  "('b, 'u) async_buffered_input \<Rightarrow> 'b \<Rightarrow> ((io_error, bool) res \<times> 'b) option" where
  "adi_fill_more_async AI b = await (ai_poll_fill_more AI) b"

definition adi_fill_until_async ::
  "('b, 'u) async_buffered_input \<Rightarrow> io_env \<Rightarrow> nat \<Rightarrow> 'b \<Rightarrow> ((io_error, bool) res \<times> 'b) option" where
  "adi_fill_until_async AI E count b =
    (case (if count > ai_capacity AI b then
             (case ai_try_reserve_capacity AI b count of (r, b) \<Rightarrow> (map_err (env_allocation_error E) r, b))
           else (Ok (), b)) of
       (Ok _, b) \<Rightarrow> await (ai_poll_fill_until AI count) b
     | (Err e, b) \<Rightarrow> Some (Err e, b)
     | (Panic, b) \<Rightarrow> Some (Panic, b))"

text \<open>The decoder's call on the unread window, once there is one.\<close>

definition adi_decode_window ::
  "('s, 'u, 'o, 'e) transcoder \<Rightarrow> ('b, 'u) async_buffered_input \<Rightarrow> ('e \<Rightarrow> io_error) \<Rightarrow>
   's \<Rightarrow> 'b \<Rightarrow> 'o list \<Rightarrow> nat \<Rightarrow> nat \<Rightarrow> nat \<Rightarrow> (io_error, async_decode_step) res \<times> 's \<times> 'b \<times> 'o list" where
  "adi_decode_window T AI map_error s b out output_index output_end count =
    (let available_input = length (ai_unread AI b) in
     case prefix_call out output_end
         (tr_transcode T s (ai_unread AI b) 0 (take output_end out) output_index) of (r, s, out) \<Rightarrow>
     and_then (bind_res (map_err map_error r) (\<lambda>p.
         validate_decode_progress p 0 available_input output_index count), s, b, out)
       (\<lambda>p (s, b, out).
     case adi_consume AI (tp_read p) b of (r, b) \<Rightarrow>
       and_then (r, s, b, out) (\<lambda>_ (s, b, out). (Ok (StepProgress p), s, b, out))))"

definition adi_poll_transcode ::
  "('s, 'u, 'o, 'e) transcoder \<Rightarrow> ('b, 'u) async_buffered_input \<Rightarrow> io_env \<Rightarrow> ('e \<Rightarrow> io_error) \<Rightarrow>
   nat \<Rightarrow> nat \<Rightarrow> 's \<times> 'b \<times> 'o list \<Rightarrow> (io_error, async_decode_step) res poll \<times> 's \<times> 'b \<times> 'o list" where
  "adi_poll_transcode T AI E map_error output_index count = (\<lambda>(s, b, out).
    case env_range_end E (length out) output_index count
        ''decoded output range exceeds destination buffer'' of
      Err e \<Rightarrow> (Ready (Err e), s, b, out)
    | Panic \<Rightarrow> (Ready Panic, s, b, out)
    | Ok output_end \<Rightarrow>
        if count = 0 then (Ready (Ok (StepProgress (progress_complete 0 0))), s, b, out)
        else
          (case (if length (ai_unread AI b) = 0 then ai_poll_fill_more AI b else (Ready (Ok True), b)) of
             (Ready (Ok True), b) \<Rightarrow>
               (case adi_decode_window T AI map_error s b out output_index output_end count of
                  (r, s, b, out) \<Rightarrow> (Ready r, s, b, out))
           | (Ready (Ok False), b) \<Rightarrow> (Ready (Ok EndOfInput), s, b, out)
           | (Ready (Err e), b) \<Rightarrow> (Ready (Err e), s, b, out)
           | (Ready Panic, b) \<Rightarrow> (Ready Panic, s, b, out)
           | (NotReady, b) \<Rightarrow> (NotReady, s, b, out)))"

definition adi_transcode_async ::
  "('s, 'u, 'o, 'e) transcoder \<Rightarrow> ('b, 'u) async_buffered_input \<Rightarrow> io_env \<Rightarrow> ('e \<Rightarrow> io_error) \<Rightarrow>
   nat \<Rightarrow> nat \<Rightarrow> 's \<times> 'b \<times> 'o list \<Rightarrow> ((io_error, async_decode_step) res \<times> 's \<times> 'b \<times> 'o list) option" where
  "adi_transcode_async T AI E map_error output_index count st =
    await (adi_poll_transcode T AI E map_error output_index count) st"

definition adi_transcode_eof_step ::
  "('s, 'u, 'o, 'e) transcoder \<Rightarrow> ('b, 'u) async_buffered_input \<Rightarrow> io_env \<Rightarrow> ('e \<Rightarrow> io_error) \<Rightarrow>
   nat \<Rightarrow> nat \<Rightarrow> 's \<times> 'b \<times> 'o list \<Rightarrow> (io_error, transcode_progress) res \<times> 's \<times> 'b \<times> 'o list" where
  "adi_transcode_eof_step T AI E map_error output_index count = (\<lambda>(s, b, out).
    and_then (env_range_end E (length out) output_index count
        ''decoded EOF output range exceeds destination buffer'', s, b, out) (\<lambda>output_end (s, b, out).
    if count = 0 then (Ok (progress_complete 0 0), s, b, out)
    else
      let available_input = length (ai_unread AI b) in
      case prefix_call out output_end
          (tr_transcode_eof T s (ai_unread AI b) 0 (take output_end out) output_index) of (r, s, out) \<Rightarrow>
      and_then (bind_res (map_err map_error r) (\<lambda>p.
          validate_eof_decode_progress p 0 available_input output_index count), s, b, out)
        (\<lambda>p (s, b, out).
      case adi_consume AI (tp_read p) b of (r, b) \<Rightarrow>
        and_then (r, s, b, out) (\<lambda>_ (s, b, out). (Ok p, s, b, out)))))"

text \<open>\<open>reset\<close> and \<open>finish\<close> do no I/O and have the code of the synchronous input.\<close>

definition adi_reset ::
  "('s, 'u, 'o, 'e) transcoder \<Rightarrow> io_env \<Rightarrow> ('e \<Rightarrow> io_error) \<Rightarrow> 's \<Rightarrow> 'o list \<Rightarrow> nat \<Rightarrow> nat \<Rightarrow>
   (io_error, nat) res \<times> 's \<times> 'o list" where
  "adi_reset T E map_error s out output_index count = di_reset T E map_error s out output_index count"

definition adi_finish ::
  "('s, 'u, 'o, 'e) transcoder \<Rightarrow> io_env \<Rightarrow> ('e \<Rightarrow> io_error) \<Rightarrow> 's \<Rightarrow> 'o list \<Rightarrow> nat \<Rightarrow> nat \<Rightarrow>
   (io_error, nat) res \<times> 's \<times> 'o list" where
  "adi_finish T E map_error s out output_index count = di_finish T E map_error s out output_index count"

text \<open>The \<open>AsyncInput\<close> implementation passes through to the buffer.\<close>

definition adi_poll_read_unchecked ::
  "('b, 'u) async_buffered_input \<Rightarrow> 'b \<Rightarrow> 'u list \<Rightarrow> nat \<Rightarrow> nat \<Rightarrow> (io_error, nat) res poll \<times> 'b \<times> 'u list" where
  "adi_poll_read_unchecked AI b out index count = ai_poll_read_unchecked AI b out index count"

end
