(* ===== verification/DecodeSources.thy ===== *)
theory DecodeSources
  imports DecodeBatch
begin

text \<open>
  Streaming decoders that keep the contract of the batch call: the decode engine over an
  incremental codec, and \<open>MarkerDecoder\<close> of the fuzz target
  \<open>fuzz/fuzz_targets/transcode_decode_input_lifecycle.rs\<close>.
\<close>

section \<open>The decode engine\<close>

text \<open>The engine counts positions from the start of the window it is given.\<close>

fun shift_decode_error :: "nat \<Rightarrow> 'e decode_error \<Rightarrow> 'e decode_error" where
  "shift_decode_error k (DecodeDomain (DomainMain e i n)) = DecodeDomain (DomainMain e (k + i) n)"
| "shift_decode_error k (DecodeFailed (IncompleteInput i required available)) =
     DecodeFailed (IncompleteInput (k + i) required available)"
| "shift_decode_error k e = e"

lemma shift_decode_error_0 [simp]: "shift_decode_error 0 e = e"
  by (cases "(0 :: nat, e)" rule: shift_decode_error.cases) auto

lemma shift_decode_error_add: "shift_decode_error m (shift_decode_error n e) = shift_decode_error (m + n) e"
  by (cases "(n, e)" rule: shift_decode_error.cases) auto

fun shift_turn :: "nat \<Rightarrow> ('e decode_error, 'v, 'c) decode_turn \<Rightarrow> ('e decode_error, 'v, 'c) decode_turn" where
  "shift_turn k (TurnReject e c) = TurnReject (shift_decode_error k e) c"
| "shift_turn k t = t"

definition engine_run ::
  "('c, 'v, 'u, 'de, 'ee) codec \<Rightarrow> ('c, 'v, 'u, 'de) parser \<Rightarrow>
   ('h \<Rightarrow> 'de \<Rightarrow> nonzero option \<Rightarrow> 'v invalid_action) \<Rightarrow> ('h \<Rightarrow> 'de option \<Rightarrow> nonzero \<Rightarrow> 'v incomplete_action) \<Rightarrow>
   ('c \<times> 'h, 'u, 'v, 'de decode_error) stream_run" where
  "engine_run C parse on_invalid on_incomplete = (\<lambda>(c, h) eof xs room.
     case decode_stream C parse (on_invalid h) (on_incomplete h) eof 0 c xs room of
       (q, n, vs, c') \<Rightarrow> (q, n, vs, c', h))"

abbreviation engine_view :: "('c, 'h) decode_engine \<Rightarrow> 'c \<times> 'h" where
  "engine_view eng \<equiv> (de_codec eng, de_hooks eng)"

context incremental_decoder
begin

lemma settle_shift:
  "settle_incomplete f (k + i) len src req c = shift_turn k (settle_incomplete f i len src req c)"
  by (auto split: incomplete_action.splits option.splits)

lemma turn_shift: "turn h eof (k + i) c xs = shift_turn k (turn h eof i c xs)"
  by (auto simp: decode_turn_def settle_shift simp del: settle_incomplete.simps
      split: prod.splits sum.splits decode_failure.splits invalid_action.splits)

lemma stream_shift:
  "stream h eof (k + i) c xs room =
    (case stream h eof i c xs room of (q, n, vs, c') \<Rightarrow> (map_err (shift_decode_error k) q, n, vs, c'))"
proof (induction "length xs" arbitrary: i c xs room rule: less_induct)
  case less
  have "xs \<noteq> [] \<Longrightarrow> length (drop (nz_get m) xs) < length xs" for m by (cases xs) auto
  note IH = less [OF this]
  show ?case
    unfolding decode_stream.simps [of C parse "on_invalid h" "on_incomplete h" eof "k + i" c xs room]
      decode_stream.simps [of C parse "on_invalid h" "on_incomplete h" eof i c xs room]
    by (cases "turn h eof i c xs") (auto simp: turn_shift IH add.assoc split: prod.splits)
qed

lemma stream_not_short:
  assumes "stream h False i c xs room = (q, n, vs, c')" "xs \<noteq> []" "\<not> open_stop q"
  shows "\<not> length xs < min_units_per_value C"
  using assms by (auto simp: decode_stream_short)

text \<open>A stop for lack of output, or on an error, does not depend on what follows.\<close>

lemma stream_final:
  assumes "good c" "stream h False i c xs room = (q, n, vs, c')" "\<not> open_stop q"
  shows "stream h e i c (xs @ ys) room = (q, n, vs, c')"
  using assms(1,2)
proof (induction "length xs" arbitrary: i c xs room n vs rule: less_induct)
  case less
  note short = stream_not_short [OF less.prems(2) _ assms(3)]
  note turn = decode_stream_turn [of "xs @ ys" C e room parse "on_invalid h" "on_incomplete h" i c]
  from less.prems(2,1) show ?case
  proof (cases rule: stream_cases)
    case full
    with short show ?thesis by (simp add: decode_stream_full)
  next
    case (reject err)
    show ?thesis
    proof (cases "room = 0")
      case True
      with short reject less.prems(2) show ?thesis by (simp add: decode_stream_full)
    next
      case False
      with turn short reject turn_reject_final [OF less.prems(1) reject(2)] show ?thesis by simp
    qed
  next
    case (take m v c1 n1 ws)
    have smaller: "length (drop (nz_get m) xs) < length xs" using take(1) by (cases xs) auto
    from less.hyps [OF smaller take(6,9)] take short turn turn_final [OF less.prems(1) take(4), of e ys]
    show ?thesis by simp
  qed (use assms(3) in simp_all)
qed

lemma stream_need_input:
  assumes "good c" "stream h eof i c xs room = (Ok (NeedInput req), n, vs, c')"
  shows "length xs - n < nz_get req"
  using assms
proof (induction "length xs" arbitrary: i c xs room n vs rule: less_induct)
  case less
  from less.prems(2,1) show ?case
  proof (cases rule: stream_cases)
    case short
    with min_pos show ?thesis by simp
  next
    case (more r)
    with turn_more [OF less.prems(1) more(4)] show ?thesis by simp
  next
    case (take m v c1 n1 ws)
    have smaller: "length (drop (nz_get m) xs) < length xs" using take(1) by (cases xs) auto
    from less.hyps [OF smaller take(6,9)] take show ?thesis by simp
  qed simp_all
qed

end

sublocale incremental_decoder \<subseteq> batch: stream_decoder "decode_transcoder C H"
  "\<lambda>eng. good (de_codec eng) \<and> stream_phase (de_phase eng)" engine_view "\<lambda>(c, h). good c"
  "engine_run C parse on_invalid on_incomplete" shift_decode_error
proof
  fix eng j out eof xs q n vs c' r eng' out'
  assume live: "good (de_codec eng) \<and> stream_phase (de_phase eng)" and j: "j \<le> length out"
    and run: "engine_run C parse on_invalid on_incomplete (engine_view eng) eof xs (length out - j) = (q, n, vs, c')"
    and call: "decoder_call (decode_transcoder C H) eof eng xs 0 out j = (r, eng', out')"
  have "de_transcode_with_eof C H eng xs 0 out j eof = (r, eng', out')"
    using call by (cases eof) (simp_all add: decode_transcoder_def de_transcode_def de_transcode_eof_def)
  moreover obtain c1 where s: "stream (de_hooks eng) eof 0 (de_codec eng) (drop 0 xs) (length out - j) = (q, n, vs, c1)"
    "c' = (c1, de_hooks eng)"
    using run by (auto simp: engine_run_def split: prod.splits)
  ultimately have ref: "r = map_ok (\<lambda>st. progress_new st n (length vs)) q \<and> de_codec eng' = c1 \<and>
      de_hooks eng' = de_hooks eng \<and> de_phase eng' = Streaming \<and> out' = splice_at out j vs"
    using transcode_refines [OF _ _ le0 j, of eng eof xs] live by blast
  with s stream_bounds [OF _ s(1)] live
  show "r = map_ok (\<lambda>st. progress_new st n (length vs)) q \<and> out' = splice_at out j vs \<and> engine_view eng' = c' \<and>
      ((\<exists>st. q = Ok st) \<longrightarrow> good (de_codec eng') \<and> stream_phase (de_phase eng'))"
    by (auto simp: stream_phase_def)
next
  fix c eof xs room q n vs c'
  assume "case c of (c, h) \<Rightarrow> good c" "engine_run C parse on_invalid on_incomplete c eof xs room = (q, n, vs, c')"
  then obtain a h a' where s: "c = (a, h)" "c' = (a', h)" "good a" "stream h eof 0 a xs room = (q, n, vs, a')"
    by (cases c) (auto simp: engine_run_def split: prod.splits)
  have "st = Complete \<Longrightarrow> q = Ok st \<Longrightarrow> n = length xs" "st = NeedInput req \<Longrightarrow> q = Ok st \<Longrightarrow> length xs - n < nz_get req"
    "st = NeedOutput req \<Longrightarrow> q = Ok st \<Longrightarrow> length vs = room" for st req
    using stream_bounds [OF s(3,4)] stream_need_input [OF s(3)] s(4) by auto
  then have "status_holds st (length xs - n) (room - length vs)" if "q = Ok st" for st
    using that by (cases st) auto
  with stream_bounds [OF s(3,4)] s(2)
  show "q \<noteq> Panic \<and> n \<le> length xs \<and> length vs \<le> room \<and> ((\<exists>st. q = Ok st) \<longrightarrow> (case c' of (c, h) \<Rightarrow> good c)) \<and>
      (\<forall>st. q = Ok st \<longrightarrow> status_holds st (length xs - n) (room - length vs)) \<and>
      (eof \<longrightarrow> (\<forall>req. q \<noteq> Ok (NeedInput req)))"
    by auto
next
  fix c eof xs
  show "\<exists>st. engine_run C parse on_invalid on_incomplete c eof xs 0 = (Ok st, 0, [], c)"
    by (cases c) (simp add: engine_run_def decode_stream.simps)
next
  fix c xs room q n vs c' eof ys
  assume "case c of (c, h) \<Rightarrow> good c" "engine_run C parse on_invalid on_incomplete c False xs room = (q, n, vs, c')"
    "\<not> open_stop q"
  then show "engine_run C parse on_invalid on_incomplete c eof (xs @ ys) room = (q, n, vs, c')"
    using stream_final by (cases c) (auto simp: engine_run_def split: prod.splits)
next
  fix c xs room st n vs c' eof ys room2 q n2 vs2 c2
  assume "case c of (c, h) \<Rightarrow> good c"
    "engine_run C parse on_invalid on_incomplete c False xs room = (Ok st, n, vs, c')"
    "engine_run C parse on_invalid on_incomplete c' eof (drop n xs @ ys) room2 = (q, n2, vs2, c2)"
    "room \<le> length vs + room2"
  then obtain a h a1 q1 a2 where s: "c = (a, h)" "c' = (a1, h)" "c2 = (a2, h)" "good a"
      "stream h False 0 a xs room = (Ok st, n, vs, a1)" "stream h eof 0 a1 (drop n xs @ ys) room2 = (q, n2, vs2, a2)"
      "room \<le> length vs + room2"
    by (cases c) (auto simp: engine_run_def split: prod.splits)
  have "stream h eof (0 + n) a1 (drop n xs @ ys) room2 = (map_err (shift_decode_error n) q, n2, vs2, a2)"
    using stream_shift [of h eof n 0 a1 "drop n xs @ ys" room2] s(6) by simp
  from stream_resume [OF s(4,5) this s(7)] s(1-3)
  show "engine_run C parse on_invalid on_incomplete c eof (xs @ ys) (length vs + room2) =
      (map_err (shift_decode_error n) q, n + n2, vs @ vs2, c2)"
    by (simp add: engine_run_def)
qed (auto simp: shift_decode_error_add)

section \<open>MarkerDecoder\<close>

text \<open>Bytes pass through; a final \<open>TAIL\<close> is held back until the end of the input, where it becomes
  a question mark. The decoder counts its calls at end of input, which no output depends on.\<close>

definition decode_reset_byte :: u8 where "decode_reset_byte = 0xa2"
definition decode_finish_byte :: u8 where "decode_finish_byte = 0xf2"
definition tail_byte :: u8 where "tail_byte = 0xfe"

record marker_decoder =
  eof_empty_calls :: nat
  eof_tail_calls :: nat

function transcode_marker_loop ::
  "u8 list \<Rightarrow> nat \<Rightarrow> nat \<Rightarrow> bool \<Rightarrow> u8 list \<Rightarrow> nat \<Rightarrow> nat \<Rightarrow> transcode_progress \<times> u8 list" where
  "transcode_marker_loop input input_index output_index end_of_input out rd wr =
    (if input_index + rd < length input then
       let index = input_index + rd;
           last_marker = (input ! index = tail_byte \<and> index + 1 = length input) in
       if last_marker \<and> \<not> end_of_input then (progress_need_input (NZ 1) rd wr, out)
       else if output_index + wr = length out then (progress_need_output (NZ 0) rd wr, out)
       else transcode_marker_loop input input_index output_index end_of_input
         (out[output_index + wr := (if last_marker then question_mark else input ! index)]) (rd + 1) (wr + 1)
     else (progress_complete rd wr, out))"
  by pat_completeness auto
termination
  by (relation "measure (\<lambda>(input, i, j, eof, out, rd, wr). length input - (i + rd))") auto

declare transcode_marker_loop.simps [simp del]

definition transcode_marker ::
  "u8 list \<Rightarrow> nat \<Rightarrow> u8 list \<Rightarrow> nat \<Rightarrow> bool \<Rightarrow> (infallible decode_error, transcode_progress) res \<times> u8 list" where
  "transcode_marker input input_index out output_index end_of_input =
    and_then (map_err DecodeFailed (ensure_transcode_indices (length input) input_index (length out) output_index), out)
      (\<lambda>_ out. case transcode_marker_loop input input_index output_index end_of_input out 0 0 of
        (p, out) \<Rightarrow> (Ok p, out))"

definition md_transcode_eof ::
  "marker_decoder \<Rightarrow> u8 list \<Rightarrow> nat \<Rightarrow> u8 list \<Rightarrow> nat \<Rightarrow>
   (infallible decode_error, transcode_progress) res \<times> marker_decoder \<times> u8 list" where
  "md_transcode_eof d input input_index out output_index =
    (let d = (if input_index = length input then d\<lparr>eof_empty_calls := eof_empty_calls d + 1\<rparr>
              else if input \<noteq> [] \<and> last input = tail_byte then d\<lparr>eof_tail_calls := eof_tail_calls d + 1\<rparr>
              else d) in
     case transcode_marker input input_index out output_index True of (r, out) \<Rightarrow> (r, d, out))"

definition marker_decoder_transcoder :: "(marker_decoder, u8, u8, infallible decode_error) transcoder" where
  "marker_decoder_transcoder =
    \<lparr>from_failure = DecodeFailed,
     max_reset_output_len = (\<lambda>d. Ok 1),
     max_transcode_output_len = (\<lambda>d n. Ok n),
     max_finish_output_len = (\<lambda>d. Ok 1),
     tr_reset = (\<lambda>d out i. if i < length out then (Ok 1, d, out[i := decode_reset_byte]) else (Panic, d, out)),
     tr_transcode = (\<lambda>d input i out j. case transcode_marker input i out j False of (r, out) \<Rightarrow> (r, d, out)),
     tr_transcode_eof = md_transcode_eof,
     tr_finish = (\<lambda>d out i. if i < length out then (Ok 1, d, out[i := decode_finish_byte]) else (Panic, d, out))\<rparr>"

text \<open>Its run, on lists.\<close>

fun marker_run_list :: "bool \<Rightarrow> u8 list \<Rightarrow> nat \<Rightarrow> transcode_status \<times> nat \<times> u8 list" where
  "marker_run_list eof [] room = (Complete, 0, [])"
| "marker_run_list eof (b # bs) room =
    (if b = tail_byte \<and> bs = [] \<and> \<not> eof then (NeedInput (NZ 1), 0, [])
     else if room = 0 then (NeedOutput (NZ 0), 0, [])
     else case marker_run_list eof bs (room - 1) of
       (st, n, vs) \<Rightarrow> (st, n + 1, (if b = tail_byte \<and> bs = [] then question_mark else b) # vs))"

definition marker_run :: "(unit, u8, u8, infallible decode_error) stream_run" where
  "marker_run c eof xs room = (case marker_run_list eof xs room of (st, n, vs) \<Rightarrow> (Ok st, n, vs, c))"

lemma marker_loop_run:
  assumes "j + wr \<le> length out" "i + rd \<le> length input"
    and "marker_run_list eof (drop (i + rd) input) (length out - (j + wr)) = (st, n, vs)"
  shows "transcode_marker_loop input i j eof out rd wr = (progress_new st (rd + n) (wr + length vs), splice_at out (j + wr) vs)"
  using assms
proof (induction "length input - (i + rd)" arbitrary: out rd wr n vs rule: less_induct)
  case less
  note loop = transcode_marker_loop.simps [of input i j eof out rd wr]
  show ?case
  proof (cases "i + rd < length input")
    case False
    with less.prems loop show ?thesis by (simp add: progress_complete_def)
  next
    case True
    let ?b = "input ! (i + rd)"
    let ?m = "?b = tail_byte \<and> i + rd + 1 = length input"
    have d: "drop (i + rd) input = ?b # drop (i + (rd + 1)) input" using True by (simp add: Cons_nth_drop_Suc)
    have last: "drop (i + (rd + 1)) input = [] \<longleftrightarrow> i + rd + 1 = length input" using True by auto
    note run = less.prems(3) [unfolded d marker_run_list.simps last]
    show ?thesis
    proof (cases "(?m \<and> \<not> eof) \<or> length out - (j + wr) = 0")
      case stop: True
      with True loop run less.prems(1) show ?thesis
        by (auto simp: Let_def progress_defs split: if_splits)
    next
      case False
      obtain st1 n1 vs1 where r1: "marker_run_list eof (drop (i + (rd + 1)) input) (length out - (j + wr) - 1) = (st1, n1, vs1)"
        by (metis prod_cases3)
      let ?v = "if ?m then question_mark else ?b" and ?out = "out[j + wr := (if ?m then question_mark else ?b)]"
      have eq: "st = st1" "n = n1 + 1" "vs = ?v # vs1" using run r1 False by auto
      have "transcode_marker_loop input i j eof ?out (rd + 1) (wr + 1) =
          (progress_new st (rd + 1 + n1) (wr + 1 + length vs1), splice_at ?out (j + (wr + 1)) vs1)"
        by (rule less.hyps) (use True False less.prems(1) r1 eq in \<open>auto simp: diff_diff_left\<close>)
      moreover have "splice_at ?out (j + wr + 1) vs1 = splice_at out (j + wr) vs"
        using splice_at_append [of "j + wr" "[?v]" out vs1] False eq by (simp add: splice_at_single)
      moreover have "transcode_marker_loop input i j eof out rd wr =
          transcode_marker_loop input i j eof ?out (rd + 1) (wr + 1)"
        unfolding loop using True False less.prems(1) by (auto simp: Let_def)
      ultimately show ?thesis using eq by simp
    qed
  qed
qed

lemma marker_call:
  assumes "j \<le> length out" "marker_run_list eof xs (length out - j) = (st, n, vs)"
  shows "transcode_marker xs 0 out j eof = (Ok (progress_new st n (length vs)), splice_at out j vs)"
proof -
  have "ensure_transcode_indices (length xs) 0 (length out) j = Ok ()" using assms(1) by (simp add: check_simps)
  with marker_loop_run [of j 0 out 0 0 xs eof st n vs] assms show ?thesis by (simp add: transcode_marker_def)
qed

lemma marker_run_list_bounds:
  assumes "marker_run_list eof xs room = (st, n, vs)"
  shows "n \<le> length xs \<and> length vs \<le> room \<and> status_holds st (length xs - n) (room - length vs) \<and>
    (eof \<longrightarrow> (\<forall>req. st \<noteq> NeedInput req))"
  using assms by (induction eof xs room arbitrary: st n vs rule: marker_run_list.induct)
    (fastforce split: if_splits prod.splits)+

lemma marker_run_list_full: "marker_run_list eof xs 0 = (st, n, vs) \<Longrightarrow> n = 0 \<and> vs = []"
  by (cases xs) (auto split: if_splits)

lemma not_open_stop_Ok: "\<not> open_stop (Ok st) \<longleftrightarrow> (\<exists>req. st = NeedOutput req)"
  by (cases st) auto

lemma marker_run_list_stuck:
  assumes "marker_run_list False xs room = (NeedOutput req, n, vs)"
  shows "marker_run_list eof (xs @ ys) room = (NeedOutput req, n, vs)"
  using assms by (induction xs arbitrary: room n vs) (auto split: if_splits prod.splits)

lemma marker_run_list_final:
  assumes "marker_run_list False xs room = (NeedOutput req, n, vs)" "marker_run_list eof (xs @ ys) room = (st, m, ws)"
  shows "st = NeedOutput req \<and> m = n \<and> ws = vs"
  using marker_run_list_stuck [OF assms(1), of eof ys] assms(2) by simp

lemma marker_run_list_resume:
  assumes "marker_run_list False xs room = (st, n, vs)" "marker_run_list eof (drop n xs @ ys) room2 = (st2, n2, vs2)"
    and "room \<le> length vs + room2"
  shows "marker_run_list eof (xs @ ys) (length vs + room2) = (st2, n + n2, vs @ vs2)"
  using assms by (induction xs arbitrary: room n vs) (auto split: if_splits prod.splits)

interpretation marker_source: stream_decoder marker_decoder_transcoder "\<lambda>_. True" "\<lambda>_. ()" "\<lambda>_. True"
  marker_run "\<lambda>_ e. e"
  by unfold_locales
    (auto simp: marker_run_def marker_decoder_transcoder_def md_transcode_eof_def marker_call map_err_id Let_def
      not_open_stop_Ok dest: marker_run_list_full marker_run_list_bounds marker_run_list_final marker_run_list_resume split: prod.splits if_splits)

text \<open>The payload the fuzz target expects to see decoded.\<close>

definition expected_output :: "u8 list \<Rightarrow> u8 list" where
  "expected_output payload =
    (if payload \<noteq> [] \<and> last payload = tail_byte then butlast payload @ [question_mark] else payload)"

lemma expected_output_length [simp]: "length (expected_output xs) = length xs"
  by (simp add: expected_output_def)

lemma expected_output_Cons:
  "expected_output (b # bs) = (if bs = [] \<and> b = tail_byte then question_mark else b) # expected_output bs"
  by (auto simp: expected_output_def)

lemma marker_run_list_eof:
  "\<exists>st. marker_run_list True xs room = (st, min room (length xs), take room (expected_output xs))"
proof (induction xs arbitrary: room)
  case Nil
  then show ?case by (simp add: expected_output_def)
next
  case (Cons b bs)
  show ?case
  proof (cases room)
    case (Suc k)
    obtain st where "marker_run_list True bs k = (st, min k (length bs), take k (expected_output bs))"
      using Cons by blast
    with Suc show ?thesis by (auto simp: expected_output_Cons)
  qed simp
qed

section \<open>The bridge over the in-memory source\<close>

lemma sample_range: "i + n \<le> len \<Longrightarrow> env_range_end sample_env len i n msg = Ok (i + n)"
  by (simp add: sample_env_def)

interpretation u16be_bridge: decode_bridge "decode_transcoder u16be_codec (codec_transcode_decode_hooks u16be_codec)"
  "\<lambda>eng. any_state (de_codec eng) \<and> stream_phase (de_phase eng)" engine_view "\<lambda>(c, h). any_state c"
  "engine_run u16be_codec u16be_parse strict_invalid strict_incomplete" shift_decode_error
  scripted_input sample_env scripted_rest "scripted_ok fault" fault
  for fault
  by unfold_locales (simp add: sample_range)

interpretation marker_codec_bridge: decode_bridge "decode_transcoder marker_codec (codec_transcode_decode_hooks marker_codec)"
  "\<lambda>eng. any_state (de_codec eng) \<and> stream_phase (de_phase eng)" engine_view "\<lambda>(c, h). any_state c"
  "engine_run marker_codec marker_parse strict_invalid strict_incomplete" shift_decode_error
  scripted_input sample_env scripted_rest "scripted_ok fault" fault
  for fault
  by unfold_locales (simp add: sample_range)

interpretation protocol_bridge: decode_bridge "decode_transcoder protocol_codec protocol_decode_hooks"
  "\<lambda>eng. any_state (de_codec eng) \<and> stream_phase (de_phase eng)" engine_view "\<lambda>(c, h). any_state c"
  "engine_run protocol_codec protocol_parse protocol_on_invalid protocol_on_incomplete" shift_decode_error
  scripted_input sample_env scripted_rest "scripted_ok fault" fault
  for fault
  by unfold_locales (simp add: sample_range)

interpretation marker_bridge: decode_bridge marker_decoder_transcoder "\<lambda>_. True" "\<lambda>_. ()" "\<lambda>_. True"
  marker_run "\<lambda>_ e. e" scripted_input sample_env scripted_rest "scripted_ok fault" fault
  for fault
  by unfold_locales (simp add: sample_range)

section \<open>Properties\<close>

text \<open>C10. \<open>transcode\<close> on a decode input always returns, and what it does is one run of the decoder
  over the stream as known to its end, with the requested count as room: the values, the units
  taken and the decoder's state, however the input arrives in pieces. A fault of the input leaves
  the decoder paused at a point from which a later call completes the same run; an error of the
  decoder is the error of the run, and the window it was found in is not consumed.\<close>

theorem transcode_reads_one_run:
  assumes "decode_bridge T live view valid run shift BI E rest ok fault"
    and "di_sound BI rest ok d" "live s" "j + count \<le> length out" "length out \<le> usize_max"
  shows "\<exists>r s' d' out'. di_transcode T BI E map_error s d out j count = Some (r, s', d', out') \<and>
    batch_result run shift view live BI rest ok fault map_error (view s) (rest (di_input d)) out j count 0
      r s' d' out'"
  by (rule decode_bridge.transcode_result [OF assms])

text \<open>With the decode engine a short count means the end: a call that returns fewer values than
  asked for, without an error, has taken the whole stream.\<close>

theorem engine_short_count_ends:
  assumes "incremental_decoder C H good parse on_invalid on_incomplete"
    and "decode_bridge (decode_transcoder C H) (\<lambda>eng. good (de_codec eng) \<and> stream_phase (de_phase eng)) engine_view
      (\<lambda>(c, h). good c) (engine_run C parse on_invalid on_incomplete) shift_decode_error BI E rest ok fault"
    and "di_sound BI rest ok d" "good (de_codec eng)" "stream_phase (de_phase eng)"
    and "j + count \<le> length out" "length out \<le> usize_max"
    and "di_transcode (decode_transcoder C H) BI E map_error eng d out j count = Some (Ok w, eng', d', out')" "w < count"
  shows "rest (di_input d') = []"
proof -
  from decode_bridge.transcode_result [OF assms(2,3) _ assms(6,7), of eng map_error] assms(4,5,8)
  obtain n vs st c where run: "rest (di_input d') = drop n (rest (di_input d))" "w = length vs"
    "engine_run C parse on_invalid on_incomplete (engine_view eng) True (rest (di_input d)) count = (Ok st, n, vs, c)"
    by (auto simp: batch_result_def)
  from run(3) obtain c1 where
    "decode_stream C parse (on_invalid (de_hooks eng)) (on_incomplete (de_hooks eng)) True 0 (de_codec eng)
      (rest (di_input d)) count = (Ok st, n, vs, c1)"
    by (auto simp: engine_run_def split: prod.splits)
  from decoder_codec.stream_bounds [OF incremental_decoder.axioms(1) [OF assms(1)] assms(4) this] run assms(9)
  show ?thesis by (cases st) auto
qed

end
