(* ===== verification/AsyncReading.thy ===== *)
theory AsyncReading
  imports AsyncInput DecodeSources
begin

text \<open>
  What the polls of \<open>AsyncTranscodeDecodeInput\<close> add up to. A poll that is not ready changes
  nothing but the buffered input's own state; a ready one is a commit point. However the polls are
  cut, cancelled and repeated, they make one run of the decoder over the stream, the run that the
  synchronous call makes.
\<close>

section \<open>What the bridge relies on\<close>

text \<open>\<open>rest\<close>, \<open>ok\<close> and \<open>fault\<close> as for a synchronous source; \<open>waits\<close> bounds the polls that are not
  ready.\<close>

locale async_source =
  fixes AI :: "('b, 'u) async_buffered_input" and E :: io_env
    and rest :: "'b \<Rightarrow> 'u list" and ok :: "'b \<Rightarrow> bool" and fault :: "io_error \<Rightarrow> bool" and waits :: "'b \<Rightarrow> nat"
  assumes unread_prefix: "ok b \<Longrightarrow> \<exists>ys. rest b = ai_unread AI b @ ys"
    and unread_fits: "ok b \<Longrightarrow> length (ai_unread AI b) \<le> usize_max"
    and consume_law: "ok b \<Longrightarrow> n \<le> length (ai_unread AI b) \<Longrightarrow>
        ok (ai_consume AI b n) \<and> ai_unread AI (ai_consume AI b n) = drop n (ai_unread AI b) \<and>
        rest (ai_consume AI b n) = drop n (rest b) \<and> waits (ai_consume AI b n) = waits b"
    and reserve_law: "ok b \<Longrightarrow> ai_try_reserve_capacity AI b n = (q, b') \<Longrightarrow>
        q \<noteq> Panic \<and> ok b' \<and> ai_unread AI b' = ai_unread AI b \<and> rest b' = rest b \<and>
        (q = Ok () \<longrightarrow> n \<le> ai_capacity AI b') \<and> (\<forall>w. q = Err w \<longrightarrow> fault (env_allocation_error E w))"
    and fill_more_law: "ok b \<Longrightarrow> ai_poll_fill_more AI b = (p, b') \<Longrightarrow>
        ok b' \<and> rest b' = rest b \<and> p \<noteq> Ready Panic \<and>
        (p = NotReady \<longrightarrow> ai_unread AI b' = ai_unread AI b \<and> waits b' < waits b) \<and>
        (p = Ready (Ok True) \<longrightarrow> length (ai_unread AI b) < length (ai_unread AI b')) \<and>
        (p = Ready (Ok False) \<longrightarrow> ai_unread AI b' = ai_unread AI b \<and> rest b = ai_unread AI b) \<and>
        (\<forall>e. p = Ready (Err e) \<longrightarrow> fault e)"
    and fill_until_law: "ok b \<Longrightarrow> n \<le> ai_capacity AI b \<Longrightarrow> ai_poll_fill_until AI n b = (p, b') \<Longrightarrow>
        ok b' \<and> rest b' = rest b \<and> p \<noteq> Ready Panic \<and> (\<exists>more. ai_unread AI b' = ai_unread AI b @ more) \<and>
        (p = NotReady \<longrightarrow> n \<le> ai_capacity AI b' \<and> waits b' < waits b) \<and>
        (p = Ready (Ok True) \<longrightarrow> n \<le> length (ai_unread AI b')) \<and>
        (p = Ready (Ok False) \<longrightarrow> ai_unread AI b' = rest b \<and> length (rest b) < n) \<and>
        (\<forall>e. p = Ready (Err e) \<longrightarrow> fault e)"
begin

lemma fill_until_returns:
  assumes "ok b"
  shows "\<exists>r b'. adi_fill_until_async AI E n b = Some (r, b') \<and> r \<noteq> Panic \<and> ok b' \<and> rest b' = rest b \<and>
    (r = Ok True \<longrightarrow> n \<le> length (ai_unread AI b')) \<and>
    (r = Ok False \<longrightarrow> ai_unread AI b' = rest b \<and> length (rest b) < n) \<and> (\<forall>e. r = Err e \<longrightarrow> fault e)"
    (is "\<exists>r b'. _ = Some (r, b') \<and> ?P r b'")
proof -
  have go: "\<exists>r b'. await (ai_poll_fill_until AI n) b1 = Some (r, b') \<and> ?P r b'"
    if "ok b1 \<and> n \<le> ai_capacity AI b1 \<and> rest b1 = rest b" for b1
    using that
  proof (rule await_returns [where f = waits and I = "\<lambda>b1. ok b1 \<and> n \<le> ai_capacity AI b1 \<and> rest b1 = rest b"])
    fix st st'
    assume i: "ok st \<and> n \<le> ai_capacity AI st \<and> rest st = rest b" and "ai_poll_fill_until AI n st = (NotReady, st')"
    from fill_until_law [OF _ _ this(2)] i
    show "(ok st' \<and> n \<le> ai_capacity AI st' \<and> rest st' = rest b) \<and> waits st' < waits st" by simp
  next
    fix st r st'
    assume i: "ok st \<and> n \<le> ai_capacity AI st \<and> rest st = rest b" and "ai_poll_fill_until AI n st = (Ready r, st')"
    from fill_until_law [OF _ _ this(2)] i show "?P r st'" by auto
  qed
  obtain q b1 where res: "ai_try_reserve_capacity AI b n = (q, b1)" by (metis surj_pair)
  with reserve_law [OF assms res] go [of b1] go [of b] assms show ?thesis
    by (cases q) (auto simp: adi_fill_until_async_def)
qed

end

section \<open>Polls of a decoder\<close>

locale async_decode_bridge =
  stream_decoder T live view valid run shift + async_source AI E rest ok fault waits
  for T :: "('s, 'u, 'o, 'e) transcoder" and live and view :: "'s \<Rightarrow> 'c" and valid and run and shift
    and AI :: "('b, 'u) async_buffered_input" and E and rest and ok and fault and waits +
  assumes range_law: "i + n \<le> len \<Longrightarrow> len \<le> usize_max \<Longrightarrow> env_range_end E len i n msg = Ok (i + n)"
begin

lemma decode_window_result:
  assumes "ok b" "live s" "j + count \<le> length out" "length out \<le> usize_max" "ai_unread AI b \<noteq> []"
    and "adi_decode_window T AI f s b out j (j + count) count = (r, s', b', out')"
  shows "ok b' \<and> waits b' = waits b \<and> (case r of
      Ok (StepProgress p) \<Rightarrow> \<exists>vs. tp_written p = length vs \<and> live s' \<and> out' = splice_at out j vs \<and>
        rest b' = drop (tp_read p) (rest b) \<and> stops count (view s) (rest b) (tp_read p) vs (view s')
    | Ok EndOfInput \<Rightarrow> False
    | Err e \<Rightarrow> b' = b \<and> (\<exists>e' m vs. e = f e' \<and> out' = splice_at out j vs \<and>
        run (view s) True (rest b) count = (Err e', m, vs, view s'))
    | Panic \<Rightarrow> False)"
proof -
  let ?x = "ai_unread AI b"
  obtain ys where xs: "rest b = ?x @ ys" using unread_prefix [OF assms(1)] by blast
  note valid = live_valid [OF assms(2)]
  obtain q n vs c' where run: "run (view s) False ?x count = (q, n, vs, c')" by (metis prod_cases4)
  obtain r1 s1 o1 where call: "prefix_call out (j + count)
      (decoder_call T False s ?x 0 (take (j + count) out) j) = (r1, s1, o1)" by (metis prod_cases3)
  note w = run_call [OF assms(2-4) unread_fits [OF assms(1)] run call, of f]
  note def = adi_decode_window_def Let_def
  show ?thesis
  proof (cases q)
    case (Ok st)
    have n: "n \<le> length ?x" using w by simp
    have "stops count (view s) (?x @ ys) n vs c'"
      using run_resume [OF valid run [unfolded Ok], of True ys] w n by (auto simp: paused_def)
    moreover have "r = Ok (StepProgress (progress_new st n (length vs)))" "s' = s1" "b' = ai_consume AI b n" "out' = o1"
      using assms(6) call w Ok n by (simp_all add: def adi_consume_def progress_defs)
    ultimately show ?thesis using w Ok consume_law [OF assms(1) n] xs
      by (auto simp: progress_defs)
  next
    case (Err e)
    have "run (view s) True (?x @ ys) count = (Err e, n, vs, c')" using run_final [OF valid run] Err by simp
    moreover have "r = Err (f e)" "s' = s1" "b' = b" "out' = o1"
      using assms(6) call w Err by (simp_all add: def)
    ultimately show ?thesis using w assms(1) xs by auto
  qed (use w in simp)
qed

text \<open>One poll: not ready, it leaves the decoder, the output and the stream as they were.\<close>

lemma poll_result:
  assumes "ok b" "live s" "j + count \<le> length out" "length out \<le> usize_max" "0 < count"
    and "adi_poll_transcode T AI E f j count (s, b, out) = (p, s', b', out')"
  shows "ok b' \<and> (case p of
      NotReady \<Rightarrow> s' = s \<and> out' = out \<and> rest b' = rest b \<and> ai_unread AI b' = ai_unread AI b \<and> waits b' < waits b
    | Ready (Ok EndOfInput) \<Rightarrow> s' = s \<and> out' = out \<and> rest b' = [] \<and> ai_unread AI b' = [] \<and> rest b = []
    | Ready (Ok (StepProgress p)) \<Rightarrow> \<exists>vs. tp_written p = length vs \<and> live s' \<and> out' = splice_at out j vs \<and>
        rest b' = drop (tp_read p) (rest b) \<and> stops count (view s) (rest b) (tp_read p) vs (view s')
    | Ready (Err e) \<Rightarrow> rest b' = rest b \<and> (fault e \<and> s' = s \<and> out' = out \<or>
        (\<exists>e' m vs. e = f e' \<and> out' = splice_at out j vs \<and> run (view s) True (rest b) count = (Err e', m, vs, view s')))
    | Ready Panic \<Rightarrow> False)"
proof -
  have range: "env_range_end E (length out) j count msg = Ok (j + count)" for msg using range_law assms(3,4) by simp
  obtain q b1 where fill: "(if ai_unread AI b = [] then ai_poll_fill_more AI b else (Ready (Ok True), b)) = (q, b1)"
    by (metis surj_pair)
  have q: "ok b1" "rest b1 = rest b" "q \<noteq> Ready Panic" "q = NotReady \<Longrightarrow> ai_unread AI b1 = ai_unread AI b \<and> waits b1 < waits b"
    "q = Ready (Ok True) \<Longrightarrow> ai_unread AI b1 \<noteq> []" "q = Ready (Ok False) \<Longrightarrow> ai_unread AI b1 = [] \<and> rest b = []"
    "\<And>e. q = Ready (Err e) \<Longrightarrow> fault e"
    using fill fill_more_law [OF assms(1), of q b1] assms(1) by (auto split: if_splits)
  note def = adi_poll_transcode_def range fill
  show ?thesis
  proof (cases "q = Ready (Ok True)")
    case True
    obtain r s1 b2 o1 where dw: "adi_decode_window T AI f s b1 out j (j + count) count = (r, s1, b2, o1)"
      by (metis prod_cases4)
    note win = decode_window_result [OF q(1) assms(2-4) q(5) [OF True] dw, unfolded q(2)]
    have "p = Ready r" "s' = s1" "b' = b2" "out' = o1" using assms(5,6) dw True by (simp_all add: def)
    with win q(2) show ?thesis by (auto split: res.splits async_decode_step.splits)
  next
    case False
    with assms(5,6) q show ?thesis by (auto simp: def split: poll.splits res.splits)
  qed
qed

lemma transcode_async_returns:
  assumes "ok b" "live s" "j + count \<le> length out" "length out \<le> usize_max"
  shows "\<exists>r st. adi_transcode_async T AI E f j count (s, b, out) = Some (r, st)"
proof (cases "count = 0")
  case True
  have "env_range_end E (length out) j 0 msg = Ok j" for msg using range_law [of j 0] assms(3,4) by simp
  with True show ?thesis by (simp add: adi_transcode_async_def await.simps adi_poll_transcode_def)
next
  case False
  have "\<exists>r st. await (adi_poll_transcode T AI E f j count) (s, b, out) = Some (r, st) \<and> True"
  proof (rule await_returns [where f = "\<lambda>(s, b, out). waits b" and I = "\<lambda>(s', b', out'). s' = s \<and> ok b' \<and> out' = out"])
    fix st st'
    assume "case st of (s', b', out') \<Rightarrow> s' = s \<and> ok b' \<and> out' = out" "adi_poll_transcode T AI E f j count st = (NotReady, st')"
    then obtain b1 s2 b2 o2 where "st = (s, b1, out)" "ok b1" "st' = (s2, b2, o2)"
      "adi_poll_transcode T AI E f j count (s, b1, out) = (NotReady, s2, b2, o2)" by (cases st, cases st') auto
    with poll_result [of b1 s j count out f NotReady s2 b2 o2] assms False
    show "(case st' of (s', b', out') \<Rightarrow> s' = s \<and> ok b' \<and> out' = out) \<and>
      (case st' of (s, b, out) \<Rightarrow> waits b) < (case st of (s, b, out) \<Rightarrow> waits b)" by simp
  qed (use assms in simp_all)
  then show ?thesis by (simp add: adi_transcode_async_def)
qed

end

section \<open>A caller's polls\<close>

text \<open>A caller decodes into \<open>count\<close> positions from \<open>j\<close> on, each poll behind the values it has
  already, \<open>w\<close> of them. Polls may be not ready, be abandoned and repeated; the caller may also ask
  for more units.\<close>

inductive adi_driven ::
  "('s, 'u, 'o, 'e) transcoder \<Rightarrow> ('b, 'u) async_buffered_input \<Rightarrow> io_env \<Rightarrow> ('e \<Rightarrow> io_error) \<Rightarrow> nat \<Rightarrow> nat \<Rightarrow>
   's \<times> 'b \<times> 'o list \<Rightarrow> nat \<Rightarrow> 's \<times> 'b \<times> 'o list \<Rightarrow> bool"
  for T AI E f j count st0 where
  start: "adi_driven T AI E f j count st0 0 st0"
| waiting: "adi_driven T AI E f j count st0 w st'"
    if "adi_driven T AI E f j count st0 w st" "adi_poll_transcode T AI E f (j + w) (count - w) st = (NotReady, st')"
| step: "adi_driven T AI E f j count st0 (w + tp_written p) st'"
    if "adi_driven T AI E f j count st0 w st" "w < count"
      "adi_poll_transcode T AI E f (j + w) (count - w) st = (Ready (Ok (StepProgress p)), st')"
| ended: "adi_driven T AI E f j count st0 w st'"
    if "adi_driven T AI E f j count st0 w st" "w < count"
      "adi_poll_transcode T AI E f (j + w) (count - w) st = (Ready (Ok EndOfInput), st')"
| fill: "adi_driven T AI E f j count st0 w (s, b', out)"
    if "adi_driven T AI E f j count st0 w (s, b, out)" "ai_poll_fill_more AI b = (p, b')"

context async_decode_bridge
begin

lemma poll_zero:
  assumes "j \<le> length out" "length out \<le> usize_max"
  shows "adi_poll_transcode T AI E f j 0 (s, b, out) = (Ready (Ok (StepProgress (progress_complete 0 0))), s, b, out)"
  using range_law [of j 0 "length out"] assms by (simp add: adi_poll_transcode_def)

lemma driven_paused:
  assumes "adi_driven T AI E f j count (s0, b0, out0) w st" "ok b0" "live s0" "j + count \<le> length out0" "length out0 \<le> usize_max"
  shows "\<exists>s b n vs. st = (s, b, splice_at out0 j vs) \<and> w = length vs \<and> ok b \<and> live s \<and>
    rest b = drop n (rest b0) \<and> stops count (view s0) (rest b0) n vs (view s)"
  using assms(1)
proof (induction w st rule: adi_driven.induct)
  case start
  with assms(2,3) show ?case
    by (intro exI [of _ s0] exI [of _ b0] exI [of _ 0] exI [of _ "[]"]) (simp add: stops_refl)
next
  case (waiting w st st')
  then obtain s b n vs where i: "st = (s, b, splice_at out0 j vs)" "w = length vs" "ok b" "live s"
    "rest b = drop n (rest b0)" "stops count (view s0) (rest b0) n vs (view s)" by blast
  obtain s1 b1 o1 where st': "st' = (s1, b1, o1)" by (cases st')
  have fits: "j + w + (count - w) \<le> length (splice_at out0 j vs)" "length (splice_at out0 j vs) \<le> usize_max"
    using i(2,6) assms(4,5) by (simp_all add: paused_def)
  then have "0 < count - w" using waiting.hyps(2) poll_zero [of "j + w" "splice_at out0 j vs"] i(1) by (cases "count - w") auto
  from poll_result [OF i(3,4) fits this, of f NotReady s1 b1 o1] waiting.hyps(2) i st' show ?case
    by (intro exI [of _ s1] exI [of _ b1] exI [of _ n] exI [of _ vs]) simp
next
  case (step w st p st')
  then obtain s b n vs where i: "st = (s, b, splice_at out0 j vs)" "w = length vs" "ok b" "live s"
    "rest b = drop n (rest b0)" "stops count (view s0) (rest b0) n vs (view s)" by blast
  obtain s1 b1 o1 where st': "st' = (s1, b1, o1)" by (cases st')
  have fits: "j + w + (count - w) \<le> length (splice_at out0 j vs)" "length (splice_at out0 j vs) \<le> usize_max"
    "0 < count - w" using i(2,6) assms(4,5) step.hyps(2) by (simp_all add: paused_def)
  from poll_result [OF i(3,4) fits, of f "Ready (Ok (StepProgress p))" s1 b1 o1] step.hyps(3) i(1) st'
  obtain ws where w: "ok b1" "tp_written p = length ws" "live s1" "o1 = splice_at (splice_at out0 j vs) (j + w) ws"
    "rest b1 = drop (tp_read p) (rest b)" "stops (count - w) (view s) (rest b) (tp_read p) ws (view s1)" by auto
  have "stops count (view s0) (rest b0) (n + tp_read p) (vs @ ws) (view s1)"
    using stops_trans [OF i(6)] w(6) i(2,5) by simp
  moreover have "j + length (vs @ ws) \<le> length out0" using calculation assms(4) by (simp add: paused_def)
  then have "o1 = splice_at out0 j (vs @ ws)" using w(4) i(2) by (simp add: splice_at_append)
  ultimately show ?case using w i st'
    by (intro exI [of _ s1] exI [of _ b1] exI [of _ "n + tp_read p"] exI [of _ "vs @ ws"]) (simp add: add.commute)
next
  case (ended w st st')
  then obtain s b n vs where i: "st = (s, b, splice_at out0 j vs)" "w = length vs" "ok b" "live s"
    "rest b = drop n (rest b0)" "stops count (view s0) (rest b0) n vs (view s)" by blast
  obtain s1 b1 o1 where st': "st' = (s1, b1, o1)" by (cases st')
  have fits: "j + w + (count - w) \<le> length (splice_at out0 j vs)" "length (splice_at out0 j vs) \<le> usize_max"
    "0 < count - w" using i(2,6) assms(4,5) ended.hyps(2) by (simp_all add: paused_def)
  from poll_result [OF i(3,4) fits, of f "Ready (Ok EndOfInput)" s1 b1 o1] ended.hyps(3) i st' show ?case
    by (intro exI [of _ s1] exI [of _ b1] exI [of _ n] exI [of _ vs]) simp
next
  case (fill w s b out p b')
  then show ?case using fill_more_law [OF _ fill.hyps(2)] by fastforce
qed

text \<open>The call at end of input completes the run.\<close>

lemma driven_completes:
  assumes "adi_driven T AI E f j count (s0, b0, out0) w (s, b, out)" "ok b0" "live s0"
    and "j + count \<le> length out0" "length out0 \<le> usize_max" "ai_unread AI b = rest b"
    and "adi_transcode_eof_step T AI E f (j + w) (count - w) (s, b, out) = (r, s', b', out')"
  shows "ok b' \<and> (\<exists>n vs. out' = splice_at out0 j vs \<and> rest b' = drop n (rest b0) \<and> n \<le> length (rest b0) \<and> (case r of
      Ok p \<Rightarrow> w + tp_written p = length vs \<and> live s' \<and>
        (\<exists>st. run (view s0) True (rest b0) count = (Ok st, n, vs, view s'))
    | Err e \<Rightarrow> \<exists>e' m. e = f e' \<and> n \<le> m \<and> run (view s0) True (rest b0) count = (Err (shift n e'), m, vs, view s')
    | Panic \<Rightarrow> False))"
proof -
  from driven_paused [OF assms(1-5)] obtain n vs where i: "out = splice_at out0 j vs" "w = length vs" "ok b" "live s"
    "rest b = drop n (rest b0)" "stops count (view s0) (rest b0) n vs (view s)" by blast
  let ?k = "count - w" and ?x = "ai_unread AI b"
  have le: "n \<le> length (rest b0)" "w \<le> count" using i(2,6) by (simp_all add: paused_def)
  have fits: "j + w + ?k \<le> length out" "length out \<le> usize_max" using i(1,2) le assms(4,5) by simp_all
  have range: "env_range_end E (length out) (j + w) ?k msg = Ok (j + w + ?k)" for msg using range_law fits by simp
  note def = adi_transcode_eof_step_def range Let_def
  have go: "run (view s) True ?x ?k = (q, k, ws, c2) \<Longrightarrow>
      run (view s0) True (rest b0) count = (map_err (shift n) q, n + k, vs @ ws, c2)" for q k ws c2
    using i(2,5,6) le(2) assms(6) unfolding paused_def by (metis le_add_diff_inverse order_refl)
  show ?thesis
  proof (cases "?k = 0")
    case True
    then have "r = Ok (progress_complete 0 0)" "s' = s" "b' = b" "out' = out"
      using assms(7) range by (simp_all add: adi_transcode_eof_step_def)
    moreover obtain st where "run (view s) True ?x 0 = (Ok st, 0, [], view s)" using run_full [OF live_valid [OF i(4)]] by blast
    ultimately show ?thesis using go [of "Ok st" 0 "[]" "view s"] True i le(1)
      by (auto simp: progress_defs intro!: exI [of _ n] exI [of _ vs])
  next
    case False
    obtain q k ws c' where run: "run (view s) True ?x ?k = (q, k, ws, c')" by (metis prod_cases4)
    obtain r1 s1 o1 where call: "prefix_call out (j + w + ?k)
        (decoder_call T True s ?x 0 (take (j + w + ?k) out) (j + w)) = (r1, s1, o1)" by (metis prod_cases3)
    note c = run_call [OF i(4) fits unread_fits [OF i(3)] run call, of f]
    have len: "length vs + length ws \<le> count" using c i(2) le(2) by (cases q) auto
    have out': "o1 = splice_at out0 j (vs @ ws)"
      using c i(1,2) len assms(4) by (simp add: splice_at_append)
    show ?thesis
    proof (cases q)
      case (Ok st)
      have k: "k \<le> length ?x" using c by simp
      have "r = Ok (progress_new st k (length ws))" "s' = s1" "b' = ai_consume AI b k" "out' = o1"
        using assms(7) call c Ok k False by (simp_all add: def adi_consume_def progress_defs)
      with c Ok go [OF run] out' consume_law [OF i(3) k] i(2,5) k assms(6) le(1) show ?thesis
        by (auto simp: progress_defs add.commute intro!: exI [of _ "n + k"] exI [of _ "vs @ ws"])
    next
      case (Err e)
      have "r = Err (f e)" "s' = s1" "b' = b" "out' = o1"
        using assms(7) call c Err False by (simp_all add: def)
      with c Err go [OF run] out' i(3,5) le(1) show ?thesis
        by (auto intro!: exI [of _ n] exI [of _ "vs @ ws"] exI [of _ e])
    qed (use c in simp)
  qed
qed

end

section \<open>An in-memory asynchronous source\<close>

text \<open>A buffered input over a script of arrivals, failures and polls that find nothing.\<close>

datatype 'u async_item = Arrive "'u list" | Fail io_error | Wait

record 'u async_scripted =
  as_unread :: "'u list"
  as_script :: "'u async_item list"
  as_capacity :: nat

fun arrivals :: "'u async_item list \<Rightarrow> 'u list" where
  "arrivals [] = []"
| "arrivals (Arrive c # is) = c @ arrivals is"
| "arrivals (_ # is) = arrivals is"

fun failures :: "'u async_item list \<Rightarrow> io_error set" where
  "failures [] = {}"
| "failures (Fail e # is) = insert e (failures is)"
| "failures (_ # is) = failures is"

fun count_waits :: "'u async_item list \<Rightarrow> nat" where
  "count_waits [] = 0"
| "count_waits (Wait # is) = Suc (count_waits is)"
| "count_waits (_ # is) = count_waits is"

fun as_more :: "'u list \<Rightarrow> 'u async_item list \<Rightarrow> (io_error, bool) res poll \<times> 'u list \<times> 'u async_item list" where
  "as_more us [] = (Ready (Ok False), us, [])"
| "as_more us (Arrive c # is) = (if c = [] then as_more us is else (Ready (Ok True), us @ c, is))"
| "as_more us (Fail e # is) = (Ready (Err e), us, is)"
| "as_more us (Wait # is) = (NotReady, us, is)"

fun as_until ::
  "nat \<Rightarrow> 'u list \<Rightarrow> 'u async_item list \<Rightarrow> (io_error, bool) res poll \<times> 'u list \<times> 'u async_item list" where
  "as_until n us [] = (Ready (Ok (n \<le> length us)), us, [])"
| "as_until n us (Arrive c # is) =
     (if n \<le> length us then (Ready (Ok True), us, Arrive c # is) else as_until n (us @ c) is)"
| "as_until n us (Fail e # is) =
     (if n \<le> length us then (Ready (Ok True), us, Fail e # is) else (Ready (Err e), us, is))"
| "as_until n us (Wait # is) =
     (if n \<le> length us then (Ready (Ok True), us, Wait # is) else (NotReady, us, is))"

definition as_update :: "'u async_scripted \<Rightarrow> 'p \<times> 'u list \<times> 'u async_item list \<Rightarrow> 'p \<times> 'u async_scripted" where
  "as_update b x = (case x of (p, us, is) \<Rightarrow> (p, b\<lparr>as_unread := us, as_script := is\<rparr>))"

definition as_read :: "'u async_scripted \<Rightarrow> 'u list \<Rightarrow> nat \<Rightarrow> nat \<Rightarrow>
    (io_error, nat) res poll \<times> 'u async_scripted \<times> 'u list" where
  "as_read b out i count =
    (case (if as_unread b = [] then as_update b (as_more [] (as_script b)) else (Ready (Ok True), b)) of
       (Ready (Ok _), b) \<Rightarrow>
         let n = min count (length (as_unread b)) in
         (Ready (Ok n), b\<lparr>as_unread := drop n (as_unread b)\<rparr>, splice_at out i (take n (as_unread b)))
     | (Ready (Err e), b) \<Rightarrow> (Ready (Err e), b, out)
     | (Ready Panic, b) \<Rightarrow> (Ready Panic, b, out)
     | (NotReady, b) \<Rightarrow> (NotReady, b, out))"

definition async_scripted_input :: "('u async_scripted, 'u) async_buffered_input" where
  "async_scripted_input =
    \<lparr>ai_unread = as_unread, ai_capacity = as_capacity,
     ai_try_reserve_capacity = (\<lambda>b n. (Ok (), b\<lparr>as_capacity := max (as_capacity b) n\<rparr>)),
     ai_poll_fill_more = (\<lambda>b. as_update b (as_more (as_unread b) (as_script b))),
     ai_poll_fill_until = (\<lambda>n b. as_update b (as_until n (as_unread b) (as_script b))),
     ai_consume = (\<lambda>b n. b\<lparr>as_unread := drop n (as_unread b)\<rparr>),
     ai_poll_read_unchecked = as_read\<rparr>"

definition as_rest :: "'u async_scripted \<Rightarrow> 'u list" where
  "as_rest b = as_unread b @ arrivals (as_script b)"

definition as_ok :: "(io_error \<Rightarrow> bool) \<Rightarrow> 'u async_scripted \<Rightarrow> bool" where
  "as_ok fault b \<longleftrightarrow> length (as_rest b) \<le> usize_max \<and> (\<forall>e \<in> failures (as_script b). fault e)"

definition as_waits :: "'u async_scripted \<Rightarrow> nat" where
  "as_waits b = count_waits (as_script b)"

lemma as_more_law:
  assumes "as_more us is = (p, us', is')"
  shows "us' @ arrivals is' = us @ arrivals is \<and> failures is' \<subseteq> failures is \<and> p \<noteq> Ready Panic \<and>
    (p = NotReady \<longrightarrow> us' = us \<and> count_waits is' < count_waits is) \<and> (p = Ready (Ok True) \<longrightarrow> length us < length us') \<and>
    (p = Ready (Ok False) \<longrightarrow> us' = us \<and> arrivals is = []) \<and> (\<forall>e. p = Ready (Err e) \<longrightarrow> e \<in> failures is)"
  using assms by (induction us "is" rule: as_more.induct) (auto split: if_splits)

lemma as_until_law:
  assumes "as_until n us is = (p, us', is')"
  shows "us' @ arrivals is' = us @ arrivals is \<and> failures is' \<subseteq> failures is \<and> p \<noteq> Ready Panic \<and> (\<exists>more. us' = us @ more) \<and>
    (p = NotReady \<longrightarrow> count_waits is' < count_waits is) \<and> (p = Ready (Ok True) \<longrightarrow> n \<le> length us') \<and>
    (p = Ready (Ok False) \<longrightarrow> arrivals is' = [] \<and> length us' < n) \<and> (\<forall>e. p = Ready (Err e) \<longrightarrow> e \<in> failures is)"
  using assms by (induction n us "is" rule: as_until.induct) (auto split: if_splits)

lemma as_update_eq:
  "as_update b x = (p, b') \<longleftrightarrow> (\<exists>us is. x = (p, us, is) \<and> b' = b\<lparr>as_unread := us, as_script := is\<rparr>)"
  by (cases x) (auto simp: as_update_def)

interpretation async_scripted: async_source async_scripted_input sample_env as_rest "as_ok fault" fault as_waits
  for fault
proof
  fix b b' :: "'a async_scripted" and p
  assume ok: "as_ok fault b" "ai_poll_fill_more async_scripted_input b = (p, b')"
  then obtain us "is" where step: "as_more (as_unread b) (as_script b) = (p, us, is)"
    "b' = b\<lparr>as_unread := us, as_script := is\<rparr>"
    by (auto simp: async_scripted_input_def as_update_eq)
  from as_more_law [OF step(1)] step(2) ok(1)
  show "as_ok fault b' \<and> as_rest b' = as_rest b \<and> p \<noteq> Ready Panic \<and>
      (p = NotReady \<longrightarrow> ai_unread async_scripted_input b' = ai_unread async_scripted_input b \<and> as_waits b' < as_waits b) \<and>
      (p = Ready (Ok True) \<longrightarrow> length (ai_unread async_scripted_input b) < length (ai_unread async_scripted_input b')) \<and>
      (p = Ready (Ok False) \<longrightarrow> ai_unread async_scripted_input b' = ai_unread async_scripted_input b \<and>
        as_rest b = ai_unread async_scripted_input b) \<and> (\<forall>e. p = Ready (Err e) \<longrightarrow> fault e)"
    by (auto simp: async_scripted_input_def as_ok_def as_rest_def as_waits_def)
next
  fix b b' :: "'a async_scripted" and n p
  assume ok: "as_ok fault b" "n \<le> ai_capacity async_scripted_input b" "ai_poll_fill_until async_scripted_input n b = (p, b')"
  then obtain us "is" where step: "as_until n (as_unread b) (as_script b) = (p, us, is)"
    "b' = b\<lparr>as_unread := us, as_script := is\<rparr>"
    by (auto simp: async_scripted_input_def as_update_eq)
  from as_until_law [OF step(1)] step(2) ok(1,2)
  show "as_ok fault b' \<and> as_rest b' = as_rest b \<and> p \<noteq> Ready Panic \<and>
      (\<exists>more. ai_unread async_scripted_input b' = ai_unread async_scripted_input b @ more) \<and>
      (p = NotReady \<longrightarrow> n \<le> ai_capacity async_scripted_input b' \<and> as_waits b' < as_waits b) \<and>
      (p = Ready (Ok True) \<longrightarrow> n \<le> length (ai_unread async_scripted_input b')) \<and>
      (p = Ready (Ok False) \<longrightarrow> ai_unread async_scripted_input b' = as_rest b \<and> length (as_rest b) < n) \<and>
      (\<forall>e. p = Ready (Err e) \<longrightarrow> fault e)"
    by (auto simp: async_scripted_input_def as_ok_def as_rest_def as_waits_def)
qed (auto simp: async_scripted_input_def as_ok_def as_rest_def as_waits_def)

interpretation u16be_async: async_decode_bridge "decode_transcoder u16be_codec (codec_transcode_decode_hooks u16be_codec)"
  "\<lambda>eng. any_state (de_codec eng) \<and> stream_phase (de_phase eng)" engine_view "\<lambda>(c, h). any_state c"
  "engine_run u16be_codec u16be_parse strict_invalid strict_incomplete" shift_decode_error
  async_scripted_input sample_env as_rest "as_ok fault" fault as_waits
  for fault
  by unfold_locales (simp add: sample_range)

interpretation marker_async: async_decode_bridge marker_decoder_transcoder "\<lambda>_. True" "\<lambda>_. ()" "\<lambda>_. True"
  marker_run "\<lambda>_ e. e" async_scripted_input sample_env as_rest "as_ok fault" fault as_waits
  for fault
  by unfold_locales (simp add: sample_range)

section \<open>Properties\<close>

text \<open>C11. However a caller's polls are cut (not ready, abandoned, repeated, mixed with refills), they
  and the call at end of input together are one run of the decoder over the stream: the values in
  the destination, the units taken, the decoder's state, and the error with its position.\<close>

theorem async_decode_joins:
  assumes "async_decode_bridge T live view valid run shift AI E rest ok fault waits"
    and "adi_driven T AI E map_error j count (s0, b0, out0) w (s, b, out)" "ok b0" "live s0"
    and "j + count \<le> length out0" "length out0 \<le> usize_max" "ai_unread AI b = rest b"
    and "adi_transcode_eof_step T AI E map_error (j + w) (count - w) (s, b, out) = (r, s', b', out')"
  shows "ok b' \<and> (\<exists>n vs. out' = splice_at out0 j vs \<and> rest b' = drop n (rest b0) \<and> n \<le> length (rest b0) \<and> (case r of
      Ok p \<Rightarrow> w + tp_written p = length vs \<and> live s' \<and>
        (\<exists>st. run (view s0) True (rest b0) count = (Ok st, n, vs, view s'))
    | Err e \<Rightarrow> \<exists>e' m. e = map_error e' \<and> n \<le> m \<and> run (view s0) True (rest b0) count = (Err (shift n e'), m, vs, view s')
    | Panic \<Rightarrow> False))"
  by (rule async_decode_bridge.driven_completes [OF assms])

text \<open>The asynchronous input and the synchronous input agree: on the same stream, however it
  arrives at either of them, a successful asynchronous sequence and a successful synchronous call
  deliver the same values, leave the same rest of the stream and the decoder in the same state.\<close>

theorem async_matches_sync:
  assumes "async_decode_bridge T live view valid run shift AI E rest_a ok_a fault_a waits"
    and "decode_bridge T live view valid run shift BI E2 rest_s ok_s fault_s"
    and "adi_driven T AI E map_error j count (s0, b0, out0) w (s, b, out)" "ok_a b0" "live s0"
    and "j + count \<le> length out0" "length out0 \<le> usize_max" "ai_unread AI b = rest_a b"
    and "adi_transcode_eof_step T AI E map_error (j + w) (count - w) (s, b, out) = (Ok p, s', b', out')"
    and "di_sound BI rest_s ok_s d" "rest_s (di_input d) = rest_a b0"
    and "di_transcode T BI E2 map_error s0 d out0 j count = Some (Ok k, s2, d2, out2)"
  shows "w + tp_written p = k \<and> out' = out2 \<and> view s' = view s2 \<and> rest_a b' = rest_s (di_input d2)"
  using async_decode_bridge.driven_completes [OF assms(1,3-9)]
    decode_bridge.transcode_result [OF assms(2,10,5-7), of map_error] assms(11,12)
  by (auto simp: batch_result_def)

end
