(* ===== verification/EncodeOutput.thy ===== *)
theory EncodeOutput
  imports IoBase
begin

text \<open>
  \<open>TranscodeEncodeOutput\<close> (\<open>src/transcode/io/transcode_encode_output.rs\<close>): a buffered output
  that codecs and streaming encoders write to through its spare window. It owns nothing but the
  \<open>BufferedOutput\<close> of the crate \<open>qubit_io\<close>, which is a parameter; so its state is the state
  \<open>'w\<close> of that output. Encoders and error mappers are arguments of the calls.
\<close>

section \<open>The buffered output\<close>

text \<open>\<open>bo_spare_raw_parts\<close> gives the backing storage, the start of the spare window and its size;
  \<open>bo_write_units\<close> is what a write through the borrowed storage leaves behind.\<close>

record ('w, 'u) buffered_output =
  bo_capacity :: "'w \<Rightarrow> nat"
  bo_spare_capacity :: "'w \<Rightarrow> nat"
  bo_spare_raw_parts :: "'w \<Rightarrow> 'u list \<times> nat \<times> nat"
  bo_write_units :: "'w \<Rightarrow> 'u list \<Rightarrow> 'w"
  bo_advance :: "'w \<Rightarrow> nat \<Rightarrow> 'w"
  bo_try_reserve_capacity :: "'w \<Rightarrow> nat \<Rightarrow> (reserve_error, unit) res \<times> 'w"
  bo_ensure_spare_capacity :: "'w \<Rightarrow> nat \<Rightarrow> (io_error, unit) res \<times> 'w"
  bo_flush :: "'w \<Rightarrow> (io_error, unit) res \<times> 'w"
  bo_write :: "'w \<Rightarrow> 'u list \<Rightarrow> (io_error, nat) res \<times> 'w"
  bo_seek_to :: "'w \<Rightarrow> seek_from \<Rightarrow> (io_error, u64) res \<times> 'w"

section \<open>Operations\<close>

definition eo_ensure_spare_capacity ::
  "('w, 'u) buffered_output \<Rightarrow> io_env \<Rightarrow> nat \<Rightarrow> 'w \<Rightarrow> (io_error, unit) res \<times> 'w" where
  "eo_ensure_spare_capacity BO E count w =
    (case bo_try_reserve_capacity BO w count of (r, w) \<Rightarrow>
      and_then (map_err (env_allocation_error E) r, w) (\<lambda>_ w. bo_ensure_spare_capacity BO w count))"

definition eo_flush :: "('w, 'u) buffered_output \<Rightarrow> 'w \<Rightarrow> (io_error, unit) res \<times> 'w" where
  "eo_flush BO w = bo_flush BO w"

definition eo_seek :: "('w, 'u) buffered_output \<Rightarrow> seek_from \<Rightarrow> 'w \<Rightarrow> (io_error, u64) res \<times> 'w" where
  "eo_seek BO position w = bo_seek_to BO w position"

definition eo_write_encoded_with ::
  "('c, 'v, 'u, 'de, 'ee) codec \<Rightarrow> ('w, 'u) buffered_output \<Rightarrow> io_env \<Rightarrow> ('ee \<Rightarrow> io_error) \<Rightarrow>
   'c \<Rightarrow> 'v \<Rightarrow> 'w \<Rightarrow> (io_error, unit) res \<times> 'c \<times> 'w" where
  "eo_write_encoded_with C BO E map_error c v w =
    and_then (map_encode_value_result
        (map_err (encode_of_capacity :: _ \<Rightarrow> ('ee, 'v) encode_error) (max_complete_encode_units C)) map_error, c, w)
      (\<lambda>max_units (c, w).
    case eo_ensure_spare_capacity BO E max_units w of (r, w) \<Rightarrow>
    and_then (r, c, w) (\<lambda>_ (c, w).
    case bo_spare_raw_parts BO w of (units, output_index, available) \<Rightarrow>
    if \<not> available \<ge> max_units then (Panic, c, w)
    else
      case slice_call units (encode_complete_value_into_reserved C c v units output_index max_units) of
        (r, c, units) \<Rightarrow>
      let w = bo_write_units BO w units in
      and_then (map_encode_value_result r map_error, c, w) (\<lambda>written (c, w).
        (Ok (), c, bo_advance BO w written))))"

definition eo_reset ::
  "('s, 'v, 'u, 'e) transcoder \<Rightarrow> ('w, 'u) buffered_output \<Rightarrow> io_env \<Rightarrow> ('e \<Rightarrow> io_error) \<Rightarrow>
   's \<Rightarrow> 'w \<Rightarrow> (io_error, unit) res \<times> 's \<times> 'w" where
  "eo_reset T BO E map_error s w =
    and_then (map_err capacity_error_to_invalid_data (max_reset_output_len T s), s, w) (\<lambda>required (s, w).
    case eo_ensure_spare_capacity BO E required w of (r, w) \<Rightarrow>
    and_then (r, s, w) (\<lambda>_ (s, w).
    case bo_spare_raw_parts BO w of (units, output_index, available) \<Rightarrow>
    if \<not> available \<ge> required then (Panic, s, w)
    else
      case slice_call units (tr_reset T s units output_index) of (r, s, units) \<Rightarrow>
      let w = bo_write_units BO w units in
      and_then (map_err map_error r, s, w) (\<lambda>written (s, w).
        if \<not> written \<le> required then (Panic, s, w) else (Ok (), s, bo_advance BO w written))))"

definition eo_transcode_step ::
  "('s, 'v, 'u, 'e) transcoder \<Rightarrow> ('w, 'u) buffered_output \<Rightarrow> io_env \<Rightarrow> ('e \<Rightarrow> io_error) \<Rightarrow>
   's \<Rightarrow> 'w \<Rightarrow> 'v list \<Rightarrow> nat \<Rightarrow> nat \<Rightarrow> (io_error, transcode_progress) res \<times> 's \<times> 'w" where
  "eo_transcode_step T BO E map_error s w input input_index count =
    and_then (env_range_end E (length input) input_index count
        ''encode input range exceeds source buffer'', s, w) (\<lambda>input_end (s, w).
    if count = 0 then (Ok (progress_complete 0 0), s, w)
    else
    and_then (map_err capacity_error_to_invalid_data (max_transcode_output_len T s 1), s, w) (\<lambda>bound (s, w).
    let required = max bound 1 in
    case eo_ensure_spare_capacity BO E required w of (r, w) \<Rightarrow>
    and_then (r, s, w) (\<lambda>_ (s, w).
    case bo_spare_raw_parts BO w of (units, output_index, available_output) \<Rightarrow>
    case slice_call units (tr_transcode T s (take input_end input) input_index units output_index) of
      (r, s, units) \<Rightarrow>
    let w = bo_write_units BO w units in
    and_then (bind_res (map_err map_error r) (\<lambda>p.
        validate_encode_progress p input_index count output_index available_output), s, w) (\<lambda>p (s, w).
      (Ok p, s, bo_advance BO w (tp_written p))))))"

text \<open>One turn of the loop of \<open>transcode\<close>, over the input up to the end of its range: the count
  the call returns with, or the values read so far.\<close>

datatype encode_flow = EncodeMore nat | EncodeDone nat

definition eo_batch_turn ::
  "('s, 'v, 'u, 'e) transcoder \<Rightarrow> ('w, 'u) buffered_output \<Rightarrow> ('e \<Rightarrow> io_error) \<Rightarrow>
   'v list \<Rightarrow> nat \<Rightarrow> nat \<Rightarrow> nat \<Rightarrow> 's \<Rightarrow> 'w \<Rightarrow> (io_error, encode_flow) res \<times> 's \<times> 'w" where
  "eo_batch_turn T BO map_error input input_index count read_total s w =
    (case bo_spare_raw_parts BO w of (units, output_index, available_output) \<Rightarrow>
     let remaining_input = count - read_total in
     case slice_call units (tr_transcode T s input (input_index + read_total) units output_index) of
       (r, s, units) \<Rightarrow>
     let w = bo_write_units BO w units in
     and_then (bind_res (map_err map_error r) (\<lambda>p.
         validate_encode_progress p (input_index + read_total) remaining_input output_index available_output), s, w)
       (\<lambda>p (s, w).
     let w = bo_advance BO w (tp_written p);
         read_total = read_total + tp_read p in
     if is_complete p then (Ok (EncodeDone read_total), s, w)
     else case tp_status p of
       NeedOutput required \<Rightarrow>
         if read_total = count \<or> available_output - tp_written p < nz_get required \<or>
            tp_read p = 0 \<and> tp_written p = 0
         then (Err (IoMessage InvalidData ''encoder output bound was insufficient''), s, w)
         else (Ok (EncodeMore read_total), s, w)
     | _ \<Rightarrow> (Ok (EncodeMore read_total), s, w)))"

partial_function (option) eo_batch_loop ::
  "('s, 'v, 'u, 'e) transcoder \<Rightarrow> ('w, 'u) buffered_output \<Rightarrow> ('e \<Rightarrow> io_error) \<Rightarrow>
   'v list \<Rightarrow> nat \<Rightarrow> nat \<Rightarrow> nat \<Rightarrow> 's \<Rightarrow> 'w \<Rightarrow> ((io_error, nat) res \<times> 's \<times> 'w) option" where
  "eo_batch_loop T BO map_error input input_index count read_total s w =
    (if \<not> read_total < count then Some (Ok read_total, s, w)
     else case eo_batch_turn T BO map_error input input_index count read_total s w of
       (Ok (EncodeMore n), s, w) \<Rightarrow> eo_batch_loop T BO map_error input input_index count n s w
     | (Ok (EncodeDone n), s, w) \<Rightarrow> Some (Ok n, s, w)
     | (Err e, s, w) \<Rightarrow> Some (Err e, s, w)
     | (Panic, s, w) \<Rightarrow> Some (Panic, s, w))"

declare eo_batch_loop.simps [code]

definition eo_transcode ::
  "('s, 'v, 'u, 'e) transcoder \<Rightarrow> ('w, 'u) buffered_output \<Rightarrow> io_env \<Rightarrow> ('e \<Rightarrow> io_error) \<Rightarrow>
   's \<Rightarrow> 'w \<Rightarrow> 'v list \<Rightarrow> nat \<Rightarrow> nat \<Rightarrow> ((io_error, nat) res \<times> 's \<times> 'w) option" where
  "eo_transcode T BO E map_error s w input input_index count =
    (case env_range_end E (length input) input_index count ''encode input range exceeds source buffer'' of
       Err e \<Rightarrow> Some (Err e, s, w)
     | Panic \<Rightarrow> Some (Panic, s, w)
     | Ok input_end \<Rightarrow>
         if count = 0 then Some (Ok 0, s, w)
         else
           (case and_then (map_err capacity_error_to_invalid_data (max_transcode_output_len T s count), s, w)
               (\<lambda>bound (s, w). case eo_ensure_spare_capacity BO E (max bound 1) w of (r, w) \<Rightarrow> (r, s, w)) of
              (Ok _, s, w) \<Rightarrow> eo_batch_loop T BO map_error (take input_end input) input_index count 0 s w
            | (Err e, s, w) \<Rightarrow> Some (Err e, s, w)
            | (Panic, s, w) \<Rightarrow> Some (Panic, s, w)))"

definition eo_finish_to_buffer ::
  "('s, 'v, 'u, 'e) transcoder \<Rightarrow> ('w, 'u) buffered_output \<Rightarrow> io_env \<Rightarrow> ('e \<Rightarrow> io_error) \<Rightarrow>
   's \<Rightarrow> 'w \<Rightarrow> (io_error, unit) res \<times> 's \<times> 'w" where
  "eo_finish_to_buffer T BO E map_error s w =
    and_then (map_err capacity_error_to_invalid_data (max_finish_output_len T s), s, w) (\<lambda>required (s, w).
    let pending = bo_capacity BO w - bo_spare_capacity BO w in
    and_then (map_err capacity_error_to_invalid_data
        (ok_or CapacityOutputLengthOverflow (checked_add pending required)), s, w) (\<lambda>capacity (s, w).
    case bo_try_reserve_capacity BO w capacity of (r, w) \<Rightarrow>
    and_then (map_err (env_allocation_error E) r, s, w) (\<lambda>_ (s, w).
    case bo_spare_raw_parts BO w of (units, output_index, available) \<Rightarrow>
    if \<not> available \<ge> required then (Panic, s, w)
    else
      case slice_call units (tr_finish T s units output_index) of (r, s, units) \<Rightarrow>
      let w = bo_write_units BO w units in
      and_then (map_err map_error r, s, w) (\<lambda>written (s, w).
        if \<not> written \<le> required then (Panic, s, w) else (Ok (), s, bo_advance BO w written)))))"

definition eo_finish ::
  "('s, 'v, 'u, 'e) transcoder \<Rightarrow> ('w, 'u) buffered_output \<Rightarrow> io_env \<Rightarrow> ('e \<Rightarrow> io_error) \<Rightarrow>
   's \<Rightarrow> 'w \<Rightarrow> (io_error, unit) res \<times> 's \<times> 'w" where
  "eo_finish T BO E map_error s w =
    and_then (eo_finish_to_buffer T BO E map_error s w) (\<lambda>_ (s, w).
      case bo_flush BO w of (r, w) \<Rightarrow> (r, s, w))"

text \<open>The \<open>Write\<close> implementation; \<open>write_all\<close> tries again after an interruption.\<close>

definition eo_write :: "('w, 'u) buffered_output \<Rightarrow> 'w \<Rightarrow> 'u list \<Rightarrow> (io_error, nat) res \<times> 'w" where
  "eo_write BO w input = bo_write BO w input"

partial_function (option) eo_write_all_from ::
  "('w, 'u) buffered_output \<Rightarrow> 'u list \<Rightarrow> nat \<Rightarrow> 'w \<Rightarrow> ((io_error, unit) res \<times> 'w) option" where
  "eo_write_all_from BO input written w =
    (if \<not> written < length input then Some (Ok (), w)
     else case eo_write BO w (drop written input) of
       (Ok count, w) \<Rightarrow>
         if count = 0 then Some (Err (IoMessage WriteZero []), w)
         else if \<not> count \<le> length input - written then Some (Panic, w)
         else eo_write_all_from BO input (written + count) w
     | (Err e, w) \<Rightarrow>
         if io_kind e = Interrupted then eo_write_all_from BO input written w
         else Some (Err e, w)
     | (Panic, w) \<Rightarrow> Some (Panic, w))"

declare eo_write_all_from.simps [code]

definition eo_write_all ::
  "('w, 'u) buffered_output \<Rightarrow> 'w \<Rightarrow> 'u list \<Rightarrow> ((io_error, unit) res \<times> 'w) option" where
  "eo_write_all BO w input = eo_write_all_from BO input 0 w"

section \<open>What the bridge relies on\<close>

text \<open>\<open>sent\<close> are all units committed to the output, delivered or pending; \<open>delivered\<close> those
  that reached the sink. A fault loses nothing. \<open>interruptions\<close> bounds the interrupted writes to
  come.\<close>

locale buffered_sink =
  fixes BO :: "('w, 'u) buffered_output" and E :: io_env
    and sent delivered :: "'w \<Rightarrow> 'u list" and ok :: "'w \<Rightarrow> bool" and fault :: "io_error \<Rightarrow> bool"
    and interruptions :: "'w \<Rightarrow> nat"
  assumes delivered_prefix: "ok w \<Longrightarrow> \<exists>ys. sent w = delivered w @ ys"
    and pending_law: "ok w \<Longrightarrow> bo_capacity BO w - bo_spare_capacity BO w \<le> length (sent w)"
    and raw_law: "ok w \<Longrightarrow> bo_spare_raw_parts BO w = (units, i, n) \<Longrightarrow>
        i + n = length units \<and> length units \<le> usize_max \<and> n = bo_spare_capacity BO w \<and> n \<le> bo_capacity BO w"
    and write_units_law: "ok w \<Longrightarrow> bo_spare_raw_parts BO w = (units, i, n) \<Longrightarrow>
        length units' = length units \<Longrightarrow> take i units' = take i units \<Longrightarrow>
        ok (bo_write_units BO w units') \<and> sent (bo_write_units BO w units') = sent w \<and>
        bo_spare_raw_parts BO (bo_write_units BO w units') = (units', i, n)"
    and advance_law: "ok w \<Longrightarrow> bo_spare_raw_parts BO w = (units, i, n) \<Longrightarrow> k \<le> n \<Longrightarrow>
        ok (bo_advance BO w k) \<and> sent (bo_advance BO w k) = sent w @ take k (drop i units)"
    and reserve_law: "ok w \<Longrightarrow> n \<le> usize_max \<Longrightarrow> bo_try_reserve_capacity BO w n = (q, w') \<Longrightarrow>
        q \<noteq> Panic \<and> ok w' \<and> sent w' = sent w \<and>
        (q = Ok () \<longrightarrow> n \<le> bo_capacity BO w' \<and>
          bo_capacity BO w' - bo_spare_capacity BO w' = bo_capacity BO w - bo_spare_capacity BO w) \<and>
        (\<forall>x. q = Err x \<longrightarrow> fault (env_allocation_error E x))"
    and ensure_law: "ok w \<Longrightarrow> n \<le> bo_capacity BO w \<Longrightarrow> bo_ensure_spare_capacity BO w n = (r, w') \<Longrightarrow>
        r \<noteq> Panic \<and> ok w' \<and> sent w' = sent w \<and> (r = Ok () \<longrightarrow> n \<le> bo_spare_capacity BO w') \<and>
        (\<forall>e. r = Err e \<longrightarrow> fault e)"
    and flush_law: "ok w \<Longrightarrow> bo_flush BO w = (r, w') \<Longrightarrow>
        r \<noteq> Panic \<and> ok w' \<and> sent w' = sent w \<and> (r = Ok () \<longrightarrow> delivered w' = sent w') \<and>
        (\<forall>e. r = Err e \<longrightarrow> fault e)"
    and write_law: "ok w \<Longrightarrow> bo_write BO w us = (m, w') \<Longrightarrow>
        m \<noteq> Panic \<and> ok w' \<and> interruptions w' \<le> interruptions w \<and>
        (\<forall>k. m = Ok k \<longrightarrow> k \<le> length us \<and> sent w' = sent w @ take k us) \<and>
        (\<forall>e. m = Err e \<longrightarrow> sent w' = sent w \<and> fault e \<and>
          (io_kind e = Interrupted \<longrightarrow> interruptions w' < interruptions w))"

section \<open>An in-memory sink\<close>

text \<open>A buffered output over a sink that answers each delivery from a script: an error, or success
  once the script is used up.\<close>

record 'u memory_sink =
  ms_delivered :: "'u list"
  ms_buffer :: "'u list"
  ms_pending :: nat
  ms_script :: "io_error option list"

definition ms_deliver :: "'u list \<Rightarrow> 'u memory_sink \<Rightarrow> (io_error, unit) res \<times> 'u memory_sink" where
  "ms_deliver us w =
    (case ms_script w of
       Some e # answers \<Rightarrow> (Err e, w\<lparr>ms_script := answers\<rparr>)
     | answers \<Rightarrow> (Ok (), w\<lparr>ms_delivered := ms_delivered w @ us, ms_script := tl answers\<rparr>))"

definition ms_drain :: "'u memory_sink \<Rightarrow> (io_error, unit) res \<times> 'u memory_sink" where
  "ms_drain w =
    (if ms_pending w = 0 then (Ok (), w)
     else and_then (ms_deliver (take (ms_pending w) (ms_buffer w)) w) (\<lambda>_ w. (Ok (), w\<lparr>ms_pending := 0\<rparr>)))"

definition ms_write :: "'u memory_sink \<Rightarrow> 'u list \<Rightarrow> (io_error, nat) res \<times> 'u memory_sink" where
  "ms_write w us =
    and_then (ms_drain w) (\<lambda>_ w. and_then (ms_deliver us w) (\<lambda>_ w. (Ok (length us), w)))"

definition memory_output :: "'u \<Rightarrow> ('u memory_sink, 'u) buffered_output" where
  "memory_output fill =
    \<lparr>bo_capacity = (\<lambda>w. length (ms_buffer w)),
     bo_spare_capacity = (\<lambda>w. length (ms_buffer w) - ms_pending w),
     bo_spare_raw_parts = (\<lambda>w. (ms_buffer w, ms_pending w, length (ms_buffer w) - ms_pending w)),
     bo_write_units = (\<lambda>w units. w\<lparr>ms_buffer := units\<rparr>),
     bo_advance = (\<lambda>w n. w\<lparr>ms_pending := ms_pending w + n\<rparr>),
     bo_try_reserve_capacity = (\<lambda>w n.
       (Ok (), w\<lparr>ms_buffer := ms_buffer w @ replicate (n - length (ms_buffer w)) fill\<rparr>)),
     bo_ensure_spare_capacity = (\<lambda>w n.
       if n \<le> length (ms_buffer w) - ms_pending w then (Ok (), w) else ms_drain w),
     bo_flush = ms_drain,
     bo_write = ms_write,
     bo_seek_to = (\<lambda>w p. (Err (IoMessage Unsupported ''seek''), w))\<rparr>"

definition ms_sent :: "'u memory_sink \<Rightarrow> 'u list" where
  "ms_sent w = ms_delivered w @ take (ms_pending w) (ms_buffer w)"

definition ms_ok :: "(io_error \<Rightarrow> bool) \<Rightarrow> 'u memory_sink \<Rightarrow> bool" where
  "ms_ok fault w \<longleftrightarrow> ms_pending w \<le> length (ms_buffer w) \<and> length (ms_buffer w) \<le> usize_max \<and>
    (\<forall>e. Some e \<in> set (ms_script w) \<longrightarrow> fault e)"

fun is_interruption :: "io_error option \<Rightarrow> bool" where
  "is_interruption None = False"
| "is_interruption (Some e) = (io_kind e = Interrupted)"

definition ms_interruptions :: "'u memory_sink \<Rightarrow> nat" where
  "ms_interruptions w = length (filter is_interruption (ms_script w))"

lemma ms_deliver_cases:
  assumes "ms_deliver us w = (r, w')"
  shows "(\<exists>e rest. ms_script w = Some e # rest \<and> r = Err e \<and> w' = w\<lparr>ms_script := rest\<rparr>) \<or>
    (r = Ok () \<and> w' = w\<lparr>ms_delivered := ms_delivered w @ us, ms_script := tl (ms_script w)\<rparr> \<and>
      (ms_script w = [] \<or> (\<exists>rest. ms_script w = None # rest)))"
  using assms by (auto simp: ms_deliver_def split: list.splits option.splits)

lemma ms_drain_law:
  assumes "ms_ok fault w" "ms_drain w = (r, w')"
  shows "r \<noteq> Panic \<and> ms_ok fault w' \<and> ms_sent w' = ms_sent w \<and> ms_interruptions w' \<le> ms_interruptions w \<and>
    ms_buffer w' = ms_buffer w \<and> (r = Ok () \<longrightarrow> ms_pending w' = 0) \<and>
    (\<forall>e. r = Err e \<longrightarrow> fault e \<and> (io_kind e = Interrupted \<longrightarrow> ms_interruptions w' < ms_interruptions w))"
proof (cases "ms_pending w = 0")
  case True
  with assms show ?thesis by (auto simp: ms_drain_def)
next
  case False
  obtain q w1 where d: "ms_deliver (take (ms_pending w) (ms_buffer w)) w = (q, w1)" by (metis surj_pair)
  from ms_deliver_cases [OF d] d assms False show ?thesis
    by (auto simp: ms_drain_def ms_ok_def ms_sent_def ms_interruptions_def)
qed

lemma ms_write_law:
  assumes "ms_ok fault w" "ms_write w us = (m, w')"
  shows "m \<noteq> Panic \<and> ms_ok fault w' \<and> ms_interruptions w' \<le> ms_interruptions w \<and>
    (\<forall>k. m = Ok k \<longrightarrow> k \<le> length us \<and> ms_sent w' = ms_sent w @ take k us) \<and>
    (\<forall>e. m = Err e \<longrightarrow> ms_sent w' = ms_sent w \<and> fault e \<and>
      (io_kind e = Interrupted \<longrightarrow> ms_interruptions w' < ms_interruptions w))"
proof -
  obtain q w1 where d: "ms_drain w = (q, w1)" by (metis surj_pair)
  note law = ms_drain_law [OF assms(1) d]
  show ?thesis
  proof (cases q)
    case (Ok u)
    obtain q2 w2 where v: "ms_deliver us w1 = (q2, w2)" by (metis surj_pair)
    from ms_deliver_cases [OF v] v law d Ok assms(2) show ?thesis
      by (auto simp: ms_write_def ms_ok_def ms_sent_def ms_interruptions_def split: if_splits)
  qed (use law d assms(2) in \<open>auto simp: ms_write_def\<close>)
qed

interpretation memory: buffered_sink "memory_output fill" sample_env ms_sent ms_delivered "ms_ok fault" fault
  ms_interruptions for fill fault
proof
  fix w n r w'
  assume "ms_ok fault w" "n \<le> bo_capacity (memory_output fill) w"
    "bo_ensure_spare_capacity (memory_output fill) w n = (r, w')"
  with ms_drain_law [of fault w r w'] show "r \<noteq> Panic \<and> ms_ok fault w' \<and> ms_sent w' = ms_sent w \<and>
      (r = Ok () \<longrightarrow> n \<le> bo_spare_capacity (memory_output fill) w') \<and> (\<forall>e. r = Err e \<longrightarrow> fault e)"
    by (auto simp: memory_output_def split: if_splits)
next
  fix w r w'
  assume "ms_ok fault w" "bo_flush (memory_output fill) w = (r, w')"
  with ms_drain_law [of fault w r w'] show "r \<noteq> Panic \<and> ms_ok fault w' \<and> ms_sent w' = ms_sent w \<and>
      (r = Ok () \<longrightarrow> ms_delivered w' = ms_sent w') \<and> (\<forall>e. r = Err e \<longrightarrow> fault e)"
    by (auto simp: memory_output_def ms_sent_def)
next
  fix w us m w'
  assume "ms_ok fault w" "bo_write (memory_output fill) w us = (m, w')"
  with ms_write_law [of fault w us m w'] show "m \<noteq> Panic \<and> ms_ok fault w' \<and> ms_interruptions w' \<le> ms_interruptions w \<and>
      (\<forall>k. m = Ok k \<longrightarrow> k \<le> length us \<and> ms_sent w' = ms_sent w @ take k us) \<and>
      (\<forall>e. m = Err e \<longrightarrow> ms_sent w' = ms_sent w \<and> fault e \<and>
        (io_kind e = Interrupted \<longrightarrow> ms_interruptions w' < ms_interruptions w))"
    by (simp add: memory_output_def)
qed (auto simp: memory_output_def ms_ok_def ms_sent_def take_add max_def)

end
