(* ===== verification/AsyncOutput.thy ===== *)
theory AsyncOutput
  imports EncodeOutput Polls
begin

text \<open>
  \<open>AsyncTranscodeEncodeOutput\<close> (\<open>src/transcode/io/async_transcode_encode_output.rs\<close>): the
  asynchronous output with the spare room the encoder asked for last. \<open>AsyncBufferedOutput\<close>
  belongs to the crate \<open>qubit_io\<close> and is a parameter.
\<close>

section \<open>The buffered output\<close>

text \<open>\<open>ao_poll_ensure_spare\<close> is \<open>poll_ensure_spare_capacity\<close>; \<open>ao_poll_spare\<close> and \<open>ao_poll_flush\<close>
  are single polls of the futures \<open>ensure_spare_capacity_async\<close> and \<open>flush_async\<close>.\<close>

record ('w, 'u) async_buffered_output =
  ao_capacity :: "'w \<Rightarrow> nat"
  ao_pending_len :: "'w \<Rightarrow> nat"
  ao_spare_raw_parts :: "'w \<Rightarrow> 'u list \<times> nat \<times> nat"
  ao_write_units :: "'w \<Rightarrow> 'u list \<Rightarrow> 'w"
  ao_advance :: "'w \<Rightarrow> nat \<Rightarrow> 'w"
  ao_try_reserve_capacity :: "'w \<Rightarrow> nat \<Rightarrow> (reserve_error, unit) res \<times> 'w"
  ao_poll_ensure_spare :: "nat \<Rightarrow> 'w \<Rightarrow> (io_error, unit) res poll \<times> 'w"
  ao_poll_spare :: "nat \<Rightarrow> 'w \<Rightarrow> (io_error, unit) res poll \<times> 'w"
  ao_poll_flush :: "'w \<Rightarrow> (io_error, unit) res poll \<times> 'w"

section \<open>Operations\<close>

record 'w async_encode_output =
  aeo_output :: 'w
  aeo_required_spare :: nat

definition aeo_new :: "'w \<Rightarrow> 'w async_encode_output" where
  "aeo_new w = \<lparr>aeo_output = w, aeo_required_spare = 1\<rparr>"

definition aeo_pending_len :: "('w, 'u) async_buffered_output \<Rightarrow> 'w async_encode_output \<Rightarrow> nat" where
  "aeo_pending_len AO d = ao_pending_len AO (aeo_output d)"

definition aeo_flush_async ::
  "('w, 'u) async_buffered_output \<Rightarrow> 'w async_encode_output \<Rightarrow> ((io_error, unit) res \<times> 'w async_encode_output) option" where
  "aeo_flush_async AO d =
    (case await (ao_poll_flush AO) (aeo_output d) of
       None \<Rightarrow> None | Some (r, w) \<Rightarrow> Some (r, d\<lparr>aeo_output := w\<rparr>))"

definition aeo_drain_async ::
  "('w, 'u) async_buffered_output \<Rightarrow> 'w async_encode_output \<Rightarrow> ((io_error, unit) res \<times> 'w async_encode_output) option" where
  "aeo_drain_async AO d =
    (let capacity = ao_capacity AO (aeo_output d) in
     case await (ao_poll_spare AO capacity) (aeo_output d) of
       None \<Rightarrow> None | Some (r, w) \<Rightarrow> Some (r, d\<lparr>aeo_output := w\<rparr>))"

definition aeo_ensure_spare_capacity_async ::
  "('w, 'u) async_buffered_output \<Rightarrow> io_env \<Rightarrow> nat \<Rightarrow> 'w \<Rightarrow> ((io_error, unit) res \<times> 'w) option" where
  "aeo_ensure_spare_capacity_async AO E count w =
    (case ao_try_reserve_capacity AO w count of (r, w) \<Rightarrow>
      (case map_err (env_allocation_error E) r of
         Ok _ \<Rightarrow> await (ao_poll_spare AO count) w
       | Err e \<Rightarrow> Some (Err e, w)
       | Panic \<Rightarrow> Some (Panic, w)))"

text \<open>The encoder's call on the spare window and the commit of its units, behind the awaited
  room. \<open>call\<close> is \<open>reset\<close> or \<open>finish\<close> of the encoder.\<close>

definition aeo_emit ::
  "('w, 'u) async_buffered_output \<Rightarrow> ('e \<Rightarrow> io_error) \<Rightarrow> nat \<Rightarrow> ('s \<Rightarrow> 'u list \<Rightarrow> nat \<Rightarrow> ('e, nat) res \<times> 's \<times> 'u list) \<Rightarrow>
   's \<Rightarrow> 'w \<Rightarrow> (io_error, unit) res \<times> 's \<times> 'w" where
  "aeo_emit AO map_error required call s w =
    (case ao_spare_raw_parts AO w of (units, output_index, available) \<Rightarrow>
     if \<not> available \<ge> required then (Panic, s, w)
     else
       case slice_call units (call s units output_index) of (r, s, units) \<Rightarrow>
       let w = ao_write_units AO w units in
       and_then (map_err map_error r, s, w) (\<lambda>written (s, w).
         if \<not> written \<le> required then (Panic, s, w) else (Ok (), s, ao_advance AO w written)))"

definition aeo_reset_async ::
  "('s, 'v, 'u, 'e) transcoder \<Rightarrow> ('w, 'u) async_buffered_output \<Rightarrow> io_env \<Rightarrow> ('e \<Rightarrow> io_error) \<Rightarrow>
   's \<Rightarrow> 'w async_encode_output \<Rightarrow> ((io_error, unit) res \<times> 's \<times> 'w async_encode_output) option" where
  "aeo_reset_async T AO E map_error s d =
    (case map_err capacity_error_to_invalid_data (max_reset_output_len T s) of
       Err e \<Rightarrow> Some (Err e, s, d)
     | Panic \<Rightarrow> Some (Panic, s, d)
     | Ok required \<Rightarrow>
         (case aeo_ensure_spare_capacity_async AO E required (aeo_output d) of
            None \<Rightarrow> None
          | Some (r, w) \<Rightarrow>
              Some (and_then (r, s, d\<lparr>aeo_output := w\<rparr>) (\<lambda>_ (s, d).
                case aeo_emit AO map_error required (tr_reset T) s (aeo_output d) of (r, s, w) \<Rightarrow>
                and_then (r, s, d\<lparr>aeo_output := w\<rparr>) (\<lambda>_ (s, d).
                  (Ok (), s, d\<lparr>aeo_required_spare := 1\<rparr>))))))"

definition aeo_finish_async ::
  "('s, 'v, 'u, 'e) transcoder \<Rightarrow> ('w, 'u) async_buffered_output \<Rightarrow> io_env \<Rightarrow> ('e \<Rightarrow> io_error) \<Rightarrow>
   's \<Rightarrow> 'w async_encode_output \<Rightarrow> ((io_error, unit) res \<times> 's \<times> 'w async_encode_output) option" where
  "aeo_finish_async T AO E map_error s d =
    (case map_err capacity_error_to_invalid_data (max_finish_output_len T s) of
       Err e \<Rightarrow> Some (Err e, s, d)
     | Panic \<Rightarrow> Some (Panic, s, d)
     | Ok required \<Rightarrow>
         (case aeo_ensure_spare_capacity_async AO E required (aeo_output d) of
            None \<Rightarrow> None
          | Some (r, w) \<Rightarrow>
              Some (and_then (r, s, d\<lparr>aeo_output := w\<rparr>) (\<lambda>_ (s, d).
                case aeo_emit AO map_error required (tr_finish T) s (aeo_output d) of (r, s, w) \<Rightarrow>
                (r, s, d\<lparr>aeo_output := w\<rparr>)))))"

text \<open>The encoder's call of a poll, once there is room.\<close>

definition aeo_encode_window ::
  "('s, 'v, 'u, 'e) transcoder \<Rightarrow> ('w, 'u) async_buffered_output \<Rightarrow> ('e \<Rightarrow> io_error) \<Rightarrow> 'v list \<Rightarrow> nat \<Rightarrow> nat \<Rightarrow>
   's \<Rightarrow> 'w async_encode_output \<Rightarrow> (io_error, transcode_progress) res \<times> 's \<times> 'w async_encode_output" where
  "aeo_encode_window T AO map_error input input_index count s d =
    (case ao_spare_raw_parts AO (aeo_output d) of (units, output_index, available_output) \<Rightarrow>
     case slice_call units (tr_transcode T s input input_index units output_index) of (r, s, units) \<Rightarrow>
     let d = d\<lparr>aeo_output := ao_write_units AO (aeo_output d) units\<rparr> in
     and_then (bind_res (map_err map_error r) (\<lambda>p.
         validate_encode_progress p input_index count output_index available_output), s, d) (\<lambda>p (s, d).
     let d = d\<lparr>aeo_output := ao_advance AO (aeo_output d) (tp_written p)\<rparr> in
     case tp_status p of
       NeedOutput required \<Rightarrow> (Ok p, s, d\<lparr>aeo_required_spare := nz_get required\<rparr>)
     | _ \<Rightarrow> if \<not> is_complete p then (Panic, s, d) else (Ok p, s, d\<lparr>aeo_required_spare := 1\<rparr>)))"

definition aeo_poll_transcode ::
  "('s, 'v, 'u, 'e) transcoder \<Rightarrow> ('w, 'u) async_buffered_output \<Rightarrow> io_env \<Rightarrow> ('e \<Rightarrow> io_error) \<Rightarrow>
   'v list \<Rightarrow> nat \<Rightarrow> nat \<Rightarrow> 's \<times> 'w async_encode_output \<Rightarrow>
   (io_error, transcode_progress) res poll \<times> 's \<times> 'w async_encode_output" where
  "aeo_poll_transcode T AO E map_error input input_index count = (\<lambda>(s, d).
    case env_range_end E (length input) input_index count ''encode input range exceeds source buffer'' of
      Err e \<Rightarrow> (Ready (Err e), s, d)
    | Panic \<Rightarrow> (Ready Panic, s, d)
    | Ok input_end \<Rightarrow>
        if count = 0 then (Ready (Ok (progress_complete 0 0)), s, d)
        else
          (case map_err capacity_error_to_invalid_data (max_transcode_output_len T s 1) of
             Err e \<Rightarrow> (Ready (Err e), s, d)
           | Panic \<Rightarrow> (Ready Panic, s, d)
           | Ok bound \<Rightarrow>
               let per_value = max bound 1;
                   required_spare = max (aeo_required_spare d) per_value in
               (case ao_try_reserve_capacity AO (aeo_output d) required_spare of
                  (Err e, w) \<Rightarrow> (Ready (Err (env_allocation_error E e)), s, d\<lparr>aeo_output := w\<rparr>)
                | (Panic, w) \<Rightarrow> (Ready Panic, s, d\<lparr>aeo_output := w\<rparr>)
                | (Ok _, w) \<Rightarrow>
                    (case ao_poll_ensure_spare AO required_spare w of
                       (Ready (Ok _), w) \<Rightarrow>
                         (case aeo_encode_window T AO map_error (take input_end input) input_index count s
                             (d\<lparr>aeo_output := w\<rparr>) of
                            (r, s, d) \<Rightarrow> (Ready r, s, d))
                     | (Ready (Err e), w) \<Rightarrow> (Ready (Err e), s, d\<lparr>aeo_output := w\<rparr>)
                     | (Ready Panic, w) \<Rightarrow> (Ready Panic, s, d\<lparr>aeo_output := w\<rparr>)
                     | (NotReady, w) \<Rightarrow> (NotReady, s, d\<lparr>aeo_output := w\<rparr>)))))"

definition aeo_transcode_async ::
  "('s, 'v, 'u, 'e) transcoder \<Rightarrow> ('w, 'u) async_buffered_output \<Rightarrow> io_env \<Rightarrow> ('e \<Rightarrow> io_error) \<Rightarrow>
   'v list \<Rightarrow> nat \<Rightarrow> nat \<Rightarrow> 's \<times> 'w async_encode_output \<Rightarrow>
   ((io_error, transcode_progress) res \<times> 's \<times> 'w async_encode_output) option" where
  "aeo_transcode_async T AO E map_error input input_index count st =
    await (aeo_poll_transcode T AO E map_error input input_index count) st"

section \<open>What the bridge relies on\<close>

text \<open>As for a synchronous sink; \<open>waits\<close> bounds the polls that are not ready.\<close>

locale async_sink =
  fixes AO :: "('w, 'u) async_buffered_output" and E :: io_env
    and sent delivered :: "'w \<Rightarrow> 'u list" and ok :: "'w \<Rightarrow> bool" and fault :: "io_error \<Rightarrow> bool" and waits :: "'w \<Rightarrow> nat"
  assumes delivered_prefix: "ok w \<Longrightarrow> \<exists>ys. sent w = delivered w @ ys"
    and raw_law: "ok w \<Longrightarrow> ao_spare_raw_parts AO w = (units, i, n) \<Longrightarrow>
        i + n = length units \<and> length units \<le> usize_max"
    and write_units_law: "ok w \<Longrightarrow> ao_spare_raw_parts AO w = (units, i, n) \<Longrightarrow>
        length units' = length units \<Longrightarrow> take i units' = take i units \<Longrightarrow>
        ok (ao_write_units AO w units') \<and> sent (ao_write_units AO w units') = sent w \<and>
        ao_spare_raw_parts AO (ao_write_units AO w units') = (units', i, n)"
    and advance_law: "ok w \<Longrightarrow> ao_spare_raw_parts AO w = (units, i, n) \<Longrightarrow> k \<le> n \<Longrightarrow>
        ok (ao_advance AO w k) \<and> sent (ao_advance AO w k) = sent w @ take k (drop i units)"
    and reserve_law: "ok w \<Longrightarrow> n \<le> usize_max \<Longrightarrow> ao_try_reserve_capacity AO w n = (q, w') \<Longrightarrow>
        q \<noteq> Panic \<and> ok w' \<and> sent w' = sent w \<and> waits w' = waits w \<and> (q = Ok () \<longrightarrow> n \<le> ao_capacity AO w') \<and>
        (\<forall>x. q = Err x \<longrightarrow> fault (env_allocation_error E x))"
    and ensure_law: "ok w \<Longrightarrow> n \<le> ao_capacity AO w \<Longrightarrow>
        ao_poll_ensure_spare AO n w = (p, w') \<or> ao_poll_spare AO n w = (p, w') \<Longrightarrow>
        p \<noteq> Ready Panic \<and> ok w' \<and> sent w' = sent w \<and>
        (p = NotReady \<longrightarrow> n \<le> ao_capacity AO w' \<and> waits w' < waits w) \<and>
        (p = Ready (Ok ()) \<longrightarrow> (\<forall>units i k. ao_spare_raw_parts AO w' = (units, i, k) \<longrightarrow> n \<le> k)) \<and>
        (\<forall>e. p = Ready (Err e) \<longrightarrow> fault e)"
    and flush_law: "ok w \<Longrightarrow> ao_poll_flush AO w = (p, w') \<Longrightarrow>
        p \<noteq> Ready Panic \<and> ok w' \<and> sent w' = sent w \<and> (p = NotReady \<longrightarrow> waits w' < waits w) \<and>
        (p = Ready (Ok ()) \<longrightarrow> delivered w' = sent w') \<and> (\<forall>e. p = Ready (Err e) \<longrightarrow> fault e)"
begin

lemma flush_returns:
  assumes "ok (aeo_output d)"
  shows "\<exists>r w'. aeo_flush_async AO d = Some (r, d\<lparr>aeo_output := w'\<rparr>) \<and> r \<noteq> Panic \<and> ok w' \<and>
    sent w' = sent (aeo_output d) \<and> (r = Ok () \<longrightarrow> delivered w' = sent w') \<and> (\<forall>e. r = Err e \<longrightarrow> fault e)"
proof -
  have "\<exists>r w'. await (ao_poll_flush AO) (aeo_output d) = Some (r, w') \<and> r \<noteq> Panic \<and> ok w' \<and>
      sent w' = sent (aeo_output d) \<and> (r = Ok () \<longrightarrow> delivered w' = sent w') \<and> (\<forall>e. r = Err e \<longrightarrow> fault e)"
  proof (rule await_returns [where f = waits and I = "\<lambda>w. ok w \<and> sent w = sent (aeo_output d)"])
    fix w w' assume i: "ok w \<and> sent w = sent (aeo_output d)" and "ao_poll_flush AO w = (NotReady, w')"
    from flush_law [OF _ this(2)] i show "(ok w' \<and> sent w' = sent (aeo_output d)) \<and> waits w' < waits w" by simp
  next
    fix w r w' assume i: "ok w \<and> sent w = sent (aeo_output d)" and "ao_poll_flush AO w = (Ready r, w')"
    from flush_law [OF _ this(2)] i show "r \<noteq> Panic \<and> ok w' \<and> sent w' = sent (aeo_output d) \<and>
        (r = Ok () \<longrightarrow> delivered w' = sent w') \<and> (\<forall>e. r = Err e \<longrightarrow> fault e)" by simp
  qed (use assms in simp)
  then obtain r w' where "await (ao_poll_flush AO) (aeo_output d) = Some (r, w')"
    and w: "r \<noteq> Panic \<and> ok w' \<and> sent w' = sent (aeo_output d) \<and> (r = Ok () \<longrightarrow> delivered w' = sent w') \<and>
      (\<forall>e. r = Err e \<longrightarrow> fault e)" by blast
  then have "aeo_flush_async AO d = Some (r, d\<lparr>aeo_output := w'\<rparr>)" by (simp add: aeo_flush_async_def)
  with w show ?thesis by blast
qed

lemma await_spare:
  assumes "ok w" "n \<le> ao_capacity AO w"
  shows "\<exists>r w'. await (ao_poll_spare AO n) w = Some (r, w') \<and> r \<noteq> Panic \<and> ok w' \<and> sent w' = sent w \<and>
    (r = Ok () \<longrightarrow> (\<forall>units i k. ao_spare_raw_parts AO w' = (units, i, k) \<longrightarrow> n \<le> k)) \<and> (\<forall>e. r = Err e \<longrightarrow> fault e)"
proof (rule await_returns [where f = waits and I = "\<lambda>w1. ok w1 \<and> n \<le> ao_capacity AO w1 \<and> sent w1 = sent w"])
  fix w1 w' assume i: "ok w1 \<and> n \<le> ao_capacity AO w1 \<and> sent w1 = sent w" and "ao_poll_spare AO n w1 = (NotReady, w')"
  with ensure_law [OF _ _ disjI2 [OF this(2)]]
  show "(ok w' \<and> n \<le> ao_capacity AO w' \<and> sent w' = sent w) \<and> waits w' < waits w1" by simp
next
  fix w1 r w' assume i: "ok w1 \<and> n \<le> ao_capacity AO w1 \<and> sent w1 = sent w" and "ao_poll_spare AO n w1 = (Ready r, w')"
  with ensure_law [OF _ _ disjI2 [OF this(2)]]
  show "r \<noteq> Panic \<and> ok w' \<and> sent w' = sent w \<and>
    (r = Ok () \<longrightarrow> (\<forall>units i k. ao_spare_raw_parts AO w' = (units, i, k) \<longrightarrow> n \<le> k)) \<and> (\<forall>e. r = Err e \<longrightarrow> fault e)"
    by simp
qed (use assms in simp)

lemma ensure_spare_async:
  assumes "ok w" "n \<le> usize_max"
  shows "\<exists>r w'. aeo_ensure_spare_capacity_async AO E n w = Some (r, w') \<and> r \<noteq> Panic \<and> ok w' \<and> sent w' = sent w \<and>
    (r = Ok () \<longrightarrow> (\<forall>units i k. ao_spare_raw_parts AO w' = (units, i, k) \<longrightarrow> n \<le> k)) \<and> (\<forall>e. r = Err e \<longrightarrow> fault e)"
proof -
  obtain q w1 where res: "ao_try_reserve_capacity AO w n = (q, w1)" by (metis surj_pair)
  note law = reserve_law [OF assms res]
  show ?thesis
  proof (cases q)
    case (Ok u)
    with await_spare [of w1 n] law res show ?thesis by (simp add: aeo_ensure_spare_capacity_async_def)
  qed (use law res in \<open>auto simp: aeo_ensure_spare_capacity_async_def\<close>)
qed

text \<open>A write into the spare window, committed or not.\<close>

lemma window_write:
  assumes "ok w" "ao_spare_raw_parts AO w = (units, i, n)" "length units' = length units" "take i units' = take i units"
  shows "ok (ao_write_units AO w units') \<and> sent (ao_write_units AO w units') = sent w \<and>
    (\<forall>us. i + length us \<le> length units \<longrightarrow> take (length us) (drop i units') = us \<longrightarrow>
      ok (ao_advance AO (ao_write_units AO w units') (length us)) \<and>
      sent (ao_advance AO (ao_write_units AO w units') (length us)) = sent w @ us)"
  using write_units_law [OF assms] raw_law [OF assms(1,2)]
    advance_law [of "ao_write_units AO w units'" units' i n]
  by auto

end

end
