(* ===== verification/EncodeDelivery.thy ===== *)
theory EncodeDelivery
  imports EncodeOutput
begin

text \<open>
  What reaches the output. A call on a \<open>TranscodeEncodeOutput\<close> commits everything it was asked
  to commit or nothing: the frame of a value, the encoding of a whole range of values, the reset
  or finish units. The loop of \<open>transcode\<close> ends for every encoder.
\<close>

section \<open>The loop of transcode\<close>

text \<open>A validated request for more output never fits what is left, so a turn does not go on.\<close>

lemma eo_batch_turn_ends:
  "eo_batch_turn T BO f input i count n s w \<noteq> (Ok (EncodeMore m), s', w')"
proof
  assume "eo_batch_turn T BO f input i count n s w = (Ok (EncodeMore m), s', w')"
  then show False
    by (auto simp: eo_batch_turn_def Let_def and_then_eq_Ok bind_res_eq_Ok io_valid valid_progress_def
        split: prod.splits if_splits transcode_status.splits)
qed

lemma eo_batch_loop_once:
  "eo_batch_loop T BO f input i count n s w =
    (if \<not> n < count then Some (Ok n, s, w)
     else case eo_batch_turn T BO f input i count n s w of
       (Ok (EncodeDone m), s, w) \<Rightarrow> Some (Ok m, s, w)
     | (Err e, s, w) \<Rightarrow> Some (Err e, s, w)
     | (_, s, w) \<Rightarrow> Some (Panic, s, w))"
  using eo_batch_turn_ends [of T BO f input i count n s w]
  by (subst eo_batch_loop.simps) (auto split: prod.splits res.splits encode_flow.splits)

lemma eo_transcode_returns: "\<exists>r s' w'. eo_transcode T BO E f s w input i count = Some (r, s', w')"
proof -
  have "\<exists>r s' w'. eo_batch_loop T BO f input i count n s w = Some (r, s', w')" for input n s w
    by (subst eo_batch_loop_once) (auto split: prod.splits res.splits encode_flow.splits)
  then show ?thesis
    by (auto simp: eo_transcode_def split: res.splits prod.splits)
qed

section \<open>Writing through the spare window\<close>

context buffered_sink
begin

lemma ensure_spare:
  assumes "ok w" "n \<le> usize_max" "eo_ensure_spare_capacity BO E n w = (r, w')"
  shows "r \<noteq> Panic \<and> ok w' \<and> sent w' = sent w \<and> (r = Ok () \<longrightarrow> n \<le> bo_spare_capacity BO w') \<and>
    (\<forall>e. r = Err e \<longrightarrow> fault e)"
proof -
  obtain q w1 where g: "bo_try_reserve_capacity BO w n = (q, w1)" by (metis surj_pair)
  note law = reserve_law [OF assms(1,2) g]
  show ?thesis
  proof (cases q)
    case (Ok u)
    then have "ok w1" "n \<le> bo_capacity BO w1" using law by auto
    from ensure_law [OF this, of r w'] law g Ok assms(3) show ?thesis
      by (simp add: eo_ensure_spare_capacity_def)
  qed (use law g assms(3) in \<open>auto simp: eo_ensure_spare_capacity_def\<close>)
qed

text \<open>A write into the spare window, committed or not.\<close>

lemma window_write:
  assumes "ok w" "bo_spare_raw_parts BO w = (units, i, n)" "length units' = length units" "take i units' = take i units"
  shows "ok (bo_write_units BO w units') \<and> sent (bo_write_units BO w units') = sent w \<and>
    (\<forall>us. i + length us \<le> length units \<longrightarrow> take (length us) (drop i units') = us \<longrightarrow>
      ok (bo_advance BO (bo_write_units BO w units') (length us)) \<and>
      sent (bo_advance BO (bo_write_units BO w units') (length us)) = sent w @ us)"
  using write_units_law [OF assms] raw_law [OF assms(1,2)]
    advance_law [of "bo_write_units BO w units'" units' i n]
  by auto

end

section \<open>One value\<close>

locale value_writing =
  framing_codec C good emit reset_emit finish_emit +
  buffered_sink BO E sent delivered ok fault interruptions
  for C :: "('c, 'v, 'u, 'de, 'ee) codec" and good and emit and reset_emit and finish_emit
    and BO :: "('w, 'u) buffered_output" and E and sent delivered and ok and fault and interruptions
begin

lemma write_encoded_sends:
  assumes "ok w" "good c" "max_complete_encode_units C = Ok units"
    and "eo_write_encoded_with C BO E f c v w = (r, c', w')"
  shows "ok w' \<and>
    ((\<exists>e. fault e \<and> r = Err e \<and> c' = c \<and> sent w' = sent w) \<or>
     (case frame c v of
        (Inr us, c1) \<Rightarrow> r = Ok () \<and> c' = c1 \<and> sent w' = sent w @ us
      | (Inl e, c1) \<Rightarrow> r = Err (map_encode_value_error e f) \<and> c' = c1 \<and> sent w' = sent w))"
proof -
  note def = eo_write_encoded_with_def map_encode_value_result_def
  have small: "units \<le> usize_max" using assms(3) by (simp add: max_complete_encode_units_Ok)
  obtain q w1 where e: "eo_ensure_spare_capacity BO E units w = (q, w1)" by (metis surj_pair)
  note ens = ensure_spare [OF assms(1) small e]
  show ?thesis
  proof (cases q)
    case (Ok u)
    obtain buf i n where raw: "bo_spare_raw_parts BO w1 = (buf, i, n)" by (metis prod_cases3)
    have w1: "ok w1" "sent w1 = sent w" "units \<le> bo_spare_capacity BO w1" using ens Ok by auto
    note law = raw_law [OF w1(1) raw]
    have room: "i + units \<le> length buf" using law w1(3) by simp
    note window = window_write [OF w1(1) raw]
    obtain x c1 where fr: "frame c v = (x, c1)" by (metis surj_pair)
    from complete_value_refines [OF assms(2,3) room, of v, unfolded fr] show ?thesis
    proof (cases rule: wrote_atE)
      case (1 us)
      have len: "length us \<le> units" using frame_good [OF assms(2) _ assms(3), of v us c1] fr 1 by simp
      have "i \<le> length buf" "i + length us \<le> length buf" using room len by simp_all
      with window [of "splice_at buf i us"] splice_at_read [of i buf us] w1(2)
      have "ok (bo_advance BO (bo_write_units BO w1 (splice_at buf i us)) (length us))"
        "sent (bo_advance BO (bo_write_units BO w1 (splice_at buf i us)) (length us)) = sent w @ us" by simp_all
      with \<open>i + length us \<le> length buf\<close> 1 assms(3,4) e Ok raw w1 law fr show ?thesis
        by (auto simp: def Let_def)
    next
      case (2 err buf')
      with window [of buf'] assms(3,4) e Ok raw w1 law fr show ?thesis
        by (simp add: def Let_def)
    qed
  qed (use ens e assms(3,4) in \<open>auto simp: def\<close>)
qed

end

section \<open>A range of values\<close>

text \<open>A streaming encoder that completes within the bound it declares. \<open>encode_all\<close> gives the units
  of all values from a position on, or the error; \<open>reset_all\<close> and \<open>finish_all\<close> what reset and
  finish emit.\<close>

locale batch_encoder =
  fixes T :: "('s, 'v, 'u, 'e) transcoder" and live :: "'s \<Rightarrow> bool" and view :: "'s \<Rightarrow> 'c"
    and encode_all :: "'c \<Rightarrow> nat \<Rightarrow> 'v list \<Rightarrow> ('e + 'u list) \<times> 'c"
  assumes bound_law: "live s \<Longrightarrow> n \<le> usize_max \<Longrightarrow> max_transcode_output_len T s n \<noteq> Panic \<and>
        (\<forall>m. max_transcode_output_len T s n = Ok m \<longrightarrow> m \<le> usize_max)"
    and batch_law: "live s \<Longrightarrow> i \<le> length input \<Longrightarrow> length input \<le> usize_max \<Longrightarrow> length out \<le> usize_max \<Longrightarrow>
        max_transcode_output_len T s (length input - i) = Ok m \<Longrightarrow> j + m \<le> length out \<Longrightarrow>
        encode_all (view s) i (drop i input) = (x, c') \<Longrightarrow> tr_transcode T s input i out j = (r, s', out') \<Longrightarrow>
        view s' = c' \<and> length out' = length out \<and> take j out' = take j out \<and>
        (case x of
           Inl e \<Rightarrow> r = Err e
         | Inr us \<Rightarrow> live s' \<and> r = Ok (progress_complete (length input - i) (length us)) \<and>
             j + length us \<le> length out \<and> take (length us) (drop j out') = us)"

text \<open>A result of \<open>transcode\<close> on an output: nothing was committed, because of the sink, the bound or
  the encoder; or the whole encoding was.\<close>

definition sends_all ::
  "('c \<Rightarrow> nat \<Rightarrow> 'v list \<Rightarrow> ('e + 'u list) \<times> 'c) \<Rightarrow> ('s \<Rightarrow> 'c) \<Rightarrow> ('s \<Rightarrow> bool) \<Rightarrow> ('w \<Rightarrow> 'u list) \<Rightarrow>
   (io_error \<Rightarrow> bool) \<Rightarrow> ('e \<Rightarrow> io_error) \<Rightarrow> nat capacity \<Rightarrow> 's \<Rightarrow> 'w \<Rightarrow> nat \<Rightarrow> 'v list \<Rightarrow>
   (io_error, nat) res \<Rightarrow> 's \<Rightarrow> 'w \<Rightarrow> bool" where
  "sends_all encode_all view live sent fault map_error bound s w i vs r s' w' \<longleftrightarrow>
    (case r of
       Ok n \<Rightarrow> n = length vs \<and> live s' \<and>
         (\<exists>us. encode_all (view s) i vs = (Inr us, view s') \<and> sent w' = sent w @ us)
     | Err e \<Rightarrow> sent w' = sent w \<and>
         (fault e \<and> s' = s \<or> (\<exists>x. bound = Err x \<and> e = capacity_error_to_invalid_data x \<and> s' = s) \<or>
          (\<exists>e'. encode_all (view s) i vs = (Inl e', view s') \<and> e = map_error e'))
     | Panic \<Rightarrow> False)"

locale encode_bridge =
  batch_encoder T live view encode_all + buffered_sink BO E sent delivered ok fault interruptions
  for T :: "('s, 'v, 'u, 'e) transcoder" and live and view :: "'s \<Rightarrow> 'c" and encode_all
    and BO :: "('w, 'u) buffered_output" and E and sent delivered and ok and fault and interruptions +
  assumes range_law: "i + n \<le> len \<Longrightarrow> len \<le> usize_max \<Longrightarrow> env_range_end E len i n msg = Ok (i + n)"
    and encode_nothing: "encode_all c i [] = (Inr [], c)"
begin

lemma batch_turn_sends:
  assumes "ok w" "live s" "length input \<le> usize_max" "input = take (i + count) all" "i + count \<le> length all" "0 < count"
    and "max_transcode_output_len T s count = Ok m" "m \<le> bo_spare_capacity BO w"
    and "eo_batch_turn T BO f input i count 0 s w = (r, s', w')"
  shows "ok w' \<and> (case r of
      Ok (EncodeDone n) \<Rightarrow> n = count \<and> live s' \<and>
        (\<exists>us. encode_all (view s) i (drop i input) = (Inr us, view s') \<and> sent w' = sent w @ us)
    | Ok (EncodeMore n) \<Rightarrow> False
    | Err e \<Rightarrow> sent w' = sent w \<and> (\<exists>e'. encode_all (view s) i (drop i input) = (Inl e', view s') \<and> e = f e')
    | Panic \<Rightarrow> False)"
proof -
  note def = eo_batch_turn_def Let_def
  obtain buf j n where raw: "bo_spare_raw_parts BO w = (buf, j, n)" by (metis prod_cases3)
  note law = raw_law [OF assms(1) raw]
  obtain q s1 b1 where call: "tr_transcode T s input i buf j = (q, s1, b1)" by (metis prod_cases3)
  obtain x c1 where enc: "encode_all (view s) i (drop i input) = (x, c1)" by (metis surj_pair)
  have len: "length input = i + count" "i \<le> length input" "length input - i = count" using assms(4,5) by simp_all
  have room: "j + m \<le> length buf" using law assms(8) by simp
  have "length buf \<le> usize_max" using law by simp
  note batch = batch_law [OF assms(2) len(2) assms(3) this, of m j x, unfolded len(3), OF assms(7) room enc call]
  note window = window_write [OF assms(1) raw, of b1]
  show ?thesis
  proof (cases x)
    case (Inl e)
    with batch window assms(9) raw call enc show ?thesis by (auto simp: def)
  next
    case (Inr us)
    let ?p = "progress_complete count (length us)"
    have "valid_progress ?p i count j n"
      using batch Inr law len(1) assms(3) by (auto simp: valid_progress_def progress_defs)
    then have v: "validate_encode_progress ?p i count j n = Ok ?p"
      by (simp add: io_valid progress_defs)
    have w: "ok (bo_advance BO (bo_write_units BO w b1) (length us))"
      "sent (bo_advance BO (bo_write_units BO w b1) (length us)) = sent w @ us"
      using batch Inr window by auto
    have "r = Ok (EncodeDone count)" "s' = s1" "w' = bo_advance BO (bo_write_units BO w b1) (length us)"
      using assms(9) raw call batch Inr v by (simp_all add: def progress_defs)
    with w enc Inr batch show ?thesis by auto
  qed
qed

lemma transcode_sends:
  assumes "ok w" "live s" "i + count \<le> length input" "length input \<le> usize_max"
  shows "\<exists>r s' w'. eo_transcode T BO E f s w input i count = Some (r, s', w') \<and> ok w' \<and>
    sends_all encode_all view live sent fault f (max_transcode_output_len T s count) s w i (take count (drop i input)) r s' w'"
proof (cases "count = 0")
  case True
  have "env_range_end E (length input) i 0 msg = Ok i" for msg using range_law [of i 0] assms(3,4) by simp
  with True assms(1,2) show ?thesis by (simp add: eo_transcode_def sends_all_def encode_nothing)
next
  case False
  let ?in = "take (i + count) input"
  have range: "env_range_end E (length input) i count msg = Ok (i + count)" for msg
    using range_law assms(3,4) by simp
  have vs: "drop i ?in = take count (drop i input)" by (simp add: take_drop add.commute)
  note def = eo_transcode_def range sends_all_def
  have "count \<le> usize_max" using assms(3,4) by simp
  note bl = bound_law [OF assms(2) this]
  show ?thesis
  proof (cases "max_transcode_output_len T s count")
    case (Ok m)
    have small: "max m 1 \<le> usize_max" using bl Ok by (simp add: usize_max_def)
    obtain q w1 where e: "eo_ensure_spare_capacity BO E (max m 1) w = (q, w1)" by (metis surj_pair)
    note ens = ensure_spare [OF assms(1) small e]
    show ?thesis
    proof (cases q)
      case okq: (Ok u)
      with ens have w1: "ok w1" "sent w1 = sent w" "m \<le> bo_spare_capacity BO w1" by auto
      obtain r s' w' where t: "eo_batch_turn T BO f ?in i count 0 s w1 = (r, s', w')" by (metis prod_cases3)
      have "length ?in \<le> usize_max" using assms(4) by simp
      note turn = batch_turn_sends [OF w1(1) assms(2) this refl assms(3) _ Ok w1(3) t, unfolded vs]
      have "eo_transcode T BO E f s w input i count = (case (r, s', w') of
           (Ok (EncodeDone m), s, w) \<Rightarrow> Some (Ok m, s, w)
         | (Err e, s, w) \<Rightarrow> Some (Err e, s, w)
         | (_, s, w) \<Rightarrow> Some (Panic, s, w))"
        using False Ok okq e t by (simp add: def eo_batch_loop_once)
      with turn False w1(2) assms(3) show ?thesis
        by (cases r) (auto simp: sends_all_def split: encode_flow.splits)
    qed (use ens e Ok False in \<open>auto simp: def\<close>)
  qed (use bl False assms(1) in \<open>auto simp: def\<close>)
qed

end

section \<open>Raw units\<close>

context buffered_sink
begin

text \<open>Interruptions are retried, and there are finitely many; everything else makes progress.\<close>

lemma write_all_from_sends:
  assumes "ok w" "n \<le> length us"
  shows "\<exists>r w'. eo_write_all_from BO us n w = Some (r, w') \<and> ok w' \<and>
    (\<exists>k. n \<le> k \<and> k \<le> length us \<and> sent w' = sent w @ take (k - n) (drop n us) \<and>
      (case r of Ok _ \<Rightarrow> k = length us
       | Err e \<Rightarrow> fault e \<and> io_kind e \<noteq> Interrupted \<or> e = IoMessage WriteZero [] | Panic \<Rightarrow> False))"
  using assms
proof (induction "(length us - n) + interruptions w" arbitrary: n w rule: less_induct)
  case less
  note loop = eo_write_all_from.simps [of BO us n w]
  show ?case
  proof (cases "n < length us")
    case False
    with less.prems loop show ?thesis by auto
  next
    case True
    obtain m w1 where wr: "bo_write BO w (drop n us) = (m, w1)" by (metis surj_pair)
    note law = write_law [OF less.prems(1) wr]
    show ?thesis
    proof (cases m)
      case (Ok k)
      with law have k: "k \<le> length us - n" "sent w1 = sent w @ take k (drop n us)" "ok w1" "interruptions w1 \<le> interruptions w"
        by auto
      show ?thesis
      proof (cases "k = 0")
        case True
        with loop wr Ok k less.prems \<open>n < length us\<close> show ?thesis by (auto simp: eo_write_def intro!: exI [of _ n])
      next
        case False
        then have "(length us - (n + k)) + interruptions w1 < (length us - n) + interruptions w"
          using k \<open>n < length us\<close> by linarith
        moreover have "n + k \<le> length us" using k(1) \<open>n < length us\<close> by simp
        ultimately obtain r w2 j where
          rec: "eo_write_all_from BO us (n + k) w1 = Some (r, w2)" "ok w2" "n + k \<le> j" "j \<le> length us"
          "sent w2 = sent w1 @ take (j - (n + k)) (drop (n + k) us)"
          "case r of Ok _ \<Rightarrow> j = length us
            | Err e \<Rightarrow> fault e \<and> io_kind e \<noteq> Interrupted \<or> e = IoMessage WriteZero [] | Panic \<Rightarrow> False"
          using less.hyps [OF _ k(3)] by blast
        have "take k (drop n us) @ take (j - (n + k)) (drop (n + k) us) = take (j - n) (drop n us)"
          using rec(3) take_add [of k "j - (n + k)" "drop n us"] by (simp add: add.commute)
        with rec k have "sent w2 = sent w @ take (j - n) (drop n us)" by simp
        with rec loop wr Ok k False \<open>n < length us\<close> show ?thesis
          by (auto simp: eo_write_def intro!: exI [of _ j])
      qed
    next
      case (Err e)
      with law have e: "sent w1 = sent w" "ok w1" "fault e" "interruptions w1 \<le> interruptions w"
        "io_kind e = Interrupted \<longrightarrow> interruptions w1 < interruptions w" by auto
      show ?thesis
      proof (cases "io_kind e = Interrupted")
        case int: True
        then have "(length us - n) + interruptions w1 < (length us - n) + interruptions w" using e by simp
        from less.hyps [OF this e(2) less.prems(2)] e(1) loop wr Err int True show ?thesis by (simp add: eo_write_def)
      next
        case False
        with loop wr Err e True less.prems show ?thesis by (auto simp: eo_write_def intro!: exI [of _ n])
      qed
    qed (use law in simp)
  qed
qed

end

section \<open>Reset and finish\<close>

text \<open>\<open>held\<close> holds of the states a reset may start in, \<open>live\<close> of those a stream is open in.\<close>

locale lifecycle_encoder =
  batch_encoder T live view encode_all
  for T :: "('s, 'v, 'u, 'e) transcoder" and live and view :: "'s \<Rightarrow> 'c" and encode_all +
  fixes held :: "'s \<Rightarrow> bool" and reset_all finish_all :: "'c \<Rightarrow> ('e + 'u list) \<times> 'c"
  assumes reset_bound: "held s \<Longrightarrow> max_reset_output_len T s \<noteq> Panic \<and>
        (\<forall>m. max_reset_output_len T s = Ok m \<longrightarrow> m \<le> usize_max)"
    and reset_units: "held s \<Longrightarrow> max_reset_output_len T s = Ok m \<Longrightarrow> j + m \<le> length out \<Longrightarrow> length out \<le> usize_max \<Longrightarrow>
        reset_all (view s) = (x, c') \<Longrightarrow> tr_reset T s out j = (r, s', out') \<Longrightarrow>
        view s' = c' \<and> length out' = length out \<and> take j out' = take j out \<and>
        (case x of Inl e \<Rightarrow> r = Err e
         | Inr us \<Rightarrow> live s' \<and> r = Ok (length us) \<and> length us \<le> m \<and> take (length us) (drop j out') = us)"
    and finish_bound: "live s \<Longrightarrow> max_finish_output_len T s \<noteq> Panic \<and>
        (\<forall>m. max_finish_output_len T s = Ok m \<longrightarrow> m \<le> usize_max)"
    and finish_units: "live s \<Longrightarrow> max_finish_output_len T s = Ok m \<Longrightarrow> j + m \<le> length out \<Longrightarrow> length out \<le> usize_max \<Longrightarrow>
        finish_all (view s) = (x, c') \<Longrightarrow> tr_finish T s out j = (r, s', out') \<Longrightarrow>
        view s' = c' \<and> length out' = length out \<and> take j out' = take j out \<and>
        (case x of Inl e \<Rightarrow> r = Err e
         | Inr us \<Rightarrow> held s' \<and> r = Ok (length us) \<and> length us \<le> m \<and> take (length us) (drop j out') = us)"

text \<open>A result of a call that emits the units of \<open>emission\<close>: nothing committed, or all of them.
  \<open>overflow\<close> are the capacity errors it may report.\<close>

definition sends_units ::
  "('e + 'u list) \<times> 'c \<Rightarrow> ('s \<Rightarrow> 'c) \<Rightarrow> ('w \<Rightarrow> 'u list) \<Rightarrow> (io_error \<Rightarrow> bool) \<Rightarrow> ('e \<Rightarrow> io_error) \<Rightarrow>
   (capacity_error \<Rightarrow> bool) \<Rightarrow> 's \<Rightarrow> 'w \<Rightarrow> (io_error, unit) res \<Rightarrow> 's \<Rightarrow> 'w \<Rightarrow> bool" where
  "sends_units emission view sent fault map_error overflow s w r s' w' \<longleftrightarrow>
    (case r of
       Ok _ \<Rightarrow> \<exists>us. emission = (Inr us, view s') \<and> sent w' = sent w @ us
     | Err e \<Rightarrow> sent w' = sent w \<and>
         (s' = s \<and> (fault e \<or> (\<exists>k. overflow k \<and> e = capacity_error_to_invalid_data k)) \<or>
          (\<exists>e'. emission = (Inl e', view s') \<and> e = map_error e'))
     | Panic \<Rightarrow> False)"

definition finish_overflow :: "('s, 'v, 'u, 'e) transcoder \<Rightarrow> ('w, 'u) buffered_output \<Rightarrow> 's \<Rightarrow> 'w \<Rightarrow> capacity_error \<Rightarrow> bool" where
  "finish_overflow T BO s w k \<longleftrightarrow>
    (case max_finish_output_len T s of
       Ok m \<Rightarrow> k = CapacityOutputLengthOverflow \<and> usize_max < bo_capacity BO w - bo_spare_capacity BO w + m
     | Err x \<Rightarrow> k = x | Panic \<Rightarrow> False)"

locale lifecycle_bridge =
  encode_bridge T live view encode_all BO E sent delivered ok fault interruptions +
  lifecycle_encoder T live view encode_all held reset_all finish_all
  for T :: "('s, 'v, 'u, 'e) transcoder" and live and view :: "'s \<Rightarrow> 'c" and encode_all
    and held and reset_all and finish_all
    and BO :: "('w, 'u) buffered_output" and E and sent delivered and ok and fault and interruptions
begin

lemma reset_sends:
  assumes "ok w" "held s" "eo_reset T BO E f s w = (r, s', w')"
  shows "ok w' \<and> sends_units (reset_all (view s)) view sent fault f (\<lambda>k. max_reset_output_len T s = Err k) s w r s' w' \<and> (r = Ok () \<longrightarrow> live s')"
proof -
  note def = eo_reset_def sends_units_def Let_def
  note rb = reset_bound [OF assms(2)]
  show ?thesis
  proof (cases "max_reset_output_len T s")
    case (Ok m)
    then have small: "m \<le> usize_max" using rb by simp
    obtain q w1 where e: "eo_ensure_spare_capacity BO E m w = (q, w1)" by (metis surj_pair)
    note ens = ensure_spare [OF assms(1) small e]
    show ?thesis
    proof (cases q)
      case okq: (Ok u)
      with ens have w1: "ok w1" "sent w1 = sent w" "m \<le> bo_spare_capacity BO w1" by auto
      obtain buf j n where raw: "bo_spare_raw_parts BO w1 = (buf, j, n)" by (metis prod_cases3)
      note law = raw_law [OF w1(1) raw]
      obtain q1 s1 b1 where call: "tr_reset T s buf j = (q1, s1, b1)" by (metis prod_cases3)
      obtain x c1 where em: "reset_all (view s) = (x, c1)" by (metis surj_pair)
      have "j + m \<le> length buf" "length buf \<le> usize_max" using law w1(3) by simp_all
      note units = reset_units [OF assms(2) Ok this em call]
      note window = window_write [OF w1(1) raw, of b1]
      from units window assms(3) Ok okq e raw call em law w1(2,3) show ?thesis
        by (cases x) (auto simp: def)
    qed (use ens e Ok assms(3) in \<open>auto simp: def\<close>)
  qed (use rb assms(1,3) in \<open>auto simp: def\<close>)
qed

lemma finish_to_buffer_sends:
  assumes "ok w" "live s" "eo_finish_to_buffer T BO E f s w = (r, s', w')"
  shows "ok w' \<and> sends_units (finish_all (view s)) view sent fault f (finish_overflow T BO s w) s w r s' w' \<and> (r = Ok () \<longrightarrow> held s')"
proof -
  note def = eo_finish_to_buffer_def sends_units_def finish_overflow_def Let_def
  note fb = finish_bound [OF assms(2)]
  let ?p = "bo_capacity BO w - bo_spare_capacity BO w"
  show ?thesis
  proof (cases "max_finish_output_len T s")
    case (Ok m)
    show ?thesis
    proof (cases "checked_add ?p m")
      case None
      with Ok assms(1,3) show ?thesis by (auto simp: def checked_add_def split: if_splits)
    next
      case (Some k)
      then have k: "k = ?p + m" "k \<le> usize_max" by (auto simp: checked_add_eq_Some)
      obtain q w1 where e: "bo_try_reserve_capacity BO w k = (q, w1)" by (metis surj_pair)
      note res = reserve_law [OF assms(1) k(2) e]
      show ?thesis
      proof (cases q)
        case okq: (Ok u)
        obtain buf j n where raw: "bo_spare_raw_parts BO w1 = (buf, j, n)" by (metis prod_cases3)
        have "ok w1" using res by simp
        note law = raw_law [OF this raw]
        have w1: "ok w1" "sent w1 = sent w" "m \<le> bo_spare_capacity BO w1" using res okq k law by auto
        obtain q1 s1 b1 where call: "tr_finish T s buf j = (q1, s1, b1)" by (metis prod_cases3)
        obtain x c1 where em: "finish_all (view s) = (x, c1)" by (metis surj_pair)
        have "j + m \<le> length buf" "length buf \<le> usize_max" using law w1(3) by simp_all
        note units = finish_units [OF assms(2) Ok this em call]
        note window = window_write [OF w1(1) raw, of b1]
        from units window assms(3) Ok Some okq e raw call em law w1(2,3) show ?thesis
          by (cases x) (auto simp: def)
      qed (use res e Ok Some assms(3) in \<open>auto simp: def\<close>)
    qed
  qed (use fb assms(1,3) in \<open>auto simp: def\<close>)
qed

text \<open>\<open>finish\<close> flushes behind the finish units: they are delivered, or committed and still pending.\<close>

lemma finish_sends:
  assumes "ok w" "live s" "eo_finish T BO E f s w = (r, s', w')"
  shows "ok w' \<and> (sends_units (finish_all (view s)) view sent fault f (finish_overflow T BO s w) s w r s' w' \<and>
        (r = Ok () \<longrightarrow> held s' \<and> delivered w' = sent w') \<or>
      (\<exists>e us. r = Err e \<and> fault e \<and> finish_all (view s) = (Inr us, view s') \<and> sent w' = sent w @ us))"
proof -
  obtain q s1 w1 where b: "eo_finish_to_buffer T BO E f s w = (q, s1, w1)" by (metis prod_cases3)
  note fin = finish_to_buffer_sends [OF assms(1,2) b]
  show ?thesis
  proof (cases q)
    case (Ok u)
    obtain q2 w2 where fl: "bo_flush BO w1 = (q2, w2)" by (metis surj_pair)
    from fin flush_law [OF _ fl] b Ok fl assms(3) show ?thesis
      by (cases q2) (auto simp: eo_finish_def sends_units_def)
  qed (use fin b assms(3) in \<open>auto simp: eo_finish_def\<close>)
qed

end

end
