(* ===== verification/EncodeSinks.thy ===== *)
theory EncodeSinks
  imports EncodeDelivery
begin

text \<open>
  Streaming encoders that keep the contract of the output bridge: the encode engine with hooks
  that add nothing of their own, and \<open>MarkerEncoder\<close> of the fuzz target
  \<open>fuzz/fuzz_targets/transcode_encode_output_lifecycle.rs\<close>; and what follows for sequences of
  calls.
\<close>

section \<open>The encode engine\<close>

abbreviation engine_state :: "('c, 'h) encode_engine \<Rightarrow> 'c \<times> 'h" where
  "engine_state eng \<equiv> (ee_codec eng, ee_hooks eng)"

definition engine_encode_all ::
  "('c, 'v, 'u, 'de, 'ee) codec \<Rightarrow> ('c, 'v, 'u, 'ee) emitter \<Rightarrow> ('h \<Rightarrow> 'v \<Rightarrow> 'v unencodable_action) \<Rightarrow>
   'c \<times> 'h \<Rightarrow> nat \<Rightarrow> 'v list \<Rightarrow> (('ee, 'v) encode_error + 'u list) \<times> 'c \<times> 'h" where
  "engine_encode_all C emit act = (\<lambda>(c, h) i vs.
     case encode_stream C emit (act h) i c vs (length vs * max_encode_units_per_value C) of
       (Err e, n, us, c') \<Rightarrow> (Inl e, c', h)
     | (_, n, us, c') \<Rightarrow> (Inr us, c', h))"

definition engine_emission ::
  "('ee \<Rightarrow> ('ee, 'v) encode_error) \<Rightarrow> ('c, 'u, 'ee) lifecycle_emitter \<Rightarrow> 'c \<times> 'h \<Rightarrow>
   (('ee, 'v) encode_error + 'u list) \<times> 'c \<times> 'h" where
  "engine_emission wrap emission = (\<lambda>(c, h). case emission c of (x, c') \<Rightarrow> (map_sum wrap id x, c', h))"

locale plain_encoder =
  codec: encoder_codec C H good emit act + framing_codec C good emit reset_emit finish_emit
  for C :: "('c, 'v, 'u, 'de, 'ee) codec" and H :: "('h, 'c, 'v, 'u, 'ee) encode_hooks"
    and good and emit and act and reset_emit and finish_emit +
  assumes plain_hooks: "eh_max_transcode_output_len H = default_eh_max_transcode C"
      "eh_max_finish_output_len H = default_max_finish" "eh_reset_hooks H = default_reset_hooks"
      "eh_finish_hooks H = default_finish_hooks"
    and usize_units: "max_encode_reset_units C \<le> usize_max" "max_encode_finish_units C \<le> usize_max"
begin

text \<open>More room than the bound makes no difference.\<close>

lemma encode_turn_roomy:
  assumes "good c" "max_encode_units_per_value C \<le> room" "max_encode_units_per_value C \<le> room'"
  shows "encode_turn C emit (act h) i c v room = encode_turn C emit (act h) i c v room'"
  using assms codec.encode_len_bound [OF assms(1)] codec.replacement_encodable [OF assms(1)]
  by (fastforce simp: encode_turn_def emit_turn_def split: unencodable_action.splits)

lemma encode_stream_roomy:
  assumes "good c" "length vs * max_encode_units_per_value C \<le> room" "length vs * max_encode_units_per_value C \<le> room'"
  shows "encode_stream C emit (act h) i c vs room = encode_stream C emit (act h) i c vs room'"
  using assms
proof (induction vs arbitrary: i c room room')
  case (Cons v vs)
  let ?m = "max_encode_units_per_value C"
  have m: "?m \<le> room" "?m \<le> room'" using Cons.prems(2,3) by simp_all
  note turn = encode_turn_roomy [OF Cons.prems(1) m, of h i v]
  show ?case
  proof (cases "encode_turn C emit (act h) i c v room'")
    case (TurnWrite us c1)
    note w = codec.encode_turn_writes [OF Cons.prems(1) TurnWrite]
    have "length us \<le> ?m" using w by blast
    then have "length vs * ?m \<le> room - length us" "length vs * ?m \<le> room' - length us"
      using Cons.prems(2,3) by simp_all
    from Cons.IH [OF _ this, of c1 "i + 1"] w turn TurnWrite show ?thesis by simp
  qed (use turn in simp_all)
qed simp

lemma engine_batch:
  assumes "good (ee_codec eng)" "stream_phase (ee_phase eng)" "i \<le> length input" "j + m \<le> length out"
    and "m = (length input - i) * max_encode_units_per_value C"
    and "engine_encode_all C emit act (engine_state eng) i (drop i input) = (x, c')"
    and "ee_transcode C H eng input i out j = (r, eng', out')"
  shows "engine_state eng' = c' \<and> length out' = length out \<and> take j out' = take j out \<and>
    (case x of
       Inl e \<Rightarrow> r = Err e
     | Inr us \<Rightarrow> good (ee_codec eng') \<and> stream_phase (ee_phase eng') \<and>
         r = Ok (progress_complete (length input - i) (length us)) \<and>
         j + length us \<le> length out \<and> take (length us) (drop j out') = us)"
proof -
  obtain q n us c1 where spec: "encode_stream C emit (act (ee_hooks eng)) i (ee_codec eng) (drop i input) (length out - j)
      = (q, n, us, c1)" by (metis prod_cases4)
  have room: "length (drop i input) * max_encode_units_per_value C \<le> length out - j" using assms(4,5) by simp
  have "j \<le> length out" using assms(4) by simp
  note ref = codec.transcode_refines [OF assms(1-3) this spec assms(7)]
  note b = codec.stream_bound [OF assms(1) spec]
  have all: "encode_stream C emit (act (ee_hooks eng)) i (ee_codec eng) (drop i input)
      (length (drop i input) * max_encode_units_per_value C) = (q, n, us, c1)"
    using encode_stream_roomy [OF assms(1) order_refl room] spec by simp
  have "take j (take (j + length us) out') = take j (take j out @ us)" using ref by simp
  moreover have "drop j (take (j + length us) out') = drop j (take j out @ us)" using ref by simp
  ultimately have out: "take j out' = take j out" "take (length us) (drop j out') = us"
    using \<open>j \<le> length out\<close> by (simp_all add: drop_take)
  show ?thesis
  proof (cases q)
    case (Ok y)
    have y: "y = None" using b room Ok by (cases y) auto
    with codec.stream_complete [of h i] spec Ok have n: "n = length input - i"
      using codec.stream_complete [of "ee_hooks eng" i "ee_codec eng" "drop i input" "length out - j"] by simp
    have "length us \<le> length out - j" using b by blast
    then have "j + length us \<le> length out" using \<open>j \<le> length out\<close> by simp
    moreover have "good c1" using codec.stream_good [OF assms(1)] spec Ok by blast
    ultimately show ?thesis using ref out all assms(6) Ok y n
      by (auto simp: engine_encode_all_def encode_stream_report_def progress_defs stream_phase_def)
  next
    case (Err e)
    with ref out all assms(6) show ?thesis by (auto simp: engine_encode_all_def)
  next
    case Panic
    with codec.stream_no_panic [of "ee_hooks eng" i "ee_codec eng" "drop i input" "length out - j"] spec show ?thesis by simp
  qed
qed

lemma engine_reset:
  assumes "good (ee_codec eng)" "j + max_encode_reset_units C \<le> length out"
    and "engine_emission (\<lambda>e. EncodeDomain (DomainReset e)) reset_emit (engine_state eng) = (x, c')"
    and "ee_reset C H eng out j = (r, eng', out')"
  shows "engine_state eng' = c' \<and> length out' = length out \<and> take j out' = take j out \<and>
    (case x of Inl e \<Rightarrow> r = Err e
     | Inr us \<Rightarrow> good (ee_codec eng') \<and> stream_phase (ee_phase eng') \<and> r = Ok (length us) \<and>
         length us \<le> max_encode_reset_units C \<and> take (length us) (drop j out') = us)"
proof -
  note def = ee_reset_def ee_max_reset_output_len_def call_defs Let_def plain_hooks hook_default_defs engine_emission_def
    guard_defs stream_phase_def
  have cap: "ensure_output_capacity (length out) j (max_encode_reset_units C) = Ok ()" using assms(2) by (simp add: check_simps)
  have j: "j \<le> length out" using assms(2) by simp
  obtain y c1 where e: "reset_emit (ee_codec eng) = (y, c1)" by (metis surj_pair)
  from reset_law [OF assms(1,2), unfolded e] show ?thesis
  proof (cases rule: wrote_atE)
    case (1 us)
    note len = reset_len [OF assms(1) e [unfolded 1(1)]]
    then have "j + length us \<le> length out" using assms(2) by simp
    with 1 len e assms(3,4) cap j show ?thesis by (auto simp: def splice_at_read)
  next
    case (2 err out1)
    with e assms(3,4) cap show ?thesis by (auto simp: def)
  qed
qed

lemma engine_finish:
  assumes "good (ee_codec eng)" "stream_phase (ee_phase eng)" "j + max_encode_finish_units C \<le> length out"
    and "engine_emission (\<lambda>e. EncodeDomain (DomainFinish e)) finish_emit (engine_state eng) = (x, c')"
    and "ee_finish C H eng out j = (r, eng', out')"
  shows "engine_state eng' = c' \<and> length out' = length out \<and> take j out' = take j out \<and>
    (case x of Inl e \<Rightarrow> r = Err e
     | Inr us \<Rightarrow> good (ee_codec eng') \<and> r = Ok (length us) \<and>
         length us \<le> max_encode_finish_units C \<and> take (length us) (drop j out') = us)"
proof -
  note def = ee_finish_def call_defs Let_def plain_hooks hook_default_defs engine_emission_def
  have cap: "ensure_output_capacity (length out) j (max_encode_finish_units C) = Ok ()" using assms(3) by (simp add: check_simps)
  have guard: "on_finish_attempt (ee_lifecycle eng) = Ok ()" using assms(2) by (simp add: on_finish_attempt_Ok)
  have sum: "checked_add (max_encode_finish_units C) 0 = Some (max_encode_finish_units C)"
    using usize_units by (simp add: checked_add_def)
  have j: "j \<le> length out" using assms(3) by simp
  obtain y c1 where e: "finish_emit (ee_codec eng) = (y, c1)" by (metis surj_pair)
  from finish_law [OF assms(1,3), unfolded e] show ?thesis
  proof (cases rule: wrote_atE)
    case (1 us)
    note len = finish_len [OF assms(1) e [unfolded 1(1)]]
    then have "j + length us \<le> length out" using assms(3) by simp
    with 1 len e assms(4,5) cap guard sum j show ?thesis by (auto simp: def splice_at_read)
  next
    case (2 err out1)
    with e assms(4,5) cap guard sum show ?thesis by (auto simp: def)
  qed
qed

end

sublocale plain_encoder \<subseteq> delivery: lifecycle_encoder "encode_transcoder C H"
  "\<lambda>eng. good (ee_codec eng) \<and> stream_phase (ee_phase eng)" engine_state "engine_encode_all C emit act"
  "\<lambda>eng. good (ee_codec eng)" "engine_emission (\<lambda>e. EncodeDomain (DomainReset e)) reset_emit"
  "engine_emission (\<lambda>e. EncodeDomain (DomainFinish e)) finish_emit"
proof (unfold_locales, goal_cases)
  case (1 s n)
  then show ?case
    by (auto simp: encode_transcoder_def ee_max_transcode_output_len_def plain_hooks default_eh_max_transcode_def
        checked_mul_eq_Some)
next
  case (2 s i input out m j x c' r s' out')
  then have "m = (length input - i) * max_encode_units_per_value C"
    by (auto simp: encode_transcoder_def ee_max_transcode_output_len_def plain_hooks default_eh_max_transcode_def
        checked_mul_eq_Some)
  with engine_batch [of s i input j m out x c' r s' out'] 2 show ?case
    by (auto simp: encode_transcoder_def split: sum.splits)
next
  case (3 s)
  then show ?case using usize_units by (simp add: encode_transcoder_def ee_max_reset_output_len_def)
next
  case (4 s m j out x c' r s' out')
  with engine_reset [of s j out x c' r s' out'] show ?case
    by (auto simp: encode_transcoder_def ee_max_reset_output_len_def split: sum.splits)
next
  case (5 s)
  then show ?case using usize_units
    by (auto simp: encode_transcoder_def ee_max_finish_output_len_def plain_hooks default_max_finish_def checked_add_eq_Some)
next
  case (6 s m j out x c' r s' out')
  then have "m = max_encode_finish_units C"
    by (auto simp: encode_transcoder_def ee_max_finish_output_len_def plain_hooks default_max_finish_def checked_add_eq_Some)
  with engine_finish [of s j out x c' r s' out'] 6 show ?case
    by (auto simp: encode_transcoder_def split: sum.splits)
qed

section \<open>MarkerEncoder\<close>

text \<open>Bytes pass through; a reset and a finish leave a mark.\<close>

definition encode_reset_byte :: u8 where "encode_reset_byte = 0xa1"
definition encode_finish_byte :: u8 where "encode_finish_byte = 0xf1"

definition me_transcode ::
  "unit \<Rightarrow> u8 list \<Rightarrow> nat \<Rightarrow> u8 list \<Rightarrow> nat \<Rightarrow>
   ((infallible, u8) encode_error, transcode_progress) res \<times> unit \<times> u8 list" where
  "me_transcode m input input_index out output_index =
    (if \<not> (input_index \<le> length input \<and> output_index \<le> length out) then (Panic, m, out)
     else
       let copied = min (length input - input_index) (length out - output_index);
           out = splice_at out output_index (take copied (drop input_index input)) in
       if copied = length input - input_index then (Ok (progress_complete copied copied), m, out)
       else (Ok (progress_need_output (NZ 0) copied copied), m, out))"

definition marker_encoder :: "(unit, u8, u8, (infallible, u8) encode_error) transcoder" where
  "marker_encoder =
    \<lparr>from_failure = EncodeFailure,
     max_reset_output_len = (\<lambda>m. Ok 1),
     max_transcode_output_len = (\<lambda>m n. Ok n),
     max_finish_output_len = (\<lambda>m. Ok 1),
     tr_reset = (\<lambda>m out i. if i < length out then (Ok 1, m, out[i := encode_reset_byte]) else (Panic, m, out)),
     tr_transcode = me_transcode,
     tr_transcode_eof = me_transcode,
     tr_finish = (\<lambda>m out i. if i < length out then (Ok 1, m, out[i := encode_finish_byte]) else (Panic, m, out))\<rparr>"

definition marker_encode_all :: "unit \<Rightarrow> nat \<Rightarrow> u8 list \<Rightarrow> ((infallible, u8) encode_error + u8 list) \<times> unit" where
  "marker_encode_all c i vs = (Inr vs, c)"

definition marker_mark :: "u8 \<Rightarrow> unit \<Rightarrow> ((infallible, u8) encode_error + u8 list) \<times> unit" where
  "marker_mark b c = (Inr [b], c)"

lemma update_read: "j < length out \<Longrightarrow> take (Suc 0) (drop j (out[j := x])) = [x]"
  using splice_at_read [of j out "[x]"] by (simp add: splice_at_single)

lemma splice_at_read_all: "j \<le> length out \<Longrightarrow> n = length xs \<Longrightarrow> take n (drop j (splice_at out j xs)) = xs"
  by (simp add: splice_at_read)

interpretation marker_delivery: lifecycle_encoder marker_encoder "\<lambda>_. True" "\<lambda>_. ()" marker_encode_all
  "\<lambda>_. True" "marker_mark encode_reset_byte" "marker_mark encode_finish_byte"
  by unfold_locales
    (auto simp: marker_encoder_def marker_encode_all_def marker_mark_def me_transcode_def Let_def
      min_absorb1 splice_at_read_all update_read usize_max_def split: if_splits)

section \<open>The fuzz target\<close>

text \<open>One turn of its loop: the next cursor, the output and what it expects; \<open>None\<close> is a panic of
  an \<open>unwrap\<close>, or a call that does not return.\<close>

definition marker_error :: "(infallible, u8) encode_error \<Rightarrow> io_error" where
  "marker_error e = IoMessage (OtherKind 0) ''marker encoder cannot fail''"

definition output_fuzz_turn ::
  "('w, u8) buffered_output \<Rightarrow> io_env \<Rightarrow> u8 list \<Rightarrow> nat \<Rightarrow> 'w \<Rightarrow> u8 list \<Rightarrow> (nat \<times> 'w \<times> u8 list) option" where
  "output_fuzz_turn BO E data cursor w expected =
    (if data ! cursor mod 4 = 0 then
       (case eo_reset marker_encoder BO E marker_error () w of
          (Ok _, _, w) \<Rightarrow> Some (cursor + 1, w, expected @ [encode_reset_byte])
        | _ \<Rightarrow> None)
     else if data ! cursor mod 4 = 1 then
       let stop = min (cursor + 1 + unat (data ! cursor mod 8)) (length data);
           chunk = drop (cursor + 1) (take stop data) in
       (case eo_transcode marker_encoder BO E marker_error () w chunk 0 (stop - cursor - 1) of
          Some (Ok _, _, w) \<Rightarrow> Some (stop, w, expected @ chunk)
        | _ \<Rightarrow> None)
     else if data ! cursor mod 4 = 2 then
       (case eo_finish marker_encoder BO E marker_error () w of
          (Ok _, _, w) \<Rightarrow> Some (cursor + 1, w, expected @ [encode_finish_byte])
        | _ \<Rightarrow> None)
     else
       (case eo_flush BO w of
          (Ok _, w) \<Rightarrow> Some (cursor + 1, w, expected)
        | _ \<Rightarrow> None))"

lemma output_fuzz_turn_advances:
  assumes "output_fuzz_turn BO E data cursor w expected = Some (cursor', w', expected')" "cursor < length data"
  shows "cursor < cursor'"
  using assms by (auto simp: output_fuzz_turn_def Let_def split: if_splits prod.splits res.splits option.splits)

function output_fuzz_loop ::
  "('w, u8) buffered_output \<Rightarrow> io_env \<Rightarrow> u8 list \<Rightarrow> nat \<Rightarrow> 'w \<Rightarrow> u8 list \<Rightarrow> ('w \<times> u8 list) option" where
  "output_fuzz_loop BO E data cursor w expected =
    (if cursor < length data then
       (case output_fuzz_turn BO E data cursor w expected of
          Some (cursor', w', expected') \<Rightarrow> output_fuzz_loop BO E data cursor' w' expected'
        | None \<Rightarrow> None)
     else Some (w, expected))"
  by pat_completeness auto
termination
  by (relation "measure (\<lambda>(BO, E, data, cursor, w, expected). length data - cursor)")
    (auto dest: output_fuzz_turn_advances)

declare output_fuzz_loop.simps [simp del]

definition output_fuzz_target ::
  "('w, u8) buffered_output \<Rightarrow> io_env \<Rightarrow> u8 list \<Rightarrow> 'w \<Rightarrow> ('w \<times> u8 list) option" where
  "output_fuzz_target BO E data w =
    (case output_fuzz_loop BO E (take 4096 data) 0 w [] of
       None \<Rightarrow> None
     | Some (w, expected) \<Rightarrow>
         (case eo_flush BO w of (Ok _, w) \<Rightarrow> Some (w, expected) | _ \<Rightarrow> None))"

text \<open>On a sink without faults every turn succeeds and commits what it expects.\<close>

locale marker_output =
  lifecycle_bridge marker_encoder "\<lambda>_. True" "\<lambda>_. ()" marker_encode_all "\<lambda>_. True"
    "marker_mark encode_reset_byte" "marker_mark encode_finish_byte" BO E sent delivered ok "\<lambda>_. False" interruptions
  for BO :: "('w, u8) buffered_output" and E and sent delivered and ok and interruptions
begin

lemma output_reset:
  assumes "ok w"
  shows "\<exists>w'. eo_reset marker_encoder BO E f () w = (Ok (), (), w') \<and> ok w' \<and> sent w' = sent w @ [encode_reset_byte]"
proof -
  obtain r w' where c: "eo_reset marker_encoder BO E f () w = (r, (), w')" by (metis (full_types) prod_cases3 unit.exhaust)
  from reset_sends [OF assms TrueI c] c show ?thesis
    by (cases r) (auto simp: sends_units_def marker_mark_def marker_encoder_def)
qed

lemma output_write:
  assumes "ok w" "length vs \<le> usize_max"
  shows "\<exists>w'. eo_transcode marker_encoder BO E f () w vs 0 (length vs) = Some (Ok (length vs), (), w') \<and>
    ok w' \<and> sent w' = sent w @ vs"
proof -
  have "max_transcode_output_len marker_encoder () n = Ok n" for n by (simp add: marker_encoder_def)
  moreover obtain r u w' where c: "eo_transcode marker_encoder BO E f () w vs 0 (length vs) = Some (r, u, w')" "ok w'"
    "sends_all marker_encode_all (\<lambda>_. ()) (\<lambda>_. True) sent (\<lambda>_. False) f
      (max_transcode_output_len marker_encoder () (length vs)) () w 0 (take (length vs) (drop 0 vs)) r u w'"
    using transcode_sends [OF assms(1) TrueI _ assms(2), of 0 "length vs" f "()"] by auto
  ultimately show ?thesis by (cases r) (auto simp: sends_all_def marker_encode_all_def)
qed

lemma output_finish:
  assumes "ok w" "length (sent w) < usize_max"
  shows "\<exists>w'. eo_finish marker_encoder BO E f () w = (Ok (), (), w') \<and> ok w' \<and> sent w' = sent w @ [encode_finish_byte]"
proof -
  obtain r w' where c: "eo_finish marker_encoder BO E f () w = (r, (), w')" by (metis (full_types) prod_cases3 unit.exhaust)
  have "\<not> finish_overflow marker_encoder BO () w k" for k
    using pending_law [OF assms(1)] assms(2) by (simp add: finish_overflow_def marker_encoder_def)
  with finish_sends [OF assms(1) TrueI c] c show ?thesis
    by (cases r) (auto simp: sends_units_def marker_mark_def)
qed

lemma output_flush:
  assumes "ok w"
  shows "\<exists>w'. eo_flush BO w = (Ok (), w') \<and> ok w' \<and> sent w' = sent w \<and> delivered w' = sent w'"
proof -
  obtain r w' where c: "bo_flush BO w = (r, w')" by (metis surj_pair)
  with flush_law [OF assms c] show ?thesis by (cases r) (auto simp: eo_flush_def)
qed

text \<open>\<open>expected\<close> grows by what is committed, at most one unit per unit of data.\<close>

lemma fuzz_turn:
  assumes "ok w" "cursor < length data" "length (sent w) + (length data - cursor) \<le> usize_max"
  shows "\<exists>cursor' w' us. output_fuzz_turn BO E data cursor w expected = Some (cursor', w', expected @ us) \<and>
    cursor < cursor' \<and> length us \<le> cursor' - cursor \<and> cursor' \<le> length data \<and> ok w' \<and> sent w' = sent w @ us"
proof -
  define stop where "stop = min (cursor + 1 + unat (data ! cursor mod 8)) (length data)"
  define chunk where "chunk = drop (cursor + 1) (take stop data)"
  have stop: "cursor < stop" "stop \<le> length data" using assms(2) by (auto simp: stop_def)
  then have chunk: "length chunk = stop - cursor - 1" "length chunk \<le> usize_max"
    using assms(3) by (simp_all add: chunk_def)
  have "length (sent w) < usize_max" using assms(2,3) by simp
  note fin = output_finish [OF assms(1) this, of marker_error]
  note def = output_fuzz_turn_def Let_def stop_def [symmetric] chunk_def [symmetric]
  consider "data ! cursor mod 4 = 0" | "data ! cursor mod 4 = 1" | "data ! cursor mod 4 = 2"
    | "data ! cursor mod 4 \<noteq> 0" "data ! cursor mod 4 \<noteq> 1" "data ! cursor mod 4 \<noteq> 2" by blast
  then show ?thesis
  proof cases
    case 1
    with output_reset [OF assms(1), of marker_error] assms(2) show ?thesis
      by (auto simp: def intro!: exI [of _ "[encode_reset_byte]"])
  next
    case 2
    from output_write [OF assms(1) chunk(2), of marker_error] obtain w' where
      "eo_transcode marker_encoder BO E marker_error () w chunk 0 (stop - cursor - 1) = Some (Ok (length chunk), (), w')"
      and w: "ok w'" "sent w' = sent w @ chunk" by (auto simp: chunk(1))
    with 2 have "output_fuzz_turn BO E data cursor w expected = Some (stop, w', expected @ chunk)"
      unfolding def by simp
    with w stop chunk(1) show ?thesis by auto
  next
    case 3
    with fin assms(2) show ?thesis by (auto simp: def intro!: exI [of _ "[encode_finish_byte]"])
  next
    case 4
    with output_flush [OF assms(1)] assms(2) show ?thesis by (auto simp: def intro!: exI [of _ "[]"])
  qed
qed

lemma fuzz_loop:
  assumes "ok w" "length (sent w) + (length data - cursor) \<le> usize_max"
  shows "\<exists>w' us. output_fuzz_loop BO E data cursor w expected = Some (w', expected @ us) \<and> ok w' \<and> sent w' = sent w @ us"
  using assms
proof (induction "length data - cursor" arbitrary: cursor w expected rule: less_induct)
  case less
  note loop = output_fuzz_loop.simps [of BO E data cursor w expected]
  show ?case
  proof (cases "cursor < length data")
    case True
    from fuzz_turn [OF less.prems(1) True less.prems(2), of expected] obtain c w1 us where
      t: "output_fuzz_turn BO E data cursor w expected = Some (c, w1, expected @ us)" "cursor < c"
      "length us \<le> c - cursor" "c \<le> length data" "ok w1" "sent w1 = sent w @ us" by blast
    have "length data - c < length data - cursor" "length (sent w1) + (length data - c) \<le> usize_max"
      using t(2-4,6) True less.prems(2) by simp_all
    from less.hyps [OF this(1) t(5) this(2), of "expected @ us"] loop True t show ?thesis by auto
  qed (use less.prems loop in simp)
qed

end

section \<open>The bridge over the in-memory sink\<close>

lemma sample_slice_range: "i + n \<le> len \<Longrightarrow> env_range_end sample_env len i n msg = Ok (i + n)"
  by (simp add: sample_env_def)

interpretation u16be_writing: value_writing u16be_codec any_state u16be_emit emit_nothing emit_nothing
  "memory_output fill" sample_env ms_sent ms_delivered "ms_ok fault" fault ms_interruptions
  for fill fault
  by unfold_locales

interpretation marker_writing: value_writing marker_codec any_state marker_emit emit_nothing emit_nothing
  "memory_output fill" sample_env ms_sent ms_delivered "ms_ok fault" fault ms_interruptions
  for fill fault
  by unfold_locales

interpretation u16be_plain: plain_encoder u16be_codec "codec_transcode_encode_hooks u16be_codec" any_state u16be_emit
  strict_unencodable emit_nothing emit_nothing
  by unfold_locales (simp_all add: u16be_codec_def codec_default_defs strict_hook_defs hook_default_defs)

interpretation marker_plain: plain_encoder marker_codec "codec_transcode_encode_hooks marker_codec" any_state marker_emit
  strict_unencodable emit_nothing emit_nothing
  by unfold_locales (simp_all add: marker_codec_def codec_default_defs strict_hook_defs hook_default_defs)

interpretation u16be_sending: lifecycle_bridge "encode_transcoder u16be_codec (codec_transcode_encode_hooks u16be_codec)"
  "\<lambda>eng. any_state (ee_codec eng) \<and> stream_phase (ee_phase eng)" engine_state
  "engine_encode_all u16be_codec u16be_emit strict_unencodable" "\<lambda>eng. any_state (ee_codec eng)"
  "engine_emission (\<lambda>e. EncodeDomain (DomainReset e)) emit_nothing"
  "engine_emission (\<lambda>e. EncodeDomain (DomainFinish e)) emit_nothing"
  "memory_output fill" sample_env ms_sent ms_delivered "ms_ok fault" fault ms_interruptions
  for fill fault
  by unfold_locales (auto simp: sample_slice_range engine_encode_all_def)

interpretation marker_sending: lifecycle_bridge "encode_transcoder marker_codec (codec_transcode_encode_hooks marker_codec)"
  "\<lambda>eng. any_state (ee_codec eng) \<and> stream_phase (ee_phase eng)" engine_state
  "engine_encode_all marker_codec marker_emit strict_unencodable" "\<lambda>eng. any_state (ee_codec eng)"
  "engine_emission (\<lambda>e. EncodeDomain (DomainReset e)) emit_nothing"
  "engine_emission (\<lambda>e. EncodeDomain (DomainFinish e)) emit_nothing"
  "memory_output fill" sample_env ms_sent ms_delivered "ms_ok fault" fault ms_interruptions
  for fill fault
  by unfold_locales (auto simp: sample_slice_range engine_encode_all_def)

interpretation marker_sink: lifecycle_bridge marker_encoder "\<lambda>_. True" "\<lambda>_. ()" marker_encode_all "\<lambda>_. True"
  "marker_mark encode_reset_byte" "marker_mark encode_finish_byte"
  "memory_output fill" sample_env ms_sent ms_delivered "ms_ok fault" fault ms_interruptions
  for fill fault
  by unfold_locales (auto simp: sample_slice_range marker_encode_all_def)

interpretation marker_out: marker_output "memory_output fill" sample_env ms_sent ms_delivered "ms_ok (\<lambda>_. False)"
  ms_interruptions
  for fill
  by unfold_locales (auto simp: sample_slice_range marker_encode_all_def)

section \<open>Properties\<close>

text \<open>C30. \<open>transcode\<close> on an encode output returns, for every encoder, every output and every
  argument: its loop does not depend on the encoder to make progress.\<close>

theorem encode_transcode_returns: "\<exists>r s' w'. eo_transcode T BO E map_error s w input i count = Some (r, s', w')"
  by (rule eo_transcode_returns)

text \<open>C27. \<open>write_encoded_with\<close> commits the whole frame of the value (the reset units, the units of
  the value and the finish units) or nothing. It fails with a fault of the output before the codec
  is touched, or with the codec's own error mapped in its context.\<close>

theorem write_encoded_all_or_nothing:
  assumes "value_writing C good emit reset_emit finish_emit BO E sent delivered ok fault interruptions"
    and "ok w" "good c" "max_complete_encode_units C = Ok units"
    and "eo_write_encoded_with C BO E map_error c v w = (r, c', w')"
  shows "ok w' \<and>
    ((\<exists>e. fault e \<and> r = Err e \<and> c' = c \<and> sent w' = sent w) \<or>
     (case value_frame C reset_emit emit finish_emit c v of
        (Inr us, c1) \<Rightarrow> r = Ok () \<and> c' = c1 \<and> sent w' = sent w @ us
      | (Inl e, c1) \<Rightarrow> r = Err (map_encode_value_error e map_error) \<and> c' = c1 \<and> sent w' = sent w))"
  by (rule value_writing.write_encoded_sends [OF assms])

text \<open>C15. \<open>transcode\<close> commits the encoding of the whole range and counts all its values, or
  commits nothing and reports the encoder's error, its bound's error or a fault of the output; and
  the output stays usable.\<close>

theorem transcode_commits_all_or_nothing:
  assumes "encode_bridge T live view encode_all BO E sent delivered ok fault interruptions"
    and "ok w" "live s" "i + count \<le> length input" "length input \<le> usize_max"
  shows "\<exists>r s' w'. eo_transcode T BO E map_error s w input i count = Some (r, s', w') \<and> ok w' \<and>
    sends_all encode_all view live sent fault map_error (max_transcode_output_len T s count) s w i
      (take count (drop i input)) r s' w'"
  by (rule encode_bridge.transcode_sends [OF assms])

text \<open>C29. \<open>finish\<close> delivers everything that was sent and the finish units behind it. When it fails,
  the finish units are either not committed at all, or committed and left pending by a flush that
  failed: they are never lost and never cut.\<close>

theorem finish_delivers:
  assumes "lifecycle_bridge T live view encode_all held reset_all finish_all BO E sent delivered ok fault interruptions"
    and "ok w" "live s" "eo_finish T BO E map_error s w = (r, s', w')"
  shows "ok w' \<and>
    (sends_units (finish_all (view s)) view sent fault map_error (finish_overflow T BO s w) s w r s' w' \<and>
        (r = Ok () \<longrightarrow> held s' \<and> delivered w' = sent w') \<or>
      (\<exists>e us. r = Err e \<and> fault e \<and> finish_all (view s) = (Inr us, view s') \<and> sent w' = sent w @ us))"
  by (rule lifecycle_bridge.finish_sends [OF assms])

text \<open>\<open>write_all\<close> returns however often its writes are interrupted, as long as they are
  interrupted finitely often. It reports success only after all units were sent; otherwise a
  prefix was sent and the error is not an interruption.\<close>

theorem write_all_returns:
  assumes "buffered_sink BO E sent delivered ok fault interruptions" "ok w"
  shows "\<exists>r w' k. eo_write_all BO w us = Some (r, w') \<and> ok w' \<and> k \<le> length us \<and> sent w' = sent w @ take k us \<and>
    (case r of
       Ok _ \<Rightarrow> k = length us
     | Err e \<Rightarrow> fault e \<and> io_kind e \<noteq> Interrupted \<or> e = IoMessage WriteZero []
     | Panic \<Rightarrow> False)"
  using buffered_sink.write_all_from_sends [OF assms, of 0 us] by (auto simp: eo_write_all_def)

text \<open>C31. The fuzz target passes: on every sink without faults and for every data, no call of the
  target fails, and what the sink has received in the end is what the target expects.\<close>

theorem output_fuzz_target_passes:
  assumes "marker_output BO E sent delivered ok interruptions" "ok w" "sent w = []"
  shows "\<exists>w' expected. output_fuzz_target BO E data w = Some (w', expected) \<and> delivered w' = expected"
proof -
  have "length (sent w) + (length (take 4096 data) - 0) \<le> usize_max" using assms(3) by (simp add: usize_max_def)
  from marker_output.fuzz_loop [OF assms(1,2) this, of "[]"] obtain w1 us where
    "output_fuzz_loop BO E (take 4096 data) 0 w [] = Some (w1, us)" "ok w1" "sent w1 = us" using assms(3) by auto
  with marker_output.output_flush [OF assms(1), of w1] show ?thesis by (auto simp: output_fuzz_target_def)
qed

end
