(* ===== verification/AsyncWriting.thy ===== *)
theory AsyncWriting
  imports AsyncOutput EncodeSinks
begin

text \<open>
  What the polls of \<open>AsyncTranscodeEncodeOutput\<close> add up to. Every ready poll commits the units of
  the values it reports as read, and of no others; so after any sequence of polls the output holds
  the encoding of a prefix of the input. A ready poll reads at least one value.
\<close>

section \<open>Prefixes of the specification\<close>

context encoder_codec
begin

lemma turn_reject_more_room:
  assumes "encode_turn C emit (act h) i c v room = encode_turn.TurnReject e c'" "room \<le> room'"
  shows "encode_turn C emit (act h) i c v room' = encode_turn.TurnReject e c'"
  using assms by (auto simp: encode_turn_def emit_turn_def split: if_splits unencodable_action.splits
      prod.splits sum.splits)

text \<open>A run that did not stop for lack of room does not depend on the room.\<close>

lemma stream_more_room:
  assumes "good c" "encode_stream C emit (act h) i c vs room = (q, n, us, c')" "\<And>req. q \<noteq> Ok (Some req)" "room \<le> room'"
  shows "encode_stream C emit (act h) i c vs room' = (q, n, us, c')"
  using assms
proof (induction vs arbitrary: i c room room' n us)
  case (Cons v vs)
  show ?case
  proof (cases "encode_turn C emit (act h) i c v room")
    case (TurnNeedOutput req)
    with Cons.prems(2,3) show ?thesis by auto
  next
    case (TurnReject e c1)
    with turn_reject_more_room [OF TurnReject Cons.prems(4)] Cons.prems(2) show ?thesis by simp
  next
    case (TurnWrite u c1)
    obtain m us1 where rec: "encode_stream C emit (act h) (i + 1) c1 vs (room - length u) = (q, m, us1, c')"
      "n = m + 1" "us = u @ us1" using Cons.prems(2) TurnWrite by (auto split: prod.splits)
    have "good c1" using encode_turn_writes [OF Cons.prems(1) TurnWrite] by blast
    from Cons.IH [OF this rec(1) Cons.prems(3) diff_le_mono [OF Cons.prems(4)]] rec
      encode_turn_more_room [OF TurnWrite Cons.prems(4)]
    show ?thesis by simp
  qed
qed simp

lemma engine_encode_all_run:
  assumes "good c" "encode_stream C emit (act h) i c vs room = (q, n, us, c')" "\<And>req. q \<noteq> Ok (Some req)"
  shows "engine_encode_all C emit act (c, h) i vs = ((case q of Err e \<Rightarrow> Inl e | _ \<Rightarrow> Inr us), c', h)"
proof -
  let ?room = "length vs * max_encode_units_per_value C"
  obtain q2 n2 us2 c2 where s: "encode_stream C emit (act h) i c vs ?room = (q2, n2, us2, c2)" by (metis prod_cases4)
  have "q2 \<noteq> Ok (Some req)" for req using stream_bound [OF assms(1) s] by simp
  from stream_more_room [OF assms(1) s this, of "max ?room room"] stream_more_room [OF assms, of "max ?room room"] s
  show ?thesis by (cases q) (auto simp: engine_encode_all_def)
qed

lemma stream_prefix:
  assumes "encode_stream C emit (act h) i c vs room = (Ok x, n, us, c')"
  shows "encode_stream C emit (act h) i c (take n vs) room = (Ok None, n, us, c')"
  using assms
proof (induction vs arbitrary: i c room n us)
  case (Cons v vs)
  from Cons.prems show ?case
  proof (cases rule: encode_stream_Ok_cases)
    case (go u c1 m us1)
    with Cons.IH [OF go(2)] show ?thesis by simp
  qed simp
qed simp

lemma stream_need_bound:
  assumes "good c" "encode_stream C emit (act h) i c vs room = (Ok (Some req), n, us, c')"
  shows "nz_get req \<le> max_encode_units_per_value C"
  using assms
proof (induction vs arbitrary: i c room n us)
  case (Cons v vs)
  from Cons.prems(2) show ?case
  proof (cases rule: encode_stream_Ok_cases)
    case (stop r)
    with encode_turn_need [OF stop(5) Cons.prems(1)] show ?thesis by simp
  next
    case (go u c1 m us1)
    with Cons.IH [OF _ go(2)] encode_turn_writes [OF Cons.prems(1) go(1)] show ?thesis by blast
  qed
qed simp

lemma stream_append:
  assumes "encode_stream C emit (act h) i c xs room = (q, n, us, c1)"
  shows "encode_stream C emit (act h) i c (xs @ ys) room = (case q of
      Ok None \<Rightarrow> (case encode_stream C emit (act h) (i + length xs) c1 ys (room - length us) of
        (q2, n2, us2, c2) \<Rightarrow> (q2, n + n2, us @ us2, c2))
    | _ \<Rightarrow> (q, n, us, c1))"
  using assms
proof (induction xs arbitrary: i c room q n us)
  case Nil
  then show ?case by (auto split: prod.splits)
next
  case (Cons v xs)
  show ?case
  proof (cases "encode_turn C emit (act h) i c v room")
    case (TurnWrite u c2)
    obtain m us1 where rec: "encode_stream C emit (act h) (i + 1) c2 xs (room - length u) = (q, m, us1, c1)"
      "n = m + 1" "us = u @ us1" using Cons.prems TurnWrite by (auto split: prod.splits)
    from Cons.IH [OF rec(1)] rec TurnWrite show ?thesis
      by (auto split: prod.splits res.splits option.splits)
  qed (use Cons.prems in auto)
qed

lemma engine_encode_all_append:
  assumes "good c"
  shows "engine_encode_all C emit act (c, h) i (xs @ ys) = (case engine_encode_all C emit act (c, h) i xs of
      (Inl e, st) \<Rightarrow> (Inl e, st)
    | (Inr us, st) \<Rightarrow> (case engine_encode_all C emit act st (i + length xs) ys of
        (x, st) \<Rightarrow> (map_sum id ((@) us) x, st)))"
proof -
  let ?m = "max_encode_units_per_value C"
  let ?room = "length (xs @ ys) * ?m"
  obtain q n us c1 where s: "encode_stream C emit (act h) i c xs ?room = (q, n, us, c1)" by (metis prod_cases4)
  have "length xs * ?m \<le> ?room" by simp
  with stream_bound [OF assms s] have no: "\<And>req. q \<noteq> Ok (Some req)" by blast
  note xs = engine_encode_all_run [OF assms s no]
  show ?thesis
  proof (cases q)
    case (Ok y)
    with no have q: "q = Ok None" by (cases y) auto
    with stream_complete [of h i c xs ?room] s have n: "n = length xs" by simp
    have good: "good c1" using stream_good [OF assms] s q by blast
    have "length us \<le> length xs * ?m" using stream_bound [OF assms s] n by blast
    then have room: "length ys * ?m \<le> ?room - length us" by (simp add: add_mult_distrib)
    obtain q2 n2 us2 c2 where s2: "encode_stream C emit (act h) (i + length xs) c1 ys (?room - length us) = (q2, n2, us2, c2)"
      by (metis prod_cases4)
    with stream_bound [OF good s2] room have no2: "\<And>req. q2 \<noteq> Ok (Some req)" by blast
    have "encode_stream C emit (act h) i c (xs @ ys) ?room = (q2, n + n2, us @ us2, c2)"
      using stream_append [OF s, of ys] q s2 by simp
    from engine_encode_all_run [OF assms this no2] engine_encode_all_run [OF good s2 no2] xs q
    show ?thesis by (cases q2) auto
  next
    case (Err e)
    have "encode_stream C emit (act h) i c (xs @ ys) ?room = (Err e, n, us, c1)"
      using stream_append [OF s, of ys] Err by simp
    from engine_encode_all_run [OF assms this] xs Err show ?thesis by simp
  next
    case Panic
    with stream_no_panic [of h i c xs ?room] s show ?thesis by simp
  qed
qed

end

section \<open>The contract of a streaming encoder\<close>

text \<open>With room for one value a call reads at least one, and what it wrote is the encoding of what
  it read.\<close>

locale stream_encoder =
  fixes T :: "('s, 'v, 'u, 'e) transcoder" and live :: "'s \<Rightarrow> bool" and view :: "'s \<Rightarrow> 'c" and valid :: "'c \<Rightarrow> bool"
    and encode_all :: "'c \<Rightarrow> nat \<Rightarrow> 'v list \<Rightarrow> ('e + 'u list) \<times> 'c"
  assumes live_valid: "live s \<Longrightarrow> valid (view s)"
    and bound_one: "live s \<Longrightarrow> max_transcode_output_len T s 1 \<noteq> Panic \<and>
        (\<forall>m. max_transcode_output_len T s 1 = Ok m \<longrightarrow> m \<le> usize_max)"
    and encode_nil: "encode_all c i [] = (Inr [], c)"
    and encode_append: "valid c \<Longrightarrow> encode_all c i (xs @ ys) = (case encode_all c i xs of
        (Inl e, c1) \<Rightarrow> (Inl e, c1)
      | (Inr us, c1) \<Rightarrow> (case encode_all c1 (i + length xs) ys of (x, c2) \<Rightarrow> (map_sum id ((@) us) x, c2)))"
    and step_law: "live s \<Longrightarrow> i < length input \<Longrightarrow> length input \<le> usize_max \<Longrightarrow> length out \<le> usize_max \<Longrightarrow>
        max_transcode_output_len T s 1 = Ok m \<Longrightarrow> j + max m 1 \<le> length out \<Longrightarrow>
        tr_transcode T s input i out j = (r, s', out') \<Longrightarrow>
        length out' = length out \<and> take j out' = take j out \<and>
        (case r of
           Ok p \<Rightarrow> live s' \<and> valid_progress p i (length input - i) j (length out - j) \<and> \<not> is_need_input p \<and> 0 < tp_read p \<and>
             (\<forall>req. tp_status p = NeedOutput req \<longrightarrow> nz_get req \<le> usize_max) \<and>
             encode_all (view s) i (take (tp_read p) (drop i input)) = (Inr (take (tp_written p) (drop j out')), view s')
         | Err e \<Rightarrow> encode_all (view s) i (drop i input) = (Inl e, view s')
         | Panic \<Rightarrow> False)"

sublocale plain_encoder \<subseteq> steps: stream_encoder "encode_transcoder C H"
  "\<lambda>eng. good (ee_codec eng) \<and> stream_phase (ee_phase eng)" engine_state "\<lambda>(c, h). good c" "engine_encode_all C emit act"
proof (unfold_locales, goal_cases)
  case (2 eng)
  with delivery.bound_law [of eng 1] show ?case by (simp add: usize_max_def)
next
  case (3 c i)
  then show ?case by (cases c) (simp add: engine_encode_all_def)
next
  case (4 c i xs ys)
  then show ?case by (cases c) (simp add: codec.engine_encode_all_append)
next
  case (5 eng i input out m j r eng' out')
  have m: "m = max_encode_units_per_value C" "m \<le> usize_max"
    using 5(5) by (auto simp: encode_transcoder_def ee_max_transcode_output_len_def plain_hooks default_eh_max_transcode_def
        checked_mul_eq_Some)
  obtain q n us c' where spec: "encode_stream C emit (act (ee_hooks eng)) i (ee_codec eng) (drop i input) (length out - j)
      = (q, n, us, c')" by (metis prod_cases4)
  have idx: "i \<le> length input" "j \<le> length out" "length us \<le> length out - j"
    using 5(2,6) codec.stream_bound [OF _ spec] 5(1) by simp_all
  have good: "good (ee_codec eng)" "stream_phase (ee_phase eng)" using 5(1) by simp_all
  have "ee_transcode C H eng input i out j = (r, eng', out')" using 5(7) by (simp add: encode_transcoder_def)
  note ref = codec.transcode_refines [OF good idx(1,2) spec this]
  note b = codec.stream_bound [OF good(1) spec]
  have out: "take j out' = take j out" "length out' = length out" "take (length us) (drop j out') = us"
  proof -
    have "take j (take (j + length us) out') = take j (take j out @ us)" "drop j (take (j + length us) out') = drop j (take j out @ us)"
      using ref by simp_all
    then show "take j out' = take j out" "take (length us) (drop j out') = us" using idx(2) by (simp_all add: drop_take)
  qed (use ref in simp)
  show ?case
  proof (cases q)
    case (Ok x)
    have c': "good c'" using codec.stream_good [OF good(1)] spec Ok by blast
    note pre = codec.stream_prefix [OF spec [unfolded Ok]]
    have all: "engine_encode_all C emit act (engine_state eng) i (take n (drop i input)) = (Inr us, c', ee_hooks eng)"
      using codec.engine_encode_all_run [OF good(1) pre] by simp
    obtain v vs where vs: "drop i input = v # vs" using 5(2) by (metis Cons_nth_drop_Suc)
    have req: "x = Some req \<Longrightarrow> nz_get req \<le> usize_max" for req
      using codec.stream_need_bound [OF good(1)] spec Ok m by fastforce
    from spec [unfolded Ok vs] have "0 < n"
    proof (cases rule: codec.encode_stream_Ok_cases)
      case (stop req)
      have "max_encode_units_per_value C \<le> length out - j" using 5(6) m(1) by simp
      with codec.encode_turn_need [OF stop(5) good(1)] show ?thesis by simp
    qed simp
    moreover have "n \<le> length input - i" using b by simp
    moreover have "x = None \<Longrightarrow> n = length input - i"
      using codec.stream_complete [of "ee_hooks eng" i "ee_codec eng" "drop i input" "length out - j"] spec Ok by simp
    moreover have "x = Some req \<Longrightarrow> length out - j - length us < nz_get req" for req using b Ok by blast
    moreover have "r = Ok (encode_stream_report n us x)" "engine_state eng' = (c', ee_hooks eng)" "stream_phase (ee_phase eng')"
      using ref Ok by (simp_all add: stream_phase_def)
    moreover have "i + n \<le> usize_max" "j + length us \<le> usize_max"
      using idx 5(2-4) calculation(2) by simp_all
    ultimately show ?thesis using out all c' req idx(3)
      by (cases x) (auto simp: valid_progress_def encode_stream_report_def progress_defs)
  next
    case (Err e)
    with codec.engine_encode_all_run [OF good(1) spec] ref out show ?thesis by simp
  next
    case Panic
    with codec.stream_no_panic [of "ee_hooks eng" i "ee_codec eng" "drop i input" "length out - j"] spec show ?thesis by simp
  qed
qed simp

section \<open>Polls of an encoder\<close>

locale async_encode_bridge =
  stream_encoder T live view valid encode_all + async_sink AO E sent delivered ok fault waits
  for T :: "('s, 'v, 'u, 'e) transcoder" and live and view :: "'s \<Rightarrow> 'c" and valid and encode_all
    and AO :: "('w, 'u) async_buffered_output" and E and sent delivered and ok and fault and waits +
  assumes range_law: "i + n \<le> len \<Longrightarrow> len \<le> usize_max \<Longrightarrow> env_range_end E len i n msg = Ok (i + n)"
begin

abbreviation usable :: "'w async_encode_output \<Rightarrow> bool" where
  "usable d \<equiv> ok (aeo_output d) \<and> 0 < aeo_required_spare d \<and> aeo_required_spare d \<le> usize_max"

lemma encode_window_result:
  assumes "usable d" "live s" "input = take (i + count) all" "i + count \<le> length all" "length all \<le> usize_max" "0 < count"
    and "max_transcode_output_len T s 1 = Ok m" "ao_spare_raw_parts AO (aeo_output d) = (units, j, k)" "max m 1 \<le> k"
    and "aeo_encode_window T AO f input i count s d = (r, s', d')"
  shows "usable d' \<and> (case r of
      Ok p \<Rightarrow> live s' \<and> 0 < tp_read p \<and> tp_read p \<le> count \<and>
        (\<exists>us. encode_all (view s) i (take (tp_read p) (drop i input)) = (Inr us, view s') \<and> tp_written p = length us \<and>
          sent (aeo_output d') = sent (aeo_output d) @ us)
    | Err e \<Rightarrow> sent (aeo_output d') = sent (aeo_output d) \<and> aeo_required_spare d' = aeo_required_spare d \<and>
        (\<exists>e'. e = f e' \<and> encode_all (view s) i (drop i input) = (Inl e', view s'))
    | Panic \<Rightarrow> False)"
proof -
  have len: "length input - i = count" "i < length input" "length input \<le> usize_max" using assms(3-6) by simp_all
  have ok: "ok (aeo_output d)" using assms(1) by simp
  note raw = raw_law [OF ok assms(8)]
  have room: "j + max m 1 \<le> length units" "length units \<le> usize_max" "length units - j = k" using raw assms(9) by arith+
  obtain q s1 u1 where call: "tr_transcode T s input i units j = (q, s1, u1)" by (metis prod_cases3)
  note step = step_law [OF assms(2) len(2,3) room(2) assms(7) room(1) call, unfolded len(1) room(3)]
  then have wr: "length u1 = length units" "take j u1 = take j units" by simp_all
  note window = window_write [OF ok assms(8) wr]
  note def = aeo_encode_window_def Let_def assms(8) call
  show ?thesis
  proof (cases q)
    case (Ok p)
    with step have p: "live s1" "valid_progress p i count j k" "\<not> is_need_input p" "0 < tp_read p"
      "\<And>req. tp_status p = NeedOutput req \<Longrightarrow> nz_get req \<le> usize_max"
      "encode_all (view s) i (take (tp_read p) (drop i input)) = (Inr (take (tp_written p) (drop j u1)), view s1)"
      by simp_all
    have v: "validate_encode_progress p i count j k = Ok p" using p by (simp add: io_valid)
    let ?us = "take (tp_written p) (drop j u1)"
    have us: "length ?us = tp_written p" "j + length ?us \<le> length units" "tp_read p \<le> count"
      using p(2) raw wr(1) by (auto simp: valid_progress_def min_def)
    then have w: "ok (ao_advance AO (ao_write_units AO (aeo_output d) u1) (tp_written p))"
      "sent (ao_advance AO (ao_write_units AO (aeo_output d) u1) (tp_written p)) = sent (aeo_output d) @ ?us"
      using window by (metis length_take)+
    have "r = Ok p \<and> s' = s1 \<and>
        aeo_output d' = ao_advance AO (ao_write_units AO (aeo_output d) u1) (tp_written p) \<and>
        0 < aeo_required_spare d' \<and> aeo_required_spare d' \<le> usize_max"
      using assms(10) wr v Ok p(3,5)
      by (cases "tp_status p") (auto simp: def progress_defs usize_max_def)
    with p w us show ?thesis by auto
  next
    case (Err e)
    with step window assms(1,10) wr show ?thesis by (auto simp: def)
  qed (use step in simp)
qed

text \<open>One poll: not ready, it leaves the encoder and what was sent as they were.\<close>

lemma poll_result:
  assumes "usable d" "live s" "i + count \<le> length input" "length input \<le> usize_max" "0 < count"
    and "aeo_poll_transcode T AO E f input i count (s, d) = (p, s', d')"
  shows "usable d' \<and> (case p of
      NotReady \<Rightarrow> s' = s \<and> sent (aeo_output d') = sent (aeo_output d) \<and> aeo_required_spare d' = aeo_required_spare d \<and>
        waits (aeo_output d') < waits (aeo_output d)
    | Ready (Ok p) \<Rightarrow> live s' \<and> 0 < tp_read p \<and> tp_read p \<le> count \<and>
        (\<exists>us. encode_all (view s) i (take (tp_read p) (drop i input)) = (Inr us, view s') \<and> tp_written p = length us \<and>
          sent (aeo_output d') = sent (aeo_output d) @ us)
    | Ready (Err e) \<Rightarrow> sent (aeo_output d') = sent (aeo_output d) \<and> aeo_required_spare d' = aeo_required_spare d \<and>
        (s' = s \<and> (fault e \<or> (\<exists>x. max_transcode_output_len T s 1 = Err x \<and> e = capacity_error_to_invalid_data x)) \<or>
         (\<exists>e'. e = f e' \<and> encode_all (view s) i (take count (drop i input)) = (Inl e', view s')))
    | Ready Panic \<Rightarrow> False)"
proof -
  let ?in = "take (i + count) input"
  have range: "env_range_end E (length input) i count msg = Ok (i + count)" for msg using range_law assms(3,4) by simp
  have vs: "drop i ?in = take count (drop i input)" by (simp add: take_drop add.commute)
  note def = aeo_poll_transcode_def range Let_def
  show ?thesis
  proof (cases "max_transcode_output_len T s 1")
    case (Ok m)
    let ?n = "max (aeo_required_spare d) (max m 1)"
    have n: "?n \<le> usize_max" using bound_one [OF assms(2)] Ok assms(1) by (simp add: usize_max_def)
    obtain q w1 where res: "ao_try_reserve_capacity AO (aeo_output d) ?n = (q, w1)" by (metis surj_pair)
    have ok: "ok (aeo_output d)" using assms(1) by simp
    note rl = reserve_law [OF ok n res]
    show ?thesis
    proof (cases q)
      case okq: (Ok u)
      obtain p1 w2 where en: "ao_poll_ensure_spare AO ?n w1 = (p1, w2)" by (metis surj_pair)
      have "ok w1" "?n \<le> ao_capacity AO w1" using rl okq by simp_all
      note el = ensure_law [OF this disjI1 [OF en]]
      show ?thesis
      proof (cases "p1 = Ready (Ok ())")
        case True
        obtain r s1 d1 where ew: "aeo_encode_window T AO f ?in i count s (d\<lparr>aeo_output := w2\<rparr>) = (r, s1, d1)"
          by (metis prod_cases3)
        obtain units j k where raw: "ao_spare_raw_parts AO (aeo_output (d\<lparr>aeo_output := w2\<rparr>)) = (units, j, k)"
          by (metis prod_cases3)
        have k: "max m 1 \<le> k" using el True raw by fastforce
        have u: "usable (d\<lparr>aeo_output := w2\<rparr>)" using el assms(1) by simp
        note win = encode_window_result [OF u assms(2) refl assms(3,4,5) Ok raw k ew]
        have "p = Ready r" "s' = s1" "d' = d1" using assms(5,6) Ok okq res en True ew by (simp_all add: def)
        moreover have "drop i input = drop i input" ..
        moreover have "tp_read p \<le> count \<Longrightarrow> take (tp_read p) (drop i ?in) = take (tp_read p) (drop i input)" for p
          by (simp add: vs min_def)
        ultimately show ?thesis using win el rl by (auto simp: vs split: res.splits)
      next
        case False
        with el rl assms Ok okq res en show ?thesis by (auto simp: def split: poll.splits res.splits)
      qed
    qed (use rl assms Ok res in \<open>auto simp: def\<close>)
  qed (use bound_one [OF assms(2)] assms range in \<open>auto simp: aeo_poll_transcode_def\<close>)
qed

text \<open>\<open>transcode_async\<close> returns, and reads at least one value or fails.\<close>

lemma transcode_async_progress:
  assumes "usable d" "live s" "i + count \<le> length input" "length input \<le> usize_max" "0 < count"
  shows "\<exists>r s' d'. aeo_transcode_async T AO E f input i count (s, d) = Some (r, s', d') \<and> usable d' \<and> (case r of
      Ok p \<Rightarrow> live s' \<and> 0 < tp_read p \<and> tp_read p \<le> count \<and>
        (\<exists>us. encode_all (view s) i (take (tp_read p) (drop i input)) = (Inr us, view s') \<and> tp_written p = length us \<and>
          sent (aeo_output d') = sent (aeo_output d) @ us)
    | Err e \<Rightarrow> sent (aeo_output d') = sent (aeo_output d)
    | Panic \<Rightarrow> False)" (is "\<exists>r s' d'. _ = Some (r, s', d') \<and> ?P r s' d'")
proof -
  let ?I = "\<lambda>(s1, d1). s1 = s \<and> usable d1 \<and> sent (aeo_output d1) = sent (aeo_output d)"
  have "\<exists>r st. await (aeo_poll_transcode T AO E f input i count) (s, d) = Some (r, st) \<and> (case st of (s', d') \<Rightarrow> ?P r s' d')"
  proof (rule await_returns [where f = "\<lambda>(s, d). waits (aeo_output d)" and I = ?I])
    show "?I (s, d)" using assms(1) by simp
  next
    fix st st'
    assume i: "?I st" and p: "aeo_poll_transcode T AO E f input i count st = (NotReady, st')"
    obtain d1 s2 d2 where st: "st = (s, d1)" "st' = (s2, d2)" "usable d1" using i by (cases st, cases st') auto
    from poll_result [OF st(3) assms(2-5), of f NotReady s2 d2] p i st
    show "?I st' \<and> (case st' of (s, d) \<Rightarrow> waits (aeo_output d)) < (case st of (s, d) \<Rightarrow> waits (aeo_output d))" by simp
  next
    fix st r st'
    assume i: "?I st" and p: "aeo_poll_transcode T AO E f input i count st = (Ready r, st')"
    obtain d1 s2 d2 where st: "st = (s, d1)" "st' = (s2, d2)" "usable d1" using i by (cases st, cases st') auto
    from poll_result [OF st(3) assms(2-5), of f "Ready r" s2 d2] p i st
    show "case st' of (s', d') \<Rightarrow> ?P r s' d'" by (cases r) auto
  qed
  then show ?thesis by (auto simp: aeo_transcode_async_def)
qed

end

section \<open>A caller's polls\<close>

text \<open>A caller encodes \<open>count\<close> values from \<open>i\<close> on, each poll behind the values that were read,
  \<open>off\<close> of them. Polls may be not ready, be abandoned and repeated; the caller may also poll a
  flush.\<close>

inductive aeo_driven ::
  "('s, 'v, 'u, 'e) transcoder \<Rightarrow> ('w, 'u) async_buffered_output \<Rightarrow> io_env \<Rightarrow> ('e \<Rightarrow> io_error) \<Rightarrow> 'v list \<Rightarrow> nat \<Rightarrow> nat \<Rightarrow>
   's \<times> 'w async_encode_output \<Rightarrow> nat \<Rightarrow> 's \<times> 'w async_encode_output \<Rightarrow> bool"
  for T AO E f input i count st0 where
  start: "aeo_driven T AO E f input i count st0 0 st0"
| waiting: "aeo_driven T AO E f input i count st0 off st'"
    if "aeo_driven T AO E f input i count st0 off st" "off < count"
      "aeo_poll_transcode T AO E f input (i + off) (count - off) st = (NotReady, st')"
| step: "aeo_driven T AO E f input i count st0 (off + tp_read p) st'"
    if "aeo_driven T AO E f input i count st0 off st" "off < count"
      "aeo_poll_transcode T AO E f input (i + off) (count - off) st = (Ready (Ok p), st')"
| flush: "aeo_driven T AO E f input i count st0 off (s, d\<lparr>aeo_output := w'\<rparr>)"
    if "aeo_driven T AO E f input i count st0 off (s, d)" "ao_poll_flush AO (aeo_output d) = (q, w')"

context async_encode_bridge
begin

lemma driven_commits:
  assumes "aeo_driven T AO E f input i count (s0, d0) off st" "usable d0" "live s0"
    and "i + count \<le> length input" "length input \<le> usize_max"
  shows "\<exists>s d us. st = (s, d) \<and> usable d \<and> live s \<and> off \<le> count \<and>
    encode_all (view s0) i (take off (drop i input)) = (Inr us, view s) \<and> sent (aeo_output d) = sent (aeo_output d0) @ us"
  using assms(1)
proof (induction off st rule: aeo_driven.induct)
  case start
  then show ?case using assms(2,3) by (simp add: encode_nil)
next
  case (waiting off st st')
  then obtain s d us where i: "st = (s, d)" "usable d" "live s" "off \<le> count"
    "encode_all (view s0) i (take off (drop i input)) = (Inr us, view s)"
    "sent (aeo_output d) = sent (aeo_output d0) @ us" by blast
  obtain s1 d1 where st': "st' = (s1, d1)" by (cases st')
  have "i + off + (count - off) \<le> length input" "0 < count - off" using waiting.hyps(2) assms(4) by simp_all
  from poll_result [OF i(2,3) this(1) assms(5) this(2), of f NotReady s1 d1] waiting.hyps(3) i st' show ?case by auto
next
  case (step off st p st')
  then obtain s d us where i: "st = (s, d)" "usable d" "live s" "off \<le> count"
    "encode_all (view s0) i (take off (drop i input)) = (Inr us, view s)"
    "sent (aeo_output d) = sent (aeo_output d0) @ us" by blast
  obtain s1 d1 where st': "st' = (s1, d1)" by (cases st')
  have "i + off + (count - off) \<le> length input" "0 < count - off" using step.hyps(2) assms(4) by simp_all
  from poll_result [OF i(2,3) this(1) assms(5) this(2), of f "Ready (Ok p)" s1 d1] step.hyps(3) i(1) st'
  obtain ws where p: "usable d1" "live s1" "tp_read p \<le> count - off" "sent (aeo_output d1) = sent (aeo_output d) @ ws"
    "encode_all (view s) (i + off) (take (tp_read p) (drop (i + off) input)) = (Inr ws, view s1)" by auto
  have "take (off + tp_read p) (drop i input) = take off (drop i input) @ take (tp_read p) (drop (i + off) input)"
    by (simp add: take_add add.commute)
  moreover have "length (take off (drop i input)) = off" using i(4) assms(4) by simp
  ultimately have "encode_all (view s0) i (take (off + tp_read p) (drop i input)) = (Inr (us @ ws), view s1)"
    using encode_append [OF live_valid [OF assms(3)], of i "take off (drop i input)"] i(5) p(5) by simp
  with p i(4,6) step.hyps(2) st' show ?case by auto
next
  case (flush off s d q w')
  then show ?case using flush_law [OF _ flush.hyps(2)] by auto
qed

end

section \<open>Reset, finish and delivery\<close>

context async_sink
begin

lemma emit_sends:
  assumes "ok w" "ao_spare_raw_parts AO w = (units, j, k)" "m \<le> k"
    and "call s units j = (q, s1, u1)" "length u1 = length units" "take j u1 = take j units"
    and "case x of Inl e \<Rightarrow> q = Err e
      | Inr us \<Rightarrow> q = Ok (length us) \<and> length us \<le> m \<and> take (length us) (drop j u1) = us"
    and "aeo_emit AO f m call s w = (r, s', w')"
  shows "s' = s1 \<and> ok w' \<and> (case x of
      Inl e \<Rightarrow> r = Err (f e) \<and> sent w' = sent w
    | Inr us \<Rightarrow> r = Ok () \<and> sent w' = sent w @ us)"
proof -
  note window = window_write [OF assms(1,2,5,6)]
  have "j + k = length units" using raw_law [OF assms(1,2)] by simp
  with window assms show ?thesis
    by (cases x) (auto simp: aeo_emit_def Let_def)
qed

text \<open>Room for \<open>m\<close> units, then a call that emits at most as many.\<close>

lemma spare_then_emit:
  assumes "ok w" "m \<le> usize_max"
    and law: "\<And>units j q s1 u1. j + m \<le> length units \<Longrightarrow> length units \<le> usize_max \<Longrightarrow> call s units j = (q, s1, u1) \<Longrightarrow>
      view s1 = after \<and> length u1 = length units \<and> take j u1 = take j units \<and>
      (case x of Inl e \<Rightarrow> q = Err e
       | Inr us \<Rightarrow> P s1 \<and> q = Ok (length us) \<and> length us \<le> m \<and> take (length us) (drop j u1) = us)"
  shows "\<exists>q w1. aeo_ensure_spare_capacity_async AO E m w = Some (q, w1) \<and> q \<noteq> Panic \<and> ok w1 \<and> sent w1 = sent w \<and>
    (\<forall>e. q = Err e \<longrightarrow> fault e) \<and>
    (q = Ok () \<longrightarrow> (\<exists>r s' w'. aeo_emit AO f m call s w1 = (r, s', w') \<and> view s' = after \<and> ok w' \<and>
      (case x of Inl e \<Rightarrow> r = Err (f e) \<and> sent w' = sent w
       | Inr us \<Rightarrow> P s' \<and> r = Ok () \<and> sent w' = sent w @ us)))"
proof -
  from ensure_spare_async [OF assms(1,2)] obtain q w1 where
    e: "aeo_ensure_spare_capacity_async AO E m w = Some (q, w1)" "q \<noteq> Panic" "ok w1"
    "sent w1 = sent w" "\<forall>e. q = Err e \<longrightarrow> fault e"
    "q = Ok () \<Longrightarrow> \<forall>units i k. ao_spare_raw_parts AO w1 = (units, i, k) \<longrightarrow> m \<le> k" by blast
  have "\<exists>r s' w'. aeo_emit AO f m call s w1 = (r, s', w') \<and> view s' = after \<and> ok w' \<and>
      (case x of Inl e \<Rightarrow> r = Err (f e) \<and> sent w' = sent w | Inr us \<Rightarrow> P s' \<and> r = Ok () \<and> sent w' = sent w @ us)"
    if "q = Ok ()"
  proof -
    obtain units j k where raw: "ao_spare_raw_parts AO w1 = (units, j, k)" by (metis prod_cases3)
    have k: "m \<le> k" "j + m \<le> length units" "length units \<le> usize_max"
      using e(6) [OF that] raw raw_law [OF e(3) raw] by auto
    obtain q1 s1 u1 where call: "call s units j = (q1, s1, u1)" by (metis prod_cases3)
    note l = law [OF k(2,3) call]
    obtain r s' w' where emit: "aeo_emit AO f m call s w1 = (r, s', w')" by (metis prod_cases3)
    have "case x of Inl e \<Rightarrow> q1 = Err e
        | Inr us \<Rightarrow> q1 = Ok (length us) \<and> length us \<le> m \<and> take (length us) (drop j u1) = us"
      using l by (cases x) auto
    from emit_sends [OF e(3) raw k(1) call _ _ this emit] l emit e(4) show ?thesis
      by (cases x) auto
  qed
  with e show ?thesis by blast
qed

end

locale async_lifecycle_bridge =
  async_encode_bridge T live view valid encode_all AO E sent delivered ok fault waits +
  lifecycle_encoder T live view encode_all held reset_all finish_all
  for T :: "('s, 'v, 'u, 'e) transcoder" and live and view :: "'s \<Rightarrow> 'c" and valid and encode_all
    and held and reset_all and finish_all
    and AO :: "('w, 'u) async_buffered_output" and E and sent delivered and ok and fault and waits
begin

lemma reset_async_sends:
  assumes "usable d" "held s"
  shows "\<exists>r s' d'. aeo_reset_async T AO E f s d = Some (r, s', d') \<and> usable d' \<and>
    sends_units (reset_all (view s)) view (\<lambda>d. sent (aeo_output d)) fault f
      (\<lambda>k. max_reset_output_len T s = Err k) s d r s' d' \<and>
    (r = Ok () \<longrightarrow> live s' \<and> aeo_required_spare d' = 1)"
proof -
  note def = aeo_reset_async_def sends_units_def
  note bound = reset_bound [OF assms(2)]
  show ?thesis
  proof (cases "max_reset_output_len T s")
    case (Ok m)
    have m: "m \<le> usize_max" and ok: "ok (aeo_output d)" using bound Ok assms(1) by simp_all
    obtain x c1 where em: "reset_all (view s) = (x, c1)" by (metis surj_pair)
    from spare_then_emit [where call = "tr_reset T" and s = s and x = x and P = live and view = view and after = c1 and f = f,
        OF ok m reset_units [OF assms(2) Ok _ _ em]]
    obtain q w1 where e: "aeo_ensure_spare_capacity_async AO E m (aeo_output d) = Some (q, w1)" "q \<noteq> Panic" "ok w1"
      "sent w1 = sent (aeo_output d)" "\<forall>e. q = Err e \<longrightarrow> fault e"
      "q = Ok () \<longrightarrow> (\<exists>r s' w'. aeo_emit AO f m (tr_reset T) s w1 = (r, s', w') \<and> view s' = c1 \<and> ok w' \<and>
        (case x of Inl e \<Rightarrow> r = Err (f e) \<and> sent w' = sent (aeo_output d)
         | Inr us \<Rightarrow> live s' \<and> r = Ok () \<and> sent w' = sent (aeo_output d) @ us))" by blast
    with assms(1) em Ok show ?thesis
      by (cases q; cases x) (auto simp: def usize_max_def)
  qed (use bound assms(1) in \<open>auto simp: def\<close>)
qed

lemma finish_async_sends:
  assumes "usable d" "live s"
  shows "\<exists>r s' d'. aeo_finish_async T AO E f s d = Some (r, s', d') \<and> usable d' \<and>
    sends_units (finish_all (view s)) view (\<lambda>d. sent (aeo_output d)) fault f
      (\<lambda>k. max_finish_output_len T s = Err k) s d r s' d' \<and> (r = Ok () \<longrightarrow> held s')"
proof -
  note def = aeo_finish_async_def sends_units_def
  note bound = finish_bound [OF assms(2)]
  show ?thesis
  proof (cases "max_finish_output_len T s")
    case (Ok m)
    have m: "m \<le> usize_max" and ok: "ok (aeo_output d)" using bound Ok assms(1) by simp_all
    obtain x c1 where em: "finish_all (view s) = (x, c1)" by (metis surj_pair)
    from spare_then_emit [where call = "tr_finish T" and s = s and x = x and P = held and view = view and after = c1 and f = f,
        OF ok m finish_units [OF assms(2) Ok _ _ em]]
    obtain q w1 where e: "aeo_ensure_spare_capacity_async AO E m (aeo_output d) = Some (q, w1)" "q \<noteq> Panic" "ok w1"
      "sent w1 = sent (aeo_output d)" "\<forall>e. q = Err e \<longrightarrow> fault e"
      "q = Ok () \<longrightarrow> (\<exists>r s' w'. aeo_emit AO f m (tr_finish T) s w1 = (r, s', w') \<and> view s' = c1 \<and> ok w' \<and>
        (case x of Inl e \<Rightarrow> r = Err (f e) \<and> sent w' = sent (aeo_output d)
         | Inr us \<Rightarrow> held s' \<and> r = Ok () \<and> sent w' = sent (aeo_output d) @ us))" by blast
    with assms(1) em Ok show ?thesis
      by (cases q; cases x) (auto simp: def)
  qed (use bound assms(1) in \<open>auto simp: def\<close>)
qed

end

end
