(* ===== verification/AsyncSinks.thy ===== *)
theory AsyncSinks
  imports AsyncWriting
begin

text \<open>
  An in-memory asynchronous sink that answers as a script says, the encoders of the repository on
  it, and the properties of the asynchronous output.
\<close>

section \<open>An in-memory asynchronous sink\<close>

datatype sink_answer = Accept | Refuse io_error | Later

record 'u async_memory =
  am_delivered :: "'u list"
  am_buffer :: "'u list"
  am_pending :: nat
  am_script :: "sink_answer list"

text \<open>One poll of delivering what is pending.\<close>

definition am_drain :: "'u async_memory \<Rightarrow> (io_error, unit) res poll \<times> 'u async_memory" where
  "am_drain w =
    (if am_pending w = 0 then (Ready (Ok ()), w)
     else case am_script w of
       Refuse e # answers \<Rightarrow> (Ready (Err e), w\<lparr>am_script := answers\<rparr>)
     | Later # answers \<Rightarrow> (NotReady, w\<lparr>am_script := answers\<rparr>)
     | answers \<Rightarrow> (Ready (Ok ()), w\<lparr>am_delivered := am_delivered w @ take (am_pending w) (am_buffer w),
         am_pending := 0, am_script := tl answers\<rparr>))"

definition am_poll_spare :: "nat \<Rightarrow> 'u async_memory \<Rightarrow> (io_error, unit) res poll \<times> 'u async_memory" where
  "am_poll_spare n w =
    (if n \<le> length (am_buffer w) - am_pending w then (Ready (Ok ()), w) else am_drain w)"

definition async_memory_output :: "'u \<Rightarrow> ('u async_memory, 'u) async_buffered_output" where
  "async_memory_output default_unit =
    \<lparr>ao_capacity = (\<lambda>w. length (am_buffer w)),
     ao_pending_len = am_pending,
     ao_spare_raw_parts = (\<lambda>w. (am_buffer w, am_pending w, length (am_buffer w) - am_pending w)),
     ao_write_units = (\<lambda>w units. w\<lparr>am_buffer := units\<rparr>),
     ao_advance = (\<lambda>w n. w\<lparr>am_pending := am_pending w + n\<rparr>),
     ao_try_reserve_capacity = (\<lambda>w n.
       (Ok (), w\<lparr>am_buffer := am_buffer w @ replicate (n - length (am_buffer w)) default_unit\<rparr>)),
     ao_poll_ensure_spare = am_poll_spare,
     ao_poll_spare = am_poll_spare,
     ao_poll_flush = am_drain\<rparr>"

definition am_sent :: "'u async_memory \<Rightarrow> 'u list" where
  "am_sent w = am_delivered w @ take (am_pending w) (am_buffer w)"

definition am_ok :: "(io_error \<Rightarrow> bool) \<Rightarrow> 'u async_memory \<Rightarrow> bool" where
  "am_ok fault w \<longleftrightarrow> am_pending w \<le> length (am_buffer w) \<and> length (am_buffer w) \<le> usize_max \<and>
    (\<forall>e. Refuse e \<in> set (am_script w) \<longrightarrow> fault e)"

definition am_waits :: "'u async_memory \<Rightarrow> nat" where
  "am_waits w = length (filter (\<lambda>a. a = Later) (am_script w))"

lemma am_drain_law:
  assumes "am_ok fault w" "am_drain w = (p, w')"
  shows "p \<noteq> Ready Panic \<and> am_ok fault w' \<and> am_sent w' = am_sent w \<and> am_buffer w' = am_buffer w \<and>
    (p = NotReady \<longrightarrow> am_waits w' < am_waits w) \<and> (p = Ready (Ok ()) \<longrightarrow> am_pending w' = 0) \<and>
    (\<forall>e. p = Ready (Err e) \<longrightarrow> fault e)"
  using assms by (auto simp: am_drain_def am_ok_def am_sent_def am_waits_def
      split: if_splits list.splits sink_answer.splits)

lemma am_poll_spare_law:
  assumes "am_ok fault w" "n \<le> length (am_buffer w)" "am_poll_spare n w = (p, w')"
  shows "p \<noteq> Ready Panic \<and> am_ok fault w' \<and> am_sent w' = am_sent w \<and> am_buffer w' = am_buffer w \<and>
    (p = NotReady \<longrightarrow> am_waits w' < am_waits w) \<and> (p = Ready (Ok ()) \<longrightarrow> n \<le> length (am_buffer w') - am_pending w') \<and>
    (\<forall>e. p = Ready (Err e) \<longrightarrow> fault e)"
  using assms am_drain_law [of fault w p w'] by (auto simp: am_poll_spare_def split: if_splits)

interpretation async_memory: async_sink "async_memory_output fill" sample_env am_sent am_delivered "am_ok fault" fault am_waits
  for fill fault
proof
  fix w n p w'
  assume "am_ok fault w" "n \<le> ao_capacity (async_memory_output fill) w"
    "ao_poll_ensure_spare (async_memory_output fill) n w = (p, w') \<or> ao_poll_spare (async_memory_output fill) n w = (p, w')"
  then show "p \<noteq> Ready Panic \<and> am_ok fault w' \<and> am_sent w' = am_sent w \<and>
      (p = NotReady \<longrightarrow> n \<le> ao_capacity (async_memory_output fill) w' \<and> am_waits w' < am_waits w) \<and>
      (p = Ready (Ok ()) \<longrightarrow> (\<forall>units i k. ao_spare_raw_parts (async_memory_output fill) w' = (units, i, k) \<longrightarrow> n \<le> k)) \<and>
      (\<forall>e. p = Ready (Err e) \<longrightarrow> fault e)"
    using am_poll_spare_law [of fault w n p w'] by (auto simp: async_memory_output_def)
next
  fix w p w'
  assume "am_ok fault w" "ao_poll_flush (async_memory_output fill) w = (p, w')"
  then show "p \<noteq> Ready Panic \<and> am_ok fault w' \<and> am_sent w' = am_sent w \<and> (p = NotReady \<longrightarrow> am_waits w' < am_waits w) \<and>
      (p = Ready (Ok ()) \<longrightarrow> am_delivered w' = am_sent w') \<and> (\<forall>e. p = Ready (Err e) \<longrightarrow> fault e)"
    using am_drain_law [of fault w p w'] by (auto simp: async_memory_output_def am_sent_def)
qed (auto simp: async_memory_output_def am_ok_def am_sent_def am_waits_def take_add max_def)

section \<open>Encoders on it\<close>

lemma splice_at_to_end: "j \<le> length out \<Longrightarrow> length xs = length out - j \<Longrightarrow> drop j (splice_at out j xs) = xs"
  by (simp add: splice_at_def)

interpretation marker_steps: stream_encoder marker_encoder "\<lambda>_. True" "\<lambda>_. ()" "\<lambda>_. True" marker_encode_all
proof (unfold_locales, goal_cases)
  case (5 s i input out m j r s' out')
  let ?n = "length input - i" and ?k = "length out - j"
  have sizes: "0 < ?n" "0 < ?k" "j \<le> length out" "i \<le> length input" using 5 by simp_all
  have "?k < ?n \<Longrightarrow> i + length out - j \<le> length input" "?k < ?n \<Longrightarrow> length (take ?k (drop i input)) = ?k" by simp_all
  moreover have "min ?n ?k = ?n \<or> ?k < ?n \<and> min ?n ?k = ?k" by linarith
  ultimately show ?case using 5 sizes
    by (auto simp: marker_encoder_def me_transcode_def marker_encode_all_def valid_progress_def progress_defs
        splice_at_read_all splice_at_to_end usize_max_def Let_def split: if_splits)
qed (auto simp: marker_encoder_def marker_encode_all_def usize_max_def)

interpretation u16be_polls: async_lifecycle_bridge "encode_transcoder u16be_codec (codec_transcode_encode_hooks u16be_codec)"
  "\<lambda>eng. any_state (ee_codec eng) \<and> stream_phase (ee_phase eng)" engine_state "\<lambda>(c, h). any_state c"
  "engine_encode_all u16be_codec u16be_emit strict_unencodable" "\<lambda>eng. any_state (ee_codec eng)"
  "engine_emission (\<lambda>e. EncodeDomain (DomainReset e)) emit_nothing"
  "engine_emission (\<lambda>e. EncodeDomain (DomainFinish e)) emit_nothing"
  "async_memory_output fill" sample_env am_sent am_delivered "am_ok fault" fault am_waits
  for fill fault
  by unfold_locales (simp add: sample_slice_range)

interpretation marker_polls: async_lifecycle_bridge marker_encoder "\<lambda>_. True" "\<lambda>_. ()" "\<lambda>_. True" marker_encode_all
  "\<lambda>_. True" "marker_mark encode_reset_byte" "marker_mark encode_finish_byte"
  "async_memory_output fill" sample_env am_sent am_delivered "am_ok fault" fault am_waits
  for fill fault
  by unfold_locales (simp add: sample_slice_range)

section \<open>Properties\<close>

text \<open>C12. After any sequence of polls (not ready, abandoned, repeated, mixed with polls of a flush)
  the output holds what it held before and the encoding of exactly the values that the ready polls
  reported as read, and the encoder is in the state after them: no unit is lost, doubled or
  committed early, and the output remains usable.\<close>

theorem async_encode_commits_prefix:
  assumes "async_encode_bridge T live view valid encode_all AO E sent delivered ok fault waits"
    and "aeo_driven T AO E map_error input i count (s0, aeo_new w0) off (s, d)" "ok w0" "live s0"
    and "i + count \<le> length input" "length input \<le> usize_max"
  shows "ok (aeo_output d) \<and> live s \<and> off \<le> count \<and>
    (\<exists>us. encode_all (view s0) i (take off (drop i input)) = (Inr us, view s) \<and> sent (aeo_output d) = sent w0 @ us)"
proof -
  have "ok (aeo_output (aeo_new w0)) \<and> 0 < aeo_required_spare (aeo_new w0) \<and> aeo_required_spare (aeo_new w0) \<le> usize_max"
    using assms(3) by (simp add: aeo_new_def usize_max_def)
  from async_encode_bridge.driven_commits [OF assms(1,2) this assms(4-6)] show ?thesis
    by (auto simp: aeo_new_def)
qed

text \<open>C13. Progress: \<open>transcode_async\<close> on a non-empty range returns as soon as the sink stops making it
  wait, and then it has read at least one value and committed its units, or it reports an error
  and has committed nothing. A caller that advances by what was read is done after at most as many
  calls as there are values.\<close>

theorem async_transcode_progress:
  assumes "async_encode_bridge T live view valid encode_all AO E sent delivered ok fault waits"
    and "ok (aeo_output d)" "0 < aeo_required_spare d" "aeo_required_spare d \<le> usize_max" "live s"
    and "i + count \<le> length input" "length input \<le> usize_max" "0 < count"
  shows "\<exists>r s' d'. aeo_transcode_async T AO E map_error input i count (s, d) = Some (r, s', d') \<and>
    ok (aeo_output d') \<and> (case r of
      Ok p \<Rightarrow> live s' \<and> 0 < tp_read p \<and> tp_read p \<le> count \<and>
        (\<exists>us. encode_all (view s) i (take (tp_read p) (drop i input)) = (Inr us, view s') \<and> tp_written p = length us \<and>
          sent (aeo_output d') = sent (aeo_output d) @ us)
    | Err e \<Rightarrow> sent (aeo_output d') = sent (aeo_output d)
    | Panic \<Rightarrow> False)"
  using async_encode_bridge.transcode_async_progress [OF assms(1) _ assms(5-8), of d map_error] assms(2-4) by fast

text \<open>C14. A whole stream: after \<open>reset_async\<close>, any polls that read the whole range, \<open>finish_async\<close>
  and \<open>flush_async\<close>, each successful, the sink has received what it had before, the reset units, the
  encoding of the range and the finish units, in this order.\<close>

theorem async_stream_delivers:
  assumes "async_lifecycle_bridge T live view valid encode_all held reset_all finish_all AO E sent delivered ok fault waits"
    and "ok w0" "held s0" "i + count \<le> length input" "length input \<le> usize_max"
    and "aeo_reset_async T AO E map_error s0 (aeo_new w0) = Some (Ok (), s1, d1)"
    and "aeo_driven T AO E map_error input i count (s1, d1) count (s2, d2)"
    and "aeo_finish_async T AO E map_error s2 d2 = Some (Ok (), s3, d3)"
    and "aeo_flush_async AO d3 = Some (Ok (), d4)"
  shows "\<exists>rs us fs. reset_all (view s0) = (Inr rs, view s1) \<and>
    encode_all (view s1) i (take count (drop i input)) = (Inr us, view s2) \<and> finish_all (view s2) = (Inr fs, view s3) \<and>
    delivered (aeo_output d4) = sent w0 @ rs @ us @ fs"
proof -
  note bridge = async_lifecycle_bridge.axioms(1) [OF assms(1)]
  have new: "ok (aeo_output (aeo_new w0)) \<and> 0 < aeo_required_spare (aeo_new w0) \<and> aeo_required_spare (aeo_new w0) \<le> usize_max"
    "aeo_output (aeo_new w0) = w0"
    using assms(2) by (simp_all add: aeo_new_def usize_max_def)
  from async_lifecycle_bridge.reset_async_sends [OF assms(1) new(1) assms(3), of map_error] assms(6) new(2)
  obtain rs where r: "reset_all (view s0) = (Inr rs, view s1)" "sent (aeo_output d1) = sent w0 @ rs" "live s1"
    "ok (aeo_output d1) \<and> 0 < aeo_required_spare d1 \<and> aeo_required_spare d1 \<le> usize_max"
    by (auto simp: sends_units_def)
  from async_encode_bridge.driven_commits [OF bridge assms(7) r(4,3) assms(4,5)]
  obtain us where e: "encode_all (view s1) i (take count (drop i input)) = (Inr us, view s2)" "live s2"
    "sent (aeo_output d2) = sent (aeo_output d1) @ us"
    "ok (aeo_output d2) \<and> 0 < aeo_required_spare d2 \<and> aeo_required_spare d2 \<le> usize_max" by auto
  from async_lifecycle_bridge.finish_async_sends [OF assms(1) e(4,2), of map_error] assms(8)
  obtain fs where f: "finish_all (view s2) = (Inr fs, view s3)" "sent (aeo_output d3) = sent (aeo_output d2) @ fs"
    "ok (aeo_output d3)" by (auto simp: sends_units_def)
  from async_sink.flush_returns [OF async_encode_bridge.axioms(2) [OF bridge] f(3)] assms(9)
  have "delivered (aeo_output d4) = sent (aeo_output d3)" by auto
  with r e f show ?thesis by simp
qed

end
