(* ===== verification/IoRoundtrip.thy ===== *)
theory IoRoundtrip
  imports EncodeSinks DecodeSources Streams
begin

text \<open>
  The two sides of the bridge together: values written to a \<open>TranscodeEncodeOutput\<close> with an encode
  engine and read back from a \<open>TranscodeDecodeInput\<close> with a decode engine.
\<close>

context encoder_codec
begin

lemma engine_encode_all_stream:
  assumes "good c" "engine_encode_all C emit act (c, h) i vs = (Inr us, c')"
  shows "\<exists>n c1. encode_stream C emit (act h) i c vs (length vs * max_encode_units_per_value C) = (Ok None, n, us, c1)"
proof -
  obtain q n us1 c1 where s: "encode_stream C emit (act h) i c vs (length vs * max_encode_units_per_value C)
      = (q, n, us1, c1)" by (metis prod_cases4)
  note b = stream_bound [OF assms(1) s]
  show ?thesis
  proof (cases q)
    case (Ok x)
    with b have "x = None" by (cases x) auto
    with assms(2) s Ok show ?thesis by (simp add: engine_encode_all_def)
  next
    case Panic
    with stream_no_panic [of h i c vs "length vs * max_encode_units_per_value C"] s show ?thesis by simp
  qed (use assms(2) s in \<open>simp add: engine_encode_all_def\<close>)
qed

end

context codec_roundtrip
begin

text \<open>The run of a decode engine over the whole encoding.\<close>

lemma engine_run_reads_back:
  assumes "good_e c" "good_d d" "synced c d" "\<And>v. act g v = RejectValue"
    and "engine_encode_all C emit act (c, g) 0 vs = (Inr us, c')"
  shows "\<exists>d'. engine_run C parse on_invalid on_incomplete (d, h) True us (length vs) = (Ok Complete, length us, vs, d')"
proof -
  obtain n c1 where s: "encode_stream C emit (act g) 0 c vs (length vs * max_encode_units_per_value C) = (Ok None, n, us, c1)"
    using enc.engine_encode_all_stream [OF assms(1,5)] by auto
  from stream_roundtrip [OF assms(1-4) s order_refl, of h True 0] show ?thesis
    by (auto simp: engine_run_def)
qed

end

section \<open>Property\<close>

text \<open>C16. Round trip through the I/O bridge: when \<open>transcode\<close> and then \<open>flush\<close> of an encode output
  succeed, the delivered units, arriving at a decode input cut into reads in any way, decode to the
  very values that were written and nothing is left over; only a fault of the source can stop the
  reading.\<close>

theorem bridge_roundtrip:
  assumes "codec_roundtrip C HE good_e emit act HD good_d parse on_invalid on_incomplete synced"
    and "encode_bridge (encode_transcoder C HE) (\<lambda>eng. good_e (ee_codec eng) \<and> stream_phase (ee_phase eng)) engine_state
      (engine_encode_all C emit act) BO E sent delivered ok_out fault_out interruptions"
    and "decode_bridge (decode_transcoder C HD) (\<lambda>eng. good_d (de_codec eng) \<and> stream_phase (de_phase eng)) engine_view
      (\<lambda>(c, h). good_d c) (engine_run C parse on_invalid on_incomplete) shift_decode_error BI E2 rest ok_in fault_in"
    and "good_e (ee_codec enc)" "stream_phase (ee_phase enc)" "good_d (de_codec dec)" "stream_phase (de_phase dec)"
    and "synced (ee_codec enc) (de_codec dec)" "\<And>v. act (ee_hooks enc) v = RejectValue"
    and "ok_out w" "sent w = []" "length values \<le> usize_max"
    and "eo_transcode (encode_transcoder C HE) BO E f enc w values 0 (length values) = Some (Ok n, enc', w1)"
    and "eo_flush BO w1 = (Ok (), w2)"
    and "di_sound BI rest ok_in d" "rest (di_input d) = delivered w2"
    and "j + length values \<le> length out" "length out \<le> usize_max"
  shows "n = length values \<and>
    (\<exists>r dec' d' out'. di_transcode (decode_transcoder C HD) BI E2 g dec d out j (length values) = Some (r, dec', d', out') \<and>
      (r = Ok (length values) \<and> out' = splice_at out j values \<and> rest (di_input d') = [] \<or>
       (\<exists>e. r = Err e \<and> fault_in e)))"
proof -
  obtain us where w1: "ok_out w1" "sent w1 = us" "n = length values"
    "engine_encode_all C emit act (engine_state enc) 0 values = (Inr us, engine_state enc')"
    using encode_bridge.transcode_sends [OF assms(2,10) _ _ assms(12), of enc 0 "length values" f] assms(4,5,11,13)
    by (auto simp: sends_all_def)
  have "delivered w2 = us"
    using buffered_sink.flush_law [OF encode_bridge.axioms(2) [OF assms(2)] w1(1), of "Ok ()" w2] assms(14) w1(2)
    by (simp add: eo_flush_def)
  with assms(16) have rest: "rest (di_input d) = us" by simp
  obtain d1 where run: "engine_run C parse on_invalid on_incomplete (engine_view dec) True us (length values)
      = (Ok Complete, length us, values, d1)"
    using codec_roundtrip.engine_run_reads_back [OF assms(1,4,6,8,9) w1(4)] by metis
  have live: "good_d (de_codec dec) \<and> stream_phase (de_phase dec)" using assms(6,7) by simp
  from decode_bridge.transcode_result [OF assms(3,15) live assms(17,18), of g, unfolded rest]
  obtain r dec' d' out' where call: "di_transcode (decode_transcoder C HD) BI E2 g dec d out j (length values)
      = Some (r, dec', d', out')"
    and res: "batch_result (engine_run C parse on_invalid on_incomplete) shift_decode_error engine_view
      (\<lambda>eng. good_d (de_codec eng) \<and> stream_phase (de_phase eng)) BI rest ok_in fault_in g (engine_view dec) us out j
      (length values) 0 r dec' d' out'" by auto
  from res run have "r = Ok (length values) \<and> out' = splice_at out j values \<and> rest (di_input d') = [] \<or>
      (\<exists>e. r = Err e \<and> fault_in e)"
    by (cases r) (auto simp: batch_result_def)
  with w1(3) call show ?thesis by blast
qed

end
