(* ===== verification/DecodeInputFuzz.thy ===== *)
theory DecodeInputFuzz
  imports DecodeSources
begin

text \<open>
  The fuzz target \<open>fuzz/fuzz_targets/transcode_decode_input_lifecycle.rs\<close> as a function of its data:
  it resets, reads from and finishes a decode input over an in-memory cursor in the order of the
  data's actions, drains it, and checks values, lifecycle output, the units left, and that the decoder
  was called at the end of the input. The buffer around the cursor is a parameter; a failed assertion,
  an \<open>unwrap\<close> of an error and a call that does not return are \<open>None\<close>.
\<close>

section \<open>The target\<close>

record 'b input_case =
  ic_input :: "'b decode_input"
  ic_decoder :: marker_decoder
  ic_decoded :: "u8 list"
  ic_lifecycle :: "u8 list"
  ic_expected_lifecycle :: "u8 list"

definition marker_decode_failure :: "infallible decode_error \<Rightarrow> io_error" where
  "marker_decode_failure e = IoMessage (OtherKind 0) ''marker decoder cannot fail''"

definition input_case_reset :: "io_env \<Rightarrow> 'b input_case \<Rightarrow> 'b input_case option" where
  "input_case_reset E c =
    (case di_reset marker_decoder_transcoder E marker_decode_failure (ic_decoder c) [0] 0 1 of
       (Ok wr, decoder, out) \<Rightarrow> Some (c\<lparr>ic_decoder := decoder, ic_lifecycle := ic_lifecycle c @ take wr out,
          ic_expected_lifecycle := ic_expected_lifecycle c @ [decode_reset_byte]\<rparr>)
     | _ \<Rightarrow> None)"

definition input_case_finish :: "io_env \<Rightarrow> 'b input_case \<Rightarrow> 'b input_case option" where
  "input_case_finish E c =
    (case di_finish marker_decoder_transcoder E marker_decode_failure (ic_decoder c) [0] 0 1 of
       (Ok wr, decoder, out) \<Rightarrow> Some (c\<lparr>ic_decoder := decoder, ic_lifecycle := ic_lifecycle c @ take wr out,
          ic_expected_lifecycle := ic_expected_lifecycle c @ [decode_finish_byte]\<rparr>)
     | _ \<Rightarrow> None)"

definition input_case_read ::
  "('b, u8) buffered_input \<Rightarrow> io_env \<Rightarrow> 'b input_case \<Rightarrow> (nat \<times> 'b input_case) option" where
  "input_case_read BI E c =
    (case di_transcode marker_decoder_transcoder BI E marker_decode_failure (ic_decoder c) (ic_input c) [0] 0 1 of
       Some (Ok wr, decoder, input, out) \<Rightarrow>
         Some (wr, c\<lparr>ic_decoder := decoder, ic_input := input, ic_decoded := ic_decoded c @ take wr out\<rparr>)
     | _ \<Rightarrow> None)"

fun input_case_actions ::
  "('b, u8) buffered_input \<Rightarrow> io_env \<Rightarrow> u8 list \<Rightarrow> 'b input_case \<Rightarrow> 'b input_case option" where
  "input_case_actions BI E [] c = Some c"
| "input_case_actions BI E (action # actions) c =
    (case (if action mod 3 = 0 then input_case_reset E c
           else if action mod 3 = 1 then map_option snd (input_case_read BI E c)
           else input_case_finish E c) of
       Some c \<Rightarrow> input_case_actions BI E actions c
     | None \<Rightarrow> None)"

text \<open>The draining loop, with its number of rounds: whether a read returned nothing.\<close>

fun input_case_drain ::
  "('b, u8) buffered_input \<Rightarrow> io_env \<Rightarrow> nat \<Rightarrow> 'b input_case \<Rightarrow> (bool \<times> 'b input_case) option" where
  "input_case_drain BI E 0 c = Some (False, c)"
| "input_case_drain BI E (Suc rounds) c =
    (case input_case_read BI E c of
       None \<Rightarrow> None
     | Some (wr, c) \<Rightarrow> if wr = 0 then Some (True, c) else input_case_drain BI E rounds c)"

definition input_case_start :: "'b \<Rightarrow> 'b input_case" where
  "input_case_start b =
    \<lparr>ic_input = decode_input_new b, ic_decoder = \<lparr>eof_empty_calls = 0, eof_tail_calls = 0\<rparr>, ic_decoded = [],
     ic_lifecycle = [], ic_expected_lifecycle = []\<rparr>"

definition expected_reads :: "u8 list \<Rightarrow> u8 list \<Rightarrow> nat" where
  "expected_reads payload actions = min (length (filter (\<lambda>action. action mod 3 = 1) actions)) (length payload)"

text \<open>The checks after the actions, and after the drain and the last \<open>finish\<close>. \<open>position\<close> is the
  cursor's position in the payload.\<close>

definition input_case_mid_checks ::
  "('b, u8) buffered_input \<Rightarrow> ('b \<Rightarrow> nat) \<Rightarrow> u8 list \<Rightarrow> u8 list \<Rightarrow> 'b input_case \<Rightarrow> bool" where
  "input_case_mid_checks BI position payload actions c \<longleftrightarrow>
    take (expected_reads payload actions) (expected_output payload) = ic_decoded c \<and>
    ic_expected_lifecycle c = ic_lifecycle c \<and>
    drop (expected_reads payload actions) payload =
      di_unread BI (ic_input c) @ drop (position (di_input (ic_input c))) payload"

definition input_case_drained ::
  "u8 list \<Rightarrow> 'b input_case \<Rightarrow> bool \<Rightarrow> 'b input_case \<Rightarrow> bool" where
  "input_case_drained payload before observed_zero c \<longleftrightarrow>
    observed_zero \<and> eof_empty_calls (ic_decoder before) < eof_empty_calls (ic_decoder c) \<and>
    (payload \<noteq> [] \<and> last payload = tail_byte \<longrightarrow> 0 < eof_tail_calls (ic_decoder c)) \<and>
    expected_output payload = ic_decoded c"

definition input_case_closed ::
  "('b, u8) buffered_input \<Rightarrow> ('b \<Rightarrow> nat) \<Rightarrow> u8 list \<Rightarrow> 'b input_case \<Rightarrow> bool" where
  "input_case_closed BI position payload c \<longleftrightarrow>
    ic_expected_lifecycle c = ic_lifecycle c \<and> di_unread BI (ic_input c) = [] \<and>
    position (di_input (ic_input c)) = length payload"

text \<open>One case over a buffer around a cursor over the payload, and the target; \<open>source payload\<close> is
  the buffer with capacity one that the target opens.\<close>

definition run_case ::
  "('b, u8) buffered_input \<Rightarrow> io_env \<Rightarrow> ('b \<Rightarrow> nat) \<Rightarrow> 'b \<Rightarrow> u8 list \<Rightarrow> u8 list \<Rightarrow> unit option" where
  "run_case BI E position b payload actions =
    (case input_case_actions BI E actions (input_case_start b) of
       None \<Rightarrow> None
     | Some c \<Rightarrow>
         if \<not> input_case_mid_checks BI position payload actions c then None
         else
           (case input_case_drain BI E (length payload + 1) c of
              None \<Rightarrow> None
            | Some (observed_zero, d) \<Rightarrow>
                if \<not> input_case_drained payload c observed_zero d then None
                else
                  (case input_case_finish E d of
                     None \<Rightarrow> None
                   | Some d \<Rightarrow> if input_case_closed BI position payload d then Some () else None)))"

definition input_fuzz_target ::
  "('b, u8) buffered_input \<Rightarrow> io_env \<Rightarrow> ('b \<Rightarrow> nat) \<Rightarrow> (u8 list \<Rightarrow> 'b) \<Rightarrow> u8 list \<Rightarrow> unit option" where
  "input_fuzz_target BI E position source data =
    (let data = take 4096 data; payload = take (length data div 2) data; actions = drop (length data div 2) data;
         short_tail = payload @ [tail_byte] in
     Option.bind (run_case BI E position (source payload) payload actions) (\<lambda>_.
     Option.bind (run_case BI E position (source []) [] []) (\<lambda>_.
       run_case BI E position (source short_tail) short_tail actions)))"

section \<open>The decoder's counters\<close>

text \<open>The batch call changes the decoder only by its calls.\<close>

definition decoder_keeps :: "('s, 'u, 'o, 'e) transcoder \<Rightarrow> ('s \<Rightarrow> bool) \<Rightarrow> bool" where
  "decoder_keeps T P \<longleftrightarrow> (\<forall>s us i out j. P s \<longrightarrow>
    P (fst (snd (tr_transcode T s us i out j))) \<and> P (fst (snd (tr_transcode_eof T s us i out j))))"

lemma decoder_keepsD:
  "decoder_keeps T P \<Longrightarrow> tr_transcode T s us i out j = (r, s', o') \<Longrightarrow> P s \<Longrightarrow> P s'"
  "decoder_keeps T P \<Longrightarrow> tr_transcode_eof T s us i out j = (r, s', o') \<Longrightarrow> P s \<Longrightarrow> P s'"
  unfolding decoder_keeps_def by (metis fst_conv snd_conv)+

lemma di_eof_step_keeps:
  assumes "decoder_keeps T P" and "di_transcode_eof_step T BI E f s d out j count = (r, s', d', out')" "P s"
  shows "P s'"
  using assms
  by (auto dest: decoder_keepsD simp: di_transcode_eof_step_def and_then_case Let_def prefix_call_def
      split: prod.splits res.splits if_splits)

lemma di_batch_turn_keeps:
  assumes "decoder_keeps T P" and "di_batch_turn T BI E f j count w s d out = (r, s', d', out')" "P s"
  shows "P s'"
proof -
  have eof: "P s'" if "di_finish_batch T BI E f j count w s d out = (r, s', d', out')" "P s" for j count w s d out r s' d' out'
    using that by (auto simp: di_finish_batch_def Let_def split: prod.splits dest: di_eof_step_keeps [OF assms(1)])
  have status: "P s'" if "di_batch_status T BI E f j count w st s d out = (r, s', d', out')" "P s"
    for j count w st s d out r s' d' out'
    using that eof by (auto simp: di_batch_status_def and_then_case split: if_splits transcode_status.splits prod.splits res.splits)
  have window: "P s'" if "di_batch_window T BI E f j count w s d out = (r, s', d', out')" "P s"
    for j count w s d out r s' d' out'
  proof -
    obtain q s1 o1 where call: "tr_transcode T s (di_unread BI d) 0 out (j + w) = (q, s1, o1)" by (metis prod_cases3)
    have "P s1" using decoder_keepsD(1) [OF assms(1) call that(2)] .
    with that(1) call status show ?thesis
      by (auto simp: di_batch_window_def and_then_case Let_def split: prod.splits res.splits)
  qed
  from assms(2,3) eof window show ?thesis
    by (auto simp: di_batch_turn_def and_then_case split: prod.splits res.splits if_splits)
qed

lemma di_transcode_keeps:
  assumes "decoder_keeps T P" and "di_transcode T BI E f s d out j count = Some (r, s', d', out')" "P s"
  shows "P s'"
proof -
  have step: "P s2" if "di_batch_turn T BI E f j count w s d out = (r2, s2, d2, out2)" "P s" for BI E f j count w s d out r2 s2 d2 out2
    using that by (rule di_batch_turn_keeps [OF assms(1)])
  have "T' = T \<longrightarrow> P s \<longrightarrow> P (fst (snd y))" if "di_batch_loop T' BI E f j count w s d out = Some y" for T' BI E f j count w s d out y
    by (rule di_batch_loop.raw_induct [where P = "\<lambda>T' BI E f j count w s d out y. T' = T \<longrightarrow> P s \<longrightarrow> P (fst (snd y))", OF _ that])
      (fastforce split: prod.splits res.splits batch_flow.splits dest: step)
  then have loop: "P s2" if "di_batch_loop T BI E f j count w s d out = Some (r2, s2, d2, out2)" "P s" for w s d out r2 s2 d2 out2
    using that by fastforce
  from assms(2,3) loop show ?thesis
    by (auto simp: di_transcode_def split: res.splits if_splits prod.splits option.splits dest: di_eof_step_keeps [OF assms(1)])
qed

section \<open>MarkerDecoder over a source without faults\<close>

text \<open>How a call at the end of the input, with \<open>xs\<close> in the buffer, counts.\<close>

definition eof_counted :: "u8 list \<Rightarrow> marker_decoder \<Rightarrow> marker_decoder \<Rightarrow> bool" where
  "eof_counted xs s s' \<longleftrightarrow>
    eof_empty_calls s' = eof_empty_calls s + (if xs = [] then 1 else 0) \<and>
    eof_tail_calls s' = eof_tail_calls s + (if xs \<noteq> [] \<and> last xs = tail_byte then 1 else 0)"

lemma marker_counters_grow:
  "decoder_keeps marker_decoder_transcoder (\<lambda>s. n \<le> eof_empty_calls s)"
  "decoder_keeps marker_decoder_transcoder (\<lambda>s. n \<le> eof_tail_calls s)"
  by (auto simp: decoder_keeps_def marker_decoder_transcoder_def md_transcode_eof_def Let_def split: prod.splits)

lemma md_transcode_eof_counts:
  "md_transcode_eof s xs 0 out j = (r, s', out') \<Longrightarrow> eof_counted xs s s'"
  by (auto simp: md_transcode_eof_def eof_counted_def Let_def split: prod.splits)

locale marker_input =
  decode_bridge marker_decoder_transcoder "\<lambda>_. True" "\<lambda>_. ()" "\<lambda>_. True" marker_run "\<lambda>_ e. e" BI E rest ok "\<lambda>_. False"
  for BI :: "('b, u8) buffered_input" and E rest ok
begin

lemma reads_expected:
  assumes "sound d" "j + count \<le> length out" "length out \<le> usize_max"
  shows "\<exists>s' d'. di_transcode marker_decoder_transcoder BI E f s d out j count =
      Some (Ok (min count (length (rest (di_input d)))), s', d',
        splice_at out j (take count (expected_output (rest (di_input d))))) \<and>
    rest (di_input d') = drop count (rest (di_input d)) \<and> sound d'"
proof -
  let ?xs = "rest (di_input d)"
  obtain st where run: "marker_run () True ?xs count = (Ok st, min count (length ?xs), take count (expected_output ?xs), ())"
    using marker_run_list_eof [of ?xs count] by (auto simp: marker_run_def)
  from transcode_result [OF assms(1) TrueI assms(2,3), of f s] obtain r s' d' out' where
    call: "di_transcode marker_decoder_transcoder BI E f s d out j count = Some (r, s', d', out')"
    and res: "batch f () ?xs out j count 0 r s' d' out'" by auto
  have "r = Ok (min count (length ?xs)) \<and> out' = splice_at out j (take count (expected_output ?xs)) \<and>
      rest (di_input d') = drop (min count (length ?xs)) ?xs \<and> sound d'"
    using res run by (cases r) (auto simp: batch_result_def)
  moreover have "drop (min count (length ?xs)) ?xs = drop count ?xs" by (simp add: min_def)
  ultimately show ?thesis using call by simp
qed

lemma eof_step_counts:
  assumes "0 < count" "j + count \<le> length out" "length out \<le> usize_max"
    and "di_transcode_eof_step marker_decoder_transcoder BI E f s d out j count = (r, s', d', out')"
  shows "eof_counted (di_unread BI d) s s'"
proof -
  obtain q s1 o1 where call: "md_transcode_eof s (di_unread BI d) 0 (take (j + count) out) j = (q, s1, o1)" by (metis prod_cases3)
  have "env_range_end E (length out) j count msg = Ok (j + count)" for msg using range_law assms(2,3) by simp
  with assms(1,4) call have "s' = s1"
    by (auto simp: di_transcode_eof_step_def and_then_case prefix_call_def marker_decoder_transcoder_def Let_def
        split: prod.splits res.splits)
  with md_transcode_eof_counts [OF call] show ?thesis by simp
qed

lemma finish_batch_counts:
  assumes "w < count" "length out = j + count" "length out \<le> usize_max"
    and "di_finish_batch marker_decoder_transcoder BI E f j count w s d out = (r, s', d', out')"
  shows "eof_counted (di_unread BI d) s s' \<and> (\<forall>m. r \<noteq> Ok (BatchMore m))"
proof -
  obtain q s1 d1 o1 where step: "di_transcode_eof_step marker_decoder_transcoder BI E f s d out (j + w) (count - w) = (q, s1, d1, o1)"
    by (metis prod_cases4)
  from eof_step_counts [OF _ _ assms(3) step] assms step show ?thesis
    by (cases q) (auto simp: di_finish_batch_def)
qed

lemma unread_rest: "sound d \<Longrightarrow> \<exists>ys. rest (di_input d) = di_unread BI d @ ys"
  using unread_prefix [of "di_input d"] by (simp add: di_sound_def)

text \<open>A read of one value when nothing is left, or only the tail.\<close>

lemma tail_window:
  assumes "sound d" "length out = j + 1" "length out \<le> usize_max" "di_unread BI d = [tail_byte]"
    and "rest (di_input d) = [tail_byte]"
    and "di_batch_window marker_decoder_transcoder BI E f j 1 0 s d out = (r, s', d', out')"
  shows "eof_counted [tail_byte] s s' \<and> (\<forall>m. r \<noteq> Ok (BatchMore m))"
proof -
  have "transcode_marker [tail_byte] 0 out j False = (Ok (progress_new (NeedInput (NZ 1)) 0 0), out)"
    using marker_call [of j out False "[tail_byte]" "NeedInput (NZ 1)" 0 "[]"] assms(2) by simp
  then have call: "tr_transcode marker_decoder_transcoder s [tail_byte] 0 out j = (Ok (progress_new (NeedInput (NZ 1)) 0 0), s, out)"
    by (simp add: marker_decoder_transcoder_def)
  have valid: "validate_decode_progress (progress_new (NeedInput (NZ 1)) 0 0) 0 (Suc 0) j (Suc 0) = Ok (progress_new (NeedInput (NZ 1)) 0 0)"
    using assms(2,3) by (simp add: io_valid valid_progress_def progress_defs)
  let ?d = "d\<lparr>di_input := bi_consume BI (di_input d) 0\<rparr>"
  have ok: "ok (di_input d)" using assms(1) by (simp add: di_sound_def)
  have d: "sound ?d" "di_unread BI ?d = [tail_byte]" "rest (di_input ?d) = [tail_byte]"
    using consume_law [OF ok, of 0] assms(1,4,5) by (simp_all add: di_sound_def)
  obtain fr d1 where fill: "di_fill_until BI E (Suc (Suc 0)) ?d = (fr, d1)" by (metis surj_pair)
  note law = fill_until_sound [OF d(1) fill]
  from law obtain ys where "rest (di_input d1) = di_unread BI d1 @ ys" using unread_rest [of d1] by blast
  with law d(3) have "length (di_unread BI d1) \<le> 1" by (metis append_eq_conv_conj length_take min.cobounded1 length_Cons list.size(3) One_nat_def)
  with law have fr: "fr = Ok False" by (cases fr) auto
  with law d(3) have unread: "di_unread BI d1 = [tail_byte]" by simp
  have "di_finish_batch marker_decoder_transcoder BI E f j 1 0 s d1 out = (r, s', d', out')"
    using assms(6) call valid fill fr assms(4)
    by (simp add: di_batch_window_def di_batch_status_def di_consume_def di_unread_len_def Let_def progress_defs)
  from finish_batch_counts [OF _ assms(2,3) this] unread show ?thesis by simp
qed

lemma last_turn:
  assumes "sound d" "length out = j + 1" "length out \<le> usize_max"
    and "rest (di_input d) = [] \<or> rest (di_input d) = [tail_byte]"
    and "di_batch_turn marker_decoder_transcoder BI E f j 1 0 s d out = (r, s', d', out')"
  shows "eof_counted (rest (di_input d)) s s' \<and> (\<forall>m. r \<noteq> Ok (BatchMore m))"
proof -
  obtain more d1 where en: "(if di_unread_len BI d = 0 then di_fill_more BI d else (Ok True, d)) = (more, d1)"
    by (metis surj_pair)
  then have d1: "sound d1" "rest (di_input d1) = rest (di_input d)" "more = Ok True \<longrightarrow> di_unread BI d1 \<noteq> []"
    "more = Ok False \<longrightarrow> di_unread BI d1 = rest (di_input d)" "more = Ok True \<or> more = Ok False"
    using fill_more_sound [OF assms(1), of more d1] assms(1)
    by (cases more; auto simp: di_unread_len_def split: if_splits)+
  show ?thesis
  proof (cases "more = Ok True")
    case True
    obtain ys where "rest (di_input d1) = di_unread BI d1 @ ys" using unread_rest [OF d1(1)] by blast
    with d1 True assms(4) have tail: "di_unread BI d1 = [tail_byte]" "rest (di_input d1) = [tail_byte]"
      by (auto simp: append_eq_Cons_conv)
    from assms(5) en True have "di_batch_window marker_decoder_transcoder BI E f j 1 0 s d1 out = (r, s', d', out')"
      by (simp add: di_batch_turn_def)
    from tail_window [OF d1(1) assms(2,3) tail this] tail d1(2) show ?thesis by simp
  next
    case False
    with d1 have more: "more = Ok False" "di_unread BI d1 = rest (di_input d)" by auto
    from assms(5) en more have "di_finish_batch marker_decoder_transcoder BI E f j 1 0 s d1 out = (r, s', d', out')"
      by (simp add: di_batch_turn_def)
    from finish_batch_counts [OF _ assms(2,3) this] more show ?thesis by simp
  qed
qed

lemma last_read_counts:
  assumes "sound d" "j + 1 \<le> length out" "length out \<le> usize_max"
    and "rest (di_input d) = [] \<or> rest (di_input d) = [tail_byte]"
    and "di_transcode marker_decoder_transcoder BI E f s d out j 1 = Some (r, s', d', out')"
  shows "eof_counted (rest (di_input d)) s s'"
proof -
  have range: "env_range_end E (length out) j 1 msg = Ok (j + 1)" for msg using range_law [of j 1 "length out"] assms(2,3) by simp
  show ?thesis
  proof (cases "di_eof_retry_pending d")
    case True
    then have "di_unread BI d = rest (di_input d)" using assms(1) by (simp add: di_sound_def)
    moreover obtain q where "di_transcode_eof_step marker_decoder_transcoder BI E f s d out j 1 = (q, s', d', out')"
      using assms(5) True range by (auto simp: di_transcode_def split: prod.splits)
    ultimately show ?thesis using eof_step_counts [OF _ assms(2,3)] by fastforce
  next
    case False
    let ?out = "take (j + 1) out"
    obtain q s1 d1 o1 where turn: "di_batch_turn marker_decoder_transcoder BI E f j 1 0 s d ?out = (q, s1, d1, o1)"
      by (metis prod_cases4)
    have "length ?out = j + 1" "length ?out \<le> usize_max" using assms(2,3) by simp_all
    from last_turn [OF assms(1) this assms(4) turn] have last: "eof_counted (rest (di_input d)) s s1" "q \<noteq> Ok (BatchMore m)" for m
      by auto
    have "s' = s1"
      using assms(5) False range turn last(2) di_batch_loop.simps [of marker_decoder_transcoder BI E f j 1 0 s d ?out]
      by (auto simp: di_transcode_def split: res.splits batch_flow.splits option.splits)
    with last(1) show ?thesis by simp
  qed
qed

end

section \<open>Every case passes\<close>

lemma expected_output_drop: "expected_output (drop n xs) = drop n (expected_output xs)"
proof (induction xs arbitrary: n)
  case (Cons b bs)
  then show ?case by (cases n) (simp_all add: expected_output_Cons)
qed (simp add: expected_output_def)

text \<open>A buffer opened around a cursor over the payload: what is still to come is what is unread and
  what the cursor has not passed.\<close>

locale cursor_input = marker_input BI E rest ok
  for BI :: "('b, u8) buffered_input" and E rest ok +
  fixes position :: "'b \<Rightarrow> nat" and payload :: "u8 list" and opened :: 'b
  assumes position_law: "ok b \<Longrightarrow> position b \<le> length payload \<and> rest b = bi_unread BI b @ drop (position b) payload"
    and opened_law: "ok opened \<and> rest opened = payload"
begin

text \<open>After \<open>n\<close> reads.\<close>

definition case_inv :: "nat \<Rightarrow> 'b input_case \<Rightarrow> bool" where
  "case_inv n c \<longleftrightarrow>
    sound (ic_input c) \<and> rest (di_input (ic_input c)) = drop n payload \<and>
    ic_decoded c = take n (expected_output payload) \<and> ic_expected_lifecycle c = ic_lifecycle c \<and>
    (payload \<noteq> [] \<and> last payload = tail_byte \<and> length payload \<le> n \<longrightarrow> 0 < eof_tail_calls (ic_decoder c))"

lemma case_start: "case_inv 0 (input_case_start opened)"
  using opened_law by (simp add: case_inv_def input_case_start_def decode_input_new_def di_sound_def)

lemma case_read:
  assumes "case_inv n c"
  shows "\<exists>c'. input_case_read BI E c = Some (min 1 (length payload - n), c') \<and> case_inv (Suc n) c' \<and>
    eof_empty_calls (ic_decoder c) + (if length payload \<le> n then 1 else 0) \<le> eof_empty_calls (ic_decoder c')"
proof -
  let ?f = marker_decode_failure and ?s = "ic_decoder c" and ?d = "ic_input c" and ?xs = "drop n payload"
  let ?v = "take 1 (expected_output ?xs)"
  from assms have c: "sound ?d" "rest (di_input ?d) = ?xs" "ic_decoded c = take n (expected_output payload)"
    "ic_expected_lifecycle c = ic_lifecycle c"
    "payload \<noteq> [] \<Longrightarrow> last payload = tail_byte \<Longrightarrow> length payload \<le> n \<Longrightarrow> 0 < eof_tail_calls ?s"
    by (auto simp: case_inv_def)
  have fits: "0 + 1 \<le> length [0 :: u8]" "length [0 :: u8] \<le> usize_max" by (simp_all add: usize_max_def)
  from reads_expected [OF c(1) fits, of ?f ?s] c(2) obtain s' d' where
    call: "di_transcode marker_decoder_transcoder BI E ?f ?s ?d [0] 0 1 = Some (Ok (min 1 (length ?xs)), s', d', splice_at [0] 0 ?v)"
    and d': "rest (di_input d') = drop (Suc n) payload" "sound d'" by auto
  have read: "take (min 1 (length ?xs)) (splice_at [0] 0 ?v) = ?v"
    using take_all_iff [of 1 "expected_output ?xs"] by (auto simp: splice_at_def min_def expected_output_def [of "[]"])
  have decoded: "ic_decoded c @ ?v = take (Suc n) (expected_output payload)"
    using take_add [of n 1 "expected_output payload"] by (simp add: c(3) expected_output_drop)
  note grow = di_transcode_keeps [OF marker_counters_grow(1) call order_refl]
    di_transcode_keeps [OF marker_counters_grow(2) call order_refl]
  have last: "eof_counted ?xs ?s s'" if "?xs = [] \<or> ?xs = [tail_byte]"
    using last_read_counts [OF c(1) fits _ call] that c(2) by simp
  have tail: "0 < eof_tail_calls s'" if p: "payload \<noteq> []" "last payload = tail_byte" "length payload \<le> Suc n"
  proof (cases "length payload \<le> n")
    case True
    with c(5) p grow(2) show ?thesis by simp
  next
    case False
    with p(3) have "length ?xs = 1" by simp
    then obtain x where x: "?xs = [x]" by (metis One_nat_def length_0_conv length_Suc_conv)
    moreover have "last ?xs = tail_byte" using p(2) False by simp
    ultimately have "?xs = [tail_byte]" by simp
    with last show ?thesis by (simp add: eof_counted_def)
  qed
  have empty: "eof_empty_calls ?s + (if length payload \<le> n then 1 else 0) \<le> eof_empty_calls s'"
    using grow(1) last by (auto simp: eof_counted_def)
  let ?c = "c\<lparr>ic_decoder := s', ic_input := d', ic_decoded := ic_decoded c @ ?v\<rparr>"
  have "input_case_read BI E c = Some (min 1 (length payload - n), ?c)"
    using call read by (simp add: input_case_read_def)
  moreover have "case_inv (Suc n) ?c" using d' decoded c(4) tail by (simp add: case_inv_def)
  ultimately show ?thesis using empty by (intro exI [of _ ?c]) simp
qed

lemma range_one: "env_range_end E (Suc 0) 0 (Suc 0) msg = Ok (Suc 0)"
  using range_law [of 0 "Suc 0" "Suc 0"] by (simp add: usize_max_def)

lemma case_lifecycle:
  assumes "case_inv n c"
  shows "\<exists>c'. input_case_reset E c = Some c' \<and> case_inv n c'" "\<exists>c'. input_case_finish E c = Some c' \<and> case_inv n c'"
  using assms by (simp_all add: input_case_reset_def input_case_finish_def di_reset_def di_finish_def prefix_call_def
      marker_decoder_transcoder_def range_one case_inv_def)

abbreviation reads_in :: "u8 list \<Rightarrow> nat" where
  "reads_in actions \<equiv> length (filter (\<lambda>action. action mod 3 = 1) actions)"

lemma case_actions:
  "case_inv n c \<Longrightarrow> \<exists>c'. input_case_actions BI E actions c = Some c' \<and> case_inv (n + reads_in actions) c'"
proof (induction actions arbitrary: n c)
  case (Cons action actions)
  show ?case
  proof (cases "action mod 3 = 1")
    case True
    from case_read [OF Cons.prems] obtain c' where "input_case_read BI E c = Some (min 1 (length payload - n), c')" "case_inv (Suc n) c'"
      by blast
    with Cons.IH [of "Suc n" c'] True show ?thesis by simp
  next
    case False
    with case_lifecycle [OF Cons.prems] obtain c' where
      "(if action mod 3 = 0 then input_case_reset E c else input_case_finish E c) = Some c'" "case_inv n c'"
      by (cases "action mod 3 = 0") auto
    with Cons.IH [of n c'] False show ?thesis by (cases "action mod 3 = 0") simp_all
  qed
qed auto

lemma case_drain:
  assumes "case_inv n c" "length payload - n < rounds"
  shows "\<exists>d m. input_case_drain BI E rounds c = Some (True, d) \<and> case_inv m d \<and> length payload \<le> m \<and>
    eof_empty_calls (ic_decoder c) < eof_empty_calls (ic_decoder d)"
  using assms
proof (induction rounds arbitrary: n c)
  case (Suc rounds)
  from case_read [OF Suc.prems(1)] obtain c' where
    read: "input_case_read BI E c = Some (min 1 (length payload - n), c')" "case_inv (Suc n) c'"
    "eof_empty_calls (ic_decoder c) + (if length payload \<le> n then 1 else 0) \<le> eof_empty_calls (ic_decoder c')" by blast
  show ?case
  proof (cases "length payload \<le> n")
    case True
    with read show ?thesis by (intro exI [of _ c'] exI [of _ "Suc n"]) simp
  next
    case False
    with Suc.prems(2) have "length payload - Suc n < rounds" by simp
    from Suc.IH [OF read(2) this] read(1,3) False show ?thesis by fastforce
  qed
qed simp

lemma case_passes: "run_case BI E position opened payload actions = Some ()"
proof -
  from case_actions [OF case_start] obtain c where
    c: "input_case_actions BI E actions (input_case_start opened) = Some c" "case_inv (reads_in actions) c" by auto
  have ok: "position (di_input d) \<le> length payload \<and> rest (di_input d) = di_unread BI d @ drop (position (di_input d)) payload"
    if "sound d" for d using that position_law by (simp add: di_sound_def)
  have "input_case_mid_checks BI position payload actions c"
    using c(2) ok [of "ic_input c"] by (auto simp: case_inv_def input_case_mid_checks_def expected_reads_def min_def)
  moreover obtain d m where d: "input_case_drain BI E (length payload + 1) c = Some (True, d)" "case_inv m d" "length payload \<le> m"
    "eof_empty_calls (ic_decoder c) < eof_empty_calls (ic_decoder d)"
    using case_drain [OF c(2), of "length payload + 1"] by (metis diff_le_self le_imp_less_Suc Suc_eq_plus1)
  moreover have "input_case_drained payload c True d" using d by (simp add: input_case_drained_def case_inv_def)
  moreover obtain d' where d': "input_case_finish E d = Some d'" "case_inv m d'" using case_lifecycle(2) [OF d(2)] by blast
  moreover have "input_case_closed BI position payload d'"
    using d'(2) d(3) ok [of "ic_input d'"] by (auto simp: case_inv_def input_case_closed_def)
  ultimately show ?thesis using c(1) by (simp add: run_case_def)
qed

end

section \<open>A cursor over memory\<close>

text \<open>A buffer around a cursor over a payload: the units it has taken from the cursor and not
  given out, and the cursor's position. It takes one unit at a time, as a buffer of capacity one
  does, or as many as a call asks for.\<close>

record memory =
  mm_data :: "u8 list"
  mm_position :: nat
  mm_unread :: "u8 list"
  mm_capacity :: nat

definition memory_take :: "nat \<Rightarrow> memory \<Rightarrow> memory" where
  "memory_take n b =
    b\<lparr>mm_position := min (mm_position b + n) (length (mm_data b)),
      mm_unread := mm_unread b @ take n (drop (mm_position b) (mm_data b))\<rparr>"

definition memory_read :: "memory \<Rightarrow> u8 list \<Rightarrow> nat \<Rightarrow> nat \<Rightarrow> (io_error, nat) res \<times> memory \<times> u8 list" where
  "memory_read b out i count =
    (let b = (if mm_unread b = [] then memory_take 1 b else b); n = min count (length (mm_unread b)) in
     (Ok n, b\<lparr>mm_unread := drop n (mm_unread b)\<rparr>, splice_at out i (take n (mm_unread b))))"

definition memory_input :: "(memory, u8) buffered_input" where
  "memory_input =
    \<lparr>bi_unread = mm_unread, bi_capacity = mm_capacity,
     bi_try_reserve_capacity = (\<lambda>b n. (Ok (), b\<lparr>mm_capacity := max (mm_capacity b) n\<rparr>)),
     bi_fill_until = (\<lambda>b n. let b = memory_take (n - length (mm_unread b)) b in (Ok (n \<le> length (mm_unread b)), b)),
     bi_fill_more = (\<lambda>b. (Ok (mm_position b < length (mm_data b)), memory_take 1 b)),
     bi_consume = (\<lambda>b n. b\<lparr>mm_unread := drop n (mm_unread b)\<rparr>),
     bi_read_unchecked = memory_read,
     bi_seek_to = (\<lambda>b p. (Err (IoMessage Unsupported ''seek''), b))\<rparr>"

definition memory_rest :: "memory \<Rightarrow> u8 list" where
  "memory_rest b = mm_unread b @ drop (mm_position b) (mm_data b)"

definition memory_ok :: "u8 list \<Rightarrow> memory \<Rightarrow> bool" where
  "memory_ok payload b \<longleftrightarrow> mm_data b = payload \<and> mm_position b \<le> length payload \<and> length (memory_rest b) \<le> usize_max"

definition memory_cursor :: "u8 list \<Rightarrow> memory" where
  "memory_cursor payload = \<lparr>mm_data = payload, mm_position = 0, mm_unread = [], mm_capacity = 1\<rparr>"

lemma memory_take_law:
  assumes "memory_ok payload b"
  shows "memory_ok payload (memory_take n b)" "memory_rest (memory_take n b) = memory_rest b"
proof -
  have "take n (drop (mm_position b) (mm_data b)) @ drop (min (mm_position b + n) (length (mm_data b))) (mm_data b) =
      drop (mm_position b) (mm_data b)"
    using append_take_drop_id [of n "drop (mm_position b) (mm_data b)"] by (simp add: min_def add.commute)
  then show rest: "memory_rest (memory_take n b) = memory_rest b" by (simp add: memory_rest_def memory_take_def)
  show "memory_ok payload (memory_take n b)" using assms rest by (simp add: memory_ok_def memory_take_def)
qed

lemma memory_source: "buffered_source memory_input sample_env memory_rest (memory_ok payload) (\<lambda>_. False)"
proof
  fix b b' n r
  assume ok: "memory_ok payload b" and fill: "bi_fill_until memory_input b n = (r, b')"
  then have "b' = memory_take (n - length (mm_unread b)) b" "r = Ok (n \<le> length (mm_unread b'))"
    by (auto simp: memory_input_def Let_def)
  with memory_take_law [OF ok, of "n - length (mm_unread b)"] ok
  show "r \<noteq> Panic \<and> memory_ok payload b' \<and> memory_rest b' = memory_rest b \<and>
      (\<exists>more. bi_unread memory_input b' = bi_unread memory_input b @ more) \<and>
      (r = Ok True \<longrightarrow> n \<le> length (bi_unread memory_input b')) \<and>
      (r = Ok False \<longrightarrow> bi_unread memory_input b' = memory_rest b \<and> length (memory_rest b) < n) \<and>
      (\<forall>e. r = Err e \<longrightarrow> False)"
    by (auto simp: memory_input_def memory_take_def memory_rest_def)
next
  fix b b' r
  assume ok: "memory_ok payload b" and fill: "bi_fill_more memory_input b = (r, b')"
  then have "b' = memory_take 1 b" "r = Ok (mm_position b < length (mm_data b))"
    by (auto simp: memory_input_def)
  with memory_take_law [OF ok, of 1] ok
  show "r \<noteq> Panic \<and> memory_ok payload b' \<and> memory_rest b' = memory_rest b \<and>
      (\<exists>more. bi_unread memory_input b' = bi_unread memory_input b @ more) \<and>
      (r = Ok True \<longrightarrow> length (bi_unread memory_input b) < length (bi_unread memory_input b')) \<and>
      (r = Ok False \<longrightarrow> bi_unread memory_input b' = memory_rest b) \<and> (\<forall>e. r = Err e \<longrightarrow> False)"
    by (auto simp: memory_input_def memory_take_def memory_rest_def)
qed (auto simp: memory_ok_def memory_input_def memory_rest_def)

lemma memory_cursor_input:
  assumes "length payload \<le> usize_max"
  shows "cursor_input memory_input sample_env memory_rest (memory_ok payload) mm_position payload (memory_cursor payload)"
  by (intro cursor_input.intro marker_input.intro decode_bridge.intro marker_source.stream_decoder_axioms memory_source
      decode_bridge_axioms.intro cursor_input_axioms.intro)
    (use assms in \<open>auto simp: sample_range memory_ok_def memory_cursor_def memory_rest_def memory_input_def\<close>)

interpretation memory_case: cursor_input memory_input sample_env memory_rest "memory_ok (take usize_max payload)"
  mm_position "take usize_max payload" "memory_cursor (take usize_max payload)" for payload
  by (rule memory_cursor_input) simp

interpretation marker_script: marker_input scripted_input sample_env scripted_rest "scripted_ok (\<lambda>_. False)"
  by (intro marker_input.intro marker_bridge.decode_bridge_axioms)

section \<open>Properties\<close>

text \<open>The fuzz target's expectation: on a source without faults, reading with \<open>MarkerDecoder\<close>
  delivers the next bytes of the payload with a final \<open>TAIL\<close> replaced by a question mark, and
  leaves the rest, for every payload, every way it is cut into reads and every count.\<close>

theorem marker_reads_expected_output:
  assumes "di_sound scripted_input scripted_rest (scripted_ok (\<lambda>_. False)) d"
    and "j + count \<le> length out" "length out \<le> usize_max"
  shows "\<exists>s' d'. di_transcode marker_decoder_transcoder scripted_input sample_env map_error s d out j count =
      Some (Ok (min count (length (scripted_rest (di_input d)))), s', d',
        splice_at out j (take count (expected_output (scripted_rest (di_input d))))) \<and>
    scripted_rest (di_input d') = drop count (scripted_rest (di_input d))"
  using marker_script.reads_expected [OF assms, of map_error s] by blast

text \<open>C26. The decode input's fuzz target passes: on every data and every buffer around a cursor
  without faults, each of its three cases delivers the values and the lifecycle output it
  expects, leaves what it expects, is drained with calls of the decoder at the end of the input,
  and ends with the cursor behind the payload; no assertion of the target fails.\<close>

theorem input_fuzz_target_passes:
  assumes "\<And>payload. length payload \<le> usize_max \<Longrightarrow>
    cursor_input BI E rest (ok payload) position payload (source payload)"
  shows "input_fuzz_target BI E position source data = Some ()"
proof -
  have "run_case BI E position (source payload) payload actions = Some ()" if "length payload \<le> 4097" for payload actions
    by (rule cursor_input.case_passes [OF assms]) (use that in \<open>simp add: usize_max_def\<close>)
  then show ?thesis by (simp add: input_fuzz_target_def Let_def)
qed

end
