(* ===== verification/IoWitnesses.thy ===== *)
theory IoWitnesses
  imports DecodeInputFuzz Witnesses
begin

text \<open>
  Concrete runs of the I/O bridge over the in-memory source, with input that arrives in pieces
  and with a source that fails.
\<close>

definition sample_source_state :: "u8 scripted" where
  "sample_source_state = \<lparr>sc_unread = [], sc_script = [Chunk [0x12], Chunk [0x34, 0x56], Chunk [0x78, 0xfe]],
    sc_capacity = 1\<rparr>"

abbreviation disk_error :: io_error where "disk_error \<equiv> IoOther (OtherKind 5) 0"

definition faulty_source_state :: "u8 scripted" where
  "faulty_source_state = \<lparr>sc_unread = [], sc_script = [Chunk [0x12, 0x34, 0x56], Fault disk_error, Chunk [0x78]],
    sc_capacity = 1\<rparr>"

abbreviation no_map :: "'e \<Rightarrow> io_error" where "no_map \<equiv> \<lambda>_. IoOther (OtherKind 0) 0"

lemma sample_source_ok [simp]:
  "scripted_ok (\<lambda>_. False) sample_source_state"
  "scripted_rest sample_source_state = [0x12, 0x34, 0x56, 0x78, 0xfe]"
  "scripted_ok (\<lambda>e. e = disk_error) faulty_source_state"
  "scripted_rest faulty_source_state = [0x12, 0x34, 0x56, 0x78]"
  by (simp_all add: sample_source_state_def faulty_source_state_def scripted_ok_def scripted_rest_def usize_max_def)

theorem read_one_reads_head_witness:
  "\<exists>b'. read_one u16be_codec scripted_input sample_env no_map () sample_source_state = Some (Ok 0x1234, (), b') \<and>
    scripted_rest b' = [0x56, 0x78, 0xfe]"
proof -
  have head: "head_value u16be_codec u16be_parse no_map () [0x12, 0x34, 0x56, 0x78, 0xfe] = (Ok 0x1234, 2, ())"
    by code_simp
  from read_one_reads_head [where map_error = no_map, OF u16be_stored.read.stream_reading_axioms
      sample_source_ok(1) sample_states(1)] head
  show ?thesis by (auto simp: read_result_def eval_nat_numeral)
qed

theorem read_lifecycle_reads_head_witness:
  "\<exists>d'. read_decoded_lifecycle_with marker_codec scripted_input sample_env no_map 0 ()
      (decode_input_new sample_source_state) =
      Some (Ok \<lparr>dlo_reset = [0xfe], dlo_value = 0x12, dlo_finish = [0xff]\<rparr>, (), d') \<and>
    scripted_rest (di_input d') = [0x34, 0x56, 0x78, 0xfe]"
proof -
  have head: "head_lifecycle marker_codec (emit_one reset_marker) marker_parse (emit_one finish_marker) no_map ()
      [0x12, 0x34, 0x56, 0x78, 0xfe] = (Ok \<lparr>dlo_reset = [0xfe], dlo_value = 0x12, dlo_finish = [0xff]\<rparr>, 1, ())"
    by code_simp
  have ok: "scripted_ok (\<lambda>_. False) (di_input (decode_input_new sample_source_state))"
    by (simp add: decode_input_new_def)
  have reserve: "env_reserve_vec sample_env n = Ok ()" for n by (simp add: sample_env_def)
  from read_lifecycle_reads_head [where map_error = no_map and default_value = 0,
      OF marker_stored.read.lifecycle_reading_axioms ok sample_states(1) reserve reserve] head
  show ?thesis by (auto simp: lifecycle_result_def decode_input_new_def eval_nat_numeral)
qed

theorem stored_value_reads_back_witness:
  "\<exists>r d' b'. codec_value_encode u16be_codec (\<lambda>_. True) 0 () 0x1234 = (Ok [0x12, 0x34], ()) \<and>
    read_decoded_lifecycle_with u16be_codec scripted_input sample_env no_map 0 () (decode_input_new sample_source_state)
      = Some (r, d', b') \<and>
    (\<exists>rs fs. r = Ok \<lparr>dlo_reset = rs, dlo_value = 0x1234, dlo_finish = fs\<rparr> \<and>
      scripted_rest (di_input b') = [0x56, 0x78, 0xfe])"
proof -
  have bounds: "max_complete_encode_units u16be_codec = Ok 2" by code_simp
  have enc: "codec_value_encode u16be_codec (\<lambda>_. True) 0 () 0x1234 = (Ok [0x12, 0x34], ())" by code_simp
  have ok: "scripted_ok (\<lambda>_. False) (di_input (decode_input_new sample_source_state))"
    and rest: "scripted_rest (di_input (decode_input_new sample_source_state)) = [0x12, 0x34] @ [0x56, 0x78, 0xfe]"
    by (simp_all add: decode_input_new_def)
  have reserve: "env_reserve_vec sample_env n = Ok ()" for n by (simp add: sample_env_def)
  from stored_value_reads_back [where reserve_vec = "\<lambda>_. True" and map_error = no_map and dv = 0,
      OF u16be_stored.stored_values_axioms sample_states(1) sample_states(1) bounds TrueI enc reserve reserve ok rest]
    enc
  show ?thesis by auto
qed

text \<open>The source fails in the middle: three values were asked for, one was decoded.\<close>

theorem transcode_reads_one_run_witness:
  "\<exists>d'. di_transcode (decode_transcoder u16be_codec u16be_dh) scripted_input sample_env no_map
      (open_decoder () ()) (decode_input_new faulty_source_state) [0, 0, 0] 0 3
      = Some (Err disk_error, open_decoder () (), d', [0x1234, 0, 0]) \<and>
    (\<exists>n vs. scripted_rest (di_input d') = drop n [0x12, 0x34, 0x56, 0x78] \<and> [0x1234, 0, 0] = splice_at [0, 0, 0] 0 vs \<and>
      paused (engine_run u16be_codec u16be_parse strict_invalid strict_incomplete) shift_decode_error 3
        ((), ()) [0x12, 0x34, 0x56, 0x78] n vs ((), ()))"
proof -
  let ?d = "\<lparr>di_input = \<lparr>sc_unread = [0x56], sc_script = [Chunk [0x78]], sc_capacity = 2\<rparr>, di_eof_retry_pending = False\<rparr>"
  have sound: "di_sound scripted_input scripted_rest (scripted_ok (\<lambda>e. e = disk_error)) (decode_input_new faulty_source_state)"
    by (simp add: di_sound_def decode_input_new_def)
  have live: "any_state (de_codec (open_decoder () ())) \<and> stream_phase (de_phase (open_decoder () ()))"
    by (simp add: stream_phase_def any_state_def)
  have run: "di_transcode (decode_transcoder u16be_codec u16be_dh) scripted_input sample_env no_map
      (open_decoder () ()) (decode_input_new faulty_source_state) [0, 0, 0] 0 3
      = Some (Err disk_error, open_decoder () (), ?d, [0x1234, 0, 0])" by code_simp
  have fits: "0 + 3 \<le> length [0, 0, 0 :: u16]" "length [0, 0, 0 :: u16] \<le> usize_max" by (simp_all add: usize_max_def)
  from transcode_reads_one_run [where map_error = no_map, OF u16be_bridge.decode_bridge_axioms sound live fits] run
  show ?thesis by (auto simp: batch_result_def decode_input_new_def)
qed

theorem engine_short_count_ends_witness:
  "\<exists>d'. di_transcode (decode_transcoder marker_codec (codec_transcode_decode_hooks marker_codec)) scripted_input
      sample_env no_map (open_decoder () ()) (decode_input_new sample_source_state) [0, 0, 0, 0, 0, 0] 0 6
      = Some (Ok 5, open_decoder () (), d', [0x12, 0x34, 0x56, 0x78, 0xfe, 0]) \<and> scripted_rest (di_input d') = []"
proof -
  let ?d = "\<lparr>di_input = \<lparr>sc_unread = [], sc_script = [], sc_capacity = 1\<rparr>, di_eof_retry_pending = False\<rparr>"
  have run: "di_transcode (decode_transcoder marker_codec (codec_transcode_decode_hooks marker_codec)) scripted_input
      sample_env no_map (open_decoder () ()) (decode_input_new sample_source_state) [0, 0, 0, 0, 0, 0] 0 6
      = Some (Ok 5, open_decoder () (), ?d, [0x12, 0x34, 0x56, 0x78, 0xfe, 0])" by code_simp
  have sound: "di_sound scripted_input scripted_rest (scripted_ok (\<lambda>_. False)) (decode_input_new sample_source_state)"
    by (simp add: di_sound_def decode_input_new_def)
  have good: "any_state (de_codec (open_decoder () ()))" "stream_phase (de_phase (open_decoder () ()))"
    by (simp_all add: stream_phase_def any_state_def)
  have fits: "0 + 6 \<le> length [0, 0, 0, 0, 0, 0 :: u8]" "length [0, 0, 0, 0, 0, 0 :: u8] \<le> usize_max" "5 < (6 :: nat)"
    by (simp_all add: usize_max_def)
  from engine_short_count_ends [OF marker_inc.incremental_decoder_axioms marker_codec_bridge.decode_bridge_axioms
      sound good fits(1,2) run fits(3)] run
  show ?thesis by auto
qed

theorem marker_reads_expected_output_witness:
  "\<exists>s' d'. di_transcode marker_decoder_transcoder scripted_input sample_env no_map
      \<lparr>eof_empty_calls = 0, eof_tail_calls = 0\<rparr> (decode_input_new sample_source_state) [0, 0, 0, 0, 0, 0] 0 6
      = Some (Ok 5, s', d', [0x12, 0x34, 0x56, 0x78, 0x3f, 0]) \<and> scripted_rest (di_input d') = []"
proof -
  have sound: "di_sound scripted_input scripted_rest (scripted_ok (\<lambda>_. False)) (decode_input_new sample_source_state)"
    by (simp add: di_sound_def decode_input_new_def)
  have fits: "0 + 6 \<le> length [0, 0, 0, 0, 0, 0 :: u8]" "length [0, 0, 0, 0, 0, 0 :: u8] \<le> usize_max"
    by (simp_all add: usize_max_def)
  have out: "splice_at [0, 0, 0, 0, 0, 0] 0 (take 6 (expected_output [0x12, 0x34, 0x56, 0x78, 0xfe])) =
      [0x12, 0x34, 0x56, 0x78, 0x3f, 0]" by code_simp
  from marker_reads_expected_output [where map_error = no_map, OF sound fits,
      of "\<lparr>eof_empty_calls = 0, eof_tail_calls = 0\<rparr>"] out
  show ?thesis by (simp add: decode_input_new_def eval_nat_numeral)
qed

end
