(* ===== verification/IoDelivery.thy ===== *)
theory IoDelivery
  imports IoRoundtrip IoWitnesses
begin

text \<open>
  Concrete runs of the I/O bridge over the in-memory sink: sinks that accept everything, that
  fail, and that are interrupted.
\<close>

definition empty_sink :: "u8 memory_sink" where
  "empty_sink = \<lparr>ms_delivered = [], ms_buffer = [0], ms_pending = 0, ms_script = []\<rparr>"

definition interrupted_sink :: "u8 memory_sink" where
  "interrupted_sink = empty_sink\<lparr>ms_script := [Some (IoOther Interrupted 0), Some (IoOther Interrupted 1)]\<rparr>"

definition failing_sink :: "u8 memory_sink" where
  "failing_sink = empty_sink\<lparr>ms_script := [Some disk_error]\<rparr>"

lemmas sink_defs = empty_sink_def interrupted_sink_def failing_sink_def ms_ok_def ms_sent_def usize_max_def

lemma sample_sinks_ok [simp]:
  "ms_ok fault empty_sink" "ms_ok (\<lambda>e. io_kind e = Interrupted) interrupted_sink" "ms_ok (\<lambda>e. e = disk_error) failing_sink"
  "ms_sent empty_sink = []" "ms_sent interrupted_sink = []" "ms_sent failing_sink = []"
  by (simp_all add: sink_defs)

theorem write_encoded_all_or_nothing_witness:
  "\<exists>w'. eo_write_encoded_with u16be_codec (memory_output 0) sample_env no_map () 0x1234 empty_sink = (Ok (), (), w') \<and>
    ms_sent w' = [0x12, 0x34]"
proof -
  let ?w = "empty_sink\<lparr>ms_buffer := [0x12, 0x34], ms_pending := 2\<rparr>"
  have run: "eo_write_encoded_with u16be_codec (memory_output 0) sample_env no_map () 0x1234 empty_sink
      = (Ok (), (), ?w)" by code_simp
  have units: "max_complete_encode_units u16be_codec = Ok 2" by code_simp
  have frame: "value_frame u16be_codec emit_nothing u16be_emit emit_nothing () 0x1234 = (Inr [0x12, 0x34], ())"
    by code_simp
  from write_encoded_all_or_nothing [OF u16be_writing.value_writing_axioms [where fault = "\<lambda>_. False"]
      sample_sinks_ok(1) sample_states(1) units run] frame run
  show ?thesis by simp
qed

theorem transcode_commits_all_or_nothing_witness:
  "\<exists>s' w'. eo_transcode (encode_transcoder u16be_codec u16be_eh) (memory_output 0) sample_env no_map
      (fresh_encoder () ()) empty_sink [0, 0x1234, 0x5678] 1 2 = Some (Ok 2, s', w') \<and>
    ms_sent w' = [0x12, 0x34, 0x56, 0x78]"
proof -
  let ?eng = "fresh_encoder () ()"
  let ?w = "empty_sink\<lparr>ms_buffer := [0x12, 0x34, 0x56, 0x78], ms_pending := 4\<rparr>"
  have run: "eo_transcode (encode_transcoder u16be_codec u16be_eh) (memory_output 0) sample_env no_map
      ?eng empty_sink [0, 0x1234, 0x5678] 1 2 = Some (Ok 2, open_encoder () (), ?w)" by code_simp
  have live: "any_state (ee_codec ?eng) \<and> stream_phase (ee_phase ?eng)" by (simp add: stream_phase_def any_state_def)
  have fits: "1 + 2 \<le> length [0, 0x1234, 0x5678 :: u16]" "length [0, 0x1234, 0x5678 :: u16] \<le> usize_max"
    by (simp_all add: usize_max_def)
  have all: "engine_encode_all u16be_codec u16be_emit strict_unencodable ((), ()) 1 [0x1234, 0x5678]
      = (Inr [0x12, 0x34, 0x56, 0x78], (), ())" by code_simp
  from transcode_commits_all_or_nothing [OF u16be_sending.encode_bridge_axioms [where fault = "\<lambda>_. False"]
      sample_sinks_ok(1) live fits, where map_error = no_map] obtain r s' w' where
    "eo_transcode (encode_transcoder u16be_codec u16be_eh) (memory_output 0) sample_env no_map
      ?eng empty_sink [0, 0x1234, 0x5678] 1 2 = Some (r, s', w')"
    "sends_all (engine_encode_all u16be_codec u16be_emit strict_unencodable) engine_state
      (\<lambda>eng. any_state (ee_codec eng) \<and> stream_phase (ee_phase eng)) ms_sent (\<lambda>_. False) no_map
      (max_transcode_output_len (encode_transcoder u16be_codec u16be_eh) ?eng 2) ?eng empty_sink 1
      (take 2 (drop 1 [0, 0x1234, 0x5678])) r s' w'" by blast
  with run all show ?thesis by (auto simp: sends_all_def eval_nat_numeral)
qed

text \<open>The flush fails: the finish unit stays pending.\<close>

theorem finish_delivers_witness:
  "\<exists>w'. eo_finish marker_encoder (memory_output 0) sample_env no_map () failing_sink = (Err disk_error, (), w') \<and>
    ms_sent w' = [0xf1] \<and> ms_delivered w' = []"
proof -
  let ?w = "empty_sink\<lparr>ms_buffer := [0xf1], ms_pending := 1\<rparr>"
  have run: "eo_finish marker_encoder (memory_output 0) sample_env no_map () failing_sink = (Err disk_error, (), ?w)"
    by code_simp
  have "\<not> finish_overflow marker_encoder (memory_output 0) () failing_sink k" for k
    by (simp add: finish_overflow_def marker_encoder_def memory_output_def sink_defs)
  with finish_delivers [OF marker_sink.lifecycle_bridge_axioms [where fault = "\<lambda>e. e = disk_error"]
      sample_sinks_ok(3) TrueI run] run
  show ?thesis by (auto simp: marker_mark_def encode_finish_byte_def sends_units_def sink_defs)
qed

theorem write_all_returns_witness:
  "\<exists>w'. eo_write_all (memory_output 0) interrupted_sink [1, 2, 3] = Some (Ok (), w') \<and> ms_sent w' = [1, 2, 3]"
proof -
  let ?w = "empty_sink\<lparr>ms_delivered := [1, 2, 3]\<rparr>"
  have run: "eo_write_all (memory_output 0) interrupted_sink [1, 2, 3] = Some (Ok (), ?w)" by code_simp
  from write_all_returns [OF memory.buffered_sink_axioms sample_sinks_ok(2), of 0 "[1, 2, 3]"] run show ?thesis
    by auto
qed

theorem output_fuzz_target_passes_witness:
  "\<exists>w'. output_fuzz_target (memory_output 0) sample_env [0, 9, 7, 3, 2] empty_sink = Some (w', [0xa1, 7, 0xf1]) \<and>
    ms_delivered w' = [0xa1, 7, 0xf1]"
proof -
  let ?w = "empty_sink\<lparr>ms_delivered := [0xa1, 7, 0xf1], ms_buffer := [0xf1]\<rparr>"
  have run: "output_fuzz_target (memory_output 0) sample_env [0, 9, 7, 3, 2] empty_sink = Some (?w, [0xa1, 7, 0xf1])"
    by code_simp
  from output_fuzz_target_passes [OF marker_out.marker_output_axioms sample_sinks_ok(1,4), of 0 "[0, 9, 7, 3, 2]"] run
  show ?thesis by auto
qed

theorem bridge_roundtrip_witness:
  "\<exists>n enc' w1 w2 dec' d' out'.
    eo_transcode (encode_transcoder u16be_codec u16be_eh) (memory_output 0) sample_env no_map (fresh_encoder () ())
      empty_sink [0x1234, 0x5678] 0 2 = Some (Ok n, enc', w1) \<and>
    eo_flush (memory_output 0) w1 = (Ok (), w2) \<and> ms_delivered w2 = [0x12, 0x34, 0x56, 0x78] \<and>
    di_transcode (decode_transcoder u16be_codec u16be_dh) scripted_input sample_env no_map (open_decoder () ())
      (decode_input_new \<lparr>sc_unread = [], sc_script = [Chunk [0x12], Chunk [0x34, 0x56], Chunk [0x78]], sc_capacity = 1\<rparr>)
      [0, 0] 0 2 = Some (Ok 2, dec', d', out') \<and> out' = [0x1234, 0x5678]"
proof -
  let ?w1 = "empty_sink\<lparr>ms_buffer := [0x12, 0x34, 0x56, 0x78], ms_pending := 4\<rparr>"
  let ?w2 = "empty_sink\<lparr>ms_buffer := [0x12, 0x34, 0x56, 0x78], ms_delivered := [0x12, 0x34, 0x56, 0x78]\<rparr>"
  let ?d = "decode_input_new \<lparr>sc_unread = [], sc_script = [Chunk [0x12], Chunk [0x34, 0x56], Chunk [0x78]], sc_capacity = 1\<rparr>"
  let ?enc = "fresh_encoder () ()" and ?dec = "open_decoder () ()" and ?vs = "[0x1234, 0x5678] :: u16 list"
  have written: "eo_transcode (encode_transcoder u16be_codec u16be_eh) (memory_output 0) sample_env no_map
      ?enc empty_sink ?vs 0 (length ?vs) = Some (Ok 2, open_encoder () (), ?w1)" by code_simp
  have flush: "eo_flush (memory_output 0) ?w1 = (Ok (), ?w2)" by code_simp
  have sound: "di_sound scripted_input scripted_rest (scripted_ok (\<lambda>_. False)) ?d"
    by (simp add: di_sound_def decode_input_new_def scripted_ok_def scripted_rest_def usize_max_def)
  have rest: "scripted_rest (di_input ?d) = ms_delivered ?w2"
    by (simp add: decode_input_new_def scripted_rest_def)
  have good: "any_state (ee_codec ?enc)" "stream_phase (ee_phase ?enc)" "any_state (de_codec ?dec)" "stream_phase (de_phase ?dec)"
    by (simp_all add: stream_phase_def any_state_def)
  have reject: "strict_unencodable (ee_hooks ?enc) v = RejectValue" for v :: u16 by (simp add: strict_unencodable_def)
  have fits: "length ?vs \<le> usize_max" "0 + length ?vs \<le> length [0, 0 :: u16]" "length [0, 0 :: u16] \<le> usize_max"
    by (simp_all add: usize_max_def)
  from bridge_roundtrip [where g = no_map, OF u16be_trip.codec_roundtrip_axioms
      u16be_sending.encode_bridge_axioms [where fault = "\<lambda>_. False"] u16be_bridge.decode_bridge_axioms,
      OF good TrueI, OF reject sample_sinks_ok(1,4) fits(1), OF written flush, OF sound rest fits(2,3)] written flush
  show ?thesis by (auto simp: eval_nat_numeral splice_at_def)
qed

end
