(* ===== verification/AsyncWitnesses.thy ===== *)
theory AsyncWitnesses
  imports AsyncReading AsyncSinks IoDelivery
begin

text \<open>
  Concrete runs of the asynchronous bridge, over a source and a sink that make their callers wait.
\<close>

section \<open>The input\<close>

definition slow_source :: "u8 async_scripted" where
  "slow_source = \<lparr>as_unread = [], as_script = [Arrive [1], Wait, Arrive [0xfe]], as_capacity = 4\<rparr>"

abbreviation fresh_marker :: marker_decoder where
  "fresh_marker \<equiv> \<lparr>eof_empty_calls = 0, eof_tail_calls = 0\<rparr>"

abbreviation marker_poll where
  "marker_poll \<equiv> adi_poll_transcode marker_decoder_transcoder async_scripted_input sample_env no_map"

lemma slow_source_ok [simp]: "as_ok (\<lambda>_. False) slow_source" "as_rest slow_source = [1, 0xfe]"
  by (simp_all add: slow_source_def as_ok_def as_rest_def usize_max_def)

abbreviation slow_end :: "u8 async_scripted" where
  "slow_end \<equiv> \<lparr>as_unread = [0xfe], as_script = [], as_capacity = 4\<rparr>"

text \<open>A value, a poll that is not ready, a poll that needs to know how the stream goes on.\<close>

lemma marker_driven:
  "adi_driven marker_decoder_transcoder async_scripted_input sample_env no_map 0 2 (fresh_marker, slow_source, [0, 0])
    1 (fresh_marker, slow_end, [1, 0])"
proof -
  let ?D = "adi_driven marker_decoder_transcoder async_scripted_input sample_env no_map 0 2 (fresh_marker, slow_source, [0, 0])"
  let ?b1 = "\<lparr>as_unread = [], as_script = [Wait, Arrive [0xfe]], as_capacity = 4\<rparr>"
  let ?b2 = "\<lparr>as_unread = [], as_script = [Arrive [0xfe]], as_capacity = 4\<rparr>"
  have p1: "marker_poll (0 + 0) (2 - 0) (fresh_marker, slow_source, [0, 0]) =
      (Ready (Ok (StepProgress (progress_complete 1 1))), fresh_marker, ?b1, [1, 0])" by code_simp
  have p2: "marker_poll (0 + 1) (2 - 1) (fresh_marker, ?b1, [1, 0]) = (NotReady, fresh_marker, ?b2, [1, 0])" by code_simp
  have p3: "marker_poll (0 + 1) (2 - 1) (fresh_marker, ?b2, [1, 0]) =
      (Ready (Ok (StepProgress (progress_need_input (NZ 1) 0 0))), fresh_marker, slow_end, [1, 0])" by code_simp
  have "?D 1 (fresh_marker, ?b1, [1, 0])" using adi_driven.step [OF adi_driven.start _ p1] by (simp add: progress_defs)
  then have "?D 1 (fresh_marker, ?b2, [1, 0])" by (rule adi_driven.waiting [OF _ p2])
  from adi_driven.step [OF this _ p3] show ?thesis by (simp add: progress_defs)
qed

lemma marker_last_step:
  "adi_transcode_eof_step marker_decoder_transcoder async_scripted_input sample_env no_map (0 + 1) (2 - 1)
    (fresh_marker, slow_end, [1, 0]) =
    (Ok (progress_complete 1 1), fresh_marker\<lparr>eof_tail_calls := 1\<rparr>, slow_end\<lparr>as_unread := []\<rparr>, [1, 0x3f])"
  by code_simp

lemma marker_fits: "0 + 2 \<le> length [0, 0 :: u8]" "length [0, 0 :: u8] \<le> usize_max"
  "ai_unread async_scripted_input slow_end = as_rest slow_end"
  by (simp_all add: usize_max_def async_scripted_input_def as_rest_def)

theorem async_decode_joins_witness:
  "\<exists>r s' b' out'. adi_transcode_eof_step marker_decoder_transcoder async_scripted_input sample_env no_map (0 + 1) (2 - 1)
      (fresh_marker, slow_end, [1, 0]) = (r, s', b', out') \<and>
    r = Ok (progress_complete 1 1) \<and> (\<exists>st n vs. marker_run () True [1, 0xfe] 2 = (Ok st, n, vs, ()) \<and> out' = splice_at [0, 0] 0 vs)"
  using async_decode_joins [OF marker_async.async_decode_bridge_axioms marker_driven slow_source_ok(1) TrueI marker_fits
      marker_last_step] marker_last_step by auto

theorem async_matches_sync_witness:
  "\<exists>s2 d2. di_transcode marker_decoder_transcoder scripted_input sample_env no_map fresh_marker
      (decode_input_new \<lparr>sc_unread = [], sc_script = [Chunk [1, 0xfe]], sc_capacity = 1\<rparr>) [0, 0] 0 2 =
      Some (Ok 2, s2, d2, [1, 0x3f]) \<and> scripted_rest (di_input d2) = []"
proof -
  let ?d = "decode_input_new \<lparr>sc_unread = [], sc_script = [Chunk [1, 0xfe]], sc_capacity = 1\<rparr>"
  let ?d2 = "\<lparr>di_input = \<lparr>sc_unread = [], sc_script = [], sc_capacity = 2\<rparr>, di_eof_retry_pending = False\<rparr>"
  have run: "di_transcode marker_decoder_transcoder scripted_input sample_env no_map fresh_marker ?d [0, 0] 0 2 =
      Some (Ok 2, fresh_marker\<lparr>eof_tail_calls := 1\<rparr>, ?d2, [1, 0x3f])" by code_simp
  have sound: "di_sound scripted_input scripted_rest (scripted_ok (\<lambda>_. False)) ?d" "scripted_rest (di_input ?d) = as_rest slow_source"
    by (simp_all add: di_sound_def decode_input_new_def scripted_ok_def scripted_rest_def usize_max_def)
  from async_matches_sync [OF marker_async.async_decode_bridge_axioms marker_bridge.decode_bridge_axioms marker_driven
      slow_source_ok(1) TrueI marker_fits marker_last_step sound run] run
  show ?thesis by (simp add: as_rest_def)
qed

section \<open>The output\<close>

definition slow_sink :: "u8 async_memory" where
  "slow_sink = \<lparr>am_delivered = [], am_buffer = [0], am_pending = 0, am_script = [Later, Accept]\<rparr>"

lemma slow_sink_ok [simp]: "am_ok (\<lambda>_. False) slow_sink" "am_sent slow_sink = []"
  by (simp_all add: slow_sink_def am_ok_def am_sent_def usize_max_def)

abbreviation u16be_poll where
  "u16be_poll \<equiv> aeo_poll_transcode (encode_transcoder u16be_codec u16be_eh) (async_memory_output 0) sample_env no_map"

text \<open>Room for one value at a time; the sink makes the second poll wait.\<close>

theorem async_encode_commits_prefix_witness:
  "\<exists>st. aeo_driven (encode_transcoder u16be_codec u16be_eh) (async_memory_output 0) sample_env no_map
      [0x1234, 0x5678] 0 2 (fresh_encoder () (), aeo_new slow_sink) 2 st \<and>
    am_sent (aeo_output (snd st)) = [0x12, 0x34, 0x56, 0x78]"
proof -
  let ?init = "fresh_encoder () ()" and ?s = "open_encoder () ()" and ?vs = "[0x1234, 0x5678] :: u16 list"
  let ?D = "aeo_driven (encode_transcoder u16be_codec u16be_eh) (async_memory_output 0) sample_env no_map
      ?vs 0 2 (?init, aeo_new slow_sink)"
  let ?d1 = "\<lparr>aeo_output = slow_sink\<lparr>am_buffer := [0x12, 0x34], am_pending := 2\<rparr>, aeo_required_spare = 2\<rparr>"
  let ?d2 = "\<lparr>aeo_output = slow_sink\<lparr>am_buffer := [0x12, 0x34], am_pending := 2, am_script := [Accept]\<rparr>,
    aeo_required_spare = 2\<rparr>"
  let ?d3 = "\<lparr>aeo_output = \<lparr>am_delivered = [0x12, 0x34], am_buffer = [0x56, 0x78], am_pending = 2, am_script = []\<rparr>,
    aeo_required_spare = 1\<rparr>"
  have p1: "u16be_poll ?vs (0 + 0) (2 - 0) (?init, aeo_new slow_sink) =
      (Ready (Ok (progress_need_output (NZ 1) 1 2)), ?s, ?d1)" by code_simp
  have p2: "u16be_poll ?vs (0 + 1) (2 - 1) (?s, ?d1) = (NotReady, ?s, ?d2)" by code_simp
  have p3: "u16be_poll ?vs (0 + 1) (2 - 1) (?s, ?d2) = (Ready (Ok (progress_complete 1 2)), ?s, ?d3)" by code_simp
  have "?D 1 (?s, ?d1)" using aeo_driven.step [OF aeo_driven.start _ p1] by (simp add: progress_defs)
  then have "?D 1 (?s, ?d2)" by (rule aeo_driven.waiting [OF _ _ p2]) simp
  from aeo_driven.step [OF this _ p3] have D: "?D 2 (?s, ?d3)" by (simp add: progress_defs eval_nat_numeral)
  have live: "any_state (ee_codec ?init) \<and> stream_phase (ee_phase ?init)" by (simp add: stream_phase_def any_state_def)
  have fits: "0 + 2 \<le> length ?vs" "length ?vs \<le> usize_max" by (simp_all add: usize_max_def)
  have "engine_encode_all u16be_codec u16be_emit strict_unencodable ((), ()) 0 ?vs
      = (Inr [0x12, 0x34, 0x56, 0x78], (), ())" by code_simp
  with async_encode_commits_prefix [OF u16be_polls.async_encode_bridge_axioms D slow_sink_ok(1) live fits]
  have "am_sent (aeo_output (snd (?s, ?d3))) = ([0x12, 0x34, 0x56, 0x78] :: u8 list)" by auto
  with D show ?thesis by blast
qed

text \<open>Two units are pending, and the sink takes them at the second poll.\<close>

theorem async_transcode_progress_witness:
  "\<exists>r s' d'. aeo_transcode_async (encode_transcoder u16be_codec u16be_eh) (async_memory_output 0) sample_env no_map
      [0x5678] 0 1 (open_encoder () (),
        \<lparr>aeo_output = slow_sink\<lparr>am_buffer := [0x12, 0x34], am_pending := 2\<rparr>, aeo_required_spare = 2\<rparr>) = Some (r, s', d') \<and>
    r = Ok (progress_complete 1 2) \<and> am_sent (aeo_output d') = [0x12, 0x34, 0x56, 0x78]"
proof -
  let ?s = "open_encoder () ()" and ?vs = "[0x5678] :: u16 list"
  let ?d = "\<lparr>aeo_output = slow_sink\<lparr>am_buffer := [0x12, 0x34], am_pending := 2\<rparr>, aeo_required_spare = 2\<rparr>"
  let ?d' = "\<lparr>aeo_output = \<lparr>am_delivered = [0x12, 0x34], am_buffer = [0x56, 0x78], am_pending = 2, am_script = []\<rparr>,
    aeo_required_spare = 1\<rparr>"
  have run: "aeo_transcode_async (encode_transcoder u16be_codec u16be_eh) (async_memory_output 0) sample_env no_map
      ?vs 0 1 (?s, ?d) = Some (Ok (progress_complete 1 2), ?s, ?d')" by code_simp
  have ok: "am_ok (\<lambda>_. False) (aeo_output ?d)" "0 < aeo_required_spare ?d" "aeo_required_spare ?d \<le> usize_max"
    by (simp_all add: slow_sink_def am_ok_def usize_max_def)
  have live: "any_state (ee_codec ?s) \<and> stream_phase (ee_phase ?s)" by (simp add: stream_phase_def any_state_def)
  have fits: "0 + 1 \<le> length ?vs" "length ?vs \<le> usize_max" "0 < (1 :: nat)" by (simp_all add: usize_max_def)
  have "engine_encode_all u16be_codec u16be_emit strict_unencodable ((), ()) 0 ?vs = (Inr [0x56, 0x78], (), ())"
    by code_simp
  with async_transcode_progress [where map_error = no_map, OF u16be_polls.async_encode_bridge_axioms ok live fits] run
  show ?thesis by (auto simp: progress_defs am_sent_def slow_sink_def)
qed

theorem async_stream_delivers_witness:
  "\<exists>d1 d2 d3 d4. aeo_reset_async marker_encoder (async_memory_output 0) sample_env no_map () (aeo_new slow_sink) = Some (Ok (), (), d1) \<and>
    aeo_driven marker_encoder (async_memory_output 0) sample_env no_map [7] 0 1 ((), d1) 1 ((), d2) \<and>
    aeo_finish_async marker_encoder (async_memory_output 0) sample_env no_map () d2 = Some (Ok (), (), d3) \<and>
    aeo_flush_async (async_memory_output 0) d3 = Some (Ok (), d4) \<and> am_delivered (aeo_output d4) = [0xa1, 7, 0xf1]"
proof -
  let ?d1 = "\<lparr>aeo_output = slow_sink\<lparr>am_buffer := [0xa1], am_pending := 1\<rparr>, aeo_required_spare = 1\<rparr>"
  let ?d2 = "\<lparr>aeo_output = \<lparr>am_delivered = [0xa1 :: u8], am_buffer = [7], am_pending = 1, am_script = []\<rparr>, aeo_required_spare = 1\<rparr>"
  let ?d3 = "\<lparr>aeo_output = \<lparr>am_delivered = [0xa1 :: u8, 7], am_buffer = [0xf1], am_pending = 1, am_script = []\<rparr>,
    aeo_required_spare = 1\<rparr>"
  let ?d4 = "\<lparr>aeo_output = \<lparr>am_delivered = [0xa1 :: u8, 7, 0xf1], am_buffer = [0xf1], am_pending = 0, am_script = []\<rparr>,
    aeo_required_spare = 1\<rparr>"
  let ?dw = "\<lparr>aeo_output = slow_sink\<lparr>am_buffer := [0xa1], am_pending := 1, am_script := [Accept]\<rparr>, aeo_required_spare = 1\<rparr>"
  let ?poll = "aeo_poll_transcode marker_encoder (async_memory_output 0) sample_env no_map [7]"
  have r: "aeo_reset_async marker_encoder (async_memory_output 0) sample_env no_map () (aeo_new slow_sink) = Some (Ok (), (), ?d1)"
    by code_simp
  have p1: "?poll (0 + 0) (1 - 0) ((), ?d1) = (NotReady, (), ?dw)" by code_simp
  have p2: "?poll (0 + 0) (1 - 0) ((), ?dw) = (Ready (Ok (progress_complete 1 1)), (), ?d2)" by code_simp
  have "aeo_driven marker_encoder (async_memory_output 0) sample_env no_map [7] 0 1 ((), ?d1) 0 ((), ?dw)"
    by (rule aeo_driven.waiting [OF aeo_driven.start _ p1]) simp
  from aeo_driven.step [OF this _ p2]
  have D: "aeo_driven marker_encoder (async_memory_output 0) sample_env no_map [7] 0 1 ((), ?d1) 1 ((), ?d2)"
    by (simp add: progress_defs)
  have f: "aeo_finish_async marker_encoder (async_memory_output 0) sample_env no_map () ?d2 = Some (Ok (), (), ?d3)" by code_simp
  have g: "aeo_flush_async (async_memory_output 0) ?d3 = Some (Ok (), ?d4)" by code_simp
  have fits: "0 + 1 \<le> length [7 :: u8]" "length [7 :: u8] \<le> usize_max" by (simp_all add: usize_max_def)
  from async_stream_delivers [OF marker_polls.async_lifecycle_bridge_axioms slow_sink_ok(1) TrueI fits r D f g] r D f g
  have "am_delivered (aeo_output ?d4) = [0xa1, 7, 0xf1]"
    by (auto simp: marker_mark_def marker_encode_all_def encode_reset_byte_def encode_finish_byte_def)
  with r D f g show ?thesis by blast
qed

end
