(* ===== verification/ConvertContract.thy ===== *)
theory ConvertContract
  imports ConvertEngine EncodeContract DecodeContract
begin

text \<open>
  What the convert engine computes. The specification \<open>convert_stream\<close> alternates turns of a
  decoder and of an encoder over a list of units, with at most one decoded value waiting for room;
  it has no slices, indices or cursors. The locale \<open>conversion\<close> states what the two halves
  promise, one turn at a time, so that it covers hooks that keep state of their own; inside it the
  engine's loop is shown to compute the specification, and the specification to be independent of
  how input and output are cut.
\<close>

section \<open>Specification\<close>

type_synonym ('cd, 'hd, 'v, 'i, 'de) decode_turns =
  "('cd, 'hd) decode_engine \<Rightarrow> bool \<Rightarrow> nat \<Rightarrow> 'i list \<Rightarrow> ('de decode_error, 'v, ('cd, 'hd) decode_engine) decode_turn"

type_synonym ('ce, 'he, 'v, 'o, 'ee) encode_turns =
  "('ce, 'he) encode_engine \<Rightarrow> nat \<Rightarrow> 'v \<Rightarrow> nat \<Rightarrow> (('ee, 'v) encode_error, 'o, ('ce, 'he) encode_engine) encode_turn"

text \<open>The value decoded at index \<open>i\<close>, if any, in the slot.\<close>

definition slot_of :: "nat \<Rightarrow> 'v option \<Rightarrow> 'v pending_value_slot" where
  "slot_of i v = \<lparr>slot_value = map_option (\<lambda>w. pv_new w i) v\<rparr>"

lemma slot_of_sel [simp]:
  "slot_value (slot_of i None) = None" "slot_value (slot_of i (Some v)) = Some (pv_new v i)"
  by (simp_all add: slot_of_def)

lemma drop_less: "xs \<noteq> [] \<Longrightarrow> 2 * (length xs - nz_get n) + 1 < 2 * length xs"
  by (cases xs; cases n) auto

text \<open>The units consumed, the units produced and the engine reached, with the status the stream
  stopped at. The waiting value goes first.\<close>

function convert_stream ::
  "nat \<Rightarrow> ('cd, 'hd, 'v, 'i, 'de) decode_turns \<Rightarrow> ('ce, 'he, 'v, 'o, 'ee) encode_turns \<Rightarrow> bool \<Rightarrow> nat \<Rightarrow>
   ('cd, 'hd, 'ce, 'he, 'v) convert_engine \<Rightarrow> 'i list \<Rightarrow> nat \<Rightarrow>
   (('de, 'ee, 'v) convert_error, transcode_status) res \<times> nat \<times> 'o list \<times> ('cd, 'hd, 'ce, 'he, 'v) convert_engine" where
  "convert_stream m dturn eturn eof i eng xs room =
    (case cv_slot eng of
       Some p \<Rightarrow>
         (case eturn (cv_encode_engine eng) (pv_input_index p) (pv_value p) room of
            TurnNeedOutput req \<Rightarrow> (Ok (NeedOutput req), 0, [], eng)
          | encode_turn.TurnReject x e \<Rightarrow> (Err (from_encode_error_with_value x (pv_value p)), 0, [],
              eng\<lparr>cv_encode_engine := e, cv_pending := slot_empty\<rparr>)
          | TurnWrite us e \<Rightarrow>
              (case convert_stream m dturn eturn eof i
                  (eng\<lparr>cv_encode_engine := e, cv_pending := slot_empty\<rparr>) xs (room - length us) of
                 (q, n, ws, eng') \<Rightarrow> (q, n, us @ ws, eng')))
     | None \<Rightarrow>
         if xs = [] then (Ok Complete, 0, [], eng)
         else if length xs < m \<and> \<not> eof then (Ok (NeedInput (NZ (m - 1))), 0, [], eng)
         else
           (case dturn (cv_decode_engine eng) eof i xs of
              TurnMore req d \<Rightarrow> (Ok (NeedInput req), 0, [], eng\<lparr>cv_decode_engine := d\<rparr>)
            | decode_turn.TurnReject x d \<Rightarrow> (Err (convert_of_decode x), 0, [], eng\<lparr>cv_decode_engine := d\<rparr>)
            | TurnTake n v d \<Rightarrow>
                (case convert_stream m dturn eturn eof (i + nz_get n)
                    (eng\<lparr>cv_decode_engine := d, cv_pending := slot_of i v\<rparr>) (drop (nz_get n) xs) room of
                   (q, k, us, eng') \<Rightarrow> (q, nz_get n + k, us, eng'))))"
  by pat_completeness auto
termination
  by (relation "measure (\<lambda>(m, f, g, eof, i, eng, xs, room).
      2 * length xs + (if cv_slot eng = None then 0 else 1))")
    (auto simp: slot_empty_def intro: le_less_trans [OF _ drop_less])

declare convert_stream.simps [simp del]

text \<open>A turn of the specification as a result of \<open>decode_one\<close> and of \<open>encode_one\<close>.\<close>

fun decode_answer ::
  "nat \<Rightarrow> ('de decode_error, 'v, 'd) decode_turn \<Rightarrow>
   ('de decode_error, decode_outcome \<times> 'v pending_value option) res \<times> 'd" where
  "decode_answer i (TurnMore req d) = (Ok (DecodeNeedInput req, None), d)"
| "decode_answer i (decode_turn.TurnReject x d) = (Err x, d)"
| "decode_answer i (TurnTake n None d) = (Ok (Skipped n, None), d)"
| "decode_answer i (TurnTake n (Some v) d) = (Ok (Emitted n nz_min, Some (pv_new v i)), d)"

definition encode_answer ::
  "'e \<Rightarrow> ('v, 'o) encode_attempt \<Rightarrow> (('ee, 'v) encode_error, 'o, 'e) encode_turn \<Rightarrow>
   (('ee, 'v) encode_error, encode_outcome) res \<times> 'e \<times> 'o list \<Rightarrow> bool" where
  "encode_answer e a t x \<longleftrightarrow>
    (case t of
       TurnNeedOutput req \<Rightarrow> x = (Ok (EncodeNeedOutput req), e, ea_output a)
     | encode_turn.TurnReject y e' \<Rightarrow> (\<exists>out. x = (Err y, e', out) \<and>
         length out = length (ea_output a) \<and>
         take (ea_output_index a) out = take (ea_output_index a) (ea_output a))
     | TurnWrite us e' \<Rightarrow> x = (Ok (Consumed (length us)), e',
         splice_at (ea_output a) (ea_output_index a) us))"

text \<open>A converter once a call has entered its stream.\<close>

abbreviation cv_opened :: "('cd, 'hd, 'ce, 'he, 'v) convert_engine \<Rightarrow> ('cd, 'hd, 'ce, 'he, 'v) convert_engine" where
  "cv_opened eng \<equiv> eng\<lparr>cv_lifecycle := (cv_lifecycle eng)\<lparr>guard_phase := Streaming\<rparr>\<rparr>"

section \<open>The contract\<close>

locale conversion =
  fixes K :: "('cd, 'hd, 'ce, 'he, 'v, 'i, 'o, 'de, 'x, 'y, 'ee) converter_traits"
    and dok :: "('cd, 'hd) decode_engine \<Rightarrow> bool"
    and dturn :: "('cd, 'hd, 'v, 'i, 'de) decode_turns"
    and eok :: "('ce, 'he) encode_engine \<Rightarrow> bool"
    and eturn :: "('ce, 'he, 'v, 'o, 'ee) encode_turns"
  assumes min_units: "0 < min_units_per_value (src_codec K)"
    and decode_law: "dok d \<Longrightarrow> xs = drop (dc_input_index ctx) input \<Longrightarrow> xs \<noteq> [] \<Longrightarrow>
      dc_available ctx = length xs \<Longrightarrow> \<not> (length xs < min_units_per_value (src_codec K) \<and> \<not> eof) \<Longrightarrow>
      decode_one (src_codec K) (src_hooks K) d input ctx eof pv_new =
        decode_answer (dc_input_index ctx) (dturn d eof (dc_input_index ctx) xs)"
    and decode_take: "dok d \<Longrightarrow> xs \<noteq> [] \<Longrightarrow> dturn d eof i xs = TurnTake n ov d' \<Longrightarrow>
      nz_get n \<le> length xs \<and> dok d'"
    and decode_more: "dok d \<Longrightarrow> dturn d eof i xs = TurnMore req d' \<Longrightarrow>
      \<not> eof \<and> length xs < nz_get req \<and> dok d'"
    and encode_law: "eok e \<Longrightarrow> ea_output_index a \<le> length (ea_output a) \<Longrightarrow>
      encode_answer e a (eturn e (ea_input_index a) (ea_value a) (ea_available_output a))
        (encode_one (tgt_codec K) (tgt_hooks K) e a)"
    and encode_write: "eok e \<Longrightarrow> eturn e i v room = TurnWrite us e' \<Longrightarrow>
      length us \<le> room \<and> length us \<le> max_encode_units_per_value (tgt_codec K) \<and> eok e'"
    and encode_need: "eok e \<Longrightarrow> eturn e i v room = TurnNeedOutput req \<Longrightarrow>
      room < nz_get req \<and> nz_get req \<le> max_encode_units_per_value (tgt_codec K)"
    and encode_need_suffices: "eok e \<Longrightarrow> eturn e i v room = TurnNeedOutput req \<Longrightarrow> nz_get req \<le> room2 \<Longrightarrow>
      eturn e i v room2 \<noteq> TurnNeedOutput req2"
begin

abbreviation ready :: "('cd, 'hd, 'ce, 'he, 'v) convert_engine \<Rightarrow> bool" where
  "ready eng \<equiv> dok (cv_decode_engine eng) \<and> eok (cv_encode_engine eng)"

abbreviation stream :: "bool \<Rightarrow> nat \<Rightarrow> ('cd, 'hd, 'ce, 'he, 'v) convert_engine \<Rightarrow> 'i list \<Rightarrow> nat \<Rightarrow>
    (('de, 'ee, 'v) convert_error, transcode_status) res \<times> nat \<times> 'o list \<times> ('cd, 'hd, 'ce, 'he, 'v) convert_engine" where
  "stream \<equiv> convert_stream (min_units_per_value (src_codec K)) dturn eturn"

text \<open>The ways a stream goes on.\<close>

lemma stream_cases:
  assumes "stream eof i eng xs room = (q, n, us, eng')" "ready eng"
  obtains
    (full) p req where "cv_slot eng = Some p"
      "eturn (cv_encode_engine eng) (pv_input_index p) (pv_value p) room = TurnNeedOutput req"
      "q = Ok (NeedOutput req)" "n = 0" "us = []" "eng' = eng"
  | (refused) p x e where "cv_slot eng = Some p"
      "eturn (cv_encode_engine eng) (pv_input_index p) (pv_value p) room = encode_turn.TurnReject x e"
      "q = Err (from_encode_error_with_value x (pv_value p))" "n = 0" "us = []"
      "eng' = eng\<lparr>cv_encode_engine := e, cv_pending := slot_empty\<rparr>"
  | (emit) p u e ws where "cv_slot eng = Some p"
      "eturn (cv_encode_engine eng) (pv_input_index p) (pv_value p) room = TurnWrite u e"
      "ready (eng\<lparr>cv_encode_engine := e, cv_pending := slot_empty\<rparr>)" "length u \<le> room"
      "length u \<le> max_encode_units_per_value (tgt_codec K)" "us = u @ ws"
      "stream eof i (eng\<lparr>cv_encode_engine := e, cv_pending := slot_empty\<rparr>) xs (room - length u) = (q, n, ws, eng')"
  | (ended) "cv_slot eng = None" "xs = []" "q = Ok Complete" "n = 0" "us = []" "eng' = eng"
  | (short) "cv_slot eng = None" "xs \<noteq> []" "\<not> eof" "length xs < min_units_per_value (src_codec K)"
      "q = Ok (NeedInput (NZ (min_units_per_value (src_codec K) - 1)))" "n = 0" "us = []" "eng' = eng"
  | (more) req d where "cv_slot eng = None" "xs \<noteq> []" "\<not> eof"
      "\<not> length xs < min_units_per_value (src_codec K)"
      "dturn (cv_decode_engine eng) eof i xs = TurnMore req d"
      "q = Ok (NeedInput req)" "n = 0" "us = []" "eng' = eng\<lparr>cv_decode_engine := d\<rparr>"
  | (reject) x d where "cv_slot eng = None" "xs \<noteq> []"
      "\<not> (length xs < min_units_per_value (src_codec K) \<and> \<not> eof)"
      "dturn (cv_decode_engine eng) eof i xs = decode_turn.TurnReject x d"
      "q = Err (convert_of_decode x)" "n = 0" "us = []" "eng' = eng\<lparr>cv_decode_engine := d\<rparr>"
  | (take) k v d l where "cv_slot eng = None" "xs \<noteq> []"
      "\<not> (length xs < min_units_per_value (src_codec K) \<and> \<not> eof)"
      "dturn (cv_decode_engine eng) eof i xs = TurnTake k v d" "nz_get k \<le> length xs"
      "ready (eng\<lparr>cv_decode_engine := d, cv_pending := slot_of i v\<rparr>)" "n = nz_get k + l"
      "stream eof (i + nz_get k) (eng\<lparr>cv_decode_engine := d, cv_pending := slot_of i v\<rparr>)
        (drop (nz_get k) xs) room = (q, l, us, eng')"
proof (cases "cv_slot eng")
  case (Some p)
  note eq = assms(1) [unfolded convert_stream.simps [of "min_units_per_value (src_codec K)" dturn eturn eof i eng xs room]]
  show ?thesis
  proof (cases "eturn (cv_encode_engine eng) (pv_input_index p) (pv_value p) room")
    case (TurnNeedOutput req)
    from eq Some TurnNeedOutput show ?thesis by (intro full [OF Some TurnNeedOutput]) simp_all
  next
    case (TurnReject x e)
    from eq Some TurnReject show ?thesis by (intro refused [OF Some TurnReject]) simp_all
  next
    case (TurnWrite u e)
    obtain q' n' ws e' where rec: "stream eof i (eng\<lparr>cv_encode_engine := e, cv_pending := slot_empty\<rparr>) xs (room - length u)
        = (q', n', ws, e')" by (metis prod_cases4)
    from eq Some TurnWrite rec have "q' = q" "n' = n" "us = u @ ws" "e' = eng'" by simp_all
    with rec encode_write [OF _ TurnWrite] assms(2) show ?thesis by (intro emit [OF Some TurnWrite, of ws]) simp_all
  qed
next
  case None
  note eq = assms(1) [unfolded convert_stream.simps [of "min_units_per_value (src_codec K)" dturn eturn eof i eng xs room]]
  show ?thesis
  proof (cases "xs = []")
    case True
    from eq None True show ?thesis by (intro ended [OF None True]) simp_all
  next
    case ne: False
    show ?thesis
    proof (cases "length xs < min_units_per_value (src_codec K) \<and> \<not> eof")
      case True
      from eq None True ne show ?thesis by (intro short [OF None ne]) simp_all
    next
      case long: False
      show ?thesis
      proof (cases "dturn (cv_decode_engine eng) eof i xs")
        case (TurnMore req d)
        have "\<not> eof" using decode_more [OF _ TurnMore] assms(2) by simp
        with eq None ne long TurnMore show ?thesis by (intro more [OF None ne _ _ TurnMore]) auto
      next
        case (TurnReject x d)
        from eq None ne long TurnReject show ?thesis by (intro reject [OF None ne long TurnReject]) auto
      next
        case (TurnTake k v d)
        obtain q' l u e' where rec: "stream eof (i + nz_get k) (eng\<lparr>cv_decode_engine := d, cv_pending := slot_of i v\<rparr>)
            (drop (nz_get k) xs) room = (q', l, u, e')" by (metis prod_cases4)
        have "q' = q \<and> nz_get k + l = n \<and> u = us \<and> e' = eng'"
          using eq None ne long TurnTake rec by auto
        with rec decode_take [OF _ ne TurnTake] assms(2) show ?thesis by (intro take [OF None ne long TurnTake, of l]) auto
      qed
    qed
  qed
qed

text \<open>What is left to do, which every turn makes smaller.\<close>

abbreviation todo :: "('cd, 'hd, 'ce, 'he, 'v) convert_engine \<Rightarrow> 'i list \<Rightarrow> nat" where
  "todo eng xs \<equiv> 2 * length xs + (if cv_slot eng = None then 0 else 1)"

lemma todo_emit: "cv_slot eng \<noteq> None \<Longrightarrow> todo (eng\<lparr>cv_encode_engine := e, cv_pending := slot_empty\<rparr>) xs < todo eng xs"
  by (simp add: slot_empty_def)

lemma todo_take:
  "cv_slot eng = None \<Longrightarrow> xs \<noteq> [] \<Longrightarrow>
    todo (eng\<lparr>cv_decode_engine := d, cv_pending := slot_of i v\<rparr>) (drop (nz_get k) xs) < todo eng xs"
  by (auto intro: le_less_trans [OF _ drop_less])

lemma stream_bounds:
  assumes "ready eng" "stream eof i eng xs room = (q, n, us, eng')"
  shows "n \<le> length xs \<and> length us \<le> room \<and> q \<noteq> Panic \<and> cv_lifecycle eng' = cv_lifecycle eng \<and>
    (q = Ok Complete \<longrightarrow> n = length xs \<and> cv_slot eng' = None) \<and>
    (\<forall>req. q = Ok (NeedInput req) \<longrightarrow> \<not> eof \<and> cv_slot eng' = None \<and> length xs - n < nz_get req) \<and>
    (\<forall>req. q = Ok (NeedOutput req) \<longrightarrow> cv_slot eng' \<noteq> None \<and> room - length us < nz_get req \<and>
      nz_get req \<le> max_encode_units_per_value (tgt_codec K)) \<and>
    ((\<exists>st. q = Ok st) \<longrightarrow> ready eng')"
  using assms
proof (induction "todo eng xs" arbitrary: i eng xs room q n us rule: less_induct)
  case less
  from less.prems(2,1) show ?case
  proof (cases rule: stream_cases)
    case (full p req)
    with encode_need [OF _ full(2)] less.prems(1) show ?thesis by simp
  next
    case (emit p u e ws)
    have "todo (eng\<lparr>cv_encode_engine := e, cv_pending := slot_empty\<rparr>) xs < todo eng xs"
      using emit(1) by (intro todo_emit) simp
    from less.hyps [OF this emit(3,7)] emit(4,6) show ?thesis by auto
  next
    case short
    with min_units show ?thesis using less.prems(1) by simp
  next
    case (more req d)
    with decode_more [OF _ more(5)] less.prems(1) show ?thesis by simp
  next
    case (take k v d l)
    from less.hyps [OF todo_take [OF take(1,2)] take(6,8)] take(5,7) show ?thesis by auto
  qed (use less.prems in \<open>auto simp: slot_empty_def\<close>)
qed

text \<open>A stop for room is a value that waits, and asks for what it lacks; a call with that much room,
  or with nothing waiting, gets past the waiting value before it stops for room again.\<close>

definition unblocked :: "('cd, 'hd, 'ce, 'he, 'v) convert_engine \<Rightarrow> nat \<Rightarrow> bool" where
  "unblocked eng room \<longleftrightarrow> (case cv_slot eng of None \<Rightarrow> True
    | Some p \<Rightarrow> \<forall>req. eturn (cv_encode_engine eng) (pv_input_index p) (pv_value p) room \<noteq> TurnNeedOutput req)"

lemma stream_need_unblocks:
  assumes "ready eng" "stream eof i eng xs room = (Ok (NeedOutput req), n, us, eng')" "nz_get req \<le> room2"
  shows "unblocked eng' room2"
  using assms(1,2)
proof (induction "todo eng xs" arbitrary: i eng xs room n us rule: less_induct)
  case less
  from less.prems(2,1) show ?case
  proof (cases rule: stream_cases)
    case (full p req')
    with encode_need_suffices [OF _ full(2)] less.prems(1) assms(3) show ?thesis by (simp add: unblocked_def)
  next
    case (emit p u e ws)
    have "todo (eng\<lparr>cv_encode_engine := e, cv_pending := slot_empty\<rparr>) xs < todo eng xs"
      using emit(1) by (intro todo_emit) simp
    from less.hyps [OF this emit(3,7)] show ?thesis .
  next
    case (take k v d l)
    from less.hyps [OF todo_take [OF take(1,2)] take(6,8)] show ?thesis .
  qed simp_all
qed

lemma stream_unblocked_progress:
  assumes "ready eng" "stream eof i eng xs room = (Ok (NeedOutput req), n, us, eng')" "unblocked eng room"
  shows "0 < n"
proof -
  have taken: "0 < n" if "stream eof i e xs r = (Ok (NeedOutput req), n, vs, e')" "ready e" "cv_slot e = None" for e r vs e'
    using that by (cases rule: stream_cases) auto
  from assms(2,1) show ?thesis
  proof (cases rule: stream_cases)
    case (full p req')
    with assms(3) show ?thesis by (simp add: unblocked_def)
  next
    case (emit p u e ws)
    from taken [OF emit(7,3)] show ?thesis by (simp add: slot_empty_def)
  next
    case (take k v d l)
    then show ?thesis by simp
  qed simp_all
qed

section \<open>The engine computes the specification\<close>

text \<open>The waiting value at the cursor of a call.\<close>

lemma drain_refines:
  assumes "eok (cv_encode_engine eng)" "cursors_ok (cs_state s)" "cv_slot eng = Some p"
    and "t = eturn (cv_encode_engine eng) (pv_input_index p) (pv_value p) (cs_available_output s)"
  shows "case t of
      TurnNeedOutput req \<Rightarrow> cv_drain_pending K eng s = (Ok (Some (ts_need_output_progress (cs_state s) req)), eng, s)
    | encode_turn.TurnReject x e \<Rightarrow> \<exists>out. cv_drain_pending K eng s = (Err (from_encode_error_with_value x (pv_value p)),
        eng\<lparr>cv_encode_engine := e, cv_pending := slot_empty\<rparr>, cs_set_output s out) \<and>
        length out = length (ts_output (cs_state s)) \<and>
        take (ts_output_cursor (cs_state s)) out = take (ts_output_cursor (cs_state s)) (ts_output (cs_state s))
    | TurnWrite us e \<Rightarrow> cv_drain_pending K eng s = (Ok None, eng\<lparr>cv_encode_engine := e, cv_pending := slot_empty\<rparr>,
        s\<lparr>cs_state := ts_advance_output (ts_set_output (cs_state s)
          (splice_at (ts_output (cs_state s)) (ts_output_cursor (cs_state s)) us)) (length us)\<rparr>)"
proof -
  let ?a = "ea_new (pv_value p) (pv_input_index p) (ts_output (cs_state s)) (ts_output_cursor (cs_state s))"
  let ?eng = "eng\<lparr>cv_pending := slot_empty\<rparr>"
  have a: "ea_output_index ?a \<le> length (ea_output ?a)" "ea_input_index ?a = pv_input_index p" "ea_value ?a = pv_value p"
    "ea_available_output ?a = cs_available_output s" "ea_output ?a = ts_output (cs_state s)"
    "ea_output_index ?a = ts_output_cursor (cs_state s)"
    using assms(2) by (simp_all add: ea_new_def ea_available_output_def cs_available_output_def ts_available_output_def cursors_ok_def)
  have slot: "(cv_pending eng)\<lparr>slot_value := None\<rparr> = slot_empty" "slot_put slot_empty p = cv_pending eng"
    using assms(3) by (simp_all add: slot_empty_def slot_put_def)
  have drain: "cv_drain_pending K eng s = cv_encode_pending K p ?eng s"
    using assms(3) slot(1) by (simp add: cv_drain_pending_def slot_take_def)
  note one = encode_law [OF assms(1) a(1), unfolded a encode_answer_def, folded assms(4)]
  have restored: "?eng\<lparr>cv_encode_engine := cv_encode_engine eng, cv_pending := cv_pending eng\<rparr> = eng" by simp
  have same: "cs_set_output s (ts_output (cs_state s)) = s" by (simp add: cs_set_output_def ts_set_output_def)
  show ?thesis
  proof (cases t)
    case (TurnNeedOutput req)
    with encode_need [OF assms(1) assms(4) [symmetric, unfolded TurnNeedOutput]] one drain slot(2) restored same
    show ?thesis by (simp add: cv_encode_pending_def Let_def)
  next
    case (TurnReject x e)
    with one obtain out where "encode_one (tgt_codec K) (tgt_hooks K) (cv_encode_engine eng) ?a = (Err x, e, out)"
      "length out = length (ts_output (cs_state s))"
      "take (ts_output_cursor (cs_state s)) out = take (ts_output_cursor (cs_state s)) (ts_output (cs_state s))" by auto
    with TurnReject drain show ?thesis by (auto simp: cv_encode_pending_def Let_def)
  next
    case (TurnWrite us e)
    from encode_write [OF assms(1) assms(4) [symmetric, unfolded TurnWrite]] have fits: "length us \<le> cs_available_output s" by simp
    then have "length (splice_at (ts_output (cs_state s)) (ts_output_cursor (cs_state s)) us) = length (ts_output (cs_state s))"
      using assms(2) by (intro length_splice_at)
        (simp add: cs_available_output_def ts_available_output_def saturating_sub_def cursors_ok_def le_diff_conv2 add.commute)
    with TurnWrite one drain fits show ?thesis
      by (simp add: cv_encode_pending_def Let_def cs_defs ts_defs)
  qed
qed

text \<open>A turn of the loop.\<close>

lemma convert_next_refines:
  assumes "dok (cv_decode_engine eng)" "cursors_ok (cs_state s)" "cv_slot eng = None"
    and "xs = drop (ts_input_cursor (cs_state s)) (ts_input (cs_state s))" "xs \<noteq> []"
    and "\<not> (length xs < min_units_per_value (src_codec K) \<and> \<not> eof)"
  shows "cv_convert_next K eof eng s =
    (case dturn (cv_decode_engine eng) eof (ts_input_cursor (cs_state s)) xs of
       TurnMore req d \<Rightarrow> (Ok (Some (ts_need_input_progress (cs_state s) req)), eng\<lparr>cv_decode_engine := d\<rparr>, s)
     | decode_turn.TurnReject x d \<Rightarrow> (Err (convert_of_decode x), eng\<lparr>cv_decode_engine := d\<rparr>, s)
     | TurnTake n v d \<Rightarrow>
         cv_drain_pending K (eng\<lparr>cv_decode_engine := d, cv_pending := slot_of (ts_input_cursor (cs_state s)) v\<rparr>)
           (s\<lparr>cs_state := ts_advance_input (cs_state s) (nz_get n)\<rparr>))"
proof -
  let ?i = "ts_input_cursor (cs_state s)" and ?ctx = "cursor_context (cs_state s)"
  have av: "dc_available ?ctx = length xs" "cs_available_input s = length xs"
    using assms(4) by (simp_all add: cs_defs ts_defs)
  have one: "decode_one (src_codec K) (src_hooks K) (cv_decode_engine eng) (ts_input (cs_state s)) ?ctx eof pv_new =
      decode_answer ?i (dturn (cv_decode_engine eng) eof ?i xs)"
    using decode_law [OF assms(1) _ assms(5) av(1) assms(6), where input = "ts_input (cs_state s)"] assms(4) by simp
  have empty: "cv_pending eng = slot_of ?i None" "slot_put (cv_pending eng) p = \<lparr>slot_value = Some p\<rparr>" for p
    using assms(3) by (simp_all add: slot_of_def slot_put_def)
  show ?thesis
  proof (cases "dturn (cv_decode_engine eng) eof ?i xs")
    case (TurnTake n v d)
    from decode_take [OF assms(1,5) TurnTake] have "nz_get n \<le> cs_available_input s" using av by simp
    moreover have "eng\<lparr>cv_decode_engine := d, cv_pending := slot_of ?i None\<rparr> = eng\<lparr>cv_decode_engine := d\<rparr>"
      using empty(1) by (cases eng) simp
    ultimately show ?thesis using one TurnTake empty(2)
      by (cases v) (simp_all add: cv_convert_next_def cs_decode_context_ok [OF assms(2)] cs_advance_input_def slot_of_def)
  qed (use one in \<open>simp_all add: cv_convert_next_def cs_decode_context_ok [OF assms(2)]\<close>)
qed

definition convert_progress :: "('i, 'o) convert_state \<Rightarrow> nat \<Rightarrow> nat \<Rightarrow> transcode_status \<Rightarrow> transcode_progress" where
  "convert_progress s n k st = progress_new st (ts_input_cursor (cs_state s) + n - ts_input_start (cs_state s))
    (ts_output_cursor (cs_state s) + k - ts_output_start (cs_state s))"

text \<open>The loop behind a drained slot, from any state of the call.\<close>

definition drained_loop ::
  "bool \<Rightarrow> nonzero \<Rightarrow> ('cd, 'hd, 'ce, 'he, 'v) convert_engine \<Rightarrow> ('i, 'o) convert_state \<Rightarrow>
   (('de, 'ee, 'v) convert_error, transcode_progress) res \<times> ('cd, 'hd, 'ce, 'he, 'v) convert_engine \<times> ('i, 'o) convert_state" where
  "drained_loop eof m eng s = and_then (cv_drain_pending K eng s) (\<lambda>progress (eng, s).
    case progress of Some p \<Rightarrow> (Ok p, eng, s) | None \<Rightarrow> cv_transcode_loop K eof m eng s)"

lemma drained_loop_empty: "cv_slot eng = None \<Longrightarrow> drained_loop eof m eng s = cv_transcode_loop K eof m eng s"
  by (cases "cv_pending eng"; cases eng) (simp add: drained_loop_def cv_drain_pending_def slot_take_def)

lemma loop_drained:
  "(case cv_drain_pending K eng s of
      (Ok None, eng', s') \<Rightarrow> cv_transcode_loop K eof m eng' s'
    | (Ok (Some p), eng', s') \<Rightarrow> (Ok p, eng', s')
    | (Err e, eng', s') \<Rightarrow> (Err e, eng', s')
    | (Panic, eng', s') \<Rightarrow> (Panic, eng', s')) = drained_loop eof m eng s"
  by (auto simp: drained_loop_def and_then_case split: prod.splits res.splits option.splits)

lemma drained_loop_refines:
  assumes "ready eng" "cursors_ok (cs_state s)" "nz_get m = min_units_per_value (src_codec K)"
    and "stream eof (ts_input_cursor (cs_state s)) eng
      (drop (ts_input_cursor (cs_state s)) (ts_input (cs_state s))) (cs_available_output s) = (q, n, us, eng1)"
    and "drained_loop eof m eng s = (r, eng', s')"
  shows "r = map_ok (convert_progress s n (length us)) q \<and> eng' = eng1 \<and>
    length (ts_output (cs_state s')) = length (ts_output (cs_state s)) \<and>
    take (ts_output_cursor (cs_state s) + length us) (ts_output (cs_state s')) =
      take (ts_output_cursor (cs_state s)) (ts_output (cs_state s)) @ us \<and>
    (\<forall>x. q = Ok x \<longrightarrow> ts_output (cs_state s') =
      splice_at (ts_output (cs_state s)) (ts_output_cursor (cs_state s)) us)"
  using assms
proof (induction "todo eng (drop (ts_input_cursor (cs_state s)) (ts_input (cs_state s)))"
    arbitrary: eng s q n us rule: less_induct)
  case less
  let ?i = "ts_input_cursor (cs_state s)" and ?j = "ts_output_cursor (cs_state s)"
  let ?out = "ts_output (cs_state s)" and ?xs = "drop ?i (ts_input (cs_state s))"
  have j: "?j \<le> length ?out" "?i \<le> length (ts_input (cs_state s))" using less.prems(2) by (simp_all add: cursors_ok_def)
  have av: "cs_available_output s = length ?out - ?j" "cs_available_input s = length ?xs"
    by (simp_all add: cs_defs ts_defs)
  have input: "cs_has_input s \<longleftrightarrow> ?xs \<noteq> []" by (auto simp: cs_defs ts_defs)
  have m: "m = NZ (min_units_per_value (src_codec K) - 1)" using less.prems(3) by (cases m) auto
  note unfold = cv_transcode_loop.simps [of K eof m eng s]
  from less.prems(4,1) show ?case
  proof (cases rule: stream_cases)
    case (full p req)
    from drain_refines [OF _ less.prems(2) full(1) full(2) [symmetric]] less.prems(1,5) full j show ?thesis
      by (auto simp: drained_loop_def convert_progress_def ts_defs progress_defs)
  next
    case (refused p x e)
    from drain_refines [OF _ less.prems(2) refused(1) refused(2) [symmetric]] less.prems(1) obtain out where
      "cv_drain_pending K eng s = (Err (from_encode_error_with_value x (pv_value p)),
        eng\<lparr>cv_encode_engine := e, cv_pending := slot_empty\<rparr>, cs_set_output s out)"
      "length out = length ?out" "take ?j out = take ?j ?out" by auto
    with less.prems(5) refused show ?thesis by (auto simp: drained_loop_def cs_set_output_def ts_set_output_def)
  next
    case (emit p u e ws)
    let ?eng = "eng\<lparr>cv_encode_engine := e, cv_pending := slot_empty\<rparr>"
    define s1 where "s1 = s\<lparr>cs_state := ts_advance_output (ts_set_output (cs_state s) (splice_at ?out ?j u)) (length u)\<rparr>"
    have drain: "cv_drain_pending K eng s = (Ok None, ?eng, s1)"
      using drain_refines [OF _ less.prems(2) emit(1) emit(2) [symmetric]] less.prems(1) by (simp add: s1_def)
    have empty: "cv_slot ?eng = None" by (simp add: slot_empty_def)
    have fits: "?j + length u \<le> length ?out" using emit(4) av j by simp
    have s1: "ts_input (cs_state s1) = ts_input (cs_state s)" "ts_input_cursor (cs_state s1) = ?i"
      "ts_output_cursor (cs_state s1) = ?j + length u" "ts_output (cs_state s1) = splice_at ?out ?j u"
      "ts_input_start (cs_state s1) = ts_input_start (cs_state s)" "ts_output_start (cs_state s1) = ts_output_start (cs_state s)"
      by (simp_all add: s1_def ts_defs)
    have "cursors_ok (cs_state s1)" "cs_available_output s1 = cs_available_output s - length u"
      using less.prems(2) s1 fits by (simp_all add: cursors_ok_def cs_defs ts_defs)
    moreover have "drained_loop eof m ?eng s1 = (r, eng', s')"
      using less.prems(5) drain drained_loop_empty [OF empty] by (simp add: drained_loop_def)
    moreover have "todo ?eng (drop (ts_input_cursor (cs_state s1)) (ts_input (cs_state s1))) < todo eng ?xs"
      unfolding s1 using emit(1) by (intro todo_emit) simp
    ultimately have IH: "r = map_ok (convert_progress s1 n (length ws)) q \<and> eng' = eng1 \<and>
        length (ts_output (cs_state s')) = length ?out \<and>
        take (?j + length u + length ws) (ts_output (cs_state s')) = take (?j + length u) (splice_at ?out ?j u) @ ws \<and>
        (\<forall>x. q = Ok x \<longrightarrow> ts_output (cs_state s') = splice_at (splice_at ?out ?j u) (?j + length u) ws)"
      using less.hyps [of s1 ?eng q n ws] emit(3,7) less.prems(3) s1 fits by simp
    have "convert_progress s1 n (length ws) = convert_progress s n (length us)"
      using s1 emit(6) by (simp add: convert_progress_def fun_eq_iff ac_simps)
    with IH emit(6) fits j show ?thesis by (simp add: splice_at_append splice_at_def ac_simps)
  next
    case ended
    with less.prems(5) drained_loop_empty [OF ended(1)] unfold input j show ?thesis
      by (auto simp: convert_progress_def ts_defs progress_defs)
  next
    case short
    with less.prems(5) drained_loop_empty [OF short(1)] unfold input av m j show ?thesis
      by (auto simp: cv_step_def convert_progress_def ts_defs progress_defs)
  next
    case (more req d)
    with convert_next_refines [OF _ less.prems(2) more(1) refl more(2), of eof] less.prems(1,3,5)
      drained_loop_empty [OF more(1)] unfold input av j show ?thesis
      by (auto simp: cv_step_def convert_progress_def ts_defs progress_defs)
  next
    case (reject x d)
    with convert_next_refines [OF _ less.prems(2) reject(1) refl reject(2,3)] less.prems(1,3,5)
      drained_loop_empty [OF reject(1)] unfold input av j show ?thesis
      by (auto simp: cv_step_def)
  next
    case (take k v d l)
    let ?eng = "eng\<lparr>cv_decode_engine := d, cv_pending := slot_of ?i v\<rparr>"
    define s1 where "s1 = s\<lparr>cs_state := ts_advance_input (cs_state s) (nz_get k)\<rparr>"
    have s1: "ts_input (cs_state s1) = ts_input (cs_state s)" "ts_input_cursor (cs_state s1) = ?i + nz_get k"
      "ts_output_cursor (cs_state s1) = ?j" "ts_output (cs_state s1) = ?out"
      "ts_input_start (cs_state s1) = ts_input_start (cs_state s)" "ts_output_start (cs_state s1) = ts_output_start (cs_state s)"
      by (simp_all add: s1_def ts_defs)
    have step: "cv_step K eof m eng s = cv_drain_pending K ?eng s1"
      using convert_next_refines [OF _ less.prems(2) take(1) refl take(2,3)] less.prems(1,3) av take(3,4)
      by (auto simp: cv_step_def s1_def)
    have "cursors_ok (cs_state s1)" "cs_available_output s1 = cs_available_output s"
      using less.prems(2) s1 take(5) by (auto simp: cursors_ok_def cs_defs ts_defs)
    moreover have "drained_loop eof m ?eng s1 = (r, eng', s')"
      using less.prems(5) drained_loop_empty [OF take(1)] unfold step input take(2) loop_drained [where eng = ?eng and s = s1] by simp
    moreover have dr: "drop (ts_input_cursor (cs_state s1)) (ts_input (cs_state s1)) = drop (nz_get k) ?xs"
      by (simp add: s1 add.commute)
    moreover have "todo ?eng (drop (nz_get k) ?xs) < todo eng ?xs" by (rule todo_take [OF take(1,2)])
    ultimately have IH: "r = map_ok (convert_progress s1 l (length us)) q \<and> eng' = eng1 \<and>
        length (ts_output (cs_state s')) = length ?out \<and> take (?j + length us) (ts_output (cs_state s')) = take ?j ?out @ us \<and>
        (\<forall>x. q = Ok x \<longrightarrow> ts_output (cs_state s') = splice_at ?out ?j us)"
      using less.hyps [of s1 ?eng q l us] take(6,8) less.prems(3) s1 by simp
    have "convert_progress s1 l (length us) = convert_progress s n (length us)"
      using s1 take(7) by (simp add: convert_progress_def fun_eq_iff ac_simps)
    with IH show ?thesis by simp
  qed
qed

text \<open>A whole call on an open stream.\<close>

lemma call_refines:
  assumes "ready eng" "stream_phase (cv_phase eng)" "i \<le> length input" "j \<le> length out"
    and spec: "stream eof i (cv_opened eng) (drop i input) (length out - j) = (q, n, us, eng1)"
    and call: "cv_transcode_with_eof K eng input i out j eof = (r, eng', out')"
  shows "r = map_ok (\<lambda>st. progress_new st n (length us)) q \<and> eng' = eng1 \<and> cv_phase eng' = Streaming \<and>
    length out' = length out \<and> take (j + length us) out' = take j out @ us \<and>
    (\<forall>x. q = Ok x \<longrightarrow> out' = splice_at out j us)"
proof -
  let ?s = "cs_new input i out j" and ?m = "NZ (min_units_per_value (src_codec K) - 1)"
  obtain r1 e1 s1 where loop: "drained_loop eof ?m (cv_opened eng) ?s = (r1, e1, s1)" by (metis prod_cases3)
  have guard: "on_transcode (cv_lifecycle eng) = (Ok (), (cv_lifecycle eng)\<lparr>guard_phase := Streaming\<rparr>)"
    using assms(2) by (simp add: on_transcode_Ok)
  have idx: "ensure_transcode_indices (length input) i (length out) j = Ok ()"
    using assms(3,4) by (simp add: check_simps)
  have m: "nz_get ?m = min_units_per_value (src_codec K)" using min_units by simp
  have res: "r = r1" "eng' = e1" "out' = ts_output (cs_state s1)"
    using call loop by (simp_all add: cv_transcode_with_eof_def guard idx nz_expect_pos [OF min_units] drained_loop_def cong: option.case_cong)
  have s: "cursors_ok (cs_state ?s)" "ts_input_cursor (cs_state ?s) = i" "ts_input (cs_state ?s) = input"
    "ts_output_cursor (cs_state ?s) = j" "ts_output (cs_state ?s) = out" "cs_available_output ?s = length out - j"
    using assms(3,4) by (simp_all add: cs_defs ts_defs cursors_ok_def)
  have rep: "convert_progress ?s n k st = progress_new st n k" for k st
    by (simp add: convert_progress_def cs_defs ts_defs)
  have good: "ready (cv_opened eng)" using assms(1) by simp
  from stream_bounds [OF good spec] have "cv_phase eng1 = Streaming" by simp
  with drained_loop_refines [OF good s(1) m _ loop, of q n us eng1] spec s res show ?thesis
    by (simp add: rep [abs_def])
qed

lemma stream_emit:
  "cv_slot eng = Some p \<Longrightarrow> eturn (cv_encode_engine eng) (pv_input_index p) (pv_value p) room = TurnWrite u e \<Longrightarrow>
    stream eof i (eng\<lparr>cv_encode_engine := e, cv_pending := slot_empty\<rparr>) xs (room - length u) = (q, n, ws, eng') \<Longrightarrow>
    stream eof i eng xs room = (q, n, u @ ws, eng')"
  by (subst convert_stream.simps) simp

lemma stream_take:
  "cv_slot eng = None \<Longrightarrow> xs \<noteq> [] \<Longrightarrow> \<not> (length xs < min_units_per_value (src_codec K) \<and> \<not> eof) \<Longrightarrow>
    dturn (cv_decode_engine eng) eof i xs = TurnTake k v d \<Longrightarrow>
    stream eof (i + nz_get k) (eng\<lparr>cv_decode_engine := d, cv_pending := slot_of i v\<rparr>) (drop (nz_get k) xs) room
      = (q, n, us, eng') \<Longrightarrow>
    stream eof i eng xs room = (q, nz_get k + n, us, eng')"
  by (subst convert_stream.simps) auto

lemma stream_reject:
  "cv_slot eng = None \<Longrightarrow> xs \<noteq> [] \<Longrightarrow> \<not> (length xs < min_units_per_value (src_codec K) \<and> \<not> eof) \<Longrightarrow>
    dturn (cv_decode_engine eng) eof i xs = decode_turn.TurnReject x d \<Longrightarrow>
    stream eof i eng xs room = (Err (convert_of_decode x), 0, [], eng\<lparr>cv_decode_engine := d\<rparr>)"
  by (subst convert_stream.simps) auto

lemma stream_refused:
  "cv_slot eng = Some p \<Longrightarrow>
    eturn (cv_encode_engine eng) (pv_input_index p) (pv_value p) room = encode_turn.TurnReject x e \<Longrightarrow>
    stream eof i eng xs room = (Err (from_encode_error_with_value x (pv_value p)), 0, [],
      eng\<lparr>cv_encode_engine := e, cv_pending := slot_empty\<rparr>)"
  by (subst convert_stream.simps) simp

end

section \<open>Incremental conversion\<close>

text \<open>The decoder's verdict does not change when more input follows, asking for more input changes
  nothing, and a value that fits, or cannot be encoded, is dealt with the same way when there is more room.\<close>

locale incremental_conversion = conversion +
  assumes take_final: "dok d \<Longrightarrow> min_units_per_value (src_codec K) \<le> length xs \<Longrightarrow>
      dturn d False i xs = TurnTake n ov d' \<Longrightarrow> dturn d eof i (xs @ ys) = TurnTake n ov d'"
    and reject_final: "dok d \<Longrightarrow> min_units_per_value (src_codec K) \<le> length xs \<Longrightarrow>
      dturn d False i xs = decode_turn.TurnReject x d' \<Longrightarrow> dturn d eof i (xs @ ys) = decode_turn.TurnReject x d'"
    and more_keeps: "dok d \<Longrightarrow> dturn d False i xs = TurnMore req d' \<Longrightarrow> d' = d"
    and write_more_room: "eok e \<Longrightarrow> eturn e i v room = TurnWrite us e' \<Longrightarrow> room \<le> room2 \<Longrightarrow>
      eturn e i v room2 = TurnWrite us e'"
    and refuse_more_room: "eok e \<Longrightarrow> eturn e i v room = encode_turn.TurnReject refusal e' \<Longrightarrow> room \<le> room2 \<Longrightarrow>
      eturn e i v room2 = encode_turn.TurnReject refusal e'"
begin

text \<open>Stopping and going on later, with what is left of the input, possibly more of it, and a window
  at least as large as what was left of the room, is the same as not stopping.\<close>

lemma stream_resume:
  assumes "ready eng" "stream eof1 i eng xs room = (Ok st, n, us, eng1)" "eof1 \<Longrightarrow> eof \<and> ys = []"
    and "stream eof (i + n) eng1 (drop n xs @ ys) room2 = (q, n2, us2, eng2)"
    and "room \<le> length us + room2"
  shows "stream eof i eng (xs @ ys) (length us + room2) = (q, n + n2, us @ us2, eng2)"
  using assms(1,2,4,5)
proof (induction "todo eng xs" arbitrary: i eng xs room n us rule: less_induct)
  case less
  from less.prems(2,1) show ?case
  proof (cases rule: stream_cases)
    case (emit p u e ws)
    have "todo (eng\<lparr>cv_encode_engine := e, cv_pending := slot_empty\<rparr>) xs < todo eng xs"
      using emit(1) by (intro todo_emit) simp
    from less.hyps [OF this emit(3,7)] less.prems(3,4) emit(4,6) have
      "stream eof i (eng\<lparr>cv_encode_engine := e, cv_pending := slot_empty\<rparr>) (xs @ ys) (length ws + room2)
        = (q, n + n2, ws @ us2, eng2)" by simp
    moreover have "eturn (cv_encode_engine eng) (pv_input_index p) (pv_value p) (length us + room2) = TurnWrite u e"
      using write_more_room [OF _ emit(2) less.prems(4)] less.prems(1) by simp
    ultimately show ?thesis using stream_emit [OF emit(1)] emit(6) by simp
  next
    case (more req d)
    then have "eng1 = eng" using more_keeps [of "cv_decode_engine eng" i xs req d] less.prems(1) by (cases eng) simp
    with more less.prems(3) show ?thesis by simp
  next
    case (take k v d l)
    have "stream eof (i + nz_get k) (eng\<lparr>cv_decode_engine := d, cv_pending := slot_of i v\<rparr>) (drop (nz_get k) xs @ ys)
        (length us + room2) = (q, l + n2, us @ us2, eng2)"
      using less.hyps [OF todo_take [OF take(1,2)] take(6,8) _ less.prems(4)] less.prems(3) take(7)
      by (simp add: ac_simps)
    moreover have "dturn (cv_decode_engine eng) eof i (xs @ ys) = TurnTake k v d"
      using take_final [of "cv_decode_engine eng" xs i k v d eof ys] take(3,4) less.prems(1) assms(3) by (cases eof1) auto
    moreover have "\<not> (length (xs @ ys) < min_units_per_value (src_codec K) \<and> \<not> eof)" using take(3) assms(3) by auto
    ultimately show ?thesis using stream_take [OF take(1), of "xs @ ys" eof i k v d] take(2,5,7) by simp
  qed (use less.prems in auto)
qed

text \<open>An error is final as well.\<close>

lemma stream_error_final:
  assumes "ready eng" "stream False i eng xs room = (Err x, n, us, eng1)"
  shows "stream eof i eng (xs @ ys) room = (Err x, n, us, eng1)"
  using assms
proof (induction "todo eng xs" arbitrary: i eng xs room n us rule: less_induct)
  case less
  from less.prems(2,1) show ?case
  proof (cases rule: stream_cases)
    case (refused p y e)
    with stream_refused [OF refused(1,2), of eof i "xs @ ys"] show ?thesis by simp
  next
    case (emit p u e ws)
    have "todo (eng\<lparr>cv_encode_engine := e, cv_pending := slot_empty\<rparr>) xs < todo eng xs"
      using emit(1) by (intro todo_emit) simp
    from stream_emit [OF emit(1,2) less.hyps [OF this emit(3,7)]] emit(6) show ?thesis by simp
  next
    case (reject y d)
    with reject_final [of "cv_decode_engine eng" xs i y d eof ys] less.prems(1)
      stream_reject [OF reject(1), of "xs @ ys" eof i y d room] show ?thesis by simp
  next
    case (take k v d l)
    have "dturn (cv_decode_engine eng) eof i (xs @ ys) = TurnTake k v d"
      using take_final [of "cv_decode_engine eng" xs i k v d eof ys] take(3,4) less.prems(1) by auto
    moreover have "stream eof (i + nz_get k) (eng\<lparr>cv_decode_engine := d, cv_pending := slot_of i v\<rparr>)
        (drop (nz_get k) (xs @ ys)) room = (Err x, l, us, eng1)"
      using less.hyps [OF todo_take [OF take(1,2)] take(6,8)] take(5) by simp
    ultimately show ?thesis using stream_take [OF take(1), of "xs @ ys" eof i k v d room] take(2,3,7) by auto
  qed simp_all
qed

text \<open>A stream that does not stop for lack of room goes the same way with more of it.\<close>

lemma stream_more_room:
  assumes "ready eng" "stream eof i eng xs room = (q, n, us, eng1)" "\<And>req. q \<noteq> Ok (NeedOutput req)" "room \<le> room2"
  shows "stream eof i eng xs room2 = (q, n, us, eng1)"
  using assms(1,2,4)
proof (induction "todo eng xs" arbitrary: i eng xs room room2 n us rule: less_induct)
  case less
  from less.prems(2,1) show ?case
  proof (cases rule: stream_cases)
    case (full p req)
    with assms(3) [of req] show ?thesis by simp
  next
    case (refused p x e)
    with refuse_more_room [OF _ refused(2) less.prems(3)] stream_refused [OF refused(1)] less.prems(1) show ?thesis by simp
  next
    case (emit p u e ws)
    have smaller: "todo (eng\<lparr>cv_encode_engine := e, cv_pending := slot_empty\<rparr>) xs < todo eng xs"
      using emit(1) by (intro todo_emit) simp
    have "room - length u \<le> room2 - length u" using less.prems(3) by simp
    from less.hyps [OF smaller emit(3,7) this] emit(6) write_more_room [OF _ emit(2) less.prems(3)] less.prems(1)
    show ?thesis by (simp add: stream_emit [OF emit(1)])
  next
    case ended
    then show ?thesis by (subst convert_stream.simps) simp
  next
    case short
    then show ?thesis by (subst convert_stream.simps) simp
  next
    case (more req d)
    then show ?thesis by (subst convert_stream.simps) simp
  next
    case (reject x d)
    with stream_reject [OF reject(1-4), of room2] show ?thesis by simp
  next
    case (take k v d l)
    from stream_take [OF take(1-4) less.hyps [OF todo_take [OF take(1,2)] take(6,8) less.prems(3)]] take(7)
    show ?thesis by simp
  qed
qed

end

end
