(* ===== verification/ConvertStreams.thy ===== *)
theory ConvertStreams
  imports ConvertContract Streams
begin

text \<open>
  What the convert engine promises to its callers: a call computes the specification, calls on a
  growing input and in any windows are one call, and a complete conversion is decoding followed by
  encoding. A decoder and an encoder that keep the contracts of \<open>DecodeContract\<close> and
  \<open>EncodeContract\<close> make a converter that keeps \<open>conversion\<close>.
\<close>

section \<open>Any way of calling\<close>

text \<open>A caller that drives a converter over \<open>input\<close>: each call sees some prefix of it, starts
  where the last one stopped, and gets any window; the units the calls wrote are collected. Only a
  call that sees the whole input may say so.\<close>

inductive cv_driven ::
  "('cd, 'hd, 'ce, 'he, 'v, 'i, 'o, 'de, 'x, 'y, 'ee) converter_traits \<Rightarrow> 'i list \<Rightarrow>
   ('cd, 'hd, 'ce, 'he, 'v) convert_engine \<Rightarrow> nat \<Rightarrow> 'o list \<Rightarrow> ('cd, 'hd, 'ce, 'he, 'v) convert_engine \<Rightarrow> bool"
  for K input init where
  start: "cv_driven K input init 0 [] init"
| call: "cv_driven K input init off ws eng \<Longrightarrow> off \<le> seen \<Longrightarrow> seen \<le> length input \<Longrightarrow>
    (eof \<Longrightarrow> seen = length input) \<Longrightarrow> j \<le> length buf \<Longrightarrow>
    cv_transcode_with_eof K eng (take seen input) off buf j eof = (Ok p, eng', buf') \<Longrightarrow>
    cv_driven K input init (off + tp_read p) (ws @ take (tp_written p) (drop j buf')) eng'"

lemma opened_streaming: "cv_phase eng = Streaming \<Longrightarrow> cv_opened eng = eng"
  by (cases eng; cases "cv_lifecycle eng") simp

lemma drop_take_append: "off \<le> seen \<Longrightarrow> drop off (take seen xs) @ drop seen xs = drop off xs"
  using append_take_drop_id [of "seen - off" "drop off xs"] by (simp add: drop_take)

context conversion
begin

text \<open>A call in the terms of the specification.\<close>

lemma call_report:
  assumes "ready eng" "stream_phase (cv_phase eng)" "i \<le> length input" "j \<le> length out"
    and "cv_transcode_with_eof K eng input i out j eof = (Ok p, eng', out')"
  obtains st where "stream eof i (cv_opened eng) (drop i input) (length out - j) =
      (Ok st, tp_read p, take (tp_written p) (drop j out'), eng')"
    "p = progress_new st (tp_read p) (tp_written p)" "ready eng'" "cv_phase eng' = Streaming"
    "tp_written p \<le> length out - j" "tp_read p \<le> length input - i" "length out' = length out"
proof -
  obtain q n us e where spec: "stream eof i (cv_opened eng) (drop i input) (length out - j) = (q, n, us, e)"
    by (metis prod_cases4)
  note ref = call_refines [OF assms(1-4) spec assms(5)]
  then obtain st where st: "q = Ok st" "p = progress_new st n (length us)" by (cases q) auto
  have "take (length us) (drop j out') = us" using ref st assms(4) by (simp add: splice_at_read)
  with ref st spec stream_bounds [OF _ spec] assms(1) show thesis
    by (intro that [of st]) (auto simp: progress_defs)
qed

end

context incremental_conversion
begin

lemma driven_invariant:
  assumes "cv_driven K input init off ws eng" "ready init" "stream_phase (cv_phase init)"
  shows "ready eng \<and> stream_phase (cv_phase eng) \<and> off \<le> length input \<and>
    (\<exists>least. \<forall>room q n us e. least \<le> room \<longrightarrow>
      stream True off (cv_opened eng) (drop off input) room = (q, n, us, e) \<longrightarrow>
      stream True 0 (cv_opened init) input (length ws + room) = (q, off + n, ws @ us, e))"
  using assms(1)
proof (induction rule: cv_driven.induct)
  case start
  with assms(2,3) show ?case by auto
next
  case (call off ws eng seen eof j buf p eng' buf')
  let ?us = "take (tp_written p) (drop j buf')" and ?xs = "drop off (take seen input)"
  from call.IH obtain least where IH: "ready eng" "stream_phase (cv_phase eng)" "off \<le> length input"
    "\<And>room q n us e. least \<le> room \<Longrightarrow> stream True off (cv_opened eng) (drop off input) room = (q, n, us, e) \<Longrightarrow>
      stream True 0 (cv_opened init) input (length ws + room) = (q, off + n, ws @ us, e)" by blast
  have "off \<le> length (take seen input)" using call(2,3) by simp
  then obtain st where st: "stream eof off (cv_opened eng) ?xs (length buf - j) = (Ok st, tp_read p, ?us, eng')"
    "ready eng'" "cv_phase eng' = Streaming" "tp_read p \<le> length (take seen input) - off"
    "tp_written p \<le> length buf - j" "length buf' = length buf"
    by (rule call_report [OF IH(1,2) _ call(5,6)])
  have tail: "eof \<Longrightarrow> True \<and> drop seen input = []" using call(4) by simp
  have xs: "?xs @ drop seen input = drop off input" by (rule drop_take_append [OF call(2)])
  have rest: "drop (tp_read p) ?xs @ drop seen input = drop (off + tp_read p) input"
  proof -
    have "drop (tp_read p) ?xs = drop (off + tp_read p) (take seen input)" by (simp add: add.commute)
    with drop_take_append [of "off + tp_read p" seen input] st(4) call(2,3) show ?thesis by simp
  qed
  have len: "length ?us = tp_written p" using st(5,6) call(5) by simp
  let ?least = "max least (length buf - j)"
  have all: "stream True 0 (cv_opened init) input (length (ws @ ?us) + room) = (q, off + tp_read p + n, (ws @ ?us) @ us, e)"
    if room: "?least \<le> room" and run: "stream True (off + tp_read p) (cv_opened eng') (drop (off + tp_read p) input) room
      = (q, n, us, e)" for room q n us e
  proof -
    have "stream True off (cv_opened eng) (drop off input) (length ?us + room) = (q, tp_read p + n, ?us @ us, e)"
      using stream_resume [OF _ st(1) tail, of room q n us e] IH(1) run room
      by (simp only: xs rest opened_streaming [OF st(3)]) simp
    from IH(4) [OF _ this] room show ?thesis by (simp add: ac_simps)
  qed
  have "off + tp_read p \<le> length input" "stream_phase (cv_phase eng')"
    using st(3,4) IH(3) call(2,3) by (auto simp: stream_phase_def)
  with st(2) all show ?case by blast
qed

lemma driven_joins:
  assumes "cv_driven K input init off ws eng" "ready init" "stream_phase (cv_phase init)"
    and "off \<le> seen" "seen \<le> length input" "eof \<Longrightarrow> seen = length input" "j \<le> length buf"
    and call: "cv_transcode_with_eof K eng (take seen input) off buf j eof = (r, eng', buf')"
    and last: "\<And>p. r = Ok p \<Longrightarrow> eof \<and> is_complete p"
  shows "\<exists>least. \<forall>out. least \<le> length out \<longrightarrow> (case r of
      Ok p \<Rightarrow> cv_transcode_eof K init input 0 out 0 =
        (Ok (progress_complete (length input) (length ws + tp_written p)), eng',
         splice_at out 0 (ws @ take (tp_written p) (drop j buf')))
    | Err e \<Rightarrow> \<exists>out'. cv_transcode_eof K init input 0 out 0 = (Err e, eng', out') \<and> take (length ws) out' = ws
    | Panic \<Rightarrow> False)"
proof -
  let ?xs = "drop off (take seen input)"
  from driven_invariant [OF assms(1-3)] obtain least where inv: "ready eng" "stream_phase (cv_phase eng)" "off \<le> length input"
    "\<And>room q n us e. least \<le> room \<Longrightarrow> stream True off (cv_opened eng) (drop off input) room = (q, n, us, e) \<Longrightarrow>
      stream True 0 (cv_opened init) input (length ws + room) = (q, off + n, ws @ us, e)" by blast
  obtain q n us e where spec: "stream eof off (cv_opened eng) ?xs (length buf - j) = (q, n, us, e)"
    by (metis prod_cases4)
  have seen: "off \<le> length (take seen input)" using assms(4,5) by simp
  note ref = call_refines [OF inv(1,2) seen assms(7) spec call]
  have opened: "ready (cv_opened eng)" "ready (cv_opened init)" using inv(1) assms(2) by simp_all
  note bounds = stream_bounds [OF opened(1) spec]
  have stop: "(eof \<and> q = Ok Complete) \<or> (\<exists>x. q = Err x)"
  proof (cases q)
    case (Ok st)
    with ref last [of "progress_new st n (length us)"] show ?thesis by (cases st) (auto simp: progress_defs)
  qed (use bounds in auto)
  have whole: "stream True off (cv_opened eng) (drop off input) (length buf - j) = (q, n, us, e)"
  proof (cases eof)
    case True
    with spec assms(6) show ?thesis by simp
  next
    case False
    with stop spec obtain x where "q = Err x" "stream False off (cv_opened eng) ?xs (length buf - j) = (Err x, n, us, e)" by auto
    from stream_error_final [OF opened(1) this(2), of True "drop seen input"] this(1) show ?thesis
      by (simp add: drop_take_append [OF assms(4)])
  qed
  have "\<And>req. q \<noteq> Ok (NeedOutput req)" using stop by auto
  note more = stream_more_room [OF opened(1) whole this]
  have len: "q = Ok Complete \<Longrightarrow> off + n = length input" using bounds stop assms(4,5,6) by auto
  let ?least = "length ws + max least (length buf - j)"
  have "case r of
      Ok p \<Rightarrow> cv_transcode_eof K init input 0 out 0 =
        (Ok (progress_complete (length input) (length ws + tp_written p)), eng',
         splice_at out 0 (ws @ take (tp_written p) (drop j buf')))
    | Err e \<Rightarrow> \<exists>out'. cv_transcode_eof K init input 0 out 0 = (Err e, eng', out') \<and> take (length ws) out' = ws
    | Panic \<Rightarrow> False" if room: "?least \<le> length out" for out
  proof -
    have "length buf - j \<le> length out - length ws" "least \<le> length out - length ws" "length ws \<le> length out" using room by simp_all
    with inv(4) [OF _ more, of "length out - length ws"] have one: "stream True 0 (cv_opened init) (drop 0 input) (length out - 0) = (q, off + n, ws @ us, e)" by simp
    obtain r1 e1 out1 where "cv_transcode_with_eof K init input 0 out 0 True = (r1, e1, out1)" by (metis prod_cases3)
    moreover note call_refines [OF assms(2,3) _ _ one this]
    moreover have "take (length us) (drop j buf') = us" if "q = Ok Complete"
      using ref that assms(7) by (simp add: splice_at_read)
    moreover have "take (length ws) out1 = ws" if "take (length (ws @ us)) out1 = ws @ us"
    proof -
      have "take (length ws) out1 = take (length ws) (take (length (ws @ us)) out1)" by simp
      with that show ?thesis by simp
    qed
    ultimately show ?thesis using ref stop len by (auto simp: cv_transcode_eof_def progress_defs)
  qed
  then show ?thesis by blast
qed

end

section \<open>Two contracts make a converter\<close>

text \<open>The turns of an engine, from the turns of its codec: the hooks stay as they are.\<close>

definition codec_decode_turns ::
  "('c, 'v, 'u, 'de, 'ee) codec \<Rightarrow> ('c, 'v, 'u, 'de) parser \<Rightarrow>
   ('h \<Rightarrow> 'de \<Rightarrow> nonzero option \<Rightarrow> 'v invalid_action) \<Rightarrow> ('h \<Rightarrow> 'de option \<Rightarrow> nonzero \<Rightarrow> 'v incomplete_action) \<Rightarrow>
   ('c, 'h, 'v, 'u, 'de) decode_turns" where
  "codec_decode_turns C parse on_invalid on_incomplete d eof i xs =
    map_decode_turn id id (\<lambda>c. d\<lparr>de_codec := c\<rparr>)
      (decode_turn C parse (on_invalid (de_hooks d)) (on_incomplete (de_hooks d)) eof i (de_codec d) xs)"

definition codec_encode_turns ::
  "('c, 'v, 'u, 'de, 'ee) codec \<Rightarrow> ('c, 'v, 'u, 'ee) emitter \<Rightarrow> ('h \<Rightarrow> 'v \<Rightarrow> 'v unencodable_action) \<Rightarrow>
   ('c, 'h, 'v, 'u, 'ee) encode_turns" where
  "codec_encode_turns C emit act e i v room =
    map_encode_turn id id (\<lambda>c. e\<lparr>ee_codec := c\<rparr>)
      (encode_turn C emit (act (ee_hooks e)) i (ee_codec e) v room)"

lemma codec_decode_turns_answer:
  "decode_turn_outcome d (\<lambda>v. pv_new v i) t = decode_answer i (map_decode_turn id id (\<lambda>c. d\<lparr>de_codec := c\<rparr>) t)"
  by (cases t; cases "case t of TurnTake n ov c \<Rightarrow> ov | _ \<Rightarrow> None") auto

lemma codec_encode_turns_answer:
  "encode_turn_result e a t x \<Longrightarrow> encode_answer e a (map_encode_turn id id (\<lambda>c. e\<lparr>ee_codec := c\<rparr>) t) x"
  by (cases t) (auto simp: encode_turn_result_def encode_answer_def)

lemma map_decode_turn_eq:
  "map_decode_turn id id f t = TurnTake n ov d \<longleftrightarrow> (\<exists>c. t = TurnTake n ov c \<and> d = f c)"
  "map_decode_turn id id f t = TurnMore req d \<longleftrightarrow> (\<exists>c. t = TurnMore req c \<and> d = f c)"
  "map_decode_turn id id f t = decode_turn.TurnReject x d \<longleftrightarrow> (\<exists>c. t = decode_turn.TurnReject x c \<and> d = f c)"
  by (cases t; auto simp: option.map_id)+

lemma map_encode_turn_eq:
  "map_encode_turn id id g t = TurnWrite us e \<longleftrightarrow> (\<exists>c. t = TurnWrite us c \<and> e = g c)"
  "map_encode_turn id id g t = TurnNeedOutput req \<longleftrightarrow> t = TurnNeedOutput req"
  "map_encode_turn id id g t = encode_turn.TurnReject y e \<longleftrightarrow> (\<exists>c. t = encode_turn.TurnReject y c \<and> e = g c)"
  by (cases t; auto)+

context encoder_codec
begin

lemma emit_turn_need: "emit_turn C emit i c v room = TurnNeedOutput req \<longleftrightarrow> room < encode_len C c v \<and> nz_get req = encode_len C c v"
  by (cases req) (auto simp: emit_turn_def split: prod.splits sum.splits)

lemma encode_turn_suffices:
  assumes "encode_turn C emit (act h) i c v room = TurnNeedOutput req" "good c" "nz_get req \<le> room2"
  shows "encode_turn C emit (act h) i c v room2 \<noteq> TurnNeedOutput req2"
proof (cases "can_encode_value C c v")
  case True
  with assms(1,3) show ?thesis by (simp add: encode_turn_def emit_turn_need)
next
  case False
  have "\<not> room2 < max_encode_units_per_value C"
  proof (cases "room < max_encode_units_per_value C")
    case True
    with assms(1,3) False show ?thesis by (cases req) (auto simp: encode_turn_def)
  next
    case enough: False
    with assms(1) False show ?thesis
      using encode_len_bound [OF assms(2) replacement_encodable [OF assms(2)]]
      by (fastforce simp: encode_turn_def emit_turn_need split: unencodable_action.splits)
  qed
  then show ?thesis
    using encode_len_bound [OF assms(2) replacement_encodable [OF assms(2)]] False
    by (fastforce simp: encode_turn_def emit_turn_need split: unencodable_action.splits)
qed

end

locale codec_pair =
  dec: decoder_codec "src_codec K" "src_hooks K" dgood parse on_invalid on_incomplete +
  enc: encoder_codec "tgt_codec K" "tgt_hooks K" egood emit act
  for K :: "('cd, 'hd, 'ce, 'he, 'v, 'i, 'o, 'de, 'x, 'y, 'ee) converter_traits"
    and dgood :: "'cd \<Rightarrow> bool"
    and parse :: "('cd, 'v, 'i, 'de) parser"
    and on_invalid :: "'hd \<Rightarrow> 'de \<Rightarrow> nonzero option \<Rightarrow> 'v invalid_action"
    and on_incomplete :: "'hd \<Rightarrow> 'de option \<Rightarrow> nonzero \<Rightarrow> 'v incomplete_action"
    and egood :: "'ce \<Rightarrow> bool"
    and emit :: "('ce, 'v, 'o, 'ee) emitter"
    and act :: "'he \<Rightarrow> 'v \<Rightarrow> 'v unencodable_action"

sublocale codec_pair \<subseteq> conversion K "\<lambda>d. dgood (de_codec d)"
  "codec_decode_turns (src_codec K) parse on_invalid on_incomplete" "\<lambda>e. egood (ee_codec e)"
  "codec_encode_turns (tgt_codec K) emit act"
proof
  show "0 < min_units_per_value (src_codec K)" by (rule dec.min_pos)
next
  fix d :: "('cd, 'hd) decode_engine" and xs and ctx :: decode_context and input :: "'i list" and eof
  assume "dgood (de_codec d)" "xs = drop (dc_input_index ctx) input" "xs \<noteq> []" "dc_available ctx = length xs"
  from dec.decode_one_turn [OF this, of eof pv_new]
  show "decode_one (src_codec K) (src_hooks K) d input ctx eof pv_new =
      decode_answer (dc_input_index ctx)
        (codec_decode_turns (src_codec K) parse on_invalid on_incomplete d eof (dc_input_index ctx) xs)"
    by (simp add: codec_decode_turns_answer codec_decode_turns_def)
next
  fix d :: "('cd, 'hd) decode_engine" and xs eof i n ov d'
  assume "dgood (de_codec d)" "xs \<noteq> []"
    "codec_decode_turns (src_codec K) parse on_invalid on_incomplete d eof i xs = TurnTake n ov d'"
  with dec.turn_take [of "de_codec d" xs] show "nz_get n \<le> length xs \<and> dgood (de_codec d')"
    by (auto simp: codec_decode_turns_def map_decode_turn_eq)
next
  fix d :: "('cd, 'hd) decode_engine" and xs eof i req d'
  assume "dgood (de_codec d)"
    "codec_decode_turns (src_codec K) parse on_invalid on_incomplete d eof i xs = TurnMore req d'"
  then obtain c where "dgood (de_codec d)" "dec.turn (de_hooks d) eof i (de_codec d) xs = TurnMore req c" "d' = d\<lparr>de_codec := c\<rparr>"
    by (auto simp: codec_decode_turns_def map_decode_turn_eq)
  with dec.turn_more [OF this(1,2)] show "\<not> eof \<and> length xs < nz_get req \<and> dgood (de_codec d')" by simp
next
  fix e :: "('ce, 'he) encode_engine" and a :: "('v, 'o) encode_attempt"
  assume "egood (ee_codec e)" "ea_output_index a \<le> length (ea_output a)"
  from enc.encode_one_turn [OF this]
  show "encode_answer e a (codec_encode_turns (tgt_codec K) emit act e (ea_input_index a) (ea_value a) (ea_available_output a))
      (encode_one (tgt_codec K) (tgt_hooks K) e a)"
    by (simp add: codec_encode_turns_def codec_encode_turns_answer)
next
  fix e :: "('ce, 'he) encode_engine" and i v room us e'
  assume "egood (ee_codec e)" "codec_encode_turns (tgt_codec K) emit act e i v room = TurnWrite us e'"
  with enc.encode_turn_writes [of "ee_codec e"]
  show "length us \<le> room \<and> length us \<le> max_encode_units_per_value (tgt_codec K) \<and> egood (ee_codec e')"
    by (auto simp: codec_encode_turns_def map_encode_turn_eq)
next
  fix e :: "('ce, 'he) encode_engine" and i v room req
  assume "egood (ee_codec e)" "codec_encode_turns (tgt_codec K) emit act e i v room = TurnNeedOutput req"
  with enc.encode_turn_need show "room < nz_get req \<and> nz_get req \<le> max_encode_units_per_value (tgt_codec K)"
    by (auto simp: codec_encode_turns_def map_encode_turn_eq)
next
  fix e :: "('ce, 'he) encode_engine" and i v room req room2 req2
  assume "egood (ee_codec e)" "codec_encode_turns (tgt_codec K) emit act e i v room = TurnNeedOutput req" "nz_get req \<le> room2"
  with enc.encode_turn_suffices show "codec_encode_turns (tgt_codec K) emit act e i v room2 \<noteq> TurnNeedOutput req2"
    by (auto simp: codec_encode_turns_def map_encode_turn_eq)
qed

text \<open>With a codec whose verdicts are final, the conversion is incremental.\<close>

locale incremental_pair = codec_pair K dgood parse on_invalid on_incomplete egood emit act +
  inc: incremental_decoder "src_codec K" "src_hooks K" dgood parse on_invalid on_incomplete
  for K :: "('cd, 'hd, 'ce, 'he, 'v, 'i, 'o, 'de, 'x, 'y, 'ee) converter_traits"
    and dgood :: "'cd \<Rightarrow> bool"
    and parse :: "('cd, 'v, 'i, 'de) parser"
    and on_invalid :: "'hd \<Rightarrow> 'de \<Rightarrow> nonzero option \<Rightarrow> 'v invalid_action"
    and on_incomplete :: "'hd \<Rightarrow> 'de option \<Rightarrow> nonzero \<Rightarrow> 'v incomplete_action"
    and egood :: "'ce \<Rightarrow> bool"
    and emit :: "('ce, 'v, 'o, 'ee) emitter"
    and act :: "'he \<Rightarrow> 'v \<Rightarrow> 'v unencodable_action"

lemma encode_turn_refuses:
  "encode_turn C emit f i c v room = encode_turn.TurnReject y c' \<Longrightarrow> room \<le> room2 \<Longrightarrow>
    encode_turn C emit f i c v room2 = encode_turn.TurnReject y c'"
  by (auto simp: encode_turn_def emit_turn_def split: if_splits unencodable_action.splits prod.splits sum.splits)

sublocale incremental_pair \<subseteq> incremental_conversion K "\<lambda>d. dgood (de_codec d)"
  "codec_decode_turns (src_codec K) parse on_invalid on_incomplete" "\<lambda>e. egood (ee_codec e)"
  "codec_encode_turns (tgt_codec K) emit act"
proof
  fix d :: "('cd, 'hd) decode_engine" and xs eof i n ov d' ys
  assume "dgood (de_codec d)" "codec_decode_turns (src_codec K) parse on_invalid on_incomplete d False i xs = TurnTake n ov d'"
  with inc.turn_final [of "de_codec d"]
  show "codec_decode_turns (src_codec K) parse on_invalid on_incomplete d eof i (xs @ ys) = TurnTake n ov d'"
    by (auto simp: codec_decode_turns_def map_decode_turn_eq)
next
  fix d :: "('cd, 'hd) decode_engine" and xs eof i x d' ys
  assume "dgood (de_codec d)"
    "codec_decode_turns (src_codec K) parse on_invalid on_incomplete d False i xs = decode_turn.TurnReject x d'"
  with inc.turn_reject_final [of "de_codec d"]
  show "codec_decode_turns (src_codec K) parse on_invalid on_incomplete d eof i (xs @ ys) = decode_turn.TurnReject x d'"
    by (auto simp: codec_decode_turns_def map_decode_turn_eq)
next
  fix d :: "('cd, 'hd) decode_engine" and xs i req d'
  assume "dgood (de_codec d)" "codec_decode_turns (src_codec K) parse on_invalid on_incomplete d False i xs = TurnMore req d'"
  with inc.turn_more_keeps [of "de_codec d"] show "d' = d"
    by (auto simp: codec_decode_turns_def map_decode_turn_eq)
next
  fix e :: "('ce, 'he) encode_engine" and i v room us e' room2
  assume "codec_encode_turns (tgt_codec K) emit act e i v room = TurnWrite us e'" "room \<le> (room2 :: nat)"
  then show "codec_encode_turns (tgt_codec K) emit act e i v room2 = TurnWrite us e'"
    by (auto simp: codec_encode_turns_def map_encode_turn_eq dest: enc.encode_turn_more_room)
next
  fix e :: "('ce, 'he) encode_engine" and i v room y e' room2
  assume "codec_encode_turns (tgt_codec K) emit act e i v room = encode_turn.TurnReject y e'" "room \<le> (room2 :: nat)"
  then show "codec_encode_turns (tgt_codec K) emit act e i v room2 = encode_turn.TurnReject y e'"
    by (auto simp: codec_encode_turns_def map_encode_turn_eq dest: encode_turn_refuses)
qed

section \<open>Conversion is decoding, then encoding\<close>

text \<open>A call that has dealt with its whole input.\<close>

fun completes :: "('e, transcode_progress) res \<Rightarrow> bool" where
  "completes (Ok p) = is_complete p"
| "completes _ = False"

lemma completes_report [simp]:
  "completes (map_ok (\<lambda>st. progress_new st n k) q) \<longleftrightarrow> q = Ok Complete"
  by (cases q; cases "case q of Ok st \<Rightarrow> st | _ \<Rightarrow> Complete") (auto simp: progress_defs)

lemma completes_encode_report [simp]: "completes (map_ok (encode_stream_report n us) x) \<longleftrightarrow> x = Ok None"
  by (cases x; cases "case x of Ok y \<Rightarrow> y | _ \<Rightarrow> None") (auto simp: encode_stream_report_def progress_defs)

lemma encode_turn_index:
  "encode_turn C emit f i c v room = TurnWrite us c' \<Longrightarrow> encode_turn C emit f k c v room = TurnWrite us c'"
  by (auto simp: encode_turn_def emit_turn_def split: if_splits unencodable_action.splits prod.splits sum.splits)

context decoder_codec
begin

lemma complete_more_room:
  assumes "good c" "stream h eof i c xs room = (Ok Complete, n, vs, c')" "room \<le> room2"
  shows "stream h eof i c xs room2 = (Ok Complete, n, vs, c')"
  using assms
proof (induction "length xs" arbitrary: i c xs room room2 n vs rule: less_induct)
  case less
  from less.prems(2,1) show ?case
  proof (cases rule: stream_cases)
    case (take m v c1 n1 ws)
    have smaller: "length (drop (nz_get m) xs) < length xs" using take(1) by (cases xs) auto
    have "room - length (option_list v) \<le> room2 - length (option_list v)" using less.prems(3) by simp
    from less.hyps [OF smaller take(6,9) this] take less.prems(3)
      decode_stream_turn [of xs C eof room2 parse "on_invalid h" "on_incomplete h" i c] show ?thesis by simp
  qed simp_all
qed

end

context codec_pair
begin

text \<open>The values that still have to be encoded before the next one is decoded.\<close>

definition waiting :: "('cd, 'hd, 'ce, 'he, 'v) convert_engine \<Rightarrow> 'v list" where
  "waiting eng = (case cv_slot eng of None \<Rightarrow> [] | Some p \<Rightarrow> [pv_value p])"

abbreviation decoded :: "('cd, 'hd, 'ce, 'he, 'v) convert_engine \<Rightarrow> nat \<Rightarrow> 'i list \<Rightarrow> nat \<Rightarrow> 'v list \<Rightarrow> 'cd \<Rightarrow> bool" where
  "decoded eng i xs vroom vs c \<equiv> dec.stream (de_hooks (cv_decode_engine eng)) True i (de_codec (cv_decode_engine eng)) xs vroom
    = (Ok Complete, length xs, vs, c)"

abbreviation encoded :: "('cd, 'hd, 'ce, 'he, 'v) convert_engine \<Rightarrow> nat \<Rightarrow> 'v list \<Rightarrow> nat \<Rightarrow> 'o list \<Rightarrow> 'ce \<Rightarrow> bool" where
  "encoded eng k vs room us c \<equiv> encode_stream (tgt_codec K) emit (act (ee_hooks (cv_encode_engine eng))) k
      (ee_codec (cv_encode_engine eng)) vs room = (Ok None, length vs, us, c)"

abbreviation after :: "('cd, 'hd, 'ce, 'he, 'v) convert_engine \<Rightarrow> 'cd \<Rightarrow> 'ce \<Rightarrow> ('cd, 'hd, 'ce, 'he, 'v) convert_engine" where
  "after eng c c' \<equiv> eng\<lparr>cv_decode_engine := (cv_decode_engine eng)\<lparr>de_codec := c\<rparr>,
    cv_encode_engine := (cv_encode_engine eng)\<lparr>ee_codec := c'\<rparr>, cv_pending := slot_empty\<rparr>"

lemma waiting_simps:
  "cv_slot eng = None \<Longrightarrow> waiting eng = []" "cv_slot eng = Some p \<Longrightarrow> waiting eng = [pv_value p]"
  "waiting (eng\<lparr>cv_pending := slot_empty\<rparr>) = []" "waiting (eng\<lparr>cv_pending := slot_of i v\<rparr>) = option_list v"
  by (simp_all add: waiting_def slot_empty_def) (cases v; simp add: pv_new_def)

lemma decoded_take:
  assumes "dec.turn (de_hooks d) True i (de_codec d) xs = TurnTake k ov c" "xs \<noteq> []" "dgood (de_codec d)"
    and "dec.stream (de_hooks d) True (i + nz_get k) c (drop (nz_get k) xs) (length (drop (nz_get k) xs)) = (Ok Complete, n, vs, c')"
  shows "dec.stream (de_hooks d) True i (de_codec d) xs (length xs) = (Ok Complete, nz_get k + n, option_list ov @ vs, c')"
proof -
  have "length (option_list ov) \<le> nz_get k" using dec.option_list_length [of ov] by (cases k) auto
  then have "dgood c" "length (drop (nz_get k) xs) \<le> length xs - length (option_list ov)"
    using dec.turn_take [OF assms(3,2,1)] by simp_all
  from dec.complete_more_room [OF this(1) assms(4) this(2)] assms(1,2) show ?thesis
    using decode_stream_turn [of xs "src_codec K" True "length xs" parse "on_invalid (de_hooks d)" "on_incomplete (de_hooks d)" i "de_codec d"]
    by simp
qed

lemma conversion_decodes_and_encodes:
  assumes "ready eng" "stream True i eng xs room = (Ok Complete, n, us, eng')"
  shows "\<exists>vs c c'. decoded eng i xs (length xs) vs c \<and> encoded eng k (waiting eng @ vs) room us c' \<and> eng' = after eng c c'"
  using assms
proof (induction "todo eng xs" arbitrary: i eng xs room n us k rule: less_induct)
  case less
  from less.prems(2,1) show ?case
  proof (cases rule: stream_cases)
    case (emit p u e ws)
    let ?eng = "eng\<lparr>cv_encode_engine := e, cv_pending := slot_empty\<rparr>"
    have "todo ?eng xs < todo eng xs" using emit(1) by (intro todo_emit) simp
    from less.hyps [OF this emit(3,7), of "k + 1"] obtain vs c c' where rest: "decoded eng i xs (length xs) vs c"
      "encoded ?eng (k + 1) (waiting ?eng @ vs) (room - length u) ws c'" "eng' = after ?eng c c'" by auto
    from emit(2) obtain c1 where c1: "encode_turn (tgt_codec K) emit (act (ee_hooks (cv_encode_engine eng)))
        (pv_input_index p) (ee_codec (cv_encode_engine eng)) (pv_value p) room = TurnWrite u c1"
      "e = (cv_encode_engine eng)\<lparr>ee_codec := c1\<rparr>" by (auto simp: codec_encode_turns_def map_encode_turn_eq)
    from rest(2) c1 emit(1,6) encode_turn_index [OF c1(1), of k] have "encoded eng k (waiting eng @ vs) room us c'"
      by (simp add: waiting_simps)
    with rest(1,3) c1(2) show ?thesis by auto
  next
    case ended
    then have "decoded eng i xs (length xs) [] (de_codec (cv_decode_engine eng))"
      "encoded eng k (waiting eng @ []) room us (ee_codec (cv_encode_engine eng))" by (simp_all add: waiting_simps)
    moreover have "eng' = after eng (de_codec (cv_decode_engine eng)) (ee_codec (cv_encode_engine eng))"
      using ended by (cases eng; cases "cv_pending eng") (simp add: slot_empty_def)
    ultimately show ?thesis by blast
  next
    case (take m v d l)
    let ?eng = "eng\<lparr>cv_decode_engine := d, cv_pending := slot_of i v\<rparr>"
    from less.hyps [OF todo_take [OF take(1,2)] take(6,8), of k] obtain vs c c' where rest:
      "decoded ?eng (i + nz_get m) (drop (nz_get m) xs) (length (drop (nz_get m) xs)) vs c" "encoded ?eng k (waiting ?eng @ vs) room us c'"
      "eng' = after ?eng c c'" by blast
    from take(4) obtain c1 where c1: "dec.turn (de_hooks (cv_decode_engine eng)) True i (de_codec (cv_decode_engine eng)) xs
        = TurnTake m v c1" "d = (cv_decode_engine eng)\<lparr>de_codec := c1\<rparr>"
      by (auto simp: codec_decode_turns_def map_decode_turn_eq)
    from decoded_take [OF c1(1) take(2), of "length (drop (nz_get m) xs)" vs c] rest(1) c1(2) less.prems(1) take(5)
    have "decoded eng i xs (length xs) (option_list v @ vs) c" by simp
    moreover have "encoded eng k (waiting eng @ option_list v @ vs) room us c'"
      using rest(2) take(1) by (simp add: waiting_simps)
    ultimately show ?thesis using rest(3) c1(2) by auto
  qed simp_all
qed

lemma decode_and_encode_converts:
  assumes "ready eng" "decoded eng i xs vroom vs c" "encoded eng k (waiting eng @ vs) room us c'"
  shows "stream True i eng xs room = (Ok Complete, length xs, us, after eng c c')"
  using assms
proof (induction "todo eng xs" arbitrary: i eng xs vs vroom room us k rule: less_induct)
  case less
  show ?case
  proof (cases "cv_slot eng")
    case (Some p)
    let ?e = "cv_encode_engine eng"
    from less.prems(3) Some have enc: "encode_stream (tgt_codec K) emit (act (ee_hooks ?e)) k (ee_codec ?e) (pv_value p # vs) room
      = (Ok None, Suc (length vs), us, c')" by (simp add: waiting_simps)
    from enc obtain u c1 ws where c1: "encode_turn (tgt_codec K) emit (act (ee_hooks ?e)) k (ee_codec ?e) (pv_value p) room = TurnWrite u c1"
      "encode_stream (tgt_codec K) emit (act (ee_hooks ?e)) (k + 1) c1 vs (room - length u) = (Ok None, length vs, ws, c')" "us = u @ ws"
      by (auto split: encode_turn.splits prod.splits)
    let ?eng = "eng\<lparr>cv_encode_engine := ?e\<lparr>ee_codec := c1\<rparr>, cv_pending := slot_empty\<rparr>"
    have "todo ?eng xs < todo eng xs" using Some by (intro todo_emit) simp
    moreover have "ready ?eng" using enc.encode_turn_writes [OF _ c1(1)] less.prems(1) by simp
    ultimately have "stream True i ?eng xs (room - length u) = (Ok Complete, length xs, ws, after ?eng c c')"
      using less.hyps [where eng = ?eng and xs = xs and i = i and vs = vs and vroom = vroom and k = "k + 1" and room = "room - length u" and us = ws] less.prems(2) c1(2) by (simp add: waiting_simps)
    with stream_emit [OF Some, of room u "?e\<lparr>ee_codec := c1\<rparr>"] encode_turn_index [OF c1(1)] c1(3) show ?thesis
      by (simp add: codec_encode_turns_def)
  next
    case None
    let ?d = "cv_decode_engine eng"
    show ?thesis
    proof (cases "xs = []")
      case True
      with less.prems(2,3) None have "c = de_codec ?d" "us = []" "c' = ee_codec (cv_encode_engine eng)" by (auto simp: waiting_simps)
      moreover have "eng = after eng (de_codec ?d) (ee_codec (cv_encode_engine eng))"
        using None by (cases eng; cases "cv_pending eng") (simp add: slot_empty_def)
      ultimately show ?thesis using None True by (subst convert_stream.simps) simp
    next
      case ne: False
      have good: "dgood (de_codec ?d)" using less.prems(1) by simp
      from less.prems(2) good obtain m v c1 l ws where t:
        "dec.turn (de_hooks ?d) True i (de_codec ?d) xs = TurnTake m v c1" "nz_get m \<le> length xs" "dgood c1"
        "vs = option_list v @ ws" "dec.stream (de_hooks ?d) True (i + nz_get m) c1 (drop (nz_get m) xs)
          (vroom - length (option_list v)) = (Ok Complete, l, ws, c)" "length xs = nz_get m + l"
        by (cases rule: dec.stream_cases) (use ne in auto)
      let ?eng = "eng\<lparr>cv_decode_engine := ?d\<lparr>de_codec := c1\<rparr>, cv_pending := slot_of i v\<rparr>"
      have "decoded ?eng (i + nz_get m) (drop (nz_get m) xs) (vroom - length (option_list v)) ws c"
        using t(5,6) by simp
      moreover have "encoded ?eng k (waiting ?eng @ ws) room us c'"
        using less.prems(3) t(4) None by (simp add: waiting_simps)
      moreover have "ready ?eng" using less.prems(1) t(3) by simp
      ultimately have "stream True (i + nz_get m) ?eng (drop (nz_get m) xs) room =
          (Ok Complete, length (drop (nz_get m) xs), us, after ?eng c c')"
        by (intro less.hyps [OF todo_take [OF None ne]])
      with stream_take [OF None ne, of True i m v "?d\<lparr>de_codec := c1\<rparr>" room] t(1,2) show ?thesis
        by (simp add: codec_decode_turns_def option.map_id)
    qed
  qed
qed

text \<open>The same between calls of the three engines.\<close>

lemma converts_as_composed:
  assumes "ready eng" "cv_slot eng = None"
    and "stream_phase (cv_phase eng)" "stream_phase (de_phase (cv_decode_engine eng))" "stream_phase (ee_phase (cv_encode_engine eng))"
    and "length input \<le> length buf"
    and dec: "de_transcode_eof (src_codec K) (src_hooks K) (cv_decode_engine eng) input 0 buf 0 = (rd, dec', vals)"
    and vs: "written = (case rd of Ok p \<Rightarrow> take (tp_written p) vals | _ \<Rightarrow> [])"
    and enc: "ee_transcode (tgt_codec K) (tgt_hooks K) (cv_encode_engine eng) written 0 out 0 = (re, enc', out1)"
    and conv: "cv_transcode_eof K eng input 0 out 0 = (rc, eng', out')"
  shows "(completes rc \<longleftrightarrow> completes rd \<and> completes re) \<and>
    (completes rc \<longrightarrow> (\<exists>p pe. rc = Ok p \<and> re = Ok pe \<and> tp_read p = length input \<and> tp_written p = tp_written pe) \<and> out' = out1 \<and>
      de_codec (cv_decode_engine eng') = de_codec dec' \<and> ee_codec (cv_encode_engine eng') = ee_codec enc' \<and>
      cv_slot eng' = None)"
proof -
  let ?d = "cv_decode_engine eng" and ?e = "cv_encode_engine eng" and ?eng = "cv_opened eng"
  have ready: "ready ?eng" "dgood (de_codec ?d)" "egood (ee_codec ?e)" "waiting ?eng = []" using assms(1,2) by (simp_all add: waiting_def)
  obtain qd nd vs cd where ds: "dec.stream (de_hooks ?d) True 0 (de_codec ?d) (drop 0 input) (length buf - 0) = (qd, nd, vs, cd)"
    by (metis prod_cases4)
  note d = dec.transcode_refines [OF ready(2) assms(4) le0 le0 ds dec [unfolded de_transcode_eof_def]]
  note db = dec.stream_bounds [OF ready(2) ds]
  obtain qe ne us ce where es: "encode_stream (tgt_codec K) emit (act (ee_hooks ?e)) 0 (ee_codec ?e) (drop 0 written) (length out - 0)
      = (qe, ne, us, ce)" by (metis prod_cases4)
  note e = enc.transcode_refines [OF ready(3) assms(5) le0 le0 es enc]
  obtain qc nc ws eng1 where cs: "stream True 0 ?eng (drop 0 input) (length out - 0) = (qc, nc, ws, eng1)"
    by (metis prod_cases4)
  note c = call_refines [OF assms(1,3) le0 le0 cs conv [unfolded cv_transcode_eof_def]]
  have rd: "completes rd \<longleftrightarrow> qd = Ok Complete" and rc: "completes rc \<longleftrightarrow> qc = Ok Complete" using d c by simp_all
  have re: "completes re \<longleftrightarrow> qe = Ok None" using e by simp
  have vs: "written = vs" if "qd = Ok Complete" using that d vs by (simp add: progress_defs splice_at_read [of 0, simplified])
  show ?thesis
  proof (cases "qc = Ok Complete")
    case True
    from conversion_decodes_and_encodes [OF ready(1) cs [unfolded True drop_0], of 0] ready(4) obtain vs1 c1 c2 where
      1: "decoded ?eng 0 input (length input) vs1 c1" "encoded ?eng 0 vs1 (length out) ws c2" "eng1 = after ?eng c1 c2"
      by auto
    from dec.complete_more_room [OF _ 1(1) assms(6)] ready(2) ds have 2: "qd = Ok Complete" "vs = vs1" "cd = c1" by simp_all
    with 1(2) es vs have "qe = Ok None" "us = ws" "ce = c2" by simp_all
    with True 2 1(3) rd re rc c d e stream_bounds [OF ready(1) cs] show ?thesis
      by (simp add: progress_defs encode_stream_report_def slot_empty_def)
  next
    case False
    have "\<not> (qd = Ok Complete \<and> qe = Ok None)"
    proof
      assume 1: "qd = Ok Complete \<and> qe = Ok None"
      have "ne = length vs" using enc.stream_complete [of "ee_hooks ?e" 0 "ee_codec ?e" vs] es 1 vs by simp
      with 1 es vs ready(4) ds db decode_and_encode_converts [OF ready(1), of 0 input "length buf" vs cd 0 "length out" us ce] cs False
      show False by simp
    qed
    with False rd re rc show ?thesis by blast
  qed
qed

end

section \<open>Instances\<close>

text \<open>\<open>ProtocolCodec\<close> with its policies into \<open>MarkerCodec\<close>, and \<open>U16BeCodec\<close> into itself.\<close>

definition protocol_to_marker ::
  "(unit, protocol_hooks, unit, unit, u8, u8, u8, protocol_error, infallible, infallible, infallible) converter_traits" where
  "protocol_to_marker = \<lparr>src_codec = protocol_codec, src_hooks = protocol_decode_hooks,
    tgt_codec = marker_codec, tgt_hooks = codec_transcode_encode_hooks marker_codec,
    value_default = 0, try_reserve = (\<lambda>_. True)\<rparr>"

definition u16be_copy ::
  "(unit, unit, unit, unit, u16, u8, u8, infallible, infallible, infallible, infallible) converter_traits" where
  "u16be_copy = strict_traits u16be_codec u16be_codec 0 (\<lambda>_. True)"

interpretation protocol_marker: incremental_pair protocol_to_marker any_state protocol_parse protocol_on_invalid
  protocol_on_incomplete any_state marker_emit strict_unencodable
  by (simp_all add: protocol_to_marker_def incremental_pair_def codec_pair_def protocol_dec.decoder_codec_axioms
      marker_enc.encoder_codec_axioms protocol_inc.incremental_decoder_axioms)

interpretation u16be_both: incremental_pair u16be_copy any_state u16be_parse strict_invalid strict_incomplete
  any_state u16be_emit strict_unencodable
  by (simp_all add: u16be_copy_def strict_traits_def incremental_pair_def codec_pair_def u16be_dec.decoder_codec_axioms
      u16be_enc.encoder_codec_axioms u16be_inc.incremental_decoder_axioms)

section \<open>Properties\<close>

text \<open>C6. One \<open>transcode\<close> or \<open>transcode_eof\<close> call of the convert engine computes the list
  specification from its input index and the room behind its output index: the status and both
  counters, the two codecs, their hooks and the waiting value, the error with the position and the
  value it is about, and the output slice, which is untouched outside the written range.\<close>

theorem convert_call_refines_stream:
  assumes "conversion K dok dturn eok eturn" "dok (cv_decode_engine eng)" "eok (cv_encode_engine eng)"
    and "stream_phase (cv_phase eng)" "i \<le> length input" "j \<le> length out"
    and "convert_stream (min_units_per_value (src_codec K)) dturn eturn eof i (cv_opened eng) (drop i input)
      (length out - j) = (q, n, us, eng1)"
    and "cv_transcode_with_eof K eng input i out j eof = (r, eng', out')"
  shows "r = map_ok (\<lambda>st. progress_new st n (length us)) q \<and> eng' = eng1 \<and> cv_phase eng' = Streaming \<and>
    length out' = length out \<and> take (j + length us) out' = take j out @ us \<and>
    (\<forall>x. q = Ok x \<longrightarrow> out' = splice_at out j us)"
  by (rule conversion.call_refines [OF assms(1) conjI [OF assms(2,3)] assms(4-8)])

text \<open>C7. However a caller drives a converter over an input, on growing prefixes, in any windows and
  with any stops for input or room, a completed or failed conversion is the one a single call on the
  whole input makes when its output is large enough: the same units, the same error at the same
  position, the same engine afterwards.\<close>

theorem convert_calls_join:
  assumes "incremental_conversion K dok dturn eok eturn" "dok (cv_decode_engine init)" "eok (cv_encode_engine init)"
    and "stream_phase (cv_phase init)" "cv_driven K input init off ws eng"
    and "off \<le> seen" "seen \<le> length input" "eof \<longrightarrow> seen = length input" "j \<le> length buf"
    and "cv_transcode_with_eof K eng (take seen input) off buf j eof = (r, eng', buf')"
    and "\<forall>p. r = Ok p \<longrightarrow> eof \<and> is_complete p"
  shows "\<exists>least. \<forall>out. least \<le> length out \<longrightarrow> (case r of
      Ok p \<Rightarrow> cv_transcode_eof K init input 0 out 0 =
        (Ok (progress_complete (length input) (length ws + tp_written p)), eng',
         splice_at out 0 (ws @ take (tp_written p) (drop j buf')))
    | Err e \<Rightarrow> \<exists>out'. cv_transcode_eof K init input 0 out 0 = (Err e, eng', out') \<and> take (length ws) out' = ws
    | Panic \<Rightarrow> False)"
  using assms(8,11) by (intro incremental_conversion.driven_joins [OF assms(1,5) conjI [OF assms(2,3)] assms(4,6,7) _ assms(9,10)]) auto

text \<open>C8. Converting is decoding and then encoding: a converter with nothing waiting completes on an
  input exactly when the decode engine completes on it and the encode engine then completes on the
  values, and in that case it writes the same units and leaves both codecs in the same states.\<close>

theorem convert_is_decode_then_encode:
  assumes "codec_pair K dgood parse on_invalid on_incomplete egood emit act"
    and "dgood (de_codec (cv_decode_engine eng))" "egood (ee_codec (cv_encode_engine eng))" "cv_slot eng = None"
    and "stream_phase (cv_phase eng)" "stream_phase (de_phase (cv_decode_engine eng))" "stream_phase (ee_phase (cv_encode_engine eng))"
    and "length input \<le> length buf"
    and "de_transcode_eof (src_codec K) (src_hooks K) (cv_decode_engine eng) input 0 buf 0 = (rd, dec', vals)"
    and "written = (case rd of Ok p \<Rightarrow> take (tp_written p) vals | _ \<Rightarrow> [])"
    and "ee_transcode (tgt_codec K) (tgt_hooks K) (cv_encode_engine eng) written 0 out 0 = (re, enc', out1)"
    and "cv_transcode_eof K eng input 0 out 0 = (rc, eng', out')"
  shows "(completes rc \<longleftrightarrow> completes rd \<and> completes re) \<and>
    (completes rc \<longrightarrow> (\<exists>p pe. rc = Ok p \<and> re = Ok pe \<and> tp_read p = length input \<and> tp_written p = tp_written pe) \<and> out' = out1 \<and>
      de_codec (cv_decode_engine eng') = de_codec dec' \<and> ee_codec (cv_encode_engine eng') = ee_codec enc' \<and>
      cv_slot eng' = None)"
  using codec_pair.converts_as_composed [OF assms(1) conjI [OF assms(2,3)] assms(4-9) assms(10) assms(11,12)] .

end
