(* ===== verification/ConvertFuzz.thy ===== *)
theory ConvertFuzz
  imports ConvertStreams
begin

text \<open>
  The fuzz target \<open>fuzz/fuzz_targets/transcode_convert_engine_partition.rs\<close>, whole: a converter
  from pairs of bytes to a variable-length code, with hooks that count their decisions, driven in
  pieces that a schedule chooses and in one call, against an oracle that knows neither codecs nor
  engines. The shared counters (\<open>Rc<Cell<usize>>\<close>) are fields of the hooks, read from the engine
  when a run is over.
\<close>

unbundle bit_operations_syntax

section \<open>The codecs\<close>

datatype invalid_token = InvalidToken

datatype decode_mode = DecodeModeReject | DecodeModeSkip | DecodeModeEmit

definition decode_mode_from_byte :: "u8 \<Rightarrow> decode_mode" where
  "decode_mode_from_byte byte =
    (if byte mod 3 = 0 then DecodeModeReject else if byte mod 3 = 1 then DecodeModeSkip else DecodeModeEmit)"

datatype encode_mode = EncodeModeReject | EncodeModeSkip | EncodeModeReplace

definition encode_mode_from_byte :: "u8 \<Rightarrow> encode_mode" where
  "encode_mode_from_byte byte =
    (if byte mod 3 = 0 then EncodeModeReject else if byte mod 3 = 1 then EncodeModeSkip else EncodeModeReplace)"

definition pair_decode ::
  "unit \<Rightarrow> u8 list \<Rightarrow> nat \<Rightarrow> (invalid_token decode_failure, u8 \<times> nonzero) res \<times> unit" where
  "pair_decode c input index =
    (if length input - index < 2 then Err (failure_incomplete (NZ 1))
     else bind_res (slice_get input index) (\<lambda>first.
       if first = 0xff then Err (failure_invalid InvalidToken nz_min)
       else bind_res (slice_get input (index + 1)) (\<lambda>second. Ok (first + second, NZ 1))), c)"

definition pair_encode :: "unit \<Rightarrow> u8 \<Rightarrow> u8 list \<Rightarrow> nat \<Rightarrow> (infallible, nat) res \<times> unit \<times> u8 list" where
  "pair_encode c v out index = (Panic, c, out)"

definition pair_source :: "(unit, u8, u8, invalid_token, infallible) codec" where
  "pair_source =
    \<lparr>min_units_per_value = 2, max_encode_units_per_value = 1, max_decode_units_per_value = 2,
     max_encode_reset_units = default_lifecycle_units,
     max_encode_finish_units = default_lifecycle_units,
     max_decode_reset_values = default_lifecycle_units,
     max_decode_finish_values = default_lifecycle_units,
     can_encode_value = default_can_encode_value, encode_len = default_encode_len 1,
     encode_reset = default_lifecycle_output, encode = pair_encode,
     encode_finish = default_lifecycle_output, decode_reset = default_lifecycle_output,
     decode = pair_decode, decode_eof = default_decode_eof pair_decode,
     decode_finish = default_lifecycle_output\<rparr>"

record variable_target =
  vt_markers :: bool

definition target_can_encode :: "variable_target \<Rightarrow> u8 \<Rightarrow> bool" where
  "target_can_encode t v \<longleftrightarrow> v \<noteq> 0xfe"

definition target_encode_len :: "variable_target \<Rightarrow> u8 \<Rightarrow> nat" where
  "target_encode_len t v = (if v AND 1 = 0 then 2 else 1)"

definition target_decode ::
  "variable_target \<Rightarrow> u8 list \<Rightarrow> nat \<Rightarrow> (infallible decode_failure, u8 \<times> nonzero) res \<times> variable_target" where
  "target_decode t input index = (bind_res (slice_get input index) (\<lambda>b. Ok (b, nz_min)), t)"

definition target_encode_reset ::
  "variable_target \<Rightarrow> u8 list \<Rightarrow> nat \<Rightarrow> (infallible, nat) res \<times> variable_target \<times> u8 list" where
  "target_encode_reset t out index = (if vt_markers t then write_one t out index 0xa0 else (Ok 0, t, out))"

definition target_encode_finish ::
  "variable_target \<Rightarrow> u8 list \<Rightarrow> nat \<Rightarrow> (infallible, nat) res \<times> variable_target \<times> u8 list" where
  "target_encode_finish t out index = (if vt_markers t then write_one t out index 0xa1 else (Ok 0, t, out))"

definition target_encode ::
  "variable_target \<Rightarrow> u8 \<Rightarrow> u8 list \<Rightarrow> nat \<Rightarrow> (infallible, nat) res \<times> variable_target \<times> u8 list" where
  "target_encode t v out index =
    and_then (write_one t out index v) (\<lambda>_ (t, out).
      if target_encode_len t v = 2
      then and_then (write_one t out (index + 1) (NOT v)) (\<lambda>_ (t, out). (Ok 2, t, out))
      else (Ok 1, t, out))"

definition target_codec :: "(variable_target, u8, u8, infallible, infallible) codec" where
  "target_codec =
    \<lparr>min_units_per_value = 1, max_encode_units_per_value = 2, max_decode_units_per_value = 1,
     max_encode_reset_units = 1, max_encode_finish_units = 1,
     max_decode_reset_values = default_lifecycle_units,
     max_decode_finish_values = default_lifecycle_units,
     can_encode_value = target_can_encode, encode_len = target_encode_len,
     encode_reset = target_encode_reset, encode = target_encode,
     encode_finish = target_encode_finish, decode_reset = default_lifecycle_output,
     decode = target_decode, decode_eof = default_decode_eof target_decode,
     decode_finish = default_lifecycle_output\<rparr>"

section \<open>The policies\<close>

record decode_policy =
  dp_invalid :: decode_mode
  dp_incomplete :: decode_mode
  dp_decisions :: nat

definition policy_handle_invalid ::
  "decode_policy \<Rightarrow> unit \<Rightarrow> invalid_token \<Rightarrow> nonzero option \<Rightarrow> decode_context \<Rightarrow>
   (invalid_token decode_error, u8 invalid_action) res \<times> decode_policy \<times> unit" where
  "policy_handle_invalid h c e consumed ctx =
    (let consumed = (case consumed of Some n \<Rightarrow> n | None \<Rightarrow> nz_min) in
     (Ok (case dp_invalid h of
            DecodeModeReject \<Rightarrow> InvalidReject
          | DecodeModeSkip \<Rightarrow> InvalidSkip consumed
          | DecodeModeEmit \<Rightarrow> InvalidEmit 7 consumed),
      h\<lparr>dp_decisions := dp_decisions h + 1\<rparr>, c))"

definition policy_handle_incomplete ::
  "decode_policy \<Rightarrow> unit \<Rightarrow> invalid_token option \<Rightarrow> nonzero \<Rightarrow> decode_context \<Rightarrow>
   (invalid_token decode_error, u8 incomplete_action) res \<times> decode_policy \<times> unit" where
  "policy_handle_incomplete h c src required ctx =
    (Ok (case dp_incomplete h of
           DecodeModeReject \<Rightarrow> IncompleteReject
         | DecodeModeSkip \<Rightarrow> IncompleteSkip
         | DecodeModeEmit \<Rightarrow> IncompleteEmit 9),
     h\<lparr>dp_decisions := dp_decisions h + 1\<rparr>, c)"

definition decode_policy_hooks :: "(decode_policy, unit, u8, invalid_token) decode_hooks" where
  "decode_policy_hooks =
    \<lparr>dh_max_transcode_output_len = default_dh_max_transcode,
     dh_max_finish_output_len = default_max_finish,
     dh_handle_invalid = policy_handle_invalid,
     dh_handle_incomplete = policy_handle_incomplete,
     dh_reset_hooks = default_reset_hooks,
     dh_finish_hooks = default_finish_hooks\<rparr>"

record encode_policy =
  ep_mode :: encode_mode
  ep_decisions :: nat

definition policy_handle_unencodable ::
  "encode_policy \<Rightarrow> variable_target \<Rightarrow> u8 encode_context \<Rightarrow>
   ((infallible, u8) encode_error, u8 unencodable_action) res \<times> encode_policy \<times> variable_target" where
  "policy_handle_unencodable h c ctx =
    (Ok (case ep_mode h of
           EncodeModeReject \<Rightarrow> RejectValue
         | EncodeModeSkip \<Rightarrow> SkipValue
         | EncodeModeReplace \<Rightarrow> ReplaceValue 3),
     h\<lparr>ep_decisions := ep_decisions h + 1\<rparr>, c)"

definition encode_policy_hooks :: "(encode_policy, variable_target, u8, u8, infallible) encode_hooks" where
  "encode_policy_hooks =
    \<lparr>eh_max_transcode_output_len = default_eh_max_transcode target_codec,
     eh_max_finish_output_len = default_max_finish,
     eh_handle_unencodable = policy_handle_unencodable,
     eh_reset_hooks = default_reset_hooks,
     eh_finish_hooks = default_finish_hooks\<rparr>"

text \<open>\<open>Engine\<close>; \<open>reserve\<close> stands for \<open>try_reserve_vec\<close>.\<close>

definition fuzz_traits ::
  "(nat \<Rightarrow> bool) \<Rightarrow> (unit, decode_policy, variable_target, encode_policy, u8, u8, u8,
    invalid_token, infallible, infallible, infallible) converter_traits" where
  "fuzz_traits reserve =
    \<lparr>src_codec = pair_source, src_hooks = decode_policy_hooks,
     tgt_codec = target_codec, tgt_hooks = encode_policy_hooks,
     value_default = 0, try_reserve = reserve\<rparr>"

type_synonym fuzz_engine = "(unit, decode_policy, variable_target, encode_policy, u8) convert_engine"
type_synonym fuzz_error = "(invalid_token, infallible, u8) convert_error"

definition make_engine ::
  "(nat \<Rightarrow> bool) \<Rightarrow> decode_mode \<Rightarrow> decode_mode \<Rightarrow> encode_mode \<Rightarrow> bool \<Rightarrow> ('e, fuzz_engine) res" where
  "make_engine reserve invalid incomplete unencodable markers =
    cv_new (fuzz_traits reserve) () \<lparr>vt_markers = markers\<rparr>
      \<lparr>dp_invalid = invalid, dp_incomplete = incomplete, dp_decisions = 0\<rparr>
      \<lparr>ep_mode = unencodable, ep_decisions = 0\<rparr>"

definition decode_count :: "fuzz_engine \<Rightarrow> nat" where
  "decode_count eng = dp_decisions (de_hooks (cv_decode_engine eng))"

definition encode_count :: "fuzz_engine \<Rightarrow> nat" where
  "encode_count eng = ep_decisions (ee_hooks (cv_encode_engine eng))"

section \<open>The oracle\<close>

datatype model_error = ModelDecode nat | ModelIncomplete nat | ModelUnencodable nat u8

record oracle_model =
  om_output :: "u8 list"
  om_decode_decisions :: nat
  om_encode_decisions :: nat

definition append_encoded :: "u8 list \<Rightarrow> u8 \<Rightarrow> u8 list" where
  "append_encoded out v = (let out = out @ [v] in if v AND 1 = 0 then out @ [NOT v] else out)"

text \<open>The first half of the loop body: a failure, a jump past skipped units, or a value.\<close>

datatype oracle_read = OracleFail model_error | OracleJump nat oracle_model | OracleValue u8 oracle_model

definition oracle_read ::
  "decode_mode \<Rightarrow> decode_mode \<Rightarrow> u8 list \<Rightarrow> nat \<Rightarrow> oracle_model \<Rightarrow> oracle_read" where
  "oracle_read invalid incomplete payload index model =
    (if length payload - index < 2 then
       let model = model\<lparr>om_decode_decisions := om_decode_decisions model + 1\<rparr> in
       (case incomplete of
          DecodeModeReject \<Rightarrow> OracleFail (ModelIncomplete index)
        | DecodeModeSkip \<Rightarrow> OracleJump (length payload) model
        | DecodeModeEmit \<Rightarrow> OracleValue 9 model)
     else if payload ! index = 0xff then
       let model = model\<lparr>om_decode_decisions := om_decode_decisions model + 1\<rparr> in
       (case invalid of
          DecodeModeReject \<Rightarrow> OracleFail (ModelDecode index)
        | DecodeModeSkip \<Rightarrow> OracleJump (index + 1) model
        | DecodeModeEmit \<Rightarrow> OracleValue 7 model)
     else OracleValue (payload ! index + payload ! (index + 1)) model)"

text \<open>The second half: the value's units.\<close>

definition oracle_store :: "encode_mode \<Rightarrow> nat \<Rightarrow> u8 \<Rightarrow> oracle_model \<Rightarrow> (model_error, oracle_model) res" where
  "oracle_store unencodable index v model =
    (if v = 0xfe then
       let model = model\<lparr>om_encode_decisions := om_encode_decisions model + 1\<rparr> in
       (case unencodable of
          EncodeModeReject \<Rightarrow> Err (ModelUnencodable index v)
        | EncodeModeSkip \<Rightarrow> Ok model
        | EncodeModeReplace \<Rightarrow> Ok (model\<lparr>om_output := append_encoded (om_output model) 3\<rparr>))
     else Ok (model\<lparr>om_output := append_encoded (om_output model) v\<rparr>))"

function oracle_loop ::
  "decode_mode \<Rightarrow> decode_mode \<Rightarrow> encode_mode \<Rightarrow> u8 list \<Rightarrow> nat \<Rightarrow> oracle_model \<Rightarrow>
   (model_error, oracle_model) res" where
  "oracle_loop invalid incomplete unencodable payload index model =
    (if index < length payload then
       (case oracle_read invalid incomplete payload index model of
          OracleFail e \<Rightarrow> Err e
        | OracleJump next model \<Rightarrow> oracle_loop invalid incomplete unencodable payload next model
        | OracleValue v model \<Rightarrow>
            bind_res (oracle_store unencodable index v model) (\<lambda>model.
              oracle_loop invalid incomplete unencodable payload
                (index + (if length payload - index < 2 then 1 else if payload ! index = 0xff then 1 else 2)) model))
     else Ok model)"
  by pat_completeness auto
termination
  by (relation "measure (\<lambda>(invalid, incomplete, unencodable, payload, index, model). length payload - index)")
    (auto simp: oracle_read_def Let_def split: if_splits decode_mode.splits)

declare oracle_loop.simps [simp del]

definition semantic_oracle ::
  "u8 list \<Rightarrow> decode_mode \<Rightarrow> decode_mode \<Rightarrow> encode_mode \<Rightarrow> bool \<Rightarrow> (model_error, oracle_model) res" where
  "semantic_oracle payload invalid incomplete unencodable markers =
    map_ok (\<lambda>model. if markers then model\<lparr>om_output := om_output model @ [0xa1]\<rparr> else model)
      (oracle_loop invalid incomplete unencodable payload 0
        \<lparr>om_output = (if markers then [0xa0] else []), om_decode_decisions = 0, om_encode_decisions = 0\<rparr>)"

section \<open>The drivers\<close>

datatype normal_error = NormalDecode nat | NormalIncomplete nat | NormalUnencodable nat "u8 option" | NormalOther

fun normalize_error :: "fuzz_error \<Rightarrow> normal_error" where
  "normalize_error (ConvertDecodeDomain d) =
    (case domain_input_index d of
       Some position \<Rightarrow> if domain_source d = InvalidToken then NormalDecode position else NormalOther
     | None \<Rightarrow> NormalOther)"
| "normalize_error (ConvertFailure (IncompleteInput input_index _ _)) = NormalIncomplete input_index"
| "normalize_error (ConvertUnencodable input_index v) = NormalUnencodable input_index v"
| "normalize_error _ = NormalOther"

fun normal_model_error :: "model_error \<Rightarrow> normal_error" where
  "normal_model_error (ModelDecode position) = NormalDecode position"
| "normal_model_error (ModelIncomplete position) = NormalIncomplete position"
| "normal_model_error (ModelUnencodable position v) = NormalUnencodable position (Some v)"

record partition_state =
  pt_output :: "u8 list"
  pt_cursor :: nat
  pt_visible :: nat
  pt_schedule_index :: nat
  pt_eof :: bool
  pt_eof_complete :: bool
  pt_required_window :: "nat option"
  pt_steps :: nat

definition partition_control :: "u8 list \<Rightarrow> nat \<Rightarrow> u8" where
  "partition_control schedule k =
    (let i = k mod max (length schedule) 1 in if i < length schedule then schedule ! i else 0)"

definition partition_status ::
  "u8 list \<Rightarrow> u8 \<Rightarrow> partition_state \<Rightarrow> transcode_status \<Rightarrow> (normal_error, partition_state) res" where
  "partition_status payload control st status =
    (let grown = st\<lparr>pt_visible := min (pt_visible st + unat (control mod 16) + 1) (length payload)\<rparr> in
     case status of
       NeedOutput required \<Rightarrow> Ok (st\<lparr>pt_required_window := Some (nz_get required)\<rparr>)
     | NeedInput _ \<Rightarrow>
         if pt_visible st < length payload then Ok grown
         else if pt_eof st then Panic
         else Ok (st\<lparr>pt_eof := True\<rparr>)
     | Complete \<Rightarrow>
         if pt_eof st then Ok (st\<lparr>pt_eof_complete := True\<rparr>)
         else if pt_visible st < length payload then Ok grown
         else Ok (st\<lparr>pt_eof := True\<rparr>))"

text \<open>The body of the driver's loop.\<close>

definition partition_turn ::
  "(nat \<Rightarrow> bool) \<Rightarrow> u8 list \<Rightarrow> u8 list \<Rightarrow> nat \<Rightarrow> fuzz_engine \<Rightarrow> partition_state \<Rightarrow>
   (normal_error, partition_state) res \<times> fuzz_engine" where
  "partition_turn reserve payload schedule limit eng st =
    (case checked_add (pt_steps st) 1 of
       None \<Rightarrow> (Panic, eng)
     | Some steps \<Rightarrow>
         if \<not> (steps \<le> limit \<and> pt_visible st \<le> length payload) then (Panic, eng)
         else
           let control = partition_control schedule (pt_schedule_index st);
               window = (case pt_required_window st of Some w \<Rightarrow> w | None \<Rightarrow> unat (control mod 6));
               input = take (pt_visible st) payload; buffer = replicate window 0 in
           (case (if pt_eof st then cv_transcode_eof (fuzz_traits reserve) eng input (pt_cursor st) buffer 0
                  else cv_transcode (fuzz_traits reserve) eng input (pt_cursor st) buffer 0) of
              (Panic, eng, _) \<Rightarrow> (Panic, eng)
            | (Err e, eng, _) \<Rightarrow> (Err (normalize_error e), eng)
            | (Ok p, eng, buffer) \<Rightarrow>
                (case validate p (pt_cursor st) (pt_visible st - pt_cursor st) 0 window of
                   Ok _ \<Rightarrow>
                     (case checked_add (pt_cursor st) (tp_read p) of
                        None \<Rightarrow> Panic
                      | Some cursor \<Rightarrow>
                          bind_res (partition_status payload control
                              (st\<lparr>pt_steps := steps, pt_required_window := None, pt_cursor := cursor,
                                 pt_output := pt_output st @ take (tp_written p) buffer\<rparr>) (tp_status p)) (\<lambda>st.
                          case checked_add (pt_schedule_index st) 1 of
                            None \<Rightarrow> Panic
                          | Some k \<Rightarrow> Ok (st\<lparr>pt_schedule_index := k\<rparr>)))
                 | _ \<Rightarrow> Panic, eng)))"

lemma partition_turn_steps:
  assumes "partition_turn reserve payload schedule limit eng st = (Ok st', eng')"
  shows "pt_steps st < limit \<and> pt_steps st' = Suc (pt_steps st)"
  using assms
  by (auto simp: partition_turn_def partition_status_def Let_def checked_add_eq_Some bind_res_eq_Ok
      split: option.splits if_splits res.splits prod.splits transcode_status.splits)

function partition_loop ::
  "(nat \<Rightarrow> bool) \<Rightarrow> u8 list \<Rightarrow> u8 list \<Rightarrow> nat \<Rightarrow> fuzz_engine \<Rightarrow> partition_state \<Rightarrow>
   (normal_error, partition_state) res \<times> fuzz_engine" where
  "partition_loop reserve payload schedule limit eng st =
    (if pt_eof_complete st then (Ok st, eng)
     else
       case partition_turn reserve payload schedule limit eng st of
         (Ok st', eng') \<Rightarrow> partition_loop reserve payload schedule limit eng' st'
       | (Err e, eng') \<Rightarrow> (Err e, eng')
       | (Panic, eng') \<Rightarrow> (Panic, eng'))"
  by pat_completeness auto
termination
  by (relation "measure (\<lambda>(reserve, payload, schedule, limit, eng, st). limit - pt_steps st)")
    (auto dest!: partition_turn_steps [OF sym])

declare partition_loop.simps [simp del]

definition partition_limit :: "u8 list \<Rightarrow> nat option" where
  "partition_limit payload =
    Option.bind (checked_add (length payload) 1) (\<lambda>n. Option.bind (checked_mul n 64) (\<lambda>n. checked_add n 64))"

definition partition_start :: "u8 list \<Rightarrow> partition_state" where
  "partition_start out =
    \<lparr>pt_output = out, pt_cursor = 0, pt_visible = 0, pt_schedule_index = 0, pt_eof = False,
     pt_eof_complete = False, pt_required_window = None, pt_steps = 0\<rparr>"

text \<open>The finish of the driver, and the driver: the collected output, the steps, and the number of
  calls of \<open>finish\<close>. The engine is returned for its counters.\<close>

definition partition_finish ::
  "(nat \<Rightarrow> bool) \<Rightarrow> fuzz_engine \<Rightarrow> partition_state \<Rightarrow> (normal_error, u8 list \<times> nat \<times> nat) res \<times> fuzz_engine" where
  "partition_finish reserve eng st =
    (if \<not> pt_eof st then (Panic, eng)
     else
       case cv_max_finish_output_len (fuzz_traits reserve) eng of
         Ok bound \<Rightarrow>
           (case cv_finish (fuzz_traits reserve) eng (replicate bound 0) 0 of
              (r, eng, finish) \<Rightarrow>
                and_then (map_err normalize_error r, eng) (\<lambda>written eng.
                  (Ok (pt_output st @ take written finish, pt_steps st, 1), eng)))
       | _ \<Rightarrow> (Panic, eng))"

definition run_partition ::
  "(nat \<Rightarrow> bool) \<Rightarrow> u8 list \<Rightarrow> u8 list \<Rightarrow> fuzz_engine \<Rightarrow>
   (normal_error, u8 list \<times> nat \<times> nat) res \<times> fuzz_engine" where
  "run_partition reserve payload schedule eng =
    (case cv_max_reset_output_len (fuzz_traits reserve) eng of
       Ok bound \<Rightarrow>
         (case cv_reset (fuzz_traits reserve) eng (replicate bound 0) 0 of
            (r, eng, reset) \<Rightarrow>
              and_then (map_err normalize_error r, eng) (\<lambda>reset_written eng.
              case partition_limit payload of
                None \<Rightarrow> (Panic, eng)
              | Some limit \<Rightarrow>
                  and_then (partition_loop reserve payload schedule limit eng (partition_start (take reset_written reset)))
                    (\<lambda>st eng. partition_finish reserve eng st)))
     | _ \<Rightarrow> (Panic, eng))"

definition run_complete ::
  "(nat \<Rightarrow> bool) \<Rightarrow> u8 list \<Rightarrow> decode_mode \<Rightarrow> decode_mode \<Rightarrow> encode_mode \<Rightarrow> bool \<Rightarrow>
   (normal_error, u8 list \<times> nat \<times> nat) res" where
  "run_complete reserve payload invalid incomplete unencodable markers =
    bind_res (make_engine reserve invalid incomplete unencodable markers) (\<lambda>eng.
      case cv_max_total_output_len (fuzz_traits reserve) eng (length payload) of
        Ok bound \<Rightarrow>
          (case cv_transcode_complete_into (fuzz_traits reserve) eng payload (replicate bound 0) of
             (r, eng, out) \<Rightarrow>
               map_ok (\<lambda>written. (take written out, decode_count eng, encode_count eng)) (map_err normalize_error r))
      | _ \<Rightarrow> Panic)"

text \<open>The target on its configuration bytes and its data; a failed assertion is a panic.\<close>

definition byte_or_zero :: "u8 list \<Rightarrow> nat \<Rightarrow> u8" where
  "byte_or_zero data i = (if i < length data then data ! i else 0)"

definition partition_verdict ::
  "(model_error, oracle_model) res \<Rightarrow> (normal_error, u8 list \<times> nat \<times> nat) res \<times> fuzz_engine \<Rightarrow>
   (normal_error, u8 list \<times> nat \<times> nat) res \<Rightarrow> bool" where
  "partition_verdict expected partitioned complete =
    (case expected of
       Ok model \<Rightarrow>
         (case (fst partitioned, complete) of
            (Ok (partition_output, _, finish_calls), Ok (complete_output, decodes, encodes)) \<Rightarrow>
              om_output model = partition_output \<and> om_output model = complete_output \<and>
              om_decode_decisions model = decode_count (snd partitioned) \<and>
              om_encode_decisions model = encode_count (snd partitioned) \<and>
              om_decode_decisions model = decodes \<and> om_encode_decisions model = encodes \<and> finish_calls = 1
          | _ \<Rightarrow> False)
     | Err e \<Rightarrow> fst partitioned = Err (normal_model_error e) \<and> complete = Err (normal_model_error e)
     | Panic \<Rightarrow> False)"

definition partition_fuzz_target :: "(nat \<Rightarrow> bool) \<Rightarrow> u8 list \<Rightarrow> (unit, unit) res" where
  "partition_fuzz_target reserve data =
    (let data = take 4096 data;
         schedule_end = min (length data) (4 + 32);
         schedule = drop (min 4 (length data)) (take schedule_end data);
         payload = drop schedule_end data;
         invalid = decode_mode_from_byte (byte_or_zero data 0);
         incomplete = decode_mode_from_byte (byte_or_zero data 1);
         unencodable = encode_mode_from_byte (byte_or_zero data 2);
         markers = byte_or_zero data 3 AND 1 \<noteq> 0;
         expected = semantic_oracle payload invalid incomplete unencodable markers in
     bind_res (make_engine reserve invalid incomplete unencodable markers) (\<lambda>eng.
       if partition_verdict expected (run_partition reserve payload schedule eng)
            (run_complete reserve payload invalid incomplete unencodable markers)
       then Ok () else Panic))"

end
