(* ===== verification/ConvertOracle.thy ===== *)
theory ConvertOracle
  imports ConvertFuzz
begin

text \<open>
  The partition fuzz target never fails. The target's converter keeps the contract of
  \<open>incremental_conversion\<close>; the oracle's loop computes the list specification of the converter;
  the scheduled driver never exceeds its step limit and hands every unit over; hence both ways of
  running the converter give what the oracle gives.
\<close>

section \<open>The turns of the fuzzed codecs\<close>

abbreviation decided :: "('c, decode_policy) decode_engine \<Rightarrow> ('c, decode_policy) decode_engine" where
  "decided d \<equiv> d\<lparr>de_hooks := (de_hooks d)\<lparr>dp_decisions := dp_decisions (de_hooks d) + 1\<rparr>\<rparr>"

abbreviation refused :: "('c, encode_policy) encode_engine \<Rightarrow> ('c, encode_policy) encode_engine" where
  "refused e \<equiv> e\<lparr>ee_hooks := (ee_hooks e)\<lparr>ep_decisions := ep_decisions (ee_hooks e) + 1\<rparr>\<rparr>"

definition pair_turns :: "(unit, decode_policy, u8, u8, invalid_token) decode_turns" where
  "pair_turns d eof i xs =
    (if length xs < 2 then
       if \<not> eof then TurnMore (NZ 1) d
       else (case dp_incomplete (de_hooks d) of
           DecodeModeReject \<Rightarrow> decode_turn.TurnReject (DecodeFailed (IncompleteInput i 2 (length xs))) (decided d)
         | DecodeModeSkip \<Rightarrow> TurnTake (NZ (length xs - 1)) None (decided d)
         | DecodeModeEmit \<Rightarrow> TurnTake (NZ (length xs - 1)) (Some 9) (decided d))
     else if xs ! 0 = 0xff then
       (case dp_invalid (de_hooks d) of
           DecodeModeReject \<Rightarrow> decode_turn.TurnReject (DecodeDomain (DomainMain InvalidToken i (Some nz_min))) (decided d)
         | DecodeModeSkip \<Rightarrow> TurnTake nz_min None (decided d)
         | DecodeModeEmit \<Rightarrow> TurnTake nz_min (Some 7) (decided d))
     else TurnTake (NZ 1) (Some (xs ! 0 + xs ! 1)) d)"

definition target_turns :: "(variable_target, encode_policy, u8, u8, infallible) encode_turns" where
  "target_turns e i v room =
    (if v \<noteq> 0xfe then
       if room < target_encode_len (ee_codec e) v then TurnNeedOutput (NZ (target_encode_len (ee_codec e) v - 1))
       else TurnWrite (append_encoded [] v) e
     else if room < 2 then TurnNeedOutput (NZ 1)
     else (case ep_mode (ee_hooks e) of
         EncodeModeReject \<Rightarrow> encode_turn.TurnReject (EncodeUnencodable i None) (refused e)
       | EncodeModeSkip \<Rightarrow> TurnWrite [] (refused e)
       | EncodeModeReplace \<Rightarrow> TurnWrite [3] (refused e)))"

lemma pair_decode_at:
  "xs = drop i input \<Longrightarrow> 2 \<le> length xs \<Longrightarrow> pair_decode c input i =
    (if xs ! 0 = 0xff then Err (failure_invalid InvalidToken nz_min) else Ok (xs ! 0 + xs ! 1, NZ 1), c)"
  by (auto simp: pair_decode_def slice_get_def)

lemma pair_decode_one:
  assumes "xs = drop (dc_input_index ctx) input" "xs \<noteq> []" "dc_available ctx = length xs"
  shows "decode_one pair_source decode_policy_hooks d input ctx eof pv_new =
    decode_answer (dc_input_index ctx) (pair_turns d eof (dc_input_index ctx) xs)"
proof (cases "length xs < 2")
  case True
  with assms(2) have one: "length xs = 1" by (cases xs) auto
  show ?thesis
    by (cases "dp_incomplete (de_hooks d)")
      (simp_all add: decode_one_def pair_source_def decode_policy_hooks_def policy_handle_incomplete_def
        apply_incomplete_decode_def assms(3) one pair_turns_def eval_nat_numeral)
next
  case False
  then have "2 \<le> length xs" by simp
  note dec = pair_decode_at [OF assms(1) this, of "()"]
  have "nz_min = NZ 0" by (simp add: nz_min_def)
  with False show ?thesis
    by (cases "dp_invalid (de_hooks d)")
      (auto simp: decode_one_def pair_source_def default_decode_eof_def dec assms(3) pair_turns_def
        failure_defs decode_policy_hooks_def policy_handle_invalid_def bound_consumed_def Let_def)
qed

lemma target_encode_call:
  assumes "i \<le> length out" "target_encode_len t v \<le> length out - i"
  shows "call_encode target_codec t v out i =
    (Ok (target_encode_len t v), t, splice_at out i (append_encoded [] v))"
proof (cases "v AND 1 = 0")
  case True
  have "out[i := v, i + 1 := NOT v] = splice_at (splice_at out i [v]) (i + length [v]) [NOT v]"
    using assms True by (simp add: splice_at_single target_encode_len_def)
  also have "\<dots> = splice_at out i [v, NOT v]"
    using assms True by (subst splice_at_append) (simp_all add: target_encode_len_def)
  finally have "out[i := v, i + 1 := NOT v] = splice_at out i [v, NOT v]" .
  with True assms show ?thesis
    by (simp add: call_encode_def target_codec_def target_encode_def write_one_def target_encode_len_def append_encoded_def)
next
  case False
  with assms show ?thesis
    by (simp add: call_encode_def target_codec_def target_encode_def write_one_def target_encode_len_def append_encoded_def
        splice_at_single)
qed

lemma target_encode_one:
  assumes "ea_output_index a \<le> length (ea_output a)"
  shows "encode_answer e a (target_turns e (ea_input_index a) (ea_value a) (ea_available_output a))
    (encode_one target_codec encode_policy_hooks e a)"
proof -
  let ?v = "ea_value a"
  have len: "encode_len target_codec = target_encode_len" "max_encode_units_per_value target_codec = 2"
    "can_encode_value target_codec = target_can_encode" "ec_input_value (ea_context a) = ?v"
    by (simp_all add: target_codec_def ea_context_def)
  have room: "ea_available_output a = length (ea_output a) - ea_output_index a" by (simp add: ea_available_output_def saturating_sub_def)
  show ?thesis
  proof (cases "?v = 0xfe")
    case False
    have "nz_expect (target_encode_len (ee_codec e) ?v) = Ok (NZ (target_encode_len (ee_codec e) ?v - 1))"
      by (rule nz_expect_pos) (simp add: target_encode_len_def)
    moreover have "length (append_encoded [] ?v) = target_encode_len (ee_codec e) ?v"
      by (simp add: append_encoded_def target_encode_len_def)
    ultimately show ?thesis
      using False assms
      by (simp add: encode_one_def encode_encodable_value_def len target_turns_def encode_answer_def target_can_encode_def
          room target_encode_call Let_def) (simp add: target_encode_len_def eval_nat_numeral)
  next
    case True
    then have cannot: "\<not> target_can_encode (ee_codec e) ?v" by (simp add: target_can_encode_def)
    show ?thesis
    proof (cases "ea_available_output a < 2")
      case True
      with cannot \<open>?v = 0xfe\<close> show ?thesis
        by (simp add: encode_one_def len target_turns_def encode_answer_def Let_def eval_nat_numeral)
    next
      case False
      have "target_encode_len (ee_codec e) 3 = 1" "append_encoded [] 3 = [3]"
        by (simp_all add: target_encode_len_def append_encoded_def)
      with False cannot \<open>?v = 0xfe\<close> assms target_encode_call [of "ea_output_index a" "ea_output a" "ee_codec e" 3] room
      show ?thesis
        by (cases "ep_mode (ee_hooks e)")
          (simp_all add: encode_one_def len target_turns_def encode_answer_def Let_def encode_policy_hooks_def
            policy_handle_unencodable_def encode_replacement_value_def target_can_encode_def)
    qed
  qed
qed

interpretation fuzzed: incremental_conversion "fuzz_traits reserve" "\<lambda>_. True" pair_turns "\<lambda>_. True" target_turns
  for reserve
proof (unfold_locales, goal_cases)
  case (2 d xs ctx input eof)
  from pair_decode_one [OF this(2-4)] show ?case by (simp add: fuzz_traits_def)
next
  case (5 e a)
  from target_encode_one [OF this(2)] show ?case by (simp add: fuzz_traits_def)
qed (auto simp: fuzz_traits_def pair_source_def target_codec_def pair_turns_def target_turns_def target_encode_len_def
    append_encoded_def nth_append Suc_le_eq split: if_splits decode_mode.splits encode_mode.splits)

section \<open>The oracle\<close>

text \<open>The engine of the target with its counters at \<open>a\<close> and \<open>b\<close> and nothing waiting, in phase \<open>g\<close>, its
  two nested engines in phase \<open>l\<close>.\<close>

definition fuzz_at ::
  "lifecycle_phase \<Rightarrow> lifecycle_phase \<Rightarrow> decode_mode \<Rightarrow> decode_mode \<Rightarrow> encode_mode \<Rightarrow> bool \<Rightarrow> nat \<Rightarrow> nat \<Rightarrow>
   fuzz_engine" where
  "fuzz_at g l invalid incomplete unencodable markers a b =
    \<lparr>cv_decode_engine = \<lparr>de_codec = (), de_hooks = \<lparr>dp_invalid = invalid, dp_incomplete = incomplete, dp_decisions = a\<rparr>,
        de_lifecycle = \<lparr>guard_phase = l\<rparr>\<rparr>,
     cv_encode_engine = \<lparr>ee_codec = \<lparr>vt_markers = markers\<rparr>, ee_hooks = \<lparr>ep_mode = unencodable, ep_decisions = b\<rparr>,
        ee_lifecycle = \<lparr>guard_phase = l\<rparr>\<rparr>,
     cv_pending = slot_empty, cv_lifecycle = \<lparr>guard_phase = g\<rparr>\<rparr>"

text \<open>The oracle's second half and the encoder's turn.\<close>

lemma append_encoded_append: "append_encoded out v = out @ append_encoded [] v"
  by (simp add: append_encoded_def Let_def)

lemma oracle_store_turn:
  fixes e :: "(variable_target, encode_policy) encode_engine"
  assumes "2 \<le> room" "ep_mode (ee_hooks e) = unencodable" "om_encode_decisions model = ep_decisions (ee_hooks e)"
  shows "case oracle_store unencodable i v model of
      Ok model' \<Rightarrow> \<exists>us e'. target_turns e i v room = TurnWrite us e' \<and> length us \<le> 2 \<and>
        e' = e\<lparr>ee_hooks := (ee_hooks e)\<lparr>ep_decisions := om_encode_decisions model'\<rparr>\<rparr> \<and>
        om_output model' = om_output model @ us \<and> om_decode_decisions model' = om_decode_decisions model
    | Err x \<Rightarrow> target_turns e i v room = encode_turn.TurnReject (EncodeUnencodable i None) (refused e) \<and> x = ModelUnencodable i v
    | Panic \<Rightarrow> False"
  using assms append_encoded_append [of "om_output model"]
  by (cases unencodable) (auto simp: oracle_store_def target_turns_def target_encode_len_def append_encoded_def)

text \<open>The first half and the decoder's turn.\<close>

lemma oracle_read_turn:
  fixes d :: "(unit, decode_policy) decode_engine"
  assumes "i < length payload" "dp_invalid (de_hooks d) = invalid" "dp_incomplete (de_hooks d) = incomplete"
    and "om_decode_decisions model = dp_decisions (de_hooks d)"
  shows "case oracle_read invalid incomplete payload i model of
      OracleFail x \<Rightarrow> \<exists>y d'. pair_turns d True i (drop i payload) = decode_turn.TurnReject y d' \<and>
        normalize_error (convert_of_decode y) = normal_model_error x
    | OracleJump k model' \<Rightarrow> \<exists>n. pair_turns d True i (drop i payload) = TurnTake n None
        (d\<lparr>de_hooks := (de_hooks d)\<lparr>dp_decisions := om_decode_decisions model'\<rparr>\<rparr>) \<and> k = i + nz_get n \<and>
        om_output model' = om_output model \<and> om_encode_decisions model' = om_encode_decisions model
    | OracleValue v model' \<Rightarrow> \<exists>n. pair_turns d True i (drop i payload) = TurnTake n (Some v)
        (d\<lparr>de_hooks := (de_hooks d)\<lparr>dp_decisions := om_decode_decisions model'\<rparr>\<rparr>) \<and>
        nz_get n = (if length payload - i < 2 then 1 else if payload ! i = 0xff then 1 else 2) \<and>
        om_output model' = om_output model \<and> om_encode_decisions model' = om_encode_decisions model"
  using assms
  by (cases invalid; cases incomplete) (auto simp: oracle_read_def pair_turns_def Let_def nz_min_def)

lemma fuzz_min_units: "min_units_per_value (src_codec (fuzz_traits r)) = 2"
  by (simp add: fuzz_traits_def pair_source_def)

abbreviation fuzz_stream ::
  "nat \<Rightarrow> fuzz_engine \<Rightarrow> u8 list \<Rightarrow> nat \<Rightarrow> (fuzz_error, transcode_status) res \<times> nat \<times> u8 list \<times> fuzz_engine" where
  "fuzz_stream \<equiv> convert_stream 2 pair_turns target_turns True"

lemmas fuzz_take = fuzzed.stream_take [where eof = True, unfolded fuzz_min_units]
lemmas fuzz_emit = fuzzed.stream_emit [where eof = True, unfolded fuzz_min_units]
lemmas fuzz_reject = fuzzed.stream_reject [where eof = True, unfolded fuzz_min_units]
lemmas fuzz_refused = fuzzed.stream_refused [where eof = True, unfolded fuzz_min_units]

text \<open>What a stream must have come to, after the units \<open>head\<close>, for a result of the oracle.\<close>

definition oracle_agrees ::
  "u8 list \<Rightarrow> (nat \<Rightarrow> nat \<Rightarrow> fuzz_engine) \<Rightarrow> (model_error, oracle_model) res \<Rightarrow>
   (fuzz_error, transcode_status) res \<Rightarrow> u8 list \<Rightarrow> fuzz_engine \<Rightarrow> bool" where
  "oracle_agrees head at result q us eng \<longleftrightarrow>
    (case result of
      Ok m \<Rightarrow> q = Ok Complete \<and> om_output m = head @ us \<and> eng = at (om_decode_decisions m) (om_encode_decisions m)
    | Err x \<Rightarrow> \<exists>y. q = Err y \<and> normalize_error y = normal_model_error x
    | Panic \<Rightarrow> False)"

lemma oracle_agrees_append: "oracle_agrees (head @ us) at result q ws eng \<Longrightarrow> oracle_agrees head at result q (us @ ws) eng"
  by (auto simp: oracle_agrees_def split: res.splits)

text \<open>A skip of the decoder, and a value that goes from the decoder to the encoder.\<close>

lemma fuzz_skip:
  fixes g l invalid incomplete unencodable markers a b
  defines "at \<equiv> fuzz_at g l invalid incomplete unencodable markers" and "d \<equiv> cv_decode_engine (fuzz_at g l invalid incomplete unencodable markers a b)"
  assumes "i < length payload"
    and "pair_turns d True i (drop i payload) = TurnTake n None (d\<lparr>de_hooks := (de_hooks d)\<lparr>dp_decisions := a'\<rparr>\<rparr>)"
    and "fuzz_stream (i + nz_get n) (at a' b) (drop (i + nz_get n) payload) room = (q, k, us, eng')"
  shows "fuzz_stream i (at a b) (drop i payload) room = (q, nz_get n + k, us, eng')"
proof (rule fuzz_take [OF _ _ _ assms(4) [unfolded d_def at_def [symmetric]]])
  have "(at a b)\<lparr>cv_decode_engine := (cv_decode_engine (at a b))\<lparr>de_hooks := (de_hooks (cv_decode_engine (at a b)))\<lparr>dp_decisions := a'\<rparr>\<rparr>,
      cv_pending := slot_of i None\<rparr> = at a' b" by (simp add: at_def fuzz_at_def slot_of_def slot_empty_def)
  then show "fuzz_stream (i + nz_get n) ((at a b)\<lparr>cv_decode_engine := (cv_decode_engine (at a b))\<lparr>de_hooks :=
      (de_hooks (cv_decode_engine (at a b)))\<lparr>dp_decisions := a'\<rparr>\<rparr>, cv_pending := slot_of i None\<rparr>)
      (drop (nz_get n) (drop i payload)) room = (q, k, us, eng')"
    using assms(5) by (simp add: add.commute)
qed (use assms(3) in \<open>simp_all add: at_def fuzz_at_def slot_empty_def\<close>)

lemma fuzz_value:
  fixes g l invalid incomplete unencodable markers a b
  defines "at \<equiv> fuzz_at g l invalid incomplete unencodable markers" and "d \<equiv> cv_decode_engine (fuzz_at g l invalid incomplete unencodable markers a b)"
  assumes "i < length payload" "2 \<le> room" "om_encode_decisions m = b"
    and "pair_turns d True i (drop i payload) = TurnTake n (Some v) (d\<lparr>de_hooks := (de_hooks d)\<lparr>dp_decisions := a'\<rparr>\<rparr>)"
  shows "case oracle_store unencodable i v m of
      Ok m' \<Rightarrow> \<exists>us. length us \<le> 2 \<and> om_output m' = om_output m @ us \<and> om_decode_decisions m' = om_decode_decisions m \<and>
        (\<forall>q k ws eng'. fuzz_stream (i + nz_get n) (at a' (om_encode_decisions m')) (drop (i + nz_get n) payload) (room - length us)
            = (q, k, ws, eng') \<longrightarrow> fuzz_stream i (at a b) (drop i payload) room = (q, nz_get n + k, us @ ws, eng'))
    | Err x \<Rightarrow> \<exists>y eng'. fuzz_stream i (at a b) (drop i payload) room = (Err y, nz_get n, [], eng') \<and>
        normalize_error y = normal_model_error x
    | Panic \<Rightarrow> False"
proof -
  let ?e = "cv_encode_engine (at a b)" and ?k = "i + nz_get n"
  define eng1 where "eng1 = (at a b)\<lparr>cv_decode_engine := d\<lparr>de_hooks := (de_hooks d)\<lparr>dp_decisions := a'\<rparr>\<rparr>,
    cv_pending := slot_of i (Some v)\<rparr>"
  have k: "drop (nz_get n) (drop i payload) = drop ?k payload" by (simp add: add.commute)
  have slot: "cv_slot (at a b) = None" "drop i payload \<noteq> []" "\<not> (length (drop i payload) < 2 \<and> \<not> True)"
    using assms(3) by (simp_all add: at_def fuzz_at_def slot_empty_def)
  note take = fuzz_take [OF slot, of i n "Some v", folded eng1_def, unfolded k]
  have took: "pair_turns (cv_decode_engine (at a b)) True i (drop i payload) =
      TurnTake n (Some v) (d\<lparr>de_hooks := (de_hooks d)\<lparr>dp_decisions := a'\<rparr>\<rparr>)" using assms(6) by (simp add: d_def at_def)
  note take = fuzz_take [OF slot took, folded eng1_def, unfolded k]
  have waits: "cv_slot eng1 = Some (pv_new v i)" "cv_encode_engine eng1 = ?e"
    "pv_value (pv_new v i) = v" "pv_input_index (pv_new v i) = i" by (simp_all add: eng1_def pv_new_def)
  have "ep_mode (ee_hooks ?e) = unencodable" "om_encode_decisions m = ep_decisions (ee_hooks ?e)"
    using assms(5) by (simp_all add: at_def fuzz_at_def)
  note wr = oracle_store_turn [OF assms(4) this, of i v]
  show ?thesis
  proof (cases "oracle_store unencodable i v m")
    case (Err x)
    with wr fuzz_refused [OF waits(1), unfolded waits] obtain e where
      "fuzz_stream ?k eng1 (drop ?k payload) room = (Err (ConvertUnencodable i (Some v)), 0, [], e)" "x = ModelUnencodable i v" by simp
    with take Err show ?thesis by simp
  next
    case (Ok m')
    with wr obtain us where us: "target_turns ?e i v room = TurnWrite us (?e\<lparr>ee_hooks := (ee_hooks ?e)\<lparr>ep_decisions :=
        om_encode_decisions m'\<rparr>\<rparr>)" "length us \<le> 2" "om_output m' = om_output m @ us"
      "om_decode_decisions m' = om_decode_decisions m" by auto
    have "eng1\<lparr>cv_encode_engine := ?e\<lparr>ee_hooks := (ee_hooks ?e)\<lparr>ep_decisions := om_encode_decisions m'\<rparr>\<rparr>,
        cv_pending := slot_empty\<rparr> = at a' (om_encode_decisions m')" by (simp add: eng1_def at_def d_def fuzz_at_def)
    note emit = fuzz_emit [OF waits(1), unfolded waits, OF us(1), unfolded this]
    show ?thesis using Ok us(2-4) take [OF emit] by auto
  qed (use wr in simp)
qed

lemma oracle_loop_stream:
  fixes g l invalid incomplete unencodable markers
  defines "at \<equiv> fuzz_at g l invalid incomplete unencodable markers"
  assumes "i \<le> length payload" "2 * (length payload - i) \<le> room"
    and "om_decode_decisions model = a" "om_encode_decisions model = b"
  shows "\<exists>q n us eng'. fuzz_stream i (at a b) (drop i payload) room = (q, n, us, eng') \<and>
    oracle_agrees (om_output model) at (oracle_loop invalid incomplete unencodable payload i model) q us eng'"
  using assms(2-)
proof (induction "length payload - i" arbitrary: i room model a b rule: less_induct)
  case less
  let ?loop = "oracle_loop invalid incomplete unencodable payload" and ?d = "cv_decode_engine (at a b)"
  show ?case
  proof (cases "i < length payload")
    case False
    then show ?thesis using less.prems(3,4)
      by (subst convert_stream.simps, subst oracle_loop.simps) (simp add: at_def fuzz_at_def slot_empty_def oracle_agrees_def)
  next
    case True
    have "dp_invalid (de_hooks ?d) = invalid" "dp_incomplete (de_hooks ?d) = incomplete"
      "om_decode_decisions model = dp_decisions (de_hooks ?d)" using less.prems(3) by (simp_all add: at_def fuzz_at_def)
    note rd = oracle_read_turn [OF True this]
    have consumes: "nz_get n \<le> length payload - i" if "pair_turns ?d True i (drop i payload) = TurnTake n ov d'" for n ov d'
      using fuzzed.decode_take [OF _ _ that] True by simp
    show ?thesis
    proof (cases "oracle_read invalid incomplete payload i model")
      case (OracleFail x)
      with rd obtain y d' where y: "pair_turns ?d True i (drop i payload) = decode_turn.TurnReject y d'"
        "normalize_error (convert_of_decode y) = normal_model_error x" by auto
      have "cv_slot (at a b) = None" "drop i payload \<noteq> []" using True by (simp_all add: at_def fuzz_at_def slot_empty_def)
      from fuzz_reject [OF this _ y(1)] y(2) OracleFail True show ?thesis
        by (subst oracle_loop.simps) (auto simp: oracle_agrees_def)
    next
      case (OracleJump k m)
      with rd obtain n where n: "pair_turns ?d True i (drop i payload) = TurnTake n None
          (?d\<lparr>de_hooks := (de_hooks ?d)\<lparr>dp_decisions := om_decode_decisions m\<rparr>\<rparr>)" "k = i + nz_get n"
        "om_output m = om_output model" "om_encode_decisions m = om_encode_decisions model" by auto
      from consumes [OF n(1)] n(2,4) less.prems True have prems: "length payload - k < length payload - i" "k \<le> length payload"
        "2 * (length payload - k) \<le> room" "om_encode_decisions m = b" by (auto simp: nz_sub_less)
      have "?loop i model = ?loop k m" using OracleJump True by (subst oracle_loop.simps) simp
      with less.hyps [OF prems(1-3) refl prems(4)] n(2,3) fuzz_skip [OF True n(1) [unfolded at_def], of room]
      show ?thesis unfolding at_def by fastforce
    next
      case (OracleValue v m)
      with rd obtain n where n: "pair_turns ?d True i (drop i payload) = TurnTake n (Some v)
          (?d\<lparr>de_hooks := (de_hooks ?d)\<lparr>dp_decisions := om_decode_decisions m\<rparr>\<rparr>)"
        "nz_get n = (if length payload - i < 2 then 1 else if payload ! i = 0xff then 1 else 2)"
        "om_output m = om_output model" "om_encode_decisions m = om_encode_decisions model" by auto
      let ?k = "i + nz_get n"
      have "2 \<le> room" "om_encode_decisions m = b" using less.prems(2,4) n(4) True by simp_all
      note val = fuzz_value [OF True this n(1) [unfolded at_def], folded at_def]
      show ?thesis
      proof (cases "oracle_store unencodable i v m")
        case (Err x)
        then have "?loop i model = Err x" using OracleValue True by (subst oracle_loop.simps) simp
        with val Err show ?thesis by (auto simp: oracle_agrees_def)
      next
        case (Ok m')
        then have same: "?loop i model = ?loop ?k m'" using OracleValue True n(2) by (subst oracle_loop.simps) simp
        from val Ok obtain us where us: "length us \<le> 2" "om_output m' = om_output m @ us"
          "om_decode_decisions m' = om_decode_decisions m"
          "\<And>q k ws eng'. fuzz_stream ?k (at (om_decode_decisions m') (om_encode_decisions m')) (drop ?k payload) (room - length us)
            = (q, k, ws, eng') \<Longrightarrow> fuzz_stream i (at a b) (drop i payload) room = (q, nz_get n + k, us @ ws, eng')" by auto
        from consumes [OF n(1)] us(1) less.prems True have prems: "length payload - ?k < length payload - i" "?k \<le> length payload"
          "2 * (length payload - ?k) \<le> room - length us" by (auto simp: nz_sub_less) (use nz_get_pos [of n] in linarith)
        from less.hyps [OF prems refl refl, of m'] us(2) n(3) same show ?thesis
          by (metis us(4) oracle_agrees_append)
      qed (use val in simp)
    qed
  qed
qed

section \<open>The scheduled driver\<close>

definition partition_window :: "u8 list \<Rightarrow> partition_state \<Rightarrow> nat" where
  "partition_window schedule st = (case pt_required_window st of Some w \<Rightarrow> w
    | None \<Rightarrow> unat (partition_control schedule (pt_schedule_index st) mod 6))"

abbreviation partition_call ::
  "(nat \<Rightarrow> bool) \<Rightarrow> u8 list \<Rightarrow> u8 list \<Rightarrow> fuzz_engine \<Rightarrow> partition_state \<Rightarrow>
   (fuzz_error, transcode_progress) res \<times> fuzz_engine \<times> u8 list" where
  "partition_call reserve payload schedule eng st \<equiv>
    cv_transcode_with_eof (fuzz_traits reserve) eng (take (pt_visible st) payload) (pt_cursor st)
      (replicate (partition_window schedule st) 0) 0 (pt_eof st)"

text \<open>What holds between turns, relative to the engine \<open>init\<close> the loop started with and the
  units \<open>head\<close> of the reset; and what is left to do.\<close>

definition partition_inv ::
  "(nat \<Rightarrow> bool) \<Rightarrow> u8 list \<Rightarrow> fuzz_engine \<Rightarrow> u8 list \<Rightarrow> fuzz_engine \<Rightarrow> partition_state \<Rightarrow> bool" where
  "partition_inv reserve payload init head eng st \<longleftrightarrow>
    (\<exists>ws. cv_driven (fuzz_traits reserve) payload init (pt_cursor st) ws eng \<and> pt_output st = head @ ws) \<and>
    pt_cursor st \<le> pt_visible st \<and> pt_visible st \<le> length payload \<and>
    (pt_eof st \<longrightarrow> pt_visible st = length payload) \<and> \<not> pt_eof_complete st \<and> pt_schedule_index st = pt_steps st \<and>
    (case pt_required_window st of Some w \<Rightarrow> w \<le> 2 \<and> fuzzed.unblocked eng w | None \<Rightarrow> cv_slot eng = None)"

definition partition_left :: "u8 list \<Rightarrow> partition_state \<Rightarrow> nat" where
  "partition_left payload st =
    (length payload - pt_cursor st) + (length payload - pt_visible st) + (if pt_eof st then 0 else 1)"

lemma partition_window_bound: "partition_inv reserve payload init head eng st \<Longrightarrow> partition_window schedule st \<le> 5"
proof -
  have "unat (c mod 6) \<le> 5" for c :: u8
    using unat_mod [of c 6] by (simp add: less_Suc_eq_le [symmetric])
  then show "partition_inv reserve payload init head eng st \<Longrightarrow> partition_window schedule st \<le> 5"
    by (auto simp: partition_inv_def partition_window_def split: option.splits)
qed

lemma partition_unblocked: "partition_inv reserve payload init head eng st \<Longrightarrow> fuzzed.unblocked (cv_opened eng) (partition_window schedule st)"
  by (auto simp: partition_inv_def partition_window_def fuzzed.unblocked_def split: option.splits)

text \<open>A turn whose call succeeds, and one whose call fails.\<close>

lemma partition_turn_reports:
  assumes "pt_steps st < limit" "limit \<le> usize_max" "pt_visible st \<le> length payload"
    and "partition_call reserve payload schedule eng st = (Ok p, eng', buf')"
    and "validate p (pt_cursor st) (pt_visible st - pt_cursor st) 0 (partition_window schedule st) = Ok ()"
    and "pt_cursor st + tp_read p \<le> usize_max" "pt_schedule_index st = pt_steps st"
  shows "partition_turn reserve payload schedule limit eng st =
    (map_ok (\<lambda>st'. st'\<lparr>pt_schedule_index := Suc (pt_schedule_index st')\<rparr>)
      (partition_status payload (partition_control schedule (pt_schedule_index st))
        (st\<lparr>pt_steps := Suc (pt_steps st), pt_required_window := None, pt_cursor := pt_cursor st + tp_read p,
           pt_output := pt_output st @ take (tp_written p) buf'\<rparr>) (tp_status p)), eng')"
proof -
  have "checked_add (pt_steps st) 1 = Some (Suc (pt_steps st))" "checked_add (pt_cursor st) (tp_read p) = Some (pt_cursor st + tp_read p)"
    using assms(1,2,6) by (simp_all add: checked_add_def)
  moreover have "checked_add (pt_schedule_index st) 1 = Some (Suc (pt_schedule_index st))"
    using assms(1,2,7) by (simp add: checked_add_def)
  ultimately show ?thesis
    using assms(1,3,4,5)
    by (cases "pt_eof st"; cases "tp_status p") (simp_all add: partition_turn_def cv_transcode_def cv_transcode_eof_def partition_window_def
        partition_status_def Let_def)
qed

lemma partition_turn_fails:
  assumes "pt_steps st < limit" "limit \<le> usize_max" "pt_visible st \<le> length payload"
    and "partition_call reserve payload schedule eng st = (Err x, eng', buf')"
  shows "partition_turn reserve payload schedule limit eng st = (Err (normalize_error x), eng')"
proof -
  have "checked_add (pt_steps st) 1 = Some (Suc (pt_steps st))"
    using assms(1,2) by (simp add: checked_add_def)
  then show ?thesis
    using assms(1,3,4)
    by (cases "pt_eof st") (simp_all add: partition_turn_def cv_transcode_def cv_transcode_eof_def partition_window_def Let_def)
qed

text \<open>One turn: it ends the loop with a completed call at the end of the input, fails with the error
  of its call, or leaves less to do.\<close>

lemma partition_turn_cases:
  assumes inv: "partition_inv reserve payload init head eng st" and "stream_phase (cv_phase init)"
    and "pt_steps st < limit" "limit \<le> usize_max" "length payload \<le> usize_max"
  obtains
    (ended) p eng' buf' st' where "partition_call reserve payload schedule eng st = (Ok p, eng', buf')"
      "partition_turn reserve payload schedule limit eng st = (Ok st', eng')" "is_complete p" "pt_eof st"
      "pt_eof st'" "pt_eof_complete st'" "pt_output st' = pt_output st @ take (tp_written p) buf'"
  | (failed) x eng' buf' where "partition_call reserve payload schedule eng st = (Err x, eng', buf')"
      "partition_turn reserve payload schedule limit eng st = (Err (normalize_error x), eng')"
  | (goes_on) st' eng' where "partition_turn reserve payload schedule limit eng st = (Ok st', eng')"
      "partition_inv reserve payload init head eng' st'" "pt_steps st' = Suc (pt_steps st)"
      "partition_left payload st' < partition_left payload st"
proof -
  let ?K = "fuzz_traits reserve" and ?w = "partition_window schedule st" and ?xs = "take (pt_visible st) payload"
  let ?c = "partition_control schedule (pt_schedule_index st)"
  from inv obtain ws where driven: "cv_driven ?K payload init (pt_cursor st) ws eng" "pt_output st = head @ ws"
    and st: "pt_cursor st \<le> pt_visible st" "pt_visible st \<le> length payload" "pt_eof st \<Longrightarrow> pt_visible st = length payload"
      "\<not> pt_eof_complete st" "pt_schedule_index st = pt_steps st" by (auto simp: partition_inv_def)
  have phase: "stream_phase (cv_phase eng)" using fuzzed.driven_invariant [OF driven(1) _ assms(2)] by simp
  have cur: "pt_cursor st \<le> length ?xs" using st(1,2) by simp
  obtain r eng' buf' where call: "partition_call reserve payload schedule eng st = (r, eng', buf')" by (metis prod_cases3)
  obtain q n us e where spec: "fuzzed.stream reserve (pt_eof st) (pt_cursor st) (cv_opened eng) (drop (pt_cursor st) ?xs)
      (length (replicate ?w (0 :: u8)) - 0) = (q, n, us, e)" by (metis prod_cases4)
  note ref = fuzzed.call_refines [OF _ phase cur le0 spec call] and bounds = fuzzed.stream_bounds [OF _ spec]
  show thesis
  proof (cases r)
    case (Err x)
    from call partition_turn_fails [OF assms(3,4) st(2)] show ?thesis unfolding Err by (intro failed)
  next
    case Panic
    with ref bounds show ?thesis by (cases q) simp_all
  next
    case (Ok p)
    with ref obtain s where s: "q = Ok s" "p = progress_new s n (length us)" by (cases q) auto
    from ref have "eng' = e" "take (0 + length us) buf' = take 0 (replicate ?w 0) @ us" by blast+
    then have eng': "eng' = e" "take (length us) buf' = us" by simp_all
    have "valid_progress p (pt_cursor st) (length ?xs - pt_cursor st) 0 (length (replicate ?w (0 :: u8)) - 0)"
      using cv_transcode_report [OF call [unfolded Ok]] assms(5) partition_window_bound [OF inv, of schedule] st(2)
      by (simp add: usize_max_def)
    then have valid: "validate p (pt_cursor st) (pt_visible st - pt_cursor st) 0 ?w = Ok ()"
      using st(2) by (simp add: validate_Ok_iff)
    have n: "n \<le> pt_visible st - pt_cursor st" using bounds st(2) by simp
    note turn = partition_turn_reports [OF assms(3,4) st(2) call [unfolded Ok] valid _ st(5)]
    let ?st = "st\<lparr>pt_steps := Suc (pt_steps st), pt_required_window := None, pt_cursor := pt_cursor st + n,
      pt_output := pt_output st @ us\<rparr>"
    have turn: "partition_turn reserve payload schedule limit eng st =
      (map_ok (\<lambda>st'. st'\<lparr>pt_schedule_index := Suc (pt_schedule_index st')\<rparr>) (partition_status payload ?c ?st s), eng')"
      using turn s(2) eng'(2) n st(1,2) assms(5) by (simp add: progress_defs)
    have driven': "cv_driven ?K payload init (pt_cursor st + n) (ws @ us) eng'"
      using cv_driven.call [OF driven(1) st(1,2,3) _ call [unfolded Ok]] s(2) eng'(2) by (simp add: progress_defs)
    let ?grown = "?st\<lparr>pt_visible := min (pt_visible st + unat (?c mod 16) + 1) (length payload)\<rparr>"
    show ?thesis
    proof (cases s)
      case (NeedOutput req)
      have "nz_get req \<le> 2" using bounds s(1) NeedOutput by (simp add: fuzz_traits_def target_codec_def)
      moreover have "fuzzed.unblocked eng' (nz_get req)"
        using fuzzed.stream_need_unblocks [OF _ spec [unfolded s(1) NeedOutput] order_refl] eng'(1) by simp
      moreover have "0 < n"
        using fuzzed.stream_unblocked_progress [OF _ spec [unfolded s(1) NeedOutput]] partition_unblocked [OF inv] by simp
      ultimately show ?thesis
        using turn driven' driven(2) st n NeedOutput
        by (intro goes_on) (auto simp: partition_status_def partition_inv_def partition_left_def)
    next
      case (NeedInput req)
      with bounds s(1) have slot: "cv_slot eng' = None" "\<not> pt_eof st" using eng'(1) by auto
      with turn driven' driven(2) st n NeedInput show ?thesis
        by (cases "pt_visible st < length payload"; intro goes_on)
          (auto simp: partition_status_def partition_inv_def partition_left_def Let_def)
    next
      case Complete
      with bounds s(1) have slot: "cv_slot eng' = None" using eng'(1) by auto
      show ?thesis
      proof (cases "pt_eof st")
        case True
        let ?done = "?st\<lparr>pt_eof_complete := True, pt_schedule_index := Suc (pt_schedule_index st)\<rparr>"
        have "partition_turn reserve payload schedule limit eng st = (Ok ?done, eng')"
          using turn Complete True by (simp add: partition_status_def)
        from ended [OF call [unfolded Ok] this] True Complete s(2) eng'(2) show ?thesis by (simp add: progress_defs)
      next
        case False
        with turn driven' driven(2) st n Complete slot show ?thesis
          by (cases "pt_visible st < length payload"; intro goes_on)
            (auto simp: partition_status_def partition_inv_def partition_left_def Let_def)
      qed
    qed
  qed
qed

text \<open>The loop: with steps for everything left to do, it ends with such a turn.\<close>

lemma partition_loop_ends:
  assumes "partition_inv reserve payload init head eng st" "stream_phase (cv_phase init)"
    and "pt_steps st + partition_left payload st < limit" "limit \<le> usize_max" "length payload \<le> usize_max"
  obtains eng1 st1 r eng' buf' where "partition_inv reserve payload init head eng1 st1"
    "partition_call reserve payload schedule eng1 st1 = (r, eng', buf')"
    "case r of
        Ok p \<Rightarrow> is_complete p \<and> pt_eof st1 \<and> (\<exists>st'. pt_eof st' \<and> pt_output st' = pt_output st1 @ take (tp_written p) buf' \<and>
          partition_loop reserve payload schedule limit eng st = (Ok st', eng'))
      | Err x \<Rightarrow> partition_loop reserve payload schedule limit eng st = (Err (normalize_error x), eng')
      | Panic \<Rightarrow> False"
  using assms(1,3)
proof (induction "partition_left payload st" arbitrary: eng st thesis rule: less_induct)
  case less
  have going: "\<not> pt_eof_complete st" using less.prems(2) by (simp add: partition_inv_def)
  have "pt_steps st < limit" using less.prems(3) by simp
  from less.prems(2) assms(2) this assms(4,5) show ?case
  proof (cases rule: partition_turn_cases [where schedule = schedule])
    case (ended p eng' buf' st')
    then have "partition_loop reserve payload schedule limit eng st = (Ok st', eng')"
      using going by (subst partition_loop.simps) (simp, subst partition_loop.simps, simp)
    with ended show ?thesis by (intro less.prems(1) [OF less.prems(2) ended(1)]) auto
  next
    case (failed x eng' buf')
    then have "partition_loop reserve payload schedule limit eng st = (Err (normalize_error x), eng')"
      using going by (subst partition_loop.simps) simp
    then show ?thesis by (intro less.prems(1) [OF less.prems(2) failed(1)]) simp
  next
    case (goes_on st' eng')
    have steps: "pt_steps st' + partition_left payload st' < limit" using goes_on(3,4) less.prems(3) by simp
    have "partition_loop reserve payload schedule limit eng st = partition_loop reserve payload schedule limit eng' st'"
      using goes_on(1) going by (subst partition_loop.simps) simp
    note same = this
    show ?thesis
      by (rule less.hyps [OF goes_on(4) _ goes_on(2) steps, folded same]) (rule less.prems(1); assumption)
  qed
qed

text \<open>Hence the loop is one call on the whole payload.\<close>

lemma partition_loop_joins:
  assumes "cv_slot init = None" "stream_phase (cv_phase init)" "2 * length payload + 1 < limit" "limit \<le> usize_max"
    and "partition_loop reserve payload schedule limit init (partition_start head) = (r, eng')"
  shows "\<exists>least. \<forall>out. least \<le> length out \<longrightarrow> (case r of
      Ok st \<Rightarrow> pt_eof st \<and> (\<exists>us. pt_output st = head @ us \<and> cv_transcode_eof (fuzz_traits reserve) init payload 0 out 0 =
        (Ok (progress_complete (length payload) (length us)), eng', splice_at out 0 us))
    | Err e \<Rightarrow> \<exists>x out'. cv_transcode_eof (fuzz_traits reserve) init payload 0 out 0 = (Err x, eng', out') \<and> e = normalize_error x
    | Panic \<Rightarrow> False)"
proof -
  have start: "partition_inv reserve payload init head init (partition_start head)"
    using assms(1) cv_driven.start [of "fuzz_traits reserve" payload init] by (auto simp: partition_inv_def partition_start_def)
  have "pt_steps (partition_start head) + partition_left payload (partition_start head) < limit" "length payload \<le> usize_max"
    using assms(3,4) by (simp_all add: partition_start_def partition_left_def)
  from partition_loop_ends [OF start assms(2) this(1) assms(4) this(2), where schedule = schedule]
  obtain eng1 st1 rc e1 buf' where last: "partition_inv reserve payload init head eng1 st1"
    "partition_call reserve payload schedule eng1 st1 = (rc, e1, buf')"
    "case rc of
        Ok p \<Rightarrow> is_complete p \<and> pt_eof st1 \<and> (\<exists>st'. pt_eof st' \<and> pt_output st' = pt_output st1 @ take (tp_written p) buf' \<and>
          (r, eng') = (Ok st', e1))
      | Err x \<Rightarrow> (r, eng') = (Err (normalize_error x), e1)
      | Panic \<Rightarrow> False" unfolding assms(5) by blast
  from last(1) obtain ws where driven: "cv_driven (fuzz_traits reserve) payload init (pt_cursor st1) ws eng1"
    "pt_output st1 = head @ ws" "pt_cursor st1 \<le> pt_visible st1" "pt_visible st1 \<le> length payload"
    "pt_eof st1 \<Longrightarrow> pt_visible st1 = length payload" by (auto simp: partition_inv_def)
  have "\<And>p. rc = Ok p \<Longrightarrow> pt_eof st1 \<and> is_complete p" using last(3) by auto
  from fuzzed.driven_joins [OF driven(1) _ assms(2) driven(3-5) le0 last(2) this] obtain least where least:
    "\<And>out. least \<le> length out \<Longrightarrow> (case rc of
      Ok p \<Rightarrow> cv_transcode_eof (fuzz_traits reserve) init payload 0 out 0 =
        (Ok (progress_complete (length payload) (length ws + tp_written p)), e1,
         splice_at out 0 (ws @ take (tp_written p) (drop 0 buf')))
    | Err e \<Rightarrow> \<exists>out'. cv_transcode_eof (fuzz_traits reserve) init payload 0 out 0 = (Err e, e1, out') \<and> take (length ws) out' = ws
    | Panic \<Rightarrow> False)" by blast
  have "case r of
      Ok st \<Rightarrow> pt_eof st \<and> (\<exists>us. pt_output st = head @ us \<and> cv_transcode_eof (fuzz_traits reserve) init payload 0 out 0 =
        (Ok (progress_complete (length payload) (length us)), eng', splice_at out 0 us))
    | Err e \<Rightarrow> \<exists>x out'. cv_transcode_eof (fuzz_traits reserve) init payload 0 out 0 = (Err x, eng', out') \<and> e = normalize_error x
    | Panic \<Rightarrow> False" if "least \<le> length out" for out
  proof (cases rc)
    case (Ok p)
    from driven(1) last(1) have "stream_phase (cv_phase eng1)" using fuzzed.driven_invariant [OF driven(1) _ assms(2)] by simp
    moreover have "pt_cursor st1 \<le> length (take (pt_visible st1) payload)" using driven(3,4) by simp
    ultimately have "length (take (tp_written p) buf') = tp_written p"
      using fuzzed.call_report [OF _ _ _ le0 last(2) [unfolded Ok]] by (metis (no_types, lifting) diff_zero length_take min.absorb2 TrueI)
    with least [OF that] last(3) Ok driven(2) show ?thesis by auto
  qed (use least [OF that] last(3) in auto)
  then show ?thesis by blast
qed

section \<open>The lifecycle around the loop\<close>

abbreviation marked :: "bool \<Rightarrow> u8 list \<Rightarrow> nat \<Rightarrow> u8 \<Rightarrow> u8 list" where
  "marked markers out j x \<equiv> (if markers then out[j := x] else out)"

lemmas fuzz_simps =
  fuzz_traits_def pair_source_def target_codec_def decode_policy_hooks_def encode_policy_hooks_def
  codec_default_defs hook_default_defs default_dh_max_transcode_def

lemma make_engine_eq:
  "make_engine reserve invalid incomplete unencodable markers =
    Ok (fuzz_at Uninitialized Uninitialized invalid incomplete unencodable markers 0 0)"
  by (simp add: make_engine_def cv_new_def de_new_def ee_new_def assert_unit_bounds_def fuzz_simps fuzz_at_def guard_new_def)

lemma fuzz_counts: "decode_count (fuzz_at g l invalid incomplete unencodable markers a b) = a"
    "encode_count (fuzz_at g l invalid incomplete unencodable markers a b) = b"
  by (simp_all add: decode_count_def encode_count_def fuzz_at_def)

lemma fuzz_reset_bound: "cv_max_reset_output_len (fuzz_traits reserve) eng = Ok 1"
  by (simp add: cv_max_reset_output_len_def ee_max_transcode_output_len_def fuzz_simps add_convert_output_bounds_def
      checked_add_def checked_mul_def usize_max_def)

lemma fuzz_finish_bound: "cv_max_finish_output_len (fuzz_traits reserve) eng = Ok 3"
  by (simp add: cv_max_finish_output_len_def cv_finish_output_len_def de_max_finish_output_len_def ee_max_finish_output_len_def
      ee_max_transcode_output_len_def fuzz_simps sum_convert_output_bounds_def add_convert_output_bounds_def
      add_decode_output_bounds_def checked_add_def checked_mul_def usize_max_def)

lemma fuzz_transcode_bound:
  "2 * n + 2 \<le> usize_max \<Longrightarrow> cv_max_transcode_output_len (fuzz_traits reserve) eng n = Ok (2 * n + 2)"
  by (simp add: cv_max_transcode_output_len_def de_max_transcode_output_len_def ee_max_transcode_output_len_def fuzz_simps
      add_convert_output_bounds_def checked_add_def checked_mul_def usize_max_def)

text \<open>The lifecycle calls of the two nested engines.\<close>

lemma capacity_left: "i + r \<le> n \<Longrightarrow> n \<le> usize_max \<Longrightarrow> ensure_output_capacity n i r = Ok ()"
  using ensure_output_capacity_Ok [of n i r "()"] by simp

lemma target_reset:
  assumes "j < length out" "length out \<le> usize_max"
  shows "ee_reset target_codec encode_policy_hooks \<lparr>ee_codec = \<lparr>vt_markers = m\<rparr>, ee_hooks = h, ee_lifecycle = l\<rparr> out j =
    (Ok (if m then 1 else 0), \<lparr>ee_codec = \<lparr>vt_markers = m\<rparr>, ee_hooks = h, ee_lifecycle = \<lparr>guard_phase = Fresh\<rparr>\<rparr>, marked m out j 0xa0)"
proof -
  have "ensure_output_capacity (length out) j (Suc 0) = Ok ()" using assms by (intro capacity_left) simp_all
  with assms(1) show ?thesis
    by (cases l) (simp add: ee_reset_def ee_max_reset_output_len_def call_defs target_codec_def encode_policy_hooks_def hook_default_defs
        target_encode_reset_def write_one_def guard_defs Let_def)
qed

lemma target_finish:
  assumes "j < length out" "length out \<le> usize_max"
  shows "ee_finish target_codec encode_policy_hooks \<lparr>ee_codec = \<lparr>vt_markers = m\<rparr>, ee_hooks = h, ee_lifecycle = \<lparr>guard_phase = Fresh\<rparr>\<rparr> out j =
    (Ok (if m then 1 else 0), \<lparr>ee_codec = \<lparr>vt_markers = m\<rparr>, ee_hooks = h, ee_lifecycle = \<lparr>guard_phase = Finished\<rparr>\<rparr>, marked m out j 0xa1)"
proof -
  have "ensure_output_capacity (length out) j (Suc 0) = Ok ()" using assms by (intro capacity_left) simp_all
  moreover have "on_finish_attempt \<lparr>guard_phase = Fresh\<rparr> = Ok ()" by (simp add: on_finish_attempt.simps)
  moreover have "checked_add (Suc 0) 0 = Some (Suc 0)" by (simp add: checked_add_def usize_max_def)
  ultimately show ?thesis using assms(1)
    by (simp add: ee_finish_def call_defs target_codec_def encode_policy_hooks_def hook_default_defs
        target_encode_finish_def write_one_def guard_defs Let_def)
qed

lemma pair_reset:
  "de_reset pair_source decode_policy_hooks \<lparr>de_codec = (), de_hooks = h, de_lifecycle = l\<rparr> [] 0 =
    (Ok 0, \<lparr>de_codec = (), de_hooks = h, de_lifecycle = \<lparr>guard_phase = Fresh\<rparr>\<rparr>, [])"
  using capacity_left [of 0 0 0]
  by (cases l) (simp add: de_reset_def call_defs pair_source_def decode_policy_hooks_def hook_default_defs codec_default_defs guard_defs Let_def)

lemma pair_finish:
  "de_finish pair_source decode_policy_hooks \<lparr>de_codec = (), de_hooks = h, de_lifecycle = \<lparr>guard_phase = Fresh\<rparr>\<rparr> [] 0 =
    (Ok 0, \<lparr>de_codec = (), de_hooks = h, de_lifecycle = \<lparr>guard_phase = Finished\<rparr>\<rparr>, [])"
proof -
  have "on_finish_attempt \<lparr>guard_phase = Fresh\<rparr> = Ok ()" by (simp add: on_finish_attempt.simps)
  moreover have "checked_add 0 0 = Some 0" by (simp add: checked_add_def)
  ultimately show ?thesis using capacity_left [of 0 0 0]
    by (simp add: de_finish_def call_defs pair_source_def decode_policy_hooks_def hook_default_defs codec_default_defs guard_defs Let_def)
qed

lemma fuzz_reset:
  assumes "0 < length out" "length out \<le> usize_max"
  shows "cv_reset (fuzz_traits reserve) (fuzz_at g l invalid incomplete unencodable markers a b) out 0 =
    (Ok (if markers then 1 else 0), fuzz_at Fresh Fresh invalid incomplete unencodable markers a b, marked markers out 0 0xa0)"
proof -
  have "ensure_output_capacity (length out) 0 (Suc 0) = Ok ()" using assms by (intro capacity_left) (simp_all add: Suc_le_eq)
  moreover have traits: "tgt_codec (fuzz_traits reserve) = target_codec" "tgt_hooks (fuzz_traits reserve) = encode_policy_hooks"
    "src_codec (fuzz_traits reserve) = pair_source" "src_hooks (fuzz_traits reserve) = decode_policy_hooks"
    "max_decode_reset_values pair_source = 0" by (simp_all add: fuzz_simps)
  ultimately show ?thesis
    using assms target_reset [OF assms] Suc_le_eq [of 0 "length out"]
    by (cases markers) (simp_all add: cv_reset_def fuzz_reset_bound cv_encoder_call_def cv_drain_decoder_reset_def traits pair_reset
        fuzz_at_def guard_defs slot_defs cs_defs ts_defs Let_def)
qed

lemma fuzz_finish:
  assumes "j < length out" "length out \<le> usize_max"
  shows "cv_finish (fuzz_traits reserve) (fuzz_at Streaming Fresh invalid incomplete unencodable markers a b) out j =
    (Ok (if markers then 1 else 0), fuzz_at Finished Finished invalid incomplete unencodable markers a b, marked markers out j 0xa1)"
proof -
  have "ensure_output_capacity (length out) j (Suc 0) = Ok ()" using assms by (intro capacity_left) simp_all
  moreover have "on_finish_attempt \<lparr>guard_phase = Streaming\<rparr> = Ok ()" by (simp add: on_finish_attempt.simps)
  moreover have "cv_current_finish_output_len (fuzz_traits reserve) (fuzz_at Streaming Fresh invalid incomplete unencodable markers a b) = Ok (Suc 0)"
    by (simp add: cv_current_finish_output_len_def cv_finish_output_len_def slot_current_output_len_def de_max_finish_output_len_def
        ee_max_finish_output_len_def ee_max_transcode_output_len_def fuzz_simps sum_convert_output_bounds_def
        add_convert_output_bounds_def add_decode_output_bounds_def checked_add_def checked_mul_def usize_max_def fuzz_at_def slot_empty_def)
  moreover have "de_max_finish_output_len pair_source decode_policy_hooks d = Ok 0" for d
    by (simp add: de_max_finish_output_len_def add_decode_output_bounds_def checked_add_def fuzz_simps)
  moreover have traits: "tgt_codec (fuzz_traits reserve) = target_codec" "tgt_hooks (fuzz_traits reserve) = encode_policy_hooks"
    "src_codec (fuzz_traits reserve) = pair_source" "src_hooks (fuzz_traits reserve) = decode_policy_hooks" by (simp_all add: fuzz_simps)
  ultimately show ?thesis
    using assms target_finish [OF assms] Suc_le_eq [of j "length out"]
    by (cases markers) (simp_all add: cv_finish_def cv_drain_pending_def cv_drain_decoder_finish_def cv_encoder_call_def pair_finish
        fuzz_at_def guard_defs slot_defs cs_defs ts_defs Let_def)
qed

section \<open>Both ways of running the converter give what the oracle gives\<close>

abbreviation fresh_model :: "u8 list \<Rightarrow> oracle_model" where
  "fresh_model head \<equiv> \<lparr>om_output = head, om_decode_decisions = 0, om_encode_decisions = 0\<rparr>"

abbreviation marker :: "bool \<Rightarrow> u8 \<Rightarrow> u8 list" where
  "marker markers x \<equiv> (if markers then [x] else [])"

text \<open>One call on the whole payload, with room for two units per unit.\<close>

lemma fuzz_transcode_eof:
  assumes "2 * length payload \<le> length out - j" "j \<le> length out"
  shows "case oracle_loop invalid incomplete unencodable payload 0 (fresh_model head) of
      Ok m \<Rightarrow> \<exists>us. om_output m = head @ us \<and> length us \<le> 2 * length payload \<and>
        cv_transcode_eof (fuzz_traits reserve) (fuzz_at Fresh Fresh invalid incomplete unencodable markers 0 0) payload 0 out j =
          (Ok (progress_complete (length payload) (length us)),
           fuzz_at Streaming Fresh invalid incomplete unencodable markers (om_decode_decisions m) (om_encode_decisions m),
           splice_at out j us)
    | Err x \<Rightarrow> \<exists>y eng' out'. cv_transcode_eof (fuzz_traits reserve)
        (fuzz_at Fresh Fresh invalid incomplete unencodable markers 0 0) payload 0 out j = (Err y, eng', out') \<and>
        normalize_error y = normal_model_error x
    | Panic \<Rightarrow> False"
proof -
  let ?init = "fuzz_at Fresh Fresh invalid incomplete unencodable markers 0 0"
  have opened: "cv_opened ?init = fuzz_at Streaming Fresh invalid incomplete unencodable markers 0 0" by (simp add: fuzz_at_def)
  have phase: "stream_phase (cv_phase ?init)" by (simp add: fuzz_at_def stream_phase_def)
  let ?at = "fuzz_at Streaming Fresh invalid incomplete unencodable markers"
    and ?expected = "oracle_loop invalid incomplete unencodable payload 0 (fresh_model head)"
  obtain q n us e where spec: "fuzz_stream 0 (cv_opened ?init) (drop 0 payload) (2 * length payload) = (q, n, us, e)"
    and model: "oracle_agrees head ?at ?expected q us e"
    using oracle_loop_stream [of 0 payload "2 * length payload" "fresh_model head" 0 0 Streaming Fresh invalid incomplete unencodable markers]
    unfolding opened by auto
  have "q \<noteq> Ok (NeedOutput req)" for req using model by (auto simp: oracle_agrees_def split: res.splits)
  from fuzzed.stream_more_room [unfolded fuzz_min_units, OF _ spec this assms(1)]
  have more: "fuzz_stream 0 (cv_opened ?init) (drop 0 payload) (length out - j) = (q, n, us, e)" by simp
  note bounds = fuzzed.stream_bounds [unfolded fuzz_min_units, OF _ spec]
  obtain r eng' out' where call: "cv_transcode_with_eof (fuzz_traits reserve) ?init payload 0 out j True = (r, eng', out')"
    by (metis prod_cases3)
  note ref = fuzzed.call_refines [unfolded fuzz_min_units, OF _ phase le0 assms(2) more call]
  show ?thesis using model bounds ref call
    by (auto simp: oracle_agrees_def cv_transcode_eof_def progress_defs split: res.splits)
qed

lemma oracle_markers:
  "semantic_oracle payload invalid incomplete unencodable markers =
    map_ok (\<lambda>m. m\<lparr>om_output := om_output m @ marker markers 0xa1\<rparr>)
      (oracle_loop invalid incomplete unencodable payload 0 (fresh_model (marker markers 0xa0)))"
  by (cases "oracle_loop invalid incomplete unencodable payload 0 (fresh_model (marker markers 0xa0))")
    (auto simp: semantic_oracle_def)

lemma run_partition_oracle:
  assumes "length payload \<le> 4096"
  shows "case semantic_oracle payload invalid incomplete unencodable markers of
      Ok m \<Rightarrow> \<exists>steps eng'. run_partition reserve payload schedule
          (fuzz_at Uninitialized Uninitialized invalid incomplete unencodable markers 0 0) = (Ok (om_output m, steps, 1), eng') \<and>
        decode_count eng' = om_decode_decisions m \<and> encode_count eng' = om_encode_decisions m
    | Err x \<Rightarrow> fst (run_partition reserve payload schedule
        (fuzz_at Uninitialized Uninitialized invalid incomplete unencodable markers 0 0)) = Err (normal_model_error x)
    | Panic \<Rightarrow> False"
proof -
  let ?init = "fuzz_at Fresh Fresh invalid incomplete unencodable markers 0 0" and ?head = "marker markers 0xa0"
  let ?limit = "(length payload + 1) * 64 + 64"
  have limit: "partition_limit payload = Some ?limit" "?limit \<le> usize_max"
    using assms by (simp_all add: partition_limit_def checked_add_def checked_mul_def usize_max_def)
  obtain r eng' where loop: "partition_loop reserve payload schedule ?limit ?init (partition_start ?head) = (r, eng')"
    by (metis surj_pair)
  have "cv_slot ?init = None" "stream_phase (cv_phase ?init)" "2 * length payload + 1 < ?limit"
    by (simp_all add: fuzz_at_def slot_empty_def stream_phase_def)
  from partition_loop_joins [OF this limit(2) loop] obtain least where least: "\<And>out. least \<le> length out \<Longrightarrow> (case r of
      Ok st \<Rightarrow> pt_eof st \<and> (\<exists>us. pt_output st = ?head @ us \<and> cv_transcode_eof (fuzz_traits reserve) ?init payload 0 out 0 =
        (Ok (progress_complete (length payload) (length us)), eng', splice_at out 0 us))
    | Err e \<Rightarrow> \<exists>x out'. cv_transcode_eof (fuzz_traits reserve) ?init payload 0 out 0 = (Err x, eng', out') \<and> e = normalize_error x
    | Panic \<Rightarrow> False)" by blast
  define out :: "u8 list" where "out = replicate (max least (2 * length payload)) 0"
  have "least \<le> length out" "2 * length payload \<le> length out - 0" by (simp_all add: out_def)
  note whole = least [OF this(1)] 
    fuzz_transcode_eof [OF this(2) le0, where invalid = invalid and incomplete = incomplete and unencodable = unencodable
      and head = ?head and reserve = reserve and markers = markers]
  have reset: "run_partition reserve payload schedule (fuzz_at Uninitialized Uninitialized invalid incomplete unencodable markers 0 0) =
      and_then (r, eng') (\<lambda>st eng. partition_finish reserve eng st)"
    using loop by (cases markers) (simp_all add: run_partition_def fuzz_reset_bound fuzz_reset usize_max_def limit(1))
  show ?thesis
  proof (cases "oracle_loop invalid incomplete unencodable payload 0 (fresh_model ?head)")
    case (Ok m)
    let ?eng = "fuzz_at Streaming Fresh invalid incomplete unencodable markers (om_decode_decisions m) (om_encode_decisions m)"
    from whole(2) Ok obtain us where us: "om_output m = ?head @ us" "length us \<le> 2 * length payload"
      "cv_transcode_eof (fuzz_traits reserve) ?init payload 0 out 0 =
        (Ok (progress_complete (length payload) (length us)), ?eng, splice_at out 0 us)" by auto
    from whole(1) us(3) obtain st ws where st: "r = Ok st" "pt_eof st" "pt_output st = ?head @ ws" "eng' = ?eng"
      "length ws = length us" "splice_at out 0 ws = splice_at out 0 us" by (cases r) (auto simp: progress_defs)
    have "us = ws" by (metis splice_at_read le0 st(5,6))
    with us(1) st reset Ok show ?thesis
      by (cases markers) (simp_all add: partition_finish_def fuzz_finish_bound fuzz_finish usize_max_def oracle_markers fuzz_counts
          numeral_3_eq_3)
  next
    case (Err x)
    with whole reset show ?thesis by (cases r) (auto simp: oracle_markers)
  qed (use whole in simp)
qed

text \<open>The markers and the units in one slice.\<close>

lemma marked_splice: "j < length out \<Longrightarrow> marked m out j x = splice_at out j (marker m x)"
  by (simp add: splice_at_single)

lemma run_complete_oracle:
  assumes "length payload \<le> 4096"
  shows "run_complete reserve payload invalid incomplete unencodable markers =
    (case semantic_oracle payload invalid incomplete unencodable markers of
      Ok m \<Rightarrow> Ok (om_output m, om_decode_decisions m, om_encode_decisions m)
    | Err x \<Rightarrow> Err (normal_model_error x)
    | Panic \<Rightarrow> Panic)"
proof -
  let ?K = "fuzz_traits reserve" and ?T = "convert_transcoder (fuzz_traits reserve)"
  let ?new = "fuzz_at Uninitialized Uninitialized invalid incomplete unencodable markers 0 0"
  let ?init = "fuzz_at Fresh Fresh invalid incomplete unencodable markers 0 0"
  define head tail where "head = marker markers 0xa0" and "tail = marker markers 0xa1"
  define out :: "u8 list" where "out = replicate (2 * length payload + 6) 0"
  have ends: "length head = (if markers then 1 else 0)" "length tail = length head" "length head \<le> 1"
    by (simp_all add: head_def tail_def)
  have fits: "length out = 2 * length payload + 6" "length out \<le> usize_max" "length payload \<le> usize_max"
    using assms by (simp_all add: usize_max_def out_def)
  have total: "cv_max_total_output_len ?K ?new (length payload) = Ok (2 * length payload + 6)"
    using fits(1,2) by (simp add: cv_max_total_output_len_def fuzz_reset_bound fuzz_transcode_bound fuzz_finish_bound
        sum_convert_output_bounds_def add_convert_output_bounds_def checked_add_def)
  have pre: "complete_preflight ?T ?new (length payload) (length out) = Ok (1, 3)"
    using fits(1,2) by (simp add: complete_preflight_Ok convert_transcoder_def fuzz_reset_bound fuzz_transcode_bound fuzz_finish_bound)
  define out1 where "out1 = splice_at out 0 head"
  have reset: "tr_reset ?T ?new out 0 = (Ok (length head), ?init, out1)"
    using fits(1,2) fuzz_reset [where out = out] marked_splice [where j = 0 and out = out and m = markers and x = "0xa0"]
    by (simp add: convert_transcoder_def ends(1) out1_def head_def)
  have out1: "length out1 = length out" using fits(1) ends(3) by (simp add: out1_def)
  have room: "2 * length payload \<le> length out1 - length head" "length head \<le> length out1" using fits(1) ends(3) out1 by simp_all
  note call = fuzz_transcode_eof [OF room, where invalid = invalid and incomplete = incomplete and unencodable = unencodable
      and head = head and reserve = reserve and markers = markers]
  show ?thesis
  proof (cases "oracle_loop invalid incomplete unencodable payload 0 (fresh_model head)")
    case (Ok m)
    let ?eng = "fuzz_at Streaming Fresh invalid incomplete unencodable markers (om_decode_decisions m) (om_encode_decisions m)"
    let ?done = "fuzz_at Finished Finished invalid incomplete unencodable markers (om_decode_decisions m) (om_encode_decisions m)"
    from call Ok obtain us where us: "om_output m = head @ us" "length us \<le> 2 * length payload"
      "tr_transcode_eof ?T ?init payload 0 out1 (length head) =
        (Ok (progress_complete (length payload) (length us)), ?eng, splice_at out1 (length head) us)" by (auto simp: convert_transcoder_def)
    define out2 where "out2 = splice_at out1 (length head) us"
    have out2: "out2 = splice_at out 0 (head @ us)" "length out2 = length out"
      using splice_at_append [of 0 head out us] us(2) fits(1) ends(3) out1 by (simp_all add: out2_def out1_def)
    define k where "k = length head + length us"
    have k: "k < length out" "k \<le> usize_max" "k + length tail \<le> length out" using us(2) fits(1,2) ends(2,3) by (simp_all add: k_def)
    have finish: "tr_finish ?T ?eng out2 k = (Ok (length tail), ?done, splice_at out 0 (head @ us @ tail))"
      using fuzz_finish [where j = k and out = out2] marked_splice [where j = k and out = out2 and m = markers and x = "0xa1"] splice_at_append [of 0 "head @ us" out tail] out2 k fits(2) ends(1,2)
      by (simp add: convert_transcoder_def k_def tail_def [symmetric])
    have wrote: "complete_progress_written (progress_complete (length payload) (length us)) (length payload) (length head) (length out) = Ok (length us)"
      using us(2) fits ends(3) by (simp add: complete_progress_written_Ok valid_progress_def progress_defs)
    have small: "length head \<le> 1" "length head \<le> length out" "length tail \<le> 3" "length tail \<le> length out - k"
      using ends fits(1) k(3) by simp_all
    have "length (splice_at out 0 (head @ us @ tail)) = length out" using k by (intro length_splice_at) (simp add: k_def)
    moreover have "checked_add (length head) (length us) = Some k" "checked_add k (length tail) = Some (length (head @ us @ tail))"
      using k fits(2) by (simp_all add: checked_add_def k_def)
    ultimately have "cv_transcode_complete_into ?K ?new payload out = (Ok (length (head @ us @ tail)), ?done, splice_at out 0 (head @ us @ tail))"
      using us(3) [folded out2_def] out1 out2(2) small
      by (simp add: cv_transcode_complete_into_def transcode_complete_into_def pre reset finish wrote Let_def)
    then show ?thesis
      using Ok us(1) splice_at_read [of 0 out "head @ us @ tail"]
      by (simp add: run_complete_def make_engine_eq total fuzz_counts oracle_markers out_def [symmetric] head_def [symmetric] tail_def [symmetric])
  next
    case (Err x)
    with call obtain y eng' out' where "tr_transcode_eof ?T ?init payload 0 out1 (length head) = (Err y, eng', out')"
      and y: "normalize_error y = normal_model_error x" by (auto simp: convert_transcoder_def)
    then have "\<exists>e o'. cv_transcode_complete_into ?K ?new payload out = (Err y, e, o')"
      using out1 room(2) ends(3) by (simp add: cv_transcode_complete_into_def transcode_complete_into_def pre reset)
    with Err y show ?thesis
      by (auto simp: run_complete_def make_engine_eq total oracle_markers out_def head_def)
  qed (use call in simp)
qed

section \<open>Property\<close>

text \<open>C9. The partition fuzz target holds for all data: on every configuration, schedule and payload the
  scheduled driver ends within its step limit, and it and the complete pass make the oracle's units, its
  numbers of policy decisions and one finish, or fail with the oracle's error at its position; no
  assertion of the target fails.\<close>

theorem partition_fuzz_target_holds: "partition_fuzz_target reserve data = Ok ()"
proof -
  have "partition_verdict (semantic_oracle payload invalid incomplete unencodable markers)
      (run_partition reserve payload schedule (fuzz_at Uninitialized Uninitialized invalid incomplete unencodable markers 0 0))
      (run_complete reserve payload invalid incomplete unencodable markers)"
    if "length payload \<le> 4096" for payload schedule invalid incomplete unencodable markers
    using run_partition_oracle [OF that, where invalid = invalid and incomplete = incomplete and unencodable = unencodable
          and markers = markers and reserve = reserve and schedule = schedule]
      run_complete_oracle [OF that, where invalid = invalid and incomplete = incomplete and unencodable = unencodable
          and markers = markers and reserve = reserve]
    by (auto simp: partition_verdict_def split: res.splits)
  then show ?thesis by (simp add: partition_fuzz_target_def Let_def make_engine_eq)
qed

end
