(* ===== verification/ConvertWitnesses.thy ===== *)
theory ConvertWitnesses
  imports ConvertOracle
begin

text \<open>
  Concrete runs of the convert engine: the converter of the partition fuzz target, whose hooks count
  and whose codes have two lengths, and the big-endian codec copied.
\<close>

text \<open>Invalid units are skipped, a cut pair becomes \<open>9\<close>, what cannot be encoded becomes \<open>3\<close>.\<close>

abbreviation sample_converter :: fuzz_engine where
  "sample_converter \<equiv> fuzz_at Fresh Fresh DecodeModeSkip DecodeModeEmit EncodeModeReplace True 0 0"

abbreviation converted :: "nat \<Rightarrow> nat \<Rightarrow> fuzz_engine" where
  "converted \<equiv> fuzz_at Streaming Fresh DecodeModeSkip DecodeModeEmit EncodeModeReplace True"

abbreviation sample_traits where
  "sample_traits \<equiv> fuzz_traits (\<lambda>_. True)"

lemma sample_phase [simp]: "stream_phase (cv_phase sample_converter)"
  by (simp add: stream_phase_def fuzz_at_def)

theorem convert_call_refines_stream_witness:
  "\<exists>eng'. cv_transcode_with_eof sample_traits sample_converter [7, 1, 1, 0xff, 9] 1 [8, 0, 0, 0] 1 True =
    (Ok (progress_complete 4 3), eng', [8, 2, 0xfd, 9]) \<and> eng' = converted 2 0"
proof -
  obtain r eng' out' where
    call: "cv_transcode_with_eof sample_traits sample_converter [7, 1, 1, 0xff, 9] 1 [8, 0, 0, 0] 1 True = (r, eng', out')"
    by (metis prod_cases3)
  have spec: "convert_stream (min_units_per_value (src_codec sample_traits)) pair_turns target_turns True 1
      (cv_opened sample_converter) (drop 1 [7, 1, 1, 0xff, 9]) (length [8, 0, 0, 0 :: u8] - 1) =
      (Ok Complete, 4, [2, 0xfd, 9], converted 2 0)" by code_simp
  have idx: "1 \<le> length [7, 1, 1, 0xff, 9 :: u8]" "1 \<le> length [8, 0, 0, 0 :: u8]" by simp_all
  from convert_call_refines_stream [OF fuzzed.conversion_axioms TrueI TrueI sample_phase idx spec call] call
  show ?thesis by (simp add: progress_complete_def splice_at_def eval_nat_numeral)
qed

text \<open>A call that sees three units and has room for one unit: the value waits.\<close>

abbreviation waiting_converter :: fuzz_engine where
  "waiting_converter \<equiv> (converted 0 0)\<lparr>cv_pending := \<lparr>slot_value = Some \<lparr>pv_value = 2, pv_input_index = 0\<rparr>\<rparr>\<rparr>"

theorem convert_calls_join_witness:
  "\<exists>out. cv_transcode_eof sample_traits sample_converter [1, 1, 0xff, 9] 0 out 0 =
    (Ok (progress_complete 4 3), converted 2 0, splice_at out 0 [2, 0xfd, 9])"
proof -
  let ?in = "[1, 1, 0xff, 9] :: u8 list" and ?p = "progress_need_output (NZ 1) 2 0"
  have 1: "cv_transcode_with_eof sample_traits sample_converter (take 3 ?in) 0 [0] 0 False = (Ok ?p, waiting_converter, [0])"
    by code_simp
  have "cv_driven sample_traits ?in sample_converter (0 + tp_read ?p) ([] @ take (tp_written ?p) (drop 0 [0])) waiting_converter"
    by (rule cv_driven.call [OF cv_driven.start _ _ _ _ 1]) simp_all
  then have driven: "cv_driven sample_traits ?in sample_converter 2 [] waiting_converter" by (simp add: progress_defs eval_nat_numeral)
  have last: "cv_transcode_with_eof sample_traits waiting_converter (take 4 ?in) 2 [0, 0, 0] 0 True =
      (Ok (progress_complete 2 3), converted 2 0, [2, 0xfd, 9])" by code_simp
  have bounds: "2 \<le> (4 :: nat)" "4 \<le> length ?in" "True \<longrightarrow> 4 = length ?in" "0 \<le> length [0, 0, 0 :: u8]"
    "\<forall>p. Ok (progress_complete 2 3) = Ok p \<longrightarrow> True \<and> is_complete p" by (simp_all add: progress_defs)
  from convert_calls_join [OF fuzzed.incremental_conversion_axioms TrueI TrueI sample_phase driven bounds(1-4) last bounds(5)]
  obtain least where joined: "\<And>out. least \<le> length out \<Longrightarrow>
      cv_transcode_eof sample_traits sample_converter ?in 0 out 0 =
        (Ok (progress_complete (length ?in) (length [] + tp_written (progress_complete 2 3))), converted 2 0,
         splice_at out 0 ([] @ take (tp_written (progress_complete 2 3)) (drop 0 [2, 0xfd, 9])))" by auto
  have "least \<le> length (replicate least (0 :: u8))" by simp
  from joined [OF this] show ?thesis
    by (intro exI [of _ "replicate least 0"]) (simp add: progress_defs eval_nat_numeral)
qed

text \<open>Two big-endian numbers, decoded and encoded again, and copied.\<close>

abbreviation u16_copier where
  "u16_copier \<equiv> \<lparr>cv_decode_engine = fresh_decoder () (), cv_encode_engine = fresh_encoder () (),
    cv_pending = slot_empty, cv_lifecycle = \<lparr>guard_phase = Fresh\<rparr>\<rparr>"

theorem convert_is_decode_then_encode_witness:
  "\<exists>eng' p. cv_transcode_eof u16be_copy u16_copier [1, 2, 3, 4] 0 [0, 0, 0, 0, 9] 0 = (Ok p, eng', [1, 2, 3, 4, 9]) \<and>
    tp_read p = 4 \<and> tp_written p = 4 \<and> is_complete p"
proof -
  obtain rc eng' out' where
    conv: "cv_transcode_eof u16be_copy u16_copier [1, 2, 3, 4] 0 [0, 0, 0, 0, 9] 0 = (rc, eng', out')" by (metis prod_cases3)
  have dec: "de_transcode_eof (src_codec u16be_copy) (src_hooks u16be_copy) (cv_decode_engine u16_copier) [1, 2, 3, 4] 0 [0, 0, 0, 0] 0 =
      (Ok (progress_complete 4 2), open_decoder () (), [0x102, 0x304, 0, 0])" by code_simp
  have enc: "ee_transcode (tgt_codec u16be_copy) (tgt_hooks u16be_copy) (cv_encode_engine u16_copier) [0x102, 0x304] 0 [0, 0, 0, 0, 9] 0 =
      (Ok (progress_complete 2 4), open_encoder () (), [1, 2, 3, 4, 9])" by code_simp
  have live: "cv_slot u16_copier = None" "stream_phase (cv_phase u16_copier)" "stream_phase (de_phase (cv_decode_engine u16_copier))"
    "stream_phase (ee_phase (cv_encode_engine u16_copier))" "length [1, 2, 3, 4 :: u8] \<le> length [0, 0, 0, 0 :: u16]"
    "any_state (de_codec (cv_decode_engine u16_copier))" "any_state (ee_codec (cv_encode_engine u16_copier))"
    by (simp_all add: slot_empty_def stream_phase_def any_state_def)
  have vals: "[0x102, 0x304] = (case Ok (progress_complete 4 2) :: (infallible decode_error, transcode_progress) res of
      Ok p \<Rightarrow> take (tp_written p) [0x102, 0x304, 0, 0 :: u16] | _ \<Rightarrow> [])"
    by (simp add: progress_defs)
  from convert_is_decode_then_encode [OF u16be_both.codec_pair_axioms live(6,7,1-5) dec vals enc conv] conv
  show ?thesis by (auto simp: progress_defs)
qed

end
