(* ===== verification/DecodeFuzz.thy ===== *)
theory DecodeFuzz
  imports Streams
begin

text \<open>
  The fuzz target \<open>fuzz/fuzz_targets/transcode_decode_engine.rs\<close> as a function of its data: a driver
  feeds the decode engine growing prefixes of the payload through output windows of zero or one
  slot, reports the end of the input, and compares what it collected with the oracle. A failed
  assertion is a panic. The codec, its hooks and the oracle are in \<open>SampleCodecs\<close>. The
  theory ends with the proof that no assertion of the target can fail.
\<close>

section \<open>The driver\<close>

type_synonym protocol_engine = "(unit, protocol_hooks) decode_engine"

record decode_drive =
  dd_cursor :: nat
  dd_visible :: nat
  dd_output :: "u8 list"
  dd_window :: nat
  dd_eof :: bool
  dd_steps :: nat

datatype drive_flow = DriveNext decode_drive | DriveBreak decode_drive | DriveReturn

definition decode_start :: "nat \<Rightarrow> decode_drive" where
  "decode_start window =
    \<lparr>dd_cursor = 0, dd_visible = 0, dd_output = [], dd_window = window, dd_eof = False, dd_steps = 0\<rparr>"

definition decode_step_limit :: "u8 list \<Rightarrow> nat" where
  "decode_step_limit payload = 16 * (length payload + 1) + 32"

text \<open>The branch on the status of a report; \<open>st\<close> already holds the report's counters.\<close>

definition drive_status ::
  "u8 list \<Rightarrow> nat \<Rightarrow> nat \<Rightarrow> transcode_progress \<Rightarrow> decode_drive \<Rightarrow> (unit, drive_flow) res" where
  "drive_status payload stride window p st =
    (let grown = st\<lparr>dd_visible := min (dd_visible st + stride) (length payload)\<rparr> in
     if is_need_output p then
       (if window = 0 then Ok (DriveNext (st\<lparr>dd_window := 1\<rparr>))
        else if 0 < tp_read p \<or> 0 < tp_written p then Ok (DriveNext st)
        else Panic)
     else if is_need_input p then
       (if dd_eof st then Panic
        else if dd_visible st < length payload then Ok (DriveNext grown)
        else Ok (DriveNext (st\<lparr>dd_eof := True\<rparr>)))
     else if is_complete p \<and> dd_cursor st = dd_visible st then
       (if dd_visible st < length payload then Ok (DriveNext grown)
        else if \<not> dd_eof st then Ok (DriveNext (st\<lparr>dd_eof := True\<rparr>))
        else Ok (DriveBreak st))
     else Panic)"

text \<open>The branch on an error: it has to be the oracle's.\<close>

definition drive_error :: "oracle_result \<Rightarrow> u8 list \<Rightarrow> protocol_error decode_error \<Rightarrow> (unit, drive_flow) res" where
  "drive_error expected collected e =
    (case expected of
       OracleComplete _ \<Rightarrow> Panic
     | OracleRejected position pre incomplete \<Rightarrow>
         (case e of
            DecodeDomain d \<Rightarrow>
              if domain_input_index d = Some position \<and>
                decode_domain_ref e = Some (if incomplete then ProtocolIncomplete else ProtocolInvalid) \<and>
                pre = collected
              then Ok DriveReturn else Panic
          | _ \<Rightarrow> Panic))"

text \<open>The assertion at the end of the body: a turn that goes on has changed something.\<close>

fun drive_checked :: "decode_drive \<Rightarrow> transcode_progress \<Rightarrow> drive_flow \<Rightarrow> (unit, drive_flow) res" where
  "drive_checked st p (DriveNext st') =
    (if 0 < tp_read p \<or> dd_visible st < dd_visible st' \<or> dd_eof st \<noteq> dd_eof st' \<or>
       dd_window st < dd_window st' \<or> is_complete p
     then Ok (DriveNext st') else Panic)"
| "drive_checked st p flow = Ok flow"

text \<open>The body of the loop.\<close>

definition decode_drive_turn ::
  "u8 list \<Rightarrow> oracle_result \<Rightarrow> nat \<Rightarrow> protocol_engine \<Rightarrow> decode_drive \<Rightarrow>
   (unit, drive_flow) res \<times> protocol_engine" where
  "decode_drive_turn payload expected stride eng st =
    (if \<not> (dd_steps st + 1 \<le> decode_step_limit payload \<and> dd_visible st \<le> length payload) then (Panic, eng)
     else
       let window = (if dd_window st = 0 then 0 else 1); input = take (dd_visible st) payload;
           slot = replicate window 0 in
       (case (if dd_eof st then de_transcode_eof protocol_codec protocol_decode_hooks eng input (dd_cursor st) slot 0
              else de_transcode protocol_codec protocol_decode_hooks eng input (dd_cursor st) slot 0) of
          (Panic, eng, _) \<Rightarrow> (Panic, eng)
        | (Err e, eng, _) \<Rightarrow> (drive_error expected (dd_output st) e, eng)
        | (Ok p, eng, slot) \<Rightarrow>
            (case validate p (dd_cursor st) (dd_visible st - dd_cursor st) 0 window of
               Ok _ \<Rightarrow>
                 bind_res (drive_status payload stride window p
                     (st\<lparr>dd_steps := dd_steps st + 1, dd_cursor := dd_cursor st + tp_read p,
                        dd_output := dd_output st @ take (tp_written p) slot\<rparr>)) (drive_checked st p)
             | _ \<Rightarrow> Panic, eng)))"

lemma drive_status_steps: "drive_status payload stride window p st = Ok (DriveNext st') \<Longrightarrow> dd_steps st' = dd_steps st"
  by (auto simp: drive_status_def Let_def split: if_splits)

lemma drive_checked_Ok: "drive_checked st p flow = Ok flow' \<Longrightarrow> flow = flow'"
  by (cases flow) (auto split: if_splits)

lemma drive_error_next: "drive_error expected collected e \<noteq> Ok (DriveNext st)"
  by (auto simp: drive_error_def split: oracle_result.splits decode_error.splits)

lemma decode_drive_turn_steps:
  assumes "decode_drive_turn payload expected stride eng st = (Ok (DriveNext st'), eng')"
  shows "dd_steps st < decode_step_limit payload \<and> dd_steps st' = Suc (dd_steps st)"
proof -
  let ?window = "if dd_window st = 0 then 0 else 1" and ?input = "take (dd_visible st) payload"
  obtain r e slot where call: "(if dd_eof st then de_transcode_eof protocol_codec protocol_decode_hooks eng ?input (dd_cursor st) (replicate ?window 0) 0
      else de_transcode protocol_codec protocol_decode_hooks eng ?input (dd_cursor st) (replicate ?window 0) 0) = (r, e, slot)"
    by (metis prod_cases3)
  have limit: "dd_steps st + 1 \<le> decode_step_limit payload \<and> dd_visible st \<le> length payload"
    using assms by (auto simp: decode_drive_turn_def split: if_splits)
  note turn = assms [unfolded decode_drive_turn_def Let_def call, simplified limit]
  then obtain p where p: "r = Ok p" by (cases r) (auto simp: drive_error_next)
  from turn show ?thesis unfolding p using limit
    by (auto simp: bind_res_eq_Ok split: res.splits if_splits dest!: drive_status_steps drive_checked_Ok)
qed

text \<open>The loop: the state it broke off in, or \<open>None\<close> when the target returned on an error.\<close>

function decode_drive_loop ::
  "u8 list \<Rightarrow> oracle_result \<Rightarrow> nat \<Rightarrow> protocol_engine \<Rightarrow> decode_drive \<Rightarrow>
   (unit, decode_drive option) res \<times> protocol_engine" where
  "decode_drive_loop payload expected stride eng st =
    (case decode_drive_turn payload expected stride eng st of
       (Ok (DriveNext st'), eng') \<Rightarrow> decode_drive_loop payload expected stride eng' st'
     | (Ok (DriveBreak st'), eng') \<Rightarrow> (Ok (Some st'), eng')
     | (Ok DriveReturn, eng') \<Rightarrow> (Ok None, eng')
     | (Err e, eng') \<Rightarrow> (Err e, eng')
     | (Panic, eng') \<Rightarrow> (Panic, eng'))"
  by pat_completeness auto
termination
  by (relation "measure (\<lambda>(payload, expected, stride, eng, st). decode_step_limit payload - dd_steps st)")
    (auto dest!: decode_drive_turn_steps [OF sym])

declare decode_drive_loop.simps [simp del]

text \<open>What follows the loop, and the target.\<close>

definition decode_drive_end ::
  "u8 list \<Rightarrow> oracle_result \<Rightarrow> protocol_engine \<Rightarrow> decode_drive \<Rightarrow> (unit, unit) res" where
  "decode_drive_end payload expected eng st =
    (case expected of
       OracleComplete vs \<Rightarrow>
         (case de_finish protocol_codec protocol_decode_hooks eng (replicate 31 0) 0 of
            (r, _) \<Rightarrow> if length payload = dd_cursor st \<and> vs = dd_output st \<and> r = Ok 0 then Ok () else Panic)
     | OracleRejected _ _ _ \<Rightarrow> Panic)"

definition decode_fuzz_byte :: "u8 list \<Rightarrow> nat \<Rightarrow> u8" where
  "decode_fuzz_byte control i = (if i < length control then control ! i else 0)"

definition decode_fuzz_target :: "u8 list \<Rightarrow> (unit, unit) res" where
  "decode_fuzz_target data =
    (let data = take 4096 data; control = take 8 data; raw_payload = drop (length control) data;
         invalid = policy_from_byte (decode_fuzz_byte control 0);
         incomplete = policy_from_byte (decode_fuzz_byte control 1);
         stride = unat (decode_fuzz_byte control 2 mod 7) + 1;
         eof_cut = length raw_payload - unat (decode_fuzz_byte control 3) mod (length raw_payload + 1);
         payload = take eof_cut raw_payload;
         expected = reference payload invalid incomplete in
     bind_res (de_new protocol_codec () \<lparr>ph_invalid = invalid, ph_incomplete = incomplete\<rparr>) (\<lambda>eng.
     case de_reset protocol_codec protocol_decode_hooks eng [] 0 of
       (Ok _, eng, _) \<Rightarrow>
         (case decode_drive_loop payload expected stride eng
             (decode_start (unat (decode_fuzz_byte control 4) mod 2)) of
            (Ok (Some st), eng) \<Rightarrow> decode_drive_end payload expected eng st
          | (Ok None, _) \<Rightarrow> Ok ()
          | _ \<Rightarrow> Panic)
     | _ \<Rightarrow> Panic))"


section \<open>The driver never fails\<close>

abbreviation drive_call where
  "drive_call payload eng st \<equiv>
    de_transcode_with_eof protocol_codec protocol_decode_hooks eng (take (dd_visible st) payload) (dd_cursor st)
      (replicate (dd_window st) 0) 0 (dd_eof st)"

text \<open>Between turns the oracle, continued from the cursor with the output collected so far, is the
  oracle on the whole payload. What is left to do bounds the number of turns.\<close>

definition drive_inv :: "u8 list \<Rightarrow> oracle_result \<Rightarrow> protocol_engine \<Rightarrow> decode_drive \<Rightarrow> bool" where
  "drive_inv payload expected eng st \<longleftrightarrow>
    stream_phase (de_phase eng) \<and> dd_cursor st \<le> dd_visible st \<and> dd_visible st \<le> length payload \<and>
    (dd_eof st \<longrightarrow> dd_visible st = length payload) \<and> dd_window st \<le> 1 \<and>
    reference_from (ph_invalid (de_hooks eng)) (ph_incomplete (de_hooks eng)) (dd_cursor st) (dd_output st)
      (drop (dd_cursor st) payload) = expected"

definition drive_left :: "u8 list \<Rightarrow> decode_drive \<Rightarrow> nat" where
  "drive_left payload st =
    (length payload - dd_cursor st) + (length payload - dd_visible st) + (if dd_eof st then 0 else 1) + (1 - dd_window st)"

lemma drive_turn_reports:
  assumes "dd_steps st < decode_step_limit payload" "dd_visible st \<le> length payload" "dd_window st \<le> 1"
    and "drive_call payload eng st = (Ok p, eng', slot)"
    and "validate p (dd_cursor st) (dd_visible st - dd_cursor st) 0 (dd_window st) = Ok ()"
  shows "decode_drive_turn payload expected stride eng st =
    (bind_res (drive_status payload stride (dd_window st) p
        (st\<lparr>dd_steps := Suc (dd_steps st), dd_cursor := dd_cursor st + tp_read p,
           dd_output := dd_output st @ take (tp_written p) slot\<rparr>)) (drive_checked st p), eng')"
proof -
  have "(if dd_window st = 0 then 0 else 1) = dd_window st" using assms(3) by auto
  with assms show ?thesis
    by (cases "dd_eof st") (simp_all add: decode_drive_turn_def de_transcode_def de_transcode_eof_def)
qed

lemma drive_turn_fails:
  assumes "dd_steps st < decode_step_limit payload" "dd_visible st \<le> length payload" "dd_window st \<le> 1"
    and "drive_call payload eng st = (Err e, eng', slot)"
  shows "decode_drive_turn payload expected stride eng st = (drive_error expected (dd_output st) e, eng')"
proof -
  have "(if dd_window st = 0 then 0 else 1) = dd_window st" using assms(3) by auto
  with assms show ?thesis
    by (cases "dd_eof st") (simp_all add: decode_drive_turn_def de_transcode_def de_transcode_eof_def)
qed

lemma drive_turn_cases:
  assumes inv: "drive_inv payload expected eng st" and "length payload \<le> usize_max" "0 < stride"
    and "dd_steps st < decode_step_limit payload"
  obtains
    (returns) eng' where "decode_drive_turn payload expected stride eng st = (Ok DriveReturn, eng')"
  | (breaks) st' eng' where "decode_drive_turn payload expected stride eng st = (Ok (DriveBreak st'), eng')"
      "stream_phase (de_phase eng')" "dd_cursor st' = length payload" "expected = OracleComplete (dd_output st')"
  | (goes_on) st' eng' where "decode_drive_turn payload expected stride eng st = (Ok (DriveNext st'), eng')"
      "drive_inv payload expected eng' st'" "dd_steps st' = Suc (dd_steps st)"
      "drive_left payload st' < drive_left payload st"
proof -
  let ?xs = "take (dd_visible st) payload" and ?ys = "drop (dd_visible st) payload" and ?h = "de_hooks eng"
  let ?i = "dd_cursor st" and ?w = "dd_window st"
  let ?ref = "reference_from (ph_invalid ?h) (ph_incomplete ?h)"
  from inv have st: "stream_phase (de_phase eng)" "?i \<le> dd_visible st" "dd_visible st \<le> length payload"
      "dd_eof st \<Longrightarrow> dd_visible st = length payload" "?w \<le> 1" "?ref ?i (dd_output st) (drop ?i payload) = expected"
    by (auto simp: drive_inv_def)
  have good: "any_state (de_codec eng)" by (simp add: any_state_def)
  have idx: "?i \<le> length ?xs" "dd_eof st \<Longrightarrow> ?ys = []" using st(2-4) by simp_all
  have split: "drop ?i ?xs @ ?ys = drop ?i payload"
    by (metis append_take_drop_id drop_append diff_is_0_eq drop0 idx(1))
  obtain r eng' slot where call: "drive_call payload eng st = (r, eng', slot)" by (metis prod_cases3)
  obtain q n vs c where spec: "protocol_stream ?h (dd_eof st) ?i (de_codec eng) (drop ?i ?xs) (length (replicate ?w (0 :: u8)) - 0)
      = (q, n, vs, c)" by (metis prod_cases4)
  note ref = protocol_dec.transcode_refines [OF good st(1) idx(1) le0 spec call]
    and bounds = protocol_dec.stream_bounds [OF good spec]
    and model = reference_call [OF spec idx(2), of "dd_output st"]
  show thesis
  proof (cases r)
    case (Err e)
    with ref have "q = Err e" by (cases q) auto
    with model split st(5,6) obtain position incomplete where "e = protocol_reject position incomplete"
      "expected = OracleRejected position (dd_output st) incomplete"
      by (cases vs) auto
    then have "drive_error expected (dd_output st) e = Ok DriveReturn"
      by (simp add: drive_error_def protocol_reject_def)
    with drive_turn_fails [OF assms(4) st(3,5) call [unfolded Err]] show ?thesis by (intro returns) simp
  next
    case Panic
    with ref bounds show ?thesis by (cases q) simp_all
  next
    case (Ok p)
    with ref obtain s where s: "q = Ok s" "p = progress_new s n (length vs)" by (cases q) auto
    have slot: "take (length vs) slot = vs"
      using ref bounds by (auto simp: splice_at_def)
    have "valid_progress p ?i (length ?xs - ?i) 0 (length (replicate ?w (0 :: u8)) - 0)"
      using de_transcode_report [OF call [unfolded Ok]] assms(2) st(3,5) by (simp add: usize_max_def)
    then have valid: "validate p ?i (dd_visible st - ?i) 0 ?w = Ok ()"
      using st(3) by (simp add: validate_Ok_iff)
    have n: "n \<le> dd_visible st - ?i" "length vs \<le> n" using bounds st(3) protocol_rate [OF spec] by simp_all
    let ?st = "st\<lparr>dd_steps := Suc (dd_steps st), dd_cursor := ?i + n, dd_output := dd_output st @ vs\<rparr>"
    have turn: "decode_drive_turn payload expected stride eng st =
        (bind_res (drive_status payload stride ?w p ?st) (drive_checked st p), eng')"
      using drive_turn_reports [OF assms(4) st(3,5) call [unfolded Ok] valid] s(2) slot by (simp add: progress_defs)
    have "drop n (drop ?i ?xs) @ ?ys = drop (?i + n) payload"
      using arg_cong [OF split, of "drop n"] n(1) st(3) by (simp add: add.commute [of n])
    with model split s(1) st(6) ref have expected:
      "reference_from (ph_invalid (de_hooks eng')) (ph_incomplete (de_hooks eng')) (?i + n) (dd_output st @ vs) (drop (?i + n) payload) = expected"
      by simp
    have phase: "stream_phase (de_phase eng')" using ref by (simp add: stream_phase_def)
    note inv_simps = drive_inv_def drive_left_def drive_status_def progress_defs
    show ?thesis
    proof (cases s)
      case (NeedOutput req)
      with bounds s(1) have "length vs = ?w" "n < dd_visible st - ?i" using st(3) by auto
      with turn NeedOutput s(2) phase expected st n show ?thesis
        by (cases "?w = 0"; intro goes_on) (auto simp: inv_simps)
    next
      case (NeedInput req)
      with bounds s(1) have "\<not> dd_eof st" by auto
      with turn NeedInput s(2) phase expected st n assms(3) show ?thesis
        by (cases "dd_visible st < length payload"; intro goes_on) (auto simp: inv_simps Let_def)
    next
      case Complete
      with bounds s(1) have all: "?i + n = dd_visible st" using st(2,3) by auto
      show ?thesis
      proof (cases "dd_visible st < length payload \<or> \<not> dd_eof st")
        case True
        with turn Complete s(2) phase expected st n assms(3) all show ?thesis
          by (cases "dd_visible st < length payload"; intro goes_on) (auto simp: inv_simps Let_def)
      next
        case False
        with turn Complete s(2) phase expected st n all show ?thesis
          by (intro breaks) (auto simp: inv_simps)
      qed
    qed
  qed
qed

lemma drive_loop_ends:
  assumes "drive_inv payload expected eng st" "length payload \<le> usize_max" "0 < stride"
    and "dd_steps st + drive_left payload st < decode_step_limit payload"
  shows "case decode_drive_loop payload expected stride eng st of
      (Ok (Some st'), eng') \<Rightarrow> stream_phase (de_phase eng') \<and> dd_cursor st' = length payload \<and>
        expected = OracleComplete (dd_output st')
    | (r, _) \<Rightarrow> r = Ok None"
  using assms(1,4)
proof (induction "drive_left payload st" arbitrary: eng st rule: less_induct)
  case less
  note loop = decode_drive_loop.simps [of payload expected stride eng st]
  have "dd_steps st < decode_step_limit payload" using less.prems(2) by simp
  from less.prems(1) assms(2,3) this show ?case
  proof (cases rule: drive_turn_cases)
    case (goes_on st' eng')
    then have "dd_steps st' + drive_left payload st' < decode_step_limit payload" using less.prems(2) by simp
    from less.hyps [OF goes_on(4,2) this] goes_on(1) loop show ?thesis by simp
  next
    case (breaks st' eng')
    then show ?thesis by (subst loop) simp
  next
    case (returns eng')
    then show ?thesis by (subst loop) simp
  qed
qed

lemma protocol_finish:
  assumes "stream_phase (de_phase eng)"
  shows "fst (de_finish protocol_codec protocol_decode_hooks eng (replicate 31 0) 0) = Ok 0"
proof -
  have "on_finish_attempt (de_lifecycle eng) = Ok ()" "ensure_output_capacity n 0 0 = Ok ()" for n
    using assms by (simp_all add: on_finish_attempt_Ok check_simps)
  then show ?thesis
    by (simp add: de_finish_def protocol_codec_def protocol_decode_hooks_def codec_default_defs hook_default_defs
        call_decode_finish_def checked_add_def usize_max_def Let_def)
qed

lemma protocol_open:
  "de_new protocol_codec c h = Ok \<lparr>de_codec = c, de_hooks = h, de_lifecycle = guard_new\<rparr>"
  "\<exists>eng' out'. de_reset protocol_codec protocol_decode_hooks \<lparr>de_codec = c, de_hooks = h, de_lifecycle = g\<rparr> [] 0 =
    (Ok 0, eng', out') \<and> de_hooks eng' = h \<and> de_phase eng' = Fresh"
proof -
  have "ensure_output_capacity 0 0 0 = Ok ()" by (simp add: check_simps)
  then show "\<exists>eng' out'. de_reset protocol_codec protocol_decode_hooks \<lparr>de_codec = c, de_hooks = h, de_lifecycle = g\<rparr> [] 0 =
    (Ok 0, eng', out') \<and> de_hooks eng' = h \<and> de_phase eng' = Fresh"
    by (simp add: de_reset_def protocol_codec_def protocol_decode_hooks_def codec_default_defs hook_default_defs
        call_decode_reset_def guard_defs Let_def)
qed (simp add: de_new_def protocol_codec_def assert_unit_bounds_def unit_bounds_def)

text \<open>C17. The fuzz target of the decode engine holds for all data: for every payload, pair of policies,
  stride, cut and first window, the driver ends within its step limit; what it collected in windows of
  at most one slot is the oracle's output, or the engine failed at the oracle's position with the
  oracle's error and prefix. No assertion fails and nothing panics.\<close>

theorem decode_fuzz_target_holds: "decode_fuzz_target data = Ok ()"
proof -
  define control raw where "control = take 8 (take 4096 data)" and "raw = drop (length control) (take 4096 data)"
  define bad tail stride window payload where "bad = policy_from_byte (decode_fuzz_byte control 0)"
    and "tail = policy_from_byte (decode_fuzz_byte control 1)"
    and "stride = unat (decode_fuzz_byte control 2 mod 7) + 1"
    and "window = unat (decode_fuzz_byte control 4) mod 2"
    and "payload = take (length raw - unat (decode_fuzz_byte control 3) mod (length raw + 1)) raw"
  note defs = raw_def bad_def tail_def stride_def window_def payload_def
  let ?expected = "reference payload bad tail" and ?st = "decode_start window"
  have "length payload \<le> 4096" by (simp add: payload_def raw_def)
  then have len: "length payload \<le> usize_max" by (simp add: usize_max_def)
  obtain eng out' where opened: "de_reset protocol_codec protocol_decode_hooks
      \<lparr>de_codec = (), de_hooks = \<lparr>ph_invalid = bad, ph_incomplete = tail\<rparr>, de_lifecycle = guard_new\<rparr> [] 0 = (Ok 0, eng, out')"
    "de_hooks eng = \<lparr>ph_invalid = bad, ph_incomplete = tail\<rparr>" "de_phase eng = Fresh"
    using protocol_open(2) by blast
  have "drive_inv payload ?expected eng ?st" "dd_steps ?st + drive_left payload ?st < decode_step_limit payload"
    using opened(2,3) by (auto simp: drive_inv_def drive_left_def decode_start_def decode_step_limit_def reference_def stream_phase_def window_def)
  from drive_loop_ends [OF this(1) len _ this(2), of stride]
  have "(case decode_drive_loop payload ?expected stride eng ?st of
      (Ok (Some st), eng) \<Rightarrow> decode_drive_end payload ?expected eng st
    | (Ok None, _) \<Rightarrow> Ok ()
    | _ \<Rightarrow> Panic) = Ok ()"
    by (auto simp: stride_def decode_drive_end_def dest: protocol_finish split: prod.splits res.splits option.splits)
  moreover have "decode_fuzz_target data = (case decode_drive_loop payload ?expected stride eng ?st of
      (Ok (Some st), eng) \<Rightarrow> decode_drive_end payload ?expected eng st
    | (Ok None, _) \<Rightarrow> Ok ()
    | _ \<Rightarrow> Panic)"
    unfolding decode_fuzz_target_def Let_def control_def [symmetric] defs [symmetric] protocol_open(1) by (simp add: opened(1))
  ultimately show ?thesis by simp
qed

end
