(* ===== verification/DecodeSteps.thy ===== *)
theory DecodeSteps
  imports DecodeSources
begin

text \<open>
  Reading step by step. A caller of \<open>TranscodeDecodeInput\<close> that uses \<open>transcode_step\<close> and
  \<open>transcode_eof_step\<close> itself, filling as it likes, makes the same run of the decoder as the
  batch call: steps are commit points, and the call at end of input completes the run.
\<close>

section \<open>One step\<close>

context decode_bridge
begin

text \<open>A step that finds no unit has the whole of what is left in the buffer. One that makes progress
  consumes what the decoder read of the window and leaves the run of the stream paused.\<close>

lemma step_result:
  assumes "sound d" "live s" "j + count \<le> length out" "length out \<le> usize_max" "0 < count"
    and "di_transcode_step T BI E f s d out j count = (r, s', d', out')"
  shows "sound d' \<and> (case r of
      Ok None \<Rightarrow> s' = s \<and> out' = out \<and> rest (di_input d') = rest (di_input d) \<and> di_unread BI d' = rest (di_input d)
    | Ok (Some p) \<Rightarrow> \<exists>vs. tp_written p = length vs \<and> live s' \<and> out' = splice_at out j vs \<and>
        rest (di_input d') = drop (tp_read p) (rest (di_input d)) \<and>
        stops count (view s) (rest (di_input d)) (tp_read p) vs (view s')
    | Err e \<Rightarrow> rest (di_input d') = rest (di_input d) \<and> (fault e \<and> s' = s \<and> out' = out \<or>
        (\<exists>e' m vs. e = f e' \<and> out' = splice_at out j vs \<and>
          run (view s) True (rest (di_input d)) count = (Err e', m, vs, view s')))
    | Panic \<Rightarrow> False)"
proof -
  have range: "env_range_end E (length out) j count msg = Ok (j + count)" for msg using range_law assms(3,4) by simp
  obtain q d1 where fill: "(if di_unread_len BI d = 0 then di_fill_more BI d else (Ok True, d)) = (q, d1)" by (metis surj_pair)
  then have d1: "sound d1" "rest (di_input d1) = rest (di_input d)" "q \<noteq> Panic" "q = Ok True \<Longrightarrow> di_unread BI d1 \<noteq> []"
    "q = Ok False \<Longrightarrow> di_unread BI d1 = rest (di_input d)" "\<And>e. q = Err e \<Longrightarrow> fault e"
    using fill_more_sound [OF assms(1), of q d1] assms(1) by (auto simp: di_unread_len_def split: if_splits)
  have first: "(if di_unread BI d = [] then (case di_fill_more BI d of (r, d) \<Rightarrow> (r, s, d, out)) else (Ok True, s, d, out)) = (q, s, d1, out)"
    using fill by (auto simp: di_unread_len_def split: if_splits prod.splits)
  note def = di_transcode_step_def Let_def range di_unread_len_def length_0_conv first
  show ?thesis
  proof (cases "q = Ok True")
    case True
    let ?x = "di_unread BI d1"
    have ok: "ok (di_input d1)" using d1(1) by (simp add: di_sound_def)
    obtain ys where xs: "rest (di_input d1) = ?x @ ys" using unread_prefix [OF ok] by blast
    note valid = live_valid [OF assms(2)]
    obtain q2 n vs c' where run: "run (view s) False ?x count = (q2, n, vs, c')" by (metis prod_cases4)
    obtain r1 s1 o1 where call: "prefix_call out (j + count) (decoder_call T False s ?x 0 (take (j + count) out) j) = (r1, s1, o1)"
      by (metis prod_cases3)
    note w = window_call [OF d1(1) assms(2-4) run call, of f]
    show ?thesis
    proof (cases q2)
      case (Ok st)
      have n: "n \<le> length ?x" using w by simp
      have "stops count (view s) (?x @ ys) n vs c'"
        using run_resume [OF valid run [unfolded Ok], of True ys] w n by (auto simp: paused_def)
      moreover have "r = Ok (Some (progress_new st n (length vs)))" "s' = s1" "d' = d1\<lparr>di_input := bi_consume BI (di_input d1) n\<rparr>" "out' = o1"
        using assms(5,6) call w Ok n True by (simp_all add: def di_consume_def di_unread_len_def progress_defs)
      moreover have "sound (d1\<lparr>di_input := bi_consume BI (di_input d1) n\<rparr>)"
        using consume_law [OF ok n] d1(1) by (simp add: di_sound_def)
      ultimately show ?thesis using w Ok consume_law [OF ok n] xs d1(2) by (auto simp: progress_defs)
    next
      case (Err e)
      have "run (view s) True (?x @ ys) count = (Err e, n, vs, c')" using run_final [OF valid run] Err by simp
      moreover have "r = Err (f e)" "s' = s1" "d' = d1" "out' = o1"
        using assms(5,6) call w Err True by (simp_all add: def di_unread_len_def)
      ultimately show ?thesis using w d1(1,2) xs by auto
    qed (use w in simp)
  next
    case False
    with assms(5,6) d1 show ?thesis by (cases q) (auto simp: def)
  qed
qed

end

section \<open>A caller's steps\<close>

text \<open>A caller decodes into \<open>count\<close> positions from \<open>j\<close> on, each step behind the values it has
  already, \<open>w\<close> of them. Steps may fail with a fault of the input and be repeated; between steps
  the caller may fill the buffer.\<close>

inductive di_stepped ::
  "('s, 'u, 'o, 'e) transcoder \<Rightarrow> ('b, 'u) buffered_input \<Rightarrow> io_env \<Rightarrow> ('e \<Rightarrow> io_error) \<Rightarrow> nat \<Rightarrow> nat \<Rightarrow>
   's \<times> 'b decode_input \<times> 'o list \<Rightarrow> nat \<Rightarrow> 's \<times> 'b decode_input \<times> 'o list \<Rightarrow> bool"
  for T BI E f j count st0 where
  start: "di_stepped T BI E f j count st0 0 st0"
| step: "di_stepped T BI E f j count st0 (w + tp_written p) st'"
    if "di_stepped T BI E f j count st0 w (s, d, out)" "w < count"
      "di_transcode_step T BI E f s d out (j + w) (count - w) = (Ok (Some p), st')"
| ended: "di_stepped T BI E f j count st0 w st'"
    if "di_stepped T BI E f j count st0 w (s, d, out)" "w < count"
      "di_transcode_step T BI E f s d out (j + w) (count - w) = (Ok None, st')"
| fill_more: "di_stepped T BI E f j count st0 w (s, d', out)"
    if "di_stepped T BI E f j count st0 w (s, d, out)" "di_fill_more BI d = (r, d')"
| fill_until: "di_stepped T BI E f j count st0 w (s, d', out)"
    if "di_stepped T BI E f j count st0 w (s, d, out)" "di_fill_until BI E k d = (r, d')"

context decode_bridge
begin

lemma stepped_paused:
  assumes "di_stepped T BI E f j count (s0, d0, out0) w st" "sound d0" "live s0" "j + count \<le> length out0" "length out0 \<le> usize_max"
  shows "\<exists>s d n vs. st = (s, d, splice_at out0 j vs) \<and> w = length vs \<and> sound d \<and> live s \<and>
    rest (di_input d) = drop n (rest (di_input d0)) \<and> stops count (view s0) (rest (di_input d0)) n vs (view s)"
  using assms(1)
proof (induction w st rule: di_stepped.induct)
  case start
  with assms(2,3) show ?case
    by (intro exI [of _ s0] exI [of _ d0] exI [of _ 0] exI [of _ "[]"]) (simp add: stops_refl)
next
  case (step w s d out p st')
  then obtain n vs where i: "out = splice_at out0 j vs" "w = length vs" "sound d" "live s"
    "rest (di_input d) = drop n (rest (di_input d0))" "stops count (view s0) (rest (di_input d0)) n vs (view s)" by blast
  obtain s1 d1 o1 where st': "st' = (s1, d1, o1)" by (cases st')
  have fits: "j + w + (count - w) \<le> length out" "length out \<le> usize_max" "0 < count - w"
    using i(1,2,6) assms(4,5) step.hyps(2) by (simp_all add: paused_def)
  from step_result [OF i(3,4) fits, of f "Ok (Some p)" s1 d1 o1] step.hyps(3) st'
  obtain ws where w: "sound d1" "tp_written p = length ws" "live s1" "o1 = splice_at out (j + w) ws"
    "rest (di_input d1) = drop (tp_read p) (rest (di_input d))"
    "stops (count - w) (view s) (rest (di_input d)) (tp_read p) ws (view s1)" by auto
  have "stops count (view s0) (rest (di_input d0)) (n + tp_read p) (vs @ ws) (view s1)"
    using stops_trans [OF i(6)] w(6) i(2,5) by simp
  moreover from this have "j + length (vs @ ws) \<le> length out0" using assms(4) by (simp add: paused_def)
  then have "o1 = splice_at out0 j (vs @ ws)" using w(4) i(1,2) by (simp add: splice_at_append)
  ultimately show ?case using w i(2,5) st'
    by (intro exI [of _ s1] exI [of _ d1] exI [of _ "n + tp_read p"] exI [of _ "vs @ ws"]) (simp add: add.commute)
next
  case (ended w s d out st')
  then obtain n vs where i: "out = splice_at out0 j vs" "w = length vs" "sound d" "live s"
    "rest (di_input d) = drop n (rest (di_input d0))" "stops count (view s0) (rest (di_input d0)) n vs (view s)" by blast
  obtain s1 d1 o1 where st': "st' = (s1, d1, o1)" by (cases st')
  have fits: "j + w + (count - w) \<le> length out" "length out \<le> usize_max" "0 < count - w"
    using i(1,2,6) assms(4,5) ended.hyps(2) by (simp_all add: paused_def)
  from step_result [OF i(3,4) fits, of f "Ok None" s1 d1 o1] ended.hyps(3) i st' show ?case
    by (intro exI [of _ s1] exI [of _ d1] exI [of _ n] exI [of _ vs]) simp
next
  case (fill_more w s d out r d')
  then show ?case using fill_more_sound [OF _ fill_more.hyps(2)] by fastforce
next
  case (fill_until w s d out k r d')
  then show ?case using fill_until_sound [OF _ fill_until.hyps(2)] by fastforce
qed

lemma eof_step_zero:
  assumes "j \<le> length out" "length out \<le> usize_max"
  shows "di_transcode_eof_step T BI E f s d out j 0 = (Ok (progress_complete 0 0), s, d, out)"
  using range_law [of j 0 "length out"] assms by (simp add: di_transcode_eof_step_def)

text \<open>The steps and the call at end of input make the result of the batch call.\<close>

lemma stepped_completes:
  assumes "di_stepped T BI E f j count (s0, d0, out0) w (s, d, out)" "sound d0" "live s0"
    and "j + count \<le> length out0" "length out0 \<le> usize_max" "di_unread BI d = rest (di_input d)"
    and "di_transcode_eof_step T BI E f s d out (j + w) (count - w) = (r, s', d', out')"
  shows "batch f (view s0) (rest (di_input d0)) out0 j count 0 (map_ok (\<lambda>p. w + tp_written p) r) s' d' out'"
proof -
  from stepped_paused [OF assms(1-5)] obtain n vs where i: "out = splice_at out0 j vs" "w = length vs" "sound d" "live s"
    "rest (di_input d) = drop n (rest (di_input d0))" "stops count (view s0) (rest (di_input d0)) n vs (view s)" by blast
  have fits: "j + w + (count - w) \<le> length out" "length out \<le> usize_max" using i(1,2,6) assms(4,5) by (simp_all add: paused_def)
  have "batch f (view s) (rest (di_input d)) out (j + w) (count - w) w (map_ok (\<lambda>p. w + tp_written p) r) s' d' out'"
  proof (cases "count - w = 0")
    case True
    with eof_step_zero [of "j + w" out f s d] fits assms(7) have "r = Ok (progress_complete 0 0)" "s' = s" "d' = d" "out' = out" by simp_all
    with True run_full [OF live_valid [OF i(4)], of True "rest (di_input d)"] i(3,4) show ?thesis
      by (auto simp: batch_result_def progress_defs intro!: exI [of _ 0])
  next
    case False
    then have "0 < count - w" by simp
    from eof_step_result [OF i(3,4) fits this assms(6,7), of w] show ?thesis .
  qed
  with batch_resume [OF i(6) assms(4)] i(1,2,5) show ?thesis by simp
qed

end

section \<open>Property\<close>

text \<open>C23. Reading in steps is the batch call: any sequence of \<open>transcode_step\<close> calls and fills,
  followed by \<open>transcode_eof_step\<close> once nothing more can be read, delivers in one destination
  what \<open>transcode\<close> delivers: the same values, units taken and decoder state, or the decoder's
  error at its position in the stream.\<close>

theorem decode_steps_join:
  assumes "decode_bridge T live view valid run shift BI E rest ok fault"
    and "di_stepped T BI E map_error j count (s0, d0, out0) w (s, d, out)"
    and "di_sound BI rest ok d0" "live s0" "j + count \<le> length out0" "length out0 \<le> usize_max"
    and "di_unread BI d = rest (di_input d)"
    and "di_transcode_eof_step T BI E map_error s d out (j + w) (count - w) = (r, s', d', out')"
  shows "batch_result run shift view live BI rest ok fault map_error (view s0) (rest (di_input d0)) out0 j count 0
    (map_ok (\<lambda>p. w + tp_written p) r) s' d' out'"
  by (rule decode_bridge.stepped_completes [OF assms])

end
