(* ===== verification/EncodeSteps.thy ===== *)
theory EncodeSteps
  imports AsyncWriting
begin

text \<open>
  Writing step by step. \<open>transcode_step\<close> of an encode output makes room for one value, so every step
  reads at least one and commits exactly the units of the values it read. The loop of the example
  \<open>examples/io_transcode_step.rs\<close> ends for every conforming encoder and delivers the whole stream.
\<close>

section \<open>One step\<close>

locale step_bridge =
  stream_encoder T live view valid encode_all + buffered_sink BO E sent delivered ok fault interruptions
  for T :: "('s, 'v, 'u, 'e) transcoder" and live and view :: "'s \<Rightarrow> 'c" and valid and encode_all
    and BO :: "('w, 'u) buffered_output" and E and sent delivered and ok and fault and interruptions +
  assumes step_range: "i + n \<le> len \<Longrightarrow> len \<le> usize_max \<Longrightarrow> env_range_end E len i n msg = Ok (i + n)"
begin

lemma step_result:
  assumes "ok w" "live s" "i + count \<le> length input" "length input \<le> usize_max" "0 < count"
    and "eo_transcode_step T BO E f s w input i count = (r, s', w')"
  shows "ok w' \<and> (case r of
      Ok p \<Rightarrow> live s' \<and> 0 < tp_read p \<and> tp_read p \<le> count \<and> (\<forall>req. tp_status p = NeedOutput req \<longrightarrow> nz_get req \<le> usize_max) \<and>
        (\<exists>us. encode_all (view s) i (take (tp_read p) (drop i input)) = (Inr us, view s') \<and> tp_written p = length us \<and>
          sent w' = sent w @ us)
    | Err e \<Rightarrow> sent w' = sent w \<and>
        (s' = s \<and> (fault e \<or> (\<exists>x. max_transcode_output_len T s 1 = Err x \<and> e = capacity_error_to_invalid_data x)) \<or>
         (\<exists>e'. e = f e' \<and> encode_all (view s) i (take count (drop i input)) = (Inl e', view s')))
    | Panic \<Rightarrow> False)"
proof -
  let ?in = "take (i + count) input"
  have range: "env_range_end E (length input) i count msg = Ok (i + count)" for msg using step_range assms(3,4) by simp
  have vs: "drop i ?in = take count (drop i input)" by (simp add: take_drop add.commute)
  note def = eo_transcode_step_def range Let_def
  show ?thesis
  proof (cases "max_transcode_output_len T s 1")
    case (Ok m)
    have n: "max m 1 \<le> usize_max" using bound_one [OF assms(2)] Ok by (simp add: usize_max_def)
    obtain q w1 where ens: "eo_ensure_spare_capacity BO E (max m 1) w = (q, w1)" by (metis surj_pair)
    note el = ensure_spare [OF assms(1) n ens]
    show ?thesis
    proof (cases q)
      case okq: (Ok u)
      have w1: "ok w1" "sent w1 = sent w" "max m 1 \<le> bo_spare_capacity BO w1" using el okq by simp_all
      obtain units j k where raw: "bo_spare_raw_parts BO w1 = (units, j, k)" by (metis prod_cases3)
      note law = raw_law [OF w1(1) raw]
      have room: "j + max m 1 \<le> length units" "length units \<le> usize_max" "length units - j = k" using law w1(3) by arith+
      obtain x s1 u1 where call: "tr_transcode T s ?in i units j = (x, s1, u1)" by (metis prod_cases3)
      have len: "i < length ?in" "length ?in \<le> usize_max" "length ?in - i = count" using assms(3-5) by simp_all
      note step = step_law [OF assms(2) len(1,2) room(2) Ok room(1) call, unfolded len(3) room(3)]
      then have wr: "length u1 = length units" "take j u1 = take j units" by simp_all
      note window = window_write [OF w1(1) raw wr]
      note so_far = Ok ens okq raw call wr
      show ?thesis
      proof (cases x)
        case x: (Ok p)
        with step have p: "live s1" "valid_progress p i count j k" "\<not> is_need_input p" "0 < tp_read p"
          "\<And>req. tp_status p = NeedOutput req \<Longrightarrow> nz_get req \<le> usize_max"
          "encode_all (view s) i (take (tp_read p) (drop i ?in)) = (Inr (take (tp_written p) (drop j u1)), view s1)"
          by simp_all
        have v: "validate_encode_progress p i count j k = Ok p" using p by (simp add: io_valid)
        let ?us = "take (tp_written p) (drop j u1)"
        have us: "length ?us = tp_written p" "j + length ?us \<le> length units" "tp_read p \<le> count"
          using p(2) law wr(1) by (auto simp: valid_progress_def min_def)
        then have w: "ok (bo_advance BO (bo_write_units BO w1 u1) (tp_written p))"
          "sent (bo_advance BO (bo_write_units BO w1 u1) (tp_written p)) = sent w1 @ ?us"
          using window by (metis length_take)+
        have "r = Ok p" "s' = s1" "w' = bo_advance BO (bo_write_units BO w1 u1) (tp_written p)"
          using assms(5,6) so_far v x by (simp_all add: def)
        moreover have "take (tp_read p) (drop i ?in) = take (tp_read p) (drop i input)" using us(3) by (simp add: vs min_def)
        ultimately show ?thesis using p w us w1(2) by auto
      next
        case (Err e)
        with step window assms(5,6) so_far w1(2) vs show ?thesis by (auto simp: def)
      qed (use step in simp)
    qed (use el assms Ok ens in \<open>auto simp: def\<close>)
  qed (use bound_one [OF assms(2)] assms in \<open>auto simp: def\<close>)
qed

end

section \<open>The loop of the example\<close>

text \<open>It steps through the values from \<open>offset\<close> on and makes the room a report asks for.\<close>

partial_function (option) eo_step_all ::
  "('s, 'v, 'u, 'e) transcoder \<Rightarrow> ('w, 'u) buffered_output \<Rightarrow> io_env \<Rightarrow> ('e \<Rightarrow> io_error) \<Rightarrow>
   'v list \<Rightarrow> nat \<Rightarrow> 's \<Rightarrow> 'w \<Rightarrow> ((io_error, unit) res \<times> 's \<times> 'w) option" where
  "eo_step_all T BO E map_error input offset s w =
    (if \<not> offset < length input then Some (Ok (), s, w)
     else
       case eo_transcode_step T BO E map_error s w input offset (length input - offset) of
         (Ok p, s, w) \<Rightarrow>
           (case (case tp_status p of NeedOutput required \<Rightarrow> eo_ensure_spare_capacity BO E (nz_get required) w | _ \<Rightarrow> (Ok (), w)) of
              (Ok _, w) \<Rightarrow> eo_step_all T BO E map_error input (offset + tp_read p) s w
            | (Err e, w) \<Rightarrow> Some (Err e, s, w)
            | (Panic, w) \<Rightarrow> Some (Panic, s, w))
       | (Err e, s, w) \<Rightarrow> Some (Err e, s, w)
       | (Panic, s, w) \<Rightarrow> Some (Panic, s, w))"

declare eo_step_all.simps [code]

definition eo_step_stream ::
  "('s, 'v, 'u, 'e) transcoder \<Rightarrow> ('w, 'u) buffered_output \<Rightarrow> io_env \<Rightarrow> ('e \<Rightarrow> io_error) \<Rightarrow>
   'v list \<Rightarrow> 's \<Rightarrow> 'w \<Rightarrow> ((io_error, unit) res \<times> 's \<times> 'w) option" where
  "eo_step_stream T BO E map_error input s w =
    (case eo_reset T BO E map_error s w of
       (Ok _, s, w) \<Rightarrow>
         (case eo_step_all T BO E map_error input 0 s w of
            Some (Ok _, s, w) \<Rightarrow> Some (eo_finish T BO E map_error s w)
          | r \<Rightarrow> r)
     | r \<Rightarrow> Some r)"

context step_bridge
begin

lemma step_all_sends:
  assumes "ok w" "live s" "i \<le> length input" "length input \<le> usize_max"
  shows "\<exists>r s' w'. eo_step_all T BO E f input i s w = Some (r, s', w') \<and> ok w' \<and> (case r of
      Ok _ \<Rightarrow> live s' \<and> (\<exists>us. encode_all (view s) i (drop i input) = (Inr us, view s') \<and> sent w' = sent w @ us)
    | Err e \<Rightarrow> (\<exists>n us c. encode_all (view s) i (take n (drop i input)) = (Inr us, c) \<and> sent w' = sent w @ us) \<and>
        (fault e \<or> (\<exists>s1 x. live s1 \<and> max_transcode_output_len T s1 1 = Err x \<and> e = capacity_error_to_invalid_data x) \<or>
         (\<exists>e' x. e = f e' \<and> encode_all (view s) i (drop i input) = (Inl e', x)))
    | Panic \<Rightarrow> False)"
  using assms(1-3)
proof (induction "length input - i" arbitrary: i s w rule: less_induct)
  case less
  note loop = eo_step_all.simps [of T BO E f input i s w]
  show ?case
  proof (cases "i < length input")
    case False
    with loop less.prems encode_nil show ?thesis by auto
  next
    case True
    let ?c = "length input - i"
    obtain q s1 w1 where step: "eo_transcode_step T BO E f s w input i ?c = (q, s1, w1)" by (metis prod_cases3)
    have all: "take ?c (drop i input) = drop i input" by simp
    have fits: "i + ?c \<le> length input" "0 < ?c" using True by simp_all
    note res = step_result [OF less.prems(1,2) fits(1) assms(4) fits(2) step, unfolded all]
    show ?thesis
    proof (cases q)
      case (Ok p)
      with res obtain us where p: "ok w1" "live s1" "0 < tp_read p" "tp_read p \<le> ?c"
        "encode_all (view s) i (take (tp_read p) (drop i input)) = (Inr us, view s1)" "sent w1 = sent w @ us"
        "\<And>req. tp_status p = NeedOutput req \<Longrightarrow> nz_get req \<le> usize_max" by auto
      obtain x w2 where room: "(case tp_status p of NeedOutput required \<Rightarrow> eo_ensure_spare_capacity BO E (nz_get required) w1
          | _ \<Rightarrow> (Ok (), w1)) = (x, w2)" by (metis surj_pair)
      have w2: "ok w2" "sent w2 = sent w1" "x \<noteq> Panic" "\<And>e. x = Err e \<Longrightarrow> fault e"
        using room p(1,7) ensure_spare [OF p(1)] by (auto split: transcode_status.splits)
      let ?k = "i + tp_read p"
      have joined: "encode_all (view s) i (take (tp_read p) (drop i input) @ ys) = (case encode_all (view s1) ?k ys of (y, c) \<Rightarrow> (map_sum id ((@) us) y, c))" for ys
        using encode_append [OF live_valid [OF less.prems(2)], of i "take (tp_read p) (drop i input)" ys] p(4,5) by simp
      have rest: "take (tp_read p) (drop i input) @ drop ?k input = drop i input"
        by (metis append_take_drop_id drop_drop add.commute)
      show ?thesis
      proof (cases x)
        case okx: (Ok u)
        have "length input - ?k < length input - i" "?k \<le> length input" using p(3,4) True by simp_all
        from less.hyps [OF this(1) w2(1) p(2) this(2)] obtain r s2 w3 where
          rec: "eo_step_all T BO E f input ?k s1 w2 = Some (r, s2, w3)" "ok w3" "case r of
            Ok _ \<Rightarrow> live s2 \<and> (\<exists>us. encode_all (view s1) ?k (drop ?k input) = (Inr us, view s2) \<and> sent w3 = sent w2 @ us)
          | Err e \<Rightarrow> (\<exists>n us c. encode_all (view s1) ?k (take n (drop ?k input)) = (Inr us, c) \<and> sent w3 = sent w2 @ us) \<and>
              (fault e \<or> (\<exists>s1 x. live s1 \<and> max_transcode_output_len T s1 1 = Err x \<and> e = capacity_error_to_invalid_data x) \<or>
               (\<exists>e' x. e = f e' \<and> encode_all (view s1) ?k (drop ?k input) = (Inl e', x)))
          | Panic \<Rightarrow> False" by blast
        have same: "eo_step_all T BO E f input i s w = Some (r, s2, w3)"
          using loop True step Ok room okx rec(1) by simp
        show ?thesis
        proof (cases r)
          case (Err e)
          with rec(3) obtain n ws c where pre: "encode_all (view s1) ?k (take n (drop ?k input)) = (Inr ws, c)" "sent w3 = sent w2 @ ws" by auto
          have "take (tp_read p + n) (drop i input) = take (tp_read p) (drop i input) @ take n (drop ?k input)"
            by (simp only: take_add [of "tp_read p" n] drop_drop add.commute [of i])
          with joined [of "take n (drop ?k input)"] pre
          have "encode_all (view s) i (take (tp_read p + n) (drop i input)) = (Inr (us @ ws), c)" by simp
          moreover have "encode_all (view s1) ?k (drop ?k input) = (Inl e', y) \<Longrightarrow> encode_all (view s) i (drop i input) = (Inl e', y)" for e' y
            using joined [of "drop ?k input"] unfolding rest by simp
          ultimately show ?thesis using same rec(2,3) Err pre w2(2) p(6) by fastforce
        qed (use same rec(2,3) joined [of "drop ?k input", unfolded rest] w2(2) p(6) in auto)
      next
        case (Err e)
        with loop True step Ok room w2 p(5,6) show ?thesis by auto
      qed (use w2 in simp)
    next
      case (Err e)
      have "encode_all (view s) i (take 0 (drop i input)) = (Inr [], view s)" using encode_nil by simp
      moreover have "eo_step_all T BO E f input i s w = Some (Err e, s1, w1)" using loop True step Err by simp
      moreover have "ok w1" "sent w1 = sent w @ []" using res Err by simp_all
      moreover have "fault e \<or> (\<exists>s1 x. live s1 \<and> max_transcode_output_len T s1 1 = Err x \<and> e = capacity_error_to_invalid_data x) \<or>
          (\<exists>e' x. e = f e' \<and> encode_all (view s) i (drop i input) = (Inl e', x))" using res Err less.prems(2) by auto
      ultimately show ?thesis
        by (intro exI [of _ "Err e"] exI [of _ s1] exI [of _ w1]) (auto intro!: exI [of _ 0])
    qed (use res in simp)
  qed
qed

end

text \<open>Reset, steps and finish.\<close>

locale step_lifecycle_bridge =
  step_bridge T live view valid encode_all BO E sent delivered ok fault interruptions +
  lifecycle_bridge T live view encode_all held reset_all finish_all BO E sent delivered ok fault interruptions
  for T :: "('s, 'v, 'u, 'e) transcoder" and live and view :: "'s \<Rightarrow> 'c" and valid and encode_all
    and held and reset_all and finish_all
    and BO :: "('w, 'u) buffered_output" and E and sent delivered and ok and fault and interruptions
begin

lemma step_stream_delivers:
  assumes "ok w" "held s" "length input \<le> usize_max"
  shows "\<exists>r s' w'. eo_step_stream T BO E f input s w = Some (r, s', w') \<and> ok w' \<and> (case r of
      Ok _ \<Rightarrow> held s' \<and> delivered w' = sent w' \<and> (\<exists>rs us fs c1 c2. reset_all (view s) = (Inr rs, c1) \<and>
        encode_all c1 0 input = (Inr us, c2) \<and> finish_all c2 = (Inr fs, view s') \<and> sent w' = sent w @ rs @ us @ fs)
    | Err e \<Rightarrow> (\<exists>us. sent w' = sent w @ us) \<and>
        (fault e \<or> (\<exists>x. e = capacity_error_to_invalid_data x) \<or> (\<exists>e'. e = f e'))
    | Panic \<Rightarrow> False)"
proof -
  obtain q s1 w1 where reset: "eo_reset T BO E f s w = (q, s1, w1)" by (metis prod_cases3)
  note res = reset_sends [OF assms(1,2) reset, unfolded sends_units_def]
  show ?thesis
  proof (cases q)
    case (Ok u)
    with res obtain rs where rs: "ok w1" "live s1" "reset_all (view s) = (Inr rs, view s1)" "sent w1 = sent w @ rs" by auto
    from step_all_sends [OF rs(1,2) le0 assms(3), of f] obtain x s2 w2 where
      all: "eo_step_all T BO E f input 0 s1 w1 = Some (x, s2, w2)" "ok w2" "case x of
          Ok _ \<Rightarrow> live s2 \<and> (\<exists>us. encode_all (view s1) 0 (drop 0 input) = (Inr us, view s2) \<and> sent w2 = sent w1 @ us)
        | Err e \<Rightarrow> (\<exists>n us c. encode_all (view s1) 0 (take n (drop 0 input)) = (Inr us, c) \<and> sent w2 = sent w1 @ us) \<and>
            (fault e \<or> (\<exists>s1 x. live s1 \<and> max_transcode_output_len T s1 1 = Err x \<and> e = capacity_error_to_invalid_data x) \<or>
             (\<exists>e' x. e = f e' \<and> encode_all (view s1) 0 (drop 0 input) = (Inl e', x)))
        | Panic \<Rightarrow> False" by blast
    show ?thesis
    proof (cases x)
      case okx: (Ok v)
      with all(3) obtain us where us: "live s2" "encode_all (view s1) 0 input = (Inr us, view s2)" "sent w2 = sent w @ rs @ us"
        using rs(4) by auto
      obtain y s3 w3 where fin: "eo_finish T BO E f s2 w2 = (y, s3, w3)" by (metis prod_cases3)
      note fs = finish_sends [OF all(2) us(1) fin, unfolded sends_units_def]
      have run: "eo_step_stream T BO E f input s w = Some (y, s3, w3)"
        using reset Ok all(1) okx fin by (simp add: eo_step_stream_def)
      show ?thesis
      proof (cases y)
        case okz: (Ok z)
        then obtain ws where "finish_all (view s2) = (Inr ws, view s3)" "sent w3 = sent w2 @ ws" "held s3" "delivered w3 = sent w3"
          using fs by auto
        with run okz fs us(2,3) rs(3) show ?thesis by simp
      next
        case (Err e)
        from fs Err have "sent w3 = sent w2 \<or> (\<exists>us. sent w3 = sent w2 @ us)"
          "fault e \<or> (\<exists>x. e = capacity_error_to_invalid_data x) \<or> (\<exists>e'. e = f e')" by auto
        with run Err fs us(3) show ?thesis by auto
      qed (use fs in auto)
    next
      case (Err e)
      with all(3) obtain us where "sent w2 = sent w @ rs @ us"
        "fault e \<or> (\<exists>x. e = capacity_error_to_invalid_data x) \<or> (\<exists>e'. e = f e')" using rs(4) by auto
      with reset Ok all(1,2) Err show ?thesis by (auto simp: eo_step_stream_def)
    qed (use all in auto)
  next
    case (Err e)
    with res reset show ?thesis by (auto simp: eo_step_stream_def)
  qed (use res in auto)
qed

end

interpretation u16be_stepping: step_lifecycle_bridge "encode_transcoder u16be_codec (codec_transcode_encode_hooks u16be_codec)"
  "\<lambda>eng. any_state (ee_codec eng) \<and> stream_phase (ee_phase eng)" engine_state "\<lambda>(c, h). any_state c"
  "engine_encode_all u16be_codec u16be_emit strict_unencodable" "\<lambda>eng. any_state (ee_codec eng)"
  "engine_emission (\<lambda>e. EncodeDomain (DomainReset e)) emit_nothing"
  "engine_emission (\<lambda>e. EncodeDomain (DomainFinish e)) emit_nothing"
  "memory_output fill" sample_env ms_sent ms_delivered "ms_ok fault" fault ms_interruptions
  for fill fault
  by unfold_locales (simp add: sample_slice_range)

section \<open>Property\<close>

text \<open>C28. Writing in steps: the loop of the example, which resets, steps through all values making the
  room each report asks for, and finishes, returns for every conforming encoder and output. When
  it succeeds the output has delivered the reset units, the encoding of all values and the finish
  units, in this order; when it fails nothing sent is lost, and the error is a fault of the
  output, a capacity error or the mapped error of the encoder.\<close>

theorem step_stream_delivers_all:
  assumes "step_lifecycle_bridge T live view valid encode_all held reset_all finish_all BO E sent delivered ok fault interruptions"
    and "ok w" "held s" "length input \<le> usize_max"
  shows "\<exists>r s' w'. eo_step_stream T BO E map_error input s w = Some (r, s', w') \<and> ok w' \<and> (case r of
      Ok _ \<Rightarrow> held s' \<and> delivered w' = sent w' \<and> (\<exists>rs us fs c1 c2. reset_all (view s) = (Inr rs, c1) \<and>
        encode_all c1 0 input = (Inr us, c2) \<and> finish_all c2 = (Inr fs, view s') \<and> sent w' = sent w @ rs @ us @ fs)
    | Err e \<Rightarrow> (\<exists>us. sent w' = sent w @ us) \<and>
        (fault e \<or> (\<exists>x. e = capacity_error_to_invalid_data x) \<or> (\<exists>e'. e = map_error e'))
    | Panic \<Rightarrow> False)"
  by (rule step_lifecycle_bridge.step_stream_delivers [OF assms])

end
