(* ===== verification/Examples.thy ===== *)
theory Examples
  imports EncodeSteps
begin

text \<open>
  The programs under \<open>examples\<close>: \<open>decode_lifecycle.rs\<close>, which decodes a whole value with a codec
  that emits values around it, and \<open>io_transcode_step.rs\<close>, which encodes two values step by step.
  Their codecs are in \<open>SampleCodecs\<close>; the second runs \<open>CodecTranscodeEncoder\<close>, which keeps the
  contract of a streaming encoder because the engine in it does.
\<close>

section \<open>The strict encoder as a streaming encoder\<close>

locale adapter_encoder =
  plain_encoder C "codec_transcode_encode_hooks C" good emit act reset_emit finish_emit
  for C :: "('c, 'v, 'u, 'de, 'ee) codec" and good and emit and act and reset_emit and finish_emit
begin

abbreviation "engine_transcoder \<equiv> encode_transcoder C (codec_transcode_encode_hooks C)"

text \<open>A call of the adapter is the call of its engine.\<close>

lemma adapter_calls:
  "max_reset_output_len (codec_transcode_encoder C) s = max_reset_output_len engine_transcoder (encoder_engine s)"
  "max_transcode_output_len (codec_transcode_encoder C) s n = max_transcode_output_len engine_transcoder (encoder_engine s) n"
  "max_finish_output_len (codec_transcode_encoder C) s = max_finish_output_len engine_transcoder (encoder_engine s)"
  "tr_transcode (codec_transcode_encoder C) s input i out j = (r, s', out') \<longleftrightarrow>
    tr_transcode engine_transcoder (encoder_engine s) input i out j = (r, encoder_engine s', out')"
  "tr_reset (codec_transcode_encoder C) s out j = (q, s', out') \<longleftrightarrow>
    tr_reset engine_transcoder (encoder_engine s) out j = (q, encoder_engine s', out')"
  "tr_finish (codec_transcode_encoder C) s out j = (q, s', out') \<longleftrightarrow>
    tr_finish engine_transcoder (encoder_engine s) out j = (q, encoder_engine s', out')"
  by (cases s'; auto simp: codec_transcode_encoder_def encode_transcoder_def Let_def through_def split: prod.splits)+

end

sublocale adapter_encoder \<subseteq> adapter: stream_encoder "codec_transcode_encoder C"
  "\<lambda>s. good (ee_codec (encoder_engine s)) \<and> stream_phase (ee_phase (encoder_engine s))" "\<lambda>s. engine_state (encoder_engine s)"
  "\<lambda>(c, h). good c" "engine_encode_all C emit act"
proof (unfold_locales, goal_cases)
  case (5 s i input out m j r s' out')
  show ?case by (rule steps.step_law [OF 5(1-4) 5(5) [unfolded adapter_calls] 5(6) 5(7) [unfolded adapter_calls]])
next
  case (2 s)
  then show ?case unfolding adapter_calls by (rule steps.bound_one)
next
  case (4 c i xs ys)
  then show ?case by (rule steps.encode_append)
qed (simp_all add: steps.encode_nil)

sublocale adapter_encoder \<subseteq> adapter: lifecycle_encoder "codec_transcode_encoder C"
  "\<lambda>s. good (ee_codec (encoder_engine s)) \<and> stream_phase (ee_phase (encoder_engine s))" "\<lambda>s. engine_state (encoder_engine s)"
  "engine_encode_all C emit act" "\<lambda>s. good (ee_codec (encoder_engine s))"
  "engine_emission (\<lambda>e. EncodeDomain (DomainReset e)) reset_emit"
  "engine_emission (\<lambda>e. EncodeDomain (DomainFinish e)) finish_emit"
proof (unfold_locales, goal_cases)
  case (2 s i input out m j x c' r s' out')
  show ?case by (rule delivery.batch_law [OF 2(1-4) 2(5) [unfolded adapter_calls] 2(6,7) 2(8) [unfolded adapter_calls]])
next
  case (4 s m j out x c' r s' out')
  show ?case by (rule delivery.reset_units [OF 4(1) 4(2) [unfolded adapter_calls] 4(3-5) 4(6) [unfolded adapter_calls]])
next
  case (6 s m j out x c' r s' out')
  show ?case by (rule delivery.finish_units [OF 6(1) 6(2) [unfolded adapter_calls] 6(3-5) 6(6) [unfolded adapter_calls]])
next
  case (1 s n)
  then show ?case unfolding adapter_calls by (rule delivery.bound_law)
next
  case (3 s)
  then show ?case unfolding adapter_calls by (rule delivery.reset_bound)
next
  case (5 s)
  then show ?case unfolding adapter_calls by (rule delivery.finish_bound)
qed

interpretation u16be_adapter: adapter_encoder u16be_codec any_state u16be_emit strict_unencodable emit_nothing emit_nothing
  by unfold_locales

section \<open>io_transcode_step.rs\<close>

definition example_encode_error :: "(infallible, u16) encode_error \<Rightarrow> io_error" where
  "example_encode_error e = IoMessage (OtherKind 0) ''encode error''"

text \<open>\<open>main\<close> over an output that the caller opens; \<open>contents\<close> is what the wrapped writer holds. A failed
  assertion is a panic.\<close>

definition io_step_main ::
  "('w, u8) buffered_output \<Rightarrow> io_env \<Rightarrow> ('w \<Rightarrow> u8 list) \<Rightarrow> 'w \<Rightarrow> (io_error, unit) res option" where
  "io_step_main BO E contents w =
    (case encoder_new u16be_codec () of
       Ok encoder \<Rightarrow>
         (case eo_step_stream (codec_transcode_encoder u16be_codec) BO E example_encode_error [0x1234, 0xabcd] encoder w of
            Some (Ok _, _, w) \<Rightarrow> Some (if contents w = [0x12, 0x34, 0xab, 0xcd] then Ok () else Panic)
          | Some (r, _, _) \<Rightarrow> Some r
          | None \<Rightarrow> None)
     | Err e \<Rightarrow> Some (Err e)
     | Panic \<Rightarrow> Some Panic)"

lemma u16be_adapter_bounds:
  "max_reset_output_len (codec_transcode_encoder u16be_codec) s = Ok 0"
  "max_transcode_output_len (codec_transcode_encoder u16be_codec) s (Suc 0) = Ok 2"
  "max_finish_output_len (codec_transcode_encoder u16be_codec) s = Ok 0"
  by (simp_all add: codec_transcode_encoder_def ee_max_reset_output_len_def ee_max_transcode_output_len_def
      ee_max_finish_output_len_def codec_transcode_encode_hooks_def default_eh_max_transcode_def default_max_finish_def
      u16be_codec_def codec_default_defs checked_mul_def checked_add_def usize_max_def Let_def)

text \<open>The example on every output without faults.\<close>

locale example_output =
  buffered_sink BO E sent delivered ok "\<lambda>_. False" interruptions
  for BO :: "('w, u8) buffered_output" and E and sent delivered and ok and interruptions +
  assumes output_range: "i + n \<le> len \<Longrightarrow> len \<le> usize_max \<Longrightarrow> env_range_end E len i n msg = Ok (i + n)"

sublocale example_output \<subseteq> example: step_lifecycle_bridge "codec_transcode_encoder u16be_codec"
  "\<lambda>s. any_state (ee_codec (encoder_engine s)) \<and> stream_phase (ee_phase (encoder_engine s))" "\<lambda>s. engine_state (encoder_engine s)"
  "\<lambda>(c, h). any_state c" "engine_encode_all u16be_codec u16be_emit strict_unencodable" "\<lambda>s. any_state (ee_codec (encoder_engine s))"
  "engine_emission (\<lambda>e. EncodeDomain (DomainReset e)) emit_nothing"
  "engine_emission (\<lambda>e. EncodeDomain (DomainFinish e)) emit_nothing"
  BO E sent delivered ok "\<lambda>_. False" interruptions
  by unfold_locales (auto simp: output_range engine_encode_all_def)

context example_output
begin

lemma io_step_main_delivers:
  assumes "ok w" "sent w = []"
  shows "io_step_main BO E delivered w = Some (Ok ())"
proof -
  let ?T = "codec_transcode_encoder u16be_codec" and ?f = example_encode_error and ?vs = "[0x1234, 0xabcd] :: u16 list"
  obtain enc where new: "encoder_new u16be_codec () = (Ok enc :: (io_error, unit codec_transcode_encoder) res)" "any_state (ee_codec (encoder_engine enc))"
    by (simp add: encoder_new_def ee_new_def u16be_codec_def assert_unit_bounds_def unit_bounds_def any_state_def)
  obtain q s1 w1 where reset: "eo_reset ?T BO E ?f enc w = (q, s1, w1)" by (metis prod_cases3)
  from example.reset_sends [OF assms(1) new(2) reset] assms(2) have r1: "q = Ok ()" "ok w1" "sent w1 = []"
    "any_state (ee_codec (encoder_engine s1)) \<and> stream_phase (ee_phase (encoder_engine s1))"
    by (cases q; auto simp: sends_units_def u16be_adapter_bounds engine_emission_def emit_nothing_def)+
  have all: "engine_encode_all u16be_codec u16be_emit strict_unencodable ((), ()) 0 ?vs = (Inr [0x12, 0x34, 0xab, 0xcd], (), ())"
    by code_simp
  have "length ?vs \<le> usize_max" by (simp add: usize_max_def)
  from example.step_all_sends [OF r1(2,4) le0 this, of ?f] obtain x s2 w2 where
    steps: "eo_step_all ?T BO E ?f ?vs 0 s1 w1 = Some (x, s2, w2)" "x = Ok ()" "ok w2"
    "any_state (ee_codec (encoder_engine s2)) \<and> stream_phase (ee_phase (encoder_engine s2))" "sent w2 = [0x12, 0x34, 0xab, 0xcd]"
    using all r1(3) by (auto simp: u16be_adapter_bounds split: res.splits) (metis (full_types) old.unit.exhaust res.exhaust)
  obtain y s3 w3 where fin: "eo_finish ?T BO E ?f s2 w2 = (y, s3, w3)" by (metis prod_cases3)
  have "\<not> finish_overflow ?T BO s2 w2 k" for k
    using pending_law [OF steps(3)] steps(5) by (simp add: finish_overflow_def u16be_adapter_bounds usize_max_def)
  with example.finish_sends [OF steps(3,4) fin] steps(5) have "y = Ok ()" "delivered w3 = [0x12, 0x34, 0xab, 0xcd]"
    by (cases y; auto simp: sends_units_def engine_emission_def emit_nothing_def)+
  with new reset r1(1) steps(1,2) fin show ?thesis by (simp add: io_step_main_def eo_step_stream_def)
qed

end

interpretation memory_example: example_output "memory_output fill" sample_env ms_sent ms_delivered "ms_ok (\<lambda>_. False)" ms_interruptions
  for fill
  by unfold_locales (simp add: sample_slice_range)

section \<open>decode_lifecycle.rs\<close>

text \<open>\<open>main\<close>; \<open>reserve\<close> answers the allocations of the decoder's output vectors.\<close>

definition decode_lifecycle_main :: "(nat \<Rightarrow> bool) \<Rightarrow> (unit, unit) res" where
  "decode_lifecycle_main reserve =
    (case codec_value_decode marker_codec () [0x42] of
       (Err _, _) \<Rightarrow>
         (case decode_lifecycle marker_codec reserve 0 () [0x42] of
            (Ok lifecycle, _) \<Rightarrow>
              if dlo_reset lifecycle = [reset_marker] \<and> dlo_value lifecycle = 0x42 \<and> dlo_finish lifecycle = [finish_marker]
              then Ok () else Panic
          | _ \<Rightarrow> Panic)
     | _ \<Rightarrow> Panic)"

lemma decode_lifecycle_main_passes: "decode_lifecycle_main reserve = (if reserve 1 then Ok () else Panic)"
proof -
  have "codec_value_decode marker_codec () [0x42] = (Err (DecodeFailed (UnsupportedDecodeLifecycleOutput 1 1)), ())"
    by code_simp
  moreover have "decode_lifecycle_with_scratch marker_codec () [0x42] [0] [0] =
      (Ok \<lparr>dlp_value = 0x42, dlp_reset_written = 1, dlp_finish_written = 1\<rparr>, (), [reset_marker], [finish_marker])" by code_simp
  ultimately show ?thesis
    by (simp add: decode_lifecycle_main_def decode_lifecycle_def marker_codec_def) 
qed

end
