(* ===== verification/StepWitnesses.thy ===== *)
theory StepWitnesses
  imports DecodeFuzz DecodeSteps Examples IoDelivery
begin

text \<open>
  Concrete runs of the stepwise calls and of the fuzz target of the decode input.
\<close>

text \<open>The target on data whose payload ends in \<open>TAIL\<close>, read, reset and finished.\<close>

theorem input_fuzz_target_passes_witness:
  "input_fuzz_target memory_input sample_env mm_position memory_cursor [0x12, 0x34, 0xfe, 0, 1, 2] = Some ()"
  by (rule input_fuzz_target_passes [OF memory_cursor_input])

text \<open>Two steps and the call at the end of the input, over a stream that arrives in pieces.\<close>

theorem decode_steps_join_witness:
  "\<exists>(s' :: marker_decoder) d'. batch_result marker_run (\<lambda>_ e. e) (\<lambda>_. ()) (\<lambda>_. True) scripted_input scripted_rest (scripted_ok (\<lambda>_. False))
      (\<lambda>_. False) no_map () [0x12, 0x34, 0xfe] [0, 0, 0, 0] 0 4 0 (Ok 3) s' d' [0x12, 0x34, 0x3f, 0] \<and>
    scripted_rest (di_input d') = []"
proof -
  let ?T = marker_decoder_transcoder and ?s = "\<lparr>eof_empty_calls = 0, eof_tail_calls = 0\<rparr>"
  let ?b = "\<lparr>sc_unread = [], sc_script = [Chunk [0x12 :: u8], Chunk [0x34, 0xfe]], sc_capacity = 1\<rparr>"
  let ?d0 = "decode_input_new ?b"
  let ?d1 = "\<lparr>di_input = \<lparr>sc_unread = [], sc_script = [Chunk [0x34, 0xfe]], sc_capacity = 1\<rparr>, di_eof_retry_pending = False\<rparr>"
  let ?d2 = "\<lparr>di_input = \<lparr>sc_unread = [0xfe], sc_script = [], sc_capacity = 1\<rparr>, di_eof_retry_pending = False\<rparr>"
  let ?d3 = "\<lparr>di_input = \<lparr>sc_unread = [], sc_script = [], sc_capacity = 1\<rparr>, di_eof_retry_pending = False\<rparr>"
  have 1: "di_transcode_step ?T scripted_input sample_env no_map ?s ?d0 [0, 0, 0, 0] (0 + 0) (4 - 0) =
      (Ok (Some (progress_complete 1 1)), ?s, ?d1, [0x12, 0, 0, 0])" by code_simp
  have 2: "di_transcode_step ?T scripted_input sample_env no_map ?s ?d1 [0x12, 0, 0, 0] (0 + (0 + 1)) (4 - (0 + 1)) =
      (Ok (Some (progress_new (NeedInput (NZ 1)) 1 1)), ?s, ?d2, [0x12, 0x34, 0, 0])" by code_simp
  have 3: "di_transcode_eof_step ?T scripted_input sample_env no_map ?s ?d2 [0x12, 0x34, 0, 0] (0 + (0 + 1 + 1)) (4 - (0 + 1 + 1)) =
      (Ok (progress_complete 1 1), \<lparr>eof_empty_calls = 0, eof_tail_calls = 1\<rparr>, ?d3, [0x12, 0x34, 0x3f, 0])" by code_simp
  have "di_stepped ?T scripted_input sample_env no_map 0 4 (?s, ?d0, [0, 0, 0, 0]) (0 + 1) (?s, ?d1, [0x12, 0, 0, 0])"
    using di_stepped.step [OF di_stepped.start _ 1] by (simp add: progress_defs)
  from di_stepped.step [OF this _ 2]
  have stepped: "di_stepped ?T scripted_input sample_env no_map 0 4 (?s, ?d0, [0, 0, 0, 0]) (0 + 1 + 1) (?s, ?d2, [0x12, 0x34, 0, 0])"
    by (simp add: progress_defs)
  have sound: "di_sound scripted_input scripted_rest (scripted_ok (\<lambda>_. False)) ?d0"
    by (simp add: di_sound_def decode_input_new_def scripted_ok_def scripted_rest_def usize_max_def)
  have fits: "0 + 4 \<le> length [0, 0, 0, 0 :: u8]" "length [0, 0, 0, 0 :: u8] \<le> usize_max" by (simp_all add: usize_max_def)
  have unread: "di_unread scripted_input ?d2 = scripted_rest (di_input ?d2)" by (simp add: scripted_input_def scripted_rest_def)
  have rest: "scripted_rest (di_input ?d0) = [0x12, 0x34, 0xfe]" "scripted_rest (di_input ?d3) = []"
    by (simp_all add: decode_input_new_def scripted_rest_def)
  from decode_steps_join [OF marker_bridge.decode_bridge_axioms stepped sound TrueI fits unread 3]
  have "batch_result marker_run (\<lambda>_ e. e) (\<lambda>_. ()) (\<lambda>_. True) scripted_input scripted_rest (scripted_ok (\<lambda>_. False))
      (\<lambda>_. False) no_map () [0x12, 0x34, 0xfe] [0, 0, 0, 0] 0 4 0 (Ok 3) \<lparr>eof_empty_calls = 0, eof_tail_calls = 1\<rparr> ?d3
      [0x12, 0x34, 0x3f, 0]"
    unfolding rest by (simp add: progress_defs eval_nat_numeral)
  with rest(2) show ?thesis by blast
qed

text \<open>Two values, stepwise, into an empty buffer of one unit.\<close>

theorem step_stream_delivers_all_witness:
  "\<exists>s' w'. eo_step_stream (encode_transcoder u16be_codec u16be_eh) (memory_output 0) sample_env no_map [0x1234, 0xabcd]
      (fresh_encoder () ()) empty_sink = Some (Ok (), s', w') \<and> ms_delivered w' = [0x12, 0x34, 0xab, 0xcd]"
proof -
  let ?w = "\<lparr>ms_delivered = [0x12, 0x34, 0xab, 0xcd], ms_buffer = [0xab, 0xcd :: u8], ms_pending = 0, ms_script = []\<rparr>"
  let ?s = "(fresh_encoder () ())\<lparr>ee_lifecycle := \<lparr>guard_phase = Finished\<rparr>\<rparr>"
  have run: "eo_step_stream (encode_transcoder u16be_codec u16be_eh) (memory_output 0) sample_env no_map [0x1234, 0xabcd]
      (fresh_encoder () ()) empty_sink = Some (Ok (), ?s, ?w)" by code_simp
  have len: "length [0x1234, 0xabcd :: u16] \<le> usize_max" by (simp add: usize_max_def)
  have good: "any_state (ee_codec (fresh_encoder () ()))" by (simp add: any_state_def)
  have all: "engine_encode_all u16be_codec u16be_emit strict_unencodable ((), ()) 0 [0x1234, 0xabcd] =
      (Inr [0x12, 0x34, 0xab, 0xcd], (), ())" by code_simp
  from step_stream_delivers_all [OF u16be_stepping.step_lifecycle_bridge_axioms [where fill = 0] sample_sinks_ok(1) good len,
      of no_map] run all
  have "ms_delivered ?w = ms_sent empty_sink @ [0x12, 0x34, 0xab, 0xcd]"
    by (auto simp: engine_emission_def emit_nothing_def)
  then have "ms_delivered ?w = [0x12, 0x34, 0xab, 0xcd]" by (simp add: sink_defs)
  with run show ?thesis by blast
qed

end
