(* ===== verification/EofMark.thy ===== *)
theory EofMark
  imports DecodeReading DecodeSources
begin

text \<open>
  The mark \<open>eof_retry_pending\<close> of \<open>src/transcode/io/transcode_decode_input.rs\<close> along every
  history of a decode input. A call at end of input that stops for lack of output leaves a tail, which
  the decoder has been told is the last of the stream; the next \<open>transcode\<close> call has to go on with
  exactly that tail, and only while nothing else has entered or left the buffer. The source may grow
  between calls, and nothing is assumed of decoders and codecs.
\<close>

section \<open>The input\<close>

text \<open>What the mark needs of a buffered input: calls change the unread units as they say. It says
  nothing of the end of the stream, so an input that reported its end may deliver more later. A failed
  seek keeps the buffer, as the documentation of \<open>seek\<close> states.\<close>

locale buffered_window =
  fixes BI :: "('b, 'u) buffered_input"
  assumes consume_unread: "n \<le> length (bi_unread BI b) \<Longrightarrow> bi_unread BI (bi_consume BI b n) = drop n (bi_unread BI b)"
    and reserve_unread: "bi_try_reserve_capacity BI b n = (q, b') \<Longrightarrow> bi_unread BI b' = bi_unread BI b"
    and fill_until_appends: "bi_fill_until BI b n = (r, b') \<Longrightarrow> \<exists>more. bi_unread BI b' = bi_unread BI b @ more"
    and fill_more_reports: "bi_unread BI b = [] \<Longrightarrow> bi_fill_more BI b = (r, b') \<Longrightarrow>
        bi_unread BI b' \<noteq> [] \<longleftrightarrow> r = Ok True"
    and failed_seek_unread: "bi_seek_to BI b position = (result, b') \<Longrightarrow> (\<forall>p. result \<noteq> Ok p) \<Longrightarrow> bi_unread BI b' = bi_unread BI b"

text \<open>The in-memory source of the other theories.\<close>

lemma script_until_appends: "script_until n us is = (r, us', is') \<Longrightarrow> \<exists>more. us' = us @ more"
  using script_until_law by blast

lemma script_more_reports: "script_more us is = (r, us', is') \<Longrightarrow> us = [] \<Longrightarrow> us' \<noteq> [] \<longleftrightarrow> r = Ok True"
  by (induction us "is" rule: script_more.induct) (auto split: if_splits)

interpretation scripted_window: buffered_window scripted_input
  by unfold_locales
    (auto simp: scripted_input_def scripted_update_eq dest: script_until_appends script_more_reports)

section \<open>Histories\<close>

text \<open>A decoder that writes down its calls: whether the call was the one at end of input, the window it
  was shown, and its answer.\<close>

type_synonym ('u, 'e) decoder_call = "bool \<times> 'u list \<times> ('e, transcode_progress) res"

definition recording ::
  "('s, 'u, 'o, 'e) transcoder \<Rightarrow> ('s \<times> ('u, 'e) decoder_call list, 'u, 'o, 'e) transcoder" where
  "recording T =
    \<lparr>from_failure = from_failure T,
     max_reset_output_len = (\<lambda>(s, calls). max_reset_output_len T s),
     max_transcode_output_len = (\<lambda>(s, calls). max_transcode_output_len T s),
     max_finish_output_len = (\<lambda>(s, calls). max_finish_output_len T s),
     tr_reset = (\<lambda>(s, calls) out j. case tr_reset T s out j of (r, s, out) \<Rightarrow> (r, (s, calls), out)),
     tr_transcode = (\<lambda>(s, calls) xs i out j. case tr_transcode T s xs i out j of
       (r, s, out) \<Rightarrow> (r, (s, calls @ [(False, drop i xs, r)]), out)),
     tr_transcode_eof = (\<lambda>(s, calls) xs i out j. case tr_transcode_eof T s xs i out j of
       (r, s, out) \<Rightarrow> (r, (s, calls @ [(True, drop i xs, r)]), out)),
     tr_finish = (\<lambda>(s, calls) out j. case tr_finish T s out j of (r, s, out) \<Rightarrow> (r, (s, calls), out))\<rparr>"

text \<open>The tail an interrupted call at end of input has left, if there is one, told by the answers
  and the buffer alone. A tail is forgotten when more units are unread than it has.\<close>

definition unless_arrived :: "'u list \<Rightarrow> 'u list option \<Rightarrow> 'u list option" where
  "unless_arrived unread tail =
    (case tail of Some us \<Rightarrow> if length us < length unread then None else tail | None \<Rightarrow> None)"

definition tail_after_eof :: "'u list \<Rightarrow> transcode_progress \<Rightarrow> 'u list option" where
  "tail_after_eof window p = (if is_need_output p then Some (drop (tp_read p) window) else None)"

text \<open>After \<open>transcode_step\<close>: on an empty buffer a successful step has let units arrive.\<close>

definition tail_after_step ::
  "'u list \<Rightarrow> nat \<Rightarrow> (io_error, transcode_progress option) res \<Rightarrow> 'u list \<Rightarrow> 'u list option \<Rightarrow> 'u list option" where
  "tail_after_step before count r unread tail =
    (case r of
       Ok (Some p) \<Rightarrow> if before = [] \<and> 0 < count then None else map_option (drop (tp_read p)) tail
     | _ \<Rightarrow> unless_arrived unread tail)"

text \<open>After \<open>transcode\<close>: a successful call whose last call of the decoder was the one at end of input.\<close>

definition tail_after_transcode ::
  "(io_error, nat) res \<Rightarrow> ('u, 'e) decoder_call list \<Rightarrow> 'u list \<Rightarrow> 'u list option \<Rightarrow> 'u list option" where
  "tail_after_transcode r calls unread tail =
    (case (r, rev calls) of
       (Ok _, (True, window, Ok p) # _) \<Rightarrow> tail_after_eof window p
     | _ \<Rightarrow> unless_arrived unread tail)"

text \<open>The decode inputs that the public calls lead to, with the tail. Every call may use a decoder
  or codec in any state, succeed or fail, and may be refused. Between calls the source may change as long as
  the unread units stay. \<open>reset\<close> and \<open>finish\<close> do not change the input.\<close>

inductive di_history ::
  "('s, 'u, 'o, 'e) transcoder \<Rightarrow> ('c, 'v, 'u, 'de, 'ee) codec \<Rightarrow> ('b, 'u) buffered_input \<Rightarrow> io_env \<Rightarrow>
   'b decode_input \<Rightarrow> 'u list option \<Rightarrow> bool"
  for T C BI E where
  new: "di_history T C BI E (decode_input_new b) None"
| source: "di_history T C BI E d tail \<Longrightarrow> bi_unread BI b = di_unread BI d \<Longrightarrow>
    di_history T C BI E (d\<lparr>di_input := b\<rparr>) tail"
| fill_until: "di_history T C BI E d tail \<Longrightarrow> di_fill_until BI E k d = (r, d') \<Longrightarrow>
    di_history T C BI E d' (unless_arrived (di_unread BI d') tail)"
| consume: "di_history T C BI E d tail \<Longrightarrow> di_consume BI k d = (r, d') \<Longrightarrow>
    di_history T C BI E d' (if r = Ok () then map_option (drop k) tail else tail)"
| transcode_step: "di_history T C BI E d tail \<Longrightarrow> di_transcode_step T BI E f s d out j k = (r, s', d', out') \<Longrightarrow>
    di_history T C BI E d' (tail_after_step (di_unread BI d) k r (di_unread BI d') tail)"
| transcode_eof_step: "di_history T C BI E d tail \<Longrightarrow>
    di_transcode_eof_step T BI E f s d out j k = (r, s', d', out') \<Longrightarrow>
    di_history T C BI E d' (case r of Ok p \<Rightarrow> if k = 0 then tail else tail_after_eof (di_unread BI d) p | _ \<Rightarrow> tail)"
| transcode: "di_history T C BI E d tail \<Longrightarrow>
    di_transcode (recording T) BI E f (s, []) d out j k = Some (r, (s', calls), d', out') \<Longrightarrow>
    di_history T C BI E d' (tail_after_transcode r calls (di_unread BI d') tail)"
| read: "di_history T C BI E d tail \<Longrightarrow> di_read_unchecked BI units j k d = (r, d', units') \<Longrightarrow>
    di_history T C BI E d' (if k = 0 \<or> length units < j + k then tail else None)"
| seek: "di_history T C BI E d tail \<Longrightarrow> di_seek BI position d = (r, d') \<Longrightarrow>
    di_history T C BI E d' (case r of Ok _ \<Rightarrow> None | _ \<Rightarrow> tail)"
| read_decoded: "di_history T C BI E d tail \<Longrightarrow> read_decoded_with C BI E g c d = Some (r, c', d') \<Longrightarrow>
    di_history T C BI E d' (if ensure_no_decode_lifecycle_output C = Ok () then None else tail)"
| read_lifecycle: "di_history T C BI E d tail \<Longrightarrow>
    read_decoded_lifecycle_with C BI E g v0 c d = Some (r, c', d') \<Longrightarrow>
    di_history T C BI E d' (if unit_bounds C \<and> env_reserve_vec E (max_decode_reset_values C) = Ok () \<and>
      env_reserve_vec E (max_decode_finish_values C) = Ok () then None else tail)"
| read_scratch: "di_history T C BI E d tail \<Longrightarrow>
    read_decoded_lifecycle_with_scratch C BI E g c d ro fo = Some (r, c', d', ro', fo') \<Longrightarrow>
    di_history T C BI E d' (if unit_bounds C \<and> max_decode_reset_values C \<le> length ro \<and>
      max_decode_finish_values C \<le> length fo then None else tail)"

lemma tail_after_open: "list_all (\<lambda>(eof, window, answer). \<not> eof) calls \<Longrightarrow> tail_after_transcode r calls unread None = None"
  by (cases calls rule: rev_cases)
    (auto simp: tail_after_transcode_def unless_arrived_def split: res.splits bool.splits)

lemma tail_after_failed [simp]:
  "tail_after_transcode (Err e) calls unread tail = unless_arrived unread tail"
  "tail_after_transcode Panic calls unread tail = unless_arrived unread tail"
  "unless_arrived unread None = None"
  by (simp_all add: tail_after_transcode_def unless_arrived_def)

section \<open>The mark tells the tail\<close>

definition mark_true :: "('b, 'u) buffered_input \<Rightarrow> 'b decode_input \<Rightarrow> 'u list option \<Rightarrow> bool" where
  "mark_true BI d tail \<longleftrightarrow>
    (case tail of Some us \<Rightarrow> di_eof_retry_pending d \<and> di_unread BI d = us | None \<Rightarrow> \<not> di_eof_retry_pending d)"

lemma mark_true_simps [simp]:
  "mark_true BI d None \<longleftrightarrow> \<not> di_eof_retry_pending d"
  "mark_true BI d (Some us) \<longleftrightarrow> di_eof_retry_pending d \<and> di_unread BI d = us"
  by (simp_all add: mark_true_def)

text \<open>A turn of the batch loop: while the loop goes on the mark is clear and no call at end of input
  has been made; when it is done the last call tells the tail.\<close>

abbreviation only_open :: "('u, 'e) decoder_call list \<Rightarrow> bool" where
  "only_open calls \<equiv> list_all (\<lambda>(eof, window, answer). \<not> eof) calls"

definition turn_told ::
  "('b, 'u) buffered_input \<Rightarrow> (io_error, batch_flow) res \<Rightarrow> ('u, 'e) decoder_call list \<Rightarrow> 'b decode_input \<Rightarrow> bool" where
  "turn_told BI r calls d \<longleftrightarrow>
    (case r of
       Ok (BatchMore w) \<Rightarrow> \<not> di_eof_retry_pending d \<and> only_open calls
     | Ok (BatchDone w) \<Rightarrow> mark_true BI d (tail_after_transcode (Ok w) calls (di_unread BI d) None)
     | _ \<Rightarrow> \<not> di_eof_retry_pending d)"

context buffered_window
begin

abbreviation told :: "'b decode_input \<Rightarrow> 'u list option \<Rightarrow> bool" where
  "told \<equiv> mark_true BI"

lemma consume_told:
  assumes "di_consume BI k d = (r, d')"
  shows "r = Ok () \<and> k \<le> length (di_unread BI d) \<and> di_unread BI d' = drop k (di_unread BI d) \<and>
      di_eof_retry_pending d' = di_eof_retry_pending d \<or> r = Panic \<and> d' = d"
  using assms consume_unread [of k "di_input d"] by (auto simp: di_consume_def di_unread_len_def split: if_splits)

lemma fill_until_told:
  assumes "told d tail" "di_fill_until BI E k d = (r, d')"
  shows "told d' (unless_arrived (di_unread BI d') tail)"
proof -
  define grow where "grow =
    (if k > bi_capacity BI (di_input d) then bi_try_reserve_capacity BI (di_input d) k else (Ok (), di_input d))"
  obtain q b where g: "grow = (q, b)" by (metis surj_pair)
  then have b: "bi_unread BI b = di_unread BI d" by (auto simp: grow_def reserve_unread split: if_splits)
  show ?thesis
  proof (cases "\<exists>u. q = Ok u")
    case True
    obtain r1 b1 where f: "bi_fill_until BI b k = (r1, b1)" by (metis surj_pair)
    from fill_until_appends [OF f] b obtain more where "bi_unread BI b1 = di_unread BI d @ more" by auto
    moreover have "di_input d' = b1" "di_eof_retry_pending d' \<longleftrightarrow> di_eof_retry_pending d \<and>
        \<not> length (bi_unread BI b1) > length (bi_unread BI b)"
      using assms(2) g True f by (auto simp: di_fill_until_def grow_def Let_def di_unread_len_def split: if_splits)
    ultimately show ?thesis using assms(1) b by (cases tail) (auto simp: unless_arrived_def)
  next
    case False
    then have "di_input d' = b" "di_eof_retry_pending d' = di_eof_retry_pending d"
      using assms(2) g by (cases q; auto simp: di_fill_until_def grow_def split: if_splits)+
    with assms(1) b show ?thesis by (cases tail) (auto simp: unless_arrived_def)
  qed
qed

lemma fill_more_told:
  assumes "di_unread BI d = []" "di_fill_more BI d = (r, d')"
  shows "r = Ok True \<and> di_unread BI d' \<noteq> [] \<and> \<not> di_eof_retry_pending d' \<or>
    r \<noteq> Ok True \<and> di_unread BI d' = [] \<and> di_eof_retry_pending d' = di_eof_retry_pending d"
proof -
  obtain r1 b1 where f: "bi_fill_more BI (di_input d) = (r1, b1)" by (metis surj_pair)
  from fill_more_reports [OF assms(1) f] assms(2) f show ?thesis
    by (auto simp: di_fill_more_def Let_def split: if_splits)
qed

lemma eof_step_told:
  assumes "di_transcode_eof_step T BI E f s d out j k = (r, s', d', out')"
  shows "(\<exists>p. r = Ok p) \<and> 0 < k \<and> (\<forall>p. r = Ok p \<longrightarrow> told d' (tail_after_eof (di_unread BI d) p)) \<or>
    ((\<exists>p. r = Ok p) \<longrightarrow> k = 0) \<and> d' = d"
proof (cases "\<exists>stop. env_range_end E (length out) j k ''decoded EOF output range exceeds destination buffer'' = Ok stop \<and> 0 < k")
  case True
  then obtain stop where stop: "env_range_end E (length out) j k ''decoded EOF output range exceeds destination buffer'' = Ok stop"
    "0 < k" by blast
  obtain q s1 out1 where call: "prefix_call out stop (tr_transcode_eof T s (di_unread BI d) 0 (take stop out) j) = (q, s1, out1)"
    by (metis prod_cases3)
  show ?thesis
  proof (cases "bind_res (map_err f q) (\<lambda>p. validate_eof_decode_progress p 0 (di_unread_len BI d) j k)")
    case (Ok p)
    obtain u d1 where c: "di_consume BI (tp_read p) d = (u, d1)" by (metis surj_pair)
    have "u = Ok () \<longrightarrow> r = Ok p \<and> d' = d1\<lparr>di_eof_retry_pending := is_need_output p\<rparr>"
      "u = Panic \<longrightarrow> r = Panic \<and> d' = d1"
      using assms stop call Ok c by (auto simp: di_transcode_eof_step_def Let_def)
    with consume_told [OF c] stop(2) show ?thesis by (auto simp: tail_after_eof_def)
  qed (use assms stop call in \<open>auto simp: di_transcode_eof_step_def Let_def\<close>)
qed (use assms in \<open>auto simp: di_transcode_eof_step_def and_then_case split: res.splits if_splits\<close>)

text \<open>The same call with the decoder recorded: it is called at most once, on all that is unread.\<close>

lemma eof_step_recorded:
  assumes "di_transcode_eof_step (recording T) BI E f (s, calls) d out j k = (r, (s', calls'), d', out')"
  shows "calls' = calls \<and> ((\<exists>p. r = Ok p) \<longrightarrow> k = 0) \<or>
    0 < k \<and> (\<exists>a. calls' = calls @ [(True, di_unread BI d, a)] \<and> (\<forall>p. r = Ok p \<longrightarrow> a = Ok p))"
proof (cases "\<exists>stop. env_range_end E (length out) j k ''decoded EOF output range exceeds destination buffer'' = Ok stop \<and> 0 < k")
  case True
  then obtain stop where stop: "env_range_end E (length out) j k ''decoded EOF output range exceeds destination buffer'' = Ok stop"
    "0 < k" by blast
  obtain q s1 out1 where call: "tr_transcode_eof T s (di_unread BI d) 0 (take stop out) j = (q, s1, out1)"
    by (metis prod_cases3)
  have valid: "p' = p \<and> q = Ok p" if "bind_res (map_err f q) (\<lambda>p. validate_eof_decode_progress p 0 (di_unread_len BI d) j k) = Ok p'"
    and "q = Ok p" for p p'
    using that by (auto simp: validate_eof_decode_progress_def validate_decode_progress_def bind_res_eq_Ok split: res.splits transcode_status.splits if_splits)
  show ?thesis
  proof (cases "bind_res (map_err f q) (\<lambda>p. validate_eof_decode_progress p 0 (di_unread_len BI d) j k)")
    case (Ok p)
    then obtain p1 where "q = Ok p1" by (cases q) auto
    with valid [OF Ok this] assms stop call Ok show ?thesis
      by (auto simp: di_transcode_eof_step_def Let_def prefix_call_def recording_def and_then_case split: res.splits prod.splits)
  qed (use assms stop call in \<open>auto simp: di_transcode_eof_step_def Let_def prefix_call_def recording_def\<close>)
qed (use assms in \<open>auto simp: di_transcode_eof_step_def and_then_case split: res.splits if_splits\<close>)

lemma finish_batch_told:
  assumes "di_finish_batch (recording T) BI E f j count w (s, calls) d out = (r, (s', calls'), d', out')"
    and "\<not> di_eof_retry_pending d" "only_open calls"
  shows "turn_told BI r calls' d'"
proof -
  obtain q where step: "di_transcode_eof_step (recording T) BI E f (s, calls) d out (j + w) (count - w) =
      (q, (s', calls'), d', out')" and r: "r = map_ok (\<lambda>p. BatchDone (w + tp_written p)) q"
    using assms(1) by (auto simp: di_finish_batch_def Let_def split: prod.splits)
  note step = eof_step_told [OF step] eof_step_recorded [OF step] assms(2,3)
  have last: "tail_after_transcode (Ok n) (calls @ [(True, di_unread BI d, Ok p)]) unread None =
      tail_after_eof (di_unread BI d) p" for n p unread
    by (simp add: tail_after_transcode_def)
  show ?thesis
  proof (cases q)
    case (Ok p)
    with step show ?thesis by (auto simp: r turn_told_def tail_after_open last)
  qed (use step in \<open>auto simp: r turn_told_def\<close>)
qed

lemma batch_status_told:
  assumes "di_batch_status (recording T) BI E f j count w st (s, calls) d out = (r, (s', calls'), d', out')"
    and "\<not> di_eof_retry_pending d" "only_open calls"
  shows "turn_told BI r calls' d'"
proof (cases "\<exists>required. st = NeedInput required \<and> w \<noteq> count")
  case True
  then obtain required where st: "st = NeedInput required" "w \<noteq> count" by blast
  obtain q d1 where fill: "di_fill_until BI E (nz_get required) d = (q, d1)" by (metis surj_pair)
  have clear: "\<not> di_eof_retry_pending d1"
    using fill_until_told [of d None, OF _ fill] assms(2) by (simp add: unless_arrived_def)
  show ?thesis
  proof (cases "q = Ok False")
    case True
    with assms(1) st fill have "di_finish_batch (recording T) BI E f j count w (s, calls) d1 out = (r, (s', calls'), d', out')"
      by (simp add: di_batch_status_def)
    then show ?thesis by (rule finish_batch_told [OF _ clear assms(3)])
  next
    case False
    with assms st fill clear show ?thesis
      by (cases q) (auto simp: di_batch_status_def turn_told_def)
  qed
qed (use assms in \<open>auto simp: di_batch_status_def turn_told_def tail_after_open split: transcode_status.splits if_splits\<close>)

lemma batch_turn_told:
  assumes "di_batch_turn (recording T) BI E f j count w (s, calls) d out = (r, (s', calls'), d', out')"
    and "\<not> di_eof_retry_pending d" "only_open calls"
  shows "turn_told BI r calls' d'"
proof -
  obtain q d1 where fill: "(if di_unread_len BI d = 0 then di_fill_more BI d else (Ok True, d)) = (q, d1)" by (metis surj_pair)
  have clear: "\<not> di_eof_retry_pending d1"
    using fill_more_told [of d q d1] fill assms(2) by (auto simp: di_unread_len_def split: if_splits)
  show ?thesis
  proof (cases "q = Ok True")
    case True
    obtain a s1 out1 where call: "tr_transcode T s (di_unread BI d1) 0 out (j + w) = (a, s1, out1)" by (metis prod_cases3)
    let ?calls = "calls @ [(False, di_unread BI d1, a)]"
    let ?checked = "bind_res (map_err f a) (\<lambda>p. validate_decode_progress p 0 (di_unread_len BI d1) (j + w) (count - w))"
    have seen: "only_open ?calls" using assms(3) by simp
    note window = assms(1) [unfolded di_batch_turn_def fill, simplified, unfolded True, simplified]
    show ?thesis
    proof (cases ?checked)
      case (Ok p)
      obtain u d2 where c: "di_consume BI (tp_read p) d1 = (u, d2)" by (metis surj_pair)
      from consume_told [OF c] clear have clear2: "\<not> di_eof_retry_pending d2" by auto
      show ?thesis
      proof (cases "u = Ok ()")
        case True
        with window call Ok c have "di_batch_status (recording T) BI E f j count (w + tp_written p) (tp_status p)
            (s1, ?calls) d2 (write_back out out1) = (r, (s', calls'), d', out')"
          by (simp add: di_batch_window_def Let_def recording_def)
        then show ?thesis by (rule batch_status_told [OF _ clear2 seen])
      next
        case False
        with consume_told [OF c] window call Ok c clear2 show ?thesis
          by (auto simp: di_batch_window_def Let_def recording_def turn_told_def)
      qed
    qed (use window call clear in \<open>auto simp: di_batch_window_def Let_def recording_def turn_told_def\<close>)
  next
    case False
    note turn = assms(1) [unfolded di_batch_turn_def fill]
    show ?thesis
    proof (cases "q = Ok False")
      case True
      with turn have "di_finish_batch (recording T) BI E f j count w (s, calls) d1 out = (r, (s', calls'), d', out')" by simp
      then show ?thesis by (rule finish_batch_told [OF _ clear assms(3)])
    next
      case more: False
      with False turn clear show ?thesis by (cases q) (auto simp: turn_told_def)
    qed
  qed
qed

lemma batch_loop_told:
  assumes "di_batch_loop (recording T) BI E f j count w (s, calls) d out = Some (r, (s', calls'), d', out')"
    and "\<not> di_eof_retry_pending d" "only_open calls"
  shows "told d' (tail_after_transcode r calls' (di_unread BI d') None)"
proof -
  have turn: "turn_told BI q (snd s1) d1"
    if "di_batch_turn (recording T) BI E f j count w s0 d out = (q, s1, d1, out1)" "\<not> di_eof_retry_pending d" "only_open (snd s0)"
    for w s0 d out q s1 d1 out1
    using batch_turn_told [of T E f j count w "fst s0" "snd s0" d out q "fst s1" "snd s1" d1 out1] that by simp
  let ?P = "\<lambda>T' BI' E' f' j' count' w s0 d out y. T' = recording T \<longrightarrow> BI' = BI \<longrightarrow> E' = E \<longrightarrow> f' = f \<longrightarrow> j' = j \<longrightarrow> count' = count \<longrightarrow>
    \<not> di_eof_retry_pending d \<longrightarrow> only_open (snd s0) \<longrightarrow>
    told (fst (snd (snd y))) (tail_after_transcode (fst y) (snd (fst (snd y))) (di_unread BI (fst (snd (snd y)))) None)"
  have "?P (recording T) BI E f j count w (s, calls) d out (r, (s', calls'), d', out')"
  proof (rule di_batch_loop.raw_induct [where P = ?P, OF _ assms(1)], intro impI, goal_cases)
    case (1 loop T' BI' E' f' j' count' w s0 d out y)
    obtain q s1 d1 out1 where q: "di_batch_turn (recording T) BI E f j count w s0 d out = (q, s1, d1, out1)" by (metis prod_cases4)
    note told = turn [OF q 1(9,10)]
    show ?case
    proof (cases q)
      case (Ok flow)
      show ?thesis
      proof (cases flow)
        case (BatchMore w1)
        with 1(2-8) q Ok have "loop (recording T) BI E f j count w1 s1 d1 out1 = Some y" by simp
        from 1(1) [OF this] told Ok BatchMore show ?thesis by (simp add: turn_told_def)
      qed (use 1(2-8) q Ok told in \<open>auto simp: turn_told_def\<close>)
    qed (use 1(2-8) q told in \<open>auto simp: turn_told_def\<close>)
  qed
  with assms(2,3) show ?thesis by simp
qed

text \<open>The other calls.\<close>

lemma unless_arrived_told: "told d tail \<Longrightarrow> unless_arrived (di_unread BI d) tail = tail"
  by (cases tail) (auto simp: unless_arrived_def)

lemma transcode_told:
  assumes "told d tail" "di_transcode (recording T) BI E f (s, []) d out j k = Some (r, (s', calls), d', out')"
  shows "told d' (tail_after_transcode r calls (di_unread BI d') tail)"
proof (cases "\<exists>stop. env_range_end E (length out) j k ''decoded output range exceeds destination buffer'' = Ok stop \<and> 0 < k")
  case True
  then obtain stop where stop: "env_range_end E (length out) j k ''decoded output range exceeds destination buffer'' = Ok stop"
    "0 < k" by blast
  show ?thesis
  proof (cases "di_eof_retry_pending d")
    case True
    then obtain q where step: "di_transcode_eof_step (recording T) BI E f (s, []) d out j k = (q, (s', calls), d', out')"
      and r: "r = map_ok tp_written q"
      using assms(2) stop by (auto simp: di_transcode_def split: prod.splits)
    show ?thesis
    proof (cases q)
      case (Ok p)
      with eof_step_told [OF step] eof_step_recorded [OF step] stop show ?thesis
        by (auto simp: r tail_after_transcode_def)
    qed (use eof_step_told [OF step] assms(1) in \<open>auto simp: r unless_arrived_told\<close>)
  next
    case False
    then have "tail = None" using assms(1) by (cases tail) auto
    moreover from False assms(2) stop obtain out1 where
      "di_batch_loop (recording T) BI E f j k 0 (s, []) d (take stop out) = Some (r, (s', calls), d', out1)"
      by (auto simp: di_transcode_def split: option.splits prod.splits)
    from batch_loop_told [OF this False] have "told d' (tail_after_transcode r calls (di_unread BI d') None)" by simp
    ultimately show ?thesis by simp
  qed
next
  case False
  with assms(2) have "d' = d" "calls = []"
    by (auto simp: di_transcode_def split: res.splits if_splits)
  with assms(1) show ?thesis by (cases r) (auto simp: tail_after_transcode_def unless_arrived_told)
qed

lemma transcode_step_told:
  assumes "told d tail" "di_transcode_step T BI E f s d out j k = (r, s', d', out')"
  shows "told d' (tail_after_step (di_unread BI d) k r (di_unread BI d') tail)"
proof (cases "\<exists>stop. env_range_end E (length out) j k ''decoded output range exceeds destination buffer'' = Ok stop \<and> 0 < k")
  case True
  then obtain stop where stop: "env_range_end E (length out) j k ''decoded output range exceeds destination buffer'' = Ok stop"
    "0 < k" by blast
  obtain q d1 where fill: "(if di_unread_len BI d = 0 then di_fill_more BI d else (Ok True, d)) = (q, d1)" by (metis surj_pair)
  have filled: "di_unread BI d = [] \<and> q \<noteq> Ok True \<and> di_unread BI d1 = [] \<and> told d1 tail \<or>
      di_unread BI d = [] \<and> q = Ok True \<and> di_unread BI d1 \<noteq> [] \<and> told d1 None \<or>
      di_unread BI d \<noteq> [] \<and> q = Ok True \<and> d1 = d"
    using fill_more_told [of d q d1] fill assms(1)
    by (cases tail) (auto simp: di_unread_len_def split: if_splits)
  have fill': "(if di_unread_len BI d = 0 then (case di_fill_more BI d of (r, d) \<Rightarrow> (r, s, d, out)) else (Ok True, s, d, out)) =
      (q, s, d1, out)" using fill by (auto split: if_splits)
  have "k \<noteq> 0" using stop(2) by simp
  note def = di_transcode_step_def [of T BI E f s d out j k] fill' stop(1) this Let_def
  show ?thesis
  proof (cases "q = Ok True")
    case more: True
    let ?tail = "if di_unread BI d = [] then None else tail"
    from filled more assms(1) have told1: "told d1 ?tail" by auto
    have arrived: "unless_arrived (di_unread BI d1) tail = ?tail"
      using filled more assms(1) unless_arrived_told [OF assms(1)]
      by (cases tail) (auto simp: unless_arrived_def)
    obtain a s1 out1 where call: "prefix_call out stop (tr_transcode T s (di_unread BI d1) 0 (take stop out) j) = (a, s1, out1)"
      by (metis prod_cases3)
    note def = def more call
    show ?thesis
    proof (cases "bind_res (map_err f a) (\<lambda>p. validate_decode_progress p 0 (di_unread_len BI d1) j k)")
      case (Ok p)
      obtain u d2 where c: "di_consume BI (tp_read p) d1 = (u, d2)" by (metis surj_pair)
      from assms(2) Ok c have "u = Ok () \<longrightarrow> r = Ok (Some p) \<and> d' = d2" "u = Panic \<longrightarrow> r = Panic \<and> d' = d2"
        by (auto simp: def)
      with consume_told [OF c] told1 arrived stop(2) show ?thesis
        by (cases tail; cases "di_unread BI d = []") (auto simp: tail_after_step_def)
    next
      case (Err e)
      with assms(2) have "r = Err e" "d' = d1" by (auto simp: def)
      with told1 arrived show ?thesis by (simp add: tail_after_step_def)
    next
      case Panic
      with assms(2) have "r = Panic" "d' = d1" by (auto simp: def)
      with told1 arrived show ?thesis by (simp add: tail_after_step_def)
    qed
  next
    case False
    with assms(2) have "d' = d1" "\<forall>p. r \<noteq> Ok (Some p)"
      by (cases q; auto simp: def)+
    with filled False unless_arrived_told [of d1 tail] show ?thesis
      by (auto simp: tail_after_step_def split: res.split option.split)
  qed
next
  case False
  with assms(2) have d': "d' = d" and "(\<exists>stop. env_range_end E (length out) j k ''decoded output range exceeds destination buffer'' = Ok stop) \<longrightarrow>
      r = Ok (Some (progress_complete 0 0)) \<and> k = 0" "\<forall>p. r = Ok (Some p) \<longrightarrow> tp_read p = 0 \<and> k = 0"
    by (auto simp: di_transcode_step_def progress_defs and_then_case split: res.splits if_splits)
  with assms(1) show ?thesis
    by (cases tail) (auto simp: tail_after_step_def unless_arrived_def split: res.split option.split)
qed

lemma read_scratch_told:
  assumes "read_decoded_lifecycle_with_scratch C BI E g c d ro fo = Some (r, c', d', ro', fo')"
  shows "if unit_bounds C \<and> max_decode_reset_values C \<le> length ro \<and> max_decode_finish_values C \<le> length fo
    then \<not> di_eof_retry_pending d' else d' = d"
proof -
  obtain q c1 d1 ro1 where prepare: "di_read_prepare C g c d ro (length fo) = (q, c1, d1, ro1)" by (metis prod_cases4)
  have "if unit_bounds C \<and> max_decode_reset_values C \<le> length ro \<and> max_decode_finish_values C \<le> length fo
      then \<not> di_eof_retry_pending d1 else d1 = d \<and> (\<forall>x. q \<noteq> Ok x)"
    using prepare by (auto simp: di_read_prepare_def assert_unit_bounds_cases and_then_case Let_def split: if_splits prod.splits res.splits)
  moreover have "di_eof_retry_pending d' = di_eof_retry_pending d1" "(\<forall>x. q \<noteq> Ok x) \<Longrightarrow> d' = d1"
    using assms prepare
    by (auto simp: read_decoded_lifecycle_with_scratch_def Let_def split: res.splits option.splits prod.splits)
  ultimately show ?thesis by (simp split: if_splits)
qed

lemma resumes_tail:
  assumes "told d (Some us)" "0 < k" "\<And>msg. \<exists>stop. env_range_end E (length out) j k msg = Ok stop"
  shows "\<exists>r s' a d' out'. di_transcode (recording T) BI E f (s, []) d out j k = Some (r, (s', [(True, us, a)]), d', out')"
proof -
  obtain q s1 calls d1 out1 where step: "di_transcode_eof_step (recording T) BI E f (s, []) d out j k = (q, (s1, calls), d1, out1)"
    by (metis prod_cases4 surj_pair)
  from assms(3) [of "''decoded EOF output range exceeds destination buffer''"] assms(2) step have "calls \<noteq> []"
    by (auto simp: di_transcode_eof_step_def Let_def prefix_call_def recording_def and_then_case split: res.splits prod.splits)
  with eof_step_recorded [OF step] assms(1) obtain a where "calls = [(True, us, a)]" by auto
  with step assms show ?thesis
    by (auto simp: di_transcode_def split: res.splits) (metis res.distinct(1) res.distinct(3) res.inject(1))+
qed

lemma history_told: "di_history T C BI E d tail \<Longrightarrow> told d tail"
proof (induction rule: di_history.induct)
  case (new b)
  then show ?case by (simp add: decode_input_new_def)
next
  case (source d tail b)
  then show ?case by (cases tail) auto
next
  case (fill_until d tail k r d')
  then show ?case by (blast intro: fill_until_told)
next
  case (consume d tail k r d')
  then show ?case using consume_told [OF consume.hyps(2)] by (cases tail) auto
next
  case (transcode_step d tail f s out j k r s' d' out')
  then show ?case by (blast intro: transcode_step_told)
next
  case (transcode_eof_step d tail f s out j k r s' d' out')
  then show ?case using eof_step_told [OF transcode_eof_step.hyps(2)] by (cases r) auto
next
  case (transcode d tail f s out j k r s' calls d' out')
  then show ?case by (blast intro: transcode_told)
next
  case (read d tail units j k r d' units')
  then show ?case by (auto simp: di_read_unchecked_def Let_def split: if_splits prod.splits)
next
  case (seek d tail position r d')
  obtain q b where seek_to: "bi_seek_to BI (di_input d) position = (q, b)" by (metis surj_pair)
  from failed_seek_unread [OF seek_to] seek seek_to show ?case
    by (cases q; cases tail) (auto simp: di_seek_def)
next
  case (read_decoded d tail g c r c' d')
  show ?case
  proof (cases "ensure_no_decode_lifecycle_output C = Ok ()")
    case True
    then have "unit_bounds C" "max_decode_reset_values C = 0" "max_decode_finish_values C = 0"
      by (auto simp: ensure_no_decode_lifecycle_output_def assert_unit_bounds_cases split: if_splits)
    moreover from read_decoded.hyps(2) True obtain q ro fo where
      "read_decoded_lifecycle_with_scratch C BI E g c d [] [] = Some (q, c', d', ro, fo)"
      by (auto simp: read_decoded_with_def split: option.splits)
    ultimately show ?thesis using read_scratch_told [of C E g c d "[]" "[]"] True by simp
  next
    case False
    with read_decoded show ?thesis by (auto simp: read_decoded_with_def split: res.splits)
  qed
next
  case (read_lifecycle d tail g v0 c r c' d')
  let ?accepted = "unit_bounds C \<and> env_reserve_vec E (max_decode_reset_values C) = Ok () \<and>
      env_reserve_vec E (max_decode_finish_values C) = Ok ()"
  show ?case
  proof (cases ?accepted)
    case True
    with read_lifecycle.hyps(2) obtain q ro fo where
      "read_decoded_lifecycle_with_scratch C BI E g c d (replicate (max_decode_reset_values C) v0)
        (replicate (max_decode_finish_values C) v0) = Some (q, c', d', ro, fo)"
      by (auto simp: read_decoded_lifecycle_with_def assert_unit_bounds_cases split: option.splits)
    from read_scratch_told [OF this] True show ?thesis by simp
  next
    case False
    with read_lifecycle have "d' = d"
      by (auto simp: read_decoded_lifecycle_with_def assert_unit_bounds_cases bind_res_eq_Ok
        split: res.splits if_splits)
    with False read_lifecycle.IH show ?thesis by auto
  qed
next
  case (read_scratch d tail g c ro fo r c' d' ro' fo')
  then show ?case using read_scratch_told [OF read_scratch.hyps(2)] by (auto split: if_splits)
qed

end

section \<open>Property\<close>

text \<open>C25. The end-of-input mark is exact: along every history of public calls, whatever the decoders and
  codecs do and however the source grows, the mark is set if and only if the last call at end of input
  stopped for lack of output and no unit has since arrived, been read raw, sought over or read by a
  codec. Then the buffer holds exactly the tail that call left, less what was consumed since, and the
  next \<open>transcode\<close> call that asks for values makes one call of the decoder: the one at end of input, on
  exactly that tail.\<close>

theorem eof_mark_tells_tail:
  assumes "buffered_window BI" "di_history T C BI E d tail"
  shows "case tail of
      None \<Rightarrow> \<not> di_eof_retry_pending d
    | Some us \<Rightarrow> di_eof_retry_pending d \<and> di_unread BI d = us \<and>
        (\<forall>f s out j k. 0 < k \<and> (\<forall>msg. \<exists>stop. env_range_end E (length out) j k msg = Ok stop) \<longrightarrow>
          (\<exists>r s' a d' out'. di_transcode (recording T) BI E f (s, []) d out j k =
            Some (r, (s', [(True, us, a)]), d', out')))"
proof -
  note told = buffered_window.history_told [OF assms]
  show ?thesis
  proof (cases tail)
    case (Some us)
    with told have d: "mark_true BI d (Some us)" by simp
    have "\<exists>r s' a d' out'. di_transcode (recording T) BI E f (s, []) d out j k = Some (r, (s', [(True, us, a)]), d', out')"
      if "0 < k" "\<forall>msg. \<exists>stop. env_range_end E (length out) j k msg = Ok stop" for f s out j k
      by (rule buffered_window.resumes_tail [OF assms(1) d that(1)]) (use that(2) in blast)
    with d Some show ?thesis by simp
  qed (use told in simp)
qed

text \<open>Three units are unread at the reported end of the input, and there is room for one value: the mark
  is set with two units left, stays when one of them is consumed, and is cleared when the source grows
  and the next unit arrives.\<close>

theorem eof_mark_tells_tail_witness:
  "\<exists>d1 d2 d3. di_history marker_decoder_transcoder marker_codec scripted_input sample_env d1 (Some [0x34, 0x56]) \<and>
    di_eof_retry_pending d1 \<and> di_unread scripted_input d1 = [0x34, 0x56] \<and>
    di_history marker_decoder_transcoder marker_codec scripted_input sample_env d2 (Some [0x56]) \<and>
    di_eof_retry_pending d2 \<and> di_unread scripted_input d2 = [0x56] \<and>
    di_history marker_decoder_transcoder marker_codec scripted_input sample_env d3 None \<and>
    \<not> di_eof_retry_pending d3 \<and> di_unread scripted_input d3 = [0x56, 0x78]"
proof -
  let ?H = "di_history marker_decoder_transcoder marker_codec scripted_input sample_env"
  let ?b0 = "\<lparr>sc_unread = [], sc_script = [Chunk [0x12, 0x34, 0x56]], sc_capacity = 8\<rparr> :: u8 scripted"
  let ?b1 = "\<lparr>sc_unread = [0x12, 0x34, 0x56], sc_script = [], sc_capacity = 8\<rparr> :: u8 scripted"
  let ?d0 = "\<lparr>di_input = ?b1, di_eof_retry_pending = False\<rparr>"
  let ?d1 = "\<lparr>di_input = ?b1\<lparr>sc_unread := [0x34, 0x56]\<rparr>, di_eof_retry_pending = True\<rparr>"
  let ?d2 = "\<lparr>di_input = ?b1\<lparr>sc_unread := [0x56]\<rparr>, di_eof_retry_pending = True\<rparr>"
  let ?grown = "\<lparr>sc_unread = [0x56], sc_script = [Chunk [0x78]], sc_capacity = 8\<rparr> :: u8 scripted"
  let ?d3 = "\<lparr>di_input = ?b1\<lparr>sc_unread := [0x56, 0x78]\<rparr>, di_eof_retry_pending = False\<rparr>"
  let ?s = "\<lparr>eof_empty_calls = 0, eof_tail_calls = 0\<rparr>"
  have "di_fill_until scripted_input sample_env 3 (decode_input_new ?b0) = (Ok True, ?d0)" by code_simp
  from di_history.fill_until [OF di_history.new this] have h0: "?H ?d0 None" by (simp add: unless_arrived_def)
  have "di_transcode_eof_step marker_decoder_transcoder scripted_input sample_env (\<lambda>_. IoMessage InvalidData []) ?s ?d0 [0] 0 1 =
      (Ok (progress_new (NeedOutput (NZ 0)) 1 1), ?s, ?d1, [0x12])" by code_simp
  from di_history.transcode_eof_step [OF h0 this] have h1: "?H ?d1 (Some [0x34, 0x56])"
    by (simp add: tail_after_eof_def progress_defs scripted_input_def)
  have "di_consume scripted_input 1 ?d1 = (Ok (), ?d2)" by code_simp
  from di_history.consume [OF h1 this] have h2: "?H ?d2 (Some [0x56])" by simp
  have "di_fill_until scripted_input sample_env 2 (?d2\<lparr>di_input := ?grown\<rparr>) = (Ok True, ?d3)" by code_simp
  from di_history.fill_until [OF di_history.source [OF h2, of ?grown] this]
  have h3: "?H ?d3 None" by (simp add: unless_arrived_def scripted_input_def)
  note tells = eof_mark_tells_tail [OF scripted_window.buffered_window_axioms]
  from tells [OF h1] tells [OF h2] tells [OF h3] h1 h2 h3 show ?thesis
    by (intro exI [of _ ?d1] exI [of _ ?d2] exI [of _ ?d3]) (simp add: scripted_input_def)
qed

end
