(* ===== verification/BenchCodecs.thy ===== *)
theory BenchCodecs
  imports ConvertStreams
begin

text \<open>
  The codecs, hooks and the hand-written transcoder of the benchmark \<open>benches/transcode.rs\<close>:
  \<open>CopyCodec\<close> copies bytes, \<open>VariableWidthCodec\<close> writes a byte from 128 on behind an escape byte.
  Both keep the contracts, the second one round-trips, and the converter from the first to the second
  is an instance of the conversion contract.
\<close>

section \<open>CopyCodec\<close>

definition copy_decode ::
  "unit \<Rightarrow> u8 list \<Rightarrow> nat \<Rightarrow> (infallible decode_failure, u8 \<times> nonzero) res \<times> unit" where
  "copy_decode c input i = (bind_res (slice_get input i) (\<lambda>a. Ok (a, nz_min)), c)"

definition copy_encode ::
  "unit \<Rightarrow> u8 \<Rightarrow> u8 list \<Rightarrow> nat \<Rightarrow> (infallible, nat) res \<times> unit \<times> u8 list" where
  "copy_encode c v out i = write_one c out i v"

definition copy_codec :: "(unit, u8, u8, infallible, infallible) codec" where
  "copy_codec =
    \<lparr>min_units_per_value = 1, max_encode_units_per_value = 1, max_decode_units_per_value = 1,
     max_encode_reset_units = default_lifecycle_units,
     max_encode_finish_units = default_lifecycle_units,
     max_decode_reset_values = default_lifecycle_units,
     max_decode_finish_values = default_lifecycle_units,
     can_encode_value = default_can_encode_value, encode_len = default_encode_len 1,
     encode_reset = default_lifecycle_output, encode = copy_encode,
     encode_finish = default_lifecycle_output, decode_reset = default_lifecycle_output,
     decode = copy_decode, decode_eof = default_decode_eof copy_decode,
     decode_finish = default_lifecycle_output\<rparr>"

text \<open>The handler of \<open>CopyHooks\<close> matches on an error that has no value.\<close>

definition copy_handle_invalid ::
  "unit \<Rightarrow> unit \<Rightarrow> infallible \<Rightarrow> nonzero option \<Rightarrow> decode_context \<Rightarrow>
   (infallible decode_error, u8 invalid_action) res \<times> unit \<times> unit" where
  "copy_handle_invalid h c e consumed ctx = (Panic, h, c)"

definition copy_hooks :: "(unit, unit, u8, infallible) decode_hooks" where
  "copy_hooks =
    \<lparr>dh_max_transcode_output_len = default_dh_max_transcode,
     dh_max_finish_output_len = default_max_finish,
     dh_handle_invalid = copy_handle_invalid,
     dh_handle_incomplete = default_handle_incomplete,
     dh_reset_hooks = default_reset_hooks,
     dh_finish_hooks = default_finish_hooks\<rparr>"

section \<open>VariableWidthCodec\<close>

definition variable_encode_len :: "unit \<Rightarrow> u8 \<Rightarrow> nat" where
  "variable_encode_len c v = (if v < 128 then 1 else 2)"

definition variable_decode ::
  "unit \<Rightarrow> u8 list \<Rightarrow> nat \<Rightarrow> (infallible decode_failure, u8 \<times> nonzero) res \<times> unit" where
  "variable_decode c input i =
    (bind_res (slice_get input i) (\<lambda>a.
      if a \<noteq> 0xff then Ok (a, nz_min)
      else if length input - i < 2 then Err (failure_incomplete (NZ 1))
      else bind_res (slice_get input (i + 1)) (\<lambda>b. Ok (b, NZ 1))), c)"

definition variable_encode ::
  "unit \<Rightarrow> u8 \<Rightarrow> u8 list \<Rightarrow> nat \<Rightarrow> (infallible, nat) res \<times> unit \<times> u8 list" where
  "variable_encode c v out i =
    (if v < 128 then write_one c out i v
     else if i + 2 \<le> length out then (Ok 2, c, splice_at out i [0xff, v])
     else (Panic, c, out))"

definition variable_codec :: "(unit, u8, u8, infallible, infallible) codec" where
  "variable_codec =
    \<lparr>min_units_per_value = 1, max_encode_units_per_value = 2, max_decode_units_per_value = 2,
     max_encode_reset_units = default_lifecycle_units,
     max_encode_finish_units = default_lifecycle_units,
     max_decode_reset_values = default_lifecycle_units,
     max_decode_finish_values = default_lifecycle_units,
     can_encode_value = default_can_encode_value, encode_len = variable_encode_len,
     encode_reset = default_lifecycle_output, encode = variable_encode,
     encode_finish = default_lifecycle_output, decode_reset = default_lifecycle_output,
     decode = variable_decode, decode_eof = default_decode_eof variable_decode,
     decode_finish = default_lifecycle_output\<rparr>"

definition reject_unencodable ::
  "unit \<Rightarrow> unit \<Rightarrow> u8 encode_context \<Rightarrow>
   ((infallible, u8) encode_error, u8 unencodable_action) res \<times> unit \<times> unit" where
  "reject_unencodable h c ctx = (Ok RejectValue, h, c)"

definition strict_encode_hooks :: "(unit, unit, u8, u8, infallible) encode_hooks" where
  "strict_encode_hooks =
    \<lparr>eh_max_transcode_output_len = default_eh_max_transcode variable_codec,
     eh_max_finish_output_len = default_max_finish,
     eh_handle_unencodable = reject_unencodable,
     eh_reset_hooks = default_reset_hooks,
     eh_finish_hooks = default_finish_hooks\<rparr>"

section \<open>CopyTranscoder\<close>

definition copy_transcode ::
  "unit \<Rightarrow> u8 list \<Rightarrow> nat \<Rightarrow> u8 list \<Rightarrow> nat \<Rightarrow>
   (infallible decode_error, transcode_progress) res \<times> unit \<times> u8 list" where
  "copy_transcode s input input_index out output_index =
    (if \<not> (input_index \<le> length input \<and> output_index \<le> length out) then (Panic, s, out)
     else
       let count = min (length input - input_index) (length out - output_index) in
       (Ok (if count = length input - input_index then progress_complete count count
            else progress_need_output nz_min count count),
        s, splice_at out output_index (take count (drop input_index input))))"

definition copy_transcoder :: "(unit, u8, u8, infallible decode_error) transcoder" where
  "copy_transcoder =
    \<lparr>from_failure = DecodeFailed,
     max_reset_output_len = default_max_output_len,
     max_transcode_output_len = (\<lambda>s n. Ok n),
     max_finish_output_len = default_max_output_len,
     tr_reset = (\<lambda>s out j. (Ok 0, s, out)),
     tr_transcode = copy_transcode,
     tr_transcode_eof = default_transcode_eof DecodeFailed copy_transcode,
     tr_finish = (\<lambda>s out j. (Ok 0, s, out))\<rparr>"

section \<open>Contracts\<close>

definition copy_emit :: "(unit, u8, u8, infallible) emitter" where
  "copy_emit c v = (Inr [v], c)"

fun copy_parse :: "(unit, u8, u8, infallible) parser" where
  "copy_parse c e (a # xs) = (Inr (a, nz_min), c)"
| "copy_parse c e [] = (Inl (Incomplete None nz_min), c)"

text \<open>The bytes of one value, and what the benchmark expects of a whole input.\<close>

definition variable_bytes :: "u8 \<Rightarrow> u8 list" where
  "variable_bytes v = (if v < 128 then [v] else [0xff, v])"

definition variable_emit :: "(unit, u8, u8, infallible) emitter" where
  "variable_emit c v = (Inr (variable_bytes v), c)"

fun variable_parse :: "(unit, u8, u8, infallible) parser" where
  "variable_parse c e (a # xs) =
    ((if a \<noteq> 0xff then Inr (a, nz_min)
      else case xs of [] \<Rightarrow> Inl (Incomplete None (NZ 1)) | b # _ \<Rightarrow> Inr (b, NZ 1)), c)"
| "variable_parse c e [] = (Inl (Incomplete None nz_min), c)"

lemma copy_decode_parse:
  assumes "1 \<le> length input - i"
  shows "copy_decode c input i = apfst sum_res (copy_parse c e (drop i input))"
proof -
  obtain a ys where "drop i input = a # ys" using one_unit [of "drop i input"] assms by auto
  then show ?thesis by (simp add: copy_decode_def slice_get_drop)
qed

lemma variable_decode_parse:
  assumes "1 \<le> length input - i"
  shows "variable_decode c input i = apfst sum_res (variable_parse c e (drop i input))"
proof -
  obtain a ys where d: "drop i input = a # ys" using one_unit [of "drop i input"] assms by auto
  then have "drop (i + 1) input = ys" "length input - i = Suc (length ys)"
    by (metis drop_Suc_Cons drop0 drop_drop One_nat_def add.commute) (metis d length_Cons length_drop)
  with d show ?thesis
    by (cases ys) (simp_all add: variable_decode_def slice_get_drop failure_incomplete_def)
qed

interpretation copy_dec: decoder_lifecycle copy_codec copy_hooks any_state copy_parse strict_invalid strict_incomplete Ok 0 1
  by unfold_locales
    (auto simp: copy_codec_def codec_default_defs copy_hooks_def hook_default_defs default_dh_max_transcode_def
      strict_policy_defs unit_bounds_def any_state_def copy_decode_parse Suc_le_eq
      dest!: neq_Nil_conv [THEN iffD1])

interpretation copy_strict: decoder_lifecycle copy_codec "codec_transcode_decode_hooks copy_codec" any_state
  copy_parse strict_invalid strict_incomplete "strict_decode_bound copy_codec" 0 1
  using strict_decode_bound_covers [of copy_codec]
  by unfold_locales
    (auto simp: copy_codec_def codec_default_defs strict_hook_defs hook_default_defs strict_policy_defs
      unit_bounds_def any_state_def strict_decode_bound_def copy_decode_parse
      dest!: one_unit strict_turn_take)

interpretation variable_enc: encoder_lifecycle variable_codec strict_encode_hooks any_state variable_emit
  strict_unencodable "strict_encode_bound variable_codec" 0
  using strict_encode_bound_covers [of variable_codec]
  by unfold_locales
    (auto simp: variable_codec_def codec_default_defs strict_encode_hooks_def hook_default_defs strict_policy_defs
      reject_unencodable_def default_eh_max_transcode_def variable_emit_def variable_encode_def variable_encode_len_def
      variable_bytes_def write_one_def splice_at_single any_state_def strict_encode_bound_def split: if_splits)

interpretation variable_dec: decoder_lifecycle variable_codec "codec_transcode_decode_hooks variable_codec" any_state
  variable_parse strict_invalid strict_incomplete "strict_decode_bound variable_codec" 0 1
  using strict_decode_bound_covers [of variable_codec]
  by unfold_locales
    (auto simp: variable_codec_def codec_default_defs strict_hook_defs hook_default_defs strict_policy_defs
      unit_bounds_def any_state_def strict_decode_bound_def variable_decode_parse
      dest!: one_unit strict_turn_take split: if_splits list.splits)

interpretation variable_trip: codec_roundtrip variable_codec strict_encode_hooks any_state variable_emit
  strict_unencodable "codec_transcode_decode_hooks variable_codec" any_state
  variable_parse strict_invalid strict_incomplete "\<lambda>c d. True"
  by unfold_locales (auto simp: variable_emit_def variable_bytes_def variable_codec_def)

text \<open>From \<open>CopyCodec\<close> to \<open>VariableWidthCodec\<close>; \<open>reserve\<close> answers the allocations.\<close>

definition copy_to_variable ::
  "(nat \<Rightarrow> bool) \<Rightarrow>
   (unit, unit, unit, unit, u8, u8, u8, infallible, infallible, infallible, infallible) converter_traits" where
  "copy_to_variable reserve =
    \<lparr>src_codec = copy_codec, src_hooks = copy_hooks, tgt_codec = variable_codec,
     tgt_hooks = strict_encode_hooks, value_default = 0, try_reserve = reserve\<rparr>"

interpretation copy_variable: codec_pair "copy_to_variable reserve" any_state copy_parse strict_invalid strict_incomplete
  any_state variable_emit strict_unencodable
  for reserve
  by (simp_all add: copy_to_variable_def codec_pair_def copy_dec.decoder_codec_axioms variable_enc.encoder_codec_axioms)

end
