(* ===== verification/Benchmarks.thy ===== *)
theory Benchmarks
  imports BenchCodecs
begin

text \<open>
  What \<open>benches/transcode.rs\<close> checks: it drives transcoders over an input through output windows
  that are reused from call to call, and compares what it collects with the expected output before
  anything is timed. The loops are over any transcoder; a failed assertion and an \<open>expect\<close> of an
  error are panics. The locale \<open>windowed\<close> states what such a transcoder owes: the output of a call
  and what it still carries are the output owed before and the expansion of what it has read.
\<close>

section \<open>Windows\<close>

locale windowed =
  fixes T :: "('s, 'i, 'o :: zero, 'e) transcoder"
    and ready :: "'s \<Rightarrow> bool"
    and carry :: "'s \<Rightarrow> 'o list"
    and expand :: "'i list \<Rightarrow> 'o list"
    and least :: nat
  assumes expand_append: "expand (xs @ ys) = expand xs @ expand ys"
    and call_law: "ready s \<Longrightarrow> call = tr_transcode T \<or> call = tr_transcode_eof T \<Longrightarrow> i \<le> length input \<Longrightarrow>
      length input \<le> usize_max \<Longrightarrow> least \<le> length out \<Longrightarrow> length out \<le> usize_max \<Longrightarrow>
      call s input i out 0 = (r, s', out') \<Longrightarrow>
      \<exists>p. r = Ok p \<and> ready s' \<and> length out' = length out \<and> valid_progress p i (length input - i) 0 (length out) \<and>
        \<not> is_need_input p \<and>
        carry s @ expand (take (tp_read p) (drop i input)) = take (tp_written p) out' @ carry s' \<and>
        (is_complete p \<longrightarrow> carry s' = []) \<and> (is_need_output p \<longrightarrow> 0 < tp_read p \<or> 0 < tp_written p)"
    and reset_law: "length out \<le> usize_max \<Longrightarrow> \<exists>s'. tr_reset T s out 0 = (Ok 0, s', out) \<and> ready s' \<and> carry s' = []"
    and finish_law: "ready s \<Longrightarrow> carry s = [] \<Longrightarrow> length out \<le> usize_max \<Longrightarrow> \<exists>s'. tr_finish T s out 0 = (Ok 0, s', out)"
begin

text \<open>What is left to write, and the work left.\<close>

abbreviation owed :: "'s \<Rightarrow> 'i list \<Rightarrow> nat \<Rightarrow> 'o list" where
  "owed s input i \<equiv> carry s @ expand (drop i input)"

abbreviation work :: "'s \<Rightarrow> 'i list \<Rightarrow> nat \<Rightarrow> nat" where
  "work s input i \<equiv> (length input - i) + length (owed s input i)"

lemma call_step:
  assumes "ready s" "call = tr_transcode T \<or> call = tr_transcode_eof T" "i \<le> length input" "length input \<le> usize_max"
    and "least \<le> length out" "length out \<le> usize_max"
  obtains p s' out' where "call s input i out 0 = (Ok p, s', out')" "ready s'" "length out' = length out"
    "valid_progress p i (length input - i) 0 (length out)" "i + tp_read p \<le> length input" "tp_written p \<le> length out"
    "owed s input i = take (tp_written p) out' @ owed s' input (i + tp_read p)"
    "is_complete p \<and> i + tp_read p = length input \<and> carry s' = [] \<and> owed s' input (i + tp_read p) = expand [] \<or>
      (\<exists>req. tp_status p = NeedOutput req) \<and> (0 < tp_read p \<or> 0 < tp_written p) \<and>
        work s' input (i + tp_read p) < work s input i"
proof -
  obtain r s' out' where call: "call s input i out 0 = (r, s', out')" by (metis prod_cases3)
  from call_law [OF assms call] obtain p where p: "r = Ok p" "ready s'" "length out' = length out"
    "valid_progress p i (length input - i) 0 (length out)" "\<not> is_need_input p"
    "carry s @ expand (take (tp_read p) (drop i input)) = take (tp_written p) out' @ carry s'"
    "is_complete p \<longrightarrow> carry s' = []" "is_need_output p \<longrightarrow> 0 < tp_read p \<or> 0 < tp_written p" by blast
  have b: "i + tp_read p \<le> length input" "tp_written p \<le> length out" using p(4) assms(3) by (auto simp: valid_progress_def)
  have "expand (drop i input) = expand (take (tp_read p) (drop i input)) @ expand (drop (i + tp_read p) input)"
    by (metis expand_append append_take_drop_id drop_drop add.commute)
  with p(6) have owed: "owed s input i = take (tp_written p) out' @ owed s' input (i + tp_read p)" by simp
  then have "length (owed s input i) = tp_written p + length (owed s' input (i + tp_read p))" using b(2) p(3) by simp
  then have "is_complete p \<and> i + tp_read p = length input \<and> carry s' = [] \<and> owed s' input (i + tp_read p) = expand [] \<or>
      (\<exists>req. tp_status p = NeedOutput req) \<and> (0 < tp_read p \<or> 0 < tp_written p) \<and>
        work s' input (i + tp_read p) < work s input i"
    using p(4,5,7,8) b(1) by (cases "tp_status p") (auto simp: valid_progress_def progress_defs)
  with that call p(1-4) b owed show thesis by blast
qed

end

text \<open>One more promise of a transcoder that copies: with any room it reads on, and it is complete
  exactly at the end of the input.\<close>

locale copying = windowed T ready "\<lambda>_. []" id 1
  for T :: "('s, 'u :: zero, 'u, 'e) transcoder" and ready +
  assumes reads_on: "ready s \<Longrightarrow> i < length input \<Longrightarrow> length input \<le> usize_max \<Longrightarrow> 1 \<le> length out \<Longrightarrow>
      length out \<le> usize_max \<Longrightarrow> tr_transcode T s input i out 0 = (Ok p, s', out') \<Longrightarrow>
      0 < tp_read p \<and> (i + tp_read p = length input \<longrightarrow> is_complete p)"

section \<open>Loops over output windows\<close>

text \<open>The loop of \<open>verify_output_windows\<close>: what it collected and where it stopped.\<close>

function verify_output_loop ::
  "('s, 'u, 'u, 'e) transcoder \<Rightarrow> 'u list \<Rightarrow> 's \<Rightarrow> 'u list \<Rightarrow> 'u list \<Rightarrow> nat \<Rightarrow> (unit, 'u list \<times> nat) res \<times> 's" where
  "verify_output_loop T input s output collected input_index =
    (if \<not> input_index < length input then (Ok (collected, input_index), s)
     else
       case tr_transcode T s input input_index output 0 of
         (Ok p, s, output) \<Rightarrow>
           if \<not> (0 < tp_read p \<and> tp_written p \<le> length output) then (Panic, s)
           else if (if input_index + tp_read p = length input then is_complete p else is_need_output p)
           then verify_output_loop T input s output (collected @ take (tp_written p) output) (input_index + tp_read p)
           else (Panic, s)
       | (_, s, _) \<Rightarrow> (Panic, s))"
  by pat_completeness auto
termination
  by (relation "measure (\<lambda>(T, input, s, output, collected, i). length input - i)") auto

declare verify_output_loop.simps [simp del]

definition verify_output_windows ::
  "('s, 'u :: zero, 'u, 'e) transcoder \<Rightarrow> 's \<Rightarrow> 'u list \<Rightarrow> nat \<Rightarrow> (unit, unit) res \<times> 's" where
  "verify_output_windows T s input window =
    (case verify_output_loop T input s (replicate window 0) [] 0 of
       (Ok (collected, input_index), s) \<Rightarrow>
         (if length input = input_index \<and> input = collected then Ok () else Panic, s)
     | (_, s) \<Rightarrow> (Panic, s))"

text \<open>The timed loops: the units written.\<close>

partial_function (option) run_output_loop ::
  "('s, 'i, 'o, 'e) transcoder \<Rightarrow> 'i list \<Rightarrow> 's \<Rightarrow> 'o list \<Rightarrow> nat \<Rightarrow> nat \<Rightarrow> ((unit, nat) res \<times> 's \<times> 'o list) option" where
  "run_output_loop T input s output input_index written_total =
    (if \<not> input_index < length input then Some (Ok written_total, s, output)
     else
       case tr_transcode T s input input_index output 0 of
         (Ok p, s, output) \<Rightarrow>
           if \<not> tp_written p \<le> length output then Some (Panic, s, output)
           else run_output_loop T input s output (input_index + tp_read p) (written_total + tp_written p)
       | (_, s, output) \<Rightarrow> Some (Panic, s, output))"

declare run_output_loop.simps [code]

definition run_output_windows ::
  "('s, 'i, 'o, 'e) transcoder \<Rightarrow> 's \<Rightarrow> 'i list \<Rightarrow> 'o list \<Rightarrow> ((unit, nat) res \<times> 's \<times> 'o list) option" where
  "run_output_windows T s input output = run_output_loop T input s output 0 0"

partial_function (option) run_engine_loop ::
  "('s, 'i, 'o, 'e) transcoder \<Rightarrow> 'i list \<Rightarrow> 's \<Rightarrow> 'o list \<Rightarrow> nat \<Rightarrow> nat \<Rightarrow> ((unit, nat) res \<times> 's \<times> 'o list) option" where
  "run_engine_loop T input s output cursor written =
    (case tr_transcode T s input cursor output 0 of
       (Ok p, s, output) \<Rightarrow>
         if \<not> tp_written p \<le> length output then Some (Panic, s, output)
         else
           (case tp_status p of
              Complete \<Rightarrow> Some (Ok (written + tp_written p), s, output)
            | NeedOutput _ \<Rightarrow> run_engine_loop T input s output (cursor + tp_read p) (written + tp_written p)
            | NeedInput _ \<Rightarrow> Some (Panic, s, output))
     | (_, s, output) \<Rightarrow> Some (Panic, s, output))"

declare run_engine_loop.simps [code]

definition run_engine_windows ::
  "('s, 'i, 'o, 'e) transcoder \<Rightarrow> 's \<Rightarrow> 'i list \<Rightarrow> 'o list \<Rightarrow> ((unit, nat) res \<times> 's \<times> 'o list) option" where
  "run_engine_windows T s input output = run_engine_loop T input s output 0 0"

section \<open>The check of a whole lifecycle\<close>

fun expected_variable_output :: "u8 list \<Rightarrow> u8 list" where
  "expected_variable_output [] = []"
| "expected_variable_output (v # vs) = (if 128 \<le> v then [0xff, v] else [v]) @ expected_variable_output vs"

text \<open>The two loops of \<open>verify_variable_windows\<close> differ in the call they make; the result is the
  cursor, what was collected, and whether a call asked for more output.\<close>

partial_function (option) variable_loop ::
  "('s \<Rightarrow> 'i list \<Rightarrow> nat \<Rightarrow> 'o list \<Rightarrow> nat \<Rightarrow> ('e, transcode_progress) res \<times> 's \<times> 'o list) \<Rightarrow> 'i list \<Rightarrow>
   's \<Rightarrow> 'o list \<Rightarrow> nat \<Rightarrow> 'o list \<Rightarrow> bool \<Rightarrow> ((unit, nat \<times> 'o list \<times> bool) res \<times> 's \<times> 'o list) option" where
  "variable_loop call input s output cursor actual saw_need_output =
    (case call s input cursor output 0 of
       (Ok p, s, output) \<Rightarrow>
         if validate p cursor (length input - cursor) 0 (length output) \<noteq> Ok () then Some (Panic, s, output)
         else
           let cursor = cursor + tp_read p; actual = actual @ take (tp_written p) output in
           (case tp_status p of
              Complete \<Rightarrow> Some (Ok (cursor, actual, saw_need_output), s, output)
            | NeedOutput _ \<Rightarrow>
                if 0 < tp_read p \<or> 0 < tp_written p then variable_loop call input s output cursor actual True
                else Some (Panic, s, output)
            | NeedInput _ \<Rightarrow> Some (Panic, s, output))
     | (_, s, output) \<Rightarrow> Some (Panic, s, output))"

declare variable_loop.simps [code]

definition verify_variable_windows ::
  "('s, 'i, 'o :: zero, 'e) transcoder \<Rightarrow> 's \<Rightarrow> 'i list \<Rightarrow> 'o list \<Rightarrow> nat \<Rightarrow> (unit, unit) res option" where
  "verify_variable_windows T s input expected window =
    (case tr_reset T s (replicate window 0) 0 of
       (Ok reset, s, output) \<Rightarrow>
         if reset \<noteq> 0 then Some Panic
         else
           (case variable_loop (tr_transcode T) input s output 0 [] False of
              Some (Ok (cursor, actual, saw_need_output), s, output) \<Rightarrow>
                if length input \<noteq> cursor then Some Panic
                else
                  (case variable_loop (tr_transcode_eof T) input s output cursor actual False of
                     Some (Ok (_, actual, _), s, output) \<Rightarrow>
                       (case tr_finish T s output 0 of
                          (Ok finish, _, _) \<Rightarrow>
                            Some (if finish = 0 \<and> expected = actual \<and> (window < length expected \<longrightarrow> saw_need_output)
                              then Ok () else Panic)
                        | _ \<Rightarrow> Some Panic)
                   | Some _ \<Rightarrow> Some Panic
                   | None \<Rightarrow> None)
            | Some _ \<Rightarrow> Some Panic
            | None \<Rightarrow> None)
     | _ \<Rightarrow> Some Panic)"

section \<open>The loops end and check what they should\<close>

context windowed
begin

lemma expand_Nil [simp]: "expand [] = []"
  using expand_append [of "[]" "[]"] by simp

lemma variable_loop_collects:
  assumes "call = tr_transcode T \<or> call = tr_transcode_eof T" "length input \<le> usize_max"
    and "ready s" "i \<le> length input" "least \<le> length out" "length out \<le> usize_max"
  shows "\<exists>saw' s' out'. variable_loop call input s out i actual saw =
      Some (Ok (length input, actual @ owed s input i, saw'), s', out') \<and> ready s' \<and> carry s' = [] \<and>
      length out' = length out \<and> (saw \<or> length out < length (owed s input i) \<longrightarrow> saw')"
  using assms(3-6)
proof (induction "work s input i" arbitrary: s i out actual saw rule: less_induct)
  case less
  obtain p s1 out1 where step: "call s input i out 0 = (Ok p, s1, out1)" "ready s1" "length out1 = length out"
    "valid_progress p i (length input - i) 0 (length out)" "i + tp_read p \<le> length input" "tp_written p \<le> length out"
    "owed s input i = take (tp_written p) out1 @ owed s1 input (i + tp_read p)"
    "is_complete p \<and> i + tp_read p = length input \<and> carry s1 = [] \<and> owed s1 input (i + tp_read p) = expand [] \<or>
      (\<exists>req. tp_status p = NeedOutput req) \<and> (0 < tp_read p \<or> 0 < tp_written p) \<and>
        work s1 input (i + tp_read p) < work s input i"
    by (rule call_step [OF less.prems(1) assms(1) less.prems(2) assms(2) less.prems(3,4)])
  have valid: "validate p i (length input - i) 0 (length out1) = Ok ()" using step(3,4) by (simp add: validate_Ok_iff)
  note loop = variable_loop.simps [of call input s out i actual saw]
  from step(8) consider (ended) "is_complete p" "i + tp_read p = length input" "carry s1 = []" "owed s1 input (i + tp_read p) = expand []"
    | (more) req where "tp_status p = NeedOutput req" "0 < tp_read p \<or> 0 < tp_written p"
        "work s1 input (i + tp_read p) < work s input i" by blast
  then show ?case
  proof cases
    case ended
    then have "tp_status p = Complete" by (cases "tp_status p") (simp_all add: progress_defs)
    with loop step(1,2,3,6,7) valid ended show ?thesis by (auto simp: Let_def)
  next
    case more
    have "least \<le> length out1" "length out1 \<le> usize_max" using less.prems(3,4) step(3) by simp_all
    from less.hyps [OF more(3) step(2,5) this, of "actual @ take (tp_written p) out1" True] obtain saw' s' out'
      where "variable_loop call input s1 out1 (i + tp_read p) (actual @ take (tp_written p) out1) True =
        Some (Ok (length input, (actual @ take (tp_written p) out1) @ owed s1 input (i + tp_read p), saw'), s', out')"
      "ready s'" "carry s' = []" "length out' = length out1" "saw'" by blast
    with loop step(1,3,7) valid more(1,2) show ?thesis by (auto simp: Let_def)
  qed
qed

lemma verify_variable_passes:
  assumes "length input \<le> usize_max" "least \<le> window" "window \<le> usize_max"
  shows "verify_variable_windows T s input (expand input) window = Some (Ok ())"
proof -
  let ?out = "replicate window 0"
  have room: "least \<le> length ?out" "length ?out \<le> usize_max" using assms(2,3) by simp_all
  obtain s1 where reset: "tr_reset T s ?out 0 = (Ok 0, s1, ?out)" "ready s1" "carry s1 = []" using reset_law [OF room(2)] by blast
  from variable_loop_collects [OF disjI1 [OF refl] assms(1) reset(2) le0 room, of "[]" False] reset(3)
  obtain saw s2 out2 where main: "variable_loop (tr_transcode T) input s1 ?out 0 [] False =
      Some (Ok (length input, expand input, saw), s2, out2)" "ready s2" "carry s2 = []" "length out2 = window"
    "window < length (expand input) \<longrightarrow> saw" by auto
  have room2: "least \<le> length out2" "length out2 \<le> usize_max" using assms(2,3) main(4) by simp_all
  from variable_loop_collects [OF disjI2 [OF refl] assms(1) main(2) order_refl room2, of "expand input" False] main(3)
  obtain saw2 s3 out3 where eof: "variable_loop (tr_transcode_eof T) input s2 out2 (length input) (expand input) False =
      Some (Ok (length input, expand input, saw2), s3, out3)" "ready s3" "carry s3 = []" "length out3 \<le> usize_max" using room2 by auto
  obtain s4 where "tr_finish T s3 out3 0 = (Ok 0, s4, out3)" using finish_law [OF eof(2,3) eof(4)] by blast
  with reset(1) main(1,5) eof(1) show ?thesis by (simp add: verify_variable_windows_def)
qed

lemma run_engine_counts:
  assumes "length input \<le> usize_max" "ready s" "i \<le> length input" "least \<le> length out" "length out \<le> usize_max"
  shows "\<exists>s' out'. run_engine_loop T input s out i count = Some (Ok (count + length (owed s input i)), s', out') \<and>
    ready s' \<and> carry s' = [] \<and> length out' = length out"
  using assms(2-5)
proof (induction "work s input i" arbitrary: s i out count rule: less_induct)
  case less
  obtain p s1 out1 where step: "tr_transcode T s input i out 0 = (Ok p, s1, out1)" "ready s1" "length out1 = length out"
    "valid_progress p i (length input - i) 0 (length out)" "i + tp_read p \<le> length input" "tp_written p \<le> length out"
    "owed s input i = take (tp_written p) out1 @ owed s1 input (i + tp_read p)"
    "is_complete p \<and> i + tp_read p = length input \<and> carry s1 = [] \<and> owed s1 input (i + tp_read p) = expand [] \<or>
      (\<exists>req. tp_status p = NeedOutput req) \<and> (0 < tp_read p \<or> 0 < tp_written p) \<and>
        work s1 input (i + tp_read p) < work s input i"
    by (rule call_step [OF less.prems(1) disjI1 [OF refl] less.prems(2) assms(1) less.prems(3,4)])
  note loop = run_engine_loop.simps [of T input s out i count]
  from step(8) consider (ended) "is_complete p" "i + tp_read p = length input" "carry s1 = []" "owed s1 input (i + tp_read p) = expand []"
    | (more) req where "tp_status p = NeedOutput req" "0 < tp_read p \<or> 0 < tp_written p"
        "work s1 input (i + tp_read p) < work s input i" by blast
  then show ?case
  proof cases
    case ended
    then have "tp_status p = Complete" by (cases "tp_status p") (simp_all add: progress_defs)
    with loop step(1,2,3,6,7) ended show ?thesis by simp
  next
    case more
    have "least \<le> length out1" "length out1 \<le> usize_max" using less.prems(3,4) step(3) by simp_all
    from less.hyps [OF more(3) step(2,5) this, of "count + tp_written p"] loop step(1,3,6,7) more(1)
    show ?thesis by (simp add: add.assoc)
  qed
qed

lemma run_engine_windows_counts:
  assumes "length input \<le> usize_max" "ready s" "carry s = []" "least \<le> length out" "length out \<le> usize_max"
  shows "\<exists>s' out'. run_engine_windows T s input out = Some (Ok (length (expand input)), s', out') \<and>
    ready s' \<and> carry s' = [] \<and> length out' = length out"
  using run_engine_counts [OF assms(1,2) le0 assms(4,5), of 0] assms(3) by (simp add: run_engine_windows_def)

end

context copying
begin

lemma copy_step:
  assumes "ready s" "i < length input" "length input \<le> usize_max" "1 \<le> length out" "length out \<le> usize_max"
  obtains p s' out' where "tr_transcode T s input i out 0 = (Ok p, s', out')" "ready s'" "length out' = length out"
    "0 < tp_read p" "i + tp_read p \<le> length input" "tp_written p \<le> length out" "tp_written p = tp_read p"
    "drop i input = take (tp_written p) out' @ drop (i + tp_read p) input"
    "if i + tp_read p = length input then is_complete p else is_need_output p"
proof -
  have "i \<le> length input" using assms(2) by simp
  from call_step [OF assms(1) disjI1 [OF refl] this assms(3-5)] obtain p s' out' where
    step: "tr_transcode T s input i out 0 = (Ok p, s', out')" "ready s'" "length out' = length out"
    "i + tp_read p \<le> length input" "tp_written p \<le> length out"
    "drop i input = take (tp_written p) out' @ drop (i + tp_read p) input"
    "is_complete p \<and> i + tp_read p = length input \<or> (\<exists>req. tp_status p = NeedOutput req)"
    by (metis append_Nil id_apply)
  note on = reads_on [OF assms step(1)]
  have "length (drop i input) = tp_written p + length (drop (i + tp_read p) input)" using step(3,5,6) by simp
  then have "tp_written p = tp_read p" using step(4) by simp
  moreover have "if i + tp_read p = length input then is_complete p else is_need_output p"
    using on step(7) by (auto simp: progress_defs)
  ultimately show thesis using that step on by blast
qed

lemma verify_output_collects:
  assumes "length input \<le> usize_max" "ready s" "i \<le> length input" "1 \<le> length out" "length out \<le> usize_max"
  shows "\<exists>s'. verify_output_loop T input s out collected i = (Ok (collected @ drop i input, length input), s') \<and> ready s'"
  using assms(2-5)
proof (induction "length input - i" arbitrary: s i out collected rule: less_induct)
  case less
  note loop = verify_output_loop.simps [of T input s out collected i]
  show ?case
  proof (cases "i < length input")
    case True
    obtain p s1 out1 where step: "tr_transcode T s input i out 0 = (Ok p, s1, out1)" "ready s1" "length out1 = length out"
      "0 < tp_read p" "i + tp_read p \<le> length input" "tp_written p \<le> length out"
      "drop i input = take (tp_written p) out1 @ drop (i + tp_read p) input"
      "if i + tp_read p = length input then is_complete p else is_need_output p"
      by (rule copy_step [OF less.prems(1) True assms(1) less.prems(3,4)])
    have "length input - (i + tp_read p) < length input - i" "1 \<le> length out1" "length out1 \<le> usize_max"
      using True step(3,4) less.prems by simp_all
    from less.hyps [OF this(1) step(2,5) this(2,3), of "collected @ take (tp_written p) out1"] loop True step
    show ?thesis by simp
  qed (use loop less.prems in simp)
qed

lemma verify_output_passes:
  assumes "ready s" "length input \<le> usize_max" "1 \<le> window" "window \<le> usize_max"
  shows "\<exists>s'. verify_output_windows T s input window = (Ok (), s') \<and> ready s'"
proof -
  have "1 \<le> length (replicate window 0)" "length (replicate window 0) \<le> usize_max" using assms(3,4) by simp_all
  from verify_output_collects [OF assms(2,1) le0 this, of "[]"] show ?thesis by (auto simp: verify_output_windows_def)
qed

lemma run_output_counts:
  assumes "length input \<le> usize_max" "ready s" "i \<le> length input" "1 \<le> length out" "length out \<le> usize_max"
  shows "\<exists>s' out'. run_output_loop T input s out i count = Some (Ok (count + (length input - i)), s', out') \<and>
    ready s' \<and> length out' = length out"
  using assms(2-5)
proof (induction "length input - i" arbitrary: s i out count rule: less_induct)
  case less
  note loop = run_output_loop.simps [of T input s out i count]
  show ?case
  proof (cases "i < length input")
    case True
    obtain p s1 out1 where step: "tr_transcode T s input i out 0 = (Ok p, s1, out1)" "ready s1" "length out1 = length out"
      "0 < tp_read p" "i + tp_read p \<le> length input" "tp_written p \<le> length out" "tp_written p = tp_read p"
      by (rule copy_step [OF less.prems(1) True assms(1) less.prems(3,4)])
    have "length input - (i + tp_read p) < length input - i" "1 \<le> length out1" "length out1 \<le> usize_max"
      using True step(3,4) less.prems by simp_all
    from less.hyps [OF this(1) step(2,5) this(2,3), of "count + tp_written p"] loop True step
    show ?thesis by auto
  qed (use loop less.prems in simp)
qed

end

end
