(* ===== verification/BenchRuns.thy ===== *)
theory BenchRuns
  imports Benchmarks
begin

text \<open>
  The transcoders the benchmark drives keep the law of windows: the hand-written copy, the decode
  engine and its adapter on \<open>CopyCodec\<close>, the encode engine on \<open>VariableWidthCodec\<close>, and the convert
  engine from one to the other, which carries a value whose bytes did not fit. So every check of the
  benchmark passes, on every input and in every window that holds one value.
\<close>

section \<open>Copying\<close>

lemma default_eof_of_valid:
  assumes "f s input i out 0 = (Ok p, s', out')" "i \<le> length input" "length out' = length out"
    and "valid_progress p i (length input - i) 0 (length out)" "\<not> is_need_input p"
  shows "default_transcode_eof wrap f s input i out 0 = (Ok p, s', out')"
proof -
  have "ensure_transcode_indices (length input) i (length out) 0 = Ok ()" using assms(2) by (simp add: check_simps)
  moreover have "validate p i (length input - i) 0 (length out) = Ok ()" using assms(4) by (simp add: validate_Ok_iff)
  ultimately show ?thesis using assms(1,3,5)
    by (cases "tp_status p") (simp_all add: default_transcode_eof_def progress_defs Let_def)
qed

lemma no_capacity [simp]: "n \<le> usize_max \<Longrightarrow> ensure_output_capacity n 0 0 = Ok ()"
  using ensure_output_capacity_Ok [of n 0 0 "()"] by simp

lemma valid_copy:
  assumes "i \<le> length input" "length input \<le> usize_max" "n = min (length input - i) room" "room \<le> usize_max"
  shows "valid_progress (if n = length input - i then progress_complete n n else progress_need_output nz_min n n) i (length input - i) 0 room"
  using assms by (auto simp: valid_progress_def progress_defs min_def)

interpretation copy_run: copying copy_transcoder "\<lambda>_. True"
proof (unfold_locales, goal_cases)
  case (2 s call i input out r s' out')
  let ?n = "min (length input - i) (length out)"
  let ?p = "if ?n = length input - i then progress_complete ?n ?n else progress_need_output nz_min ?n ?n"
  have run: "copy_transcode s input i out 0 = (Ok ?p, s, splice_at out 0 (take ?n (drop i input)))"
    using 2(3) by (simp add: copy_transcode_def Let_def)
  have v: "valid_progress ?p i (length input - i) 0 (length out)" by (rule valid_copy [OF 2(3,4) refl 2(6)])
  have "call s input i out 0 = (Ok ?p, s, splice_at out 0 (take ?n (drop i input)))"
    using 2(2) run default_eof_of_valid [where f = copy_transcode and wrap = DecodeFailed, OF run 2(3) _ v]
    by (auto simp: copy_transcoder_def progress_defs split: if_splits)
  with 2(5,7) v show ?case by (auto simp: progress_defs splice_at_def min_def)
next
  case (5 s i input out p s' out')
  then show ?case by (auto simp: copy_transcoder_def copy_transcode_def Let_def progress_defs min_def split: if_splits)
qed (simp_all add: copy_transcoder_def)

text \<open>The decode engine on \<open>CopyCodec\<close>, with any hooks that keep the defaults of the lifecycle.\<close>

lemma copy_stream:
  "decode_stream copy_codec copy_parse f g eof i c xs room =
    (Ok (if length xs \<le> room then Complete else NeedOutput nz_min), min (length xs) room, take room xs, c)"
proof (induction xs arbitrary: i room)
  case (Cons x xs)
  then show ?case
    by (subst decode_stream.simps) (cases room; simp add: decode_turn_def copy_codec_def)
qed simp

locale copy_decoding = decoder_codec copy_codec H any_state copy_parse on_invalid on_incomplete
  for H :: "('h, unit, u8, infallible) decode_hooks" and on_invalid on_incomplete +
  assumes plain: "dh_max_finish_output_len H = default_max_finish" "dh_reset_hooks H = default_reset_hooks"
    "dh_finish_hooks H = default_finish_hooks"
begin

lemma copy_call:
  assumes "stream_phase (de_phase s)" "i \<le> length input" "length input \<le> usize_max" "length out \<le> usize_max"
    and "n = min (length input - i) (length out)"
  shows "\<exists>s'. de_transcode_with_eof copy_codec H s input i out 0 eof =
      (Ok (if n = length input - i then progress_complete n n else progress_need_output nz_min n n), s',
       splice_at out 0 (take (length out) (drop i input))) \<and> stream_phase (de_phase s')"
proof -
  obtain r s' out' where call: "de_transcode_with_eof copy_codec H s input i out 0 eof = (r, s', out')" by (metis prod_cases3)
  have "any_state (de_codec s)" by (simp add: any_state_def)
  note transcode_refines [OF this assms(1,2) le0 copy_stream call]
  with call assms(5) show ?thesis by (auto simp: stream_phase_def progress_defs min_def)
qed

end

sublocale copy_decoding \<subseteq> copying "decode_transcoder copy_codec H" "\<lambda>s. stream_phase (de_phase s)"
proof (unfold_locales, goal_cases)
  case (2 s call i input out r s' out')
  let ?n = "min (length input - i) (length out)"
  have "\<exists>eof. \<forall>s input i out j. call s input i out j = de_transcode_with_eof copy_codec H s input i out j eof"
    using 2(2) by (auto simp: decode_transcoder_def de_transcode_def de_transcode_eof_def)
  then obtain eof where "\<And>s input i out j. call s input i out j = de_transcode_with_eof copy_codec H s input i out j eof" by blast
  with copy_call [OF 2(1,3,4,6) refl, of eof] 2(5,7) valid_copy [OF 2(3,4) refl 2(6)]
  show ?case by (auto simp: progress_defs splice_at_def min_def)
next
  case (3 out s)
  then show ?case
    by (cases s; cases "de_lifecycle s") (simp add: decode_transcoder_def de_reset_def call_defs plain copy_codec_def hook_default_defs
        codec_default_defs guard_defs stream_phase_def check_simps Let_def)
next
  case (4 s out)
  then show ?case
    by (cases s; cases "de_lifecycle s") (auto simp: decode_transcoder_def de_finish_def call_defs plain copy_codec_def hook_default_defs
        codec_default_defs guard_defs stream_phase_def check_simps Let_def on_finish_attempt.simps checked_add_def)
next
  case (5 s i input out p s' out')
  have "i \<le> length input" using 5(2) by simp
  from copy_call [OF 5(1) this 5(3,5) refl, of False] 5(2,4,6)
  show ?case by (auto simp: decode_transcoder_def de_transcode_def progress_defs min_def split: if_splits)
qed simp

interpretation copy_engine: copy_decoding copy_hooks strict_invalid strict_incomplete
  by unfold_locales (simp_all add: copy_hooks_def)

interpretation copy_plain: copy_decoding "codec_transcode_decode_hooks copy_codec" strict_invalid strict_incomplete
  by unfold_locales (simp_all add: codec_transcode_decode_hooks_def)

text \<open>The adapter: a call is the call of its engine.\<close>

lemma copy_adapter_calls:
  "tr_transcode (codec_transcode_decoder copy_codec) s input i out j = (r, s', out') \<longleftrightarrow>
    tr_transcode (decode_transcoder copy_codec (codec_transcode_decode_hooks copy_codec)) (decoder_engine s) input i out j
      = (r, decoder_engine s', out')"
  "tr_transcode_eof (codec_transcode_decoder copy_codec) s input i out j = (r, s', out') \<longleftrightarrow>
    tr_transcode_eof (decode_transcoder copy_codec (codec_transcode_decode_hooks copy_codec)) (decoder_engine s) input i out j
      = (r, decoder_engine s', out')"
  "tr_reset (codec_transcode_decoder copy_codec) s out j = (q, s', out') \<longleftrightarrow>
    tr_reset (decode_transcoder copy_codec (codec_transcode_decode_hooks copy_codec)) (decoder_engine s) out j = (q, decoder_engine s', out')"
  "tr_finish (codec_transcode_decoder copy_codec) s out j = (q, s', out') \<longleftrightarrow>
    tr_finish (decode_transcoder copy_codec (codec_transcode_decode_hooks copy_codec)) (decoder_engine s) out j = (q, decoder_engine s', out')"
  by (cases s'; auto simp: codec_transcode_decoder_def decode_transcoder_def Let_def through_def split: prod.splits)+

interpretation copy_adapter: copying "codec_transcode_decoder copy_codec" "\<lambda>s. stream_phase (de_phase (decoder_engine s))"
proof (unfold_locales, goal_cases)
  case (2 s call i input out r s' out')
  let ?T = "decode_transcoder copy_codec (codec_transcode_decode_hooks copy_codec)"
  have "tr_transcode ?T (decoder_engine s) input i out 0 = (r, decoder_engine s', out') \<or>
      tr_transcode_eof ?T (decoder_engine s) input i out 0 = (r, decoder_engine s', out')"
    using 2(2,7) copy_adapter_calls(1,2) by metis
  then show ?case
    using copy_plain.call_law [OF 2(1) disjI1 [OF refl] 2(3-6)] copy_plain.call_law [OF 2(1) disjI2 [OF refl] 2(3-6)]
    by blast
next
  case (3 out s)
  then obtain g where "tr_reset (decode_transcoder copy_codec (codec_transcode_decode_hooks copy_codec)) (decoder_engine s) out 0 = (Ok 0, g, out)"
    "stream_phase (de_phase g)" using copy_plain.reset_law by blast
  then show ?case by (intro exI [of _ "CodecTranscodeDecoder g"]) (simp add: copy_adapter_calls)
next
  case (4 s out)
  then obtain g where "tr_finish (decode_transcoder copy_codec (codec_transcode_decode_hooks copy_codec)) (decoder_engine s) out 0 = (Ok 0, g, out)"
    using copy_plain.finish_law by blast
  then show ?case by (intro exI [of _ "CodecTranscodeDecoder g"]) (simp add: copy_adapter_calls)
next
  case (5 s i input out p s' out')
  then show ?case using copy_plain.reads_on [of "decoder_engine s"] by (simp add: copy_adapter_calls)
qed simp

section \<open>Variable width\<close>

lemma expected_append: "expected_variable_output (xs @ ys) = expected_variable_output xs @ expected_variable_output ys"
  by (induction xs) auto

lemma expected_Cons: "expected_variable_output (v # vs) = variable_bytes v @ expected_variable_output vs"
  by (auto simp: variable_bytes_def not_le not_less)

lemma variable_bytes_length: "length (variable_bytes v) = variable_encode_len c v" "variable_encode_len c v \<le> 2"
    "0 < variable_encode_len c v"
  by (simp_all add: variable_bytes_def variable_encode_len_def)

lemma variable_turn:
  "encode_turn variable_codec variable_emit f i c v room =
    (if room < length (variable_bytes v) then TurnNeedOutput (NZ (length (variable_bytes v) - 1)) else TurnWrite (variable_bytes v) c)"
  by (simp add: encode_turn_def emit_turn_def variable_codec_def codec_default_defs variable_emit_def variable_bytes_length(1) [where v = v and c = c])

lemma variable_stream:
  assumes "encode_stream variable_codec variable_emit f i c vs room = (q, n, us, c')"
  shows "n \<le> length vs \<and> us = expected_variable_output (take n vs) \<and> length us \<le> room \<and> (2 \<le> room \<and> vs \<noteq> [] \<longrightarrow> 0 < n) \<and>
    (q = Ok None \<and> n = length vs \<or> (\<exists>req. q = Ok (Some req) \<and> n < length vs \<and> room < length us + nz_get req))"
  using assms
proof (induction vs arbitrary: i room q n us)
  case (Cons v vs)
  let ?u = "variable_bytes v"
  show ?case
  proof (cases "room < length ?u")
    case True
    with Cons.prems variable_bytes_length [where v = v and c = c] show ?thesis by (auto simp: variable_turn)
  next
    case False
    with Cons.prems obtain m ws where rest: "encode_stream variable_codec variable_emit f (i + 1) c vs (room - length ?u) = (q, m, ws, c')"
      "n = m + 1" "us = ?u @ ws" by (auto simp: variable_turn split: prod.splits)
    from Cons.IH [OF rest(1)] rest(2,3) False show ?thesis
      by (auto simp: expected_Cons simp del: expected_variable_output.simps)
  qed
qed auto

abbreviation variable_encoder where
  "variable_encoder \<equiv> encode_transcoder variable_codec strict_encode_hooks"

lemma variable_call:
  assumes "stream_phase (ee_phase s)" "i \<le> length input" "length input \<le> usize_max" "2 \<le> length out" "length out \<le> usize_max"
    and "ee_transcode variable_codec strict_encode_hooks s input i out 0 = (r, s', out')"
  shows "\<exists>p. r = Ok p \<and> stream_phase (ee_phase s') \<and> length out' = length out \<and>
    valid_progress p i (length input - i) 0 (length out) \<and> \<not> is_need_input p \<and>
    expected_variable_output (take (tp_read p) (drop i input)) = take (tp_written p) out' \<and>
    (is_need_output p \<longrightarrow> 0 < tp_read p)"
proof -
  obtain q n us c' where spec: "encode_stream variable_codec variable_emit (strict_unencodable (ee_hooks s)) i (ee_codec s)
      (drop i input) (length out - 0) = (q, n, us, c')" by (metis prod_cases4)
  have "any_state (ee_codec s)" by (simp add: any_state_def)
  note ref = variable_enc.transcode_refines [OF this assms(1,2) le0 spec assms(6)]
  note vs = variable_stream [OF spec]
  then show ?thesis
  proof (elim conjE disjE exE)
    assume "q = Ok None" "n = length (drop i input)"
    with ref vs assms(2,3,5) show ?thesis
      by (auto simp: stream_phase_def valid_progress_def encode_stream_report_def progress_defs)
  next
    fix req assume "q = Ok (Some req)" "n < length (drop i input)" "length out - 0 < length us + nz_get req"
    with ref vs assms(2-5) show ?thesis
      by (auto simp: stream_phase_def valid_progress_def encode_stream_report_def progress_defs)
  qed
qed

interpretation variable_run: windowed variable_encoder "\<lambda>s. stream_phase (ee_phase s)" "\<lambda>_. []" expected_variable_output 2
proof (unfold_locales, goal_cases)
  case (2 s call i input out r s' out')
  obtain r1 s1 out1 where run: "ee_transcode variable_codec strict_encode_hooks s input i out 0 = (r1, s1, out1)" by (metis prod_cases3)
  from variable_call [OF 2(1,3-6) run] obtain p where p: "r1 = Ok p" "stream_phase (ee_phase s1)" "length out1 = length out"
    "valid_progress p i (length input - i) 0 (length out)" "\<not> is_need_input p"
    "expected_variable_output (take (tp_read p) (drop i input)) = take (tp_written p) out1" "is_need_output p \<longrightarrow> 0 < tp_read p" by blast
  have "call s input i out 0 = (Ok p, s1, out1)"
    using 2(2) run p(1) default_eof_of_valid [where f = "ee_transcode variable_codec strict_encode_hooks" and wrap = EncodeFailure,
        OF run [unfolded p(1)] 2(3) p(3-5)]
    by (auto simp: encode_transcoder_def)
  with 2(7) p show ?case by auto
next
  case (3 out s)
  then show ?case
    by (cases s; cases "ee_lifecycle s") (simp add: encode_transcoder_def ee_reset_def ee_max_reset_output_len_def call_defs
        variable_codec_def strict_encode_hooks_def hook_default_defs codec_default_defs guard_defs stream_phase_def Let_def)
next
  case (4 s out)
  then show ?case
    by (cases s; cases "ee_lifecycle s") (auto simp: encode_transcoder_def ee_finish_def call_defs
        variable_codec_def strict_encode_hooks_def hook_default_defs codec_default_defs guard_defs stream_phase_def Let_def
        on_finish_attempt.simps checked_add_def)
qed (rule expected_append)

section \<open>Conversion\<close>

abbreviation copy_turns where
  "copy_turns \<equiv> codec_decode_turns copy_codec copy_parse strict_invalid strict_incomplete"

abbreviation variable_turns where
  "variable_turns \<equiv> codec_encode_turns variable_codec variable_emit strict_unencodable"

lemma copy_turns_Cons: "copy_turns d eof i (x # xs) = TurnTake nz_min (Some x) d"
  by (cases d) (simp add: codec_decode_turns_def decode_turn_def copy_codec_def)

lemma variable_turns_eq:
  "variable_turns e i v room =
    (if room < length (variable_bytes v) then TurnNeedOutput (NZ (length (variable_bytes v) - 1)) else TurnWrite (variable_bytes v) e)"
  by (cases e) (simp add: codec_encode_turns_def variable_turn)

text \<open>The bytes of the value that waits in the converter.\<close>

definition carried :: "('cd, 'hd, 'ce, 'he, u8) convert_engine \<Rightarrow> u8 list" where
  "carried eng = (case cv_slot eng of None \<Rightarrow> [] | Some p \<Rightarrow> variable_bytes (pv_value p))"

lemma convert_stream_expands:
  assumes "convert_stream 1 copy_turns variable_turns eof i eng xs room = (q, n, us, eng')"
  shows "n \<le> length xs \<and> length us \<le> room \<and> carried eng @ expected_variable_output (take n xs) = us @ carried eng' \<and>
    cv_decode_engine eng' = cv_decode_engine eng \<and> cv_encode_engine eng' = cv_encode_engine eng \<and>
    (q = Ok Complete \<and> n = length xs \<and> carried eng' = [] \<or>
     (\<exists>req. q = Ok (NeedOutput req) \<and> room < length us + nz_get req \<and> (2 \<le> room \<longrightarrow> 0 < n \<or> us \<noteq> [])))"
  using assms
proof (induction "2 * length xs + (if cv_slot eng = None then 0 else 1)" arbitrary: i eng xs room q n us rule: less_induct)
  case less
  note stream = less.prems [unfolded convert_stream.simps [of 1 copy_turns variable_turns eof i eng xs room]]
  show ?case
  proof (cases "cv_slot eng")
    case (Some p)
    let ?u = "variable_bytes (pv_value p)" and ?eng = "eng\<lparr>cv_pending := slot_empty\<rparr>"
    have same: "eng\<lparr>cv_encode_engine := cv_encode_engine eng, cv_pending := slot_empty\<rparr> = ?eng" by simp
    show ?thesis
    proof (cases "room < length ?u")
      case True
      with stream Some variable_bytes_length [where v = "pv_value p" and c = "()"] show ?thesis
        by (auto simp: variable_turns_eq)
    next
      case False
      with stream Some same obtain ws where rest: "convert_stream 1 copy_turns variable_turns eof i ?eng xs (room - length ?u) = (q, n, ws, eng')"
        "us = ?u @ ws" by (auto simp: variable_turns_eq split: prod.splits)
      have ne: "?u \<noteq> []" by (simp add: variable_bytes_def)
      have "carried eng = ?u" "carried ?eng = []" "cv_slot ?eng = None" using Some by (simp_all add: carried_def slot_empty_def)
      with less.hyps [OF _ rest(1)] Some rest(2) False ne show ?thesis by auto
    qed
  next
    case None
    show ?thesis
    proof (cases xs)
      case Nil
      with stream None show ?thesis by (auto simp: carried_def)
    next
      case (Cons x ys)
      let ?eng = "eng\<lparr>cv_pending := slot_of i (Some x)\<rparr>"
      have same: "eng\<lparr>cv_decode_engine := cv_decode_engine eng, cv_pending := slot_of i (Some x)\<rparr> = ?eng" by simp
      from stream None Cons same obtain m where rest: "convert_stream 1 copy_turns variable_turns eof (i + 1) ?eng ys room = (q, m, us, eng')"
        "n = Suc m" by (auto simp: copy_turns_Cons split: prod.splits)
      have "carried eng = []" "carried ?eng = variable_bytes x" "cv_slot ?eng \<noteq> None" using None by (simp_all add: carried_def pv_new_def)
      with less.hyps [OF _ rest(1)] None Cons rest(2) show ?thesis by (auto simp: expected_Cons simp del: expected_variable_output.simps)
    qed
  qed
qed

abbreviation variable_converter where
  "variable_converter reserve \<equiv> convert_transcoder (copy_to_variable reserve)"

abbreviation convert_ready :: "(unit, unit, unit, unit, u8) convert_engine \<Rightarrow> bool" where
  "convert_ready s \<equiv> stream_phase (cv_phase s) \<and> stream_phase (ee_phase (cv_encode_engine s)) \<and>
    stream_phase (de_phase (cv_decode_engine s))"

lemma copy_to_variable_sel [simp]:
  "src_codec (copy_to_variable reserve) = copy_codec" "src_hooks (copy_to_variable reserve) = copy_hooks"
  "tgt_codec (copy_to_variable reserve) = variable_codec" "tgt_hooks (copy_to_variable reserve) = strict_encode_hooks"
  "min_units_per_value copy_codec = Suc 0"
  by (simp_all add: copy_to_variable_def copy_codec_def)

lemma convert_call:
  assumes "convert_ready s" "i \<le> length input" "length input \<le> usize_max" "2 \<le> length out" "length out \<le> usize_max"
    and "cv_transcode_with_eof (copy_to_variable reserve) s input i out 0 eof = (r, s', out')"
  shows "\<exists>p. r = Ok p \<and> convert_ready s' \<and> length out' = length out \<and>
    valid_progress p i (length input - i) 0 (length out) \<and> \<not> is_need_input p \<and>
    carried s @ expected_variable_output (take (tp_read p) (drop i input)) = take (tp_written p) out' @ carried s' \<and>
    (is_complete p \<longrightarrow> carried s' = []) \<and> (is_need_output p \<longrightarrow> 0 < tp_read p \<or> 0 < tp_written p)"
proof -
  obtain q n us e where spec: "convert_stream (Suc 0) copy_turns variable_turns eof i (cv_opened s) (drop i input)
      (length out - 0) = (q, n, us, e)" by (metis prod_cases4)
  have "any_state (de_codec (cv_decode_engine s)) \<and> any_state (ee_codec (cv_encode_engine s))" by (simp add: any_state_def)
  from copy_variable.call_refines [OF this _ assms(2) le0, unfolded copy_to_variable_sel, OF _ spec assms(6)] assms(1)
  have ref: "r = map_ok (\<lambda>st. progress_new st n (length us)) q" "s' = e" "cv_phase s' = Streaming" "length out' = length out"
    "take (0 + length us) out' = take 0 out @ us" by blast+
  have "carried (cv_opened s) = carried s" by (simp add: carried_def)
  with convert_stream_expands [OF spec [folded One_nat_def]] have st: "n \<le> length input - i" "length us \<le> length out"
    "carried s @ expected_variable_output (take n (drop i input)) = us @ carried e"
    "cv_decode_engine e = cv_decode_engine s" "cv_encode_engine e = cv_encode_engine s"
    "q = Ok Complete \<and> n = length input - i \<and> carried e = [] \<or>
     (\<exists>req. q = Ok (NeedOutput req) \<and> length out < length us + nz_get req \<and> (2 \<le> length out \<longrightarrow> 0 < n \<or> us \<noteq> []))" by simp_all
  from st(6) show ?thesis
  proof (elim conjE disjE exE)
    assume "q = Ok Complete" "n = length input - i" "carried e = []"
    with ref st(1-5) assms(1-3,5) show ?thesis by (auto simp: stream_phase_def valid_progress_def progress_defs)
  next
    fix req assume "q = Ok (NeedOutput req)" "length out < length us + nz_get req" "2 \<le> length out \<longrightarrow> 0 < n \<or> us \<noteq> []"
    with ref st(1-5) assms(1-5) show ?thesis by (auto simp: stream_phase_def valid_progress_def progress_defs)
  qed
qed

lemma convert_bounds:
  "cv_max_reset_output_len (copy_to_variable reserve) s = Ok 0"
  "carried s = [] \<Longrightarrow> cv_current_finish_output_len (copy_to_variable reserve) s = Ok 0"
  "de_max_finish_output_len copy_codec copy_hooks d = Ok 0"
  by (simp_all add: cv_max_reset_output_len_def cv_current_finish_output_len_def cv_finish_output_len_def
      slot_current_output_len_def de_max_finish_output_len_def ee_max_finish_output_len_def ee_max_transcode_output_len_def
      copy_hooks_def strict_encode_hooks_def copy_codec_def variable_codec_def codec_default_defs hook_default_defs
      default_eh_max_transcode_def add_convert_output_bounds_def sum_convert_output_bounds_def add_decode_output_bounds_def
      checked_add_def checked_mul_def carried_def variable_bytes_def usize_max_def split: option.splits if_splits)

lemma convert_reset:
  assumes "length out \<le> usize_max"
  shows "\<exists>s'. cv_reset (copy_to_variable reserve) s out 0 = (Ok 0, s', out) \<and> convert_ready s' \<and> carried s' = []"
proof -
  obtain e where e: "ee_reset variable_codec strict_encode_hooks (cv_encode_engine s) out 0 = (Ok 0, e, out)" "stream_phase (ee_phase e)"
    using variable_run.reset_law [OF assms, of "cv_encode_engine s"] by (auto simp: encode_transcoder_def)
  obtain d where d: "de_reset copy_codec copy_hooks (cv_decode_engine s) [] 0 = (Ok 0, d, [])" "stream_phase (de_phase d)"
    using copy_engine.reset_law [of "[]" "cv_decode_engine s"] by (auto simp: decode_transcoder_def)
  have "max_decode_reset_values copy_codec = 0" by (simp add: copy_codec_def codec_default_defs)
  with e d assms show ?thesis
    by (simp add: cv_reset_def convert_bounds cv_encoder_call_def cv_drain_decoder_reset_def carried_def stream_phase_def
        guard_defs slot_defs cs_defs ts_defs Let_def)
qed

lemma convert_finish:
  assumes "convert_ready s" "carried s = []" "length out \<le> usize_max"
  shows "\<exists>s'. cv_finish (copy_to_variable reserve) s out 0 = (Ok 0, s', out)"
proof -
  obtain e where e: "ee_finish variable_codec strict_encode_hooks (cv_encode_engine s) out 0 = (Ok 0, e, out)"
    using variable_run.finish_law [of "cv_encode_engine s" out] assms(1,3) by (auto simp: encode_transcoder_def)
  obtain d where d: "de_finish copy_codec copy_hooks (cv_decode_engine s) [] 0 = (Ok 0, d, [])"
    using copy_engine.finish_law [of "cv_decode_engine s" "[]"] assms(1) by (auto simp: decode_transcoder_def)
  have "on_finish_attempt (cv_lifecycle s) = Ok ()"
    using assms(1) by (cases "cv_lifecycle s") (auto simp: stream_phase_def on_finish_attempt.simps)
  moreover have "cv_slot s = None" using assms(2) by (auto simp: carried_def variable_bytes_def split: option.splits if_splits)
  ultimately show ?thesis using e d assms(3)
    by (simp add: cv_finish_def convert_bounds assms(2) cv_encoder_call_def cv_drain_decoder_finish_def cv_drain_pending_def
        guard_defs slot_defs cs_defs ts_defs Let_def)
qed

interpretation convert_run: windowed "variable_converter reserve" convert_ready carried expected_variable_output 2
  for reserve
proof (unfold_locales, goal_cases)
  case (2 s call i input out r s' out')
  have "\<exists>eof. \<forall>s input i out j. call s input i out j = cv_transcode_with_eof (copy_to_variable reserve) s input i out j eof"
    using 2(2) by (auto simp: convert_transcoder_def cv_transcode_def cv_transcode_eof_def)
  then obtain eof where "\<And>s input i out j. call s input i out j = cv_transcode_with_eof (copy_to_variable reserve) s input i out j eof" by blast
  with 2(7) have "cv_transcode_with_eof (copy_to_variable reserve) s input i out 0 eof = (r, s', out')" by simp
  from convert_call [OF 2(1,3-6) this] show ?case .
next
  case (3 out s)
  then show ?case using convert_reset by (simp add: convert_transcoder_def)
next
  case (4 s out)
  then show ?case using convert_finish by (simp add: convert_transcoder_def)
qed (rule expected_append)

end
