(* ===== verification/BenchMain.thy ===== *)
theory BenchMain
  imports BenchRuns
begin

text \<open>
  The benchmark \<open>benches/transcode.rs\<close> as a function: its checks, and its timed closures run as often
  as \<open>iterations\<close> says (criterion decides that). Measurement settings and \<open>black_box\<close> have no
  effect on the results and are left out. The benchmark never panics.
\<close>

section \<open>Running\<close>

text \<open>One part after another; a closure run repeatedly on its own state.\<close>

definition in_turn :: "(unit, unit) res option \<Rightarrow> (unit, unit) res option \<Rightarrow> (unit, unit) res option" where
  "in_turn first second = (case first of Some (Ok _) \<Rightarrow> second | r \<Rightarrow> r)"

fun timed :: "nat \<Rightarrow> ('s \<Rightarrow> (('e, 'r) res \<times> 's) option) \<Rightarrow> 's \<Rightarrow> (unit, unit) res option" where
  "timed 0 routine s = Some (Ok ())"
| "timed (Suc n) routine s =
    (case routine s of
       Some (Ok _, s) \<Rightarrow> timed n routine s
     | Some _ \<Rightarrow> Some Panic
     | None \<Rightarrow> None)"

text \<open>A call that has to succeed, on a reused output.\<close>

definition expect_transcode ::
  "('s, 'i, 'o, 'e) transcoder \<Rightarrow> 'i list \<Rightarrow> 's \<times> 'o list \<Rightarrow> ((unit, unit) res \<times> 's \<times> 'o list) option" where
  "expect_transcode T input = (\<lambda>(s, output).
    case tr_transcode T s input 0 output 0 of
      (Ok p, s, output) \<Rightarrow> Some (if tp_written p \<le> length output then Ok () else Panic, s, output)
    | (_, s, output) \<Rightarrow> Some (Panic, s, output))"

definition expect_reset :: "('s, 'i, 'o, 'e) transcoder \<Rightarrow> (unit, 's) res \<Rightarrow> ('s \<Rightarrow> (unit, unit) res option) \<Rightarrow> (unit, unit) res option" where
  "expect_reset T made body =
    (case made of
       Ok s \<Rightarrow> (case tr_reset T s [] 0 of (Ok _, s, _) \<Rightarrow> body s | _ \<Rightarrow> Some Panic)
     | _ \<Rightarrow> Some Panic)"

section \<open>The copying benchmarks\<close>

definition bench_complete_paths :: "nat \<Rightarrow> u8 list \<Rightarrow> (unit, unit) res option" where
  "bench_complete_paths iterations input =
    (let zeros = replicate (length input) 0 in
     case tr_transcode copy_transcoder () input 0 zeros 0 of
       (Ok direct, s, direct_probe) \<Rightarrow>
         if \<not> (is_complete direct \<and> input = take (tp_written direct) direct_probe) then Some Panic
         else in_turn (timed iterations (expect_transcode copy_transcoder input) (s, zeros))
           (case transcode_complete_into copy_transcoder s input zeros of
              (Ok complete_written, s, complete_probe) \<Rightarrow>
                if \<not> (length input = complete_written \<and> input = take complete_written complete_probe) then Some Panic
                else timed iterations (\<lambda>(s, output). Some (transcode_complete_into copy_transcoder s input output)) (s, zeros)
            | _ \<Rightarrow> Some Panic)
     | _ \<Rightarrow> Some Panic)"

definition bench_decode_engine :: "nat \<Rightarrow> u8 list \<Rightarrow> (unit, unit) res option" where
  "bench_decode_engine iterations input =
    (let T = decode_transcoder copy_codec copy_hooks in
     expect_reset T (de_new copy_codec () ()) (\<lambda>decoder.
       timed iterations (expect_transcode T input) (decoder, replicate (length input) 0)))"

fun copy_safe_exact :: "'x list \<Rightarrow> 'x list \<Rightarrow> 'x list" where
  "copy_safe_exact (source # sources) (destination # destinations) = source # copy_safe_exact sources destinations"
| "copy_safe_exact [] output = output"
| "copy_safe_exact (source # sources) [] = []"

definition bench_codec_adapter :: "nat \<Rightarrow> u8 list \<Rightarrow> (unit, unit) res option" where
  "bench_codec_adapter iterations input =
    (let T = codec_transcode_decoder copy_codec; zeros = replicate (length input) 0 in
     expect_reset T (decoder_new copy_codec ()) (\<lambda>decoder.
       in_turn (timed iterations (expect_transcode T input) (decoder, zeros))
         (timed iterations (\<lambda>output. Some (Ok () :: (unit, unit) res, copy_safe_exact input output)) zeros)))"

text \<open>The two benchmarks over output windows; the timed closure of the first is the loop that
  \<open>run_output_windows\<close> has.\<close>

definition bench_windows :: "('s, u8, u8, 'e) transcoder \<Rightarrow> nat \<Rightarrow> u8 list \<Rightarrow> nat \<Rightarrow> 's \<Rightarrow> (unit, unit) res option" where
  "bench_windows T iterations input window s =
    (case verify_output_windows T s input window of
       (Ok _, s) \<Rightarrow> timed iterations (\<lambda>(s, output). run_output_windows T s input output) (s, replicate window 0)
     | _ \<Rightarrow> Some Panic)"

definition bench_streaming_windows :: "nat \<Rightarrow> u8 list \<Rightarrow> (unit, unit) res option" where
  "bench_streaming_windows iterations input =
    in_turn (bench_windows copy_transcoder iterations input 32 ()) (bench_windows copy_transcoder iterations input 1024 ())"

definition bench_production_windows :: "nat \<Rightarrow> u8 list \<Rightarrow> nat \<Rightarrow> (unit, unit) res option" where
  "bench_production_windows iterations input window =
    (let T = decode_transcoder copy_codec copy_hooks; A = codec_transcode_decoder copy_codec in
     in_turn (expect_reset T (de_new copy_codec () ()) (bench_windows T iterations input window))
       (expect_reset A (decoder_new copy_codec ()) (bench_windows A iterations input window)))"

definition bench_production_streaming_windows :: "nat \<Rightarrow> u8 list \<Rightarrow> (unit, unit) res option" where
  "bench_production_streaming_windows iterations input =
    in_turn (bench_production_windows iterations input 32) (bench_production_windows iterations input 1024)"

section \<open>The variable-width benchmarks\<close>

definition bench_variable_engine ::
  "('s, 'i, 'o :: zero, 'e) transcoder \<Rightarrow> (unit, 's) res \<Rightarrow> nat \<Rightarrow> 'i list \<Rightarrow> 'o list \<Rightarrow> nat \<Rightarrow> (unit, unit) res option" where
  "bench_variable_engine T made iterations input expected window =
    (case made of
       Ok engine \<Rightarrow>
         in_turn (verify_variable_windows T engine input expected window)
           (expect_reset T made (\<lambda>engine.
             timed iterations (\<lambda>(s, output). run_engine_windows T s input output) (engine, replicate window 0)))
     | _ \<Rightarrow> Some Panic)"

text \<open>A converter that has to keep a value for the next call.\<close>

definition bench_pending :: "(nat \<Rightarrow> bool) \<Rightarrow> (unit, unit) res option" where
  "bench_pending reserve =
    (let K = copy_to_variable reserve; T = convert_transcoder K in
     expect_reset T (cv_new K () () () ()) (\<lambda>pending.
       case cv_transcode K pending [128] 0 [0] 0 of
         (Ok p, pending, _) \<Rightarrow>
           if \<not> (is_need_output p \<and> (tp_read p, tp_written p) = (1, 0)) then Some Panic
           else
             (case cv_transcode K pending [128] 1 [0, 0] 0 of
                (Ok p, _, drained) \<Rightarrow>
                  Some (if is_complete p \<and> (tp_read p, tp_written p) = (0, 2) \<and> drained = [0xff, 128] then Ok () else Panic)
              | _ \<Rightarrow> Some Panic)
       | _ \<Rightarrow> Some Panic))"

fun bench_variable_window :: "(nat \<Rightarrow> bool) \<Rightarrow> nat \<Rightarrow> u8 list \<Rightarrow> u8 list \<Rightarrow> nat list \<Rightarrow> (unit, unit) res option" where
  "bench_variable_window reserve iterations input expected [] = Some (Ok ())"
| "bench_variable_window reserve iterations input expected (window # windows) =
    in_turn (bench_variable_engine (encode_transcoder variable_codec strict_encode_hooks) (ee_new variable_codec () ())
        iterations input expected window)
      (in_turn (bench_variable_engine (convert_transcoder (copy_to_variable reserve)) (cv_new (copy_to_variable reserve) () () () ())
          iterations input expected window)
        (bench_variable_window reserve iterations input expected windows))"

definition bench_variable_paths :: "(nat \<Rightarrow> bool) \<Rightarrow> nat \<Rightarrow> u8 list \<Rightarrow> (unit, unit) res option" where
  "bench_variable_paths reserve iterations input =
    (let expected = expected_variable_output input in
     if length expected \<noteq> 98304 then Some Panic
     else in_turn (bench_pending reserve)
       (bench_variable_window reserve iterations input expected [length expected, 2, 32, 1024]))"

section \<open>Indexing\<close>

fun copy_safe_loop :: "nat list \<Rightarrow> u8 list \<Rightarrow> u8 list \<Rightarrow> (unit, u8 list) res" where
  "copy_safe_loop [] input output = Ok output"
| "copy_safe_loop (i # is) input output =
    bind_res (slice_get input i) (\<lambda>x. if i < length output then copy_safe_loop is input (output[i := x + 1]) else Panic)"

definition copy_safe :: "u8 list \<Rightarrow> u8 list \<Rightarrow> (unit, u8 list) res" where
  "copy_safe input output = copy_safe_loop [0..<length input] input output"

text \<open>Unchecked accesses; the caller guarantees equal lengths.\<close>

definition copy_unchecked :: "u8 list \<Rightarrow> u8 list \<Rightarrow> u8 list" where
  "copy_unchecked input output = fold (\<lambda>i output. output[i := input ! i + 1]) [0..<length input] output"

definition bench_safe_vs_unchecked :: "nat \<Rightarrow> u8 list \<Rightarrow> (unit, unit) res option" where
  "bench_safe_vs_unchecked iterations input =
    (let zeros = replicate (length input) 0 in
     in_turn (timed iterations (\<lambda>output. case copy_safe input output of
           Ok output \<Rightarrow> Some (Ok () :: (unit, unit) res, output) | _ \<Rightarrow> Some (Panic, output)) zeros)
       (if length input \<noteq> length zeros then Some Panic
        else timed iterations (\<lambda>output. Some (Ok () :: (unit, unit) res, copy_unchecked input output)) zeros))"

section \<open>The benchmark\<close>

definition bench_fixture :: "nat \<Rightarrow> u8 list" where
  "bench_fixture n = map word_of_nat [0..<n]"

definition bench_transcoder :: "(nat \<Rightarrow> bool) \<Rightarrow> nat \<Rightarrow> (unit, unit) res option" where
  "bench_transcoder reserve iterations =
    (let input = bench_fixture (64 * 1024) in
     in_turn (bench_complete_paths iterations input)
       (in_turn (bench_decode_engine iterations input)
       (in_turn (bench_codec_adapter iterations input)
       (in_turn (bench_streaming_windows iterations input)
       (in_turn (bench_production_streaming_windows iterations input)
       (in_turn (bench_safe_vs_unchecked iterations input)
         (bench_variable_paths reserve iterations input)))))))"

section \<open>It passes\<close>

lemma timed_ok:
  assumes "\<And>s. P s \<Longrightarrow> \<exists>x s'. routine s = Some (Ok x, s') \<and> P s'" "P s"
  shows "timed n routine s = Some (Ok ())"
  using assms(2)
proof (induction n arbitrary: s)
  case (Suc n)
  from assms(1) [OF Suc.prems] Suc.IH show ?case by auto
qed simp

lemma in_turn_Ok [simp]: "in_turn (Some (Ok x)) second = second"
  by (simp add: in_turn_def)

context windowed
begin

lemma reset_then:
  assumes "\<And>s. ready s \<Longrightarrow> carry s = [] \<Longrightarrow> body s = Some (Ok ())"
  shows "expect_reset T (Ok s) body = Some (Ok ())"
  using assms reset_law [of "[]" s] by (auto simp: expect_reset_def)

lemma timed_transcode:
  assumes "ready s" "length input \<le> usize_max" "least \<le> length out" "length out \<le> usize_max"
  shows "timed n (expect_transcode T input) (s, out) = Some (Ok ())"
proof (rule timed_ok [where P = "\<lambda>(s, buf). ready s \<and> length buf = length out"])
  fix st :: "'s \<times> 'o list" assume "case st of (s, buf) \<Rightarrow> ready s \<and> length buf = length out"
  then obtain s buf where st: "st = (s, buf)" "ready s" "length buf = length out" by (cases st) auto
  then have "least \<le> length buf" "length buf \<le> usize_max" using assms(3,4) by simp_all
  then obtain p s' buf' where "tr_transcode T s input 0 buf 0 = (Ok p, s', buf')" "ready s'" "length buf' = length buf" "tp_written p \<le> length buf"
    by (rule call_step [OF st(2) disjI1 [OF refl] le0 assms(2)])
  with st show "\<exists>x s'. expect_transcode T input st = Some (Ok x, s') \<and> (case s' of (s, buf) \<Rightarrow> ready s \<and> length buf = length out)"
    by (simp add: expect_transcode_def)
qed (use assms(1) in simp)

lemma timed_engine:
  assumes "ready s" "carry s = []" "length input \<le> usize_max" "least \<le> length out" "length out \<le> usize_max"
  shows "timed n (\<lambda>(s, output). run_engine_windows T s input output) (s, out) = Some (Ok ())"
proof (rule timed_ok [where P = "\<lambda>(s, buf). ready s \<and> carry s = [] \<and> length buf = length out"], clarify)
  fix s buf assume "ready s" "carry s = []" "length (buf :: 'o list) = length out"
  then show "\<exists>x s'. run_engine_windows T s input buf = Some (Ok x, s') \<and> (case s' of (s, buf) \<Rightarrow> ready s \<and> carry s = [] \<and> length buf = length out)"
    using run_engine_windows_counts [of input s buf] assms(3-5) by auto
qed (use assms in simp)

lemma variable_engine_passes:
  assumes "length input \<le> usize_max" "least \<le> window" "window \<le> usize_max"
  shows "bench_variable_engine T (Ok s) n input (expand input) window = Some (Ok ())"
proof -
  have "expect_reset T (Ok s) (\<lambda>engine. timed n (\<lambda>(s, output). run_engine_windows T s input output) (engine, replicate window 0)) = Some (Ok ())"
    using assms by (intro reset_then timed_engine) simp_all
  with verify_variable_passes [OF assms, of s] show ?thesis by (simp add: bench_variable_engine_def)
qed

end

context copying
begin

lemma timed_output:
  assumes "ready s" "length input \<le> usize_max" "1 \<le> length out" "length out \<le> usize_max"
  shows "timed n (\<lambda>(s, output). run_output_windows T s input output) (s, out) = Some (Ok ())"
proof (rule timed_ok [where P = "\<lambda>(s, buf). ready s \<and> length buf = length out"], clarify)
  fix s buf assume "ready s" "length (buf :: 'u list) = length out"
  then show "\<exists>x s'. run_output_windows T s input buf = Some (Ok x, s') \<and> (case s' of (s, buf) \<Rightarrow> ready s \<and> length buf = length out)"
    using run_output_counts [OF assms(2), of s 0 buf 0] assms(3,4) by (auto simp: run_output_windows_def)
qed (use assms in simp)

end

text \<open>The windows of the benchmark are over bytes.\<close>

lemma bench_windows_pass:
  assumes "copying T ready" "ready s" "length input \<le> usize_max" "1 \<le> window" "window \<le> usize_max"
  shows "bench_windows T n input window s = Some (Ok ())"
proof -
  obtain s' where s': "verify_output_windows T s input window = (Ok (), s')" "ready s'"
    using copying.verify_output_passes [OF assms] by blast
  then show ?thesis
    using copying.timed_output [OF assms(1) s'(2) assms(3), of "replicate window 0"] assms(4,5) by (simp add: bench_windows_def)
qed

lemma copy_complete_into:
  assumes "length out = length input" "length input \<le> usize_max"
  shows "transcode_complete_into copy_transcoder s input out = (Ok (length input), s, input)"
proof -
  let ?n = "length input" and ?p = "progress_complete (length input) (length input)"
  have cap: "ensure_output_capacity ?n 0 ?n = Ok ()" using ensure_output_capacity_Ok [of ?n 0 ?n "()"] assms(2) by simp
  have add: "checked_add 0 ?n = Some ?n" "checked_add ?n 0 = Some ?n" using assms(2) by (simp_all add: checked_add_def)
  have pre: "complete_preflight copy_transcoder s ?n ?n = Ok (0, 0)"
    using assms(2) cap add by (simp add: complete_preflight_def copy_transcoder_def default_max_output_len_def sum_output_bounds_def add_output_bounds_def)
  have run: "copy_transcode s input 0 out 0 = (Ok ?p, s, input)" using assms(1) by (simp add: copy_transcode_def splice_at_def Let_def)
  have v: "valid_progress ?p 0 ?n 0 (length out)" using assms by (simp add: valid_progress_def progress_defs)
  have "validate ?p 0 ?n 0 ?n = Ok ()" using v assms(1) by (simp add: validate_Ok_iff)
  then have wr: "complete_progress_written ?p ?n 0 ?n = Ok ?n"
    by (simp add: complete_progress_written_def saturating_sub_def progress_defs)
  have "default_transcode_eof DecodeFailed copy_transcode s input 0 out 0 = (Ok ?p, s, input)"
    by (rule default_eof_of_valid [where f = copy_transcode and i = 0, OF run]) (use assms v in \<open>simp_all add: progress_defs\<close>)
  with pre wr add assms(1) show ?thesis
    by (simp add: transcode_complete_into_def copy_transcoder_def Let_def)
qed

lemma made_Ok:
  "\<exists>s. de_new copy_codec () () = Ok s" "\<exists>s. decoder_new copy_codec () = Ok s" "\<exists>s. ee_new variable_codec () () = Ok s"
  "\<exists>s. cv_new (copy_to_variable reserve) () () () () = Ok s"
  by (simp_all add: de_new_def decoder_new_def ee_new_def cv_new_def assert_unit_bounds_def unit_bounds_def copy_codec_def
      variable_codec_def copy_to_variable_def)

text \<open>The copying part, on every input that is not empty.\<close>

lemma bench_complete_paths_pass:
  assumes "length input \<le> usize_max" "1 \<le> length input"
  shows "bench_complete_paths n input = Some (Ok ())"
proof -
  let ?zeros = "replicate (length input) 0"
  have "tr_transcode copy_transcoder () input 0 ?zeros 0 = (Ok (progress_complete (length input) (length input)), (), input)"
    by (simp add: copy_transcoder_def copy_transcode_def splice_at_def Let_def)
  moreover have "timed n (expect_transcode copy_transcoder input) ((), ?zeros) = Some (Ok ())"
    using assms by (intro copy_run.timed_transcode) simp_all
  moreover have "timed n (\<lambda>(s, output). Some (transcode_complete_into copy_transcoder s input output)) ((), ?zeros) = Some (Ok ())"
    by (rule timed_ok [where P = "\<lambda>(s, buf). length buf = length input"]) (auto simp: copy_complete_into assms(1))
  ultimately show ?thesis
    using copy_complete_into [of ?zeros input "()"] assms(1) by (simp add: bench_complete_paths_def progress_defs Let_def)
qed

lemma bench_decode_engine_pass:
  assumes "length input \<le> usize_max" "1 \<le> length input"
  shows "bench_decode_engine n input = Some (Ok ())"
proof -
  obtain s where "de_new copy_codec () () = (Ok s :: (unit, (unit, unit) decode_engine) res)" using made_Ok(1) by blast
  moreover have "expect_reset (decode_transcoder copy_codec copy_hooks) (Ok s)
      (\<lambda>d. timed n (expect_transcode (decode_transcoder copy_codec copy_hooks) input) (d, replicate (length input) 0)) = Some (Ok ())"
    using assms by (intro copy_engine.reset_then copy_engine.timed_transcode) simp_all
  ultimately show ?thesis by (simp add: bench_decode_engine_def Let_def)
qed

lemma bench_codec_adapter_pass:
  assumes "length input \<le> usize_max" "1 \<le> length input"
  shows "bench_codec_adapter n input = Some (Ok ())"
proof -
  let ?T = "codec_transcode_decoder copy_codec" and ?zeros = "replicate (length input) 0"
  obtain s where s: "decoder_new copy_codec () = (Ok s :: (unit, unit codec_transcode_decoder) res)" using made_Ok(2) by blast
  have "timed n (expect_transcode ?T input) (d, ?zeros) = Some (Ok ())" if "stream_phase (de_phase (decoder_engine d))" for d
    using assms that by (intro copy_adapter.timed_transcode) simp_all
  moreover have "timed n (\<lambda>output. Some (Ok () :: (unit, unit) res, copy_safe_exact input output)) ?zeros = Some (Ok ())"
    by (rule timed_ok [where P = "\<lambda>_. True"]) simp_all
  ultimately have "expect_reset ?T (Ok s) (\<lambda>d. in_turn (timed n (expect_transcode ?T input) (d, ?zeros))
      (timed n (\<lambda>output. Some (Ok () :: (unit, unit) res, copy_safe_exact input output)) ?zeros)) = Some (Ok ())"
    by (intro copy_adapter.reset_then) simp
  with s show ?thesis by (simp add: bench_codec_adapter_def Let_def)
qed

lemma bench_production_windows_pass:
  assumes "length input \<le> usize_max" "1 \<le> window" "window \<le> usize_max"
  shows "bench_production_windows n input window = Some (Ok ())"
proof -
  obtain s t where new: "de_new copy_codec () () = (Ok s :: (unit, (unit, unit) decode_engine) res)"
    "decoder_new copy_codec () = (Ok t :: (unit, unit codec_transcode_decoder) res)" using made_Ok(1,2) by metis
  have "expect_reset (decode_transcoder copy_codec copy_hooks) (Ok s) (bench_windows (decode_transcoder copy_codec copy_hooks) n input window) = Some (Ok ())"
    using assms by (intro copy_engine.reset_then bench_windows_pass [OF copy_engine.copying_axioms])
  moreover have "expect_reset (codec_transcode_decoder copy_codec) (Ok t) (bench_windows (codec_transcode_decoder copy_codec) n input window) = Some (Ok ())"
    using assms by (intro copy_adapter.reset_then bench_windows_pass [OF copy_adapter.copying_axioms])
  ultimately show ?thesis using new by (simp add: bench_production_windows_def Let_def)
qed

lemma bench_windows_small: "(32 :: nat) \<le> usize_max" "(1024 :: nat) \<le> usize_max" "(2 :: nat) \<le> usize_max"
  by (simp_all add: usize_max_def)

lemma bench_streams_pass:
  assumes "length input \<le> usize_max"
  shows "bench_streaming_windows n input = Some (Ok ())" "bench_production_streaming_windows n input = Some (Ok ())"
  using assms bench_windows_small
  by (simp_all add: bench_streaming_windows_def bench_production_streaming_windows_def bench_production_windows_pass
      bench_windows_pass [OF copy_run.copying_axioms])

text \<open>Indexing with and without checks.\<close>

lemma copy_safe_loop_fold:
  assumes "\<forall>i \<in> set is. i < length input" "length buf = length input"
  shows "copy_safe_loop is input buf = Ok (fold (\<lambda>i buf. buf[i := input ! i + 1]) is buf)"
  using assms by (induction "is" arbitrary: buf) (auto simp: slice_get_def)

lemma fold_update_upto:
  "n \<le> length input \<Longrightarrow> length buf = length input \<Longrightarrow>
    fold (\<lambda>i buf. buf[i := input ! i + 1]) [0..<n] buf = map (\<lambda>x. x + 1) (take n input) @ drop n buf"
proof (induction n)
  case (Suc n)
  then have "drop n buf = buf ! n # drop (Suc n) buf" by (simp add: Cons_nth_drop_Suc)
  with Suc show ?case by (simp add: take_Suc_conv_app_nth list_update_append)
qed simp

lemma copy_safe_is_unchecked:
  assumes "length buf = length input"
  shows "copy_safe input buf = Ok (copy_unchecked input buf)" "copy_unchecked input buf = map (\<lambda>x. x + 1) input"
  using copy_safe_loop_fold [of "[0..<length input]" input buf] fold_update_upto [of "length input" input buf] assms
  by (simp_all add: copy_safe_def copy_unchecked_def)

lemma bench_safe_vs_unchecked_pass: "bench_safe_vs_unchecked n input = Some (Ok ())"
proof -
  let ?zeros = "replicate (length input) 0"
  have "timed n (\<lambda>output. case copy_safe input output of Ok output \<Rightarrow> Some (Ok () :: (unit, unit) res, output) | _ \<Rightarrow> Some (Panic, output)) ?zeros
      = Some (Ok ())"
    by (rule timed_ok [where P = "\<lambda>output. length output = length input"]) (simp_all add: copy_safe_is_unchecked)
  moreover have "timed n (\<lambda>output. Some (Ok () :: (unit, unit) res, copy_unchecked input output)) ?zeros = Some (Ok ())"
    by (rule timed_ok [where P = "\<lambda>_. True"]) simp_all
  ultimately show ?thesis by (simp add: bench_safe_vs_unchecked_def Let_def)
qed

text \<open>The variable-width part.\<close>

lemma bench_pending_pass: "bench_pending reserve = Some (Ok ())"
  by code_simp

lemma bench_variable_window_pass:
  assumes "length input \<le> usize_max" "\<forall>window \<in> set windows. 2 \<le> window \<and> window \<le> usize_max"
  shows "bench_variable_window reserve n input (expected_variable_output input) windows = Some (Ok ())"
  using assms(2)
proof (induction windows)
  case (Cons window windows)
  obtain e c where "ee_new variable_codec () () = (Ok e :: (unit, (unit, unit) encode_engine) res)"
    "cv_new (copy_to_variable reserve) () () () () = (Ok c :: (unit, (unit, unit, unit, unit, u8) convert_engine) res)"
    using made_Ok(3,4) by metis
  with Cons variable_run.variable_engine_passes [OF assms(1), of window e n]
    convert_run.variable_engine_passes [OF assms(1), of window reserve c n]
  show ?case by simp
qed simp

lemma bench_variable_paths_pass:
  assumes "length input \<le> usize_max" "length (expected_variable_output input) = 98304"
  shows "bench_variable_paths reserve n input = Some (Ok ())"
proof -
  have "(98304 :: nat) \<le> usize_max" by (simp add: usize_max_def)
  then show ?thesis
    using assms bench_windows_small bench_variable_window_pass [OF assms(1), of "[98304, 2, 32, 1024]" reserve n]
    by (simp add: bench_variable_paths_def bench_pending_pass Let_def)
qed

text \<open>The fixture: every byte value equally often.\<close>

lemma expected_length: "length (expected_variable_output xs) = length xs + length (filter (\<lambda>v. 128 \<le> v) xs)"
  by (induction xs) auto

lemma bench_block: "length (filter (\<lambda>v. 128 \<le> v) (bench_fixture 256)) = 128"
proof -
  have split: "[0..<256] = [0..<128] @ [128..<256]" using upt_add_eq_append [OF le0, of 128 128] by simp
  have "128 \<le> (word_of_nat i :: u8) \<longleftrightarrow> 128 \<le> i" if "i < 256" for i
    using that by (simp add: word_le_nat_alt unat_of_nat)
  then have "filter (\<lambda>i. 128 \<le> (word_of_nat i :: u8)) [0..<256] = filter (\<lambda>i. 128 \<le> i) [0..<256]"
    by (intro filter_cong) (simp_all del: upt_rec_numeral)
  then have "filter (\<lambda>v. 128 \<le> v) (bench_fixture 256) = map word_of_nat (filter (\<lambda>i. 128 \<le> i) [0..<256])"
    by (simp add: bench_fixture_def filter_map comp_def del: upt_rec_numeral)
  then show ?thesis by (simp add: split filter_empty_conv del: upt_rec_numeral)
qed

lemma bench_fixture_blocks: "length (filter (\<lambda>v. 128 \<le> v) (bench_fixture (256 * k))) = 128 * k"
proof (induction k)
  case (Suc k)
  have "[0..<256 * k + 256] = [0..<256 * k] @ map (\<lambda>i. i + 256 * k) [0..<256]"
    by (metis upt_add_eq_append le0 map_add_upt add.commute)
  moreover have "word_of_nat (i + 256 * k) = (word_of_nat i :: u8)" for i
    unfolding word_of_nat_eq_iff take_bit_eq_mod by simp
  ultimately have "bench_fixture (256 * k + 256) = bench_fixture (256 * k) @ bench_fixture 256"
    by (simp only: bench_fixture_def map_append map_map comp_def)
  with Suc bench_block show ?case by (simp only: mult_Suc_right add.commute [of 256] filter_append length_append)
qed (simp add: bench_fixture_def)

text \<open>C39. No check of the benchmark fails, none of its \<open>expect\<close> calls panics and each of its loops
  returns, however often criterion repeats the timed closures and whatever the converter's
  reservations answer. The decode engine, the adapter, the encode engine and the convert engine deliver
  what the plain loops compute, in windows of 2, 32 and 1024 bytes and in one piece, with valid reports.\<close>

theorem bench_transcoder_passes: "bench_transcoder reserve iterations = Some (Ok ())"
proof -
  let ?input = "bench_fixture 65536"
  have len: "length ?input = 65536" "length ?input \<le> usize_max" "1 \<le> length ?input" by (simp_all add: bench_fixture_def usize_max_def)
  moreover have "length (expected_variable_output ?input) = 98304"
    using bench_fixture_blocks [of 256] by (simp add: expected_length len(1))
  ultimately show ?thesis
    by (simp add: bench_transcoder_def bench_complete_paths_pass bench_decode_engine_pass bench_codec_adapter_pass
        bench_streams_pass bench_safe_vs_unchecked_pass bench_variable_paths_pass Let_def)
qed

end
