(* ===== verification/JsonCodecs.thy ===== *)
theory JsonCodecs
  imports Descriptor
begin

text \<open>
  The JSON codecs of \<open>src/value/json_*\<close> and their registration. \<open>serde_json\<close> is not part of the
  repository: the functions the codecs call are the record \<open>serde_json\<close>, a parameter, and nothing is
  assumed of them. The registration macros (\<open>value_codec_registration_macros.rs\<close>) check the identifier
  when the program is compiled, which is a \<open>Panic\<close> here, and produce a factory; the list of the
  factories that are linked is what the \<open>inventory\<close> crate hands to the registry.
\<close>

section \<open>Encoders and decoders\<close>

record ('v, 'e) serde_json =
  sj_to_vec :: "'v \<Rightarrow> ('e, u8 list) res"
  sj_from_slice :: "u8 list \<Rightarrow> ('e, 'v) res"
  sj_to_string :: "'v \<Rightarrow> ('e, str) res"
  sj_from_str :: "str \<Rightarrow> ('e, 'v) res"

text \<open>The four types carry no data.\<close>

definition json_bytes_encode :: "('v, 'e) serde_json \<Rightarrow> unit \<Rightarrow> 'v \<Rightarrow> ('e, u8 list) res \<times> unit" where
  "json_bytes_encode J c input = (sj_to_vec J input, c)"

definition json_bytes_decode :: "('v, 'e) serde_json \<Rightarrow> unit \<Rightarrow> u8 list \<Rightarrow> ('e, 'v) res \<times> unit" where
  "json_bytes_decode J c input = (sj_from_slice J input, c)"

definition json_string_encode :: "('v, 'e) serde_json \<Rightarrow> unit \<Rightarrow> 'v \<Rightarrow> ('e, str) res \<times> unit" where
  "json_string_encode J c input = (sj_to_string J input, c)"

definition json_string_decode :: "('v, 'e) serde_json \<Rightarrow> unit \<Rightarrow> str \<Rightarrow> ('e, 'v) res \<times> unit" where
  "json_string_decode J c input = (sj_from_str J input, c)"

text \<open>The codecs make a fresh encoder or decoder for every call. \<open>t\<close> is the \<open>TypeId\<close> of the codec
  type and its name.\<close>

definition json_bytes_value_codec ::
  "('v, 'e) serde_json \<Rightarrow> type_id \<times> str \<Rightarrow> (unit, 'v, 'v, u8 list, u8 list, 'e, 'e) value_codec_type" where
  "json_bytes_value_codec J t =
    \<lparr>vt_type_id = fst t, vt_type_name = snd t, vt_default = (),
     vt_encode = (\<lambda>c input. (fst (json_bytes_encode J () input), c)),
     vt_decode = (\<lambda>c input. (fst (json_bytes_decode J () input), c))\<rparr>"

definition json_string_value_codec ::
  "('v, 'e) serde_json \<Rightarrow> type_id \<times> str \<Rightarrow> (unit, 'v, 'v, str, str, 'e, 'e) value_codec_type" where
  "json_string_value_codec J t =
    \<lparr>vt_type_id = fst t, vt_type_name = snd t, vt_default = (),
     vt_encode = (\<lambda>c input. (fst (json_string_encode J () input), c)),
     vt_decode = (\<lambda>c input. (fst (json_string_decode J () input), c))\<rparr>"

section \<open>Registration\<close>

text \<open>The two macros; the first has a form for values that are encoded from a borrowed form.\<close>

definition register_value_string_codec_borrowed ::
  "str \<Rightarrow> ('x \<Rightarrow> type_id) \<Rightarrow> ('c, 'v, 'i, 'o, 'w, 'ee, 'de) value_codec_type \<Rightarrow> ('v, 'x) rust_type \<Rightarrow> ('v \<Rightarrow> 'i) \<Rightarrow>
   registration_source \<Rightarrow> (unit, unit \<Rightarrow> ('x, 'o, 'w, 'ee, 'de) descriptor registration) res" where
  "register_value_string_codec_borrowed i type_id_of C V borrow source =
    map_ok (\<lambda>i _. \<lparr>reg_id = i, reg_descriptor = string_descriptor_of_borrowed type_id_of C V borrow, reg_source = source\<rparr>)
      (id_new i)"

definition register_value_string_codec ::
  "str \<Rightarrow> ('x \<Rightarrow> type_id) \<Rightarrow> ('c, 'v, 'v, 'o, 'w, 'ee, 'de) value_codec_type \<Rightarrow> ('v, 'x) rust_type \<Rightarrow>
   registration_source \<Rightarrow> (unit, unit \<Rightarrow> ('x, 'o, 'w, 'ee, 'de) descriptor registration) res" where
  "register_value_string_codec i type_id_of C V source =
    map_ok (\<lambda>i _. \<lparr>reg_id = i, reg_descriptor = string_descriptor_of type_id_of C V, reg_source = source\<rparr>) (id_new i)"

definition register_value_bytes_codec ::
  "str \<Rightarrow> ('x \<Rightarrow> type_id) \<Rightarrow> ('c, 'v, 'v, 'o, 'w, 'ee, 'de) value_codec_type \<Rightarrow> ('v, 'x) rust_type \<Rightarrow>
   registration_source \<Rightarrow> (unit, unit \<Rightarrow> ('x, 'o, 'w, 'ee, 'de) descriptor registration) res" where
  "register_value_bytes_codec i type_id_of C V source =
    map_ok (\<lambda>i _. \<lparr>reg_id = i, reg_descriptor = bytes_descriptor_of type_id_of C V, reg_source = source\<rparr>) (id_new i)"

definition str_of :: "string \<Rightarrow> str" where
  "str_of = map of_char"

definition json_string_value_codec_id :: str where
  "json_string_value_codec_id = str_of ''qubit.codec.json.string''"

definition json_bytes_value_codec_id :: str where
  "json_bytes_value_codec_id = str_of ''qubit.codec.json.bytes''"

definition json_string_registration ::
  "('x \<Rightarrow> type_id) \<Rightarrow> ('v, 'e) serde_json \<Rightarrow> type_id \<times> str \<Rightarrow> ('v, 'x) rust_type \<Rightarrow> registration_source \<Rightarrow>
   (unit, unit \<Rightarrow> ('x, str, str, 'e, 'e) descriptor registration) res" where
  "json_string_registration type_id_of J t V source =
    register_value_string_codec json_string_value_codec_id type_id_of (json_string_value_codec J t) V source"

definition json_bytes_registration ::
  "('x \<Rightarrow> type_id) \<Rightarrow> ('v, 'e) serde_json \<Rightarrow> type_id \<times> str \<Rightarrow> ('v, 'x) rust_type \<Rightarrow> registration_source \<Rightarrow>
   (unit, unit \<Rightarrow> ('x, u8 list, u8 list, 'e, 'e) descriptor registration) res" where
  "json_bytes_registration type_id_of J t V source =
    register_value_bytes_codec json_bytes_value_codec_id type_id_of (json_bytes_value_codec J t) V source"

section \<open>The registered codecs\<close>

text \<open>Both identifiers are well formed, so the macros compile.\<close>

lemma json_ids_valid:
  "id_new json_string_value_codec_id = Ok (ValueCodecId json_string_value_codec_id)"
  "id_new json_bytes_value_codec_id = Ok (ValueCodecId json_bytes_value_codec_id)"
proof -
  have "validate_id json_string_value_codec_id = Ok ()" "validate_id json_bytes_value_codec_id = Ok ()" by code_simp+
  then show "id_new json_string_value_codec_id = Ok (ValueCodecId json_string_value_codec_id)"
    "id_new json_bytes_value_codec_id = Ok (ValueCodecId json_bytes_value_codec_id)"
    by (simp_all add: id_new_def id_try_new_def)
qed

lemma json_registrations:
  "json_string_registration type_id_of J t V source = Ok (\<lambda>_. \<lparr>reg_id = ValueCodecId json_string_value_codec_id,
    reg_descriptor = string_descriptor_of type_id_of (json_string_value_codec J t) V, reg_source = source\<rparr>)"
  "json_bytes_registration type_id_of J t V source = Ok (\<lambda>_. \<lparr>reg_id = ValueCodecId json_bytes_value_codec_id,
    reg_descriptor = string_descriptor_of type_id_of (json_bytes_value_codec J t) V, reg_source = source\<rparr>)"
  by (simp_all add: json_string_registration_def json_bytes_registration_def register_value_string_codec_def
      register_value_bytes_codec_def json_ids_valid bytes_as_string)

text \<open>What the process-wide registry holds, and that it stays as it is.\<close>

lemma try_global_found:
  assumes "try_global factories None = (Ok g, cell)" "f \<in> set factories"
  shows "registry_get g (id_str (reg_id (f ()))) = Some (f ())"
    "try_global factories cell = (Ok g, cell)" "global_registry factories cell = (Ok g, cell)"
proof -
  from assms(1) have "registry_build (map (\<lambda>factory. factory ()) factories) = Ok g" "cell = Some (Ok g)"
    by (auto simp: try_global_def Let_def)
  then show "registry_get g (id_str (reg_id (f ()))) = Some (f ())"
    "try_global factories cell = (Ok g, cell)" "global_registry factories cell = (Ok g, cell)"
    using registry_found [of "map (\<lambda>factory. factory ()) factories" g "f ()"] assms(2)
    by (simp_all add: try_global_def global_registry_def)
qed

context any_type
begin

lemma descriptor_encode:
  "ds_encode (string_descriptor_of type_id_of C V) x =
    (case rt_downcast_ref V x of
       Some v \<Rightarrow> map_err (EncodeFailed (vt_type_name C)) (fst (vt_encode C (vt_default C) v))
     | None \<Rightarrow> Err (TypeMismatch (rt_type_name V) (type_id_of x)))"
  by (simp add: string_descriptor_of_def string_descriptor_of_borrowed_def string_encode_def split: option.splits)

end

section \<open>Property\<close>

text \<open>C40. The JSON codecs of a program that links them: whatever else is registered, when the
  process-wide registries can be built, each finds its JSON codec under the published identifier, now
  and on every later call. The codec is \<open>serde_json\<close> behind the type check: a value of the
  registered type is encoded by it, any other value is refused with both types, the input is decoded by
  it and boxed, and its errors come back under the name of the codec.\<close>

theorem json_codecs_found:
  assumes "any_type type_id_of V"
    and "json_string_registration type_id_of J ts V source = Ok fs" "fs \<in> set string_factories"
    and "try_global string_factories None = (Ok gs, cells)"
    and "json_bytes_registration type_id_of J tb V source' = Ok fb" "fb \<in> set bytes_factories"
    and "try_global bytes_factories None = (Ok gb, cellb)"
  shows "(\<exists>r. registry_get gs (str_of ''qubit.codec.json.string'') = Some r \<and>
      (\<forall>x. ds_encode (reg_descriptor r) x =
        (case rt_downcast_ref V x of Some v \<Rightarrow> map_err (EncodeFailed (snd ts)) (sj_to_string J v)
         | None \<Rightarrow> Err (TypeMismatch (rt_type_name V) (type_id_of x)))) \<and>
      (\<forall>w. ds_decode (reg_descriptor r) w = map_err (DecodeFailure (snd ts)) (map_ok (rt_box V) (sj_from_str J w)))) \<and>
    (\<exists>r. registry_get gb (str_of ''qubit.codec.json.bytes'') = Some r \<and>
      (\<forall>x. ds_encode (reg_descriptor r) x =
        (case rt_downcast_ref V x of Some v \<Rightarrow> map_err (EncodeFailed (snd tb)) (sj_to_vec J v)
         | None \<Rightarrow> Err (TypeMismatch (rt_type_name V) (type_id_of x)))) \<and>
      (\<forall>w. ds_decode (reg_descriptor r) w = map_err (DecodeFailure (snd tb)) (map_ok (rt_box V) (sj_from_slice J w)))) \<and>
    global_registry string_factories cells = (Ok gs, cells) \<and> global_registry bytes_factories cellb = (Ok gb, cellb)"
proof -
  note string = try_global_found [OF assms(4,3)] and bytes = try_global_found [OF assms(7,6)]
  from assms(2,5) have f: "reg_id (fs ()) = ValueCodecId json_string_value_codec_id"
    "reg_descriptor (fs ()) = string_descriptor_of type_id_of (json_string_value_codec J ts) V"
    "reg_id (fb ()) = ValueCodecId json_bytes_value_codec_id"
    "reg_descriptor (fb ()) = string_descriptor_of type_id_of (json_bytes_value_codec J tb) V"
    by (auto simp: json_registrations)
  note defs = string_descriptor_of_def string_descriptor_of_borrowed_def string_decode_def
    json_string_value_codec_def json_bytes_value_codec_def json_string_encode_def json_string_decode_def
    json_bytes_encode_def json_bytes_decode_def
  have "registry_get gs (str_of ''qubit.codec.json.string'') = Some (fs ())" "registry_get gb (str_of ''qubit.codec.json.bytes'') = Some (fb ())"
    using string(1) bytes(1) f(1,3) by (simp_all add: json_string_value_codec_id_def json_bytes_value_codec_id_def)
  moreover have "ds_encode (reg_descriptor (fs ())) x = (case rt_downcast_ref V x of Some v \<Rightarrow> map_err (EncodeFailed (snd ts)) (sj_to_string J v)
      | None \<Rightarrow> Err (TypeMismatch (rt_type_name V) (type_id_of x)))"
    "ds_encode (reg_descriptor (fb ())) x = (case rt_downcast_ref V x of Some v \<Rightarrow> map_err (EncodeFailed (snd tb)) (sj_to_vec J v)
      | None \<Rightarrow> Err (TypeMismatch (rt_type_name V) (type_id_of x)))" for x
    unfolding f any_type.descriptor_encode [OF assms(1)]
    by (simp_all add: json_string_value_codec_def json_bytes_value_codec_def json_string_encode_def json_bytes_encode_def
        split: option.split)
  moreover have "ds_decode (reg_descriptor (fs ())) w = map_err (DecodeFailure (snd ts)) (map_ok (rt_box V) (sj_from_str J w))"
    "ds_decode (reg_descriptor (fb ())) w = map_err (DecodeFailure (snd tb)) (map_ok (rt_box V) (sj_from_slice J w))" for w
    by (simp_all add: f defs)
  ultimately show ?thesis using string(3) bytes(3) by blast
qed

text \<open>A library for one-digit numbers.\<close>

definition digit_json :: "(u16, unit) serde_json" where
  "digit_json =
    (let write_digit = (\<lambda>v. if v < 10 then Ok [0x30 + ucast v] else Err ());
         read_digit = (\<lambda>w. case w of [b] \<Rightarrow> if 0x30 \<le> b \<and> b < 0x3a then Ok (ucast (b - 0x30)) else Err () | _ \<Rightarrow> Err ()) in
     \<lparr>sj_to_vec = write_digit, sj_from_slice = read_digit, sj_to_string = write_digit, sj_from_str = read_digit\<rparr>)"

theorem json_codecs_found_witness:
  "\<exists>fs fb gs gb rs rb. json_string_registration sample_type_id digit_json (1, []) u16_type (RegistrationSource [] [] [] 23) = Ok fs \<and>
    json_bytes_registration sample_type_id digit_json (2, []) u16_type (RegistrationSource [] [] [] 29) = Ok fb \<and>
    fst (try_global [fs] None) = Ok gs \<and> fst (try_global [fb] None) = Ok gb \<and>
    registry_get gs (str_of ''qubit.codec.json.string'') = Some rs \<and> ds_encode (reg_descriptor rs) (AnyU16 7) = Ok [0x37] \<and>
    ds_encode (reg_descriptor rs) (AnyU16 70) = Err (EncodeFailed [] ()) \<and>
    registry_get gb (str_of ''qubit.codec.json.bytes'') = Some rb \<and> ds_decode (reg_descriptor rb) [0x38] = Ok (AnyU16 8) \<and>
    ds_decode (reg_descriptor rb) [] = Err (DecodeFailure [] ())"
proof -
  obtain fs where fs: "json_string_registration sample_type_id digit_json (1, []) u16_type (RegistrationSource [] [] [] 23) = Ok fs"
    by (simp add: json_registrations)
  obtain fb where fb: "json_bytes_registration sample_type_id digit_json (2, []) u16_type (RegistrationSource [] [] [] 29) = Ok fb"
    by (simp add: json_registrations)
  have single: "registry_build [r] = Ok \<lparr>rg_registrations = [r], rg_indices = collect_indices [r]\<rparr>" for r :: "'d registration"
    by (simp add: registry_build_def Let_def)
  obtain gs cells where gs: "try_global [fs] None = (Ok gs, cells)" by (simp add: try_global_def single Let_def)
  obtain gb cellb where gb: "try_global [fb] None = (Ok gb, cellb)" by (simp add: try_global_def single Let_def)
  have "fs \<in> set [fs]" "fb \<in> set [fb]" by simp_all
  from json_codecs_found [OF any_u16.any_type_axioms fs this(1) gs fb this(2) gb] obtain rs rb where
    "registry_get gs (str_of ''qubit.codec.json.string'') = Some rs" "registry_get gb (str_of ''qubit.codec.json.bytes'') = Some rb"
    "ds_encode (reg_descriptor rs) (AnyU16 7) = Ok [0x37]" "ds_encode (reg_descriptor rs) (AnyU16 70) = Err (EncodeFailed [] ())"
    "ds_decode (reg_descriptor rb) [0x38] = Ok (AnyU16 8)" "ds_decode (reg_descriptor rb) [] = Err (DecodeFailure [] ())"
    by (auto simp: u16_type_def digit_json_def Let_def)
  with fs fb gs gb show ?thesis by (intro exI conjI) (assumption | simp)+
qed

end
