(* ===== verification/Spec2Isabelle.thy ===== *)
theory Spec2Isabelle
  imports Witnesses AsyncWitnesses ConvertWitnesses StepWitnesses EofMark BenchMain JsonCodecs
begin

text \<open>
  A verification library for the Rust crate \<open>qubit-codec\<close>. Paths below are relative to
  the crate's \<open>src\<close> directory.

  The program. A \<open>Codec\<close> (\<open>codec/codec/codec.rs\<close>) converts one value to or from a few
  units and may keep state. An engine (\<open>transcode/engine\<close>) owns a codec and a set of hooks
  and moves whole slices: \<open>reset\<close>, any number of \<open>transcode\<close> calls over caller-provided
  input and output windows, \<open>finish\<close>. Each call returns a \<open>TranscodeProgress\<close> that
  says how much was read and written and whether the call is complete or needs input or output.
  Hooks decide what happens to unencodable, invalid and incomplete data. The convert engine couples
  a decode engine and an encode engine through a slot for one value that did not fit. Adapters give
  a codec the strict hooks.

  Modelling conventions (Prelude). Slices are lists; a mutable slice is passed in and returned; a
  \<open>usize\<close> is a \<open>nat\<close>, and arithmetic that can overflow is written with
  \<open>checked_add\<close>, \<open>checked_mul\<close> or the saturating operations against
  \<open>usize_max\<close>; \<open>NonZeroUsize\<close> is \<open>nonzero\<close>. A fallible call returns
  \<open>res\<close> with the constructors \<open>Ok\<close>, \<open>Err\<close> and \<open>Panic\<close>; every \<open>assert!\<close>,
  \<open>debug_assert!\<close> that the crate relies on, \<open>expect\<close> and index out of range is a
  \<open>Panic\<close> branch. \<open>&mut self\<close> is state passing: an operation returns the result, the new
  state and the new output. Codecs, hooks and transcoders are traits, so they are records of
  functions over a state type of their own and parameters of the engines; what the crate documents
  of them is the assumption list of a locale, and every locale is interpreted on codecs that the
  repository itself contains.

  Theories and what they model.

  \<^item> Failure: \<open>transcode/transcode_failure.rs\<close>, \<open>transcode_domain_error.rs\<close>,
    \<open>transcode_encode_error.rs\<close>, \<open>transcode_decode_error.rs\<close>,
    \<open>transcode_convert_error.rs\<close>, \<open>capacity_error.rs\<close>, \<open>transcode_contract_error.rs\<close>.
  \<^item> Progress: \<open>transcode/transcode_status.rs\<close> and \<open>transcode_progress.rs\<close>.
  \<^item> Lifecycle: \<open>transcode/internal/lifecycle_guard.rs\<close>. Its locale \<open>guarded_engine\<close>
    states what a public call does to the guard and derives the guard's state after every sequence of
    calls; the three engines interpret it.
  \<^item> Codec: the \<open>Codec\<close> trait with its default methods, and \<open>DecodeFailure\<close>.
  \<^item> Cursor: the cursors \<open>TranscodeState\<close>, \<open>EncodeState\<close>, \<open>EncodeAttempt\<close>,
    \<open>DecodeState\<close>, \<open>ConvertState\<close>, the contexts given to hooks, and the locale
    \<open>engine_loop\<close>, which carries the invariant of the engines' loops.
  \<^item> Transcoder: \<open>transcode/transcoder.rs\<close> with the one-shot \<open>transcode_complete_into\<close>; the
    locale \<open>transcoder_contract\<close> states what an implementation must promise for the one-shot
    pass not to panic.
  \<^item> EncodeEngine, DecodeEngine, ConvertEngine: the engines, operation by operation.
  \<^item> Adapters: the strict hooks and \<open>CodecTranscodeEncoder\<close>, \<open>CodecTranscodeDecoder\<close> and
    \<open>CodecTranscodeConverter\<close>.
  \<^item> EncodeContract, DecodeContract: the abstract specification of a call as a recursion over the
    remaining values or units (\<open>encode_stream\<close>, \<open>decode_stream\<close>), the contracts of codecs
    and hooks as locales, and the proof that the engines' loops compute the specification.
  \<^item> SampleCodecs: \<open>U16BeCodec\<close> and \<open>MarkerCodec\<close> of the examples, the codec, the hooks
    and the oracle of the fuzz target \<open>transcode_decode_engine.rs\<close>, with the contracts proved of
    them.
  \<^item> Streams: the properties that follow for callers. Witnesses: concrete runs. DecodeFuzz: the fuzz
    target \<open>transcode_decode_engine.rs\<close>, whole, and that it never fails.
  \<^item> ConvertContract: the specification of a converter call (\<open>convert_stream\<close>), which alternates
    turns of a decoder and of an encoder with at most one value between them; the locale
    \<open>conversion\<close> is what the two sides promise turn by turn, hooks with state of their own included.
    ConvertStreams: a caller that drives a converter in any way (\<open>cv_driven\<close>), and conversion as
    decoding followed by encoding. ConvertFuzz: the fuzz target
    \<open>transcode_convert_engine_partition.rs\<close>, whole. ConvertOracle: that it never fails.
    ConvertWitnesses: concrete conversions.
  \<^item> ValueCodec: \<open>value/codec_value_encoder.rs\<close>, \<open>codec_value_decoder.rs\<close> and
    \<open>codec_value_lifecycle.rs\<close>. The specification of a stored value is its frame: reset units,
    the units of the value, finish units.
  \<^item> Registry: the identifier grammar of \<open>value/value_codec_id.rs\<close> and the sorted,
    duplicate-free registry of \<open>value_codec_registry.rs\<close>, with its process-wide cell. Descriptor:
    the type-erased descriptors; \<open>core::any\<close> is the locale \<open>any_type\<close>. JsonCodecs: the JSON codecs
    \<open>value/json_*\<close> over a parameter \<open>serde_json\<close>, the macros of
    \<open>value_codec_registration_macros.rs\<close> as functions to the factory they submit, and the two
    registrations of \<open>json_value_codec_registration.rs\<close>, found in the process-wide registries.
  \<^item> IoBase: I/O errors, report validation and the interface of a buffered input. The crates
    \<open>qubit_io\<close> and \<open>qubit_utils\<close> are not part of the repository: their types are records of
    functions, and the locales \<open>buffered_source\<close> and \<open>buffered_sink\<close> state what the bridge
    relies on. Both are interpreted on in-memory models that arrive in pieces, fail and get
    interrupted as a script says.
  \<^item> DecodeDriver: \<open>transcode/io/internal/codec_decode_driver.rs\<close>. DecodeInput, DecodeReading:
    \<open>transcode/io/transcode_decode_input.rs\<close>, the streaming calls and the reading of one
    lifecycle.
  \<^item> DecodeBatch: the contract of a streaming decoder as a run on lists (\<open>stream_decoder\<close>), and
    that \<open>transcode\<close> on a decode input is one such run. DecodeSources: the decode engine and the
    fuzz target's \<open>MarkerDecoder\<close> keep that contract. EofMark: every history of calls of a decode input,
    over a source that may grow (\<open>di_history\<close>), and what its mark for end of input tells. DecodeSteps: any
    sequence of \<open>transcode_step\<close> calls and refills, closed by \<open>transcode_eof_step\<close>, is one such run.
    DecodeInputFuzz: the fuzz target \<open>transcode_decode_input_lifecycle.rs\<close>, whole, over an
    in-memory cursor, and that it passes on every data.
  \<^item> EncodeOutput: \<open>transcode/io/transcode_encode_output.rs\<close>. EncodeDelivery: what its calls
    commit. EncodeSinks: the encode engine and the fuzz target's \<open>MarkerEncoder\<close> as encoders of
    it, and the fuzz target itself. EncodeSteps: writing with \<open>transcode_step\<close> and the loop around it.
    Examples: the programs \<open>examples/io_transcode_step.rs\<close> and \<open>examples/decode_lifecycle.rs\<close>.
  \<^item> IoRoundtrip: the two sides together. IoWitnesses, IoDelivery, StepWitnesses: concrete runs of
    the bridge.
  \<^item> Polls: the answer of a poll and \<open>await\<close>. AsyncInput: the operations of
    \<open>transcode/io/async_transcode_decode_input.rs\<close>, one poll at a time. AsyncReading: the relation
    \<open>adi_driven\<close> of all the ways a caller may drive them (waiting, abandoning and repeating polls,
    refilling), and that each of them is one run of the decoder. AsyncOutput:
    \<open>transcode/io/async_transcode_encode_output.rs\<close>. AsyncWriting, AsyncSinks: what driven polls
    commit (\<open>aeo_driven\<close>), and the in-memory endpoints the locales are interpreted on.
    AsyncWitnesses: concrete asynchronous runs.
  \<^item> BenchCodecs: the codecs, hooks and the transcoder of \<open>benches/transcode.rs\<close>, with their
    contracts. Benchmarks: its checks and its timed loops, and the locales \<open>windowed\<close> and \<open>copying\<close>,
    in which they are proved to end and to accept. BenchRuns: the engines, the adapter and the
    converter of the benchmark as interpretations of them. BenchMain: the benchmark, whole, with the
    number of iterations as an argument, and that it never fails.

  Loops. The loops of the engines end because each turn consumes input or returns.
  \<open>ee_transcode_loop\<close>, \<open>de_transcode_loop\<close> and \<open>cv_transcode_loop\<close> are total functions whose
  termination is proved by the measure of the input that is left. The loops of the I/O bridge call
  code outside the crate, so they are partial functions into \<open>option\<close> (\<open>read_one_loop\<close>,
  \<open>di_batch_loop\<close>, \<open>eo_batch_loop\<close>, \<open>eo_write_all_from\<close>, \<open>eo_step_all\<close>, \<open>await\<close>), and so
  are the loops of the benchmark (\<open>run_output_loop\<close>, \<open>run_engine_loop\<close>, \<open>variable_loop\<close>), where \<open>None\<close> is a call that does not
  return; that they return is proved, from the contracts of the input, the output and the decoder,
  for the benchmark's transcoders from \<open>windowed\<close>, and for \<open>eo_batch_loop\<close> without any contract. The scheduled driver of the partition fuzz target
  (\<open>partition_loop\<close>) ends by the step limit its source asserts, \<open>64 * (n + 1) + 64\<close> for \<open>n\<close> units; a
  turn moves the cursor, the visible prefix or the end mark, so that \<open>2 * n + 2\<close> turns suffice and
  the assertion never fails. The driver of the decode engine fuzz target (\<open>decode_drive_loop\<close>) ends by
  its step limit too, \<open>16 * (n + 1) + 32\<close>; each of its turns reads, widens the window, shows more
  input or reports its end, and \<open>drive_left\<close> bounds how often that can happen. No model uses fuel.

  Not modelled. The byte order markers (one constant each, no operation), the text of error messages, the
  \<open>Default\<close>, \<open>Clone\<close>, \<open>Display\<close>, \<open>Debug\<close> and accessor methods, and the settings and time
  measurements of the criterion benchmark. \<open>serde_json\<close>, \<open>qubit_io\<close>, \<open>qubit_utils\<close> and the
  link-time collection by \<open>inventory\<close> are not part of the repository: they are parameters, and the
  list of linked factories is an argument of the registry.
\<close>

end
